(* ===== verification/P9Base.thy ===== *)
theory P9Base
  imports Main "HOL-Library.Word" "HOL-Library.Monad_Syntax"
begin

unbundle bit_operations_syntax

text \<open>
  Shared ground of the development: the C integer types as words, a flat byte memory whose
  accesses fail with \<open>None\<close> when they leave the object they were given, the little-endian
  accessors of \<^verbatim>\<open>sys/include/fcall.h\<close>, and the facts about them that every codec
  proof uses.

  A pointer into a buffer is an offset, a buffer a list of bytes.  Reading or writing outside
  of it is undefined behaviour in C; here it is the value \<open>None\<close>, so that memory safety is a
  theorem about the definitions and not an assumption.
\<close>

named_theorems mem_simps \<open>evaluation of byte memory accesses that are in bounds\<close>

type_synonym uchar = "8 word"
type_synonym ushort = "16 word"
type_synonym u32int = "32 word"
type_synonym uvlong = "64 word"
type_synonym mem = "uchar list"

text \<open>A C string pointer: \<open>None\<close> is nil, otherwise the bytes before the terminating NUL.\<close>

type_synonym cstr = "uchar list option"

subsection \<open>Sizes of the basic fields\<close>

abbreviation (input) BIT8SZ :: nat where "BIT8SZ \<equiv> 1"
abbreviation (input) BIT16SZ :: nat where "BIT16SZ \<equiv> 2"
abbreviation (input) BIT32SZ :: nat where "BIT32SZ \<equiv> 4"
abbreviation (input) BIT64SZ :: nat where "BIT64SZ \<equiv> 8"
abbreviation (input) QIDSZ :: nat where "QIDSZ \<equiv> 13"

subsection \<open>Byte memory\<close>

definition memget :: "mem \<Rightarrow> nat \<Rightarrow> nat \<Rightarrow> mem option" where
  "memget buf p n = (if p + n \<le> length buf then Some (take n (drop p buf)) else None)"

definition memput :: "mem \<Rightarrow> nat \<Rightarrow> mem \<Rightarrow> mem option" where
  "memput buf p bs =
     (if p + length bs \<le> length buf
      then Some (take p buf @ bs @ drop (p + length bs) buf) else None)"

text \<open>The bytes of a little-endian number, least significant first.\<close>

definition le16 :: "ushort \<Rightarrow> mem" where
  "le16 v = [ucast v, ucast (drop_bit 8 v)]"

definition le32 :: "u32int \<Rightarrow> mem" where
  "le32 v = [ucast v, ucast (drop_bit 8 v), ucast (drop_bit 16 v), ucast (drop_bit 24 v)]"

definition le64 :: "uvlong \<Rightarrow> mem" where
  "le64 v = [ucast v, ucast (drop_bit 8 v), ucast (drop_bit 16 v), ucast (drop_bit 24 v),
     ucast (drop_bit 32 v), ucast (drop_bit 40 v), ucast (drop_bit 48 v), ucast (drop_bit 56 v)]"

definition of_le16 :: "mem \<Rightarrow> ushort" where
  "of_le16 b = ucast (b ! 0) OR push_bit 8 (ucast (b ! 1))"

definition of_le32 :: "mem \<Rightarrow> u32int" where
  "of_le32 b = ucast (b ! 0) OR push_bit 8 (ucast (b ! 1)) OR push_bit 16 (ucast (b ! 2))
     OR push_bit 24 (ucast (b ! 3))"

text \<open>
  \<^verbatim>\<open>GBIT64\<close> builds the low word as \<^verbatim>\<open>u32int\<close> and shifts a sign-extended high
  word; the sign bits leave the 64-bit result.
\<close>

definition of_le64 :: "mem \<Rightarrow> uvlong" where
  "of_le64 b = ucast (of_le32 b) OR push_bit 32 (scast (of_le32 (drop 4 b)))"

text \<open>The accessors at an offset, as the macros are used.\<close>

definition GBIT8 :: "mem \<Rightarrow> nat \<Rightarrow> uchar option" where
  "GBIT8 buf p = map_option (\<lambda>b. b ! 0) (memget buf p 1)"

definition GBIT16 :: "mem \<Rightarrow> nat \<Rightarrow> ushort option" where
  "GBIT16 buf p = map_option of_le16 (memget buf p 2)"

definition GBIT32 :: "mem \<Rightarrow> nat \<Rightarrow> u32int option" where
  "GBIT32 buf p = map_option of_le32 (memget buf p 4)"

definition GBIT64 :: "mem \<Rightarrow> nat \<Rightarrow> uvlong option" where
  "GBIT64 buf p = map_option of_le64 (memget buf p 8)"

definition PBIT8 :: "mem \<Rightarrow> nat \<Rightarrow> uchar \<Rightarrow> mem option" where
  "PBIT8 buf p v = memput buf p [v]"

definition PBIT16 :: "mem \<Rightarrow> nat \<Rightarrow> ushort \<Rightarrow> mem option" where
  "PBIT16 buf p v = memput buf p (le16 v)"

definition PBIT32 :: "mem \<Rightarrow> nat \<Rightarrow> u32int \<Rightarrow> mem option" where
  "PBIT32 buf p v = memput buf p (le32 v)"

definition PBIT64 :: "mem \<Rightarrow> nat \<Rightarrow> uvlong \<Rightarrow> mem option" where
  "PBIT64 buf p v = memput buf p (le64 v)"

lemmas pbit_defs = PBIT8_def PBIT16_def PBIT32_def PBIT64_def
lemmas gbit_defs = GBIT8_def GBIT16_def GBIT32_def GBIT64_def

text \<open>A string literal, and \<^verbatim>\<open>assert\<close>.\<close>

definition bytes :: "string \<Rightarrow> uchar list" where
  "bytes s = map of_char s"

definition assertion :: "bool \<Rightarrow> unit option" where
  "assertion b = (if b then Some () else None)"

lemma assertion_simps [simp]: "assertion True = Some ()" "assertion False = None"
  by (simp_all add: assertion_def)

subsection \<open>Lengths and word round trips\<close>

lemma length_le [simp]: "length (le16 a) = 2" "length (le32 b) = 4" "length (le64 c) = 8"
  by (simp_all add: le16_def le32_def le64_def)

lemma of_le16_le16 [simp]: "of_le16 (le16 v) = v"
  by (rule bit_word_eqI) (auto simp: of_le16_def le16_def bit_simps)

lemma of_le32_le32 [simp]: "of_le32 (le32 v) = v"
proof (rule bit_word_eqI)
  fix n assume "n < LENGTH(32)"
  then show "bit (of_le32 (le32 v)) n = bit v n"
    by (cases "n < 16"; cases "n < 24") (auto simp: of_le32_def le32_def bit_simps)
qed

lemma of_le32_halves:
  "of_le32 (le64 v) = ucast v" "of_le32 (drop 4 (le64 v)) = ucast (drop_bit 32 v)"
proof -
  have "of_le32 (le64 v) = of_le32 (le32 (ucast v))"
    by (simp add: of_le32_def le64_def le32_def) (auto intro!: bit_word_eqI simp: bit_simps)
  then show "of_le32 (le64 v) = ucast v" by simp
  have "drop 4 (le64 v) = le32 (ucast (drop_bit 32 v))"
    by (auto simp: le64_def le32_def intro!: bit_word_eqI simp: bit_simps)
  then show "of_le32 (drop 4 (le64 v)) = ucast (drop_bit 32 v)" by simp
qed

lemma of_le64_le64 [simp]: "of_le64 (le64 v) = v"
  by (rule bit_word_eqI) (auto simp: of_le64_def of_le32_halves bit_simps)

subsection \<open>Decoding inverts encoding both ways\<close>

lemma length_2_conv: "length b = 2 \<longleftrightarrow> (\<exists>x y. b = [x, y])"
  by (auto simp: numeral_2_eq_2 length_Suc_conv)

lemma length_4_conv: "length b = 4 \<longleftrightarrow> (\<exists>w x y z. b = [w, x, y, z])"
  by (auto simp: eval_nat_numeral length_Suc_conv)

lemma bit_uchar_beyond: "8 \<le> n \<Longrightarrow> \<not> bit (x :: uchar) n"
  by (auto dest: bit_imp_le_length)

lemma le16_of_le16: "length b = 2 \<Longrightarrow> le16 (of_le16 b) = b"
  by (auto simp: length_2_conv le16_def of_le16_def bit_simps bit_uchar_beyond
    intro!: bit_word_eqI)

lemma le32_of_le32: "length b = 4 \<Longrightarrow> le32 (of_le32 b) = b"
  by (auto simp: length_4_conv le32_def of_le32_def bit_simps bit_uchar_beyond
    intro!: bit_word_eqI)

subsection \<open>Writing: an image grows at the front of a buffer\<close>

text \<open>
  \<open>img bs buf\<close> is \<open>buf\<close> with its first bytes overwritten by \<open>bs\<close>: what a routine that
  fills a buffer from the start has produced so far.  Every in-bounds write at the end of the
  image extends the image, which turns a sequence of writes into a concatenation.
\<close>

definition img :: "mem \<Rightarrow> mem \<Rightarrow> mem" where
  "img bs buf = bs @ drop (length bs) buf"

lemma img_Nil [simp]: "img [] buf = buf"
  by (simp add: img_def)

lemma length_img [simp]: "length bs \<le> length buf \<Longrightarrow> length (img bs buf) = length buf"
  by (simp add: img_def)

lemma take_img [simp]: "take (length bs) (img bs buf) = bs"
  by (simp add: img_def)

lemma drop_img: "length bs \<le> n \<Longrightarrow> drop n (img bs buf) = drop n buf"
  by (simp add: img_def)

lemma memput_img [mem_simps]:
  "p = length bs \<Longrightarrow> p + length cs \<le> length buf \<Longrightarrow>
   memput (img bs buf) p cs = Some (img (bs @ cs) buf)"
  by (simp add: memput_def img_def add.commute)

lemma pbit_img [mem_simps]:
  "p = length bs \<Longrightarrow> p + 1 \<le> length buf \<Longrightarrow> PBIT8 (img bs buf) p v1 = Some (img (bs @ [v1]) buf)"
  "p = length bs \<Longrightarrow> p + 2 \<le> length buf \<Longrightarrow> PBIT16 (img bs buf) p v2 = Some (img (bs @ le16 v2) buf)"
  "p = length bs \<Longrightarrow> p + 4 \<le> length buf \<Longrightarrow> PBIT32 (img bs buf) p v3 = Some (img (bs @ le32 v3) buf)"
  "p = length bs \<Longrightarrow> p + 8 \<le> length buf \<Longrightarrow> PBIT64 (img bs buf) p v4 = Some (img (bs @ le64 v4) buf)"
  by (simp_all add: pbit_defs memput_img)

subsection \<open>Reading: what lies ahead of a cursor\<close>

lemma memget_Some_iff: "memget buf p n = Some b \<longleftrightarrow> p + n \<le> length buf \<and> b = take n (drop p buf)"
  by (auto simp: memget_def)

lemma memget_ahead:
  assumes "drop p buf = bs @ rest" "length bs = n" "p \<le> length buf"
  shows "memget buf p n = Some bs"
proof -
  have "length buf - p = n + length rest"
    using assms by (metis length_append length_drop)
  with assms show ?thesis by (simp add: memget_def)
qed

lemma gbit_ahead:
  "drop p buf = [v1] @ rest \<Longrightarrow> p \<le> length buf \<Longrightarrow> GBIT8 buf p = Some v1"
  "drop p buf = le16 v2 @ rest \<Longrightarrow> p \<le> length buf \<Longrightarrow> GBIT16 buf p = Some v2"
  "drop p buf = le32 v3 @ rest \<Longrightarrow> p \<le> length buf \<Longrightarrow> GBIT32 buf p = Some v3"
  "drop p buf = le64 v4 @ rest \<Longrightarrow> p \<le> length buf \<Longrightarrow> GBIT64 buf p = Some v4"
  by (simp_all only: gbit_defs memget_ahead length_le list.size option.map) simp_all

lemma gbit_total [mem_simps]:
  "p + 1 \<le> length buf \<Longrightarrow> \<exists>v. GBIT8 buf p = Some v"
  "p + 2 \<le> length buf \<Longrightarrow> \<exists>v. GBIT16 buf p = Some v"
  "p + 4 \<le> length buf \<Longrightarrow> \<exists>v. GBIT32 buf p = Some v"
  "p + 8 \<le> length buf \<Longrightarrow> \<exists>v. GBIT64 buf p = Some v"
  by (simp_all add: gbit_defs memget_def)

lemma drop_ahead: "drop p buf = bs @ rest \<Longrightarrow> drop (p + length bs) buf = rest"
  by (metis append_eq_conv_conj drop_drop add.commute)

end
