(* ===== verification/Fcall.thy ===== *)
theory Fcall
  imports P9Base
begin

text \<open>
  The 9P2000 message of \<^verbatim>\<open>sys/include/fcall.h\<close>: message types, the \<^verbatim>\<open>Qid\<close> and
  \<^verbatim>\<open>Fcall\<close> structures, and the string and qid transfers that \<^verbatim>\<open>convS2M.c\<close> and
  \<^verbatim>\<open>convM2S.c\<close> share.  The anonymous unions of \<^verbatim>\<open>Fcall\<close> are laid out side by side: the
  code only reads the member that the message type selects.
\<close>

subsection \<open>Message types\<close>

abbreviation (input) Tversion :: uchar where "Tversion \<equiv> 100"
abbreviation (input) Rversion :: uchar where "Rversion \<equiv> 101"
abbreviation (input) Tauth :: uchar where "Tauth \<equiv> 102"
abbreviation (input) Rauth :: uchar where "Rauth \<equiv> 103"
abbreviation (input) Tattach :: uchar where "Tattach \<equiv> 104"
abbreviation (input) Rattach :: uchar where "Rattach \<equiv> 105"
abbreviation (input) Rerror :: uchar where "Rerror \<equiv> 107"
abbreviation (input) Tflush :: uchar where "Tflush \<equiv> 108"
abbreviation (input) Rflush :: uchar where "Rflush \<equiv> 109"
abbreviation (input) Twalk :: uchar where "Twalk \<equiv> 110"
abbreviation (input) Rwalk :: uchar where "Rwalk \<equiv> 111"
abbreviation (input) Topen :: uchar where "Topen \<equiv> 112"
abbreviation (input) Ropen :: uchar where "Ropen \<equiv> 113"
abbreviation (input) Tcreate :: uchar where "Tcreate \<equiv> 114"
abbreviation (input) Rcreate :: uchar where "Rcreate \<equiv> 115"
abbreviation (input) Tread :: uchar where "Tread \<equiv> 116"
abbreviation (input) Rread :: uchar where "Rread \<equiv> 117"
abbreviation (input) Twrite :: uchar where "Twrite \<equiv> 118"
abbreviation (input) Rwrite :: uchar where "Rwrite \<equiv> 119"
abbreviation (input) Tclunk :: uchar where "Tclunk \<equiv> 120"
abbreviation (input) Rclunk :: uchar where "Rclunk \<equiv> 121"
abbreviation (input) Tremove :: uchar where "Tremove \<equiv> 122"
abbreviation (input) Rremove :: uchar where "Rremove \<equiv> 123"
abbreviation (input) Tstat :: uchar where "Tstat \<equiv> 124"
abbreviation (input) Rstat :: uchar where "Rstat \<equiv> 125"
abbreviation (input) Twstat :: uchar where "Twstat \<equiv> 126"
abbreviation (input) Rwstat :: uchar where "Rwstat \<equiv> 127"

definition MAXWELEM :: nat where "MAXWELEM = 16"
definition NOFID :: u32int where "NOFID = NOT 0"
definition IOHDRSZ :: u32int where "IOHDRSZ = 24"

subsection \<open>Structures\<close>

record qid =
  q_path :: uvlong
  q_vers :: u32int
  q_type :: uchar

record fcall =
  fc_type :: uchar
  fc_fid :: u32int
  fc_tag :: ushort
  fc_msize :: u32int      \<comment> \<open>Tversion, Rversion\<close>
  fc_version :: cstr
  fc_oldtag :: ushort     \<comment> \<open>Tflush\<close>
  fc_ename :: cstr        \<comment> \<open>Rerror\<close>
  fc_qid :: qid           \<comment> \<open>Rattach, Ropen, Rcreate\<close>
  fc_iounit :: u32int
  fc_aqid :: qid          \<comment> \<open>Rauth\<close>
  fc_afid :: u32int       \<comment> \<open>Tauth, Tattach\<close>
  fc_uname :: cstr
  fc_aname :: cstr
  fc_perm :: u32int       \<comment> \<open>Tcreate\<close>
  fc_name :: cstr
  fc_mode :: uchar        \<comment> \<open>Tcreate, Topen\<close>
  fc_newfid :: u32int     \<comment> \<open>Twalk\<close>
  fc_nwname :: ushort
  fc_wname :: "cstr list"
  fc_nwqid :: ushort      \<comment> \<open>Rwalk\<close>
  fc_wqid :: "qid list"
  fc_offset :: uvlong     \<comment> \<open>Tread, Twrite\<close>
  fc_count :: u32int      \<comment> \<open>Tread, Twrite, Rread\<close>
  fc_data :: mem
  fc_nstat :: ushort      \<comment> \<open>Twstat, Rstat\<close>
  fc_stat :: mem

text \<open>The zeroed structures \<^verbatim>\<open>memset\<close> leaves: nil strings, zero numbers.\<close>

definition zero_qid :: qid where
  "zero_qid = \<lparr>q_path = 0, q_vers = 0, q_type = 0\<rparr>"

definition zero_fcall :: fcall where
  "zero_fcall = \<lparr>fc_type = 0, fc_fid = 0, fc_tag = 0, fc_msize = 0, fc_version = None,
     fc_oldtag = 0, fc_ename = None, fc_qid = zero_qid, fc_iounit = 0, fc_aqid = zero_qid,
     fc_afid = 0, fc_uname = None, fc_aname = None, fc_perm = 0, fc_name = None, fc_mode = 0,
     fc_newfid = 0, fc_nwname = 0, fc_wname = replicate MAXWELEM None, fc_nwqid = 0,
     fc_wqid = replicate MAXWELEM zero_qid, fc_offset = 0, fc_count = 0, fc_data = [],
     fc_nstat = 0, fc_stat = []\<rparr>"

subsection \<open>Writing strings and qids\<close>

text \<open>\<^verbatim>\<open>strlen\<close> into a \<^verbatim>\<open>uint\<close>.\<close>

definition strlen :: "uchar list \<Rightarrow> u32int" where
  "strlen s = of_nat (length s)"

definition pstring :: "mem \<Rightarrow> nat \<Rightarrow> cstr \<Rightarrow> (mem \<times> nat) option" where
  "pstring buf p s =
     (case s of
        None \<Rightarrow> do { buf \<leftarrow> PBIT16 buf p 0; Some (buf, p + BIT16SZ) }
      | Some s \<Rightarrow> do {
          let n = strlen s;
          buf \<leftarrow> memput buf (p + BIT16SZ) (take (unat n) s);
          buf \<leftarrow> PBIT16 buf p (ucast n);
          Some (buf, p + unat n + BIT16SZ) })"

definition pqid :: "mem \<Rightarrow> nat \<Rightarrow> qid \<Rightarrow> (mem \<times> nat) option" where
  "pqid buf p q = do {
     buf \<leftarrow> PBIT8 buf p (q_type q);
     let p = p + BIT8SZ;
     buf \<leftarrow> PBIT32 buf p (q_vers q);
     let p = p + BIT32SZ;
     buf \<leftarrow> PBIT64 buf p (q_path q);
     let p = p + BIT64SZ;
     Some (buf, p) }"

definition stringsz :: "cstr \<Rightarrow> u32int" where
  "stringsz s = (case s of None \<Rightarrow> 2 | Some s \<Rightarrow> 2 + strlen s)"

text \<open>
  The loops over \<^verbatim>\<open>wname\<close> and \<^verbatim>\<open>wqid\<close>: reading past the end of the array is a fault.
\<close>

fun stringszs :: "cstr list \<Rightarrow> nat \<Rightarrow> u32int option" where
  "stringszs ws 0 = Some 0"
| "stringszs [] (Suc n) = None"
| "stringszs (w # ws) (Suc n) = map_option ((+) (stringsz w)) (stringszs ws n)"

fun pstrings :: "mem \<Rightarrow> nat \<Rightarrow> cstr list \<Rightarrow> nat \<Rightarrow> (mem \<times> nat) option" where
  "pstrings buf p ws 0 = Some (buf, p)"
| "pstrings buf p [] (Suc n) = None"
| "pstrings buf p (w # ws) (Suc n) = do { (buf, p) \<leftarrow> pstring buf p w; pstrings buf p ws n }"

fun pqids :: "mem \<Rightarrow> nat \<Rightarrow> qid list \<Rightarrow> nat \<Rightarrow> (mem \<times> nat) option" where
  "pqids buf p qs 0 = Some (buf, p)"
| "pqids buf p [] (Suc n) = None"
| "pqids buf p (q # qs) (Suc n) = do { (buf, p) \<leftarrow> pqid buf p q; pqids buf p qs n }"

subsection \<open>Reading strings and qids\<close>

text \<open>
  A reader returns the buffer (\<open>gstring\<close> moves the string down over its count to make room for
  the NUL) and nil or the next position with the value.  The string's value is what C string
  functions see: the bytes before the first NUL.
\<close>

definition gstring :: "mem \<Rightarrow> nat \<Rightarrow> nat \<Rightarrow> (mem \<times> (nat \<times> cstr) option) option" where
  "gstring buf p ep =
     (if p + BIT16SZ > ep then Some (buf, None)
      else do {
        n \<leftarrow> GBIT16 buf p;
        let n = unat n;
        let p = p + BIT16SZ - 1;
        if p + n + 1 > ep then Some (buf, None)
        else do {
          b \<leftarrow> memget buf (p + 1) n;
          buf \<leftarrow> memput buf p b;
          buf \<leftarrow> memput buf (p + n) [0];
          Some (buf, Some (p + n + 1, Some (takeWhile (\<lambda>c. c \<noteq> 0) b))) } })"

definition gqid :: "mem \<Rightarrow> nat \<Rightarrow> nat \<Rightarrow> (mem \<times> (nat \<times> qid) option) option" where
  "gqid buf p ep =
     (if p + QIDSZ > ep then Some (buf, None)
      else do {
        t \<leftarrow> GBIT8 buf p;
        let p = p + BIT8SZ;
        v \<leftarrow> GBIT32 buf p;
        let p = p + BIT32SZ;
        path \<leftarrow> GBIT64 buf p;
        let p = p + BIT64SZ;
        Some (buf, Some (p, \<lparr>q_path = path, q_vers = v, q_type = t\<rparr>)) })"

text \<open>\<^verbatim>\<open>if(p == nil) break;\<close>, after which the routine returns 0.\<close>

definition unless_nil ::
  "(mem \<times> (nat \<times> 'a) option) option \<Rightarrow>
   (mem \<Rightarrow> nat \<Rightarrow> 'a \<Rightarrow> (mem \<times> (nat \<times> 'b) option) option) \<Rightarrow> (mem \<times> (nat \<times> 'b) option) option" where
  "unless_nil r k = do {
     (buf, v) \<leftarrow> r;
     case v of None \<Rightarrow> Some (buf, None) | Some (p, x) \<Rightarrow> k buf p x }"

fun gstrings :: "mem \<Rightarrow> nat \<Rightarrow> nat \<Rightarrow> nat \<Rightarrow> (mem \<times> (nat \<times> cstr list) option) option" where
  "gstrings buf p ep 0 = Some (buf, Some (p, []))"
| "gstrings buf p ep (Suc n) =
     unless_nil (gstring buf p ep) (\<lambda>buf p s.
     unless_nil (gstrings buf p ep n) (\<lambda>buf p ss. Some (buf, Some (p, s # ss))))"

fun gqids :: "mem \<Rightarrow> nat \<Rightarrow> nat \<Rightarrow> nat \<Rightarrow> (mem \<times> (nat \<times> qid list) option) option" where
  "gqids buf p ep 0 = Some (buf, Some (p, []))"
| "gqids buf p ep (Suc n) =
     unless_nil (gqid buf p ep) (\<lambda>buf p q.
     unless_nil (gqids buf p ep n) (\<lambda>buf p qs. Some (buf, Some (p, q # qs))))"

end
