(* ===== verification/Wire.thy ===== *)
theory Wire
  imports Fcall
begin

text \<open>
  The abstract message format of 9P2000, as \<^verbatim>\<open>sys/man/5/0intro\<close> lays it out: what the two
  converters are verified against.  \<open>wire f\<close> is the byte string of a message, \<open>fcall_ok f\<close> the
  condition under which a structure has one, \<open>carry f g\<close> the structure \<open>g\<close> after the members
  that \<open>f\<close>'s message type transports have been copied into it.
\<close>

subsection \<open>The format\<close>

definition cbytes :: "cstr \<Rightarrow> uchar list" where
  "cbytes s = (case s of None \<Rightarrow> [] | Some s \<Rightarrow> s)"

definition wstr :: "cstr \<Rightarrow> mem" where
  "wstr s = le16 (of_nat (length (cbytes s))) @ cbytes s"

definition wqid :: "qid \<Rightarrow> mem" where
  "wqid q = q_type q # le32 (q_vers q) @ le64 (q_path q)"

definition wire_body :: "fcall \<Rightarrow> mem" where
  "wire_body f =
     (let t = fc_type f in
      if t = Tversion \<or> t = Rversion then le32 (fc_msize f) @ wstr (fc_version f)
      else if t = Tauth then le32 (fc_afid f) @ wstr (fc_uname f) @ wstr (fc_aname f)
      else if t = Tattach then
        le32 (fc_fid f) @ le32 (fc_afid f) @ wstr (fc_uname f) @ wstr (fc_aname f)
      else if t = Tflush then le16 (fc_oldtag f)
      else if t = Twalk then le32 (fc_fid f) @ le32 (fc_newfid f) @ le16 (fc_nwname f)
        @ concat (map wstr (take (unat (fc_nwname f)) (fc_wname f)))
      else if t = Topen then le32 (fc_fid f) @ [fc_mode f]
      else if t = Tcreate then le32 (fc_fid f) @ wstr (fc_name f) @ le32 (fc_perm f) @ [fc_mode f]
      else if t = Tread then le32 (fc_fid f) @ le64 (fc_offset f) @ le32 (fc_count f)
      else if t = Twrite then
        le32 (fc_fid f) @ le64 (fc_offset f) @ le32 (fc_count f) @ fc_data f
      else if t = Tclunk \<or> t = Tremove \<or> t = Tstat then le32 (fc_fid f)
      else if t = Twstat then le32 (fc_fid f) @ le16 (fc_nstat f) @ fc_stat f
      else if t = Rauth then wqid (fc_aqid f)
      else if t = Rattach then wqid (fc_qid f)
      else if t = Rerror then wstr (fc_ename f)
      else if t = Rwalk then
        le16 (fc_nwqid f) @ concat (map wqid (take (unat (fc_nwqid f)) (fc_wqid f)))
      else if t = Ropen \<or> t = Rcreate then wqid (fc_qid f) @ le32 (fc_iounit f)
      else if t = Rread then le32 (fc_count f) @ fc_data f
      else if t = Rwrite then le32 (fc_count f)
      else if t = Rstat then le16 (fc_nstat f) @ fc_stat f
      else [])"

definition wire_size :: "fcall \<Rightarrow> nat" where
  "wire_size f = 7 + length (wire_body f)"

definition wire :: "fcall \<Rightarrow> mem" where
  "wire f = le32 (of_nat (wire_size f)) @ [fc_type f] @ le16 (fc_tag f) @ wire_body f"

subsection \<open>Structures that have a wire form\<close>

definition str_ok :: "cstr \<Rightarrow> bool" where
  "str_ok s \<longleftrightarrow> length (cbytes s) < 65536"

definition msg_types :: "uchar list" where
  "msg_types = [Tversion, Rversion, Tauth, Rauth, Tattach, Rattach, Rerror, Tflush, Rflush,
     Twalk, Rwalk, Topen, Ropen, Tcreate, Rcreate, Tread, Rread, Twrite, Rwrite, Tclunk, Rclunk,
     Tremove, Rremove, Tstat, Rstat, Twstat, Rwstat]"

text \<open>The strings a message carries, and the counted members agreeing with their counts.\<close>

definition msg_strings :: "fcall \<Rightarrow> cstr list" where
  "msg_strings f =
     (let t = fc_type f in
      if t = Tversion \<or> t = Rversion then [fc_version f]
      else if t = Tauth \<or> t = Tattach then [fc_uname f, fc_aname f]
      else if t = Twalk then take (unat (fc_nwname f)) (fc_wname f)
      else if t = Tcreate then [fc_name f]
      else if t = Rerror then [fc_ename f]
      else [])"

definition counts_ok :: "fcall \<Rightarrow> bool" where
  "counts_ok f \<longleftrightarrow>
     (let t = fc_type f in
      (t = Twalk \<longrightarrow> unat (fc_nwname f) \<le> MAXWELEM \<and> unat (fc_nwname f) \<le> length (fc_wname f)) \<and>
      (t = Rwalk \<longrightarrow> unat (fc_nwqid f) \<le> MAXWELEM \<and> unat (fc_nwqid f) \<le> length (fc_wqid f)) \<and>
      (t = Twrite \<or> t = Rread \<longrightarrow> length (fc_data f) = unat (fc_count f)) \<and>
      (t = Twstat \<or> t = Rstat \<longrightarrow> length (fc_stat f) = unat (fc_nstat f)))"

definition fcall_ok :: "fcall \<Rightarrow> bool" where
  "fcall_ok f \<longleftrightarrow> fc_type f \<in> set msg_types \<and> list_all str_ok (msg_strings f) \<and> counts_ok f
     \<and> wire_size f < 2 ^ 32"

definition no_nul :: "fcall \<Rightarrow> bool" where
  "no_nul f \<longleftrightarrow> list_all (\<lambda>s. 0 \<notin> set (cbytes s)) (msg_strings f)"

subsection \<open>What a message transports\<close>

abbreviation nstr :: "cstr \<Rightarrow> cstr" where
  "nstr s \<equiv> Some (cbytes s)"

definition carry :: "fcall \<Rightarrow> fcall \<Rightarrow> fcall" where
  "carry f g =
     (let t = fc_type f; g = g\<lparr>fc_type := t, fc_tag := fc_tag f\<rparr> in
      if t = Tversion \<or> t = Rversion then
        g\<lparr>fc_msize := fc_msize f, fc_version := nstr (fc_version f)\<rparr>
      else if t = Tauth then
        g\<lparr>fc_afid := fc_afid f, fc_uname := nstr (fc_uname f), fc_aname := nstr (fc_aname f)\<rparr>
      else if t = Tattach then
        g\<lparr>fc_fid := fc_fid f, fc_afid := fc_afid f, fc_uname := nstr (fc_uname f),
          fc_aname := nstr (fc_aname f)\<rparr>
      else if t = Tflush then g\<lparr>fc_oldtag := fc_oldtag f\<rparr>
      else if t = Twalk then
        g\<lparr>fc_fid := fc_fid f, fc_newfid := fc_newfid f, fc_nwname := fc_nwname f,
          fc_wname := map nstr (take (unat (fc_nwname f)) (fc_wname f))
            @ drop (unat (fc_nwname f)) (fc_wname g)\<rparr>
      else if t = Topen then g\<lparr>fc_fid := fc_fid f, fc_mode := fc_mode f\<rparr>
      else if t = Tcreate then
        g\<lparr>fc_fid := fc_fid f, fc_name := nstr (fc_name f), fc_perm := fc_perm f,
          fc_mode := fc_mode f\<rparr>
      else if t = Tread then
        g\<lparr>fc_fid := fc_fid f, fc_offset := fc_offset f, fc_count := fc_count f\<rparr>
      else if t = Twrite then
        g\<lparr>fc_fid := fc_fid f, fc_offset := fc_offset f, fc_count := fc_count f,
          fc_data := fc_data f\<rparr>
      else if t = Tclunk \<or> t = Tremove \<or> t = Tstat then g\<lparr>fc_fid := fc_fid f\<rparr>
      else if t = Twstat then
        g\<lparr>fc_fid := fc_fid f, fc_nstat := fc_nstat f, fc_stat := fc_stat f\<rparr>
      else if t = Rauth then g\<lparr>fc_aqid := fc_aqid f\<rparr>
      else if t = Rattach then g\<lparr>fc_qid := fc_qid f\<rparr>
      else if t = Rerror then g\<lparr>fc_ename := nstr (fc_ename f)\<rparr>
      else if t = Rwalk then
        g\<lparr>fc_nwqid := fc_nwqid f, fc_wqid := take (unat (fc_nwqid f)) (fc_wqid f)
            @ drop (unat (fc_nwqid f)) (fc_wqid g)\<rparr>
      else if t = Ropen \<or> t = Rcreate then g\<lparr>fc_qid := fc_qid f, fc_iounit := fc_iounit f\<rparr>
      else if t = Rread then g\<lparr>fc_count := fc_count f, fc_data := fc_data f\<rparr>
      else if t = Rwrite then g\<lparr>fc_count := fc_count f\<rparr>
      else if t = Rstat then g\<lparr>fc_nstat := fc_nstat f, fc_stat := fc_stat f\<rparr>
      else g)"

subsection \<open>Basic facts\<close>

lemma length_wstr [simp]: "length (wstr s) = 2 + length (cbytes s)"
  by (simp add: wstr_def)

lemma length_wqid [simp]: "length (wqid q) = 13"
  by (simp add: wqid_def)

lemma length_wire [simp]: "length (wire f) = wire_size f"
  by (simp add: wire_def wire_size_def)

lemma length_concat_wqid [simp]: "length (concat (map wqid qs)) = 13 * length qs"
  by (induction qs) auto

lemma cbytes_simps [simp]: "cbytes None = []" "cbytes (Some s) = s"
  by (simp_all add: cbytes_def)

lemma str_ok_unat: "str_ok s \<Longrightarrow> unat (of_nat (length (cbytes s)) :: ushort) = length (cbytes s)"
  by (simp add: str_ok_def unat_of_nat)

text \<open>One case per message type; the order is that of \<open>msg_types\<close>.\<close>

lemma msg_type_cases:
  assumes "fc_type f \<in> set msg_types"
  obtains (Tversion) "fc_type f = Tversion" | (Rversion) "fc_type f = Rversion"
  | (Tauth) "fc_type f = Tauth" | (Rauth) "fc_type f = Rauth"
  | (Tattach) "fc_type f = Tattach" | (Rattach) "fc_type f = Rattach"
  | (Rerror) "fc_type f = Rerror" | (Tflush) "fc_type f = Tflush"
  | (Rflush) "fc_type f = Rflush" | (Twalk) "fc_type f = Twalk" | (Rwalk) "fc_type f = Rwalk"
  | (Topen) "fc_type f = Topen" | (Ropen) "fc_type f = Ropen"
  | (Tcreate) "fc_type f = Tcreate" | (Rcreate) "fc_type f = Rcreate"
  | (Tread) "fc_type f = Tread" | (Rread) "fc_type f = Rread"
  | (Twrite) "fc_type f = Twrite" | (Rwrite) "fc_type f = Rwrite"
  | (Tclunk) "fc_type f = Tclunk" | (Rclunk) "fc_type f = Rclunk"
  | (Tremove) "fc_type f = Tremove" | (Rremove) "fc_type f = Rremove"
  | (Tstat) "fc_type f = Tstat" | (Rstat) "fc_type f = Rstat"
  | (Twstat) "fc_type f = Twstat" | (Rwstat) "fc_type f = Rwstat"
  using assms unfolding msg_types_def by (simp only: list.set insert_iff empty_iff) blast

end
