(* ===== verification/ConvS2M.thy ===== *)
theory ConvS2M
  imports Wire
begin

text \<open>
  \<^verbatim>\<open>libc/9sys/convS2M.c\<close>: the size of a message on the wire and its encoding into a caller's
  buffer.  \<open>sizeS2M\<close> computes in \<^verbatim>\<open>uint\<close>, with its wrap-around; \<open>convS2M\<close> returns the number of
  bytes (0 for refusal) and the buffer.  \<open>None\<close> is a memory fault: a write past the buffer or a
  read past \<^verbatim>\<open>wname\<close> or \<^verbatim>\<open>wqid\<close>.
\<close>

subsection \<open>The code\<close>

definition sizeS2M :: "fcall \<Rightarrow> u32int option" where
  "sizeS2M f =
     (let n = 4 + 1 + 2; t = fc_type f in
      if t = Tversion then Some (n + 4 + stringsz (fc_version f))
      else if t = Tflush then Some (n + 2)
      else if t = Tauth then Some (n + 4 + stringsz (fc_uname f) + stringsz (fc_aname f))
      else if t = Tattach then Some (n + 4 + 4 + stringsz (fc_uname f) + stringsz (fc_aname f))
      else if t = Twalk then
        map_option ((+) (n + 4 + 4 + 2)) (stringszs (fc_wname f) (unat (fc_nwname f)))
      else if t = Topen then Some (n + 4 + 1)
      else if t = Tcreate then Some (n + 4 + stringsz (fc_name f) + 4 + 1)
      else if t = Tread then Some (n + 4 + 8 + 4)
      else if t = Twrite then Some (n + 4 + 8 + 4 + fc_count f)
      else if t = Tclunk \<or> t = Tremove then Some (n + 4)
      else if t = Tstat then Some (n + 4)
      else if t = Twstat then Some (n + 4 + 2 + ucast (fc_nstat f))
      else if t = Rversion then Some (n + 4 + stringsz (fc_version f))
      else if t = Rerror then Some (n + stringsz (fc_ename f))
      else if t = Rflush then Some n
      else if t = Rauth then Some (n + 13)
      else if t = Rattach then Some (n + 13)
      else if t = Rwalk then Some (n + 2 + ucast (fc_nwqid f) * 13)
      else if t = Ropen \<or> t = Rcreate then Some (n + 13 + 4)
      else if t = Rread then Some (n + 4 + fc_count f)
      else if t = Rwrite then Some (n + 4)
      else if t = Rclunk then Some n
      else if t = Rremove then Some n
      else if t = Rstat then Some (n + 2 + ucast (fc_nstat f))
      else if t = Rwstat then Some n
      else Some 0)"

text \<open>
  The switch of \<^verbatim>\<open>convS2M\<close>: the R-messages and the default are the tail of the
  switch that starts with the T-messages.  The result is the buffer with the position
  after the message, or with \<open>None\<close> where the code returns 0 at once.
\<close>

definition S2M_R :: "fcall \<Rightarrow> mem \<Rightarrow> nat \<Rightarrow> (mem \<times> nat option) option" where
  "S2M_R f buf p =
     (let t = fc_type f in
      if t = Rversion then do {
        buf \<leftarrow> PBIT32 buf p (fc_msize f); let p = p + BIT32SZ;
        (buf, p) \<leftarrow> pstring buf p (fc_version f);
        Some (buf, Some p) }
      else if t = Rerror then do {
        (buf, p) \<leftarrow> pstring buf p (fc_ename f);
        Some (buf, Some p) }
      else if t = Rflush then Some (buf, Some p)
      else if t = Rauth then do {
        (buf, p) \<leftarrow> pqid buf p (fc_aqid f);
        Some (buf, Some p) }
      else if t = Rattach then do {
        (buf, p) \<leftarrow> pqid buf p (fc_qid f);
        Some (buf, Some p) }
      else if t = Rwalk then do {
        buf \<leftarrow> PBIT16 buf p (fc_nwqid f); let p = p + BIT16SZ;
        if unat (fc_nwqid f) > MAXWELEM then Some (buf, None)
        else do {
          (buf, p) \<leftarrow> pqids buf p (fc_wqid f) (unat (fc_nwqid f));
          Some (buf, Some p) } }
      else if t = Ropen \<or> t = Rcreate then do {
        (buf, p) \<leftarrow> pqid buf p (fc_qid f);
        buf \<leftarrow> PBIT32 buf p (fc_iounit f); let p = p + BIT32SZ;
        Some (buf, Some p) }
      else if t = Rread then do {
        buf \<leftarrow> PBIT32 buf p (fc_count f); let p = p + BIT32SZ;
        d \<leftarrow> memget (fc_data f) 0 (unat (fc_count f));
        buf \<leftarrow> memput buf p d; let p = p + unat (fc_count f);
        Some (buf, Some p) }
      else if t = Rwrite then do {
        buf \<leftarrow> PBIT32 buf p (fc_count f); let p = p + BIT32SZ;
        Some (buf, Some p) }
      else if t = Rclunk then Some (buf, Some p)
      else if t = Rremove then Some (buf, Some p)
      else if t = Rstat then do {
        buf \<leftarrow> PBIT16 buf p (fc_nstat f); let p = p + BIT16SZ;
        d \<leftarrow> memget (fc_stat f) 0 (unat (fc_nstat f));
        buf \<leftarrow> memput buf p d; let p = p + unat (fc_nstat f);
        Some (buf, Some p) }
      else if t = Rwstat then Some (buf, Some p)
      else Some (buf, None))"

definition S2M_T :: "fcall \<Rightarrow> mem \<Rightarrow> nat \<Rightarrow> (mem \<times> nat option) option" where
  "S2M_T f buf p =
     (let t = fc_type f in
      if t = Tversion then do {
        buf \<leftarrow> PBIT32 buf p (fc_msize f); let p = p + BIT32SZ;
        (buf, p) \<leftarrow> pstring buf p (fc_version f);
        Some (buf, Some p) }
      else if t = Tflush then do {
        buf \<leftarrow> PBIT16 buf p (fc_oldtag f); let p = p + BIT16SZ;
        Some (buf, Some p) }
      else if t = Tauth then do {
        buf \<leftarrow> PBIT32 buf p (fc_afid f); let p = p + BIT32SZ;
        (buf, p) \<leftarrow> pstring buf p (fc_uname f);
        (buf, p) \<leftarrow> pstring buf p (fc_aname f);
        Some (buf, Some p) }
      else if t = Tattach then do {
        buf \<leftarrow> PBIT32 buf p (fc_fid f); let p = p + BIT32SZ;
        buf \<leftarrow> PBIT32 buf p (fc_afid f); let p = p + BIT32SZ;
        (buf, p) \<leftarrow> pstring buf p (fc_uname f);
        (buf, p) \<leftarrow> pstring buf p (fc_aname f);
        Some (buf, Some p) }
      else if t = Twalk then do {
        buf \<leftarrow> PBIT32 buf p (fc_fid f); let p = p + BIT32SZ;
        buf \<leftarrow> PBIT32 buf p (fc_newfid f); let p = p + BIT32SZ;
        buf \<leftarrow> PBIT16 buf p (fc_nwname f); let p = p + BIT16SZ;
        if unat (fc_nwname f) > MAXWELEM then Some (buf, None)
        else do {
          (buf, p) \<leftarrow> pstrings buf p (fc_wname f) (unat (fc_nwname f));
          Some (buf, Some p) } }
      else if t = Topen then do {
        buf \<leftarrow> PBIT32 buf p (fc_fid f); let p = p + BIT32SZ;
        buf \<leftarrow> PBIT8 buf p (fc_mode f); let p = p + BIT8SZ;
        Some (buf, Some p) }
      else if t = Tcreate then do {
        buf \<leftarrow> PBIT32 buf p (fc_fid f); let p = p + BIT32SZ;
        (buf, p) \<leftarrow> pstring buf p (fc_name f);
        buf \<leftarrow> PBIT32 buf p (fc_perm f); let p = p + BIT32SZ;
        buf \<leftarrow> PBIT8 buf p (fc_mode f); let p = p + BIT8SZ;
        Some (buf, Some p) }
      else if t = Tread then do {
        buf \<leftarrow> PBIT32 buf p (fc_fid f); let p = p + BIT32SZ;
        buf \<leftarrow> PBIT64 buf p (fc_offset f); let p = p + BIT64SZ;
        buf \<leftarrow> PBIT32 buf p (fc_count f); let p = p + BIT32SZ;
        Some (buf, Some p) }
      else if t = Twrite then do {
        buf \<leftarrow> PBIT32 buf p (fc_fid f); let p = p + BIT32SZ;
        buf \<leftarrow> PBIT64 buf p (fc_offset f); let p = p + BIT64SZ;
        buf \<leftarrow> PBIT32 buf p (fc_count f); let p = p + BIT32SZ;
        d \<leftarrow> memget (fc_data f) 0 (unat (fc_count f));
        buf \<leftarrow> memput buf p d; let p = p + unat (fc_count f);
        Some (buf, Some p) }
      else if t = Tclunk \<or> t = Tremove then do {
        buf \<leftarrow> PBIT32 buf p (fc_fid f); let p = p + BIT32SZ;
        Some (buf, Some p) }
      else if t = Tstat then do {
        buf \<leftarrow> PBIT32 buf p (fc_fid f); let p = p + BIT32SZ;
        Some (buf, Some p) }
      else if t = Twstat then do {
        buf \<leftarrow> PBIT32 buf p (fc_fid f); let p = p + BIT32SZ;
        buf \<leftarrow> PBIT16 buf p (fc_nstat f); let p = p + BIT16SZ;
        d \<leftarrow> memget (fc_stat f) 0 (unat (fc_nstat f));
        buf \<leftarrow> memput buf p d; let p = p + unat (fc_nstat f);
        Some (buf, Some p) }
      else S2M_R f buf p)"

definition convS2M :: "fcall \<Rightarrow> mem \<Rightarrow> nat \<Rightarrow> (nat \<times> mem) option" where
  "convS2M f buf nap = do {
     size \<leftarrow> sizeS2M f;
     if size = 0 then Some (0, buf)
     else if unat size > nap then Some (0, buf)
     else do {
       let p = 0;
       buf \<leftarrow> PBIT32 buf p size; let p = p + BIT32SZ;
       buf \<leftarrow> PBIT8 buf p (fc_type f); let p = p + BIT8SZ;
       buf \<leftarrow> PBIT16 buf p (fc_tag f); let p = p + BIT16SZ;
       (buf, r) \<leftarrow> S2M_T f buf p;
       case r of
         None \<Rightarrow> Some (0, buf)
       | Some p \<Rightarrow> if unat size \<noteq> p then Some (0, buf) else Some (unat size, buf) } }"

subsection \<open>Transfers extend the image\<close>

lemma memput_mid: "length x = length y \<Longrightarrow> memput (a @ x @ r) (length a) y = Some (a @ y @ r)"
  by (simp add: memput_def)

lemma memput_gap:
  assumes "length bs + k + length s \<le> length buf"
  shows "memput (img bs buf) (length bs + k) s =
    Some (bs @ take k (drop (length bs) buf) @ s @ drop (length bs + k + length s) buf)"
  using assms by (simp add: memput_def img_def add.commute add.left_commute)

lemma pstring_img [mem_simps]:
  assumes "p = length bs" "p + length (wstr s) \<le> length buf" "str_ok s"
  shows "pstring (img bs buf) p s = Some (img (bs @ wstr s) buf, p + length (wstr s))"
proof (cases s)
  case None
  with assms show ?thesis by (simp add: pstring_def wstr_def pbit_img)
next
  case (Some x)
  have n: "unat (strlen x) = length x" "ucast (strlen x) = (of_nat (length x) :: ushort)"
    using assms(3) Some
    by (simp_all add: strlen_def str_ok_def unat_of_nat unsigned_of_nat take_bit_nat_eq_self)
  have gap: "memput (img bs buf) (length bs + 2) x =
      Some (bs @ take 2 (drop (length bs) buf) @ x @ drop (length bs + 2 + length x) buf)"
    using assms Some by (intro memput_gap) simp
  have cnt: "memput (bs @ take 2 (drop (length bs) buf) @ r) (length bs) (le16 v) =
      Some (bs @ le16 v @ r)" for v r
    using assms Some by (intro memput_mid) simp
  show ?thesis
    using assms(1) Some n
    by (simp add: pstring_def wstr_def gap PBIT16_def cnt del: add_2_eq_Suc add_2_eq_Suc')
      (simp add: img_def ac_simps)
qed

lemma pqid_img [mem_simps]:
  "p = length bs \<Longrightarrow> p + 13 \<le> length buf \<Longrightarrow>
   pqid (img bs buf) p q = Some (img (bs @ wqid q) buf, p + 13)"
  by (simp add: pqid_def wqid_def mem_simps)

lemma pstrings_img [mem_simps]:
  "p = length bs \<Longrightarrow> n \<le> length ws \<Longrightarrow> list_all str_ok (take n ws) \<Longrightarrow>
   p + length (concat (map wstr (take n ws))) \<le> length buf \<Longrightarrow>
   pstrings (img bs buf) p ws n =
     Some (img (bs @ concat (map wstr (take n ws))) buf, p + length (concat (map wstr (take n ws))))"
proof (induction ws arbitrary: bs p n)
  case (Cons w ws)
  show ?case
  proof (cases n)
    case (Suc k)
    with Cons.prems show ?thesis
      using Cons.IH [of "p + length (wstr w)" "bs @ wstr w" k] by (simp add: pstring_img)
  qed simp
qed simp

lemma pqids_img [mem_simps]:
  "p = length bs \<Longrightarrow> n \<le> length qs \<Longrightarrow> p + 13 * n \<le> length buf \<Longrightarrow>
   pqids (img bs buf) p qs n = Some (img (bs @ concat (map wqid (take n qs))) buf, p + 13 * n)"
proof (induction qs arbitrary: bs p n)
  case (Cons q qs)
  show ?case
  proof (cases n)
    case (Suc k)
    with Cons.prems show ?thesis
      using Cons.IH [of "p + 13" "bs @ wqid q" k] by (simp add: pqid_img)
  qed simp
qed simp

lemma memget_all [mem_simps]: "length b = n \<Longrightarrow> memget b 0 n = Some b"
  by (simp add: memget_def)

subsection \<open>The size is the length of the wire form, modulo the width of \<^verbatim>\<open>uint\<close>\<close>

lemma stringsz_wstr: "stringsz s = of_nat (length (wstr s))"
  by (cases s) (simp_all add: stringsz_def strlen_def)

lemma stringszs_wstr:
  "n \<le> length ws \<Longrightarrow>
   stringszs ws n = Some (of_nat (length (concat (map wstr (take n ws)))))"
proof (induction ws arbitrary: n)
  case (Cons w ws)
  then show ?case by (cases n) (simp_all add: stringsz_wstr)
qed simp

lemma sizeS2M_wire:
  assumes "fc_type f \<in> set msg_types" "counts_ok f"
  shows "sizeS2M f = Some (of_nat (wire_size f))"
  using assms(1)
  by (cases rule: msg_type_cases)
    (use assms(2) in \<open>simp_all add: sizeS2M_def wire_size_def wire_body_def Let_def counts_ok_def
      stringsz_wstr stringszs_wstr\<close>)

lemma S2M_body_img:
  assumes "fcall_ok f" "p = length bs" "p + length (wire_body f) \<le> length buf"
  shows "S2M_T f (img bs buf) p =
    Some (img (bs @ wire_body f) buf, Some (p + length (wire_body f)))"
proof -
  have types: "fc_type f \<in> set msg_types" and strs: "list_all str_ok (msg_strings f)"
    and counts: "counts_ok f"
    using assms(1) by (simp_all add: fcall_ok_def)
  show ?thesis
    using types
    by (cases rule: msg_type_cases)
      (use assms(2,3) strs counts in \<open>simp_all add: S2M_T_def S2M_R_def wire_body_def Let_def
        counts_ok_def msg_strings_def mem_simps\<close>)
qed

lemma convS2M_wire:
  assumes "fcall_ok f" "nap \<le> length buf"
  shows "convS2M f buf nap =
    Some (if wire_size f \<le> nap then (wire_size f, img (wire f) buf) else (0, buf))"
proof -
  have size: "sizeS2M f = Some (of_nat (wire_size f))"
    and un: "unat (of_nat (wire_size f) :: u32int) = wire_size f"
    using assms(1) by (simp_all add: fcall_ok_def sizeS2M_wire unat_of_nat)
  moreover have "7 \<le> wire_size f" by (simp add: wire_size_def)
  ultimately have nz: "(of_nat (wire_size f) :: u32int) \<noteq> 0" by (metis unat_0 not_numeral_le_zero)
  show ?thesis
  proof (cases "wire_size f \<le> nap")
    case True
    let ?hdr = "le32 (of_nat (wire_size f)) @ [fc_type f] @ le16 (fc_tag f)"
    have "PBIT32 buf 0 v = Some (img (le32 v) buf)" for v
      using pbit_img(3) [of 0 "[]" buf v] True assms(2) by (simp add: wire_size_def)
    moreover have "S2M_T f (img ?hdr buf) 7 =
        Some (img (?hdr @ wire_body f) buf, Some (7 + length (wire_body f)))"
      using True assms by (intro S2M_body_img) (simp_all add: wire_size_def)
    ultimately show ?thesis
      using True assms(2) size un nz
      by (simp add: convS2M_def mem_simps wire_size_def wire_def)
  qed (use size un nz in \<open>simp add: convS2M_def\<close>)
qed

subsection \<open>Properties\<close>

text \<open>
  C20. \<open>convS2M\<close> on a message that has a wire form: if the caller's room suffices it writes
  exactly the wire form at the front of the buffer, leaves the rest of the buffer alone and
  returns the length; otherwise it returns 0 and writes nothing.  It never faults.
\<close>

theorem convS2M_exact:
  assumes "fcall_ok f" "nap \<le> length buf"
  shows "convS2M f buf nap =
    Some (if wire_size f \<le> nap then (wire_size f, wire f @ drop (wire_size f) buf) else (0, buf))"
  using convS2M_wire [OF assms] by (simp add: img_def)

theorem convS2M_exact_witness:
  "convS2M (zero_fcall\<lparr>fc_type := 120, fc_tag := 258, fc_fid := 5\<rparr>) (replicate 12 9) 12 =
     Some (11, wire (zero_fcall\<lparr>fc_type := 120, fc_tag := 258, fc_fid := 5\<rparr>) @ [9])"
  using convS2M_exact [of "zero_fcall\<lparr>fc_type := 120, fc_tag := 258, fc_fid := 5\<rparr>" 12 "replicate 12 9"]
  by (simp add: zero_fcall_def fcall_ok_def msg_types_def msg_strings_def counts_ok_def wire_size_def
    wire_body_def)

text \<open>The common header, when the size is accepted.\<close>

lemma convS2M_hdr:
  assumes "sizeS2M f = Some sz" "7 \<le> unat sz" "unat sz \<le> nap" "nap \<le> length buf"
  shows "convS2M f buf nap = do {
    (buf, r) \<leftarrow> S2M_T f (img (le32 sz @ [fc_type f] @ le16 (fc_tag f)) buf) 7;
    case r of
      None \<Rightarrow> Some (0, buf)
    | Some p \<Rightarrow> if unat sz \<noteq> p then Some (0, buf) else Some (unat sz, buf) }"
proof -
  have "PBIT32 buf 0 v = Some (img (le32 v) buf)" for v
    using pbit_img(3) [of 0 "[]" buf v] assms by simp
  moreover have "sz \<noteq> 0" using assms(2) by auto
  ultimately show ?thesis using assms by (simp add: convS2M_def mem_simps)
qed

text \<open>
  The refusals of \<open>convS2M\<close>: for an unknown message type, for more than \<open>MAXWELEM\<close> names in
  a walk and for more than \<open>MAXWELEM\<close> qids in its answer it returns 0, and it does not fault.
\<close>

theorem convS2M_refuses:
  assumes "nap \<le> length buf"
    "fc_type f \<notin> set msg_types \<or>
     fc_type f = Twalk \<and> MAXWELEM < unat (fc_nwname f) \<and> unat (fc_nwname f) \<le> length (fc_wname f) \<and>
       17 + length (concat (map wstr (take (unat (fc_nwname f)) (fc_wname f)))) < 2 ^ 32 \<or>
     fc_type f = Rwalk \<and> MAXWELEM < unat (fc_nwqid f)"
  shows "\<exists>buf'. convS2M f buf nap = Some (0, buf')"
proof -
  consider (unknown) "fc_type f \<notin> set msg_types"
    | (walk) "fc_type f = Twalk" "MAXWELEM < unat (fc_nwname f)"
        "sizeS2M f = Some (of_nat (17 + length (concat (map wstr (take (unat (fc_nwname f)) (fc_wname f))))))"
        "17 + length (concat (map wstr (take (unat (fc_nwname f)) (fc_wname f)))) < 2 ^ 32"
    | (rwalk) "fc_type f = Rwalk" "MAXWELEM < unat (fc_nwqid f)"
    using assms(2) by (auto simp: sizeS2M_def stringszs_wstr Let_def)
  then show ?thesis
  proof cases
    case unknown
    then have "sizeS2M f = Some 0" by (simp add: msg_types_def sizeS2M_def Let_def)
    then show ?thesis by (simp add: convS2M_def)
  next
    case walk
    define n where "n = 17 + length (concat (map wstr (take (unat (fc_nwname f)) (fc_wname f))))"
    have n: "sizeS2M f = Some (of_nat n)" "unat (of_nat n :: u32int) = n" "17 \<le> n"
      using walk(3,4) unfolding n_def [symmetric] by (simp_all add: unat_of_nat) (simp add: n_def)
    show ?thesis
    proof (cases "n \<le> nap")
      case True
      then have "convS2M f buf nap = Some (0, img ((le32 (of_nat n) @ [fc_type f] @ le16 (fc_tag f)) @
          le32 (fc_fid f) @ le32 (fc_newfid f) @ le16 (fc_nwname f)) buf)"
        using walk(1,2) n assms(1) by (simp add: convS2M_hdr S2M_T_def mem_simps)
      then show ?thesis by blast
    qed (use n in \<open>simp add: convS2M_def\<close>)
  next
    case rwalk
    define n where "n = 9 + unat (fc_nwqid f) * 13"
    have "(9 + ucast (fc_nwqid f) * 13 :: u32int) = of_nat n"
      by (simp add: n_def)
    then have "sizeS2M f = Some (of_nat n)" using rwalk(1) by (simp add: sizeS2M_def)
    moreover have "unat (fc_nwqid f) < 2 ^ 16" by (rule order_less_le_trans, rule unsigned_less) simp
    then have "n < 2 ^ 32" by (simp add: n_def)
    moreover from this have "unat (of_nat n :: u32int) = n" unfolding unat_of_nat by simp
    ultimately have n: "sizeS2M f = Some (of_nat n)" "unat (of_nat n :: u32int) = n" "9 \<le> n"
      by (simp_all only: n_def le_add1)
    show ?thesis
    proof (cases "n \<le> nap")
      case True
      then have "convS2M f buf nap = Some (0, img ((le32 (of_nat n) @ [fc_type f] @ le16 (fc_tag f)) @
          le16 (fc_nwqid f)) buf)"
        using rwalk n assms(1) by (simp add: convS2M_hdr S2M_T_def S2M_R_def mem_simps)
      then show ?thesis by blast
    qed (use n in \<open>simp add: convS2M_def\<close>)
  qed
qed

theorem convS2M_refuses_witness:
  "\<exists>buf'. convS2M (zero_fcall\<lparr>fc_type := 111, fc_nwqid := 17\<rparr>) (replicate 300 0) 300 = Some (0, buf')"
  using convS2M_refuses [of 300 "replicate 300 0" "zero_fcall\<lparr>fc_type := 111, fc_nwqid := 17\<rparr>"]
  by (simp add: MAXWELEM_def)

end
