(* ===== verification/ConvM2S.thy ===== *)
theory ConvM2S
  imports Wire
begin

text \<open>
  \<^verbatim>\<open>libc/9sys/convM2S.c\<close>: parsing a 9P message out of a buffer of \<open>nap\<close> bytes.  The result is a
  memory fault (\<open>None\<close>), or the buffer (strings are moved in place) with either \<open>None\<close>, where
  the code returns 0 and its callers discard the structure, or the message size and the filled
  structure.
\<close>

subsection \<open>The code\<close>

text \<open>
  A 32-bit count can carry a pointer past the end of a 32-bit address space, where it wraps around.  \<open>W\<close> says where the buffer
  is: \<open>None\<close> stands for 64-bit pointers, which do not wrap, \<open>Some a\<close> for a buffer at the address \<open>a\<close> of a
  32-bit machine (the 386).  Cursors are offsets from the start of the buffer; \<open>past\<close> compares the addresses
  they stand for.  The fixed sizes and the 16-bit counts are added without wrapping, as for every buffer
  that does not lie in the last 64 kilobytes of the address space.  The member \<^verbatim>\<open>data\<close> is a pointer: its value here is the
  bytes it points to; past the end of the buffer they are a fault for \<open>None\<close>, and what the buffer has of them
  for \<open>Some a\<close>.
\<close>

definition ptr_add :: "u32int option \<Rightarrow> nat \<Rightarrow> nat \<Rightarrow> nat" where
  "ptr_add W p n = (case W of None \<Rightarrow> p + n | Some a \<Rightarrow> (p + n) mod 2 ^ 32)"

definition past :: "u32int option \<Rightarrow> nat \<Rightarrow> nat \<Rightarrow> bool" where
  "past W p ep = (case W of None \<Rightarrow> p > ep | Some a \<Rightarrow> (unat a + p) mod 2 ^ 32 > unat a + ep)"

definition data_at :: "u32int option \<Rightarrow> mem \<Rightarrow> nat \<Rightarrow> nat \<Rightarrow> mem option" where
  "data_at W buf p n = (case W of None \<Rightarrow> memget buf p n | Some a \<Rightarrow> Some (take n (drop p buf)))"

text \<open>The tail of the switch: R-messages and the default.\<close>

definition M2S_R_at :: "u32int option \<Rightarrow> fcall \<Rightarrow> mem \<Rightarrow> nat \<Rightarrow> nat \<Rightarrow> (mem \<times> (nat \<times> fcall) option) option" where
  "M2S_R_at W f buf p ep =
     (let t = fc_type f in
      if t = Rversion then
        if p + BIT32SZ > ep then Some (buf, None)
        else do {
          v \<leftarrow> GBIT32 buf p; let f = f\<lparr>fc_msize := v\<rparr>; let p = p + BIT32SZ;
          unless_nil (gstring buf p ep) (\<lambda>buf p s. Some (buf, Some (p, f\<lparr>fc_version := s\<rparr>))) }
      else if t = Rerror then
        unless_nil (gstring buf p ep) (\<lambda>buf p s. Some (buf, Some (p, f\<lparr>fc_ename := s\<rparr>)))
      else if t = Rflush then Some (buf, Some (p, f))
      else if t = Rauth then
        unless_nil (gqid buf p ep) (\<lambda>buf p q. Some (buf, Some (p, f\<lparr>fc_aqid := q\<rparr>)))
      else if t = Rattach then
        unless_nil (gqid buf p ep) (\<lambda>buf p q. Some (buf, Some (p, f\<lparr>fc_qid := q\<rparr>)))
      else if t = Rwalk then
        if p + BIT16SZ > ep then Some (buf, None)
        else do {
          v \<leftarrow> GBIT16 buf p; let f = f\<lparr>fc_nwqid := v\<rparr>; let p = p + BIT16SZ;
          if unat (fc_nwqid f) > MAXWELEM then Some (buf, None)
          else unless_nil (gqids buf p ep (unat (fc_nwqid f))) (\<lambda>buf p qs.
            Some (buf, Some (p, f\<lparr>fc_wqid := qs @ drop (length qs) (fc_wqid f)\<rparr>))) }
      else if t = Ropen \<or> t = Rcreate then
        unless_nil (gqid buf p ep) (\<lambda>buf p q. let f = f\<lparr>fc_qid := q\<rparr> in
          if p + BIT32SZ > ep then Some (buf, None)
          else do {
            v \<leftarrow> GBIT32 buf p; let p = p + BIT32SZ;
            Some (buf, Some (p, f\<lparr>fc_iounit := v\<rparr>)) })
      else if t = Rread then
        if p + BIT32SZ > ep then Some (buf, None)
        else do {
          v \<leftarrow> GBIT32 buf p; let f = f\<lparr>fc_count := v\<rparr>; let p = p + BIT32SZ;
          if past W (ptr_add W p (unat (fc_count f))) ep then Some (buf, None)
          else do {
            d \<leftarrow> data_at W buf p (unat (fc_count f));
            Some (buf, Some (ptr_add W p (unat (fc_count f)), f\<lparr>fc_data := d\<rparr>)) } }
      else if t = Rwrite then
        if p + BIT32SZ > ep then Some (buf, None)
        else do {
          v \<leftarrow> GBIT32 buf p; let p = p + BIT32SZ;
          Some (buf, Some (p, f\<lparr>fc_count := v\<rparr>)) }
      else if t = Rclunk \<or> t = Rremove then Some (buf, Some (p, f))
      else if t = Rstat then
        if p + BIT16SZ > ep then Some (buf, None)
        else do {
          v \<leftarrow> GBIT16 buf p; let f = f\<lparr>fc_nstat := v\<rparr>; let p = p + BIT16SZ;
          if p + unat (fc_nstat f) > ep then Some (buf, None)
          else do {
            d \<leftarrow> memget buf p (unat (fc_nstat f));
            Some (buf, Some (p + unat (fc_nstat f), f\<lparr>fc_stat := d\<rparr>)) } }
      else if t = Rwstat then Some (buf, Some (p, f))
      else Some (buf, None))"

definition M2S_T_at :: "u32int option \<Rightarrow> fcall \<Rightarrow> mem \<Rightarrow> nat \<Rightarrow> nat \<Rightarrow> (mem \<times> (nat \<times> fcall) option) option" where
  "M2S_T_at W f buf p ep =
     (let t = fc_type f in
      if t = Tversion then
        if p + BIT32SZ > ep then Some (buf, None)
        else do {
          v \<leftarrow> GBIT32 buf p; let f = f\<lparr>fc_msize := v\<rparr>; let p = p + BIT32SZ;
          unless_nil (gstring buf p ep) (\<lambda>buf p s. Some (buf, Some (p, f\<lparr>fc_version := s\<rparr>))) }
      else if t = Tflush then
        if p + BIT16SZ > ep then Some (buf, None)
        else do {
          v \<leftarrow> GBIT16 buf p; let p = p + BIT16SZ;
          Some (buf, Some (p, f\<lparr>fc_oldtag := v\<rparr>)) }
      else if t = Tauth then
        if p + BIT32SZ > ep then Some (buf, None)
        else do {
          v \<leftarrow> GBIT32 buf p; let f = f\<lparr>fc_afid := v\<rparr>; let p = p + BIT32SZ;
          unless_nil (gstring buf p ep) (\<lambda>buf p s. let f = f\<lparr>fc_uname := s\<rparr> in
          unless_nil (gstring buf p ep) (\<lambda>buf p s. Some (buf, Some (p, f\<lparr>fc_aname := s\<rparr>)))) }
      else if t = Tattach then
        if p + BIT32SZ > ep then Some (buf, None)
        else do {
          v \<leftarrow> GBIT32 buf p; let f = f\<lparr>fc_fid := v\<rparr>; let p = p + BIT32SZ;
          if p + BIT32SZ > ep then Some (buf, None)
          else do {
            v \<leftarrow> GBIT32 buf p; let f = f\<lparr>fc_afid := v\<rparr>; let p = p + BIT32SZ;
            unless_nil (gstring buf p ep) (\<lambda>buf p s. let f = f\<lparr>fc_uname := s\<rparr> in
            unless_nil (gstring buf p ep) (\<lambda>buf p s. Some (buf, Some (p, f\<lparr>fc_aname := s\<rparr>)))) } }
      else if t = Twalk then
        if p + BIT32SZ + BIT32SZ + BIT16SZ > ep then Some (buf, None)
        else do {
          v \<leftarrow> GBIT32 buf p; let f = f\<lparr>fc_fid := v\<rparr>; let p = p + BIT32SZ;
          v \<leftarrow> GBIT32 buf p; let f = f\<lparr>fc_newfid := v\<rparr>; let p = p + BIT32SZ;
          v \<leftarrow> GBIT16 buf p; let f = f\<lparr>fc_nwname := v\<rparr>; let p = p + BIT16SZ;
          if unat (fc_nwname f) > MAXWELEM then Some (buf, None)
          else unless_nil (gstrings buf p ep (unat (fc_nwname f))) (\<lambda>buf p ss.
            Some (buf, Some (p, f\<lparr>fc_wname := ss @ drop (length ss) (fc_wname f)\<rparr>))) }
      else if t = Topen then
        if p + BIT32SZ + BIT8SZ > ep then Some (buf, None)
        else do {
          v \<leftarrow> GBIT32 buf p; let f = f\<lparr>fc_fid := v\<rparr>; let p = p + BIT32SZ;
          m \<leftarrow> GBIT8 buf p; let p = p + BIT8SZ;
          Some (buf, Some (p, f\<lparr>fc_mode := m\<rparr>)) }
      else if t = Tcreate then
        if p + BIT32SZ > ep then Some (buf, None)
        else do {
          v \<leftarrow> GBIT32 buf p; let f = f\<lparr>fc_fid := v\<rparr>; let p = p + BIT32SZ;
          unless_nil (gstring buf p ep) (\<lambda>buf p s. let f = f\<lparr>fc_name := s\<rparr> in
            if p + BIT32SZ + BIT8SZ > ep then Some (buf, None)
            else do {
              v \<leftarrow> GBIT32 buf p; let f = f\<lparr>fc_perm := v\<rparr>; let p = p + BIT32SZ;
              m \<leftarrow> GBIT8 buf p; let p = p + BIT8SZ;
              Some (buf, Some (p, f\<lparr>fc_mode := m\<rparr>)) }) }
      else if t = Tread then
        if p + BIT32SZ + BIT64SZ + BIT32SZ > ep then Some (buf, None)
        else do {
          v \<leftarrow> GBIT32 buf p; let f = f\<lparr>fc_fid := v\<rparr>; let p = p + BIT32SZ;
          off \<leftarrow> GBIT64 buf p; let f = f\<lparr>fc_offset := off\<rparr>; let p = p + BIT64SZ;
          v \<leftarrow> GBIT32 buf p; let p = p + BIT32SZ;
          Some (buf, Some (p, f\<lparr>fc_count := v\<rparr>)) }
      else if t = Twrite then
        if p + BIT32SZ + BIT64SZ + BIT32SZ > ep then Some (buf, None)
        else do {
          v \<leftarrow> GBIT32 buf p; let f = f\<lparr>fc_fid := v\<rparr>; let p = p + BIT32SZ;
          off \<leftarrow> GBIT64 buf p; let f = f\<lparr>fc_offset := off\<rparr>; let p = p + BIT64SZ;
          v \<leftarrow> GBIT32 buf p; let f = f\<lparr>fc_count := v\<rparr>; let p = p + BIT32SZ;
          if past W (ptr_add W p (unat (fc_count f))) ep then Some (buf, None)
          else do {
            d \<leftarrow> data_at W buf p (unat (fc_count f));
            Some (buf, Some (ptr_add W p (unat (fc_count f)), f\<lparr>fc_data := d\<rparr>)) } }
      else if t = Tclunk \<or> t = Tremove then
        if p + BIT32SZ > ep then Some (buf, None)
        else do {
          v \<leftarrow> GBIT32 buf p; let p = p + BIT32SZ;
          Some (buf, Some (p, f\<lparr>fc_fid := v\<rparr>)) }
      else if t = Tstat then
        if p + BIT32SZ > ep then Some (buf, None)
        else do {
          v \<leftarrow> GBIT32 buf p; let p = p + BIT32SZ;
          Some (buf, Some (p, f\<lparr>fc_fid := v\<rparr>)) }
      else if t = Twstat then
        if p + BIT32SZ + BIT16SZ > ep then Some (buf, None)
        else do {
          v \<leftarrow> GBIT32 buf p; let f = f\<lparr>fc_fid := v\<rparr>; let p = p + BIT32SZ;
          n \<leftarrow> GBIT16 buf p; let f = f\<lparr>fc_nstat := n\<rparr>; let p = p + BIT16SZ;
          if p + unat (fc_nstat f) > ep then Some (buf, None)
          else do {
            d \<leftarrow> memget buf p (unat (fc_nstat f));
            Some (buf, Some (p + unat (fc_nstat f), f\<lparr>fc_stat := d\<rparr>)) } }
      else M2S_R_at W f buf p ep)"

definition convM2S_at :: "u32int option \<Rightarrow> mem \<Rightarrow> nat \<Rightarrow> fcall \<Rightarrow> (mem \<times> (nat \<times> fcall) option) option" where
  "convM2S_at W buf nap f =
     (let p = 0; ep = p + nap in
      if p + BIT32SZ + BIT8SZ + BIT16SZ > ep then Some (buf, None)
      else do {
        size \<leftarrow> GBIT32 buf p; let p = p + BIT32SZ;
        if unat size < BIT32SZ + BIT8SZ + BIT16SZ then Some (buf, None)
        else do {
          t \<leftarrow> GBIT8 buf p; let f = f\<lparr>fc_type := t\<rparr>; let p = p + BIT8SZ;
          g \<leftarrow> GBIT16 buf p; let f = f\<lparr>fc_tag := g\<rparr>; let p = p + BIT16SZ;
          unless_nil (M2S_T_at W f buf p ep) (\<lambda>buf p f.
            if past W p ep then Some (buf, None)
            else if unat size = p then Some (buf, Some (unat size, f))
            else Some (buf, None)) } })"

text \<open>The code with pointers that do not wrap, which the other theories use.\<close>

abbreviation M2S_R :: "fcall \<Rightarrow> mem \<Rightarrow> nat \<Rightarrow> nat \<Rightarrow> (mem \<times> (nat \<times> fcall) option) option" where
  "M2S_R \<equiv> M2S_R_at None"

abbreviation M2S_T :: "fcall \<Rightarrow> mem \<Rightarrow> nat \<Rightarrow> nat \<Rightarrow> (mem \<times> (nat \<times> fcall) option) option" where
  "M2S_T \<equiv> M2S_T_at None"

abbreviation convM2S :: "mem \<Rightarrow> nat \<Rightarrow> fcall \<Rightarrow> (mem \<times> (nat \<times> fcall) option) option" where
  "convM2S \<equiv> convM2S_at None"

lemma wide_pointers: "ptr_add None p n = p + n" "past None p ep \<longleftrightarrow> ep < p" "data_at None buf p n = memget buf p n"
  by (simp_all add: ptr_add_def past_def data_at_def)

lemmas M2S_R_def = M2S_R_at_def [of None, unfolded wide_pointers]
lemmas M2S_T_def = M2S_T_at_def [of None, unfolded wide_pointers]
lemmas convM2S_def = convM2S_at_def [of None, unfolded wide_pointers]

subsection \<open>Reading never leaves the buffer\<close>

text \<open>
  \<open>reads_ok buf ep r\<close>: the reader's outcome \<open>r\<close> is no fault, keeps the length of the buffer,
  and what lies behind \<open>ep\<close>, and its cursor, if not nil, is at most \<open>ep\<close>.  The rules follow the shape of the code: a
  bounds check, an access it licenses, a nil test.
\<close>

named_theorems reads_intros \<open>rules to show that a reader stays within its buffer\<close>

definition reads_ok :: "mem \<Rightarrow> nat \<Rightarrow> (mem \<times> (nat \<times> 'a) option) option \<Rightarrow> bool" where
  "reads_ok buf ep r \<longleftrightarrow> (\<exists>buf' v. r = Some (buf', v) \<and> length buf' = length buf \<and> drop ep buf' = drop ep buf \<and>
     (case v of None \<Rightarrow> True | Some (q, _) \<Rightarrow> q \<le> ep))"

lemma reads_ok_ret [reads_intros]:
  "reads_ok buf ep (Some (buf, None))"
  "q \<le> ep \<Longrightarrow> reads_ok buf ep (Some (buf, Some (q, x)))"
  by (simp_all add: reads_ok_def)

lemma reads_ok_if [reads_intros]:
  "(c \<Longrightarrow> reads_ok buf ep a) \<Longrightarrow> (\<not> c \<Longrightarrow> reads_ok buf ep b) \<Longrightarrow> reads_ok buf ep (if c then a else b)"
  by simp

lemma reads_ok_gbit [reads_intros]:
  "p + 1 \<le> length buf \<Longrightarrow> (\<And>v. reads_ok buf ep (k1 v)) \<Longrightarrow> reads_ok buf ep (GBIT8 buf p \<bind> k1)"
  "p + 2 \<le> length buf \<Longrightarrow> (\<And>v. reads_ok buf ep (k2 v)) \<Longrightarrow> reads_ok buf ep (GBIT16 buf p \<bind> k2)"
  "p + 4 \<le> length buf \<Longrightarrow> (\<And>v. reads_ok buf ep (k3 v)) \<Longrightarrow> reads_ok buf ep (GBIT32 buf p \<bind> k3)"
  "p + 8 \<le> length buf \<Longrightarrow> (\<And>v. reads_ok buf ep (k4 v)) \<Longrightarrow> reads_ok buf ep (GBIT64 buf p \<bind> k4)"
  using gbit_total [of p buf] by fastforce+

lemma reads_ok_memget [reads_intros]:
  "p + n \<le> length buf \<Longrightarrow> (\<And>d. length d = n \<Longrightarrow> reads_ok buf ep (k d)) \<Longrightarrow>
   reads_ok buf ep (memget buf p n \<bind> k)"
  by (simp add: memget_def)

lemma drop_memput:
  "p + length d \<le> ep \<Longrightarrow> ep \<le> length buf \<Longrightarrow> drop ep (take p buf @ d @ drop (p + length d) buf) = drop ep buf"
  by simp

lemma reads_ok_memput:
  assumes "p + length d \<le> ep" "ep \<le> length buf"
    "\<And>buf'. length buf' = length buf \<Longrightarrow> reads_ok buf' ep (k buf')"
  shows "reads_ok buf ep (memput buf p d \<bind> k)"
proof -
  let ?b = "take p buf @ d @ drop (p + length d) buf"
  have "length ?b = length buf" "drop ep ?b = drop ep buf" using assms(1,2) drop_memput by simp_all
  moreover from assms(3) [OF this(1)] have "reads_ok ?b ep (k ?b)" .
  ultimately have "reads_ok buf ep (k ?b)" unfolding reads_ok_def by metis
  then show ?thesis using assms(1,2) by (simp add: memput_def)
qed

lemma reads_ok_unless [reads_intros]:
  assumes "reads_ok buf ep r"
    and k: "\<And>buf' q x. length buf' = length buf \<Longrightarrow> q \<le> ep \<Longrightarrow> reads_ok buf' ep (k buf' q x)"
  shows "reads_ok buf ep (unless_nil r k)"
proof -
  obtain buf' v where r: "r = Some (buf', v)" "length buf' = length buf" "drop ep buf' = drop ep buf"
    "case v of None \<Rightarrow> True | Some (q, _) \<Rightarrow> q \<le> ep"
    using assms(1) by (auto simp: reads_ok_def)
  show ?thesis
  proof (cases v)
    case None
    with r show ?thesis by (simp add: unless_nil_def reads_ok_def)
  next
    case (Some qx)
    then obtain q x where "v = Some (q, x)" "q \<le> ep" using r(4) by (cases qx) auto
    with r k [of buf' q x] show ?thesis by (simp add: unless_nil_def reads_ok_def)
  qed
qed

lemma gstring_reads [reads_intros]: "ep \<le> length buf \<Longrightarrow> reads_ok buf ep (gstring buf p ep)"
  unfolding gstring_def Let_def
  by (intro reads_intros reads_ok_memput) simp_all

lemma gqid_reads [reads_intros]: "ep \<le> length buf \<Longrightarrow> reads_ok buf ep (gqid buf p ep)"
  unfolding gqid_def Let_def by (intro reads_intros) simp_all

lemma gstrings_reads [reads_intros]:
  "ep \<le> length buf \<Longrightarrow> p \<le> ep \<Longrightarrow> reads_ok buf ep (gstrings buf p ep n)"
proof (induction n arbitrary: buf p)
  case (Suc n)
  show ?case unfolding gstrings.simps
    using Suc.prems by (intro reads_intros Suc.IH) simp_all
qed (simp add: reads_ok_def)

lemma gqids_reads [reads_intros]:
  "ep \<le> length buf \<Longrightarrow> p \<le> ep \<Longrightarrow> reads_ok buf ep (gqids buf p ep n)"
proof (induction n arbitrary: buf p)
  case (Suc n)
  show ?case unfolding gqids.simps
    using Suc.prems by (intro reads_intros Suc.IH) simp_all
qed (simp add: reads_ok_def)

lemma M2S_R_reads [reads_intros]:
  "ep \<le> length buf \<Longrightarrow> p \<le> ep \<Longrightarrow> reads_ok buf ep (M2S_R f buf p ep)"
  unfolding M2S_R_def Let_def by (intro reads_intros) simp_all

lemma M2S_T_reads [reads_intros]:
  "ep \<le> length buf \<Longrightarrow> p \<le> ep \<Longrightarrow> reads_ok buf ep (M2S_T f buf p ep)"
  unfolding M2S_T_def Let_def by (intro reads_intros) simp_all

lemma convM2S_reads: "nap \<le> length buf \<Longrightarrow> reads_ok buf nap (convM2S buf nap f)"
  unfolding convM2S_def Let_def add_0 by (intro reads_intros) simp_all

subsection \<open>Reading back what was written\<close>

text \<open>
  A read skips what lies before its cursor and decodes what starts at it.  Applied from left
  to right these equations evaluate a parser on any concatenation of encoded fields.
\<close>

named_theorems parse_simps \<open>evaluation of readers on concatenated encodings\<close>

lemma memget_shift [parse_simps]:
  "length a \<le> p \<Longrightarrow> memget (a @ xs) p n = memget xs (p - length a) n"
  "0 < p \<Longrightarrow> memget (x # xs) p n = memget xs (p - 1) n"
  "length a = n \<Longrightarrow> memget (a @ xs) 0 n = Some a"
  by (cases p; auto simp: memget_def)+

lemma gbit_shift [parse_simps]:
  "length a \<le> p \<Longrightarrow> GBIT8 (a @ xs) p = GBIT8 xs (p - length a)"
  "length a \<le> p \<Longrightarrow> GBIT16 (a @ xs) p = GBIT16 xs (p - length a)"
  "length a \<le> p \<Longrightarrow> GBIT32 (a @ xs) p = GBIT32 xs (p - length a)"
  "length a \<le> p \<Longrightarrow> GBIT64 (a @ xs) p = GBIT64 xs (p - length a)"
  "0 < p \<Longrightarrow> GBIT8 (x # xs) p = GBIT8 xs (p - 1)"
  "0 < p \<Longrightarrow> GBIT16 (x # xs) p = GBIT16 xs (p - 1)"
  "0 < p \<Longrightarrow> GBIT32 (x # xs) p = GBIT32 xs (p - 1)"
  "0 < p \<Longrightarrow> GBIT64 (x # xs) p = GBIT64 xs (p - 1)"
  by (simp_all add: gbit_defs memget_shift)

lemma gbit_head [parse_simps]:
  "GBIT8 (v1 # xs) 0 = Some v1" "GBIT16 (le16 v2 @ xs) 0 = Some v2"
  "GBIT32 (le32 v3 @ xs) 0 = Some v3" "GBIT64 (le64 v4 @ xs) 0 = Some v4"
  by (simp_all add: gbit_defs memget_shift) (simp add: memget_def)

text \<open>A string after \<open>gstring\<close> has moved it over its count.\<close>

definition moved :: "cstr \<Rightarrow> mem" where
  "moved s = take 1 (wstr s) @ cbytes s @ [0]"

lemma length_moved [simp]: "length (moved s) = 2 + length (cbytes s)"
  by (simp add: moved_def)

definition shift_rd :: "mem \<Rightarrow> (mem \<times> (nat \<times> 'a) option) option \<Rightarrow> (mem \<times> (nat \<times> 'a) option) option" where
  "shift_rd a r = map_option (\<lambda>(buf, v). (a @ buf, map_option (\<lambda>(q, x). (length a + q, x)) v)) r"

lemma shift_rd_Some [parse_simps]:
  "shift_rd a (Some (buf, Some (q, x))) = Some (a @ buf, Some (length a + q, x))"
  by (simp add: shift_rd_def)

lemma memput_shift:
  "length a \<le> p \<Longrightarrow> memput (a @ xs) p d = map_option ((@) a) (memput xs (p - length a) d)"
  by (auto simp: memput_def)

lemma gstring_shift [parse_simps]:
  assumes "length a \<le> p"
  shows "gstring (a @ xs) p ep = shift_rd a (gstring xs (p - length a) (ep - length a))"
proof -
  obtain k where p: "p = length a + k" using assms by (metis le_add_diff_inverse)
  show ?thesis
    by (auto simp: gstring_def p shift_rd_def memget_shift gbit_shift memput_shift Let_def
        split: option.splits bind_splits)
qed

lemma gqid_shift [parse_simps]:
  assumes "length a \<le> p"
  shows "gqid (a @ xs) p ep = shift_rd a (gqid xs (p - length a) (ep - length a))"
proof -
  obtain k where p: "p = length a + k" using assms by (metis le_add_diff_inverse)
  show ?thesis
    by (auto simp: gqid_def p shift_rd_def gbit_shift Let_def split: option.splits bind_splits)
qed

lemma gstring_head [parse_simps]:
  assumes "str_ok s" "0 \<notin> set (cbytes s)" "2 + length (cbytes s) \<le> ep"
  shows "gstring (wstr s @ xs) 0 ep = Some (moved s @ xs, Some (2 + length (cbytes s), nstr s))"
proof -
  obtain x y where xy: "le16 (of_nat (length (cbytes s))) = [x, y]"
    by (simp add: le16_def)
  have n: "GBIT16 (wstr s @ xs) 0 = Some (of_nat (length (cbytes s)))"
    unfolding wstr_def append_assoc by (rule gbit_head)
  have tw: "takeWhile (\<lambda>c. c \<noteq> 0) (cbytes s) = cbytes s"
    using assms(2) by (auto simp: takeWhile_eq_all_conv)
  show ?thesis
    using assms n tw str_ok_unat [OF assms(1)]
    by (simp add: gstring_def)
      (simp add: wstr_def xy moved_def memget_def memput_def)
qed

lemma gqid_head [parse_simps]:
  "13 \<le> ep \<Longrightarrow> gqid (wqid q @ xs) 0 ep = Some (wqid q @ xs, Some (13, q))"
  by (simp add: gqid_def wqid_def gbit_head gbit_shift)

lemma unless_nil_Some [parse_simps]:
  "unless_nil (Some (buf, Some (q, x))) k = k buf q x"
  by (simp add: unless_nil_def)

lemma gstrings_head:
  "list_all str_ok ss \<Longrightarrow> list_all (\<lambda>s. 0 \<notin> set (cbytes s)) ss \<Longrightarrow> p = length a \<Longrightarrow>
   p + length (concat (map wstr ss)) \<le> ep \<Longrightarrow>
   \<exists>b. gstrings (a @ concat (map wstr ss) @ xs) p ep (length ss) =
     Some (b, Some (p + length (concat (map wstr ss)), map nstr ss))"
proof (induction ss arbitrary: a p)
  case (Cons s ss)
  have "\<exists>b. gstrings ((a @ moved s) @ concat (map wstr ss) @ xs) (p + (2 + length (cbytes s))) ep
      (length ss) =
    Some (b, Some (p + (2 + length (cbytes s)) + length (concat (map wstr ss)), map nstr ss))"
    using Cons.prems by (intro Cons.IH) simp_all
  with Cons.prems show ?case
    by (simp add: parse_simps) (auto simp: unless_nil_def add.assoc)
qed simp

lemma gqids_head:
  "p = length a \<Longrightarrow> p + 13 * length qs \<le> ep \<Longrightarrow>
   gqids (a @ concat (map wqid qs) @ xs) p ep (length qs) =
     Some (a @ concat (map wqid qs) @ xs, Some (p + 13 * length qs, qs))"
proof (induction qs arbitrary: a p)
  case (Cons q qs)
  have "gqids ((a @ wqid q) @ concat (map wqid qs) @ xs) (p + 13) ep (length qs) =
    Some ((a @ wqid q) @ concat (map wqid qs) @ xs, Some (p + 13 + 13 * length qs, qs))"
    using Cons.prems by (intro Cons.IH) simp_all
  with Cons.prems show ?case by (simp add: parse_simps)
qed simp

lemma M2S_body:
  assumes "fcall_ok f" "no_nul f" "h = g\<lparr>fc_type := fc_type f, fc_tag := fc_tag f\<rparr>"
    "p = length a" "p + length (wire_body f) \<le> ep"
  shows "\<exists>b. M2S_T h (a @ wire_body f @ rest) p ep =
    Some (b, Some (p + length (wire_body f), carry f g))"
proof -
  have types: "fc_type f \<in> set msg_types" and strs: "list_all str_ok (msg_strings f)"
    and counts: "counts_ok f"
    using assms(1) by (simp_all add: fcall_ok_def)
  have walk: "\<exists>b. gstrings (c @ concat (map wstr (take n ws)) @ rest) q ep n =
      Some (b, Some (q + length (concat (map wstr (take n ws))), map nstr (take n ws)))"
    if "n \<le> length ws" "list_all str_ok (take n ws)"
      "list_all (\<lambda>s. 0 \<notin> set (cbytes s)) (take n ws)" "q = length c"
      "q + length (concat (map wstr (take n ws))) \<le> ep" for c n q ws
    using gstrings_head [of "take n ws" q c ep rest] that by (simp add: min_absorb2)
  have rwalk: "gqids (c @ concat (map wqid (take n qs)) @ rest) q ep n =
      Some (c @ concat (map wqid (take n qs)) @ rest, Some (q + 13 * n, take n qs))"
    if "n \<le> length qs" "q = length c" "q + 13 * n \<le> ep" for c n q qs
    using gqids_head [of q c "take n qs" ep rest] that by (simp add: min_absorb2)
  show ?thesis
    using types
  proof (cases rule: msg_type_cases)
    case Twalk
    let ?n = "unat (fc_nwname f)"
    let ?c = "a @ le32 (fc_fid f) @ le32 (fc_newfid f) @ le16 (fc_nwname f)"
    obtain b where "gstrings (?c @ concat (map wstr (take ?n (fc_wname f))) @ rest) (p + 10) ep ?n =
        Some (b, Some (p + 10 + length (concat (map wstr (take ?n (fc_wname f)))),
          map nstr (take ?n (fc_wname f))))"
      using walk [of ?n "fc_wname f" "p + 10" ?c] Twalk assms strs counts
      by (auto simp: msg_strings_def no_nul_def counts_ok_def wire_body_def)
    with Twalk assms counts show ?thesis
      by (simp add: M2S_T_def wire_body_def carry_def counts_ok_def parse_simps Let_def
        min_absorb2 add.commute [of _ "length a"] add.assoc)
  next
    case Rwalk
    let ?n = "unat (fc_nwqid f)"
    have "gqids ((a @ le16 (fc_nwqid f)) @ concat (map wqid (take ?n (fc_wqid f))) @ rest) (p + 2) ep ?n =
        Some ((a @ le16 (fc_nwqid f)) @ concat (map wqid (take ?n (fc_wqid f))) @ rest,
          Some (p + 2 + 13 * ?n, take ?n (fc_wqid f)))"
      using Rwalk assms counts by (intro rwalk) (auto simp: counts_ok_def wire_body_def)
    with Rwalk assms counts show ?thesis
      by (simp add: M2S_T_def M2S_R_def wire_body_def carry_def counts_ok_def parse_simps Let_def
        min_absorb2)
  qed (use assms strs counts in \<open>simp_all add: M2S_T_def M2S_R_def wire_body_def carry_def Let_def
    counts_ok_def msg_strings_def no_nul_def parse_simps\<close>)
qed

lemma convM2S_wire:
  assumes "fcall_ok f" "no_nul f" "wire_size f \<le> nap" "nap \<le> wire_size f + length rest"
  shows "\<exists>b. convM2S (wire f @ rest) nap g = Some (b, Some (wire_size f, carry f g))"
proof -
  let ?a = "le32 (of_nat (wire_size f)) @ [fc_type f] @ le16 (fc_tag f)"
  have un: "unat (of_nat (wire_size f) :: u32int) = wire_size f"
    using assms(1) by (simp add: fcall_ok_def unat_of_nat)
  have "7 \<le> wire_size f" by (simp add: wire_size_def)
  moreover obtain b where "M2S_T (g\<lparr>fc_type := fc_type f, fc_tag := fc_tag f\<rparr>)
      (?a @ wire_body f @ rest) 7 nap = Some (b, Some (wire_size f, carry f g))"
    using M2S_body [of f _ g 7 ?a nap rest] assms by (auto simp: wire_size_def)
  ultimately show ?thesis
    using assms un by (simp add: convM2S_def wire_def parse_simps Let_def)
qed

subsection \<open>Properties\<close>



end
