(* ===== verification/ConvDir.thy ===== *)
theory ConvDir
  imports ConvS2M ConvM2S
begin

text \<open>
  Directory entries on the wire: \<^verbatim>\<open>libc/9sys/convD2M.c\<close> (\<open>sizeD2M\<close>, \<open>convD2M\<close>) and
  \<^verbatim>\<open>libc/9sys/convM2D.c\<close> (\<open>statcheck\<close>, \<open>convM2D\<close>).  As for messages, \<open>None\<close> is a memory
  fault.  The string area \<^verbatim>\<open>strs\<close> of \<open>convM2D\<close> is a memory of its own (nil when the caller
  wants no strings), so that writing past it is a fault as well.
\<close>

subsection \<open>The code\<close>

record Dir =
  d_type :: ushort
  d_dev :: u32int
  d_qid :: qid
  d_mode :: u32int
  d_atime :: u32int
  d_mtime :: u32int
  d_length :: uvlong
  d_name :: cstr
  d_uid :: cstr
  d_gid :: cstr
  d_muid :: cstr

definition STATFIXLEN :: nat where
  "STATFIXLEN = BIT16SZ + QIDSZ + 5 * BIT16SZ + 4 * BIT32SZ + 1 * BIT64SZ"

text \<open>The array \<^verbatim>\<open>sv\<close> and the string length with nil counted as empty.\<close>

definition dir_sv :: "Dir \<Rightarrow> cstr list" where
  "dir_sv d = [d_name d, d_uid d, d_gid d, d_muid d]"

definition nsv :: "cstr \<Rightarrow> u32int" where
  "nsv s = (case s of None \<Rightarrow> 0 | Some s \<Rightarrow> strlen s)"

definition sizeD2M :: "Dir \<Rightarrow> u32int" where
  "sizeD2M d = of_nat STATFIXLEN + sum_list (map nsv (dir_sv d))"

text \<open>The loop that appends the strings, with its own bounds check (\<open>None\<close> inside: return 0).\<close>

fun D2M_strs :: "mem \<Rightarrow> nat \<Rightarrow> nat \<Rightarrow> cstr list \<Rightarrow> (mem \<times> nat option) option" where
  "D2M_strs buf p ebuf [] = Some (buf, Some p)"
| "D2M_strs buf p ebuf (s # sv) =
     (let ns = unat (nsv s) in
      if p + ns + BIT16SZ > ebuf then Some (buf, None)
      else do {
        buf \<leftarrow> PBIT16 buf p (of_nat ns); let p = p + BIT16SZ;
        buf \<leftarrow> (case s of None \<Rightarrow> Some buf | Some x \<Rightarrow> memput buf p (take ns x)); let p = p + ns;
        D2M_strs buf p ebuf sv })"

definition convD2M :: "Dir \<Rightarrow> mem \<Rightarrow> nat \<Rightarrow> (nat \<times> mem) option" where
  "convD2M d buf nbuf =
     (if nbuf < BIT16SZ then Some (0, buf)
      else do {
        let p = 0; let ebuf = nbuf;
        let ns = sum_list (map nsv (dir_sv d));
        let ss = of_nat STATFIXLEN + ns;
        buf \<leftarrow> PBIT16 buf p (ucast (ss - 2)); let p = p + BIT16SZ;
        if unat ss > nbuf then Some (BIT16SZ, buf)
        else do {
          buf \<leftarrow> PBIT16 buf p (d_type d); let p = p + BIT16SZ;
          buf \<leftarrow> PBIT32 buf p (d_dev d); let p = p + BIT32SZ;
          buf \<leftarrow> PBIT8 buf p (q_type (d_qid d)); let p = p + BIT8SZ;
          buf \<leftarrow> PBIT32 buf p (q_vers (d_qid d)); let p = p + BIT32SZ;
          buf \<leftarrow> PBIT64 buf p (q_path (d_qid d)); let p = p + BIT64SZ;
          buf \<leftarrow> PBIT32 buf p (d_mode d); let p = p + BIT32SZ;
          buf \<leftarrow> PBIT32 buf p (d_atime d); let p = p + BIT32SZ;
          buf \<leftarrow> PBIT32 buf p (d_mtime d); let p = p + BIT32SZ;
          buf \<leftarrow> PBIT64 buf p (d_length d); let p = p + BIT64SZ;
          (buf, r) \<leftarrow> D2M_strs buf p ebuf (dir_sv d);
          case r of
            None \<Rightarrow> Some (0, buf)
          | Some p \<Rightarrow> if unat ss \<noteq> p then Some (0, buf) else Some (p, buf) } })"

fun statcheck_strs :: "mem \<Rightarrow> nat \<Rightarrow> nat \<Rightarrow> nat \<Rightarrow> nat option option" where
  "statcheck_strs buf p ebuf 0 = Some (Some p)"
| "statcheck_strs buf p ebuf (Suc i) =
     (if p + BIT16SZ > ebuf then Some None
      else do {
        n \<leftarrow> GBIT16 buf p;
        statcheck_strs buf (p + (BIT16SZ + unat n)) ebuf i })"

definition statcheck :: "mem \<Rightarrow> nat \<Rightarrow> int option" where
  "statcheck buf nbuf =
     (if nbuf < STATFIXLEN then Some (-1)
      else do {
        n \<leftarrow> GBIT16 buf 0;
        if nbuf \<noteq> BIT16SZ + unat n then Some (-1)
        else do {
          r \<leftarrow> statcheck_strs buf (STATFIXLEN - 4 * BIT16SZ) nbuf 4;
          case r of
            None \<Rightarrow> Some (-1)
          | Some p \<Rightarrow> if p \<noteq> nbuf then Some (-1) else Some 0 } })"

text \<open>
  The string loop of \<open>convM2D\<close>: each string is copied to \<^verbatim>\<open>strs\<close> with a NUL after it.  The
  state is the string area with its write position, or nil.
\<close>

definition strs_put :: "(mem \<times> nat) option \<Rightarrow> mem \<Rightarrow> (mem \<times> nat) option option" where
  "strs_put strs b =
     (case strs of
        None \<Rightarrow> Some None
      | Some (m, sp) \<Rightarrow> do { m \<leftarrow> memput m sp (b @ [0]); Some (Some (m, sp + length b + 1)) })"

fun M2D_strs :: "mem \<Rightarrow> nat \<Rightarrow> nat \<Rightarrow> (mem \<times> nat) option \<Rightarrow> nat \<Rightarrow>
    ((mem \<times> nat) option \<times> (nat \<times> cstr list) option) option" where
  "M2D_strs buf p ebuf strs 0 = Some (strs, Some (p, []))"
| "M2D_strs buf p ebuf strs (Suc i) =
     (if p + BIT16SZ > ebuf then Some (strs, None)
      else do {
        n \<leftarrow> GBIT16 buf p; let ns = unat n; let p = p + BIT16SZ;
        if p + ns > ebuf then Some (strs, None)
        else do {
          b \<leftarrow> memget buf p ns;
          strs \<leftarrow> strs_put strs b;
          (strs, r) \<leftarrow> M2D_strs buf (p + ns) ebuf strs i;
          Some (strs, map_option (\<lambda>(p, ss). (p, Some (takeWhile (\<lambda>c. c \<noteq> 0) b) # ss)) r) } })"

definition convM2D :: "mem \<Rightarrow> nat \<Rightarrow> Dir \<Rightarrow> mem option \<Rightarrow> (mem option \<times> (nat \<times> Dir) option) option" where
  "convM2D buf nbuf d strs =
     (if nbuf < STATFIXLEN then Some (strs, None)
      else do {
        let ebuf = nbuf;
        let p = BIT16SZ;
        v \<leftarrow> GBIT16 buf p; let d = d\<lparr>d_type := v\<rparr>; let p = p + BIT16SZ;
        v \<leftarrow> GBIT32 buf p; let d = d\<lparr>d_dev := v\<rparr>; let p = p + BIT32SZ;
        qt \<leftarrow> GBIT8 buf p; let p = p + BIT8SZ;
        qv \<leftarrow> GBIT32 buf p; let p = p + BIT32SZ;
        qp \<leftarrow> GBIT64 buf p; let p = p + BIT64SZ;
        let d = d\<lparr>d_qid := \<lparr>q_path = qp, q_vers = qv, q_type = qt\<rparr>\<rparr>;
        v \<leftarrow> GBIT32 buf p; let d = d\<lparr>d_mode := v\<rparr>; let p = p + BIT32SZ;
        v \<leftarrow> GBIT32 buf p; let d = d\<lparr>d_atime := v\<rparr>; let p = p + BIT32SZ;
        v \<leftarrow> GBIT32 buf p; let d = d\<lparr>d_mtime := v\<rparr>; let p = p + BIT32SZ;
        v \<leftarrow> GBIT64 buf p; let d = d\<lparr>d_length := v\<rparr>; let p = p + BIT64SZ;
        (strs, r) \<leftarrow> M2D_strs buf p ebuf (map_option (\<lambda>m. (m, 0)) strs) 4;
        let strs = map_option fst strs;
        case r of
          None \<Rightarrow> Some (strs, None)
        | Some (p, sv) \<Rightarrow>
            (if strs = None
             then Some (strs, Some (p, d\<lparr>d_name := Some [], d_uid := Some [], d_gid := Some [],
               d_muid := Some []\<rparr>))
             else Some (strs, Some (p, d\<lparr>d_name := sv ! 0, d_uid := sv ! 1, d_gid := sv ! 2,
               d_muid := sv ! 3\<rparr>))) })"

subsection \<open>The format of an entry\<close>

definition wire_dirsize :: "Dir \<Rightarrow> nat" where
  "wire_dirsize d = 49 + sum_list (map (length \<circ> cbytes) (dir_sv d))"

definition wire_dirfix :: "Dir \<Rightarrow> mem" where
  "wire_dirfix d = le16 (d_type d) @ le32 (d_dev d) @ wqid (d_qid d) @ le32 (d_mode d)
     @ le32 (d_atime d) @ le32 (d_mtime d) @ le64 (d_length d)"

definition wire_dir :: "Dir \<Rightarrow> mem" where
  "wire_dir d = le16 (of_nat (wire_dirsize d - 2)) @ wire_dirfix d @ concat (map wstr (dir_sv d))"

definition dir_ok :: "Dir \<Rightarrow> bool" where
  "dir_ok d \<longleftrightarrow> wire_dirsize d - 2 < 65536"

definition dir_no_nul :: "Dir \<Rightarrow> bool" where
  "dir_no_nul d \<longleftrightarrow> list_all (\<lambda>s. 0 \<notin> set (cbytes s)) (dir_sv d)"

definition dir_nstr :: "Dir \<Rightarrow> Dir" where
  "dir_nstr d = d\<lparr>d_name := nstr (d_name d), d_uid := nstr (d_uid d), d_gid := nstr (d_gid d),
     d_muid := nstr (d_muid d)\<rparr>"

lemma length_wire_dirfix [simp]: "length (wire_dirfix d) = 39"
  by (simp add: wire_dirfix_def)

lemma length_wire_dir [simp]: "length (wire_dir d) = wire_dirsize d"
  by (simp add: wire_dir_def wire_dirsize_def dir_sv_def)

lemma length_dir_sv: "length (dir_sv d) = 4"
  by (simp add: dir_sv_def)

lemma dir_ok_strs: "dir_ok d \<Longrightarrow> list_all str_ok (dir_sv d)"
  by (simp add: dir_ok_def wire_dirsize_def dir_sv_def str_ok_def)

lemma nsv_of_nat: "nsv s = of_nat (length (cbytes s))"
  by (cases s) (simp_all add: nsv_def strlen_def)

lemma sizeD2M_wire: "sizeD2M d = of_nat (wire_dirsize d)"
  by (simp add: sizeD2M_def wire_dirsize_def STATFIXLEN_def dir_sv_def nsv_of_nat)

subsection \<open>Encoding\<close>

lemma D2M_strs_img [mem_simps]:
  "p = length bs \<Longrightarrow> list_all str_ok sv \<Longrightarrow> p + length (concat (map wstr sv)) \<le> ebuf \<Longrightarrow>
   ebuf \<le> length buf \<Longrightarrow>
   D2M_strs (img bs buf) p ebuf sv =
     Some (img (bs @ concat (map wstr sv)) buf, Some (p + length (concat (map wstr sv))))"
proof (induction sv arbitrary: bs p)
  case (Cons s sv)
  have n: "unat (nsv s) = length (cbytes s)"
    using Cons.prems(2) by (simp add: nsv_of_nat str_ok_def unat_of_nat)
  have "D2M_strs (img (bs @ wstr s) buf) (p + length (wstr s)) ebuf sv =
     Some (img ((bs @ wstr s) @ concat (map wstr sv)) buf,
       Some (p + length (wstr s) + length (concat (map wstr sv))))"
    using Cons.prems by (intro Cons.IH) simp_all
  moreover have "(case s of None \<Rightarrow> Some b | Some x \<Rightarrow> memput b q (take (length (cbytes s)) x)) =
      memput b q (cbytes s)" if "q \<le> length b" for b q
    using that by (cases s) (simp_all add: memput_def)
  ultimately show ?case
    using Cons.prems n by (simp add: pbit_img wstr_def [of s] memput_img Let_def)
qed simp

lemma convD2M_wire:
  assumes "dir_ok d" "2 \<le> nbuf" "nbuf \<le> length buf"
  shows "convD2M d buf nbuf = Some
    (if wire_dirsize d \<le> nbuf then (wire_dirsize d, img (wire_dir d) buf)
     else (2, img (le16 (of_nat (wire_dirsize d - 2))) buf))"
proof -
  have ss: "of_nat STATFIXLEN + sum_list (map nsv (dir_sv d)) = (of_nat (wire_dirsize d) :: u32int)"
    using sizeD2M_wire [of d] by (simp add: sizeD2M_def)
  have un: "unat (of_nat (wire_dirsize d) :: u32int) = wire_dirsize d"
    using assms(1) by (simp add: dir_ok_def unat_of_nat)
  have "of_nat (wire_dirsize d) - 2 = (of_nat (wire_dirsize d - 2) :: u32int)"
    by (simp add: wire_dirsize_def of_nat_diff)
  then have cnt: "ucast (of_nat (wire_dirsize d) - 2 :: u32int) = (of_nat (wire_dirsize d - 2) :: ushort)"
    using assms(1) by (simp add: dir_ok_def unsigned_of_nat take_bit_nat_eq_self del: of_nat_diff)
  have first: "PBIT16 buf 0 v = Some (img (le16 v) buf)" for v
    using pbit_img(2) [of 0 "[]" buf v] assms by simp
  show ?thesis
  proof (cases "wire_dirsize d \<le> nbuf")
    case True
    have len: "length (concat (map wstr (dir_sv d))) = wire_dirsize d - 41"
      and min: "49 \<le> wire_dirsize d"
      by (simp_all add: wire_dirsize_def dir_sv_def)
    from True min have "49 \<le> nbuf" by simp
    with True min assms dir_ok_strs [OF assms(1)] show ?thesis
      by (simp add: convD2M_def ss un cnt first mem_simps wire_dir_def wire_dirfix_def wqid_def
        len Let_def)
  qed (use assms in \<open>simp add: convD2M_def ss un cnt first\<close>)
qed

subsection \<open>Decoding\<close>

definition strs_room :: "(mem \<times> nat) option \<Rightarrow> nat \<Rightarrow> bool" where
  "strs_room strs k \<longleftrightarrow> (case strs of None \<Rightarrow> True | Some (m, sp) \<Rightarrow> sp + k \<le> length m)"

lemma strs_put_fits:
  assumes "strs_room strs (length b + 1 + k)"
  obtains strs' where "strs_put strs b = Some strs'" "strs' = None \<longleftrightarrow> strs = None"
    "strs_room strs' k"
proof (cases strs)
  case None
  with that [of None] show ?thesis by (simp add: strs_put_def strs_room_def)
next
  case (Some ms)
  obtain m sp where ms: "ms = (m, sp)" by (cases ms)
  with assms Some have "sp + length b + 1 + k \<le> length m" by (simp add: strs_room_def)
  with Some ms that [of "Some (take sp m @ (b @ [0]) @ drop (sp + length (b @ [0])) m,
      sp + length b + 1)"]
  show ?thesis by (simp add: strs_put_def memput_def strs_room_def)
qed

lemma M2D_strs_head:
  "list_all str_ok sv \<Longrightarrow> list_all (\<lambda>s. 0 \<notin> set (cbytes s)) sv \<Longrightarrow> p = length a \<Longrightarrow>
   p + length (concat (map wstr sv)) \<le> ebuf \<Longrightarrow>
   strs_room strs (length (concat (map wstr sv))) \<Longrightarrow>
   \<exists>strs'. M2D_strs (a @ concat (map wstr sv) @ xs) p ebuf strs (length sv) =
     Some (strs', Some (p + length (concat (map wstr sv)), map nstr sv)) \<and>
     (strs' = None \<longleftrightarrow> strs = None)"
proof (induction sv arbitrary: a p strs)
  case (Cons s sv)
  have "strs_room strs (length (cbytes s) + 1 + length (concat (map wstr sv)))"
    using Cons.prems(5) by (auto simp: strs_room_def split: option.splits)
  then obtain strs1 where s1: "strs_put strs (cbytes s) = Some strs1"
    and nil: "strs1 = None \<longleftrightarrow> strs = None"
    and cap: "strs_room strs1 (length (concat (map wstr sv)))"
    by (elim strs_put_fits)
  have "\<exists>strs'. M2D_strs ((a @ wstr s) @ concat (map wstr sv) @ xs) (p + length (wstr s)) ebuf strs1
      (length sv) = Some (strs', Some (p + length (wstr s) + length (concat (map wstr sv)), map nstr sv))
      \<and> (strs' = None \<longleftrightarrow> strs1 = None)"
    using Cons.prems cap by (intro Cons.IH) simp_all
  then obtain strs' where rec: "M2D_strs (a @ wstr s @ concat (map wstr sv) @ xs)
      (p + length (wstr s)) ebuf strs1 (length sv) =
      Some (strs', Some (p + length (wstr s) + length (concat (map wstr sv)), map nstr sv))"
    "strs' = None \<longleftrightarrow> strs = None"
    using nil by auto
  have n: "unat (of_nat (length (cbytes s)) :: ushort) = length (cbytes s)"
    using Cons.prems(1) by (simp add: str_ok_unat)
  have get: "GBIT16 (a @ wstr s @ ys) p = Some (of_nat (length (cbytes s)))"
    "memget (a @ wstr s @ ys) (p + 2) (length (cbytes s)) = Some (cbytes s)" for ys
    using Cons.prems(3) by (simp_all add: wstr_def parse_simps)
  have tw: "takeWhile (\<lambda>c. c \<noteq> 0) (cbytes s) = cbytes s"
    using Cons.prems(2) by (auto simp: takeWhile_eq_all_conv)
  show ?case
    using Cons.prems(4) s1 rec n get by (simp add: Let_def tw)
qed simp

lemma convM2D_wire:
  assumes "dir_ok d" "dir_no_nul d" "wire_dirsize d \<le> nbuf"
    "case strs of None \<Rightarrow> True | Some m \<Rightarrow> wire_dirsize d \<le> length m"
  shows "\<exists>strs'. convM2D (wire_dir d @ rest) nbuf g strs = Some (strs', Some (wire_dirsize d,
    if strs = None then d\<lparr>d_name := Some [], d_uid := Some [], d_gid := Some [], d_muid := Some []\<rparr>
    else dir_nstr d))"
proof -
  let ?a = "le16 (of_nat (wire_dirsize d - 2)) @ wire_dirfix d"
  have len: "length (concat (map wstr (dir_sv d))) = wire_dirsize d - 41"
    and min: "49 \<le> wire_dirsize d"
    by (simp_all add: wire_dirsize_def dir_sv_def)
  have cap: "strs_room (map_option (\<lambda>m. (m, 0)) strs) (length (concat (map wstr (dir_sv d))))"
    using assms(4) len by (cases strs) (auto simp: strs_room_def)
  obtain strs' where "M2D_strs (?a @ concat (map wstr (dir_sv d)) @ rest) 41 nbuf
      (map_option (\<lambda>m. (m, 0)) strs) (length (dir_sv d)) =
      Some (strs', Some (41 + length (concat (map wstr (dir_sv d))), map nstr (dir_sv d)))"
    "strs' = None \<longleftrightarrow> strs = None"
    using M2D_strs_head [of "dir_sv d" 41 ?a nbuf "map_option (\<lambda>m. (m, 0)) strs" rest]
      dir_ok_strs [OF assms(1)] assms(2,3) cap len min
    by (auto simp: dir_no_nul_def)
  then have strs: "M2D_strs (wire_dir d @ rest) 41 nbuf (map_option (\<lambda>m. (m, 0)) strs) 4 =
      Some (strs', Some (wire_dirsize d, map nstr (dir_sv d)))" "strs' = None \<longleftrightarrow> strs = None"
    using len min length_dir_sv [of d] by (simp_all add: wire_dir_def)
  have hdr: "GBIT16 (wire_dir d @ rest) 2 = Some (d_type d)"
    "GBIT32 (wire_dir d @ rest) 4 = Some (d_dev d)"
    "GBIT8 (wire_dir d @ rest) 8 = Some (q_type (d_qid d))"
    "GBIT32 (wire_dir d @ rest) 9 = Some (q_vers (d_qid d))"
    "GBIT64 (wire_dir d @ rest) 13 = Some (q_path (d_qid d))"
    "GBIT32 (wire_dir d @ rest) 21 = Some (d_mode d)"
    "GBIT32 (wire_dir d @ rest) 25 = Some (d_atime d)"
    "GBIT32 (wire_dir d @ rest) 29 = Some (d_mtime d)"
    "GBIT64 (wire_dir d @ rest) 33 = Some (d_length d)"
    by (simp_all add: wire_dir_def wire_dirfix_def wqid_def parse_simps)
  show ?thesis
    using min assms(3) strs
    by (simp add: convM2D_def STATFIXLEN_def hdr dir_sv_def dir_nstr_def Let_def)
qed

subsection \<open>Safety, and the checker against the decoder\<close>

lemma strs_put_None [simp]: "strs_put None b = Some None"
  by (simp add: strs_put_def)

lemma M2D_strs_total:
  "ebuf \<le> length buf \<Longrightarrow> p \<le> ebuf \<Longrightarrow>
   strs_room strs (ebuf - p) \<Longrightarrow> \<exists>strs' r. M2D_strs buf p ebuf strs i = Some (strs', r) \<and>
     (case r of None \<Rightarrow> True | Some (q, ss) \<Rightarrow> q \<le> ebuf \<and> length ss = i)"
proof (induction i arbitrary: p strs)
  case (Suc i)
  show ?case
  proof (cases "p + 2 \<le> ebuf")
    case True
    with Suc.prems(1) obtain n where n: "GBIT16 buf p = Some n"
      using gbit_total(2) [of p buf] by auto
    show ?thesis
    proof (cases "p + 2 + unat n \<le> ebuf")
      case fits: True
      with Suc.prems(1) have b: "memget buf (p + 2) (unat n) = Some (take (unat n) (drop (p + 2) buf))"
        by (simp add: memget_def)
      have len: "length (take (unat n) (drop (p + 2) buf)) = unat n"
        using fits Suc.prems(1) by simp
      have "strs_room strs (unat n + 1 + (ebuf - (p + 2 + unat n)))"
        using Suc.prems(3) fits by (auto simp: strs_room_def split: option.splits)
      then obtain strs1 where s1: "strs_put strs (take (unat n) (drop (p + 2) buf)) = Some strs1"
        and cap: "strs_room strs1 (ebuf - (p + 2 + unat n))"
        using len by (metis strs_put_fits)
      obtain strs' r where rec: "M2D_strs buf (p + 2 + unat n) ebuf strs1 i = Some (strs', r)"
        "case r of None \<Rightarrow> True | Some (q, ss) \<Rightarrow> q \<le> ebuf \<and> length ss = i"
        using Suc.IH [OF Suc.prems(1) fits cap] by blast
      then show ?thesis
        using True fits n b s1 by (cases r) (auto simp: Let_def)
    qed (use True n in \<open>simp add: Let_def\<close>)
  qed simp
qed simp

lemma statcheck_strs_mono: "statcheck_strs buf p ebuf i = Some (Some q) \<Longrightarrow> p \<le> q"
  by (induction i arbitrary: p) (fastforce split: if_splits bind_splits)+

lemma statcheck_strs_total: "ebuf \<le> length buf \<Longrightarrow> \<exists>r. statcheck_strs buf p ebuf i = Some r"
proof (induction i arbitrary: p)
  case (Suc i)
  then show ?case using gbit_total(2) [of p buf] by (cases "p + 2 \<le> ebuf") auto
qed simp

lemma M2D_strs_None: "M2D_strs buf p ebuf None i = Some (strs', r) \<Longrightarrow> strs' = None"
  by (induction i arbitrary: p strs' r) (auto simp: Let_def split: if_splits bind_splits)

lemma statcheck_strs_M2D:
  "ebuf \<le> length buf \<Longrightarrow>
   statcheck_strs buf p ebuf i = Some (Some ebuf) \<longleftrightarrow>
   (\<exists>ss. M2D_strs buf p ebuf None i = Some (None, Some (ebuf, ss)))"
proof (induction i arbitrary: p)
  case (Suc i)
  show ?case
  proof (cases "p + 2 \<le> ebuf")
    case True
    with Suc.prems obtain n where n: "GBIT16 buf p = Some n"
      using gbit_total(2) [of p buf] by auto
    have IH: "statcheck_strs buf (p + 2 + unat n) ebuf i = Some (Some ebuf) \<longleftrightarrow>
        (\<exists>ss. M2D_strs buf (p + 2 + unat n) ebuf None i = Some (None, Some (ebuf, ss)))"
      by (rule Suc.IH [OF Suc.prems])
    show ?thesis
    proof (cases "p + 2 + unat n \<le> ebuf")
      case fits: True
      with Suc.prems have "memget buf (p + 2) (unat n) = Some (take (unat n) (drop (p + 2) buf))"
        by (simp add: memget_def)
      with True fits n IH show ?thesis
        by (auto simp: Let_def add.assoc split: bind_splits)
    next
      case False
      then have "statcheck_strs buf (p + 2 + unat n) ebuf i \<noteq> Some (Some ebuf)"
        using statcheck_strs_mono by fastforce
      with True False n show ?thesis by (simp add: Let_def add.assoc)
    qed
  qed simp
qed simp

subsection \<open>Properties\<close>

text \<open>
  C23. Encoding then decoding a directory entry is the identity up to nil strings, which come
  back empty: for an entry whose size fits the 16-bit count and whose strings hold no NUL,
  \<open>convD2M\<close> reports the size \<open>sizeD2M\<close> computes and \<open>convM2D\<close> gives the entry back.
\<close>

theorem dir_roundtrip:
  assumes "dir_ok d" "dir_no_nul d" "wire_dirsize d \<le> nbuf" "nbuf \<le> length buf"
    "wire_dirsize d \<le> length strs"
  shows "\<exists>buf' strs'. convD2M d buf nbuf = Some (unat (sizeD2M d), buf') \<and>
    convM2D buf' nbuf g (Some strs) = Some (strs', Some (unat (sizeD2M d), dir_nstr d))"
proof -
  have n: "unat (sizeD2M d) = wire_dirsize d"
    using assms(1) by (simp add: sizeD2M_wire dir_ok_def unat_of_nat)
  have "2 \<le> nbuf" using assms(3) by (simp add: wire_dirsize_def)
  then have "convD2M d buf nbuf = Some (wire_dirsize d, wire_dir d @ drop (wire_dirsize d) buf)"
    using convD2M_wire [OF assms(1) _ assms(4)] assms(3) by (simp add: img_def)
  with n convM2D_wire [OF assms(1,2,3), of "Some strs" "drop (wire_dirsize d) buf" g] assms(5)
  show ?thesis by simp
qed

definition example_dir :: Dir where
  "example_dir = \<lparr>d_type = 77, d_dev = 1, d_qid = zero_qid, d_mode = 420, d_atime = 5, d_mtime = 6,
     d_length = 7, d_name = Some [97, 98], d_uid = Some [117], d_gid = Some [103], d_muid = None\<rparr>"

theorem dir_roundtrip_witness:
  "\<exists>buf' strs'. convD2M example_dir (replicate 60 0) 60 = Some (unat (sizeD2M example_dir), buf') \<and>
    convM2D buf' 60 example_dir (Some (replicate 60 0)) =
      Some (strs', Some (unat (sizeD2M example_dir), dir_nstr example_dir))"
  using dir_roundtrip [of example_dir 60 "replicate 60 0" "replicate 60 0" example_dir]
  by (simp add: example_dir_def dir_ok_def dir_no_nul_def wire_dirsize_def dir_sv_def)

text \<open>
  A buffer that is too short for the entry but has two bytes receives the count, \<open>convD2M\<close>
  returns 2, and nothing else of the buffer changes: the caller can read the size it needs from
  the two bytes and call again.
\<close>

theorem convD2M_short:
  assumes "dir_ok d" "2 \<le> nbuf" "nbuf < wire_dirsize d" "nbuf \<le> length buf"
  shows "\<exists>buf'. convD2M d buf nbuf = Some (2, buf') \<and> drop 2 buf' = drop 2 buf \<and>
    (\<exists>n. GBIT16 buf' 0 = Some n \<and> unat n + 2 = unat (sizeD2M d))"
proof -
  have "unat (of_nat (wire_dirsize d - 2) :: ushort) + 2 = unat (sizeD2M d)"
    using assms(1-3) by (simp add: dir_ok_def sizeD2M_wire unat_of_nat del: of_nat_diff)
  with convD2M_wire [OF assms(1,2,4)] assms(3) show ?thesis
    by (simp add: drop_img img_def parse_simps)
qed

theorem convD2M_short_witness:
  "\<exists>buf'. convD2M example_dir [1, 2, 3] 3 = Some (2, buf') \<and> drop 2 buf' = [3] \<and>
    (\<exists>n. GBIT16 buf' 0 = Some n \<and> unat n + 2 = unat (sizeD2M example_dir))"
  using convD2M_short [of example_dir 3 "[1, 2, 3]"]
  by (simp add: example_dir_def dir_ok_def wire_dirsize_def dir_sv_def)

text \<open>
  \<open>statcheck\<close> decides what \<open>convM2D\<close> can decode in full: on a buffer whose leading count
  agrees with its length, it returns 0 exactly when \<open>convM2D\<close> consumes all \<open>nbuf\<close> bytes, and -1
  otherwise.
\<close>

theorem statcheck_iff:
  assumes "nbuf \<le> length buf" "STATFIXLEN \<le> nbuf" "GBIT16 buf 0 = Some n" "nbuf = 2 + unat n"
  shows "statcheck buf nbuf = Some (if \<exists>d'. convM2D buf nbuf d None = Some (None, Some (nbuf, d'))
    then 0 else - 1)"
proof -
  have pos: "STATFIXLEN - 4 * 2 = 41" by (simp add: STATFIXLEN_def)
  have min: "49 \<le> nbuf" using assms(2) by (simp add: STATFIXLEN_def)
  then have hdr: "\<exists>v. GBIT16 buf 2 = Some v" "\<exists>v. GBIT32 buf 4 = Some v" "\<exists>v. GBIT8 buf 8 = Some v"
    "\<exists>v. GBIT32 buf 9 = Some v" "\<exists>v. GBIT64 buf 13 = Some v" "\<exists>v. GBIT32 buf 21 = Some v"
    "\<exists>v. GBIT32 buf 25 = Some v" "\<exists>v. GBIT32 buf 29 = Some v" "\<exists>v. GBIT64 buf 33 = Some v"
    using assms(1) by (simp_all add: gbit_total)
  obtain r where r: "M2D_strs buf 41 nbuf None 4 = Some (None, r)"
    using M2D_strs_total [OF assms(1), of 41 None 4] M2D_strs_None min by (fastforce simp: strs_room_def)
  have "(\<exists>d'. convM2D buf nbuf d None = Some (None, Some (nbuf, d'))) \<longleftrightarrow>
      (\<exists>ss. r = Some (nbuf, ss))"
    using hdr r assms(2) by (cases r) (auto simp: convM2D_def Let_def)
  also have "\<dots> \<longleftrightarrow> statcheck_strs buf 41 nbuf 4 = Some (Some nbuf)"
    using statcheck_strs_M2D [OF assms(1), of 41 4] r by auto
  finally show ?thesis
    using statcheck_strs_total [of nbuf buf 41 4] assms pos
    by (auto simp: statcheck_def split: option.splits)
qed

lemma example_dir_size: "wire_dirsize example_dir = 53"
  by (simp add: wire_dirsize_def dir_sv_def example_dir_def)

lemma example_dir_count: "GBIT16 (wire_dir example_dir) 0 = Some 51"
  by (simp add: wire_dir_def example_dir_size parse_simps)

theorem statcheck_iff_witness:
  "statcheck (wire_dir example_dir) 53 = Some (if \<exists>d'. convM2D (wire_dir example_dir) 53 example_dir None =
    Some (None, Some (53, d')) then 0 else - 1)"
  by (rule statcheck_iff [where n = 51]) (simp_all add: example_dir_size example_dir_count STATFIXLEN_def)

text \<open>
  Memory safety of \<open>convM2D\<close>: on any bytes it never reads past the \<open>nbuf\<close> bytes it was given,
  and it never writes past a string area as long as the input.
\<close>

theorem convM2D_safe:
  assumes "nbuf \<le> length buf" "\<forall>m. strs = Some m \<longrightarrow> nbuf \<le> length m"
  shows "\<exists>strs' r. convM2D buf nbuf d strs = Some (strs', r) \<and> (\<forall>n d'. r = Some (n, d') \<longrightarrow> n \<le> nbuf)"
proof (cases "nbuf < STATFIXLEN")
  case False
  then have min: "49 \<le> nbuf" by (simp add: STATFIXLEN_def)
  then have hdr: "\<exists>v. GBIT16 buf 2 = Some v" "\<exists>v. GBIT32 buf 4 = Some v" "\<exists>v. GBIT8 buf 8 = Some v"
    "\<exists>v. GBIT32 buf 9 = Some v" "\<exists>v. GBIT64 buf 13 = Some v" "\<exists>v. GBIT32 buf 21 = Some v"
    "\<exists>v. GBIT32 buf 25 = Some v" "\<exists>v. GBIT32 buf 29 = Some v" "\<exists>v. GBIT64 buf 33 = Some v"
    using assms(1) by (simp_all add: gbit_total)
  have "strs_room (map_option (\<lambda>m. (m, 0)) strs) (nbuf - 41)"
    using assms(2) by (cases strs) (auto simp: strs_room_def)
  then obtain strs' r where r: "M2D_strs buf 41 nbuf (map_option (\<lambda>m. (m, 0)) strs) 4 = Some (strs', r)"
      "case r of None \<Rightarrow> True | Some (q, ss) \<Rightarrow> q \<le> nbuf \<and> length ss = 4"
    using M2D_strs_total [OF assms(1), of 41 "map_option (\<lambda>m. (m, 0)) strs" 4] min by auto
  then show ?thesis
    using hdr False by (cases r) (auto simp: convM2D_def Let_def)
qed (simp add: convM2D_def)

theorem convM2D_safe_witness:
  "\<exists>strs' r. convM2D (replicate 60 255) 60 example_dir (Some (replicate 60 0)) = Some (strs', r) \<and>
    (\<forall>n d'. r = Some (n, d') \<longrightarrow> n \<le> 60)"
  using convM2D_safe [of 60 "replicate 60 255" "Some (replicate 60 0)" example_dir] by simp

end
