(* ===== verification/Intmap.thy ===== *)
theory Intmap
  imports P9Base
begin

text \<open>
  \<^verbatim>\<open>lib9p/intmap.c\<close>: the hash table from 32-bit numbers to pointers under which the 9P
  server keeps its fids and outstanding requests.  A table is the array of \<^verbatim>\<open>NHASH\<close> chains, a
  chain the list of its \<^verbatim>\<open>Intlist\<close> nodes in link order.  The read-write lock makes each
  operation atomic; the \<^verbatim>\<open>inc\<close> and \<^verbatim>\<open>destroy\<close> callbacks are arguments that act on the
  caller's state \<open>'s\<close>.

  The locale \<open>int_map\<close> is the contract its clients, the fid and request pools, rely on.
\<close>

subsection \<open>The code\<close>

type_synonym 'v intlist = "(u32int \<times> 'v) list"
type_synonym 'v intmap = "'v intlist list"

definition NHASH :: nat where "NHASH = 128"

definition hashid :: "u32int \<Rightarrow> nat" where
  "hashid i = unat i mod NHASH"

definition allocmap :: "'v intmap" where
  "allocmap = replicate NHASH []"

text \<open>
  \<open>llookup\<close> returns the link that points to the node (or to nil): the nodes before it, and the
  rest of the chain.
\<close>

fun llookup :: "'v intlist \<Rightarrow> u32int \<Rightarrow> 'v intlist \<times> 'v intlist" where
  "llookup [] k = ([], [])"
| "llookup (n # l) k =
     (if fst n = k then ([], n # l) else (let (a, b) = llookup l k in (n # a, b)))"

definition lookupkey ::
  "('v \<Rightarrow> 's \<Rightarrow> 's) \<Rightarrow> 'v intmap \<Rightarrow> u32int \<Rightarrow> 's \<Rightarrow> 'v option \<times> 's" where
  "lookupkey inc m k s =
     (case snd (llookup (m ! hashid k) k) of
        f # _ \<Rightarrow> let v = snd f in (Some v, inc v s)
      | [] \<Rightarrow> (None, s))"

definition insertkey :: "'v intmap \<Rightarrow> u32int \<Rightarrow> 'v \<Rightarrow> 'v option \<times> 'v intmap" where
  "insertkey m k v =
     (let h = hashid k; (a, b) = llookup (m ! h) k in
      case b of
        f # l \<Rightarrow> (Some (snd f), m[h := a @ (fst f, v) # l])
      | [] \<Rightarrow> (None, m[h := (k, v) # m ! h]))"

definition caninsertkey :: "'v intmap \<Rightarrow> u32int \<Rightarrow> 'v \<Rightarrow> bool \<times> 'v intmap" where
  "caninsertkey m k v =
     (let h = hashid k in
      if snd (llookup (m ! h) k) \<noteq> [] then (False, m)
      else (True, m[h := (k, v) # m ! h]))"

definition deletekey :: "'v intmap \<Rightarrow> u32int \<Rightarrow> 'v option \<times> 'v intmap" where
  "deletekey m k =
     (let h = hashid k; (a, b) = llookup (m ! h) k in
      case b of
        f # l \<Rightarrow> (Some (snd f), m[h := a @ l])
      | [] \<Rightarrow> (None, m))"

text \<open>\<open>freemap\<close> destroys every value, bucket by bucket in link order.\<close>

definition freemap :: "('v \<Rightarrow> 's \<Rightarrow> 's) \<Rightarrow> 'v intmap \<Rightarrow> 's \<Rightarrow> 's" where
  "freemap destroy m s = fold (\<lambda>l. fold (\<lambda>n. destroy (snd n)) l) m s"

subsection \<open>The invariant and the abstract map\<close>

definition chain_ok :: "nat \<Rightarrow> 'v intlist \<Rightarrow> bool" where
  "chain_ok h l \<longleftrightarrow> distinct (map fst l) \<and> list_all (\<lambda>n. hashid (fst n) = h) l"

definition intmap_ok :: "'v intmap \<Rightarrow> bool" where
  "intmap_ok m \<longleftrightarrow> length m = NHASH \<and> (\<forall>h < NHASH. chain_ok h (m ! h))"

definition mget :: "'v intmap \<Rightarrow> u32int \<rightharpoonup> 'v" where
  "mget m k = map_of (m ! hashid k) k"

lemma hashid_less [simp]: "hashid k < NHASH"
  by (simp add: hashid_def NHASH_def)

lemma llookup_split: "llookup l k = (a, b) \<Longrightarrow> l = a @ b"
  by (induction l arbitrary: a b) (auto split: if_splits prod.splits)

lemma llookup_fst: "llookup l k = (a, b) \<Longrightarrow> k \<notin> fst ` set a"
  by (induction l arbitrary: a b) (auto split: if_splits prod.splits)

lemma llookup_Nil_iff: "snd (llookup l k) = [] \<longleftrightarrow> map_of l k = None"
  by (induction l) (auto split: prod.splits)

lemma llookup_Cons: "llookup l k = (a, f # b) \<Longrightarrow> fst f = k \<and> map_of l k = Some (snd f)"
  by (induction l arbitrary: a) (auto split: if_splits prod.splits)

lemma mget_allocmap: "mget allocmap = Map.empty"
  by (auto simp: mget_def allocmap_def)

lemma intmap_ok_allocmap: "intmap_ok allocmap"
  by (simp add: intmap_ok_def allocmap_def chain_ok_def)

lemma mget_update_bucket:
  "length m = NHASH \<Longrightarrow> mget (m[hashid k := l]) j =
     (if hashid j = hashid k then map_of l j else mget m j)"
  by (simp add: mget_def nth_list_update)

lemma intmap_ok_update_bucket:
  "intmap_ok m \<Longrightarrow> chain_ok h l \<Longrightarrow> h < NHASH \<Longrightarrow> intmap_ok (m[h := l])"
  by (simp add: intmap_ok_def nth_list_update)

lemma lookupkey_spec:
  "lookupkey inc m k s = (mget m k, case mget m k of None \<Rightarrow> s | Some v \<Rightarrow> inc v s)"
proof (cases "llookup (m ! hashid k) k")
  case (Pair a b)
  then show ?thesis
    using llookup_Nil_iff [of "m ! hashid k" k]
    by (cases b) (auto simp: lookupkey_def mget_def dest: llookup_Cons)
qed

lemma caninsertkey_spec:
  assumes "intmap_ok m"
  shows "fst (caninsertkey m k v) \<longleftrightarrow> mget m k = None"
    and "mget (snd (caninsertkey m k v)) = (if mget m k = None then (mget m)(k \<mapsto> v) else mget m)"
    and "intmap_ok (snd (caninsertkey m k v))"
proof -
  show "fst (caninsertkey m k v) \<longleftrightarrow> mget m k = None"
    by (simp add: caninsertkey_def mget_def llookup_Nil_iff Let_def)
  have len: "length m = NHASH" and c: "chain_ok (hashid k) (m ! hashid k)"
    using assms by (simp_all add: intmap_ok_def)
  show "mget (snd (caninsertkey m k v)) = (if mget m k = None then (mget m)(k \<mapsto> v) else mget m)"
    using len by (auto simp: caninsertkey_def llookup_Nil_iff mget_update_bucket fun_eq_iff Let_def)
       (auto simp: mget_def)
  show "intmap_ok (snd (caninsertkey m k v))"
  proof (cases "mget m k")
    case None
    then have "k \<notin> fst ` set (m ! hashid k)" by (simp add: mget_def map_of_eq_None_iff)
    with c have "chain_ok (hashid k) ((k, v) # m ! hashid k)" by (simp add: chain_ok_def)
    with assms show ?thesis
      by (simp add: caninsertkey_def intmap_ok_update_bucket Let_def)
  qed (use assms in \<open>simp add: caninsertkey_def llookup_Nil_iff mget_def Let_def\<close>)
qed

lemma map_of_delete_mid:
  "distinct (map fst (a @ (k, v) # l)) \<Longrightarrow> map_of (a @ l) = (map_of (a @ (k, v) # l))(k := None)"
proof -
  assume d: "distinct (map fst (a @ (k, v) # l))"
  then have "k \<notin> fst ` set a" and "k \<notin> fst ` set (a @ l)" by auto
  then have "map_of (a @ (k, v) # l) = (map_of (a @ l))(k \<mapsto> v)" and "map_of (a @ l) k = None"
    by (auto simp: map_add_upd_left dom_map_of_conv_image_fst map_of_eq_None_iff simp flip: map_of_append)
      (simp add: map_add_upd_left dom_map_of_conv_image_fst)
  then show ?thesis by (auto simp: fun_eq_iff)
qed

lemma deletekey_spec:
  assumes "intmap_ok m"
  shows "fst (deletekey m k) = mget m k"
    and "mget (snd (deletekey m k)) = (mget m)(k := None)"
    and "intmap_ok (snd (deletekey m k))"
proof -
  obtain a b where ab: "llookup (m ! hashid k) k = (a, b)" by (cases "llookup (m ! hashid k) k")
  have len: "length m = NHASH" and c: "chain_ok (hashid k) (m ! hashid k)"
    using assms by (simp_all add: intmap_ok_def)
  have "fst (deletekey m k) = mget m k \<and> mget (snd (deletekey m k)) = (mget m)(k := None) \<and>
    intmap_ok (snd (deletekey m k))"
  proof (cases b)
    case Nil
    then have "mget m k = None" using ab llookup_Nil_iff [of "m ! hashid k" k] by (simp add: mget_def)
    with Nil ab assms show ?thesis by (auto simp: deletekey_def fun_eq_iff)
  next
    case (Cons f l)
    obtain v where f: "f = (k, v)" and get: "mget m k = Some v"
      using llookup_Cons [of "m ! hashid k" k a f l] ab Cons by (cases f) (auto simp: mget_def)
    have chain: "m ! hashid k = a @ (k, v) # l" using llookup_split [OF ab] Cons f by simp
    have "mget (m[hashid k := a @ l]) = (mget m)(k := None)"
      using len c map_of_delete_mid [of a k v l] chain
      by (auto simp: mget_update_bucket fun_eq_iff chain_ok_def) (auto simp: mget_def)
    moreover have "intmap_ok (m[hashid k := a @ l])"
      using assms c chain by (intro intmap_ok_update_bucket) (auto simp: chain_ok_def)
    ultimately show ?thesis using ab Cons f get by (simp add: deletekey_def Let_def)
  qed
  then show "fst (deletekey m k) = mget m k" "mget (snd (deletekey m k)) = (mget m)(k := None)"
    "intmap_ok (snd (deletekey m k))" by simp_all
qed

lemma insertkey_spec:
  assumes "intmap_ok m"
  shows "fst (insertkey m k v) = mget m k"
    and "mget (snd (insertkey m k v)) = (mget m)(k \<mapsto> v)"
    and "intmap_ok (snd (insertkey m k v))"
proof -
  obtain a b where ab: "llookup (m ! hashid k) k = (a, b)" by (cases "llookup (m ! hashid k) k")
  have len: "length m = NHASH" and c: "chain_ok (hashid k) (m ! hashid k)"
    using assms by (simp_all add: intmap_ok_def)
  have "fst (insertkey m k v) = mget m k \<and> mget (snd (insertkey m k v)) = (mget m)(k \<mapsto> v) \<and>
    intmap_ok (snd (insertkey m k v))"
  proof (cases b)
    case Nil
    then have none: "mget m k = None"
      using ab llookup_Nil_iff [of "m ! hashid k" k] by (simp add: mget_def)
    then have "k \<notin> fst ` set (m ! hashid k)" by (simp add: mget_def map_of_eq_None_iff)
    with c have "intmap_ok (m[hashid k := (k, v) # m ! hashid k])"
      using assms by (intro intmap_ok_update_bucket) (auto simp: chain_ok_def)
    moreover have "mget (m[hashid k := (k, v) # m ! hashid k]) = (mget m)(k \<mapsto> v)"
      using len by (auto simp: mget_update_bucket fun_eq_iff) (auto simp: mget_def)
    ultimately show ?thesis using Nil ab none by (simp add: insertkey_def Let_def)
  next
    case (Cons f l)
    obtain w where f: "f = (k, w)" and get: "mget m k = Some w"
      using llookup_Cons [of "m ! hashid k" k a f l] ab Cons by (cases f) (auto simp: mget_def)
    have chain: "m ! hashid k = a @ (k, w) # l" using llookup_split [OF ab] Cons f by simp
    have notin: "k \<notin> fst ` set a" by (rule llookup_fst [OF ab])
    have "map_of (a @ (k, v) # l) = (map_of (a @ (k, w) # l))(k \<mapsto> v)"
      using notin by (simp add: map_add_upd_left dom_map_of_conv_image_fst)
    then have "mget (m[hashid k := a @ (k, v) # l]) = (mget m)(k \<mapsto> v)"
      using len chain by (auto simp: mget_update_bucket fun_eq_iff) (auto simp: mget_def)
    moreover have "intmap_ok (m[hashid k := a @ (k, v) # l])"
      using assms c chain by (intro intmap_ok_update_bucket) (auto simp: chain_ok_def)
    ultimately show ?thesis using ab Cons f get by (simp add: insertkey_def Let_def)
  qed
  then show "fst (insertkey m k v) = mget m k" "mget (snd (insertkey m k v)) = (mget m)(k \<mapsto> v)"
    "intmap_ok (snd (insertkey m k v))" by simp_all
qed

subsection \<open>The interface\<close>

text \<open>
  What the pools of the 9P server use of a table: the map it denotes under \<open>get\<close>, and the
  effect of each operation on that map.  \<open>alloc_unique\<close> and its companions are the pool
  lemmas: a number can be allocated exactly when it is free, a failed allocation changes
  nothing, a removed number is free again, and no operation touches another number.
\<close>

locale int_map =
  fixes empty :: "'m"
    and get :: "'m \<Rightarrow> u32int \<Rightarrow> 'v option"
    and insertk :: "'m \<Rightarrow> u32int \<Rightarrow> 'v \<Rightarrow> 'v option \<times> 'm"
    and caninsertk :: "'m \<Rightarrow> u32int \<Rightarrow> 'v \<Rightarrow> bool \<times> 'm"
    and deletek :: "'m \<Rightarrow> u32int \<Rightarrow> 'v option \<times> 'm"
    and ok :: "'m \<Rightarrow> bool"
  assumes empty: "get empty = Map.empty" "ok empty"
    and insertk: "ok m \<Longrightarrow> fst (insertk m k v) = get m k"
      "ok m \<Longrightarrow> get (snd (insertk m k v)) = (get m)(k \<mapsto> v)" "ok m \<Longrightarrow> ok (snd (insertk m k v))"
    and caninsertk: "ok m \<Longrightarrow> fst (caninsertk m k v) \<longleftrightarrow> get m k = None"
      "ok m \<Longrightarrow> get (snd (caninsertk m k v)) =
        (if get m k = None then (get m)(k \<mapsto> v) else get m)"
      "ok m \<Longrightarrow> ok (snd (caninsertk m k v))"
    and deletek: "ok m \<Longrightarrow> fst (deletek m k) = get m k"
      "ok m \<Longrightarrow> get (snd (deletek m k)) = (get m)(k := None)" "ok m \<Longrightarrow> ok (snd (deletek m k))"
begin

lemma alloc_unique:
  assumes "ok m" "fst (caninsertk m k v)"
  shows "get m k = None" "get (snd (caninsertk m k v)) k = Some v"
    "fst (caninsertk (snd (caninsertk m k v)) k w) = False"
  using assms caninsertk [of m k v] caninsertk(1) [of "snd (caninsertk m k v)" k w] by auto

lemma alloc_fail: "ok m \<Longrightarrow> \<not> fst (caninsertk m k v) \<Longrightarrow> get (snd (caninsertk m k v)) = get m"
  using caninsertk(1,2) [of m k v] by auto

lemma alloc_after_delete: "ok m \<Longrightarrow> fst (caninsertk (snd (deletek m k)) k v)"
  using caninsertk(1) [of "snd (deletek m k)" k v] deletek [of m k] by simp

lemma ran_delete: "ok m \<Longrightarrow> ran (get (snd (deletek m k))) \<subseteq> ran (get m)"
  by (auto simp: deletek ran_def split: if_splits)

lemma ran_caninsert: "ok m \<Longrightarrow> ran (get (snd (caninsertk m k v))) \<subseteq> insert v (ran (get m))"
  by (auto simp: caninsertk ran_def split: if_splits)

end

interpretation im: int_map allocmap mget insertkey caninsertkey deletekey intmap_ok
  by unfold_locales
    (simp_all add: mget_allocmap intmap_ok_allocmap insertkey_spec caninsertkey_spec deletekey_spec)

subsection \<open>Properties\<close>

text \<open>
  C28. The hash table behaves as a finite map: under its invariant (every key in its own bucket,
  at most once), which every operation keeps, \<open>insertkey\<close> overwrites and returns the old value,
  \<open>caninsertkey\<close> inserts exactly when the key is free, \<open>deletekey\<close> removes and returns, and
  \<open>lookupkey\<close> finds the value and applies \<open>inc\<close> to it alone.
\<close>

theorem intmap_refines:
  assumes "intmap_ok m"
  shows "fst (insertkey m k v) = mget m k \<and> mget (snd (insertkey m k v)) = (mget m)(k \<mapsto> v) \<and>
    fst (caninsertkey m k v) = (mget m k = None) \<and>
    mget (snd (caninsertkey m k v)) = (if mget m k = None then (mget m)(k \<mapsto> v) else mget m) \<and>
    fst (deletekey m k) = mget m k \<and> mget (snd (deletekey m k)) = (mget m)(k := None) \<and>
    lookupkey inc m k s = (mget m k, case mget m k of None \<Rightarrow> s | Some w \<Rightarrow> inc w s) \<and>
    intmap_ok (snd (insertkey m k v)) \<and> intmap_ok (snd (caninsertkey m k v)) \<and>
    intmap_ok (snd (deletekey m k))"
  using im.insertk [OF assms] im.caninsertk [OF assms] im.deletek [OF assms] lookupkey_spec [of inc m k s]
  by simp

theorem intmap_refines_witness:
  "mget (snd (deletekey (snd (insertkey allocmap 5 (9 :: nat))) 5)) = (mget (snd (insertkey allocmap 5 9)))(5 := None)"
proof -
  have "intmap_ok (snd (insertkey allocmap 5 (9 :: nat)))" by (simp add: insertkey_spec intmap_ok_allocmap)
  from intmap_refines [OF this, of 5 0 "\<lambda>_. id" "()"] show ?thesis by blast
qed

text \<open>
  A number is given out once: after a successful \<open>caninsertkey\<close> the same number is refused
  until it has been deleted, and after \<open>deletekey\<close> it can be inserted again.
\<close>

theorem intmap_alloc:
  assumes "intmap_ok m" "fst (caninsertkey m k v)"
  shows "\<not> fst (caninsertkey (snd (caninsertkey m k v)) k w) \<and>
    fst (caninsertkey (snd (deletekey (snd (caninsertkey m k v)) k)) k w)"
  using im.alloc_unique [OF assms] im.alloc_after_delete [OF im.caninsertk(3) [OF assms(1)]] by simp

theorem intmap_alloc_witness:
  "\<not> fst (caninsertkey (snd (caninsertkey allocmap 130 True)) 130 False) \<and>
   fst (caninsertkey (snd (deletekey (snd (caninsertkey allocmap 130 True)) 130)) 130 False)"
proof -
  have "fst (caninsertkey allocmap 130 True)"
    using caninsertkey_spec [OF intmap_ok_allocmap] by (simp add: mget_allocmap)
  from intmap_alloc [OF intmap_ok_allocmap this] show ?thesis .
qed

end
