(* ===== verification/Qlock.thy ===== *)
theory Qlock
  imports Main
begin

text \<open>
  The kernel's sleeping locks, \<^verbatim>\<open>9/port/qlock.c\<close>: queueing mutexes (\<open>QLock\<close>) and reader-writer
  locks (\<open>RWlock\<close>).  Waiters form a list threaded through \<^verbatim>\<open>qnext\<close> of the process structures,
  so the processes are a heap \<open>procs\<close> and the queue a head and a tail pointer.  The spin lock
  \<^verbatim>\<open>use\<close> makes each operation one atomic step; an operation that ends in \<^verbatim>\<open>sched()\<close> returns
  that the caller sleeps, and \<^verbatim>\<open>ready(p)\<close> is the return of \<^verbatim>\<open>p\<close>'s own call.  \<^verbatim>\<open>up\<close> is never nil
  here, and the statistics and diagnostics (\<^verbatim>\<open>rwstats\<close>, \<^verbatim>\<open>print\<close>, \<^verbatim>\<open>qpc\<close>, \<^verbatim>\<open>wpc\<close>, \<^verbatim>\<open>wproc\<close>) are
  left out.
\<close>

subsection \<open>The code\<close>

datatype pstate = Ready | Running | Queueing | QueueingR | QueueingW

type_synonym pid = nat

record kproc =
  p_state :: pstate
  p_qnext :: "pid option"

type_synonym procs = "pid \<Rightarrow> kproc"

record wqueue =
  q_head :: "pid option"
  q_tail :: "pid option"

record QLock = wqueue +
  q_locked :: bool

record RWlock = wqueue +
  rw_readers :: int
  rw_writer :: bool

text \<open>The enqueueing and dequeueing code that every operation repeats.\<close>

definition qenq :: "pstate \<Rightarrow> pid \<Rightarrow> procs \<times> 'a wqueue_scheme \<Rightarrow> procs \<times> 'a wqueue_scheme" where
  "qenq st up = (\<lambda>(ps, q).
     let (ps, q) = (case q_tail q of
           None \<Rightarrow> (ps, q\<lparr>q_head := Some up\<rparr>)
         | Some p \<Rightarrow> (ps(p := (ps p)\<lparr>p_qnext := Some up\<rparr>), q));
         q = q\<lparr>q_tail := Some up\<rparr>;
         ps = ps(up := (ps up)\<lparr>p_qnext := None, p_state := st\<rparr>)
     in (ps, q))"

definition qdeq :: "procs \<times> 'a wqueue_scheme \<Rightarrow> procs \<times> 'a wqueue_scheme" where
  "qdeq = (\<lambda>(ps, q). case q_head q of
       None \<Rightarrow> (ps, q)
     | Some p \<Rightarrow>
         let q = q\<lparr>q_head := p_qnext (ps p)\<rparr>;
             q = (if q_head q = None then q\<lparr>q_tail := None\<rparr> else q)
         in (ps, q))"

definition ready :: "pid \<Rightarrow> procs \<Rightarrow> procs" where
  "ready p ps = ps(p := (ps p)\<lparr>p_state := Ready\<rparr>)"

text \<open>\<open>qlock\<close> says whether the caller sleeps.\<close>

definition qlock :: "pid \<Rightarrow> procs \<Rightarrow> QLock \<Rightarrow> bool \<times> procs \<times> QLock" where
  "qlock up ps q =
     (if \<not> q_locked q then (False, ps, q\<lparr>q_locked := True\<rparr>)
      else (let (ps, q) = qenq Queueing up (ps, q) in (True, ps, q)))"

text \<open>\<open>canqlock\<close>: \<open>spin\<close> is the outcome of \<^verbatim>\<open>canlock(&q->use)\<close>.\<close>

definition canqlock :: "bool \<Rightarrow> QLock \<Rightarrow> bool \<times> QLock" where
  "canqlock spin q =
     (if \<not> spin then (False, q)
      else if q_locked q then (False, q)
      else (True, q\<lparr>q_locked := True\<rparr>))"

text \<open>\<open>qunlock\<close> also returns the process it has made ready.\<close>

definition qunlock :: "procs \<Rightarrow> QLock \<Rightarrow> pid option \<times> procs \<times> QLock" where
  "qunlock ps q =
     (case q_head q of
        Some p \<Rightarrow> (let (ps, q) = qdeq (ps, q) in (Some p, ready p ps, q))
      | None \<Rightarrow> (None, ps, q\<lparr>q_locked := False\<rparr>))"

definition rlock :: "pid \<Rightarrow> procs \<Rightarrow> RWlock \<Rightarrow> bool \<times> procs \<times> RWlock" where
  "rlock up ps q =
     (if \<not> rw_writer q \<and> q_head q = None then (False, ps, q\<lparr>rw_readers := rw_readers q + 1\<rparr>)
      else (let (ps, q) = qenq QueueingR up (ps, q) in (True, ps, q)))"

text \<open>\<open>None\<close> is the panic of \<^verbatim>\<open>runlock\<close> and \<^verbatim>\<open>wunlock\<close>.\<close>

definition runlock :: "procs \<Rightarrow> RWlock \<Rightarrow> (pid list \<times> procs \<times> RWlock) option" where
  "runlock ps q =
     (let p = q_head q; q = q\<lparr>rw_readers := rw_readers q - 1\<rparr> in
      if rw_readers q > 0 \<or> p = None then Some ([], ps, q)
      else (let p = the p in
        if p_state (ps p) \<noteq> QueueingW then None
        else (let (ps, q) = qdeq (ps, q) in Some ([p], ready p ps, q\<lparr>rw_writer := True\<rparr>))))"

definition wlock :: "pid \<Rightarrow> procs \<Rightarrow> RWlock \<Rightarrow> bool \<times> procs \<times> RWlock" where
  "wlock up ps q =
     (if rw_readers q = 0 \<and> \<not> rw_writer q then (False, ps, q\<lparr>rw_writer := True\<rparr>)
      else (let (ps, q) = qenq QueueingW up (ps, q) in (True, ps, q)))"

text \<open>The loop of \<^verbatim>\<open>wunlock\<close> that wakes the readers at the front of the queue.\<close>

partial_function (option) wake_readers ::
  "pid list \<Rightarrow> procs \<Rightarrow> RWlock \<Rightarrow> (pid list \<times> procs \<times> RWlock) option" where
  "wake_readers woken ps q =
     (case q_head q of
        None \<Rightarrow> Some (woken, ps, q)
      | Some p \<Rightarrow>
          if p_state (ps p) = QueueingR
          then wake_readers (woken @ [p]) (ready p ps)
            (q\<lparr>q_head := p_qnext (ps p), rw_readers := rw_readers q + 1\<rparr>)
          else Some (woken, ps, q))"

definition wunlock :: "procs \<Rightarrow> RWlock \<Rightarrow> (pid list \<times> procs \<times> RWlock) option" where
  "wunlock ps q =
     (case q_head q of
        None \<Rightarrow> Some ([], ps, q\<lparr>rw_writer := False\<rparr>)
      | Some p \<Rightarrow>
          if p_state (ps p) = QueueingW then
            (let (ps, q) = qdeq (ps, q) in Some ([p], ready p ps, q))
          else if p_state (ps p) \<noteq> QueueingR then None
          else map_option (\<lambda>(woken, ps, q).
            let q = (if q_head q = None then q\<lparr>q_tail := None\<rparr> else q)
            in (woken, ps, q\<lparr>rw_writer := False\<rparr>)) (wake_readers [] ps q))"

definition canrlock :: "RWlock \<Rightarrow> bool \<times> RWlock" where
  "canrlock q =
     (if \<not> rw_writer q \<and> q_head q = None then (True, q\<lparr>rw_readers := rw_readers q + 1\<rparr>)
      else (False, q))"

subsection \<open>The threaded queue denotes a list\<close>

fun threaded :: "procs \<Rightarrow> pid option \<Rightarrow> pid list \<Rightarrow> bool" where
  "threaded ps p [] \<longleftrightarrow> p = None"
| "threaded ps p (w # ws) \<longleftrightarrow> p = Some w \<and> threaded ps (p_qnext (ps w)) ws"

definition waiters :: "procs \<times> 'a wqueue_scheme \<Rightarrow> pid list \<Rightarrow> bool" where
  "waiters s ws \<longleftrightarrow> threaded (fst s) (q_head (snd s)) ws \<and> distinct ws \<and>
     q_tail (snd s) = (if ws = [] then None else Some (last ws))"

lemma threaded_cong:
  "(\<And>w. w \<in> set ws \<Longrightarrow> p_qnext (ps w) = p_qnext (ps' w)) \<Longrightarrow> threaded ps p ws = threaded ps' p ws"
  by (induction ws arbitrary: p) auto

lemma threaded_snoc:
  "threaded ps p ws \<Longrightarrow> distinct ws \<Longrightarrow> ws \<noteq> [] \<Longrightarrow> up \<notin> set ws \<Longrightarrow> p_qnext (ps' up) = None \<Longrightarrow>
   p_qnext (ps' (last ws)) = Some up \<Longrightarrow>
   (\<And>w. w \<in> set ws \<Longrightarrow> w \<noteq> last ws \<Longrightarrow> p_qnext (ps' w) = p_qnext (ps w)) \<Longrightarrow>
   threaded ps' p (ws @ [up])"
proof (induction ws arbitrary: p)
  case (Cons w ws)
  show ?case
  proof (cases "ws = []")
    case False
    with Cons.prems have "w \<noteq> last ws" using last_in_set [of ws] by auto
    with Cons.prems(7) [of w] False have "p_qnext (ps' w) = p_qnext (ps w)" by simp
    with Cons False show ?thesis by auto
  qed (use Cons.prems in auto)
qed simp

text \<open>The contract of the wait queue: what the locks need of it.\<close>

locale wait_queue =
  fixes rel :: "'s \<Rightarrow> pid list \<Rightarrow> bool"
    and hd_of :: "'s \<Rightarrow> pid option"
    and enq :: "pid \<Rightarrow> 's \<Rightarrow> 's"
    and deq :: "'s \<Rightarrow> 's"
  assumes hd_of: "rel s ws \<Longrightarrow> hd_of s = (case ws of [] \<Rightarrow> None | w # _ \<Rightarrow> Some w)"
    and enq: "rel s ws \<Longrightarrow> up \<notin> set ws \<Longrightarrow> rel (enq up s) (ws @ [up])"
    and deq: "rel s (w # ws) \<Longrightarrow> rel (deq s) ws"
    and distinct: "rel s ws \<Longrightarrow> distinct ws"
begin

lemma hd_of_Cons: "rel s (w # ws) \<Longrightarrow> hd_of s = Some w"
  using hd_of by fastforce

lemma hd_of_None: "rel s ws \<Longrightarrow> hd_of s = None \<longleftrightarrow> ws = []"
  using hd_of by (fastforce split: list.splits)

lemma rel_unique: "rel s ws \<Longrightarrow> rel s vs \<Longrightarrow> ws = vs"
proof (induction ws arbitrary: s vs)
  case Nil
  then show ?case using hd_of_None by blast
next
  case (Cons w ws)
  then obtain vs' where vs: "vs = w # vs'"
    using hd_of [OF Cons.prems(1)] hd_of [OF Cons.prems(2)] by (cases vs) auto
  with Cons.prems have "rel (deq s) ws" "rel (deq s) vs'" by (auto intro: deq)
  with Cons.IH vs show ?case by blast
qed

lemma deq_times: "rel s ws \<Longrightarrow> n \<le> length ws \<Longrightarrow> rel ((deq ^^ n) s) (drop n ws)"
proof (induction n)
  case (Suc n)
  then have "rel ((deq ^^ n) s) (drop n ws)" "n < length ws" by simp_all
  then have "rel ((deq ^^ n) s) (ws ! n # drop (Suc n) ws)" by (simp add: Cons_nth_drop_Suc)
  then show ?case by (simp add: deq)
qed simp

text \<open>First come, first served: a new waiter is reached after those before it, and only then.\<close>

lemma fifo: "rel s ws \<Longrightarrow> up \<notin> set ws \<Longrightarrow> hd_of ((deq ^^ length ws) (enq up s)) = Some up"
  using deq_times [OF enq, of s ws up "length ws"] hd_of_Cons by fastforce

end

lemma waiters_hd: "waiters s ws \<Longrightarrow> q_head (snd s) = (case ws of [] \<Rightarrow> None | w # _ \<Rightarrow> Some w)"
  by (cases ws) (auto simp: waiters_def)

lemma waiters_enq:
  assumes "waiters s ws" "up \<notin> set ws"
  shows "waiters (qenq st up s) (ws @ [up])"
proof -
  obtain ps q where s: "s = (ps, q)" by (cases s)
  show ?thesis
  proof (cases "ws = []")
    case True
    with assms s show ?thesis by (simp add: waiters_def qenq_def)
  next
    case False
    with assms s have "q_tail q = Some (last ws)" by (simp add: waiters_def)
    moreover have "last ws \<noteq> up" using False assms(2) last_in_set by metis
    ultimately show ?thesis
      using assms s False by (auto simp: waiters_def qenq_def intro!: threaded_snoc)
  qed
qed

lemma waiters_deq:
  assumes "waiters s (w # ws)"
  shows "waiters (qdeq s) ws"
  using assms by (cases s; cases ws) (auto simp: waiters_def qdeq_def)

interpretation wq: wait_queue waiters "\<lambda>s. q_head (snd s)" "qenq st" qdeq for st
  by unfold_locales (erule waiters_hd, erule (1) waiters_enq, erule waiters_deq, simp add: waiters_def)

subsection \<open>Mutual exclusion\<close>

text \<open>
  A mutex with any number of processes: \<open>qs_holds\<close> are those whose \<open>qlock\<close> or \<open>canqlock\<close> has
  returned with the lock and that have not released it.  A process that sleeps in \<open>qlock\<close> takes
  no step; it holds the lock from the \<open>ready\<close> that wakes it.
\<close>

record qsys =
  qs_procs :: procs
  qs_lock :: QLock
  qs_holds :: "pid set"

definition sleeping :: "procs \<Rightarrow> pid \<Rightarrow> bool" where
  "sleeping ps p \<longleftrightarrow> p_state (ps p) \<in> {Queueing, QueueingR, QueueingW}"

inductive qstep :: "qsys \<Rightarrow> qsys \<Rightarrow> bool" where
  lock: "\<not> sleeping (qs_procs s) up \<Longrightarrow> up \<notin> qs_holds s \<Longrightarrow>
    qlock up (qs_procs s) (qs_lock s) = (sleeps, ps, q) \<Longrightarrow>
    qstep s \<lparr>qs_procs = ps, qs_lock = q,
      qs_holds = (if sleeps then qs_holds s else insert up (qs_holds s))\<rparr>"
| canlock: "\<not> sleeping (qs_procs s) up \<Longrightarrow> up \<notin> qs_holds s \<Longrightarrow>
    canqlock spin (qs_lock s) = (got, q) \<Longrightarrow>
    qstep s \<lparr>qs_procs = qs_procs s, qs_lock = q,
      qs_holds = (if got then insert up (qs_holds s) else qs_holds s)\<rparr>"
| unlock: "up \<in> qs_holds s \<Longrightarrow> qunlock (qs_procs s) (qs_lock s) = (woken, ps, q) \<Longrightarrow>
    qstep s \<lparr>qs_procs = ps, qs_lock = q, qs_holds = (qs_holds s - {up}) \<union> set_option woken\<rparr>"

inductive qreach :: "qsys \<Rightarrow> bool" where
  init: "(\<And>p. \<not> sleeping ps p) \<Longrightarrow>
    qreach \<lparr>qs_procs = ps, qs_lock = \<lparr>q_head = None, q_tail = None, q_locked = False\<rparr>, qs_holds = {}\<rparr>"
| step: "qreach s \<Longrightarrow> qstep s t \<Longrightarrow> qreach t"

text \<open>
  The invariant: the queue denotes a list of exactly the sleeping processes, the lock bit says
  whether there is a holder, there is at most one, and nobody waits for a free lock.
\<close>

definition qinv :: "qsys \<Rightarrow> bool" where
  "qinv s \<longleftrightarrow> (\<exists>ws. waiters (qs_procs s, qs_lock s) ws \<and>
     set ws = {p. sleeping (qs_procs s) p} \<and> set ws \<inter> qs_holds s = {} \<and>
     (if q_locked (qs_lock s) then \<exists>h. qs_holds s = {h} else qs_holds s = {} \<and> ws = []))"

lemma sleeping_enq:
  "st \<in> {Queueing, QueueingR, QueueingW} \<Longrightarrow>
   {p. sleeping (fst (qenq st up (ps, q))) p} = insert up {p. sleeping ps p}"
  by (auto simp: sleeping_def qenq_def split: option.splits)

lemma sleeping_ready: "{p. sleeping (ready w ps) p} = {p. sleeping ps p} - {w}"
  by (auto simp: sleeping_def ready_def)

lemma qdeq_pair: "qdeq (ps, q) = (ps, snd (qdeq (ps, q)))"
  by (auto simp: qdeq_def Let_def split: option.splits)

lemma case_qdeq [simp]: "(case qdeq (ps, q) of (a, b) \<Rightarrow> f a b) = f ps (snd (qdeq (ps, q)))"
  by (subst qdeq_pair) simp

lemma wqueue_extra [simp]:
  "q_locked (snd (qenq st up (ps, lk))) = q_locked lk" "q_locked (snd (qdeq (ps, lk))) = q_locked lk"
  "rw_readers (snd (qenq st up (ps, rw))) = rw_readers rw" "rw_readers (snd (qdeq (ps, rw))) = rw_readers rw"
  "rw_writer (snd (qenq st up (ps, rw))) = rw_writer rw" "rw_writer (snd (qdeq (ps, rw))) = rw_writer rw"
  by (auto simp: qenq_def qdeq_def Let_def split: option.splits)

lemma qunlock_wake: "q_head q = Some w \<Longrightarrow> qunlock ps q = (Some w, ready w ps, snd (qdeq (ps, q)))"
  by (auto simp: qunlock_def qdeq_def Let_def)

text \<open>The queue does not look at the lock's own fields or at process states.\<close>

lemma waiters_update [simp]:
  "waiters (ps, lk\<lparr>q_locked := b\<rparr>) ws = waiters (ps, lk) ws"
  "waiters (ps, rw\<lparr>rw_readers := i\<rparr>) ws = waiters (ps, rw) ws"
  "waiters (ps, rw\<lparr>rw_writer := b\<rparr>) ws = waiters (ps, rw) ws"
  by (simp_all add: waiters_def)

lemma waiters_ready [simp]: "waiters (ready w ps, q) ws = waiters (ps, q) ws"
proof -
  have "threaded (ready w ps) p ws = threaded ps p ws" for p
    by (rule threaded_cong) (simp add: ready_def)
  then show ?thesis by (simp add: waiters_def)
qed

lemma qstep_inv:
  assumes "qstep s t" "qinv s"
  shows "qinv t"
proof -
  obtain ws where ws: "waiters (qs_procs s, qs_lock s) ws" "set ws = {p. sleeping (qs_procs s) p}"
      "set ws \<inter> qs_holds s = {}"
      "if q_locked (qs_lock s) then \<exists>h. qs_holds s = {h} else qs_holds s = {} \<and> ws = []"
    using assms(2) by (auto simp: qinv_def)
  from assms(1) show ?thesis
  proof cases
    case (lock up sleeps ps q)
    show ?thesis
    proof (cases "q_locked (qs_lock s)")
      case False
      then show ?thesis using lock ws by (auto simp: qinv_def qlock_def)
    next
      case True
      let ?s = "qenq Queueing up (qs_procs s, qs_lock s)"
      have t: "sleeps" "ps = fst ?s" "q = snd ?s"
        using lock(4) True by (auto simp: qlock_def split: prod.splits)
      have "up \<notin> set ws" using lock(2) ws(2) by simp
      then have "waiters (ps, q) (ws @ [up])"
        using waiters_enq [OF ws(1)] t by simp
      moreover have "{p. sleeping ps p} = insert up (set ws)"
        using ws(2) t sleeping_enq [of Queueing up "qs_procs s" "qs_lock s"] by simp
      ultimately show ?thesis
        using lock(1,3) t ws True by (auto simp: qinv_def intro!: exI [of _ "ws @ [up]"])
    qed
  next
    case (canlock up spin got q)
    then show ?thesis
      using ws by (auto simp: qinv_def canqlock_def split: if_splits)
  next
    case (unlock up woken ps q)
    then have locked: "q_locked (qs_lock s)" and holds: "qs_holds s = {up}"
      using ws(4) by (auto split: if_splits)
    show ?thesis
    proof (cases ws)
      case Nil
      then have "q_head (qs_lock s) = None" using waiters_hd [OF ws(1)] by simp
      then show ?thesis using unlock ws Nil holds by (auto simp: qinv_def qunlock_def)
    next
      case (Cons w ws')
      then have w: "q_head (qs_lock s) = Some w" using waiters_hd [OF ws(1)] by simp
      have t: "woken = Some w" "ps = ready w (qs_procs s)" "q = snd (qdeq (qs_procs s, qs_lock s))"
        using unlock(3) qunlock_wake [OF w] by auto
      have "waiters (ps, q) ws'"
        using t waiters_deq ws(1) Cons qdeq_pair [of "qs_procs s" "qs_lock s"] by (metis waiters_ready)
      moreover have "w \<notin> set ws'" using ws(1) Cons by (auto simp: waiters_def)
      moreover have "{p. sleeping ps p} = set ws'"
        using t ws(2) Cons \<open>w \<notin> set ws'\<close> by (simp add: sleeping_ready) (metis Diff_insert_absorb list.simps(15))
      ultimately show ?thesis
        using unlock(1) holds t locked ws(3) Cons by (auto simp: qinv_def)
    qed
  qed
qed

lemma qreach_inv: "qreach s \<Longrightarrow> qinv s"
proof (induction rule: qreach.induct)
  case (init ps)
  then show ?case by (auto simp: qinv_def waiters_def intro!: exI [of _ "[]"])
qed (rule qstep_inv)

text \<open>Waiters get the lock in the order in which they queued: the \<open>n\<close>-th release wakes the \<open>n\<close>-th.\<close>

lemma qunlock_waiters:
  "waiters (ps, q) ws \<Longrightarrow> n \<le> length ws \<Longrightarrow>
   \<exists>ps' q'. ((\<lambda>(ps, q). snd (qunlock ps q)) ^^ n) (ps, q) = (ps', q') \<and> waiters (ps', q') (drop n ws)"
proof (induction n)
  case (Suc n)
  then obtain ps' q' where n: "((\<lambda>(ps, q). snd (qunlock ps q)) ^^ n) (ps, q) = (ps', q')"
      "waiters (ps', q') (drop n ws)"
    by auto
  from Suc have d: "drop n ws = ws ! n # drop (Suc n) ws" by (simp add: Cons_nth_drop_Suc)
  then have w: "q_head q' = Some (ws ! n)" using waiters_hd [OF n(2)] by simp
  have "waiters (ready (ws ! n) ps', snd (qdeq (ps', q'))) (drop (Suc n) ws)"
    using waiters_deq n(2) d qdeq_pair [of ps' q'] by (metis waiters_ready)
  then show ?case using n(1) w by (simp add: qunlock_wake)
qed simp

lemma qunlock_nth:
  assumes "waiters (ps, q) ws" "n < length ws"
  shows "\<exists>ps' q'. ((\<lambda>(ps, q). snd (qunlock ps q)) ^^ n) (ps, q) = (ps', q') \<and>
     fst (qunlock ps' q') = Some (ws ! n)"
proof -
  obtain ps' q' where n: "((\<lambda>(ps, q). snd (qunlock ps q)) ^^ n) (ps, q) = (ps', q')"
      "waiters (ps', q') (drop n ws)"
    using qunlock_waiters [OF assms(1), of n] assms(2) by fastforce
  moreover have "drop n ws = ws ! n # drop (Suc n) ws" using assms(2) by (simp add: Cons_nth_drop_Suc)
  ultimately show ?thesis using waiters_hd [OF n(2)] by (simp add: qunlock_wake)
qed

subsection \<open>Readers and writers\<close>

text \<open>
  A reader-writer lock with any number of processes: \<open>rws_reading\<close> and \<open>rws_writing\<close> are those
  that hold it.  A woken process holds the lock in the mode in which it waited.
\<close>

record rwsys =
  rws_procs :: procs
  rws_lock :: RWlock
  rws_reading :: "pid set"
  rws_writing :: "pid set"

definition woken_as :: "pstate \<Rightarrow> procs \<Rightarrow> pid list \<Rightarrow> pid set" where
  "woken_as st ps ws = {p \<in> set ws. p_state (ps p) = st}"

inductive rwstep :: "rwsys \<Rightarrow> rwsys \<Rightarrow> bool" where
  rlock: "\<not> sleeping (rws_procs s) up \<Longrightarrow> up \<notin> rws_reading s \<union> rws_writing s \<Longrightarrow>
    rlock up (rws_procs s) (rws_lock s) = (sleeps, ps, q) \<Longrightarrow>
    rwstep s (s\<lparr>rws_procs := ps, rws_lock := q,
      rws_reading := (if sleeps then rws_reading s else insert up (rws_reading s))\<rparr>)"
| canrlock: "\<not> sleeping (rws_procs s) up \<Longrightarrow> up \<notin> rws_reading s \<union> rws_writing s \<Longrightarrow>
    canrlock (rws_lock s) = (got, q) \<Longrightarrow>
    rwstep s (s\<lparr>rws_lock := q,
      rws_reading := (if got then insert up (rws_reading s) else rws_reading s)\<rparr>)"
| wlock: "\<not> sleeping (rws_procs s) up \<Longrightarrow> up \<notin> rws_reading s \<union> rws_writing s \<Longrightarrow>
    wlock up (rws_procs s) (rws_lock s) = (sleeps, ps, q) \<Longrightarrow>
    rwstep s (s\<lparr>rws_procs := ps, rws_lock := q,
      rws_writing := (if sleeps then rws_writing s else insert up (rws_writing s))\<rparr>)"
| runlock: "up \<in> rws_reading s \<Longrightarrow> runlock (rws_procs s) (rws_lock s) = Some (woken, ps, q) \<Longrightarrow>
    rwstep s (s\<lparr>rws_procs := ps, rws_lock := q,
      rws_reading := (rws_reading s - {up}) \<union> woken_as QueueingR (rws_procs s) woken,
      rws_writing := rws_writing s \<union> woken_as QueueingW (rws_procs s) woken\<rparr>)"
| wunlock: "up \<in> rws_writing s \<Longrightarrow> wunlock (rws_procs s) (rws_lock s) = Some (woken, ps, q) \<Longrightarrow>
    rwstep s (s\<lparr>rws_procs := ps, rws_lock := q,
      rws_reading := rws_reading s \<union> woken_as QueueingR (rws_procs s) woken,
      rws_writing := (rws_writing s - {up}) \<union> woken_as QueueingW (rws_procs s) woken\<rparr>)"

inductive rwreach :: "rwsys \<Rightarrow> bool" where
  init: "(\<And>p. \<not> sleeping ps p) \<Longrightarrow>
    rwreach \<lparr>rws_procs = ps,
      rws_lock = \<lparr>q_head = None, q_tail = None, rw_readers = 0, rw_writer = False\<rparr>,
      rws_reading = {}, rws_writing = {}\<rparr>"
| step: "rwreach s \<Longrightarrow> rwstep s t \<Longrightarrow> rwreach t"

text \<open>
  The invariant over the denoted queue: the counters count the holders, a writer is alone, every
  waiter waits to read or to write, nobody waits for a free lock, and while readers hold the lock
  the first waiter is a writer (so that \<open>runlock\<close> may start it).
\<close>

definition rwinv_at :: "procs \<Rightarrow> RWlock \<Rightarrow> pid set \<Rightarrow> pid set \<Rightarrow> pid list \<Rightarrow> bool" where
  "rwinv_at ps q R W ws \<longleftrightarrow> waiters (ps, q) ws \<and> set ws = {p. sleeping ps p} \<and>
     set ws \<inter> (R \<union> W) = {} \<and> finite R \<and> rw_readers q = int (card R) \<and>
     (rw_writer q \<longleftrightarrow> W \<noteq> {}) \<and> (W = {} \<or> R = {} \<and> (\<exists>h. W = {h})) \<and>
     (\<forall>w \<in> set ws. p_state (ps w) \<in> {QueueingR, QueueingW}) \<and>
     (ws \<noteq> [] \<longrightarrow> R \<union> W \<noteq> {} \<and> (R \<noteq> {} \<longrightarrow> p_state (ps (hd ws)) = QueueingW))"

definition rwinv :: "rwsys \<Rightarrow> bool" where
  "rwinv s \<longleftrightarrow> (\<exists>ws. rwinv_at (rws_procs s) (rws_lock s) (rws_reading s) (rws_writing s) ws)"

lemma rlock_sleeps:
  "rw_writer q \<or> q_head q \<noteq> None \<Longrightarrow>
   rlock up ps q = (True, qenq QueueingR up (ps, q))"
  by (auto simp: rlock_def split: prod.splits)

lemma wlock_sleeps:
  "rw_readers q \<noteq> 0 \<or> rw_writer q \<Longrightarrow>
   wlock up ps q = (True, qenq QueueingW up (ps, q))"
  by (auto simp: wlock_def split: prod.splits)

lemma p_state_enq: "p_state (fst (qenq st up (ps, q)) w) = (if w = up then st else p_state (ps w))"
  by (auto simp: qenq_def split: option.splits)

lemma rwinv_enq:
  assumes "rwinv_at ps q R W ws" "\<not> sleeping ps up" "up \<notin> R \<union> W" "st \<in> {QueueingR, QueueingW}"
    "R \<union> W \<noteq> {}" "ws = [] \<Longrightarrow> R \<noteq> {} \<Longrightarrow> st = QueueingW"
  shows "rwinv_at (fst (qenq st up (ps, q))) (snd (qenq st up (ps, q))) R W (ws @ [up])"
proof -
  let ?s = "qenq st up (ps, q)"
  have ws: "waiters (ps, q) ws" "set ws = {p. sleeping ps p}" and up: "up \<notin> set ws"
    using assms(1,2) by (auto simp: rwinv_at_def)
  have "waiters (fst ?s, snd ?s) (ws @ [up])" using waiters_enq [OF ws(1) up] by simp
  moreover have "{p. sleeping (fst ?s) p} = insert up (set ws)"
    using sleeping_enq [of st up ps q] assms(4) ws(2) by auto
  moreover have "p_state (fst ?s (hd (ws @ [up]))) = (if ws = [] then st else p_state (ps (hd ws)))"
    using up by (cases ws) (auto simp: p_state_enq)
  moreover have "\<forall>w \<in> set (ws @ [up]). p_state (fst ?s w) \<in> {QueueingR, QueueingW}"
    using assms(1,4) by (auto simp: p_state_enq rwinv_at_def)
  ultimately show ?thesis using assms by (simp add: rwinv_at_def) auto
qed

lemma wake_readers_rest:
  "threaded ps (q_head q) ws \<Longrightarrow> distinct ws \<Longrightarrow>
   (\<exists>ps' q'. wake_readers woken ps q =
       Some (woken @ takeWhile (\<lambda>w. p_state (ps w) = QueueingR) ws, ps', q') \<and>
     threaded ps' (q_head q') (dropWhile (\<lambda>w. p_state (ps w) = QueueingR) ws) \<and>
     (\<forall>w. p_state (ps' w) = (if w \<in> set (takeWhile (\<lambda>w. p_state (ps w) = QueueingR) ws)
       then Ready else p_state (ps w))) \<and>
     rw_readers q' = rw_readers q + int (length (takeWhile (\<lambda>w. p_state (ps w) = QueueingR) ws)) \<and>
     rw_writer q' = rw_writer q \<and> q_tail q' = q_tail q)"
proof (induction ws arbitrary: woken ps q)
  case Nil
  then show ?case by (auto simp: wake_readers.simps)
next
  case (Cons w ws)
  then have hd: "q_head q = Some w" by simp
  show ?case
  proof (cases "p_state (ps w) = QueueingR")
    case False
    with Cons.prems hd show ?thesis by (auto simp: wake_readers.simps)
  next
    case True
    let ?ps = "ready w ps" and ?q = "q\<lparr>q_head := p_qnext (ps w), rw_readers := rw_readers q + 1\<rparr>"
    have st: "\<And>v. v \<in> set ws \<Longrightarrow> (p_state (?ps v) = QueueingR) = (p_state (ps v) = QueueingR)"
      using Cons.prems(2) by (auto simp: ready_def)
    have tw: "takeWhile (\<lambda>v. p_state (?ps v) = QueueingR) ws = takeWhile (\<lambda>v. p_state (ps v) = QueueingR) ws"
      and dw: "dropWhile (\<lambda>v. p_state (?ps v) = QueueingR) ws = dropWhile (\<lambda>v. p_state (ps v) = QueueingR) ws"
      using st by (auto intro: takeWhile_cong dropWhile_cong)
    have "threaded ?ps (q_head ?q) ws"
      using Cons.prems threaded_cong [of ws ps ?ps] by (simp add: ready_def)
    from Cons.IH [OF this, of "woken @ [w]"] Cons.prems(2) True hd
    show ?thesis
      by (subst wake_readers.simps) (auto simp: tw dw, auto simp: ready_def)
  qed
qed

lemma waiters_dropWhile:
  "waiters (ps, q) ws \<Longrightarrow> threaded ps' (q_head q') (dropWhile P ws) \<Longrightarrow> q_tail q' = q_tail q \<Longrightarrow>
   waiters (ps', if q_head q' = None then q'\<lparr>q_tail := None\<rparr> else q') (dropWhile P ws)"
proof -
  assume a: "waiters (ps, q) ws" "threaded ps' (q_head q') (dropWhile P ws)" "q_tail q' = q_tail q"
  show ?thesis
  proof (cases "dropWhile P ws")
    case Nil
    have "q_head q' = None" using a(2) unfolding Nil by simp
    then show ?thesis unfolding Nil by (simp add: waiters_def)
  next
    case (Cons w rest)
    then have "last ws = last (w # rest)"
      by (metis last_appendR list.discI takeWhile_dropWhile_id)
    moreover have "ws \<noteq> []" using Cons by auto
    moreover have "distinct (w # rest)" using a(1) Cons distinct_dropWhile [of ws P] by (simp add: waiters_def)
    ultimately show ?thesis using a Cons by (simp add: waiters_def)
  qed
qed

text \<open>The three ways a release can go, over the denoted queue.\<close>

lemma runlock_keep:
  assumes "rwinv_at ps q R W ws" "up \<in> R" "ws = [] \<or> R \<noteq> {up}"
  shows "runlock ps q = Some ([], ps, q\<lparr>rw_readers := rw_readers q - 1\<rparr>)"
    "rwinv_at ps (q\<lparr>rw_readers := rw_readers q - 1\<rparr>) (R - {up}) W ws"
proof -
  have R: "finite R" "rw_readers q = int (card R)" using assms(1) by (auto simp: rwinv_at_def)
  have c: "int (card (R - {up})) = int (card R) - 1"
    using R(1) assms(2) by (metis card_Suc_Diff1 add_diff_cancel_right' of_nat_Suc add.commute)
  have "R \<noteq> {up} \<Longrightarrow> R - {up} \<noteq> {}" using assms(2) by blast
  then have "R \<noteq> {up} \<Longrightarrow> card (R - {up}) \<noteq> 0" using R(1) by (metis card_0_eq finite_Diff)
  then have "R \<noteq> {up} \<Longrightarrow> rw_readers q - 1 > 0" using c R(2) by linarith
  moreover have "ws = [] \<Longrightarrow> q_head q = None"
    using assms(1) waiters_hd [of "(ps, q)" ws] by (simp add: rwinv_at_def)
  ultimately have "rw_readers q - 1 > 0 \<or> q_head q = None" using assms(3) by fastforce
  then show "runlock ps q = Some ([], ps, q\<lparr>rw_readers := rw_readers q - 1\<rparr>)"
    by (auto simp: runlock_def Let_def)
  show "rwinv_at ps (q\<lparr>rw_readers := rw_readers q - 1\<rparr>) (R - {up}) W ws"
    using assms R c by (auto simp: rwinv_at_def)
qed

lemma rwinv_Cons:
  assumes "rwinv_at ps q R W (w # ws)"
  shows "q_head q = Some w" "waiters (ps, snd (qdeq (ps, q))) ws" "w \<notin> set ws"
    "{p. sleeping (ready w ps) p} = set ws"
    "\<And>v. v \<in> set ws \<Longrightarrow> p_state (ready w ps v) = p_state (ps v)"
    "w \<notin> R" "w \<notin> W" "set ws \<inter> (R \<union> W) = {}"
proof -
  have wts: "waiters (ps, q) (w # ws)" and sl: "set (w # ws) = {p. sleeping ps p}"
    and dj: "set (w # ws) \<inter> (R \<union> W) = {}"
    using assms unfolding rwinv_at_def by blast+
  show "q_head q = Some w" using waiters_hd [OF wts] by simp
  show "waiters (ps, snd (qdeq (ps, q))) ws" using waiters_deq [OF wts] qdeq_pair [of ps q] by simp
  show w: "w \<notin> set ws" using wts by (simp add: waiters_def)
  show "{p. sleeping (ready w ps) p} = set ws"
    unfolding sleeping_ready sl [symmetric] using w by simp
  show "p_state (ready w ps v) = p_state (ps v)" if "v \<in> set ws" for v
    using that w by (auto simp: ready_def)
  show "w \<notin> R" "w \<notin> W" "set ws \<inter> (R \<union> W) = {}" using dj by auto
qed

lemma runlock_wake:
  assumes "rwinv_at ps q {up} W (w # ws)"
  defines "q' \<equiv> snd (qdeq (ps, q\<lparr>rw_readers := rw_readers q - 1\<rparr>))\<lparr>rw_writer := True\<rparr>"
  shows "p_state (ps w) = QueueingW" "runlock ps q = Some ([w], ready w ps, q')"
    "rwinv_at (ready w ps) q' {} {w} ws"
proof -
  let ?q = "q\<lparr>rw_readers := rw_readers q - 1\<rparr>"
  note w = rwinv_Cons [OF assms(1)]
  show st: "p_state (ps w) = QueueingW" using assms(1) by (simp add: rwinv_at_def)
  have r: "rw_readers q = 1" using assms(1) by (simp add: rwinv_at_def)
  then show "runlock ps q = Some ([w], ready w ps, q')"
    using w(1) st by (simp add: runlock_def Let_def q'_def)
  have "waiters (ps, ?q) (w # ws)" using assms(1) by (simp add: rwinv_at_def)
  then have "waiters (ps, snd (qdeq (ps, ?q))) ws"
    using waiters_deq qdeq_pair [of ps ?q] by metis
  then show "rwinv_at (ready w ps) q' {} {w} ws"
    using assms(1) w r by (auto simp: rwinv_at_def q'_def)
qed

lemma wunlock_empty:
  assumes "rwinv_at ps q R W []" "up \<in> W"
  shows "wunlock ps q = Some ([], ps, q\<lparr>rw_writer := False\<rparr>)"
    "rwinv_at ps (q\<lparr>rw_writer := False\<rparr>) R (W - {up}) []"
proof -
  have "q_head q = None" using assms(1) waiters_hd [of "(ps, q)" "[]"] by (simp add: rwinv_at_def)
  then show "wunlock ps q = Some ([], ps, q\<lparr>rw_writer := False\<rparr>)" by (simp add: wunlock_def)
  show "rwinv_at ps (q\<lparr>rw_writer := False\<rparr>) R (W - {up}) []"
    using assms by (auto simp: rwinv_at_def)
qed

lemma wunlock_hand:
  assumes "rwinv_at ps q R W (w # ws)" "up \<in> W" "p_state (ps w) = QueueingW"
  shows "wunlock ps q = Some ([w], ready w ps, snd (qdeq (ps, q)))"
    "rwinv_at (ready w ps) (snd (qdeq (ps, q))) R (insert w (W - {up})) ws"
proof -
  note w = rwinv_Cons [OF assms(1)]
  show "wunlock ps q = Some ([w], ready w ps, snd (qdeq (ps, q)))"
    using w(1) assms(3) by (simp add: wunlock_def)
  have "R = {}" "W = {up}" using assms(1,2) unfolding rwinv_at_def by auto
  then show "rwinv_at (ready w ps) (snd (qdeq (ps, q))) R (insert w (W - {up})) ws"
    using assms(1) w by (auto simp: rwinv_at_def)
qed

lemma wunlock_readers:
  assumes "rwinv_at ps q R W (w # ws)" "up \<in> W" "p_state (ps w) \<noteq> QueueingW"
  defines "rs \<equiv> takeWhile (\<lambda>w. p_state (ps w) = QueueingR) (w # ws)"
    and "rest \<equiv> dropWhile (\<lambda>w. p_state (ps w) = QueueingR) (w # ws)"
  shows "\<exists>ps' q'. wunlock ps q = Some (rs, ps', q') \<and> rwinv_at ps' q' (R \<union> set rs) (W - {up}) rest"
proof -
  let ?P = "\<lambda>w. p_state (ps w) = QueueingR"
  have RW: "R = {}" "W = {up}" "rw_readers q = 0" using assms(1,2) unfolding rwinv_at_def by auto
  have wts: "waiters (ps, q) (w # ws)" and sl: "set (w # ws) = {p. sleeping ps p}"
    and dist: "distinct (w # ws)" and st: "\<forall>v \<in> set (w # ws). p_state (ps v) \<in> {QueueingR, QueueingW}"
    using assms(1) unfolding rwinv_at_def waiters_def by blast+
  have "threaded ps (q_head q) (w # ws)" using wts by (simp add: waiters_def)
  then obtain ps' q' where wk: "wake_readers [] ps q = Some (rs, ps', q')"
      "threaded ps' (q_head q') rest"
      "\<And>v. p_state (ps' v) = (if v \<in> set rs then Ready else p_state (ps v))"
      "rw_readers q' = int (length rs)" "q_tail q' = q_tail q"
    using wake_readers_rest [of ps q "w # ws" "[]"] dist RW(3)
    unfolding rs_def [symmetric] rest_def [symmetric] by auto
  let ?q = "(if q_head q' = None then q'\<lparr>q_tail := None\<rparr> else q')\<lparr>rw_writer := False\<rparr>"
  have parts: "rs @ rest = w # ws" by (simp only: rs_def rest_def takeWhile_dropWhile_id)
  have d: "distinct rs" "set rs \<inter> set rest = {}" "set rs \<union> set rest = set (w # ws)"
    using dist parts [symmetric] by auto
  have "rs \<noteq> []" using assms(3) st by (simp add: rs_def)
  have un: "wunlock ps q = Some (rs, ps', ?q)"
    using wk(1) assms(3) st rwinv_Cons(1) [OF assms(1)] by (auto simp: wunlock_def Let_def)
  have "waiters (ps', ?q) rest"
    using waiters_dropWhile [OF wts wk(2) [unfolded rest_def] wk(5)] by (simp add: rest_def)
  moreover have "{p. sleeping ps' p} = set rest"
    using d(2,3) sl by (auto simp: sleeping_def wk(3))
  moreover have "up \<notin> set (w # ws)" using assms(1,2) unfolding rwinv_at_def by blast
  moreover have "rest \<noteq> [] \<Longrightarrow> p_state (ps (hd rest)) = QueueingW"
    using hd_dropWhile [of ?P "w # ws"] st d(3) hd_in_set [of rest] unfolding rest_def [symmetric] by auto
  moreover have "rest \<noteq> [] \<Longrightarrow> hd rest \<notin> set rs" using d(2) hd_in_set [of rest] by blast
  moreover have "\<forall>v \<in> set rest. p_state (ps' v) \<in> {QueueingR, QueueingW}"
    using st d(2,3) by (auto simp: wk(3))
  ultimately have "rwinv_at ps' ?q (R \<union> set rs) (W - {up}) rest"
    using RW d \<open>rs \<noteq> []\<close> wk(3,4) by (auto simp: rwinv_at_def distinct_card)
  with un show ?thesis by blast
qed

lemma woken_as_simps:
  "woken_as st ps [] = {}"
  "woken_as st ps (w # ws) = (if p_state (ps w) = st then insert w (woken_as st ps ws) else woken_as st ps ws)"
  "woken_as QueueingR ps (takeWhile (\<lambda>w. p_state (ps w) = QueueingR) vs) =
     set (takeWhile (\<lambda>w. p_state (ps w) = QueueingR) vs)"
  "woken_as QueueingW ps (takeWhile (\<lambda>w. p_state (ps w) = QueueingR) vs) = {}"
  by (auto simp: woken_as_def dest: set_takeWhileD)

lemma runlock_cases:
  assumes "rwinv_at ps q R W ws" "up \<in> R"
  shows "\<exists>woken ps' q' ws'. runlock ps q = Some (woken, ps', q') \<and>
    rwinv_at ps' q' ((R - {up}) \<union> woken_as QueueingR ps woken) (W \<union> woken_as QueueingW ps woken) ws'"
proof (cases "ws = [] \<or> R \<noteq> {up}")
  case True
  with runlock_keep [OF assms] show ?thesis by (auto simp: woken_as_simps)
next
  case False
  then obtain w ws' where ws: "ws = w # ws'" "R = {up}" by (cases ws) auto
  moreover from this assms(1) have "W = {}" unfolding rwinv_at_def by auto
  ultimately show ?thesis
    using runlock_wake [of ps q up W w ws'] assms(1) by (auto simp: woken_as_simps)
qed

lemma wunlock_cases:
  assumes "rwinv_at ps q R W ws" "up \<in> W"
  shows "\<exists>woken ps' q' ws'. wunlock ps q = Some (woken, ps', q') \<and>
    rwinv_at ps' q' (R \<union> woken_as QueueingR ps woken) ((W - {up}) \<union> woken_as QueueingW ps woken) ws'"
proof (cases ws)
  case Nil
  with wunlock_empty assms show ?thesis by (fastforce simp: woken_as_simps)
next
  case (Cons w ws')
  show ?thesis
  proof (cases "p_state (ps w) = QueueingW")
    case True
    then show ?thesis using wunlock_hand [of ps q R W w ws'] assms Cons by (auto simp: woken_as_simps)
  next
    case False
    from wunlock_readers [OF assms(1) [unfolded Cons] assms(2) this]
    show ?thesis by (metis woken_as_simps(3,4) sup_bot_right)
  qed
qed

lemma rwinv_read:
  "rwinv_at ps q R W [] \<Longrightarrow> \<not> rw_writer q \<Longrightarrow> up \<notin> R \<Longrightarrow>
   rwinv_at ps (q\<lparr>rw_readers := rw_readers q + 1\<rparr>) (insert up R) W []"
  by (simp add: rwinv_at_def)

lemma rwstep_inv:
  assumes "rwstep s t" "rwinv s"
  shows "rwinv t"
proof -
  obtain ws where inv: "rwinv_at (rws_procs s) (rws_lock s) (rws_reading s) (rws_writing s) ws"
    using assms(2) by (auto simp: rwinv_def)
  then have hd: "q_head (rws_lock s) = None \<longleftrightarrow> ws = []"
    using waiters_hd [of "(rws_procs s, rws_lock s)" ws] by (auto simp: rwinv_at_def split: list.splits)
  from assms(1) show ?thesis
  proof cases
    case (rlock up sleeps ps q)
    show ?thesis
    proof (cases "rw_writer (rws_lock s) \<or> ws \<noteq> []")
      case True
      then have "rws_reading s \<union> rws_writing s \<noteq> {}" "ws = [] \<Longrightarrow> rws_reading s = {}"
        using inv unfolding rwinv_at_def by auto
      from rwinv_enq [OF inv rlock(2,3) _ this(1), of QueueingR] this(2)
      show ?thesis using rlock(1,4) rlock_sleeps True hd by (fastforce simp: rwinv_def)
    next
      case False
      then show ?thesis using rlock inv hd
        by (auto simp: rwinv_def Qlock.rlock_def intro!: exI [of _ "[]"] rwinv_read)
    qed
  next
    case (canrlock up got q)
    then show ?thesis
    proof (cases "\<not> rw_writer (rws_lock s) \<and> ws = []")
      case True
      then show ?thesis using canrlock inv hd
        by (auto simp: rwinv_def Qlock.canrlock_def intro!: exI [of _ "[]"] rwinv_read)
    next
      case False
      then have "\<not> got" "q = rws_lock s" using canrlock(4) hd by (auto simp: Qlock.canrlock_def)
      then show ?thesis using canrlock(1) inv by (auto simp: rwinv_def)
    qed
  next
    case (wlock up sleeps ps q)
    show ?thesis
    proof (cases "rw_readers (rws_lock s) \<noteq> 0 \<or> rw_writer (rws_lock s)")
      case True
      then have "rws_reading s \<union> rws_writing s \<noteq> {}" using inv unfolding rwinv_at_def by auto
      from rwinv_enq [OF inv wlock(2,3) _ this, of QueueingW]
      show ?thesis using wlock(1,4) wlock_sleeps [OF True] by (fastforce simp: rwinv_def)
    next
      case False
      then show ?thesis using wlock inv by (auto simp: rwinv_def rwinv_at_def Qlock.wlock_def)
    qed
  next
    case (runlock up woken ps q)
    then show ?thesis using runlock_cases [OF inv, of up] by (auto simp: rwinv_def)
  next
    case (wunlock up woken ps q)
    then show ?thesis using wunlock_cases [OF inv, of up] by (auto simp: rwinv_def)
  qed
qed

lemma rwreach_inv: "rwreach s \<Longrightarrow> rwinv s"
proof (induction rule: rwreach.induct)
  case (init ps)
  then show ?case by (auto simp: rwinv_def rwinv_at_def waiters_def intro!: exI [of _ "[]"])
qed (rule rwstep_inv)

subsection \<open>Properties\<close>

text \<open>
  C19. Mutual exclusion and no lost wakeup of \<open>QLock\<close>: in every reachable state at most one
  process holds the lock, the lock bit is set exactly when one does, no holder sleeps, and while
  any process sleeps on the lock somebody holds it (so a release will wake the sleeper).
\<close>

theorem qlock_exclusion:
  assumes "qreach s"
  shows "(\<forall>p q. p \<in> qs_holds s \<and> q \<in> qs_holds s \<longrightarrow> p = q) \<and>
    (q_locked (qs_lock s) \<longleftrightarrow> qs_holds s \<noteq> {}) \<and>
    (\<forall>p \<in> qs_holds s. \<not> sleeping (qs_procs s) p) \<and>
    ((\<exists>p. sleeping (qs_procs s) p) \<longrightarrow> qs_holds s \<noteq> {})"
proof -
  obtain ws where ws: "set ws = {p. sleeping (qs_procs s) p}" "set ws \<inter> qs_holds s = {}"
      "if q_locked (qs_lock s) then \<exists>h. qs_holds s = {h} else qs_holds s = {} \<and> ws = []"
    using qreach_inv [OF assms] unfolding qinv_def by blast
  have "\<forall>p \<in> qs_holds s. \<not> sleeping (qs_procs s) p" using ws(1,2) by blast
  with ws(1,3) show ?thesis by (cases "q_locked (qs_lock s)") auto
qed

definition idle :: procs where
  "idle = (\<lambda>p. \<lparr>p_state = Running, p_qnext = None\<rparr>)"

lemma qreach_contended:
  "qreach \<lparr>qs_procs = fst (qenq Queueing 2 (idle, \<lparr>q_head = None, q_tail = None, q_locked = True\<rparr>)),
     qs_lock = snd (qenq Queueing 2 (idle, \<lparr>q_head = None, q_tail = None, q_locked = True\<rparr>)),
     qs_holds = {1}\<rparr>" (is "qreach ?s")
proof -
  let ?a = "\<lparr>qs_procs = idle, qs_lock = \<lparr>q_head = None, q_tail = None, q_locked = False\<rparr>, qs_holds = {}\<rparr>"
  let ?b = "\<lparr>qs_procs = idle, qs_lock = \<lparr>q_head = None, q_tail = None, q_locked = True\<rparr>, qs_holds = {1}\<rparr>"
  have "qreach ?a" by (rule qreach.init) (simp add: idle_def sleeping_def)
  moreover have "qstep ?a ?b"
    using qstep.lock [of ?a 1 False idle "\<lparr>q_head = None, q_tail = None, q_locked = True\<rparr>"]
    by (simp add: idle_def sleeping_def qlock_def)
  moreover have "qstep ?b ?s"
    using qstep.lock [of ?b 2 True "qs_procs ?s" "qs_lock ?s"]
    by (simp add: idle_def sleeping_def qlock_def split: prod.splits)
  ultimately show ?thesis by (blast intro: qreach.step)
qed

theorem qlock_exclusion_witness:
  "\<exists>s. qreach s \<and> qs_holds s = {1} \<and> q_locked (qs_lock s) \<and> sleeping (qs_procs s) 2"
proof -
  let ?l = "\<lparr>q_head = None, q_tail = None, q_locked = True\<rparr>"
  let ?s = "\<lparr>qs_procs = fst (qenq Queueing 2 (idle, ?l)), qs_lock = snd (qenq Queueing 2 (idle, ?l)),
    qs_holds = {1}\<rparr>"
  have "q_locked (qs_lock ?s)" using qlock_exclusion [OF qreach_contended] by simp
  then show ?thesis
    using qreach_contended by (intro exI [of _ ?s]) (simp add: sleeping_def p_state_enq)
qed

text \<open>
  First come, first served: if the queue of a lock denotes \<open>ws\<close>, the releases hand the lock
  to \<open>ws ! 0\<close>, \<open>ws ! 1\<close> and so on, each to exactly one process, and the release after the last
  waiter frees the lock.
\<close>

theorem qlock_fifo:
  assumes "waiters (ps, q) ws" "n \<le> length ws"
  shows "\<exists>ps' q'. ((\<lambda>(ps, q). snd (qunlock ps q)) ^^ n) (ps, q) = (ps', q') \<and>
    (if n < length ws then fst (qunlock ps' q') = Some (ws ! n)
     else fst (qunlock ps' q') = None \<and> \<not> q_locked (snd (snd (qunlock ps' q'))))"
proof (cases "n < length ws")
  case True
  then show ?thesis using qunlock_nth [OF assms(1)] by auto
next
  case False
  obtain ps' q' where n: "((\<lambda>(ps, q). snd (qunlock ps q)) ^^ n) (ps, q) = (ps', q')"
      "waiters (ps', q') (drop n ws)"
    using qunlock_waiters [OF assms] by blast
  then have "q_head q' = None" using False waiters_hd [of "(ps', q')" "[]"] by simp
  then show ?thesis using n False by (simp add: qunlock_def)
qed

theorem qlock_fifo_witness:
  "\<exists>ps' q'. ((\<lambda>(ps, q). snd (qunlock ps q)) ^^ 1)
      (qenq Queueing 3 (qenq Queueing 2 (idle, \<lparr>q_head = None, q_tail = None, q_locked = True\<rparr>))) = (ps', q') \<and>
    fst (qunlock ps' q') = Some 3"
proof -
  let ?l = "(idle, \<lparr>q_head = None, q_tail = None, q_locked = True\<rparr>)"
  have "waiters ?l []" by (simp add: waiters_def)
  from waiters_enq [OF waiters_enq [OF this, of 2 Queueing], of 3 Queueing]
  have "waiters (qenq Queueing 3 (qenq Queueing 2 ?l)) [2, 3]" by simp
  then show ?thesis
    using qlock_fifo [of "fst (qenq Queueing 3 (qenq Queueing 2 ?l))" "snd (qenq Queueing 3 (qenq Queueing 2 ?l))"
      "[2, 3]" 1] by simp
qed

text \<open>
  C22. Exclusion of \<open>RWlock\<close>: in every reachable state a writer is alone and excludes readers,
  \<^verbatim>\<open>writer\<close> and \<^verbatim>\<open>readers\<close> count the holders, and while any process sleeps on the lock
  somebody holds it.
\<close>

theorem rwlock_exclusion:
  assumes "rwreach s"
  shows "(\<forall>p \<in> rws_writing s. rws_writing s = {p} \<and> rws_reading s = {}) \<and>
    rw_readers (rws_lock s) = int (card (rws_reading s)) \<and>
    (rw_writer (rws_lock s) \<longleftrightarrow> rws_writing s \<noteq> {}) \<and>
    ((\<exists>p. sleeping (rws_procs s) p) \<longrightarrow> rws_reading s \<union> rws_writing s \<noteq> {})"
proof -
  obtain ws where "rwinv_at (rws_procs s) (rws_lock s) (rws_reading s) (rws_writing s) ws"
    using rwreach_inv [OF assms] unfolding rwinv_def by blast
  then show ?thesis unfolding rwinv_at_def by (cases ws) auto
qed

text \<open>
  The panics of \<open>runlock\<close> and \<open>wunlock\<close> cannot happen and the wake-up loop of \<open>wunlock\<close>
  ends: in every reachable state a holder's release returns.  When a writer releases the lock and
  a reader is first in the queue, exactly the readers before the first waiting writer are woken.
\<close>

theorem rwlock_no_panic:
  assumes "rwreach s"
  shows "(up \<in> rws_reading s \<longrightarrow> runlock (rws_procs s) (rws_lock s) \<noteq> None) \<and>
    (up \<in> rws_writing s \<longrightarrow> (\<exists>woken ps q. wunlock (rws_procs s) (rws_lock s) = Some (woken, ps, q) \<and>
      (\<forall>w ws. waiters (rws_procs s, rws_lock s) (w # ws) \<and> p_state (rws_procs s w) = QueueingR \<longrightarrow>
        woken = takeWhile (\<lambda>v. p_state (rws_procs s v) = QueueingR) (w # ws))))"
proof -
  obtain ws where inv: "rwinv_at (rws_procs s) (rws_lock s) (rws_reading s) (rws_writing s) ws"
    using rwreach_inv [OF assms] unfolding rwinv_def by blast
  have "woken = takeWhile (\<lambda>v. p_state (rws_procs s v) = QueueingR) (w # vs)"
    if "up \<in> rws_writing s" "waiters (rws_procs s, rws_lock s) (w # vs)" "p_state (rws_procs s w) = QueueingR"
      "wunlock (rws_procs s) (rws_lock s) = Some (woken, ps, q)" for woken ps q w vs
  proof -
    have "ws = w # vs"
      using inv that(2) wq.rel_unique unfolding rwinv_at_def by blast
    then show ?thesis using wunlock_readers [of _ _ _ _ w vs up] inv that by fastforce
  qed
  then show ?thesis using runlock_cases [OF inv, of up] wunlock_cases [OF inv, of up] by auto
qed

lemma rwreach_write:
  "rwreach \<lparr>rws_procs = idle, rws_lock = \<lparr>q_head = None, q_tail = None, rw_readers = 0, rw_writer = True\<rparr>,
     rws_reading = {}, rws_writing = {1}\<rparr>"
proof -
  let ?a = "\<lparr>rws_procs = idle, rws_lock = \<lparr>q_head = None, q_tail = None, rw_readers = 0, rw_writer = False\<rparr>,
     rws_reading = {}, rws_writing = {}\<rparr>"
  have "rwreach ?a" by (rule rwreach.init) (simp add: idle_def sleeping_def)
  moreover have "rwstep ?a (?a\<lparr>rws_procs := idle,
      rws_lock := \<lparr>q_head = None, q_tail = None, rw_readers = 0, rw_writer = True\<rparr>, rws_writing := {1}\<rparr>)"
    using rwstep.wlock [of ?a 1 False idle "\<lparr>q_head = None, q_tail = None, rw_readers = 0, rw_writer = True\<rparr>"]
    by (simp add: idle_def sleeping_def wlock_def)
  ultimately show ?thesis using rwreach.step by force
qed

theorem rwlock_exclusion_witness:
  "\<exists>s. rwreach s \<and> rws_writing s = {1} \<and> rws_reading s = {} \<and> rw_writer (rws_lock s)"
  by (intro exI conjI, rule rwreach_write) (use rwlock_exclusion [OF rwreach_write] in simp_all)

theorem rwlock_no_panic_witness:
  "\<exists>s woken ps q. rwreach s \<and> 1 \<in> rws_writing s \<and> wunlock (rws_procs s) (rws_lock s) = Some (woken, ps, q)"
proof -
  from rwlock_no_panic [OF rwreach_write, of 1] obtain woken ps q where
    "wunlock idle \<lparr>q_head = None, q_tail = None, rw_readers = 0, rw_writer = True\<rparr> = Some (woken, ps, q)"
    by auto
  note woken = this
  show ?thesis by (intro exI conjI, rule rwreach_write) (use woken in simp_all)
qed

end
