(* ===== verification/FileTree.thy ===== *)
theory FileTree
  imports ConvDir
begin

text \<open>
  The synthetic file trees of the 9P library, \<^verbatim>\<open>lib9p/file.c\<close>, and the permission check of
  \<^verbatim>\<open>lib9p/uid.c\<close>.  Files are reference counted and linked both ways: a child counts for its
  parent, the parent's list for the child, and every fid for its file.

  A \<open>fs\<close> is the heap of one tree.  A \<^verbatim>\<open>Filelist\<close> is the list of its fl_nodes, each with an
  identity, because a \<^verbatim>\<open>Readdir\<close> points into it.  Addresses are fresh: the free list from which
  \<^verbatim>\<open>allocfile\<close> reuses memory is not visible.  The read-write locks make each operation atomic.
  \<open>None\<close> is a fault: a nil or dangling pointer, or a failed \<^verbatim>\<open>assert\<close>.  The tree's \<^verbatim>\<open>destroy\<close>
  callback is the log \<open>fs_destroyed\<close>; times are parameters.
\<close>

subsection \<open>Modes and strings\<close>

abbreviation (input) QTDIR :: uchar where "QTDIR \<equiv> 0x80"
abbreviation (input) QTAPPEND :: uchar where "QTAPPEND \<equiv> 0x40"
abbreviation (input) QTEXCL :: uchar where "QTEXCL \<equiv> 0x20"
abbreviation (input) DMDIR :: u32int where "DMDIR \<equiv> 0x80000000"
abbreviation (input) DMAPPEND :: u32int where "DMAPPEND \<equiv> 0x40000000"
abbreviation (input) DMEXCL :: u32int where "DMEXCL \<equiv> 0x20000000"
abbreviation (input) AEXEC :: u32int where "AEXEC \<equiv> 1"
abbreviation (input) AWRITE :: u32int where "AWRITE \<equiv> 2"
abbreviation (input) AREAD :: u32int where "AREAD \<equiv> 4"

text \<open>\<^verbatim>\<open>strcmp(s, t) == 0\<close> faults on nil.\<close>

definition streq :: "cstr \<Rightarrow> cstr \<Rightarrow> bool option" where
  "streq s t = (case (s, t) of (Some a, Some b) \<Rightarrow> Some (a = b) | _ \<Rightarrow> None)"

subsection \<open>State\<close>

type_synonym filep = nat
type_synonym filelist = "(nat \<times> filep option) list"

record fnode =
  fl_ref :: int
  fl_dir :: Dir
  fl_parent :: "filep option"
  fl_list :: filelist
  fl_nchild :: int
  fl_nxchild :: int
  fl_readers :: int

record readdir =
  rd_dir :: filep
  rd_fl :: "nat option"

record fs =
  fs_files :: "filep \<rightharpoonup> fnode"
  fs_root :: filep
  fs_qidgen :: u32int
  fs_next :: nat
  fs_destroyed :: "filep list"

definition fupd :: "filep \<Rightarrow> (fnode \<Rightarrow> fnode) \<Rightarrow> fs \<Rightarrow> fs option" where
  "fupd p g fs = map_option (\<lambda>f. fs\<lparr>fs_files := (fs_files fs)(p \<mapsto> g f)\<rparr>) (fs_files fs p)"

definition increff :: "filep \<Rightarrow> fs \<Rightarrow> fs option" where
  "increff p = fupd p (\<lambda>f. f\<lparr>fl_ref := fl_ref f + 1\<rparr>)"

subsection \<open>Allocation and release\<close>

definition zero_dir :: Dir where
  "zero_dir = \<lparr>d_type = 0, d_dev = 0, d_qid = zero_qid, d_mode = 0, d_atime = 0, d_mtime = 0,
     d_length = 0, d_name = None, d_uid = None, d_gid = None, d_muid = None\<rparr>"

definition zero_file :: fnode where
  "zero_file = \<lparr>fl_ref = 0, fl_dir = zero_dir, fl_parent = None, fl_list = [], fl_nchild = 0,
     fl_nxchild = 0, fl_readers = 0\<rparr>"

definition allocfile :: "fs \<Rightarrow> filep \<times> fs" where
  "allocfile fs = (fs_next fs,
     fs\<lparr>fs_files := (fs_files fs)(fs_next fs \<mapsto> zero_file), fs_next := fs_next fs + 1\<rparr>)"

definition freefile :: "filep \<Rightarrow> fs \<Rightarrow> fs option" where
  "freefile p fs = do {
     f \<leftarrow> fs_files fs p;
     assertion (list_all (\<lambda>n. snd n = None) (fl_list f));
     assertion (fl_ref f = 0);
     Some (fs\<lparr>fs_files := (fs_files fs)(p := None)\<rparr>) }"

definition cleanfilelist :: "filep \<Rightarrow> fs \<Rightarrow> fs option" where
  "cleanfilelist p fs = do {
     f \<leftarrow> fs_files fs p;
     if fl_readers f \<noteq> 0 then Some fs
     else if fl_nxchild f = 0 then Some fs
     else fupd p (\<lambda>f. f\<lparr>fl_list := filter (\<lambda>n. snd n \<noteq> None) (fl_list f), fl_nxchild := 0\<rparr>) fs }"

definition closefile :: "filep \<Rightarrow> fs \<Rightarrow> fs option" where
  "closefile p fs = do {
     fs \<leftarrow> fupd p (\<lambda>f. f\<lparr>fl_ref := fl_ref f - 1\<rparr>) fs;
     f \<leftarrow> fs_files fs p;
     if fl_ref f = 0 then freefile p (fs\<lparr>fs_destroyed := fs_destroyed fs @ [p]\<rparr>)
     else Some fs }"

text \<open>The search of \<^verbatim>\<open>removefile\<close> in the parent's list; the entry found is set to nil.\<close>

fun clear_entry :: "filep \<Rightarrow> filelist \<Rightarrow> filelist option" where
  "clear_entry p [] = None"
| "clear_entry p ((n, e) # l) =
     (if e = Some p then Some ((n, None) # l) else map_option ((#) (n, e)) (clear_entry p l))"

text \<open>
  \<open>removefile\<close> returns nil for success or the error string.  Operations are atomic here, so that the parent
  does not change between the first test and the locks.
\<close>

definition removefile :: "filep \<Rightarrow> fs \<Rightarrow> (cstr \<times> fs) option" where
  "removefile p fs = do {
     f \<leftarrow> fs_files fs p;
     case fl_parent f of
       None \<Rightarrow> do { fs \<leftarrow> closefile p fs; Some (Some (bytes ''no parent''), fs) }
     | Some fp \<Rightarrow>
         if fp = p then do { fs \<leftarrow> closefile p fs; Some (Some (bytes ''cannot remove root''), fs) }
         else do {
           d \<leftarrow> fs_files fs fp;
           if fl_nchild f \<noteq> 0 then do { fs \<leftarrow> closefile p fs; Some (Some (bytes ''has children''), fs) }
           else if fl_parent f \<noteq> Some fp then do { fs \<leftarrow> closefile p fs; Some (Some (bytes ''parent changed underfoot''), fs) }
           else do {
             l \<leftarrow> clear_entry p (fl_list d);
             fs \<leftarrow> fupd fp (\<lambda>d. d\<lparr>fl_list := l, fl_nchild := fl_nchild d - 1,
               fl_nxchild := fl_nxchild d + 1\<rparr>) fs;
             fs \<leftarrow> fupd p (\<lambda>f. f\<lparr>fl_parent := None\<rparr>) fs;
             fs \<leftarrow> cleanfilelist fp fs;
             fs \<leftarrow> closefile fp fs;
             fs \<leftarrow> closefile p fs;
             fs \<leftarrow> closefile p fs;
             Some (None, fs) } } }"

text \<open>The search by name of \<^verbatim>\<open>createfile\<close> and \<^verbatim>\<open>walkfile1\<close>.\<close>

fun find_name :: "fs \<Rightarrow> filelist \<Rightarrow> uchar list \<Rightarrow> filep option option" where
  "find_name fs [] name = Some None"
| "find_name fs ((n, None) # l) name = find_name fs l name"
| "find_name fs ((n, Some c) # l) name = do {
     f \<leftarrow> fs_files fs c;
     same \<leftarrow> streq (d_name (fl_dir f)) (Some name);
     if same then Some (Some c) else find_name fs l name }"

definition or_uid :: "cstr \<Rightarrow> cstr \<Rightarrow> cstr" where
  "or_uid uid other = (case uid of None \<Rightarrow> other | Some u \<Rightarrow> Some u)"

definition new_qid :: "u32int \<Rightarrow> u32int \<Rightarrow> qid" where
  "new_qid path perm = \<lparr>q_path = ucast path, q_vers = 0,
     q_type = (if perm AND DMDIR \<noteq> 0 then QTDIR else 0) OR
       (if perm AND DMAPPEND \<noteq> 0 then QTAPPEND else 0) OR
       (if perm AND DMEXCL \<noteq> 0 then QTEXCL else 0)\<rparr>"

definition createfile ::
  "u32int \<Rightarrow> filep \<Rightarrow> uchar list \<Rightarrow> cstr \<Rightarrow> u32int \<Rightarrow> fs \<Rightarrow> ((uchar list + filep) \<times> fs) option" where
  "createfile now fp name uid perm fs = do {
     d \<leftarrow> fs_files fs fp;
     if q_type (d_qid (fl_dir d)) AND QTDIR = 0 then Some (Inl (bytes ''create in non-directory''), fs)
     else do {
       found \<leftarrow> find_name fs (fl_list d) name;
       if found \<noteq> None then Some (Inl (bytes ''file already exists''), fs)
       else do {
         let n = fs_next fs;
         let fs = fs\<lparr>fs_next := n + 1\<rparr>;
         let (p, fs) = allocfile fs;
         u \<leftarrow> or_uid uid (d_uid (fl_dir d));
         g \<leftarrow> d_gid (fl_dir d);
         let dir = zero_dir\<lparr>d_name := Some name, d_uid := Some u,
           d_gid := Some g, d_muid := or_uid uid (Some (bytes ''unknown'')),
           d_qid := new_qid (fs_qidgen fs) perm, d_mode := perm, d_atime := now, d_mtime := now,
           d_length := 0\<rparr>;
         let fs = fs\<lparr>fs_qidgen := fs_qidgen fs + 1\<rparr>;
         fs \<leftarrow> fupd p (\<lambda>f. f\<lparr>fl_dir := dir, fl_parent := Some fp\<rparr>) fs;
         fs \<leftarrow> increff fp fs;
         fs \<leftarrow> increff p fs;
         fs \<leftarrow> increff p fs;
         fs \<leftarrow> fupd fp (\<lambda>d. d\<lparr>fl_list := fl_list d @ [(n, Some p)], fl_nchild := fl_nchild d + 1\<rparr>) fs;
         Some (Inr p, fs) } } }"

subsection \<open>Walking\<close>

definition walkfile1 :: "filep \<Rightarrow> uchar list \<Rightarrow> fs \<Rightarrow> (filep option \<times> fs) option" where
  "walkfile1 dir elem fs = do {
     d \<leftarrow> fs_files fs dir;
     if elem = bytes ''..'' then do {
       fp \<leftarrow> fl_parent d;
       fs \<leftarrow> increff fp fs;
       fs \<leftarrow> closefile dir fs;
       Some (Some fp, fs) }
     else do {
       fp \<leftarrow> find_name fs (fl_list d) elem;
       fs \<leftarrow> (case fp of None \<Rightarrow> Some fs | Some p \<Rightarrow> increff p fs);
       fs \<leftarrow> closefile dir fs;
       Some (fp, fs) } }"

text \<open>The loop over the elements of a path with slashes.\<close>

abbreviation (input) SLASH :: uchar where "SLASH \<equiv> 47"

fun walkelems :: "filep \<Rightarrow> uchar list \<Rightarrow> fs \<Rightarrow> (filep option \<times> fs) option" where
  "walkelems f [] fs = Some (Some f, fs)"
| "walkelems f (c # s) fs = do {
     let elem = takeWhile (\<lambda>c. c \<noteq> SLASH) (c # s);
     (r, fs) \<leftarrow> walkfile1 f elem fs;
     case r of
       None \<Rightarrow> Some (None, fs)
     | Some g \<Rightarrow> walkelems g (drop (length elem) s) fs }"

definition walkfile :: "filep \<Rightarrow> uchar list \<Rightarrow> fs \<Rightarrow> (filep option \<times> fs) option" where
  "walkfile f path fs = (if SLASH \<notin> set path then walkfile1 f path fs else walkelems f path fs)"

subsection \<open>Trees\<close>

definition alloctree :: "u32int \<Rightarrow> uchar list \<Rightarrow> cstr \<Rightarrow> u32int \<Rightarrow> fs" where
  "alloctree now uid gid mode =
     (let dir = zero_dir\<lparr>d_name := Some (bytes ''/''), d_qid := \<lparr>q_path = 0, q_vers = 0, q_type = QTDIR\<rparr>,
        d_length := 0, d_atime := now, d_mtime := now, d_mode := DMDIR OR mode,
        d_uid := Some uid, d_gid := or_uid gid (Some uid), d_muid := Some uid\<rparr> in
      \<lparr>fs_files = [0 \<mapsto> zero_file\<lparr>fl_dir := dir, fl_parent := Some 0, fl_ref := 1\<rparr>],
       fs_root = 0, fs_qidgen = 0, fs_next = 1, fs_destroyed = []\<rparr>)"

text \<open>
  \<open>freefiles\<close> recurses over the children with a bound on the depth; \<open>None\<close> is also running out
  of it.  \<^verbatim>\<open>free(fl)\<close> leaves the list of a directory dangling for \<^verbatim>\<open>freefile\<close>, which is not
  modelled as a fault of its own: \<^verbatim>\<open>freefile\<close> sees the entries as they were.
\<close>

fun forM :: "('a \<Rightarrow> 's \<Rightarrow> 's option) \<Rightarrow> 'a list \<Rightarrow> 's \<Rightarrow> 's option" where
  "forM g [] s = Some s"
| "forM g (x # xs) s = do { s \<leftarrow> g x s; forM g xs s }"

fun freefiles :: "nat \<Rightarrow> filep option \<Rightarrow> fs \<Rightarrow> fs option" where
  "freefiles 0 p fs = None"
| "freefiles (Suc k) p fs = do {
     p \<leftarrow> p;
     f \<leftarrow> fs_files fs p;
     fs \<leftarrow> forM (\<lambda>n. freefiles k (snd n)) (fl_list f) fs;
     freefile p (fs\<lparr>fs_destroyed := fs_destroyed fs @ [p]\<rparr>) }"

definition freetree :: "nat \<Rightarrow> fs \<Rightarrow> fs option" where
  "freetree k fs = freefiles k (Some (fs_root fs)) fs"

subsection \<open>Reading directories\<close>

definition opendirfile :: "filep \<Rightarrow> fs \<Rightarrow> (readdir option \<times> fs) option" where
  "opendirfile dir fs = do {
     d \<leftarrow> fs_files fs dir;
     if d_mode (fl_dir d) AND DMDIR = 0 then Some (None, fs)
     else do {
       fs \<leftarrow> fupd dir (\<lambda>d. d\<lparr>fl_readers := fl_readers d + 1\<rparr>) fs;
       Some (Some \<lparr>rd_dir = dir, rd_fl = (case fl_list d of [] \<Rightarrow> None | n # _ \<Rightarrow> Some (fst n))\<rparr>, fs) } }"

fun readdir_loop :: "fs \<Rightarrow> filelist \<Rightarrow> mem \<Rightarrow> nat \<Rightarrow> nat \<Rightarrow> (mem \<times> nat \<times> filelist) option" where
  "readdir_loop fs [] buf m n = Some (buf, m, [])"
| "readdir_loop fs ((i, e) # l) buf m n =
     (if m + 2 \<le> n then
        (case e of
           None \<Rightarrow> readdir_loop fs l buf m n
         | Some c \<Rightarrow> do {
             f \<leftarrow> fs_files fs c;
             (x, b) \<leftarrow> convD2M (fl_dir f) (drop m buf) (n - m);
             let buf = take m buf @ b;
             if x \<le> 2 then Some (buf, m, (i, e) # l)
             else readdir_loop fs l buf (m + x) n })
      else Some (buf, m, (i, e) # l))"

text \<open>The nodes from a pointer on; a pointer to a node that is gone is a fault.\<close>

definition nodes_from :: "nat option \<Rightarrow> filelist \<Rightarrow> filelist option" where
  "nodes_from i l =
     (case i of
        None \<Rightarrow> Some []
      | Some i \<Rightarrow> (case dropWhile (\<lambda>n. fst n \<noteq> i) l of [] \<Rightarrow> None | ns \<Rightarrow> Some ns))"

definition readdirfile :: "readdir \<Rightarrow> mem \<Rightarrow> nat \<Rightarrow> fs \<Rightarrow> (nat \<times> mem \<times> readdir) option" where
  "readdirfile r buf n fs = do {
     d \<leftarrow> fs_files fs (rd_dir r);
     fl \<leftarrow> nodes_from (rd_fl r) (fl_list d);
     (buf, m, fl) \<leftarrow> readdir_loop fs fl buf 0 n;
     Some (m, buf, r\<lparr>rd_fl := (case fl of [] \<Rightarrow> None | n # _ \<Rightarrow> Some (fst n))\<rparr>) }"

definition closedirfile :: "readdir \<Rightarrow> fs \<Rightarrow> fs option" where
  "closedirfile r fs = do {
     fs \<leftarrow> fupd (rd_dir r) (\<lambda>d. d\<lparr>fl_readers := fl_readers d - 1\<rparr>) fs;
     d \<leftarrow> fs_files fs (rd_dir r);
     if fl_readers d = 0 then cleanfilelist (rd_dir r) fs else Some fs }"

subsection \<open>Permissions\<close>

definition hasperm :: "fnode \<Rightarrow> cstr \<Rightarrow> u32int \<Rightarrow> bool option" where
  "hasperm f uid p =
     (let d = fl_dir f; m = d_mode d AND 7 in
      if p AND m = p then Some True
      else do {
        same \<leftarrow> streq (d_uid d) uid;
        let m = (if same then m OR (drop_bit 6 (d_mode d) AND 7) else m);
        if same \<and> p AND m = p then Some True
        else do {
          same \<leftarrow> streq (d_gid d) uid;
          let m = (if same then m OR (drop_bit 3 (d_mode d) AND 7) else m);
          Some (same \<and> p AND m = p) } })"

subsection \<open>The invariant\<close>

text \<open>
  \<open>ext p\<close> is the number of references to \<open>p\<close> held outside of the tree (by fids and by callers).
  The reference count of a file is that number, plus one for the entry in its parent's list (the
  root has the tree's own reference), plus one for each child.  The list of a directory holds
  exactly its children, once each and with distinct names, and the counters count its entries
  and its blank spots.
\<close>

definition kids :: "fs \<Rightarrow> filep \<Rightarrow> filep set" where
  "kids fs p = {c. \<exists>f. fs_files fs c = Some f \<and> fl_parent f = Some p \<and> c \<noteq> p}"

definition entries :: "filelist \<Rightarrow> filep list" where
  "entries l = List.map_filter snd l"

definition fname :: "fs \<Rightarrow> filep \<Rightarrow> cstr" where
  "fname fs c = (case fs_files fs c of None \<Rightarrow> None | Some f \<Rightarrow> d_name (fl_dir f))"

definition linked_ok :: "fs \<Rightarrow> filep \<Rightarrow> fnode \<Rightarrow> bool" where
  "linked_ok fs p f \<longleftrightarrow> distinct (entries (fl_list f)) \<and> set (entries (fl_list f)) = kids fs p \<and>
     distinct (map fst (fl_list f)) \<and> (\<forall>n \<in> set (fl_list f). fst n < fs_next fs) \<and> p < fs_next fs \<and>
     fl_nchild f = int (length (entries (fl_list f))) \<and>
     fl_nxchild f = int (length (fl_list f)) - int (length (entries (fl_list f))) \<and>
     distinct (map (fname fs) (entries (fl_list f))) \<and>
     (\<forall>q. fl_parent f = Some q \<longrightarrow> q \<in> dom (fs_files fs) \<and> (q = p \<longrightarrow> p = fs_root fs)) \<and>
     d_name (fl_dir f) \<noteq> None \<and> d_uid (fl_dir f) \<noteq> None \<and> d_gid (fl_dir f) \<noteq> None"

definition tree_ok :: "fs \<Rightarrow> bool" where
  "tree_ok fs \<longleftrightarrow> finite (dom (fs_files fs)) \<and>
     (\<exists>f. fs_files fs (fs_root fs) = Some f \<and> fl_parent f = Some (fs_root fs)) \<and>
     (\<forall>p f. fs_files fs p = Some f \<longrightarrow> linked_ok fs p f)"

definition count_of :: "fs \<Rightarrow> (filep \<Rightarrow> nat) \<Rightarrow> filep \<Rightarrow> fnode \<Rightarrow> nat" where
  "count_of fs ext p f = (if fl_parent f = None then 0 else 1) + card (kids fs p) + ext p"

definition refs_ok :: "fs \<Rightarrow> (filep \<Rightarrow> nat) \<Rightarrow> bool" where
  "refs_ok fs ext \<longleftrightarrow> (\<forall>p f. fs_files fs p = Some f \<longrightarrow>
       fl_ref f = int (count_of fs ext p f) \<and> 0 < count_of fs ext p f) \<and>
     (\<forall>p. fs_files fs p = None \<longrightarrow> ext p = 0)"

definition fs_ok :: "fs \<Rightarrow> (filep \<Rightarrow> nat) \<Rightarrow> bool" where
  "fs_ok fs ext \<longleftrightarrow> tree_ok fs \<and> refs_ok fs ext"

text \<open>Two heaps with the same links: only the reference counts and the like differ.\<close>

definition links :: "fnode \<Rightarrow> Dir \<times> filep option \<times> filelist \<times> int \<times> int" where
  "links f = (fl_dir f, fl_parent f, fl_list f, fl_nchild f, fl_nxchild f)"

definition same_links :: "fs \<Rightarrow> fs \<Rightarrow> bool" where
  "same_links fs fs' \<longleftrightarrow> (\<forall>p. map_option links (fs_files fs p) = map_option links (fs_files fs' p)) \<and>
     fs_root fs = fs_root fs' \<and> fs_next fs = fs_next fs'"

lemma entries_simps [simp]:
  "entries [] = []" "entries ((n, None) # l) = entries l" "entries ((n, Some c) # l) = c # entries l"
  "entries (l @ m) = entries l @ entries m"
  by (simp_all add: entries_def map_filter_def)

lemma entries_filter [simp]: "entries (filter (\<lambda>n. snd n \<noteq> None) l) = entries l"
  by (induction l) (auto simp: entries_def map_filter_def)

lemma length_filter_entries: "length (filter (\<lambda>n. snd n \<noteq> None) l) = length (entries l)"
  by (induction l) (auto simp: entries_def map_filter_def)

lemma set_entries: "c \<in> set (entries l) \<longleftrightarrow> (\<exists>n. (n, Some c) \<in> set l)"
  by (induction l) (auto simp: entries_def map_filter_def)

lemma entries_Nil: "entries l = [] \<Longrightarrow> list_all (\<lambda>n. snd n = None) l"
  by (induction l) (auto simp: entries_def map_filter_def split: option.splits if_splits)

lemma length_entries: "length (entries l) \<le> length l"
  by (metis length_filter_entries length_filter_le)

lemma same_links_get:
  "same_links fs fs' \<Longrightarrow> fs_files fs' p = Some f' \<Longrightarrow>
   \<exists>f. fs_files fs p = Some f \<and> fl_dir f' = fl_dir f \<and> fl_parent f' = fl_parent f \<and>
     fl_list f' = fl_list f \<and> fl_nchild f' = fl_nchild f \<and> fl_nxchild f' = fl_nxchild f"
proof -
  assume a: "same_links fs fs'" "fs_files fs' p = Some f'"
  then have "map_option links (fs_files fs p) = Some (links f')" by (simp add: same_links_def)
  then show ?thesis by (auto simp: links_def)
qed

lemma same_links_None: "same_links fs fs' \<Longrightarrow> fs_files fs p = None \<longleftrightarrow> fs_files fs' p = None"
  unfolding same_links_def by (metis option.map_disc_iff)

lemma same_links_sym: "same_links fs fs' \<Longrightarrow> same_links fs' fs"
  by (simp add: same_links_def)

lemma same_links_kids: "same_links fs fs' \<Longrightarrow> kids fs' p = kids fs p"
proof -
  have "kids g' p \<subseteq> kids g p" if sl: "same_links g g'" for g g'
  proof
    fix c assume "c \<in> kids g' p"
    then obtain f' where f': "fs_files g' c = Some f'" "fl_parent f' = Some p" "c \<noteq> p" by (auto simp: kids_def)
    from same_links_get [OF sl f'(1)] f'(2,3) show "c \<in> kids g p" by (auto simp: kids_def)
  qed
  moreover assume "same_links fs fs'"
  ultimately show ?thesis using same_links_sym by blast
qed

lemma same_links_fname: "same_links fs fs' \<Longrightarrow> fname fs' c = fname fs c"
proof -
  assume a: "same_links fs fs'"
  show ?thesis
    using same_links_None [OF a, of c] same_links_get [OF a, of c]
    by (cases "fs_files fs' c") (auto simp: fname_def)
qed

lemma same_links_tree_ok:
  assumes "same_links fs fs'" "tree_ok fs"
  shows "tree_ok fs'"
proof -
  have dom: "dom (fs_files fs') = dom (fs_files fs)"
    using same_links_None [OF assms(1)] by (simp add: dom_def)
  have root: "fs_root fs' = fs_root fs" "fs_next fs' = fs_next fs" using assms(1) by (auto simp: same_links_def)
  have "fname fs' = fname fs" using same_links_fname [OF assms(1)] by auto
  then have "linked_ok fs' p f'" if p: "fs_files fs' p = Some f'" for p f'
  proof -
    obtain f where f: "fs_files fs p = Some f" "fl_dir f' = fl_dir f" "fl_parent f' = fl_parent f"
      "fl_list f' = fl_list f" "fl_nchild f' = fl_nchild f" "fl_nxchild f' = fl_nxchild f"
      using same_links_get [OF assms(1) p] by blast
    then have "linked_ok fs p f" using assms(2) by (simp add: tree_ok_def)
    with \<open>fname fs' = fname fs\<close> show ?thesis
      using f same_links_kids [OF assms(1), of p] dom root by (simp add: linked_ok_def)
  qed
  moreover obtain f where f: "fs_files fs (fs_root fs) = Some f" "fl_parent f = Some (fs_root fs)"
    using assms(2) by (auto simp: tree_ok_def)
  then obtain f' where f': "fs_files fs' (fs_root fs) = Some f'"
    using same_links_None [OF assms(1), of "fs_root fs"] by (cases "fs_files fs' (fs_root fs)") auto
  then have "fl_parent f' = Some (fs_root fs)" using same_links_get [OF assms(1) f'] f by auto
  ultimately show ?thesis using f' assms(2) dom root by (simp add: tree_ok_def)
qed

lemma count_of_same_links:
  "same_links fs fs' \<Longrightarrow> fs_files fs p = Some f \<Longrightarrow> fs_files fs' p = Some f' \<Longrightarrow>
   count_of fs' ext p f' = count_of fs ext p f"
  using same_links_get [of fs fs' p f'] same_links_kids [of fs fs' p] by (auto simp: count_of_def)

text \<open>Taking a reference, and releasing one that is not the last.\<close>

lemma fupd_Some [simp]: "fs_files fs p = Some f \<Longrightarrow> fupd p g fs = Some (fs\<lparr>fs_files := (fs_files fs)(p \<mapsto> g f)\<rparr>)"
  by (simp add: fupd_def)

lemma same_links_ref:
  "fs_files fs p = Some f \<Longrightarrow> links g = links f \<Longrightarrow>
   same_links fs (fs\<lparr>fs_files := (fs_files fs)(p \<mapsto> g)\<rparr>)"
  by (auto simp: same_links_def)

lemma refs_ok_update:
  assumes "refs_ok fs ext" "fs_files fs p = Some f" "links g = links f"
    "fl_ref g = fl_ref f - int (ext p) + int k" "0 < fl_ref g"
  shows "refs_ok (fs\<lparr>fs_files := (fs_files fs)(p \<mapsto> g)\<rparr>) (ext(p := k))"
proof -
  let ?fs = "fs\<lparr>fs_files := (fs_files fs)(p \<mapsto> g)\<rparr>"
  note sl = same_links_ref [OF assms(2,3)]
  have "count_of ?fs e q f' = count_of fs e q f0"
    if "fs_files fs q = Some f0" "fs_files ?fs q = Some f'" for q f' f0 e
    using count_of_same_links [OF sl that] .
  then have at_p: "count_of ?fs (ext(p := k)) p g = count_of fs (ext(p := k)) p f"
    and others: "\<And>q f'. q \<noteq> p \<Longrightarrow> fs_files fs q = Some f' \<Longrightarrow>
      count_of ?fs (ext(p := k)) q f' = count_of fs (ext(p := k)) q f'"
    using assms(2) by auto
  have "int (count_of fs (ext(p := k)) p f) = int (count_of fs ext p f) - int (ext p) + int k"
    by (simp add: count_of_def)
  also have "\<dots> = fl_ref g" using assms(1,2,4) by (simp add: refs_ok_def)
  finally have "fl_ref g = int (count_of ?fs (ext(p := k)) p g)" using at_p by simp
  moreover from this have "0 < count_of ?fs (ext(p := k)) p g" using assms(5) by simp
  moreover have "count_of fs (ext(p := k)) q f' = count_of fs ext q f'" if "q \<noteq> p" for q f'
    using that by (simp add: count_of_def)
  ultimately show ?thesis
    using assms(1) others by (auto simp: refs_ok_def)
qed

lemma increff_ok:
  assumes "fs_ok fs ext" "p \<in> dom (fs_files fs)"
  shows "\<exists>fs'. increff p fs = Some fs' \<and> fs_ok fs' (ext(p := ext p + 1)) \<and> same_links fs fs'"
proof -
  obtain f where f: "fs_files fs p = Some f" using assms(2) by auto
  let ?g = "f\<lparr>fl_ref := fl_ref f + 1\<rparr>"
  have sl: "same_links fs (fs\<lparr>fs_files := (fs_files fs)(p \<mapsto> ?g)\<rparr>)"
    using f by (intro same_links_ref) (simp_all add: links_def)
  moreover have "0 < fl_ref f" using assms(1) f by (auto simp: fs_ok_def refs_ok_def)
  then have "refs_ok (fs\<lparr>fs_files := (fs_files fs)(p \<mapsto> ?g)\<rparr>) (ext(p := ext p + 1))"
    using assms(1) f by (intro refs_ok_update) (auto simp: fs_ok_def links_def)
  ultimately show ?thesis
    using f assms(1) same_links_tree_ok by (auto simp: increff_def fs_ok_def)
qed

text \<open>
  Dropping a reference never faults; the file goes exactly when nothing is left that refers to
  it, and then nothing else changes.
\<close>

lemma closefile_ok:
  assumes "fs_ok fs ext" "0 < ext p"
  shows "\<exists>fs'. closefile p fs = Some fs' \<and> fs_ok fs' (ext(p := ext p - 1)) \<and>
    fs_root fs' = fs_root fs \<and> (\<forall>q. q \<noteq> p \<longrightarrow> fs_files fs' q = fs_files fs q) \<and>
    (p \<in> dom (fs_files fs') \<longleftrightarrow> 1 < ext p \<or> kids fs p \<noteq> {} \<or>
      (\<exists>f. fs_files fs p = Some f \<and> fl_parent f \<noteq> None)) \<and>
    (p \<in> dom (fs_files fs') \<longrightarrow> same_links fs fs')"
proof -
  have tree: "tree_ok fs" and refs: "refs_ok fs ext" using assms(1) by (simp_all add: fs_ok_def)
  obtain f where f: "fs_files fs p = Some f" using refs assms(2) by (cases "fs_files fs p") (auto simp: refs_ok_def)
  have lk: "linked_ok fs p f" using tree f by (auto simp: tree_ok_def)
  have fin: "finite (kids fs p)" using lk by (metis linked_ok_def List.finite_set)
  have r: "fl_ref f = int (count_of fs ext p f)" using refs f by (auto simp: refs_ok_def)
  let ?g = "f\<lparr>fl_ref := fl_ref f - 1\<rparr>"
  let ?fs1 = "fs\<lparr>fs_files := (fs_files fs)(p \<mapsto> ?g)\<rparr>"
  show ?thesis
  proof (cases "fl_ref f = 1")
    case False
    then have "1 < fl_ref f" using refs f by (fastforce simp: refs_ok_def)
    then have "refs_ok ?fs1 (ext(p := ext p - 1))"
      using refs f assms(2) by (intro refs_ok_update) (auto simp: links_def of_nat_diff)
    moreover have sl: "same_links fs ?fs1" using f by (intro same_links_ref) (simp_all add: links_def)
    moreover have "closefile p fs = Some ?fs1" using f False by (simp add: closefile_def)
    moreover have "1 < ext p \<or> kids fs p \<noteq> {} \<or> fl_parent f \<noteq> None"
      using r False assms(2) by (auto simp: count_of_def split: if_splits)
    ultimately show ?thesis
      using f tree same_links_tree_ok [OF sl] by (auto simp: fs_ok_def)
  next
    case True
    then have "card (kids fs p) = 0" "fl_parent f = None" "ext p = 1"
      using r assms(2) by (auto simp: count_of_def split: if_splits)
    then have c: "ext p = 1" "kids fs p = {}" "fl_parent f = None" using fin by auto
    let ?fs = "fs\<lparr>fs_files := (fs_files fs)(p := None), fs_destroyed := fs_destroyed fs @ [p]\<rparr>"
    have "entries (fl_list f) = []" using lk c(2) by (simp add: linked_ok_def)
    then have "list_all (\<lambda>n. snd n = None) (fl_list f)" by (rule entries_Nil)
    then have cl: "closefile p fs = Some ?fs"
      using f True by (simp add: closefile_def freefile_def assertion_def)
    have nroot: "p \<noteq> fs_root fs" using tree f c(3) by (auto simp: tree_ok_def)
    have k: "kids ?fs q = kids fs q" for q
      using f c(3) by (auto simp: kids_def)
    have notp: "p \<notin> kids fs q" for q using f c(3) by (simp add: kids_def)
    have ents: "p \<notin> set (entries (fl_list g))" if "fs_files fs q = Some g" for q g
    proof -
      have "linked_ok fs q g" using tree that by (simp add: tree_ok_def)
      then show ?thesis using notp by (simp add: linked_ok_def)
    qed
    have par: "fl_parent g \<noteq> Some p" if "fs_files fs q = Some g" "q \<noteq> p" for q g
      using c(2) that by (auto simp: kids_def)
    have "linked_ok ?fs q g" if "fs_files ?fs q = Some g" for q g
    proof -
      have q: "fs_files fs q = Some g" "q \<noteq> p" using that by (auto split: if_splits)
      have eq: "map (fname ?fs) (entries (fl_list g)) = map (fname fs) (entries (fl_list g))"
        using ents [OF q(1)] by (auto simp: fname_def)
      have lq: "linked_ok fs q g" using tree q by (simp add: tree_ok_def)
      then have "distinct (map (fname ?fs) (entries (fl_list g)))" by (subst eq) (simp add: linked_ok_def)
      then show ?thesis using lq par [OF q] k by (auto simp: linked_ok_def)
    qed
    then have "tree_ok ?fs" using tree nroot by (simp add: tree_ok_def)
    moreover have "refs_ok ?fs (ext(p := ext p - 1))"
      using refs c(1) k by (auto simp: refs_ok_def count_of_def)
    ultimately show ?thesis using cl c f by (auto simp: fs_ok_def)
  qed
qed

text \<open>
  The blank spots of a list, and the other fields no reference depends on: an update that keeps
  the count, the parent, the entries and the names keeps the invariant.
\<close>

lemma fs_ok_update:
  assumes "fs_ok fs ext" "fs_files fs p = Some f" "fl_ref g = fl_ref f" "fl_parent g = fl_parent f"
    "entries (fl_list g) = entries (fl_list f)" "fl_nchild g = fl_nchild f"
    "fl_nxchild g = int (length (fl_list g)) - int (length (entries (fl_list g)))"
    "distinct (map fst (fl_list g))" "\<forall>n \<in> set (fl_list g). fst n < fs_next fs"
    "d_name (fl_dir g) = d_name (fl_dir f)" "d_uid (fl_dir g) \<noteq> None" "d_gid (fl_dir g) \<noteq> None"
  shows "fs_ok (fs\<lparr>fs_files := (fs_files fs)(p \<mapsto> g)\<rparr>) ext"
proof -
  let ?fs = "fs\<lparr>fs_files := (fs_files fs)(p \<mapsto> g)\<rparr>"
  have tree: "tree_ok fs" and refs: "refs_ok fs ext" using assms(1) by (simp_all add: fs_ok_def)
  have k: "kids ?fs q = kids fs q" for q using assms(2,4) by (auto simp: kids_def)
  have n: "fname ?fs = fname fs" using assms(2,10) by (auto simp: fname_def)
  have d: "dom ((fs_files fs)(p \<mapsto> g)) = dom (fs_files fs)" using assms(2) by auto
  have "linked_ok ?fs q f'" if "fs_files ?fs q = Some f'" for q f'
  proof (cases "q = p")
    case True
    moreover have "linked_ok fs p f" using tree assms(2) by (simp add: tree_ok_def)
    ultimately show ?thesis using that k n d assms(4-12) by (simp add: linked_ok_def)
  next
    case False
    then have "linked_ok fs q f'" using tree that by (simp add: tree_ok_def)
    then show ?thesis using k n d by (simp add: linked_ok_def)
  qed
  then have "tree_ok ?fs" using tree d assms(2,4) by (auto simp: tree_ok_def)
  moreover have "refs_ok ?fs ext" using refs k assms(2-4) by (auto simp: refs_ok_def count_of_def)
  ultimately show ?thesis by (simp add: fs_ok_def)
qed

lemma cleanfilelist_ok:
  assumes "fs_ok fs ext" "fs_files fs p = Some f"
  shows "\<exists>fs'. cleanfilelist p fs = Some fs' \<and> fs_ok fs' ext \<and> dom (fs_files fs') = dom (fs_files fs) \<and>
    (\<forall>q. q \<noteq> p \<longrightarrow> fs_files fs' q = fs_files fs q) \<and> fs_root fs' = fs_root fs"
proof (cases "fl_readers f \<noteq> 0 \<or> fl_nxchild f = 0")
  case True
  with assms show ?thesis by (auto simp: cleanfilelist_def)
next
  case False
  let ?g = "f\<lparr>fl_list := filter (\<lambda>n. snd n \<noteq> None) (fl_list f), fl_nxchild := 0\<rparr>"
  have lk: "linked_ok fs p f" using assms by (simp add: fs_ok_def tree_ok_def)
  then have "fs_ok (fs\<lparr>fs_files := (fs_files fs)(p \<mapsto> ?g)\<rparr>) ext"
    by (intro fs_ok_update [OF assms(1,2)])
      (auto simp: linked_ok_def length_filter_entries [simplified] distinct_map_filter entries_filter [simplified])
  with False assms(2) show ?thesis by (auto simp: cleanfilelist_def)
qed

text \<open>Unlinking a child leaves two references to account for: the entry's and the child's own.\<close>

lemma clear_entry_ok:
  "p \<in> set (entries l) \<Longrightarrow> distinct (entries l) \<Longrightarrow>
   \<exists>l'. clear_entry p l = Some l' \<and> entries l' = removeAll p (entries l) \<and> map fst l' = map fst l \<and>
     length (entries l) = Suc (length (entries l'))"
proof (induction l)
  case (Cons n l)
  obtain i e where n: "n = (i, e)" by (cases n)
  show ?case
  proof (cases e)
    case None
    with Cons n show ?thesis by auto
  next
    case (Some c)
    show ?thesis
    proof (cases "c = p")
      case True
      with Cons.prems n Some show ?thesis by (simp add: removeAll_id)
    next
      case False
      with Cons n Some show ?thesis by auto
    qed
  qed
qed simp

lemma unlink_ok:
  assumes "fs_ok fs ext" "fs_files fs p = Some f" "fl_parent f = Some fp" "fp \<noteq> p" "fs_files fs fp = Some d"
    "clear_entry p (fl_list d) = Some l"
  defines "fs' \<equiv> fs\<lparr>fs_files := (fs_files fs)
      (fp \<mapsto> d\<lparr>fl_list := l, fl_nchild := fl_nchild d - 1, fl_nxchild := fl_nxchild d + 1\<rparr>,
       p \<mapsto> f\<lparr>fl_parent := None\<rparr>)\<rparr>"
  shows "fs_ok fs' (ext(fp := ext fp + 1, p := ext p + 1))"
proof -
  let ?d = "d\<lparr>fl_list := l, fl_nchild := fl_nchild d - 1, fl_nxchild := fl_nxchild d + 1\<rparr>"
  have tree: "tree_ok fs" and refs: "refs_ok fs ext" using assms(1) by (simp_all add: fs_ok_def)
  have lk: "linked_ok fs q g" if "fs_files fs q = Some g" for q g
    using tree that by (simp add: tree_ok_def)
  have pk: "p \<in> kids fs fp" using assms(2-4) by (simp add: kids_def)
  then have "p \<in> set (entries (fl_list d))" using lk [OF assms(5)] by (simp add: linked_ok_def)
  then obtain l' where "clear_entry p (fl_list d) = Some l'" "entries l' = removeAll p (entries (fl_list d))"
      "map fst l' = map fst (fl_list d)" "length (entries (fl_list d)) = Suc (length (entries l'))"
    using clear_entry_ok lk [OF assms(5)] unfolding linked_ok_def by blast
  then have l: "entries l = removeAll p (entries (fl_list d))" "map fst l = map fst (fl_list d)"
    and len: "length (entries (fl_list d)) = Suc (length (entries l))"
    using assms(6) by simp_all
  have len': "length l = length (fl_list d)" by (metis l(2) length_map)
  have fsts: "(\<forall>n \<in> set l. fst n < fs_next fs) = (\<forall>n \<in> set (fl_list d). fst n < fs_next fs)"
  proof -
    have "(\<forall>x \<in> set (map fst l). x < fs_next fs) = (\<forall>x \<in> set (map fst (fl_list d)). x < fs_next fs)"
      by (simp only: l(2))
    then show ?thesis by simp
  qed
  have k: "kids fs' q = (if q = fp then kids fs fp - {p} else kids fs q)" for q
    using assms(2-5) by (auto simp: kids_def fs'_def)
  have n: "fname fs' = fname fs" using assms(2,5) by (auto simp: fname_def fs'_def)
  have dm: "dom (fs_files fs') = dom (fs_files fs)" "fs_next fs' = fs_next fs" "fs_root fs' = fs_root fs"
    using assms(2,5) by (auto simp: fs'_def)
  have nroot: "p \<noteq> fs_root fs" using tree assms(2-4) by (auto simp: tree_ok_def)
  have inj: "inj_on (fname fs) (kids fs fp - {p})"
    using lk [OF assms(5)] unfolding linked_ok_def by (metis distinct_map inj_on_diff)
  have "linked_ok fs' q g" if qg: "fs_files fs' q = Some g" for q g
  proof -
    consider "q = p" "g = f\<lparr>fl_parent := None\<rparr>" | "q = fp" "g = ?d" | "q \<noteq> p" "q \<noteq> fp" "fs_files fs q = Some g"
      using qg assms(4) by (auto simp: fs'_def split: if_splits)
    then show ?thesis
    proof cases
      case 1
      then show ?thesis using lk [OF assms(2)] k n dm assms(4) by (simp add: linked_ok_def)
    next
      case 2
      then show ?thesis using lk [OF assms(5)] k [of fp] n dm l len len' fsts
        by (simp add: linked_ok_def distinct_removeAll distinct_map inj)
    next
      case 3
      then show ?thesis using lk [OF 3(3)] k n dm by (simp add: linked_ok_def)
    qed
  qed
  moreover obtain r where "fs_files fs (fs_root fs) = Some r" "fl_parent r = Some (fs_root fs)"
    using tree by (auto simp: tree_ok_def)
  then have "\<exists>r. fs_files fs' (fs_root fs) = Some r \<and> fl_parent r = Some (fs_root fs)"
    using nroot assms(5) by (auto simp: fs'_def)
  moreover have "finite (dom (fs_files fs'))" using tree dm by (simp add: tree_ok_def)
  ultimately have tree': "tree_ok fs'" using dm by (simp add: tree_ok_def)
  have fin: "finite (kids fs fp)" using lk [OF assms(5)] by (metis linked_ok_def List.finite_set)
  then have cd: "card (kids fs fp) = Suc (card (kids fs fp - {p}))" using pk by (metis card.remove)
  let ?ext = "ext(fp := ext fp + 1, p := ext p + 1)"
  have "count_of fs' ?ext p (f\<lparr>fl_parent := None\<rparr>) = count_of fs ext p f"
    using assms(3,4) k by (simp add: count_of_def)
  moreover have "count_of fs' ?ext fp ?d = count_of fs ext fp d"
    using assms(4) k cd by (simp add: count_of_def)
  moreover have "count_of fs' ?ext q g = count_of fs ext q g" if "q \<noteq> p" "q \<noteq> fp" for q g
    using that k by (simp add: count_of_def)
  moreover have "fs_files fs' q = None \<longleftrightarrow> fs_files fs q = None" for q
    using assms(2,5) by (simp add: fs'_def)
  ultimately have "refs_ok fs' ?ext"
    using refs assms(2,4,5) by (auto simp: refs_ok_def fs'_def split: if_splits)
  with tree' show ?thesis by (simp add: fs_ok_def)
qed

lemma closefile_drop:
  assumes "fs_ok fs ext" "0 < ext p" "ext' = ext(p := ext p - 1)"
  shows "\<exists>fs'. closefile p fs = Some fs' \<and> fs_ok fs' ext' \<and> fs_root fs' = fs_root fs"
  using closefile_ok [OF assms(1,2)] assms(3) by blast

text \<open>Neither the release of a reference nor the cleaning of a list changes who is whose child.\<close>

lemma closefile_kids:
  assumes "fs_ok fs ext" "0 < ext p" "closefile p fs = Some fs'"
  shows "kids fs' q = kids fs q"
proof -
  have c: "\<forall>q. q \<noteq> p \<longrightarrow> fs_files fs' q = fs_files fs q"
    "p \<in> dom (fs_files fs') \<longleftrightarrow> 1 < ext p \<or> kids fs p \<noteq> {} \<or> (\<exists>f. fs_files fs p = Some f \<and> fl_parent f \<noteq> None)"
    "p \<in> dom (fs_files fs') \<longrightarrow> same_links fs fs'"
    using closefile_ok [OF assms(1,2)] assms(3) by auto
  show ?thesis
  proof (cases "p \<in> dom (fs_files fs')")
    case True
    then show ?thesis using same_links_kids c(3) by blast
  next
    case False
    then have "fs_files fs' p = None" "\<And>f. fs_files fs p = Some f \<Longrightarrow> fl_parent f = None" using c(2) by auto
    then have "(\<exists>f. fs_files fs' x = Some f \<and> fl_parent f = Some q \<and> x \<noteq> q) \<longleftrightarrow>
        (\<exists>f. fs_files fs x = Some f \<and> fl_parent f = Some q \<and> x \<noteq> q)" for x
      using c(1) by (cases "x = p") auto
    then show ?thesis unfolding kids_def by simp
  qed
qed

definition fshape :: "fnode \<Rightarrow> Dir \<times> filep option \<times> filep list" where
  "fshape f = (fl_dir f, fl_parent f, entries (fl_list f))"

lemma cleanfilelist_shape:
  "cleanfilelist p fs = Some fs' \<Longrightarrow> map_option fshape (fs_files fs' q) = map_option fshape (fs_files fs q)"
  by (auto simp: cleanfilelist_def fupd_def fshape_def entries_filter [simplified] split: if_splits bind_splits)

lemma shape_kids: "(\<And>q. map_option fshape (fs_files fs' q) = map_option fshape (fs_files fs q)) \<Longrightarrow> kids fs' p = kids fs p"
proof -
  assume a: "\<And>q. map_option fshape (fs_files fs' q) = map_option fshape (fs_files fs q)"
  have "(\<exists>f. fs_files fs' q = Some f \<and> fl_parent f = Some p \<and> q \<noteq> p) \<longleftrightarrow> (\<exists>f. fs_files fs q = Some f \<and> fl_parent f = Some p \<and> q \<noteq> p)" for q
    using a [of q] by (cases "fs_files fs' q"; cases "fs_files fs q") (auto simp: fshape_def)
  then show ?thesis unfolding kids_def by simp
qed

lemma closefile_shape:
  assumes "fs_ok fs ext" "0 < ext p" "closefile p fs = Some fs'" "p \<in> dom (fs_files fs')"
  shows "map_option fshape (fs_files fs' q) = map_option fshape (fs_files fs q)"
proof -
  have "same_links fs fs'" using closefile_ok [OF assms(1,2)] assms(3,4) by auto
  then have "map_option links (fs_files fs q) = map_option links (fs_files fs' q)" by (simp add: same_links_def)
  then show ?thesis by (cases "fs_files fs q"; cases "fs_files fs' q") (auto simp: links_def fshape_def)
qed

text \<open>
  What a removal leaves: the file has no parent and lives on only in the hands of others; its parent
  has lost the one entry, or is gone if it was itself removed, held by nobody and without other children;
  every other file is as it was.
\<close>

definition file_removed :: "filep \<Rightarrow> filep \<Rightarrow> (filep \<Rightarrow> nat) \<Rightarrow> fs \<Rightarrow> fs \<Rightarrow> bool" where
  "file_removed p fp ext fs fs' \<longleftrightarrow>
     kids fs' fp = kids fs fp - {p} \<and> (\<forall>q. q \<noteq> p \<longrightarrow> q \<noteq> fp \<longrightarrow> fs_files fs' q = fs_files fs q) \<and>
     (case fs_files fs' p of None \<Rightarrow> ext p = 1 | Some f' \<Rightarrow> 1 < ext p \<and> fl_parent f' = None) \<and>
     (case fs_files fs fp of None \<Rightarrow> False | Some d \<Rightarrow>
        (case fs_files fs' fp of
           None \<Rightarrow> ext fp = 0 \<and> kids fs fp = {p} \<and> fl_parent d = None
         | Some d' \<Rightarrow> fshape d' = (fl_dir d, fl_parent d, removeAll p (entries (fl_list d)))))"

lemma removefile_fails:
  assumes "fs_ok fs ext" "0 < ext p" "closefile p fs = Some fs'"
  shows "(\<forall>q. q \<noteq> p \<longrightarrow> fs_files fs' q = fs_files fs q) \<and> (p \<in> dom (fs_files fs') \<longrightarrow> same_links fs fs')"
  using closefile_ok [OF assms(1,2)] assms(3) by auto

lemma unlinked:
  assumes ok: "fs_ok fs ext" and ext: "0 < ext p" and f: "fs_files fs p = Some f" "fl_parent f = Some fp" "fp \<noteq> p"
    and k: "kids fs p = {}" and d: "fs_files fs fp = Some d" and l: "clear_entry p (fl_list d) = Some l"
  defines "fs1 \<equiv> fs\<lparr>fs_files := (fs_files fs)(fp \<mapsto> d\<lparr>fl_list := l, fl_nchild := fl_nchild d - 1, fl_nxchild := fl_nxchild d + 1\<rparr>,
      p \<mapsto> f\<lparr>fl_parent := None\<rparr>)\<rparr>"
  shows "\<exists>fs2 fs3 fs4 fs5. cleanfilelist fp fs1 = Some fs2 \<and> closefile fp fs2 = Some fs3 \<and> closefile p fs3 = Some fs4 \<and>
    closefile p fs4 = Some fs5 \<and> fs_ok fs5 (ext(p := ext p - 1)) \<and> fs_root fs5 = fs_root fs \<and> file_removed p fp ext fs fs5"
proof -
  have tree: "tree_ok fs" using ok by (simp add: fs_ok_def)
  have lkd: "linked_ok fs fp d" using tree d by (simp add: tree_ok_def)
  have pk: "p \<in> kids fs fp" using f by (simp add: kids_def)
  then have "p \<in> set (entries (fl_list d))" "distinct (entries (fl_list d))" using lkd by (simp_all add: linked_ok_def)
  from clear_entry_ok [OF this] l have ents: "entries l = removeAll p (entries (fl_list d))" by auto
  let ?ext1 = "ext(fp := ext fp + 1, p := ext p + 1)"
  have ok1: "fs_ok fs1 ?ext1" unfolding fs1_def using unlink_ok [OF ok f d l] .
  have at1: "fs_files fs1 fp = Some (d\<lparr>fl_list := l, fl_nchild := fl_nchild d - 1, fl_nxchild := fl_nxchild d + 1\<rparr>)"
      "fs_files fs1 p = Some (f\<lparr>fl_parent := None\<rparr>)" "\<And>q. q \<noteq> p \<Longrightarrow> q \<noteq> fp \<Longrightarrow> fs_files fs1 q = fs_files fs q"
    using f(3) by (simp_all add: fs1_def)
  have k1: "kids fs1 q = (if q = fp then kids fs fp - {p} else kids fs q)" for q
    using f d by (auto simp: kids_def fs1_def)
  obtain fs2 where fs2: "cleanfilelist fp fs1 = Some fs2" "fs_ok fs2 ?ext1" "fs_root fs2 = fs_root fs1"
      "\<And>q. q \<noteq> fp \<Longrightarrow> fs_files fs2 q = fs_files fs1 q"
    using cleanfilelist_ok [OF ok1 at1(1)] by blast
  note sh2 = cleanfilelist_shape [OF fs2(1)]
  have k2: "kids fs2 q = kids fs1 q" for q by (rule shape_kids [OF sh2])
  obtain d2 where d2: "fs_files fs2 fp = Some d2" "fshape d2 = (fl_dir d, fl_parent d, removeAll p (entries (fl_list d)))"
    using sh2 [of fp] at1(1) ents by (auto simp: fshape_def)
  have e1: "0 < ?ext1 fp" "ext(p := ext p + 1) = ?ext1(fp := ?ext1 fp - 1)" using f(3) by (auto simp: fun_eq_iff)
  obtain fs3 where fs3: "closefile fp fs2 = Some fs3" "fs_ok fs3 (ext(p := ext p + 1))" "fs_root fs3 = fs_root fs2"
      "\<And>q. q \<noteq> fp \<Longrightarrow> fs_files fs3 q = fs_files fs2 q"
      "fp \<in> dom (fs_files fs3) \<longleftrightarrow> 1 < ?ext1 fp \<or> kids fs2 fp \<noteq> {} \<or> (\<exists>f. fs_files fs2 fp = Some f \<and> fl_parent f \<noteq> None)"
    using closefile_ok [OF fs2(2) e1(1)] unfolding e1(2) [symmetric] by blast
  note k3 = closefile_kids [OF fs2(2) e1(1) fs3(1)]
  let ?ext3 = "ext(p := ext p + 1)"
  have e3: "0 < ?ext3 p" "ext = ?ext3(p := ?ext3 p - 1)" by (auto simp: fun_eq_iff)
  obtain fs4 where fs4: "closefile p fs3 = Some fs4" "fs_ok fs4 ext" "fs_root fs4 = fs_root fs3"
      "\<And>q. q \<noteq> p \<Longrightarrow> fs_files fs4 q = fs_files fs3 q"
      "p \<in> dom (fs_files fs4)"
    using closefile_ok [OF fs3(2) e3(1)] ext unfolding e3(2) [symmetric] by auto
  note k4 = closefile_kids [OF fs3(2) e3(1) fs4(1)]
  obtain fs5 where fs5: "closefile p fs4 = Some fs5" "fs_ok fs5 (ext(p := ext p - 1))" "fs_root fs5 = fs_root fs4"
      "\<And>q. q \<noteq> p \<Longrightarrow> fs_files fs5 q = fs_files fs4 q"
      "p \<in> dom (fs_files fs5) \<longleftrightarrow> 1 < ext p \<or> kids fs4 p \<noteq> {} \<or> (\<exists>f. fs_files fs4 p = Some f \<and> fl_parent f \<noteq> None)"
      "p \<in> dom (fs_files fs5) \<longrightarrow> same_links fs4 fs5"
    using closefile_ok [OF fs4(2) ext] by blast
  note k5 = closefile_kids [OF fs4(2) ext fs5(1)]
  have par3: "fs_files fs3 p = Some (f\<lparr>fl_parent := None\<rparr>)" using fs3(4) fs2(4) at1(2) f(3) by simp
  have par4: "fl_parent f4 = None" if "fs_files fs4 p = Some f4" for f4
    using closefile_shape [OF fs3(2) e3(1) fs4(1,5), of p] that par3 by (simp add: fshape_def)
  have par5: "fl_parent f5 = None" if "fs_files fs5 p = Some f5" for f5
  proof -
    have dm: "p \<in> dom (fs_files fs5)" using that by blast
    obtain f4 where "fs_files fs4 p = Some f4" using fs4(5) by blast
    then show ?thesis using closefile_shape [OF fs4(2) ext fs5(1) dm, of p] that par4 by (simp add: fshape_def)
  qed
  have kp: "kids fs4 p = {}" using k4 k3 k2 k1 k f(3) by simp
  have at_p: "case fs_files fs5 p of None \<Rightarrow> ext p = 1 | Some f' \<Rightarrow> 1 < ext p \<and> fl_parent f' = None"
    using fs5(5) kp par4 par5 ext by (auto split: option.splits)
  have same: "fs_files fs5 fp = fs_files fs3 fp" using fs5(4) fs4(4) f(3) by simp
  have "case fs_files fs5 fp of None \<Rightarrow> ext fp = 0 \<and> kids fs fp = {p} \<and> fl_parent d = None
      | Some d' \<Rightarrow> fshape d' = (fl_dir d, fl_parent d, removeAll p (entries (fl_list d)))"
  proof (cases "fs_files fs3 fp")
    case None
    then have "ext fp = 0" "kids fs2 fp = {}" "fl_parent d2 = None" using fs3(5) d2(1) f(3) by auto
    moreover have "fl_parent d2 = fl_parent d" using d2(2) by (simp add: fshape_def)
    moreover have "kids fs fp - {p} = {}" using calculation(2) k2 k1 by simp
    then have "kids fs fp = {p}" using pk by blast
    ultimately show ?thesis using None same by simp
  next
    case (Some d3)
    then have "fp \<in> dom (fs_files fs3)" by blast
    from closefile_shape [OF fs2(2) e1(1) fs3(1) this, of fp] show ?thesis using Some d2 same by simp
  qed
  moreover have "kids fs5 fp = kids fs fp - {p}" using k5 k4 k3 k2 k1 by simp
  moreover have "fs_files fs5 q = fs_files fs q" if "q \<noteq> p" "q \<noteq> fp" for q
    using that fs5(4) fs4(4) fs3(4) fs2(4) at1(3) by simp
  ultimately have "file_removed p fp ext fs fs5" using at_p d unfolding file_removed_def by simp
  moreover have "fs_root fs5 = fs_root fs" using fs5(3) fs4(3) fs3(3) fs2(3) by (simp add: fs1_def)
  ultimately show ?thesis using fs2(1) fs3(1) fs4(1) fs5(1,2) by blast
qed

lemma removefile_ok:
  assumes "fs_ok fs ext" "0 < ext p" "fs_files fs p = Some f"
  shows "\<exists>e fs'. removefile p fs = Some (e, fs') \<and> fs_ok fs' (ext(p := ext p - 1)) \<and> fs_root fs' = fs_root fs \<and>
    (case fl_parent f of
       Some fp \<Rightarrow>
         if fp \<noteq> p \<and> kids fs p = {} then e = None \<and> file_removed p fp ext fs fs'
         else e \<noteq> None \<and> (\<forall>q. q \<noteq> p \<longrightarrow> fs_files fs' q = fs_files fs q) \<and> same_links fs fs'
     | None \<Rightarrow> e \<noteq> None \<and> (\<forall>q. q \<noteq> p \<longrightarrow> fs_files fs' q = fs_files fs q) \<and> (p \<in> dom (fs_files fs') \<longrightarrow> same_links fs fs'))"
proof -
  have tree: "tree_ok fs" using assms(1) by (simp add: fs_ok_def)
  have lk: "linked_ok fs p f" using tree assms(3) by (simp add: tree_ok_def)
  have nk: "fl_nchild f = 0 \<longleftrightarrow> kids fs p = {}" using lk by (auto simp: linked_ok_def)
  obtain fs' where cl: "closefile p fs = Some fs'" "fs_ok fs' (ext(p := ext p - 1))" "fs_root fs' = fs_root fs"
      "\<forall>q. q \<noteq> p \<longrightarrow> fs_files fs' q = fs_files fs q"
      "p \<in> dom (fs_files fs') \<longleftrightarrow> 1 < ext p \<or> kids fs p \<noteq> {} \<or> (\<exists>f. fs_files fs p = Some f \<and> fl_parent f \<noteq> None)"
      "p \<in> dom (fs_files fs') \<longrightarrow> same_links fs fs'"
    using closefile_ok [OF assms(1,2)] by blast
  have stays: "same_links fs fs'" if "fl_parent f \<noteq> None" using cl(5,6) that assms(3) by auto
  consider (none) "fl_parent f = None" | (root) "fl_parent f = Some p"
    | (kids) fp where "fl_parent f = Some fp" "fp \<noteq> p" "fl_nchild f \<noteq> 0"
    | (ok) fp where "fl_parent f = Some fp" "fp \<noteq> p" "fl_nchild f = 0"
    by (cases "fl_parent f") auto
  then show ?thesis
  proof cases
    case none
    then show ?thesis using cl(1-4,6) assms(3) by (simp add: removefile_def)
  next
    case root
    then show ?thesis using cl(1-4) stays assms(3) by (simp add: removefile_def)
  next
    case (kids fp)
    then obtain d where "fs_files fs fp = Some d" using lk by (auto simp: linked_ok_def)
    with kids assms(3) cl(1-4) stays nk show ?thesis by (simp add: removefile_def)
  next
    case (ok fp)
    then obtain d where d: "fs_files fs fp = Some d" using lk by (auto simp: linked_ok_def)
    then have "linked_ok fs fp d" using tree by (simp add: tree_ok_def)
    moreover have "p \<in> kids fs fp" using assms(3) ok by (simp add: kids_def)
    ultimately obtain l where l: "clear_entry p (fl_list d) = Some l"
      using clear_entry_ok [of p "fl_list d"] by (auto simp: linked_ok_def)
    have k: "kids fs p = {}" using ok(3) nk by simp
    from unlinked [OF assms(1,2,3) ok(1,2) k d l] obtain fs2 fs3 fs4 fs5 where
      r: "cleanfilelist fp (fs\<lparr>fs_files := (fs_files fs)(fp \<mapsto> d\<lparr>fl_list := l, fl_nchild := fl_nchild d - 1, fl_nxchild := fl_nxchild d + 1\<rparr>,
          p \<mapsto> f\<lparr>fl_parent := None\<rparr>)\<rparr>) = Some fs2" "closefile fp fs2 = Some fs3" "closefile p fs3 = Some fs4"
        "closefile p fs4 = Some fs5" "fs_ok fs5 (ext(p := ext p - 1))" "fs_root fs5 = fs_root fs" "file_removed p fp ext fs fs5"
      by blast
    have "removefile p fs = Some (None, fs5)"
      using assms(3) ok d l r(1-4) by (simp add: removefile_def)
    then show ?thesis using r(5-7) ok k by simp
  qed
qed

text \<open>Searching a directory by name.\<close>

lemma find_name_ok:
  "\<forall>c \<in> set (entries l). fname fs c \<noteq> None \<Longrightarrow>
   \<exists>r. find_name fs l name = Some r \<and>
     (case r of None \<Rightarrow> \<forall>c \<in> set (entries l). fname fs c \<noteq> Some name
      | Some c \<Rightarrow> c \<in> set (entries l) \<and> fname fs c = Some name)"
proof (induction l)
  case (Cons n l)
  obtain i e where n: "n = (i, e)" by (cases n)
  show ?case
  proof (cases e)
    case None
    show ?thesis using Cons unfolding n None by (simp only: find_name.simps entries_simps)
  next
    case (Some c)
    with Cons.prems n obtain f x where f: "fs_files fs c = Some f" "d_name (fl_dir f) = Some x"
      by (auto simp: fname_def split: option.splits)
    then have fn: "fname fs c = Some x" by (simp add: fname_def)
    obtain r where r: "find_name fs l name = Some r"
      "case r of None \<Rightarrow> \<forall>c \<in> set (entries l). fname fs c \<noteq> Some name
      | Some c \<Rightarrow> c \<in> set (entries l) \<and> fname fs c = Some name"
      using Cons n Some by auto
    then show ?thesis
      using n Some f fn by (cases "x = name") (auto simp: streq_def split: option.splits)
  qed
qed simp

lemma tree_ok_names: "tree_ok fs \<Longrightarrow> fs_files fs p = Some d \<Longrightarrow> c \<in> set (entries (fl_list d)) \<Longrightarrow> fname fs c \<noteq> None"
proof -
  assume a: "tree_ok fs" "fs_files fs p = Some d" "c \<in> set (entries (fl_list d))"
  then have "c \<in> kids fs p" by (simp add: tree_ok_def linked_ok_def)
  then obtain f where f: "fs_files fs c = Some f" by (auto simp: kids_def)
  with a(1) have "linked_ok fs c f" by (simp add: tree_ok_def)
  with f show ?thesis by (simp add: fname_def linked_ok_def)
qed

lemma search_dir:
  assumes "tree_ok fs" "fs_files fs p = Some d"
  obtains r where "find_name fs (fl_list d) name = Some r"
    "r = None \<longleftrightarrow> (\<forall>c \<in> kids fs p. fname fs c \<noteq> Some name)"
    "\<And>c. r = Some c \<Longrightarrow> c \<in> kids fs p \<and> fname fs c = Some name"
proof -
  have k: "set (entries (fl_list d)) = kids fs p" using assms by (simp add: tree_ok_def linked_ok_def)
  obtain r where "find_name fs (fl_list d) name = Some r"
      "case r of None \<Rightarrow> \<forall>c \<in> kids fs p. fname fs c \<noteq> Some name
       | Some c \<Rightarrow> c \<in> kids fs p \<and> fname fs c = Some name"
    using find_name_ok [of "fl_list d" fs name] tree_ok_names [OF assms] unfolding k by blast
  then show ?thesis by (cases r) (auto intro: that)
qed

text \<open>Linking a new child.\<close>

lemma link_ok:
  fixes qg :: u32int
  assumes "fs_ok fs ext" "fs_files fs fp = Some d" "fs_next fs \<le> n" "n < p"
    "\<forall>c \<in> kids fs fp. fname fs c \<noteq> d_name dir"
    "d_name dir \<noteq> None" "d_uid dir \<noteq> None" "d_gid dir \<noteq> None"
  defines "f \<equiv> zero_file\<lparr>fl_dir := dir, fl_parent := Some fp, fl_ref := 2\<rparr>"
    and "g \<equiv> d\<lparr>fl_ref := fl_ref d + 1, fl_list := fl_list d @ [(n, Some p)], fl_nchild := fl_nchild d + 1\<rparr>"
  defines "fs' \<equiv> fs\<lparr>fs_files := (fs_files fs)(p \<mapsto> f, fp \<mapsto> g), fs_next := p + 1, fs_qidgen := qg\<rparr>"
  shows "fs_ok fs' (ext(p := 1))"
proof -
  have tree: "tree_ok fs" and refs: "refs_ok fs ext" using assms(1) by (simp_all add: fs_ok_def)
  have lk: "linked_ok fs q h" if "fs_files fs q = Some h" for q h
    using tree that by (simp add: tree_ok_def)
  have new: "fs_files fs p = None"
  proof (rule ccontr)
    assume "fs_files fs p \<noteq> None"
    then obtain h where "fs_files fs p = Some h" by blast
    from lk [OF this] assms(3,4) show False by (simp add: linked_ok_def)
  qed
  then have pfp: "p \<noteq> fp" using assms(2) by auto
  have nopar: "fl_parent h \<noteq> Some p" if "fs_files fs q = Some h" for q h
    using lk [OF that] new by (auto simp: linked_ok_def)
  have kp: "kids fs p = {}" using nopar by (auto simp: kids_def)
  have pk: "p \<notin> kids fs q" for q using new by (auto simp: kids_def)
  have k: "kids fs' q = (if q = fp then insert p (kids fs fp) else kids fs q)" for q
    using new assms(2) pfp nopar by (auto simp: kids_def fs'_def f_def g_def zero_file_def split: if_splits)
  have n: "fname fs' c = (if c = p then d_name dir else fname fs c)" for c
    using new assms(2) pfp by (auto simp: fname_def fs'_def f_def g_def)
  have nm: "map (fname fs') cs = map (fname fs) cs" if "set cs \<subseteq> kids fs q" for cs q
    using n pk that by auto
  have dm: "dom (fs_files fs') = insert p (dom (fs_files fs))" "fs_next fs' = p + 1" "fs_root fs' = fs_root fs"
    using assms(2) by (auto simp: fs'_def)
  have "linked_ok fs' q h" if qh: "fs_files fs' q = Some h" for q h
  proof -
    consider "q = p" "h = f" | "q = fp" "h = g" | "q \<noteq> p" "q \<noteq> fp" "fs_files fs q = Some h"
      using qh pfp by (auto simp: fs'_def split: if_splits)
    then show ?thesis
    proof cases
      case 1
      then show ?thesis
        using k kp pfp dm assms(2,6-8) by (auto simp: linked_ok_def f_def zero_file_def)
    next
      case 2
      have l: "linked_ok fs fp d" by (rule lk [OF assms(2)])
      then have e: "set (entries (fl_list d)) = kids fs fp" by (simp add: linked_ok_def)
      have "distinct (map (fname fs) (entries (fl_list d)))" using l by (simp add: linked_ok_def)
      moreover have ml: "map (fname fs') (entries (fl_list d)) = map (fname fs) (entries (fl_list d))"
        using nm e by blast
      moreover have "d_name dir \<notin> fname fs ` kids fs fp" using assms(5) by force
      moreover from ml have m: "map (fname fs') (entries (fl_list g)) =
          map (fname fs) (entries (fl_list d)) @ [d_name dir]"
        using n [of p] by (simp add: g_def)
      ultimately have "distinct (map (fname fs') (entries (fl_list g)))"
        unfolding m using e by simp
      moreover have "n \<notin> set (map fst (fl_list d))" using l assms(3) by (fastforce simp: linked_ok_def)
      ultimately show ?thesis
        using 2 l k [of fp] pk dm assms(3,4) by (auto simp: linked_ok_def g_def)
    next
      case 3
      have l: "linked_ok fs q h" by (rule lk [OF 3(3)])
      then have "distinct (map (fname fs') (entries (fl_list h)))"
        by (subst nm [of _ q]) (simp_all add: linked_ok_def)
      then show ?thesis using l 3 k dm assms(3,4) by (auto simp: linked_ok_def)
    qed
  qed
  moreover obtain r where "fs_files fs (fs_root fs) = Some r" "fl_parent r = Some (fs_root fs)"
    using tree by (auto simp: tree_ok_def)
  then have "\<exists>r. fs_files fs' (fs_root fs) = Some r \<and> fl_parent r = Some (fs_root fs)"
    using new assms(2) by (auto simp: fs'_def g_def)
  moreover have "finite (dom (fs_files fs'))" using tree dm by (simp add: tree_ok_def)
  ultimately have tree': "tree_ok fs'" using dm by (simp add: tree_ok_def)
  have "finite (kids fs fp)" using lk [OF assms(2)] by (metis linked_ok_def List.finite_set)
  then have "count_of fs' (ext(p := 1)) fp g = Suc (count_of fs ext fp d)"
    using k pfp pk by (simp add: count_of_def g_def)
  moreover have "count_of fs' (ext(p := 1)) p f = 2" using k kp pfp by (simp add: count_of_def f_def)
  moreover have "count_of fs' (ext(p := 1)) q h = count_of fs ext q h" if "q \<noteq> p" "q \<noteq> fp" for q h
    using that k by (simp add: count_of_def)
  ultimately have "refs_ok fs' (ext(p := 1))"
    using refs assms(2) pfp by (auto simp: refs_ok_def fs'_def f_def g_def split: if_splits)
  with tree' show ?thesis by (simp add: fs_ok_def)
qed

lemma createfile_ok:
  assumes "fs_ok fs ext" "fs_files fs fp = Some d"
  shows "\<exists>r fs'. createfile now fp name uid perm fs = Some (r, fs') \<and>
    (case r of
       Inl e \<Rightarrow> fs' = fs \<and> (q_type (d_qid (fl_dir d)) AND QTDIR = 0 \<or> (\<exists>c \<in> kids fs fp. fname fs c = Some name))
     | Inr p \<Rightarrow> p \<notin> dom (fs_files fs) \<and> fs_ok fs' (ext(p := 1)) \<and> fs_root fs' = fs_root fs \<and>
         q_type (d_qid (fl_dir d)) AND QTDIR \<noteq> 0 \<and> (\<forall>c \<in> kids fs fp. fname fs c \<noteq> Some name) \<and>
         kids fs' fp = insert p (kids fs fp) \<and> fname fs' p = Some name \<and>
         (\<exists>f. fs_files fs' p = Some f \<and> q_path (d_qid (fl_dir f)) = ucast (fs_qidgen fs)))"
proof (cases "q_type (d_qid (fl_dir d)) AND QTDIR = 0")
  case True
  with assms(2) show ?thesis by (simp add: createfile_def)
next
  case False
  have tree: "tree_ok fs" using assms(1) by (simp add: fs_ok_def)
  have lk: "linked_ok fs fp d" using tree assms(2) by (simp add: tree_ok_def)
  obtain r where r: "find_name fs (fl_list d) name = Some r"
    "r = None \<longleftrightarrow> (\<forall>c \<in> kids fs fp. fname fs c \<noteq> Some name)"
    "\<And>c. r = Some c \<Longrightarrow> c \<in> kids fs fp \<and> fname fs c = Some name"
    using search_dir [OF tree assms(2), of name] by blast
  show ?thesis
  proof (cases r)
    case (Some c)
    with r(3) False assms(2) r(1) show ?thesis by (auto simp: createfile_def)
  next
    case None
    let ?p = "Suc (fs_next fs)"
    obtain u where u: "or_uid uid (d_uid (fl_dir d)) = Some u"
      using lk by (cases uid) (auto simp: or_uid_def linked_ok_def)
    obtain g where g: "d_gid (fl_dir d) = Some g" using lk by (auto simp: linked_ok_def)
    define dir where "dir = zero_dir\<lparr>d_name := Some name, d_uid := Some u, d_gid := Some g,
      d_muid := or_uid uid (Some (bytes ''unknown'')), d_qid := new_qid (fs_qidgen fs) perm, d_mode := perm,
      d_atime := now, d_mtime := now, d_length := 0\<rparr>"
    define fs' where "fs' = fs\<lparr>fs_files := (fs_files fs)
        (?p \<mapsto> zero_file\<lparr>fl_dir := dir, fl_parent := Some fp, fl_ref := 2\<rparr>,
         fp \<mapsto> d\<lparr>fl_ref := fl_ref d + 1, fl_list := fl_list d @ [(fs_next fs, Some ?p)],
           fl_nchild := fl_nchild d + 1\<rparr>), fs_next := ?p + 1, fs_qidgen := fs_qidgen fs + 1\<rparr>"
    have "fp < fs_next fs" using lk by (simp add: linked_ok_def)
    then have ne: "fp \<noteq> ?p" "?p \<noteq> fp" by simp_all
    have new: "fs_files fs ?p = None"
    proof (rule ccontr)
      assume "fs_files fs ?p \<noteq> None"
      then obtain h where "fs_files fs ?p = Some h" by blast
      with tree have "?p < fs_next fs" by (auto simp: tree_ok_def linked_ok_def)
      then show False by simp
    qed
    have eq: "createfile now fp name uid perm fs = Some (Inr ?p, fs')"
      using False assms(2) r(1) None u g ne
      by (cases fs) (simp add: createfile_def allocfile_def increff_def fs'_def dir_def
        fun_upd_twist Let_def zero_file_def)
    have "fs_ok fs' (ext(?p := 1))"
      unfolding fs'_def
      using assms r(2) None by (intro link_ok) (simp_all add: dir_def)
    moreover have "kids fs' fp = insert ?p (kids fs fp)"
      using new assms(2) ne by (auto simp: kids_def fs'_def)
    moreover have "fname fs' ?p = Some name" using ne by (simp add: fname_def fs'_def dir_def)
    moreover have "\<exists>f. fs_files fs' ?p = Some f \<and> q_path (d_qid (fl_dir f)) = ucast (fs_qidgen fs)"
      using ne by (simp add: fs'_def dir_def new_qid_def)
    moreover have "fs_root fs' = fs_root fs" by (simp add: fs'_def)
    ultimately show ?thesis
      using eq new False r(2) None by (simp add: domIff)
  qed
qed

text \<open>
  A step of a walk trades the reference to the directory for one to the result.  The only fault
  is \<^verbatim>\<open>..\<close> from a directory that has been removed.
\<close>

lemma walkfile1_ok:
  assumes "fs_ok fs ext" "0 < ext dir" "fs_files fs dir = Some d" "elem \<noteq> bytes ''..'' \<or> fl_parent d \<noteq> None"
  shows "\<exists>r fs'. walkfile1 dir elem fs = Some (r, fs') \<and> fs_root fs' = fs_root fs \<and>
    (case r of
       None \<Rightarrow> fs_ok fs' (ext(dir := ext dir - 1)) \<and> (\<forall>c \<in> kids fs dir. fname fs c \<noteq> Some elem)
     | Some c \<Rightarrow> fs_ok fs' ((ext(c := ext c + 1))(dir := (ext(c := ext c + 1)) dir - 1)) \<and>
         (if elem = bytes ''..'' then fl_parent d = Some c else c \<in> kids fs dir \<and> fname fs c = Some elem))"
proof -
  have tree: "tree_ok fs" using assms(1) by (simp add: fs_ok_def)
  have take: "\<exists>fs1 fs'. increff c fs = Some fs1 \<and> closefile dir fs1 = Some fs' \<and> fs_root fs' = fs_root fs \<and>
      fs_ok fs' ((ext(c := ext c + 1))(dir := (ext(c := ext c + 1)) dir - 1))"
    if dm: "c \<in> dom (fs_files fs)" for c
  proof -
    obtain fs1 where fs1: "increff c fs = Some fs1" "fs_ok fs1 (ext(c := ext c + 1))" "same_links fs fs1"
      using increff_ok [OF assms(1) dm] by blast
    moreover have "0 < (ext(c := ext c + 1)) dir" using assms(2) by simp
    ultimately show ?thesis
      using closefile_drop [OF fs1(2) _ refl, of dir] unfolding same_links_def by metis
  qed
  show ?thesis
  proof (cases "elem = bytes ''..''")
    case True
    then obtain fp where fp: "fl_parent d = Some fp" using assms(4) by auto
    moreover have "linked_ok fs dir d" using tree assms(3) by (simp add: tree_ok_def)
    ultimately have "fp \<in> dom (fs_files fs)" by (simp add: linked_ok_def)
    then obtain fs1 fs' where "increff fp fs = Some fs1" "closefile dir fs1 = Some fs'" "fs_root fs' = fs_root fs"
      "fs_ok fs' ((ext(fp := ext fp + 1))(dir := (ext(fp := ext fp + 1)) dir - 1))"
      using take by blast
    then show ?thesis using True fp assms(3) by (auto simp: walkfile1_def)
  next
    case False
    obtain r where r: "find_name fs (fl_list d) elem = Some r"
      "r = None \<longleftrightarrow> (\<forall>c \<in> kids fs dir. fname fs c \<noteq> Some elem)"
      "\<And>c. r = Some c \<Longrightarrow> c \<in> kids fs dir \<and> fname fs c = Some elem"
      using search_dir [OF tree assms(3), of elem] by blast
    show ?thesis
    proof (cases r)
      case None
      obtain fs' where "closefile dir fs = Some fs'" "fs_ok fs' (ext(dir := ext dir - 1))" "fs_root fs' = fs_root fs"
        using closefile_drop [OF assms(1,2) refl] by blast
      with None False r(1,2) assms(3) show ?thesis by (simp add: walkfile1_def)
    next
      case (Some c)
      with r(3) have c: "c \<in> kids fs dir" "fname fs c = Some elem" by auto
      then have "c \<in> dom (fs_files fs)" by (auto simp: kids_def)
      then obtain fs1 fs' where "increff c fs = Some fs1" "closefile dir fs1 = Some fs'" "fs_root fs' = fs_root fs"
        "fs_ok fs' ((ext(c := ext c + 1))(dir := (ext(c := ext c + 1)) dir - 1))"
        using take by blast
      then show ?thesis using Some False c r(1) assms(3) by (auto simp: walkfile1_def)
    qed
  qed
qed

lemma alloctree_ok: "fs_ok (alloctree now uid gid mode) (\<lambda>_. 0)"
proof -
  let ?fs = "alloctree now uid gid mode"
  have k: "kids ?fs p = {}" for p by (auto simp: alloctree_def kids_def Let_def split: if_splits)
  then show ?thesis
    by (auto simp: fs_ok_def tree_ok_def refs_ok_def linked_ok_def count_of_def)
      (auto simp: alloctree_def Let_def zero_file_def zero_dir_def or_uid_def split: if_splits option.splits)
qed

subsection \<open>Clients of a tree\<close>

lemma fs_ok_live: "fs_ok fs ext \<Longrightarrow> 0 < ext p \<Longrightarrow> \<exists>f. fs_files fs p = Some f"
  by (cases "fs_files fs p") (auto simp: fs_ok_def refs_ok_def)

lemma fs_ok_root: "fs_ok fs ext \<Longrightarrow> fs_root fs \<in> dom (fs_files fs)"
  by (auto simp: fs_ok_def tree_ok_def)

lemma removefile_total: "fs_ok fs ext \<Longrightarrow> 0 < ext p \<Longrightarrow> \<exists>e fs'. removefile p fs = Some (e, fs') \<and> fs_ok fs' (ext(p := ext p - 1))"
  using fs_ok_live removefile_ok by meson

text \<open>
  Open directories: \<open>rs\<close> are the \<^verbatim>\<open>Readdir\<close> structures that clients have.  The count of readers of a
  directory is exact, and every structure points to a node that is still in the list, or to its end.
\<close>

definition on_list :: "readdir \<Rightarrow> fnode \<Rightarrow> bool" where
  "on_list r d \<longleftrightarrow> (case rd_fl r of None \<Rightarrow> True | Some i \<Rightarrow> i \<in> fst ` set (fl_list d))"

definition readers_ok :: "fs \<Rightarrow> readdir list \<Rightarrow> bool" where
  "readers_ok fs rs \<longleftrightarrow> (\<forall>p f. fs_files fs p = Some f \<longrightarrow> fl_readers f = int (length (filter (\<lambda>r. rd_dir r = p) rs))) \<and>
     (\<forall>r \<in> set rs. \<exists>d. fs_files fs (rd_dir r) = Some d \<and> on_list r d)"

lemma on_list_readers [simp]: "on_list r (d\<lparr>fl_readers := n\<rparr>) = on_list r d"
  by (cases "rd_fl r") (simp_all add: on_list_def)

text \<open>What all operations but those on open directories do to readers: nothing, and no node they may point to is freed.\<close>

definition fl_nodes :: "fnode \<Rightarrow> nat set" where
  "fl_nodes f = fst ` set (fl_list f)"

definition keeps_reads :: "fs \<Rightarrow> fs \<Rightarrow> bool" where
  "keeps_reads fs fs' \<longleftrightarrow> (\<forall>p f'. fs_files fs' p = Some f' \<longrightarrow> (\<exists>f. fs_files fs p = Some f \<and> fl_readers f' = fl_readers f \<and>
     (fl_readers f \<noteq> 0 \<longrightarrow> fl_nodes f \<subseteq> fl_nodes f')))"

lemma keeps_refl: "keeps_reads fs fs"
  by (simp add: keeps_reads_def)

lemma keeps_trans: "keeps_reads fs fs1 \<Longrightarrow> keeps_reads fs1 fs2 \<Longrightarrow> keeps_reads fs fs2"
proof -
  assume a: "keeps_reads fs fs1" "keeps_reads fs1 fs2"
  have "\<exists>f. fs_files fs p = Some f \<and> fl_readers f2 = fl_readers f \<and> (fl_readers f \<noteq> 0 \<longrightarrow> fl_nodes f \<subseteq> fl_nodes f2)"
    if "fs_files fs2 p = Some f2" for p f2
  proof -
    obtain f1 where f1: "fs_files fs1 p = Some f1" "fl_readers f2 = fl_readers f1" "fl_readers f1 \<noteq> 0 \<longrightarrow> fl_nodes f1 \<subseteq> fl_nodes f2"
      using a(2) \<open>fs_files fs2 p = Some f2\<close> unfolding keeps_reads_def by blast
    obtain f where "fs_files fs p = Some f" "fl_readers f1 = fl_readers f" "fl_readers f \<noteq> 0 \<longrightarrow> fl_nodes f \<subseteq> fl_nodes f1"
      using a(1) f1(1) unfolding keeps_reads_def by blast
    then show ?thesis using f1 by auto
  qed
  then show "keeps_reads fs fs2" unfolding keeps_reads_def by blast
qed

lemma keeps_fupd: "fupd p g fs = Some fs' \<Longrightarrow> (\<And>f. fl_readers (g f) = fl_readers f) \<Longrightarrow>
    (\<And>f. fs_files fs p = Some f \<Longrightarrow> fl_readers f \<noteq> 0 \<Longrightarrow> fl_nodes f \<subseteq> fl_nodes (g f)) \<Longrightarrow> keeps_reads fs fs'"
  by (auto simp: fupd_def keeps_reads_def split: if_splits)

lemma keeps_fields: "keeps_reads fs (fs\<lparr>fs_destroyed := x\<rparr>)" "keeps_reads fs (fs\<lparr>fs_files := (fs_files fs)(p := None)\<rparr>)"
  by (simp_all add: keeps_reads_def)

lemma keeps_freefile: "freefile p fs = Some fs' \<Longrightarrow> keeps_reads fs fs'"
  using keeps_fields(2) by (auto simp: freefile_def split: bind_splits)

lemma keeps_increff: "increff p fs = Some fs' \<Longrightarrow> keeps_reads fs fs'"
  by (rule keeps_fupd [of p "\<lambda>f. f\<lparr>fl_ref := fl_ref f + 1\<rparr>"]) (simp_all add: fl_nodes_def increff_def)

lemma keeps_closefile: "closefile p fs = Some fs' \<Longrightarrow> keeps_reads fs fs'"
proof -
  assume a: "closefile p fs = Some fs'"
  then obtain fs1 where 1: "fupd p (\<lambda>f. f\<lparr>fl_ref := fl_ref f - 1\<rparr>) fs = Some fs1" by (auto simp: closefile_def split: bind_splits)
  have k: "keeps_reads fs fs1" by (rule keeps_fupd [OF 1]) (simp_all add: fl_nodes_def)
  have "fs' = fs1 \<or> freefile p (fs1\<lparr>fs_destroyed := fs_destroyed fs1 @ [p]\<rparr>) = Some fs'"
    using a 1 by (auto simp: closefile_def split: bind_splits if_splits)
  then show ?thesis using k keeps_trans keeps_freefile keeps_fields(1) by metis
qed

lemma keeps_cleanfilelist: "cleanfilelist p fs = Some fs' \<Longrightarrow> keeps_reads fs fs'"
proof (cases "fs_files fs p")
  case (Some f)
  assume a: "cleanfilelist p fs = Some fs'"
  show ?thesis
  proof (cases "fl_readers f \<noteq> 0 \<or> fl_nxchild f = 0")
    case True
    then show ?thesis using a Some keeps_refl by (auto simp: cleanfilelist_def split: if_splits)
  next
    case False
    then have "fupd p (\<lambda>f. f\<lparr>fl_list := filter (\<lambda>n. snd n \<noteq> None) (fl_list f), fl_nxchild := 0\<rparr>) fs = Some fs'"
      using a Some by (simp add: cleanfilelist_def del: fupd_Some)
    from keeps_fupd [OF this] show ?thesis using False Some by simp
  qed
qed (simp add: cleanfilelist_def)

lemma clear_entry_nodes: "clear_entry p l = Some l' \<Longrightarrow> map fst l' = map fst l"
  by (induction l arbitrary: l') (auto split: if_splits)

lemma keeps_removefile:
  assumes "removefile p fs = Some (e, fs')"
  shows "keeps_reads fs fs'"
proof -
  obtain f where f: "fs_files fs p = Some f" using assms by (auto simp: removefile_def split: bind_splits)
  show ?thesis
  proof (cases "closefile p fs = Some fs'")
    case False
    then obtain fp d l fs1 fs2 fs3 fs4 fs5 where d: "fs_files fs fp = Some d" "clear_entry p (fl_list d) = Some l"
      and r: "fupd fp (\<lambda>d. d\<lparr>fl_list := l, fl_nchild := fl_nchild d - 1, fl_nxchild := fl_nxchild d + 1\<rparr>) fs = Some fs1"
        "fupd p (\<lambda>f. f\<lparr>fl_parent := None\<rparr>) fs1 = Some fs2" "cleanfilelist fp fs2 = Some fs3"
        "closefile fp fs3 = Some fs4" "closefile p fs4 = Some fs5" "closefile p fs5 = Some fs'"
      using assms f by (auto simp: removefile_def split: bind_splits option.splits if_splits)
    have "set (map fst l) = set (map fst (fl_list d))" using clear_entry_nodes [OF d(2)] by simp
    then have "keeps_reads fs fs1" by (intro keeps_fupd [OF r(1)]) (use d in \<open>auto simp: fl_nodes_def\<close>)
    moreover have "keeps_reads fs1 fs2" by (rule keeps_fupd [OF r(2)]) (simp_all add: fl_nodes_def)
    ultimately show ?thesis
      using keeps_cleanfilelist [OF r(3)] keeps_closefile [OF r(4)] keeps_closefile [OF r(5)] keeps_closefile [OF r(6)] keeps_trans by meson
  qed (rule keeps_closefile)
qed

lemma keeps_walkfile1:
  assumes "walkfile1 dir elem fs = Some (r, fs')"
  shows "keeps_reads fs fs'"
proof -
  obtain fs1 where "fs1 = fs \<or> (\<exists>p. increff p fs = Some fs1)" "closefile dir fs1 = Some fs'"
    using assms by (auto simp: walkfile1_def split: bind_splits option.splits if_splits)
  then show ?thesis using keeps_increff keeps_closefile keeps_trans by metis
qed

lemma reads_keeps:
  assumes "readers_ok fs rs" "keeps_reads fs fs'" "\<forall>r \<in> set rs. rd_dir r \<in> dom (fs_files fs')"
  shows "readers_ok fs' rs"
proof -
  have "fl_readers f' = int (length (filter (\<lambda>r. rd_dir r = p) rs))" if "fs_files fs' p = Some f'" for p f'
    using assms(1,2) that unfolding readers_ok_def keeps_reads_def by metis
  moreover have "\<exists>d. fs_files fs' (rd_dir r) = Some d \<and> on_list r d" if r: "r \<in> set rs" for r
  proof -
    obtain d' where d': "fs_files fs' (rd_dir r) = Some d'" using assms(3) r by blast
    obtain d where d: "fs_files fs (rd_dir r) = Some d" "fl_readers d \<noteq> 0 \<longrightarrow> fl_nodes d \<subseteq> fl_nodes d'"
      using assms(2) d' unfolding keeps_reads_def by blast
    have "fl_readers d = int (length (filter (\<lambda>x. rd_dir x = rd_dir r) rs))" "on_list r d" using assms(1) r d(1) unfolding readers_ok_def by auto
    moreover have "r \<in> set (filter (\<lambda>x. rd_dir x = rd_dir r) rs)" using r by simp
    then have "filter (\<lambda>x. rd_dir x = rd_dir r) rs \<noteq> []" by (metis empty_iff empty_set)
    ultimately have "fl_nodes d \<subseteq> fl_nodes d'" "on_list r d" using d(2) by auto
    then show ?thesis using d' by (auto simp: on_list_def fl_nodes_def split: option.splits)
  qed
  ultimately show ?thesis unfolding readers_ok_def by blast
qed


lemma nodes_from_ok: "on_list r d \<Longrightarrow> \<exists>l. nodes_from (rd_fl r) (fl_list d) = Some l \<and> set l \<subseteq> set (fl_list d)"
proof (cases "rd_fl r")
  case (Some i)
  assume "on_list r d"
  then obtain n where n: "n \<in> set (fl_list d)" "fst n = i" using Some by (auto simp: on_list_def)
  have "dropWhile (\<lambda>n. fst n \<noteq> i) (fl_list d) \<noteq> []" using n by auto
  moreover have "set (dropWhile (\<lambda>n. fst n \<noteq> i) (fl_list d)) \<subseteq> set (fl_list d)" using set_dropWhileD by fastforce
  ultimately show ?thesis using Some by (auto simp: nodes_from_def split: list.splits)
qed (simp add: nodes_from_def)

lemma createfile_files:
  assumes "createfile now fp name uid perm fs = Some (Inr p, fs')" "fs_files fs fp = Some d" "p \<noteq> fp"
  shows "(\<forall>f. fs_files fs' p = Some f \<longrightarrow> fl_readers f = 0)"
    "fs_files fs' fp = Some (d\<lparr>fl_ref := fl_ref d + 1, fl_list := fl_list d @ [(fs_next fs, Some p)], fl_nchild := fl_nchild d + 1\<rparr>)"
    "q \<noteq> p \<Longrightarrow> q \<noteq> fp \<Longrightarrow> fs_files fs' q = fs_files fs q"
  using assms
  by (auto simp: createfile_def allocfile_def increff_def fupd_def zero_file_def Let_def split: bind_splits if_splits)

lemma createfile_nodes:
  assumes "createfile now fp name uid perm fs = Some (Inr p, fs')" "p \<notin> dom (fs_files fs)" "fs_files fs' q = Some f'"
  shows "q = p \<and> fl_readers f' = 0 \<or> (\<exists>f. fs_files fs q = Some f \<and> fl_readers f' = fl_readers f \<and> fl_nodes f \<subseteq> fl_nodes f')"
proof -
  obtain d where d: "fs_files fs fp = Some d" using assms(1) by (auto simp: createfile_def split: bind_splits)
  then have "p \<noteq> fp" using assms(2) by auto
  note files = createfile_files [OF assms(1) d this]
  have "fl_nodes d \<subseteq> fl_nodes (d\<lparr>fl_ref := fl_ref d + 1, fl_list := fl_list d @ [(fs_next fs, Some p)], fl_nchild := fl_nchild d + 1\<rparr>)"
    by (simp add: fl_nodes_def image_Un subset_insertI)
  moreover have "fs_files fs q = Some f'" if "q \<noteq> p" "q \<noteq> fp" using files(3) [OF that] assms(3) by simp
  ultimately show ?thesis using files(1,2) d assms(3) by (cases "q = fp"; cases "q = p") auto
qed

lemma createfile_dom:
  assumes "createfile now fp name uid perm fs = Some (Inr p, fs')" "p \<notin> dom (fs_files fs)"
  shows "dom (fs_files fs) \<subseteq> dom (fs_files fs')"
proof
  fix q
  assume q: "q \<in> dom (fs_files fs)"
  obtain d where d: "fs_files fs fp = Some d" using assms(1) by (auto simp: createfile_def split: bind_splits)
  then have "p \<noteq> fp" using assms(2) by auto
  note files = createfile_files [OF assms(1) d this]
  have "q \<noteq> p" using q assms(2) by blast
  then show "q \<in> dom (fs_files fs')" using files(2) files(3) [of q] q by (cases "q = fp") auto
qed

lemma createfile_reads:
  assumes "readers_ok fs rs" "createfile now fp name uid perm fs = Some (Inr p, fs')" "p \<notin> dom (fs_files fs)"
  shows "readers_ok fs' rs"
proof -
  have ne: "rd_dir r \<noteq> p" "\<exists>d. fs_files fs (rd_dir r) = Some d \<and> on_list r d" if "r \<in> set rs" for r
    using assms(1,3) that unfolding readers_ok_def by blast+
  have "fl_readers f' = int (length (filter (\<lambda>r. rd_dir r = q) rs))" if q: "fs_files fs' q = Some f'" for q f'
  proof (cases "q = p")
    case True
    then have "filter (\<lambda>r. rd_dir r = q) rs = []" using ne(1) by (auto simp: filter_empty_conv)
    moreover have "fs_files fs q = None" using True assms(3) by auto
    ultimately show ?thesis using createfile_nodes [OF assms(2,3) q] by auto
  next
    case False
    then show ?thesis using createfile_nodes [OF assms(2,3) q] assms(1) by (auto simp: readers_ok_def)
  qed
  moreover have "\<exists>d. fs_files fs' (rd_dir r) = Some d \<and> on_list r d" if r: "r \<in> set rs" for r
  proof -
    obtain d where d: "fs_files fs (rd_dir r) = Some d" "on_list r d" using ne(2) [OF r] by blast
    then obtain d' where d': "fs_files fs' (rd_dir r) = Some d'" using createfile_dom [OF assms(2,3)] by blast
    have "fl_nodes d \<subseteq> fl_nodes d'" using createfile_nodes [OF assms(2,3) d'] ne(1) [OF r] d(1) by auto
    then show ?thesis using d(2) d' by (auto simp: on_list_def fl_nodes_def split: option.splits)
  qed
  ultimately show ?thesis unfolding readers_ok_def by blast
qed

lemma fs_ok_readers:
  assumes "fs_ok fs ext" "fs_files fs p = Some d"
  shows "fs_ok (fs\<lparr>fs_files := (fs_files fs)(p \<mapsto> d\<lparr>fl_readers := n\<rparr>)\<rparr>) ext"
proof -
  have "linked_ok fs p d" using assms by (simp add: fs_ok_def tree_ok_def)
  then show ?thesis by (intro fs_ok_update [OF assms]) (simp_all add: linked_ok_def)
qed

lemma opendirfile_ok:
  assumes "fs_ok fs ext" "readers_ok fs rs" "fs_files fs p = Some d"
  shows "\<exists>r fs'. opendirfile p fs = Some (r, fs') \<and> fs_ok fs' ext \<and>
    (case r of None \<Rightarrow> fs' = fs | Some r \<Rightarrow> rd_dir r = p \<and> readers_ok fs' (r # rs))"
proof (cases "d_mode (fl_dir d) AND DMDIR = 0")
  case False
  let ?r = "\<lparr>rd_dir = p, rd_fl = (case fl_list d of [] \<Rightarrow> None | n # _ \<Rightarrow> Some (fst n))\<rparr>"
  let ?fs = "fs\<lparr>fs_files := (fs_files fs)(p \<mapsto> d\<lparr>fl_readers := fl_readers d + 1\<rparr>)\<rparr>"
  have "on_list ?r (d\<lparr>fl_readers := fl_readers d + 1\<rparr>)" by (auto simp: on_list_def split: list.splits)
  moreover have "\<exists>e. fs_files ?fs (rd_dir x) = Some e \<and> on_list x e" if x: "x \<in> set rs" for x
  proof -
    obtain e where "fs_files fs (rd_dir x) = Some e" "on_list x e" using assms(2) x unfolding readers_ok_def by blast
    then show ?thesis using assms(3) by (cases "rd_dir x = p") auto
  qed
  ultimately have "readers_ok ?fs (?r # rs)" using assms(2,3) by (auto simp: readers_ok_def)
  then show ?thesis using False assms(3) fs_ok_readers [OF assms(1,3)] by (simp add: opendirfile_def)
qed (use assms in \<open>simp add: opendirfile_def\<close>)

lemma readdirfile_ok:
  assumes "readdirfile r buf n fs = Some (m, buf', r')" "fs_files fs (rd_dir r) = Some d"
  shows "rd_dir r' = rd_dir r \<and> on_list r' d"
proof -
  obtain l l' where l: "nodes_from (rd_fl r) (fl_list d) = Some l" "readdir_loop fs l buf 0 n = Some (buf', m, l')"
      "r' = r\<lparr>rd_fl := (case l' of [] \<Rightarrow> None | n # _ \<Rightarrow> Some (fst n))\<rparr>"
    using assms by (auto simp: readdirfile_def split: bind_splits)
  have "set l \<subseteq> set l'" if "readdir_loop fs l' buf k n = Some (b, m, l)" for l l' buf k b
    using that
  proof (induction l' arbitrary: buf k)
    case (Cons e l0)
    then show ?case by (cases e) (auto split: if_splits option.splits bind_splits simp: Let_def dest: subsetD [OF Cons.IH])
  qed simp
  from this [OF l(2)] have "set l' \<subseteq> set l" .
  moreover have "set l \<subseteq> set (fl_list d)"
    using l(1) set_dropWhileD by (fastforce simp: nodes_from_def split: option.splits list.splits)
  ultimately show ?thesis using l(3) by (cases l') (auto simp: on_list_def)
qed

lemma closedirfile_ok:
  assumes "fs_ok fs ext" "readers_ok fs rs" "r \<in> set rs"
  shows "\<exists>fs'. closedirfile r fs = Some fs' \<and> fs_ok fs' ext \<and> readers_ok fs' (remove1 r rs)"
proof -
  obtain d where d: "fs_files fs (rd_dir r) = Some d" using assms(2,3) unfolding readers_ok_def by blast
  let ?d = "d\<lparr>fl_readers := fl_readers d - 1\<rparr>"
  let ?fs = "fs\<lparr>fs_files := (fs_files fs)(rd_dir r \<mapsto> ?d)\<rparr>"
  have ok: "fs_ok ?fs ext" by (rule fs_ok_readers [OF assms(1) d])
  have cnt: "int (length (filter (\<lambda>x. rd_dir x = p) (remove1 r rs))) =
      int (length (filter (\<lambda>x. rd_dir x = p) rs)) - (if rd_dir r = p then 1 else 0)" for p
    using assms(3) by (induction rs) auto
  have rd: "readers_ok ?fs (remove1 r rs)"
  proof -
    have "\<exists>e. fs_files ?fs (rd_dir x) = Some e \<and> on_list x e" if x: "x \<in> set (remove1 r rs)" for x
    proof -
      have "x \<in> set rs" using x set_remove1_subset by fast
      then obtain e where "fs_files fs (rd_dir x) = Some e" "on_list x e" using assms(2) unfolding readers_ok_def by blast
      then show ?thesis using d by (cases "rd_dir x = rd_dir r") auto
    qed
    then show ?thesis using assms(2) d unfolding readers_ok_def cnt by auto
  qed
  show ?thesis
  proof (cases "fl_readers ?d = 0")
    case True
    obtain fs' where fs': "cleanfilelist (rd_dir r) ?fs = Some fs'" "fs_ok fs' ext" "dom (fs_files fs') = dom (fs_files ?fs)"
      using cleanfilelist_ok [OF ok, of "rd_dir r" ?d] by auto
    have "\<forall>x \<in> set (remove1 r rs). rd_dir x \<in> dom (fs_files fs')" using rd fs'(3) unfolding readers_ok_def by blast
    then have "readers_ok fs' (remove1 r rs)" by (rule reads_keeps [OF rd keeps_cleanfilelist [OF fs'(1)]])
    then show ?thesis using True d fs'(1,2) by (auto simp: closedirfile_def)
  next
    case False
    then show ?thesis using d ok rd by (auto simp: closedirfile_def)
  qed
qed

text \<open>
  Any sequence of operations by clients that use only files they hold a reference to (or the
  root, which the tree holds) and directories they have open, and that hold a directory for as long as
  they have it open, as the fid of an open directory does.
\<close>

definition dirs_held :: "(filep \<Rightarrow> nat) \<Rightarrow> readdir list \<Rightarrow> bool" where
  "dirs_held ext rs \<longleftrightarrow> (\<forall>r \<in> set rs. 0 < ext (rd_dir r))"

inductive fsreach :: "fs \<Rightarrow> (filep \<Rightarrow> nat) \<Rightarrow> readdir list \<Rightarrow> bool" where
  tree: "fsreach (alloctree now uid gid mode) (\<lambda>_. 0) []"
| ref: "fsreach fs ext rs \<Longrightarrow> 0 < ext p \<or> p = fs_root fs \<Longrightarrow> increff p fs = Some fs' \<Longrightarrow>
    fsreach fs' (ext(p := ext p + 1)) rs"
| close: "fsreach fs ext rs \<Longrightarrow> 0 < ext p \<Longrightarrow> closefile p fs = Some fs' \<Longrightarrow> dirs_held (ext(p := ext p - 1)) rs \<Longrightarrow>
    fsreach fs' (ext(p := ext p - 1)) rs"
| create: "fsreach fs ext rs \<Longrightarrow> 0 < ext fp \<Longrightarrow> createfile now fp name uid perm fs = Some (Inr p, fs') \<Longrightarrow>
    fsreach fs' (ext(p := ext p + 1)) rs"
| walk: "fsreach fs ext rs \<Longrightarrow> 0 < ext dir \<Longrightarrow> walkfile1 dir elem fs = Some (Some c, fs') \<Longrightarrow>
    ext' = ext(c := ext c + 1) \<Longrightarrow> dirs_held (ext'(dir := ext' dir - 1)) rs \<Longrightarrow> fsreach fs' (ext'(dir := ext' dir - 1)) rs"
| walk_fail: "fsreach fs ext rs \<Longrightarrow> 0 < ext dir \<Longrightarrow> walkfile1 dir elem fs = Some (None, fs') \<Longrightarrow>
    dirs_held (ext(dir := ext dir - 1)) rs \<Longrightarrow> fsreach fs' (ext(dir := ext dir - 1)) rs"
| remove: "fsreach fs ext rs \<Longrightarrow> 0 < ext p \<Longrightarrow> removefile p fs = Some (e, fs') \<Longrightarrow> dirs_held (ext(p := ext p - 1)) rs \<Longrightarrow>
    fsreach fs' (ext(p := ext p - 1)) rs"
| opendir: "fsreach fs ext rs \<Longrightarrow> 0 < ext p \<Longrightarrow> opendirfile p fs = Some (Some r, fs') \<Longrightarrow> fsreach fs' ext (r # rs)"
| readdir: "fsreach fs ext rs \<Longrightarrow> r \<in> set rs \<Longrightarrow> readdirfile r buf n fs = Some (m, buf', r') \<Longrightarrow>
    fsreach fs ext (r' # remove1 r rs)"
| closedir: "fsreach fs ext rs \<Longrightarrow> r \<in> set rs \<Longrightarrow> closedirfile r fs = Some fs' \<Longrightarrow> fsreach fs' ext (remove1 r rs)"

definition fs_inv :: "fs \<Rightarrow> (filep \<Rightarrow> nat) \<Rightarrow> readdir list \<Rightarrow> bool" where
  "fs_inv fs ext rs \<longleftrightarrow> fs_ok fs ext \<and> readers_ok fs rs \<and> dirs_held ext rs"

lemma walkfile1_parent:
  "walkfile1 dir elem fs = Some (r, fs') \<Longrightarrow> fs_files fs dir = Some d \<Longrightarrow>
   elem \<noteq> bytes ''..'' \<or> fl_parent d \<noteq> None"
  by (auto simp: walkfile1_def split: bind_splits)

lemma dirs_held_live: "fs_ok fs ext \<Longrightarrow> dirs_held ext rs \<Longrightarrow> \<forall>r \<in> set rs. rd_dir r \<in> dom (fs_files fs)"
  using fs_ok_live unfolding dirs_held_def by blast

lemma fs_inv_keeps:
  "fs_inv fs ext rs \<Longrightarrow> fs_ok fs' ext' \<Longrightarrow> keeps_reads fs fs' \<Longrightarrow> dirs_held ext' rs \<Longrightarrow> fs_inv fs' ext' rs"
  unfolding fs_inv_def using reads_keeps dirs_held_live by blast

lemma readdir_inv:
  assumes "fs_inv fs ext rs" "r \<in> set rs" "readdirfile r buf n fs = Some (m, buf', r')"
  shows "fs_inv fs ext (r' # remove1 r rs)"
proof -
  obtain d where d: "fs_files fs (rd_dir r) = Some d" using assms(1,2) unfolding fs_inv_def readers_ok_def by blast
  note r' = readdirfile_ok [OF assms(3) d]
  have sub: "set (remove1 r rs) \<subseteq> set rs" by (rule set_remove1_subset)
  have "length (filter (\<lambda>x. rd_dir x = p) (r' # remove1 r rs)) = length (filter (\<lambda>x. rd_dir x = p) rs)" for p
    using assms(2) r' by (induction rs) auto
  then have "readers_ok fs (r' # remove1 r rs)"
    using assms(1) sub r' d unfolding fs_inv_def readers_ok_def by auto
  moreover have "dirs_held ext (r' # remove1 r rs)" using assms(1,2) sub r' unfolding fs_inv_def dirs_held_def by auto
  ultimately show ?thesis using assms(1) by (simp add: fs_inv_def)
qed

lemma fsreach_inv: "fsreach fs ext rs \<Longrightarrow> fs_inv fs ext rs"
proof (induction rule: fsreach.induct)
  case (tree now uid gid mode)
  have "readers_ok (alloctree now uid gid mode) []"
    by (auto simp: readers_ok_def alloctree_def zero_file_def Let_def split: if_splits)
  then show ?case using alloctree_ok by (simp add: fs_inv_def dirs_held_def)
next
  case (ref fs ext rs p fs')
  have ok: "fs_ok fs ext" and h: "dirs_held ext rs" using ref.IH by (simp_all add: fs_inv_def)
  have "p \<in> dom (fs_files fs)" using ref.hyps(2) fs_ok_live [OF ok] fs_ok_root [OF ok] by blast
  then have "fs_ok fs' (ext(p := ext p + 1))" using increff_ok [OF ok, of p] ref.hyps(3) by auto
  moreover have "dirs_held (ext(p := ext p + 1)) rs" using h by (simp add: dirs_held_def)
  ultimately show ?case using fs_inv_keeps [OF ref.IH] keeps_increff [OF ref.hyps(3)] by blast
next
  case (close fs ext rs p fs')
  have ok: "fs_ok fs ext" using close.IH by (simp add: fs_inv_def)
  have "fs_ok fs' (ext(p := ext p - 1))" using closefile_drop [OF ok close.hyps(2) refl] close.hyps(3) by auto
  then show ?case using fs_inv_keeps [OF close.IH _ keeps_closefile [OF close.hyps(3)] close.hyps(4)] by blast
next
  case (create fs ext rs fp now name uid perm p fs')
  have inv: "fs_ok fs ext" "readers_ok fs rs" "dirs_held ext rs" using create.IH by (simp_all add: fs_inv_def)
  then obtain d where d: "fs_files fs fp = Some d" using fs_ok_live create.hyps(2) by blast
  from createfile_ok [OF inv(1) this, of now name uid perm] create.hyps(3)
  have p: "p \<notin> dom (fs_files fs)" "fs_ok fs' (ext(p := 1))" by auto
  moreover from this have "ext p = 0" using inv(1) by (auto simp: fs_ok_def refs_ok_def)
  then have "ext(p := 1) = ext(p := ext p + 1)" by simp
  moreover have "readers_ok fs' rs" by (rule createfile_reads [OF inv(2) create.hyps(3) p(1)])
  moreover have "dirs_held (ext(p := ext p + 1)) rs" using inv(3) by (simp add: dirs_held_def)
  ultimately show ?case unfolding fs_inv_def by metis
next
  case (walk fs ext rs dir elem c fs' ext')
  have ok: "fs_ok fs ext" using walk.IH by (simp add: fs_inv_def)
  then obtain d where d: "fs_files fs dir = Some d" using fs_ok_live walk.hyps(2) by blast
  have "fs_ok fs' (ext'(dir := ext' dir - 1))"
    using walkfile1_ok [OF ok walk.hyps(2) d walkfile1_parent [OF walk.hyps(3) d]] walk.hyps(3,4) by auto
  then show ?case using fs_inv_keeps [OF walk.IH _ keeps_walkfile1 [OF walk.hyps(3)] walk.hyps(5)] by blast
next
  case (walk_fail fs ext rs dir elem fs')
  have ok: "fs_ok fs ext" using walk_fail.IH by (simp add: fs_inv_def)
  then obtain d where d: "fs_files fs dir = Some d" using fs_ok_live walk_fail.hyps(2) by blast
  have "fs_ok fs' (ext(dir := ext dir - 1))"
    using walkfile1_ok [OF ok walk_fail.hyps(2) d walkfile1_parent [OF walk_fail.hyps(3) d]] walk_fail.hyps(3) by auto
  then show ?case using fs_inv_keeps [OF walk_fail.IH _ keeps_walkfile1 [OF walk_fail.hyps(3)] walk_fail.hyps(4)] by blast
next
  case (remove fs ext rs p e fs')
  have ok: "fs_ok fs ext" using remove.IH by (simp add: fs_inv_def)
  have "fs_ok fs' (ext(p := ext p - 1))" using removefile_total [OF ok remove.hyps(2)] remove.hyps(3) by auto
  then show ?case using fs_inv_keeps [OF remove.IH _ keeps_removefile [OF remove.hyps(3)] remove.hyps(4)] by blast
next
  case (opendir fs ext rs p r fs')
  have inv: "fs_ok fs ext" "readers_ok fs rs" "dirs_held ext rs" using opendir.IH by (simp_all add: fs_inv_def)
  then obtain d where d: "fs_files fs p = Some d" using fs_ok_live opendir.hyps(2) by blast
  have "fs_ok fs' ext" "rd_dir r = p" "readers_ok fs' (r # rs)"
    using opendirfile_ok [OF inv(1,2) d] opendir.hyps(3) by auto
  then show ?case using inv(3) opendir.hyps(2) by (simp add: fs_inv_def dirs_held_def)
next
  case (readdir fs ext rs r buf n m buf' r')
  show ?case by (rule readdir_inv [OF readdir.IH readdir.hyps(2,3)])
next
  case (closedir fs ext rs r fs')
  have inv: "fs_ok fs ext" "readers_ok fs rs" "dirs_held ext rs" using closedir.IH by (simp_all add: fs_inv_def)
  have "dirs_held ext (remove1 r rs)" using inv(3) set_remove1_subset [of r rs] unfolding dirs_held_def by blast
  then show ?case using closedirfile_ok [OF inv(1,2) closedir.hyps(2)] closedir.hyps(3) by (auto simp: fs_inv_def)
qed

lemma freefiles_None:
  "fs_ok fs ext \<Longrightarrow> fs_files fs p = Some f \<Longrightarrow> fl_parent f \<noteq> None \<Longrightarrow> freefiles k (Some p) fs = None"
proof (induction k arbitrary: p f)
  case (Suc k)
  have lk: "linked_ok fs p f" using Suc.prems by (simp add: fs_ok_def tree_ok_def)
  show ?case
  proof (cases "fl_list f")
    case Nil
    have "0 < fl_ref f" using Suc.prems by (auto simp: fs_ok_def refs_ok_def)
    with Nil Suc.prems show ?thesis by (simp add: freefile_def assertion_def)
  next
    case (Cons n l)
    have "freefiles k (snd n) fs = None"
    proof (cases "snd n")
      case None
      then show ?thesis by (cases k) simp_all
    next
      case (Some c)
      then have "c \<in> set (entries (fl_list f))" using Cons by (cases n) simp
      then have "c \<in> kids fs p" using lk by (simp add: linked_ok_def)
      then obtain h where "fs_files fs c = Some h" "fl_parent h \<noteq> None" by (auto simp: kids_def)
      with Suc.IH [OF Suc.prems(1)] Some show ?thesis by simp
    qed
    with Cons Suc.prems show ?thesis by simp
  qed
qed simp

text \<open>What a directory read emits.\<close>

definition ewire :: "fs \<Rightarrow> filelist \<Rightarrow> mem" where
  "ewire fs l = concat (map (\<lambda>c. case fs_files fs c of None \<Rightarrow> [] | Some f \<Rightarrow> wire_dir (fl_dir f)) (entries l))"

lemma ewire_simps [simp]:
  "ewire fs [] = []" "ewire fs ((i, None) # l) = ewire fs l"
  "fs_files fs c = Some f \<Longrightarrow> ewire fs ((i, Some c) # l) = wire_dir (fl_dir f) @ ewire fs l"
  by (simp_all add: ewire_def)

lemma readdir_loop_ok:
  "\<forall>c \<in> set (entries l). \<exists>f. fs_files fs c = Some f \<and> dir_ok (fl_dir f) \<Longrightarrow> m \<le> n \<Longrightarrow> n \<le> length buf \<Longrightarrow>
   \<exists>j tl. readdir_loop fs l buf m n = Some (take m buf @ ewire fs (take j l) @ tl,
       m + length (ewire fs (take j l)), drop j l) \<and> j \<le> length l \<and>
     m + length (ewire fs (take j l)) + length tl = length buf \<and> m + length (ewire fs (take j l)) \<le> n \<and>
     (j < length l \<longrightarrow> n < m + length (ewire fs (take j l)) + 2 \<or>
       (\<exists>c f. snd (l ! j) = Some c \<and> fs_files fs c = Some f \<and>
         n < m + length (ewire fs (take j l)) + wire_dirsize (fl_dir f)))"
proof (induction l arbitrary: buf m)
  case Nil
  then show ?case by (intro exI [of _ 0] exI [of _ "drop m buf"]) simp
next
  case (Cons e l)
  obtain i x where e: "e = (i, x)" by (cases e)
  show ?case
  proof (cases "m + 2 \<le> n")
    case False
    then show ?thesis using Cons.prems e by (intro exI [of _ 0] exI [of _ "drop m buf"]) simp
  next
    case room: True
    show ?thesis
    proof (cases x)
      case None
      then obtain j tl where "readdir_loop fs l buf m n = Some (take m buf @ ewire fs (take j l) @ tl,
          m + length (ewire fs (take j l)), drop j l) \<and> j \<le> length l \<and>
        m + length (ewire fs (take j l)) + length tl = length buf \<and> m + length (ewire fs (take j l)) \<le> n \<and>
        (j < length l \<longrightarrow> n < m + length (ewire fs (take j l)) + 2 \<or>
         (\<exists>c f. snd (l ! j) = Some c \<and> fs_files fs c = Some f \<and>
           n < m + length (ewire fs (take j l)) + wire_dirsize (fl_dir f)))"
        using Cons.IH [of m buf] Cons.prems e by fastforce
      then show ?thesis using room e None by (intro exI [of _ "Suc j"] exI [of _ tl]) simp
    next
      case (Some c)
      then obtain f where f: "fs_files fs c = Some f" "dir_ok (fl_dir f)" using Cons.prems(1) e by auto
      let ?w = "wire_dir (fl_dir f)" and ?s = "wire_dirsize (fl_dir f)"
      have conv: "convD2M (fl_dir f) (drop m buf) (n - m) = Some
          (if ?s \<le> n - m then (?s, img ?w (drop m buf))
           else (2, img (le16 (of_nat (?s - 2))) (drop m buf)))"
        using f(2) room Cons.prems(3) by (intro convD2M_wire) auto
      show ?thesis
      proof (cases "?s \<le> n - m")
        case False
        then show ?thesis
          using room e Some f conv Cons.prems
          by (intro exI [of _ 0] exI [of _ "img (le16 (of_nat (?s - 2))) (drop m buf)"]) simp
      next
        case True
        let ?buf = "take m buf @ img ?w (drop m buf)"
        have s49: "49 \<le> ?s" by (simp add: wire_dirsize_def)
        have len: "length ?buf = length buf" using True room Cons.prems(3) by simp
        have tk: "take (m + ?s) ?buf = take m buf @ ?w" using room Cons.prems(3) by (simp add: img_def)
        have live: "\<forall>c \<in> set (entries l). \<exists>f. fs_files fs c = Some f \<and> dir_ok (fl_dir f)"
          using Cons.prems(1) e Some by simp
        have fit: "m + ?s \<le> n" "n \<le> length ?buf" using True room Cons.prems(3) len by simp_all
        obtain j tl where j: "readdir_loop fs l ?buf (m + ?s) n = Some (take (m + ?s) ?buf @ ewire fs (take j l) @ tl,
            m + ?s + length (ewire fs (take j l)), drop j l)" "j \<le> length l"
          "m + ?s + length (ewire fs (take j l)) + length tl = length buf"
          "m + ?s + length (ewire fs (take j l)) \<le> n"
          "j < length l \<longrightarrow> n < m + ?s + length (ewire fs (take j l)) + 2 \<or>
           (\<exists>c f. snd (l ! j) = Some c \<and> fs_files fs c = Some f \<and>
             n < m + ?s + length (ewire fs (take j l)) + wire_dirsize (fl_dir f))"
          using Cons.IH [OF live fit(1) fit(2)] unfolding len by blast
        then show ?thesis
          using room e Some f conv True s49 unfolding tk
          by (intro exI [of _ "Suc j"] exI [of _ tl]) (simp add: add.assoc)
      qed
    qed
  qed
qed

text \<open>The next operation of a client does not fault.\<close>

lemma client_total:
  assumes ok: "fs_ok fs ext" and reads: "readers_ok fs rs" and p: "0 < ext p"
  shows "closefile p fs \<noteq> None \<and> removefile p fs \<noteq> None \<and> createfile now p name uid perm fs \<noteq> None \<and> opendirfile p fs \<noteq> None \<and>
    (walkfile1 p elem fs = None \<longrightarrow> elem = bytes ''..'' \<and> (\<exists>d. fs_files fs p = Some d \<and> fl_parent d = None))"
proof -
  obtain d where d: "fs_files fs p = Some d" using fs_ok_live [OF ok p] by blast
  have "closefile p fs \<noteq> None" using closefile_ok [OF ok p] by auto
  moreover have "removefile p fs \<noteq> None" using removefile_total [OF ok p] by auto
  moreover have "createfile now p name uid perm fs \<noteq> None" using createfile_ok [OF ok d, of now name uid perm] by auto
  moreover have "opendirfile p fs \<noteq> None" using opendirfile_ok [OF ok reads d] by auto
  moreover have "elem = bytes ''..'' \<and> fl_parent d = None" if "walkfile1 p elem fs = None"
    using walkfile1_ok [OF ok p d, of elem] that by (metis option.distinct(1))
  ultimately show ?thesis using d by blast
qed

lemma open_total:
  assumes ok: "fs_ok fs ext" and reads: "readers_ok fs rs" and r: "r \<in> set rs"
  shows "closedirfile r fs \<noteq> None \<and> (\<exists>d. fs_files fs (rd_dir r) = Some d \<and> nodes_from (rd_fl r) (fl_list d) \<noteq> None) \<and>
    (n \<le> length buf \<and> (\<forall>c f. c \<in> kids fs (rd_dir r) \<and> fs_files fs c = Some f \<longrightarrow> dir_ok (fl_dir f)) \<longrightarrow>
       readdirfile r buf n fs \<noteq> None)"
proof -
  obtain d where d: "fs_files fs (rd_dir r) = Some d" "on_list r d" using reads r unfolding readers_ok_def by blast
  obtain l where l: "nodes_from (rd_fl r) (fl_list d) = Some l" "set l \<subseteq> set (fl_list d)" using nodes_from_ok [OF d(2)] by blast
  have "closedirfile r fs \<noteq> None" using closedirfile_ok [OF ok reads r] by auto
  moreover have "readdirfile r buf n fs \<noteq> None"
    if n: "n \<le> length buf" and kd: "\<forall>c f. c \<in> kids fs (rd_dir r) \<and> fs_files fs c = Some f \<longrightarrow> dir_ok (fl_dir f)"
  proof -
    have lk: "set (entries (fl_list d)) = kids fs (rd_dir r)" using ok d(1) by (simp add: fs_ok_def tree_ok_def linked_ok_def)
    have "\<exists>f. fs_files fs c = Some f \<and> dir_ok (fl_dir f)" if c: "c \<in> set (entries l)" for c
    proof -
      have "c \<in> set (entries (fl_list d))" using c l(2) unfolding set_entries by blast
      then have "c \<in> kids fs (rd_dir r)" using lk by blast
      then show ?thesis using kd by (auto simp: kids_def)
    qed
    then obtain b m l' where "readdir_loop fs l buf 0 n = Some (b, m, l')" using readdir_loop_ok [of l fs 0 n buf] n by blast
    then show ?thesis using d(1) l(1) by (simp add: readdirfile_def)
  qed
  ultimately show ?thesis using d(1) l(1) by blast
qed

subsection \<open>Properties\<close>

text \<open>
  C12. File trees are safe: under any sequence of operations by clients that use files they hold, and that
  hold a directory for as long as they have it open, a file that is dirs_held, the root, every parent and
  every directory entry is alive; a linked file is listed exactly once by its parent; a directory counts
  its open readers, and what an open reader points to is still in the list (removing an entry frees
  no node under a reader); and the next operation on a held file or an open directory does not
  fault or fail an assertion, with one exception: walking to \<^verbatim>\<open>..\<close> from a removed directory.
\<close>

theorem filetree_safe:
  assumes "fsreach fs ext rs"
  shows "(\<forall>p. 0 < ext p \<longrightarrow> p \<in> dom (fs_files fs)) \<and> fs_root fs \<in> dom (fs_files fs) \<and>
    (\<forall>p f q. fs_files fs p = Some f \<and> fl_parent f = Some q \<longrightarrow> (\<exists>d. fs_files fs q = Some d \<and>
       (p = q \<or> p \<in> set (entries (fl_list d)) \<and> distinct (entries (fl_list d))))) \<and>
    (\<forall>p f c. fs_files fs p = Some f \<and> c \<in> set (entries (fl_list f)) \<longrightarrow> c \<in> dom (fs_files fs)) \<and>
    (\<forall>p f. fs_files fs p = Some f \<longrightarrow> fl_readers f = int (length (filter (\<lambda>r. rd_dir r = p) rs))) \<and>
    (\<forall>p. 0 < ext p \<longrightarrow> closefile p fs \<noteq> None \<and> removefile p fs \<noteq> None \<and> createfile now p name uid perm fs \<noteq> None \<and>
       opendirfile p fs \<noteq> None \<and>
       (walkfile1 p elem fs = None \<longrightarrow> elem = bytes ''..'' \<and> (\<exists>d. fs_files fs p = Some d \<and> fl_parent d = None))) \<and>
    (\<forall>r \<in> set rs. closedirfile r fs \<noteq> None \<and> (\<exists>d. fs_files fs (rd_dir r) = Some d \<and> nodes_from (rd_fl r) (fl_list d) \<noteq> None) \<and>
       (n \<le> length buf \<and> (\<forall>c f. c \<in> kids fs (rd_dir r) \<and> fs_files fs c = Some f \<longrightarrow> dir_ok (fl_dir f)) \<longrightarrow>
          readdirfile r buf n fs \<noteq> None))"
proof -
  have ok: "fs_ok fs ext" and reads: "readers_ok fs rs" using fsreach_inv [OF assms] by (simp_all add: fs_inv_def)
  have lk: "linked_ok fs p f" if "fs_files fs p = Some f" for p f
    using ok that by (simp add: fs_ok_def tree_ok_def)
  have "\<exists>d. fs_files fs q = Some d \<and> (p = q \<or> p \<in> set (entries (fl_list d)) \<and> distinct (entries (fl_list d)))"
    if p: "fs_files fs p = Some f" "fl_parent f = Some q" for p f q
  proof -
    obtain d where d: "fs_files fs q = Some d" using lk [OF p(1)] p(2) by (auto simp: linked_ok_def)
    then show ?thesis using lk [OF d] p by (auto simp: linked_ok_def kids_def)
  qed
  moreover have "c \<in> dom (fs_files fs)" if "fs_files fs p = Some f" "c \<in> set (entries (fl_list f))" for p f c
    using lk [OF that(1)] that(2) by (auto simp: linked_ok_def kids_def)
  moreover have "fl_readers f = int (length (filter (\<lambda>r. rd_dir r = p) rs))" if "fs_files fs p = Some f" for p f
    using reads that by (simp add: readers_ok_def)
  moreover have "closefile p fs \<noteq> None \<and> removefile p fs \<noteq> None \<and> createfile now p name uid perm fs \<noteq> None \<and> opendirfile p fs \<noteq> None \<and>
       (walkfile1 p elem fs = None \<longrightarrow> elem = bytes ''..'' \<and> (\<exists>d. fs_files fs p = Some d \<and> fl_parent d = None))"
    if p: "0 < ext p" for p by (rule client_total [OF ok reads p])
  moreover have "closedirfile r fs \<noteq> None \<and> (\<exists>d. fs_files fs (rd_dir r) = Some d \<and> nodes_from (rd_fl r) (fl_list d) \<noteq> None) \<and>
       (n \<le> length buf \<and> (\<forall>c f. c \<in> kids fs (rd_dir r) \<and> fs_files fs c = Some f \<longrightarrow> dir_ok (fl_dir f)) \<longrightarrow>
          readdirfile r buf n fs \<noteq> None)" if r: "r \<in> set rs" for r by (rule open_total [OF ok reads r])
  ultimately show ?thesis using fs_ok_live [OF ok] fs_ok_root [OF ok] by blast
qed

text \<open>A directory with a blank spot under an open reader: a file is created, the directory opened, the file removed.\<close>

lemma fsreach_held: "\<exists>fs. increff 0 (alloctree 0 [103] None 511) = Some fs \<and> fsreach fs (\<lambda>p. if p = 0 then 1 else 0) [] \<and> fs_root fs = 0"
proof -
  let ?fs = "alloctree 0 [103] None 511"
  obtain fs' where inc: "increff 0 ?fs = Some fs'" "fs_root fs' = 0"
    by (simp add: alloctree_def increff_def fupd_def Let_def)
  moreover have "(\<lambda>_ :: filep. 0 :: nat)(0 := 0 + 1) = (\<lambda>p. if p = 0 then 1 else 0)" by auto
  moreover have "fs_root ?fs = 0" by (simp add: alloctree_def Let_def)
  moreover from this have "fsreach fs' ((\<lambda>_. 0 :: nat)(0 := 0 + 1)) []"
    using fsreach.ref [OF fsreach.tree [of 0 "[103]" None 511], of 0 fs'] inc(1) by simp
  ultimately show ?thesis by (intro exI [of _ fs']) (simp only: simp_thms)
qed

lemma case_runs:
  "(case x of Some (Inr p, s) \<Rightarrow> P p s | _ \<Rightarrow> False) \<Longrightarrow> \<exists>p s. x = Some (Inr p :: 'e + 'a, s) \<and> P p s"
  "(case y of Some (Some r, s) \<Rightarrow> Q r s | _ \<Rightarrow> False) \<Longrightarrow> \<exists>r s. y = Some (Some r, s) \<and> Q r s"
  "(case z of Some (None, s) \<Rightarrow> R s | _ \<Rightarrow> False) \<Longrightarrow> \<exists>s. z = Some (None, s) \<and> R s"
  by (cases "fst (the x)"; auto split: option.splits)+

definition example_reader :: readdir where
  "example_reader = \<lparr>rd_dir = 0, rd_fl = Some 1\<rparr>"

lemma fsreach_example:
  "\<exists>fs. fsreach fs (\<lambda>p. if p = 0 then 1 else 0) [example_reader] \<and> (\<exists>d. fs_files fs 0 = Some d \<and> fl_list d = [(1, None)])"
proof -
  let ?ext = "\<lambda>p :: filep. if p = 0 then 1 else 0 :: nat"
  obtain fs0 where fs0: "increff 0 (alloctree 0 [103] None 511) = Some fs0" "fsreach fs0 ?ext []" using fsreach_held by blast
  have run: "case increff 0 (alloctree 0 [103] None 511) of Some fs0 \<Rightarrow> (case createfile 0 0 [120] None 420 fs0 of
      Some (Inr p, fs1) \<Rightarrow> (case opendirfile 0 fs1 of Some (Some r, fs2) \<Rightarrow>
        (case removefile 2 fs2 of Some (None, fs3) \<Rightarrow> p = 2 \<and> r = example_reader \<and>
           (case fs_files fs3 0 of Some d \<Rightarrow> fl_list d = [(1, None)] | _ \<Rightarrow> False) | _ \<Rightarrow> False) | _ \<Rightarrow> False) | _ \<Rightarrow> False)
      | _ \<Rightarrow> False" by code_simp
  obtain p fs1 r fs2 fs3 where c: "createfile 0 0 [120] None 420 fs0 = Some (Inr p, fs1)"
      "opendirfile 0 fs1 = Some (Some r, fs2)" "removefile 2 fs2 = Some (None, fs3)" "p = 2" "r = example_reader"
      "case fs_files fs3 0 of Some d \<Rightarrow> fl_list d = [(1, None)] | _ \<Rightarrow> False"
    using run unfolding fs0(1) option.case
    by (elim case_runs [THEN exE] exE conjE) (rule that)
  note c = c(1-3,6) [unfolded c(4,5)]
  have "fsreach fs1 (?ext(2 := ?ext 2 + 1)) []" using fsreach.create [OF fs0(2) _ c(1)] by simp
  then have "fsreach fs2 (?ext(2 := ?ext 2 + 1)) [example_reader]" using fsreach.opendir [OF _ _ c(2)] by simp
  from fsreach.remove [OF this _ c(3)]
  have "fsreach fs3 ((?ext(2 := ?ext 2 + 1))(2 := (?ext(2 := ?ext 2 + 1)) 2 - 1)) [example_reader]"
    by (simp add: dirs_held_def example_reader_def)
  moreover have "(?ext(2 := ?ext 2 + 1))(2 := (?ext(2 := ?ext 2 + 1)) 2 - 1) = ?ext" by (auto simp: fun_eq_iff)
  ultimately show ?thesis using c(4) by (auto split: option.splits)
qed

theorem filetree_safe_witness:
  "\<exists>fs ext. fsreach fs ext [example_reader] \<and> removefile 0 fs \<noteq> None \<and> createfile 0 0 [121] None 420 fs \<noteq> None \<and>
    readdirfile example_reader [0, 0] 2 fs \<noteq> None \<and> closedirfile example_reader fs \<noteq> None"
proof -
  obtain fs d where fs: "fsreach fs (\<lambda>p. if p = 0 then 1 else 0) [example_reader]" and d: "fs_files fs 0 = Some d" "fl_list d = [(1, None)]"
    using fsreach_example by blast
  have "fs_ok fs (\<lambda>p. if p = 0 then 1 else 0)" using fsreach_inv [OF fs] by (simp add: fs_inv_def)
  then have "linked_ok fs 0 d" using d(1) by (simp add: fs_ok_def tree_ok_def)
  then have "kids fs 0 = {}" using d(2) by (simp add: linked_ok_def)
  moreover have "rd_dir example_reader = 0" by (simp add: example_reader_def)
  ultimately have "removefile 0 fs \<noteq> None" "createfile 0 0 [121] None 420 fs \<noteq> None"
      "readdirfile example_reader [0, 0] 2 fs \<noteq> None" "closedirfile example_reader fs \<noteq> None"
    using filetree_safe [OF fs, of 0 "[121]" None 420 _ 2 "[0, 0]"] by simp_all
  then show ?thesis using fs by blast
qed

text \<open>
  That rule about open directories is needed, and \<^verbatim>\<open>rremove\<close> in \<^verbatim>\<open>srv.c\<close> breaks it: it gives up the
  fid's file while the fid's directory is still open, and the \<^verbatim>\<open>closedirfile\<close> of the last \<^verbatim>\<open>closefid\<close>
  then works on a freed file.
\<close>

theorem closedir_after_remove:
  "case createfile 0 0 [120] None 0x800001ff (alloctree 0 [103] None 511) of
     Some (Inr p, fs) \<Rightarrow> (case opendirfile p fs of
       Some (Some r, fs) \<Rightarrow> (case removefile p fs of Some (None, fs) \<Rightarrow> closedirfile r fs = None | _ \<Rightarrow> False)
     | _ \<Rightarrow> False)
   | _ \<Rightarrow> False"
  by code_simp

text \<open>
  C32. \<open>removefile\<close> takes a file out of the tree.  It succeeds exactly for a linked file other than the root
  that has no children; then the file has no parent any more and is gone unless others hold it, its
  directory has exactly one entry less, and every other file is as it was.  When it fails the tree
  stays as it is.  In both cases it consumes one reference of the caller, so that a removed file, with no
  parent, ends with its last reference, and the tree is consistent afterwards.
\<close>

theorem removefile_spec:
  assumes "fs_ok fs ext" "0 < ext p" "fs_files fs p = Some f"
  shows "\<exists>e fs'. removefile p fs = Some (e, fs') \<and> fs_ok fs' (ext(p := ext p - 1)) \<and> fs_root fs' = fs_root fs \<and>
    (case fl_parent f of
       Some fp \<Rightarrow>
         if fp \<noteq> p \<and> kids fs p = {} then e = None \<and> file_removed p fp ext fs fs'
         else e \<noteq> None \<and> (\<forall>q. q \<noteq> p \<longrightarrow> fs_files fs' q = fs_files fs q) \<and> same_links fs fs'
     | None \<Rightarrow> e \<noteq> None \<and> (\<forall>q. q \<noteq> p \<longrightarrow> fs_files fs' q = fs_files fs q) \<and> (p \<in> dom (fs_files fs') \<longrightarrow> same_links fs fs'))"
  by (rule removefile_ok [OF assms])

lemma example_tree_ok: "\<exists>fs. fs_ok fs (\<lambda>p. if p = 0 then 1 else 0) \<and> fs_root fs = 0"
  using fsreach_held fsreach_inv unfolding fs_inv_def by blast

text \<open>A file created in a new tree and removed again.\<close>

theorem removefile_spec_witness:
  "\<exists>fs fs' p. createfile 0 0 [120] None 420 (alloctree 0 [103] None 511) = Some (Inr p, fs) \<and>
    removefile p fs = Some (None, fs') \<and> p \<in> kids fs 0 \<and> fs_files fs' p = None \<and> kids fs' 0 = {}"
proof -
  let ?fs = "alloctree 0 [103] None 511"
  obtain d where d: "fs_files ?fs 0 = Some d" "q_type (d_qid (fl_dir d)) AND QTDIR \<noteq> 0" by (simp add: alloctree_def Let_def)
  have k: "kids ?fs q = {}" for q by (auto simp: kids_def alloctree_def Let_def split: if_splits)
  obtain p fs where c: "createfile 0 0 [120] None 420 ?fs = Some (Inr p, fs)" "fs_ok fs ((\<lambda>_. 0)(p := 1))"
      "p \<notin> dom (fs_files ?fs)" "kids fs 0 = {p}"
    using createfile_ok [OF alloctree_ok d(1), of 0 "[120]" None 420] d(2) k by (fastforce split: sum.splits)
  obtain f where f: "fs_files fs p = Some f" "fl_parent f = Some 0" using c(4) by (auto simp: kids_def)
  have "case createfile 0 0 [120] None 420 ?fs of
      Some (Inr p, fs) \<Rightarrow> (case removefile p fs of Some (None, _) \<Rightarrow> True | _ \<Rightarrow> False) | _ \<Rightarrow> False" by code_simp
  then obtain fs' where r: "removefile p fs = Some (None, fs')" using c(1) by (auto split: option.splits prod.splits)
  have "file_removed p 0 ((\<lambda>_. 0)(p := 1)) fs fs'"
    using removefile_spec [OF c(2) _ f(1)] r f(2) by (auto split: if_splits)
  then have "kids fs' 0 = {}" "fs_files fs' p = None" using c(4) by (auto simp: file_removed_def split: option.splits)
  then show ?thesis using c(1,4) r by blast
qed



text \<open>
  A walk step on a held directory finds the child with that name if there is one (the parent
  for \<^verbatim>\<open>..\<close>) and nothing otherwise; the reference to the directory is traded for one to the
  result, or dropped.
\<close>

theorem walkfile1_spec:
  assumes "fs_ok fs ext" "0 < ext dir" "fs_files fs dir = Some d" "elem \<noteq> bytes ''..''"
  shows "\<exists>r fs'. walkfile1 dir elem fs = Some (r, fs') \<and>
    (case r of
       None \<Rightarrow> fs_ok fs' (ext(dir := ext dir - 1)) \<and> (\<forall>c \<in> kids fs dir. fname fs c \<noteq> Some elem)
     | Some c \<Rightarrow> fs_ok fs' ((ext(c := ext c + 1))(dir := (ext(c := ext c + 1)) dir - 1)) \<and>
         c \<in> kids fs dir \<and> fname fs c = Some elem)"
proof -
  obtain r fs' where "walkfile1 dir elem fs = Some (r, fs')"
    "case r of
       None \<Rightarrow> fs_ok fs' (ext(dir := ext dir - 1)) \<and> (\<forall>c \<in> kids fs dir. fname fs c \<noteq> Some elem)
     | Some c \<Rightarrow> fs_ok fs' ((ext(c := ext c + 1))(dir := (ext(c := ext c + 1)) dir - 1)) \<and>
         (if elem = bytes ''..'' then fl_parent d = Some c else c \<in> kids fs dir \<and> fname fs c = Some elem)"
    using walkfile1_ok [OF assms(1-3) disjI1 [OF assms(4)]] by blast
  with assms(4) show ?thesis by (cases r) auto
qed

theorem walkfile1_spec_witness:
  "\<exists>fs r fs'. fs_ok fs (\<lambda>p. if p = 0 then 1 else 0) \<and> walkfile1 0 [120] fs = Some (r, fs')"
proof -
  obtain fs where fs: "fs_ok fs (\<lambda>p. if p = 0 then 1 else 0)" using example_tree_ok by blast
  then obtain d where d: "fs_files fs 0 = Some d" using fs_ok_live [of fs _ 0] by fastforce
  have "[120] \<noteq> bytes ''..''" by (simp add: bytes_def)
  from walkfile1_spec [OF fs _ d this] fs show ?thesis by auto
qed

text \<open>
  A directory read returns whole entries only, in list order from where the last read
  stopped, as many as fit: the bytes are the encodings of the next \<open>j\<close> nodes (a blank spot has
  none), they fit the count, and the entry after them does not.
\<close>

theorem readdirfile_spec:
  assumes "fs_files fs (rd_dir r) = Some d" "nodes_from (rd_fl r) (fl_list d) = Some l" "n \<le> length buf"
    "\<forall>c \<in> set (entries l). \<exists>f. fs_files fs c = Some f \<and> dir_ok (fl_dir f)"
  shows "\<exists>j tl. let w = ewire fs (take j l) in
    readdirfile r buf n fs = Some (length w, w @ tl, r\<lparr>rd_fl := (case drop j l of [] \<Rightarrow> None | n # _ \<Rightarrow> Some (fst n))\<rparr>) \<and>
    j \<le> length l \<and> length w + length tl = length buf \<and> length w \<le> n \<and>
    (j < length l \<longrightarrow> n < length w + 2 \<or>
       (\<exists>c f. snd (l ! j) = Some c \<and> fs_files fs c = Some f \<and> n < length w + wire_dirsize (fl_dir f)))"
proof -
  obtain j tl where j: "readdir_loop fs l buf 0 n = Some (take 0 buf @ ewire fs (take j l) @ tl,
       0 + length (ewire fs (take j l)), drop j l)" "j \<le> length l"
     "0 + length (ewire fs (take j l)) + length tl = length buf" "0 + length (ewire fs (take j l)) \<le> n"
     "j < length l \<longrightarrow> n < 0 + length (ewire fs (take j l)) + 2 \<or>
       (\<exists>c f. snd (l ! j) = Some c \<and> fs_files fs c = Some f \<and>
         n < 0 + length (ewire fs (take j l)) + wire_dirsize (fl_dir f))"
    using readdir_loop_ok [OF assms(4) le0 assms(3)] by blast
  then show ?thesis
    using assms(1,2) by (intro exI [of _ j] exI [of _ tl]) (simp add: readdirfile_def)
qed

theorem readdirfile_spec_witness:
  "\<exists>j tl. let w = ewire (alloctree 0 [103] None 511) (take j []) in
    readdirfile \<lparr>rd_dir = 0, rd_fl = None\<rparr> [1, 2] 2 (alloctree 0 [103] None 511) =
      Some (length w, w @ tl, \<lparr>rd_dir = 0, rd_fl = None\<rparr>) \<and> length w + length tl = length [1, 2 :: uchar]"
proof -
  obtain d where "fs_files (alloctree 0 [103] None 511) 0 = Some d"
    by (simp add: alloctree_def Let_def)
  then show ?thesis
    using readdirfile_spec [of "alloctree 0 [103] None 511" "\<lparr>rd_dir = 0, rd_fl = None\<rparr>" d "[]" 2 "[1, 2]"]
    by (simp add: nodes_from_def)
qed

text \<open>
  \<open>hasperm\<close> grants exactly the accesses in the union of the permission bits for others, for
  the owner if the user owns the file, and for the group if the user leads it; the early tests
  change nothing.
\<close>

lemma and_mono_word:
  fixes p :: "'a::len word"
  assumes "p AND m = p"
  shows "p AND (m OR x) = p"
proof (rule bit_word_eqI)
  fix i
  have "bit (p AND m) i = bit p i" by (simp only: assms)
  then show "bit (p AND (m OR x)) i = bit p i" by (auto simp: bit_simps)
qed

theorem hasperm_spec:
  assumes "d_uid (fl_dir f) = Some u" "d_gid (fl_dir f) = Some g"
  shows "hasperm f (Some user) p = Some (p AND
    ((d_mode (fl_dir f) AND 7) OR
     (if u = user then drop_bit 6 (d_mode (fl_dir f)) AND 7 else 0) OR
     (if g = user then drop_bit 3 (d_mode (fl_dir f)) AND 7 else 0)) = p)"
proof -
  let ?m = "d_mode (fl_dir f) AND 7" and ?u = "drop_bit 6 (d_mode (fl_dir f)) AND 7"
    and ?g = "drop_bit 3 (d_mode (fl_dir f)) AND 7"
  have "p AND ?m = p \<Longrightarrow> p AND (?m OR x) = p" "p AND ?m = p \<Longrightarrow> p AND (?m OR x OR y) = p"
    "p AND (?m OR ?u) = p \<Longrightarrow> p AND (?m OR ?u OR y) = p" for x y
    using and_mono_word [of p ?m x] and_mono_word [of p ?m "x OR y"] and_mono_word [of p "?m OR ?u" y]
    by (simp_all add: or.assoc)
  then show ?thesis
    using assms by (auto simp: hasperm_def streq_def Let_def or.assoc)
qed

theorem hasperm_spec_witness:
  "hasperm (zero_file\<lparr>fl_dir := zero_dir\<lparr>d_mode := 0x1a0, d_uid := Some [103], d_gid := Some [104]\<rparr>\<rparr>)
     (Some [104]) 4 = Some (4 AND ((0x1a0 AND 7) OR 0 OR (drop_bit 3 0x1a0 AND 7)) = (4 :: u32int))"
  using hasperm_spec [of "zero_file\<lparr>fl_dir := zero_dir\<lparr>d_mode := 0x1a0, d_uid := Some [103], d_gid := Some [104]\<rparr>\<rparr>"
    "[103]" "[104]" "[104]" 4]
  by simp

text \<open>
  A tree cannot be freed: \<open>freetree\<close> on any consistent tree aborts in \<^verbatim>\<open>freefile\<close>, which
  asserts a reference count of 0 that no linked file has.
\<close>

theorem freetree_aborts:
  assumes "fs_ok fs ext"
  shows "freetree k fs = None"
proof -
  obtain f where "fs_files fs (fs_root fs) = Some f" "fl_parent f = Some (fs_root fs)"
    using assms by (auto simp: fs_ok_def tree_ok_def)
  then show ?thesis unfolding freetree_def using freefiles_None [OF assms] by simp
qed

theorem freetree_aborts_witness: "freetree 100 (alloctree 0 [103] None 511) = None"
  by (rule freetree_aborts [OF alloctree_ok])

text \<open>
  Qids are not unique in a tree: the first file created in a new tree gets qid path 0, the
  path of the root, and if it is a plain directory its qid equals the root's.
\<close>

theorem first_directory_qid:
  assumes "createfile now 0 name uid perm (alloctree now' u gid mode) = Some (Inr p, fs)"
    "perm AND DMDIR \<noteq> 0" "perm AND DMAPPEND = 0" "perm AND DMEXCL = 0"
  shows "p \<noteq> fs_root fs \<and> (\<exists>f r. fs_files fs p = Some f \<and> fs_files fs (fs_root fs) = Some r \<and>
    d_qid (fl_dir f) = d_qid (fl_dir r))"
  using assms
  by (auto simp: createfile_def alloctree_def allocfile_def increff_def fupd_def new_qid_def zero_dir_def
    zero_file_def or_uid_def Let_def split: if_splits bind_splits option.splits)

theorem first_directory_qid_witness:
  "\<exists>p fs f r. createfile 0 0 [120] None 0x800001ff (alloctree 0 [103] None 511) = Some (Inr p, fs) \<and>
    p \<noteq> fs_root fs \<and> fs_files fs p = Some f \<and> fs_files fs (fs_root fs) = Some r \<and>
    d_qid (fl_dir f) = d_qid (fl_dir r)"
proof -
  obtain p fs where c: "createfile 0 0 [120] None 0x800001ff (alloctree 0 [103] None 511) = Some (Inr p, fs)"
    by (simp add: createfile_def alloctree_def allocfile_def increff_def fupd_def or_uid_def
      zero_file_def zero_dir_def Let_def)
  from first_directory_qid [OF this] c show ?thesis by simp
qed

end
