(* ===== verification/Srv9p.thy ===== *)
theory Srv9p
  imports Intmap FileTree
begin

text \<open>
  The 9P server library: the fid and request pools (\<^verbatim>\<open>lib9p/fid.c\<close>, \<^verbatim>\<open>lib9p/req.c\<close>), the message
  handlers and replies (\<^verbatim>\<open>lib9p/srv.c\<close>) and the reading helpers (\<^verbatim>\<open>lib9p/util.c\<close>,
  \<^verbatim>\<open>lib9p/dirread.c\<close>).

  A server state holds the heaps of fids and requests, the two pools (tables of \<open>Intmap\<close>), the
  file tree, and the log of what was written to the connection.  \<open>None\<close> is a crash: a nil or
  dangling pointer, a failed \<^verbatim>\<open>assert\<close>, an \<^verbatim>\<open>abort()\<close>.  The callbacks of the service are given by
  a configuration: a handler that calls one leaves the request outstanding, and the callback's
  \<^verbatim>\<open>respond\<close> is a later step.  Calls of \<^verbatim>\<open>destroyfid\<close> and \<^verbatim>\<open>destroyreq\<close> are logged.
\<close>

subsection \<open>State\<close>

type_synonym fidp = nat
type_synonym reqp = nat

record fid =
  fi_fid :: u32int
  fi_omode :: uchar            \<comment> \<open>a signed char; 255 is -1, not open\<close>
  fi_file :: "filep option"
  fi_uid :: cstr
  fi_qid :: qid
  fi_rdir :: "readdir option"
  fi_ref :: int
  fi_diroffset :: uvlong
  fi_dirindex :: u32int

record req =
  rq_tag :: ushort
  rq_ifcall :: fcall
  rq_ofcall :: fcall
  rq_d :: Dir
  rq_oldreq :: "reqp option"
  rq_fid :: "fidp option"
  rq_afid :: "fidp option"
  rq_newfid :: "fidp option"
  rq_ref :: int
  rq_pool :: bool              \<comment> \<open>not nil\<close>
  rq_responded :: bool
  rq_error :: cstr
  rq_flush :: "reqp list"

record srv =
  sv_fids :: "fidp \<rightharpoonup> fid"
  sv_reqs :: "reqp \<rightharpoonup> req"
  sv_fpool :: "fidp intmap"
  sv_rpool :: "reqp intmap"
  sv_msize :: u32int
  sv_fs :: fs
  sv_next :: nat
  sv_out :: "mem list"
  sv_destroyfid :: "fidp list"
  sv_destroyreq :: "reqp list"

text \<open>
  The service: whether it has a file tree and which callbacks it sets.  \<open>walk1\<close> and \<open>clone\<close>
  answer at once, with nil or an error.
\<close>

record service =
  cf_tree :: bool
  cf_auth :: bool
  cf_attach :: bool
  cf_open :: bool
  cf_create :: bool
  cf_read :: bool
  cf_write :: bool
  cf_remove :: bool
  cf_flush :: bool
  cf_stat :: bool
  cf_wstat :: bool
  cf_walk :: bool
  cf_walk1 :: "(fid \<Rightarrow> cstr \<Rightarrow> cstr \<times> qid) option"
  cf_clone :: "(fid \<Rightarrow> fid \<Rightarrow> cstr) option"
  cf_argv0 :: "uchar list"

definition setf :: "fidp \<Rightarrow> (fid \<Rightarrow> fid) \<Rightarrow> srv \<Rightarrow> srv option" where
  "setf p g s = map_option (\<lambda>f. s\<lparr>sv_fids := (sv_fids s)(p \<mapsto> g f)\<rparr>) (sv_fids s p)"

definition setr :: "reqp \<Rightarrow> (req \<Rightarrow> req) \<Rightarrow> srv \<Rightarrow> srv option" where
  "setr r g s = map_option (\<lambda>q. s\<lparr>sv_reqs := (sv_reqs s)(r \<mapsto> g q)\<rparr>) (sv_reqs s r)"

text \<open>A file operation inside the server.\<close>

definition on_fs :: "(fs \<Rightarrow> fs option) \<Rightarrow> srv \<Rightarrow> srv option" where
  "on_fs g s = map_option (\<lambda>fs. s\<lparr>sv_fs := fs\<rparr>) (g (sv_fs s))"

text \<open>A call on a pointer that may be nil.\<close>

definition if_some :: "'a option \<Rightarrow> ('a \<Rightarrow> 's \<Rightarrow> 's option) \<Rightarrow> 's \<Rightarrow> 's option" where
  "if_some x g s = (case x of None \<Rightarrow> Some s | Some y \<Rightarrow> g y s)"

subsection \<open>Fids\<close>

definition incfidref :: "fidp \<Rightarrow> srv option \<Rightarrow> srv option" where
  "incfidref p s = s \<bind> setf p (\<lambda>f. f\<lparr>fi_ref := fi_ref f + 1\<rparr>)"

definition closefid :: "fidp \<Rightarrow> srv \<Rightarrow> srv option" where
  "closefid p s = do {
     s \<leftarrow> setf p (\<lambda>f. f\<lparr>fi_ref := fi_ref f - 1\<rparr>) s;
     f \<leftarrow> sv_fids s p;
     if fi_ref f = 0 then do {
       s \<leftarrow> if_some (fi_rdir f) (\<lambda>rd. on_fs (closedirfile rd)) s;
       let s = s\<lparr>sv_destroyfid := sv_destroyfid s @ [p]\<rparr>;
       s \<leftarrow> if_some (fi_file f) (\<lambda>fl. on_fs (closefile fl)) s;
       Some (s\<lparr>sv_fids := (sv_fids s)(p := None)\<rparr>) }
     else Some s }"

definition new_fid :: "u32int \<Rightarrow> fid" where
  "new_fid k = \<lparr>fi_fid = k, fi_omode = 255, fi_file = None, fi_uid = None, fi_qid = zero_qid,
     fi_rdir = None, fi_ref = 2, fi_diroffset = 0, fi_dirindex = 0\<rparr>"

definition allocfid :: "u32int \<Rightarrow> srv \<Rightarrow> (fidp option \<times> srv) option" where
  "allocfid k s = do {
     let p = sv_next s;
     let s = s\<lparr>sv_fids := (sv_fids s)(p \<mapsto> new_fid k), sv_next := p + 1\<rparr>;
     let (ok, m) = caninsertkey (sv_fpool s) k p;
     let s = s\<lparr>sv_fpool := m\<rparr>;
     if \<not> ok then do { s \<leftarrow> closefid p s; s \<leftarrow> closefid p s; Some (None, s) }
     else Some (Some p, s) }"

definition lookupfid :: "u32int \<Rightarrow> srv \<Rightarrow> (fidp option \<times> srv) option" where
  "lookupfid k s =
     (let (v, s') = lookupkey incfidref (sv_fpool s) k (Some s) in map_option (\<lambda>s. (v, s)) s')"

definition removefid :: "u32int \<Rightarrow> srv \<Rightarrow> fidp option \<times> srv" where
  "removefid k s = (let (v, m) = deletekey (sv_fpool s) k in (v, s\<lparr>sv_fpool := m\<rparr>))"

text \<open>\<^verbatim>\<open>closefid(removefid(pool, fid->fid))\<close>, which faults when the number is free.\<close>

definition dropfid :: "fidp \<Rightarrow> srv \<Rightarrow> srv option" where
  "dropfid p s = do {
     f \<leftarrow> sv_fids s p;
     let (v, s) = removefid (fi_fid f) s;
     v \<leftarrow> v;
     closefid v s }"

subsection \<open>Requests\<close>

definition increqref :: "reqp \<Rightarrow> srv option \<Rightarrow> srv option" where
  "increqref r s = s \<bind> setr r (\<lambda>q. q\<lparr>rq_ref := rq_ref q + 1\<rparr>)"

definition new_req :: "ushort \<Rightarrow> req" where
  "new_req tag = \<lparr>rq_tag = tag, rq_ifcall = zero_fcall, rq_ofcall = zero_fcall, rq_d = zero_dir,
     rq_oldreq = None, rq_fid = None, rq_afid = None, rq_newfid = None, rq_ref = 2, rq_pool = True,
     rq_responded = False, rq_error = None, rq_flush = []\<rparr>"

definition lookupreq :: "ushort \<Rightarrow> srv \<Rightarrow> (reqp option \<times> srv) option" where
  "lookupreq tag s =
     (let (v, s') = lookupkey increqref (sv_rpool s) (ucast tag) (Some s) in map_option (\<lambda>s. (v, s)) s')"

definition removereq :: "ushort \<Rightarrow> srv \<Rightarrow> reqp option \<times> srv" where
  "removereq tag s = (let (v, m) = deletekey (sv_rpool s) (ucast tag) in (v, s\<lparr>sv_rpool := m\<rparr>))"

subsection \<open>What each reply does before it is sent\<close>

text \<open>The error strings of \<^verbatim>\<open>srv.c\<close>.\<close>

definition Ebadoffset :: mem where "Ebadoffset = bytes ''bad offset''"
definition Ebotch :: mem where "Ebotch = bytes ''9P protocol botch''"
definition Ecreatenondir :: mem where "Ecreatenondir = bytes ''create in non-directory''"
definition Edupfid :: mem where "Edupfid = bytes ''duplicate fid''"
definition Eduptag :: mem where "Eduptag = bytes ''duplicate tag''"
definition Eisdir :: mem where "Eisdir = bytes ''is a directory''"
definition Enocreate :: mem where "Enocreate = bytes ''create prohibited''"
definition Enoremove :: mem where "Enoremove = bytes ''remove prohibited''"
definition Enostat :: mem where "Enostat = bytes ''stat prohibited''"
definition Enotfound :: mem where "Enotfound = bytes ''file not found''"
definition Enowstat :: mem where "Enowstat = bytes ''wstat prohibited''"
definition Eperm :: mem where "Eperm = bytes ''permission denied''"
definition Eunknownfid :: mem where "Eunknownfid = bytes ''unknown fid''"
definition Ebaddir :: mem where "Ebaddir = bytes ''bad directory in wstat''"
definition Ewalknodir :: mem where "Ewalknodir = bytes ''walk in non-directory''"

definition ERRMAX :: nat where "ERRMAX = 128"

text \<open>\<^verbatim>\<open>snprint\<close> into an error buffer.\<close>

definition errbuf :: "uchar list \<Rightarrow> uchar list" where
  "errbuf s = take (ERRMAX - 1) s"

definition setfcallerror :: "cstr \<Rightarrow> fcall \<Rightarrow> fcall" where
  "setfcallerror e f = f\<lparr>fc_ename := e, fc_type := Rerror\<rparr>"

definition changemsize :: "u32int \<Rightarrow> srv \<Rightarrow> srv" where
  "changemsize n s = s\<lparr>sv_msize := n\<rparr>"

definition rversion :: "reqp \<Rightarrow> cstr \<Rightarrow> srv \<Rightarrow> srv option" where
  "rversion r e s = do {
     assertion (e = None);
     q \<leftarrow> sv_reqs s r;
     Some (changemsize (fc_msize (rq_ofcall q)) s) }"

definition rauth :: "reqp \<Rightarrow> cstr \<Rightarrow> srv \<Rightarrow> srv option" where
  "rauth r e s = do {
     q \<leftarrow> sv_reqs s r;
     if e \<noteq> None then if_some (rq_afid q) dropfid s else Some s }"

definition rattach :: "reqp \<Rightarrow> cstr \<Rightarrow> srv \<Rightarrow> srv option" where
  "rattach r e s = do {
     q \<leftarrow> sv_reqs s r;
     if e \<noteq> None then if_some (rq_fid q) dropfid s else Some s }"

definition rwalk :: "reqp \<Rightarrow> cstr \<Rightarrow> srv \<Rightarrow> srv option" where
  "rwalk r e s = do {
     q \<leftarrow> sv_reqs s r;
     let i = rq_ifcall q; let o' = rq_ofcall q;
     if e \<noteq> None \<or> fc_nwqid o' < fc_nwname i then do {
       s \<leftarrow> (if fc_fid i \<noteq> fc_newfid i then if_some (rq_newfid q) dropfid s else Some s);
       if fc_nwqid o' = 0 then
         (if e = None \<and> fc_nwname i \<noteq> 0 then setr r (\<lambda>q. q\<lparr>rq_error := Some Enotfound\<rparr>) s else Some s)
       else setr r (\<lambda>q. q\<lparr>rq_error := None\<rparr>) s }
     else do {
       nf \<leftarrow> rq_newfid q;
       if fc_nwqid o' = 0 then do {
         f \<leftarrow> rq_fid q; f \<leftarrow> sv_fids s f;
         setf nf (\<lambda>g. g\<lparr>fi_qid := fi_qid f\<rparr>) s }
       else if unat (fc_nwqid o') \<le> length (fc_wqid o') then
         setf nf (\<lambda>g. g\<lparr>fi_qid := fc_wqid o' ! (unat (fc_nwqid o') - 1)\<rparr>) s
       else None } }"

definition ropen :: "reqp \<Rightarrow> cstr \<Rightarrow> srv \<Rightarrow> srv option" where
  "ropen r e s = do {
     q \<leftarrow> sv_reqs s r;
     if e \<noteq> None then Some s
     else do {
       f \<leftarrow> rq_fid q;
       setf f (\<lambda>f. f\<lparr>fi_omode := fc_mode (rq_ifcall q), fi_qid := fc_qid (rq_ofcall q),
         fi_diroffset := (if q_type (fc_qid (rq_ofcall q)) AND QTDIR \<noteq> 0 then 0 else fi_diroffset f)\<rparr>) s } }"

definition rcreate :: "reqp \<Rightarrow> cstr \<Rightarrow> srv \<Rightarrow> srv option" where
  "rcreate r e s = do {
     q \<leftarrow> sv_reqs s r;
     if e \<noteq> None then Some s
     else do {
       f \<leftarrow> rq_fid q;
       setf f (\<lambda>f. f\<lparr>fi_omode := fc_mode (rq_ifcall q), fi_qid := fc_qid (rq_ofcall q)\<rparr>) s } }"

definition rread :: "reqp \<Rightarrow> cstr \<Rightarrow> srv \<Rightarrow> srv option" where
  "rread r e s = do {
     q \<leftarrow> sv_reqs s r;
     if e \<noteq> None then Some s
     else do {
       p \<leftarrow> rq_fid q; f \<leftarrow> sv_fids s p;
       if q_type (fi_qid f) AND QTDIR \<noteq> 0
       then setf p (\<lambda>f. f\<lparr>fi_diroffset := fi_diroffset f + ucast (fc_count (rq_ofcall q))\<rparr>) s
       else Some s } }"

definition rwrite :: "reqp \<Rightarrow> cstr \<Rightarrow> srv \<Rightarrow> srv option" where
  "rwrite r e s = do {
     q \<leftarrow> sv_reqs s r;
     if e \<noteq> None then Some s
     else do {
       p \<leftarrow> rq_fid q; f \<leftarrow> sv_fids s p;
       if_some (fi_file f) (\<lambda>fl. on_fs (fupd fl (\<lambda>n. n\<lparr>fl_dir := (fl_dir n)\<lparr>d_qid :=
         (d_qid (fl_dir n))\<lparr>q_vers := q_vers (d_qid (fl_dir n)) + 1\<rparr>\<rparr>\<rparr>))) s } }"

definition rremove :: "reqp \<Rightarrow> cstr \<Rightarrow> srv \<Rightarrow> srv option" where
  "rremove r e s = do {
     q \<leftarrow> sv_reqs s r;
     if e \<noteq> None then Some s
     else do {
       p \<leftarrow> rq_fid q; f \<leftarrow> sv_fids s p;
       case fi_file f of
         None \<Rightarrow> Some s
       | Some fl \<Rightarrow> do {
           (err, fs) \<leftarrow> removefile fl (sv_fs s);
           let s = s\<lparr>sv_fs := fs\<rparr>;
           s \<leftarrow> (case err of
                 None \<Rightarrow> Some s
               | Some m \<Rightarrow> do {
                   n \<leftarrow> fs_files fs fl;
                   name \<leftarrow> d_name (fl_dir n);
                   setr r (\<lambda>q. q\<lparr>rq_error :=
                     Some (errbuf (bytes ''remove '' @ name @ bytes '': '' @ m))\<rparr>) s });
           setf p (\<lambda>f. f\<lparr>fi_file := None\<rparr>) s } } }"

definition rstat :: "reqp \<Rightarrow> cstr \<Rightarrow> srv \<Rightarrow> srv option" where
  "rstat r e s = do {
     q \<leftarrow> sv_reqs s r;
     if e \<noteq> None then Some s
     else do {
       (k, tmp) \<leftarrow> convD2M (rq_d q) (replicate BIT16SZ 0) BIT16SZ;
       if k \<noteq> BIT16SZ then
         setr r (\<lambda>q. q\<lparr>rq_error := Some (bytes ''convD2M(_,_,BIT16SZ) did not return BIT16SZ'')\<rparr>) s
       else do {
         m \<leftarrow> GBIT16 tmp 0;
         let n = unat m + BIT16SZ;
         (k, statbuf) \<leftarrow> convD2M (rq_d q) (replicate n 0) n;
         let nstat = (of_nat k :: ushort);
         s \<leftarrow> setr r (\<lambda>q. q\<lparr>rq_ofcall := (rq_ofcall q)\<lparr>fc_nstat := nstat, fc_stat := take (unat nstat) statbuf\<rparr>\<rparr>) s;
         if unat nstat \<le> BIT16SZ then setr r (\<lambda>q. q\<lparr>rq_error := Some (bytes ''convD2M fails'')\<rparr>) s
         else Some s } } }"

subsection \<open>Releasing requests and replying\<close>

text \<open>
  \<open>rflush\<close> says whether the reply is delayed.  \<open>closereq\<close>, \<open>rflush\<close> and \<open>respond\<close> call each
  other; \<open>n\<close> bounds the depth of the recursion and \<open>None\<close> is also running out of it.
  \<open>retype\<close> is the part of \<open>respond\<close> that dispatches to the functions above; an unknown message
  type is \<^verbatim>\<open>assert(0)\<close>.
\<close>

definition retype :: "reqp \<Rightarrow> cstr \<Rightarrow> srv \<Rightarrow> srv option" where
  "retype r e s = do {
     q \<leftarrow> sv_reqs s r;
     let t = fc_type (rq_ifcall q);
     if t = Tversion then rversion r e s
     else if t = Tauth then rauth r e s
     else if t = Tattach then rattach r e s
     else if t = Twalk then rwalk r e s
     else if t = Topen then ropen r e s
     else if t = Tcreate then rcreate r e s
     else if t = Tread then rread r e s
     else if t = Twrite then rwrite r e s
     else if t = Tclunk then Some s
     else if t = Tremove then rremove r e s
     else if t = Tstat then rstat r e s
     else if t = Twstat then Some s
     else None }"

text \<open>Encoding the reply: \<^verbatim>\<open>wbuf\<close> is overwritten from the start, so its old contents do not matter.\<close>

definition put_reply :: "reqp \<Rightarrow> srv \<Rightarrow> (mem \<times> srv) option" where
  "put_reply r s = do {
     s \<leftarrow> setr r (\<lambda>q. q\<lparr>rq_ofcall := (rq_ofcall q)\<lparr>fc_tag := fc_tag (rq_ifcall q),
       fc_type := fc_type (rq_ifcall q) + 1\<rparr>\<rparr>) s;
     q \<leftarrow> sv_reqs s r;
     s \<leftarrow> (if rq_error q \<noteq> None
          then setr r (\<lambda>q. q\<lparr>rq_ofcall := setfcallerror (rq_error q) (rq_ofcall q)\<rparr>) s else Some s);
     q \<leftarrow> sv_reqs s r;
     (n, buf) \<leftarrow> convS2M (rq_ofcall q) (replicate (unat (sv_msize s)) 0) (unat (sv_msize s));
     assertion (0 < n);
     assertion (2 < n);
     Some (take n buf, s) }"

text \<open>
  Closing the fid before the write: \<open>ref == 1 + nflush\<close> means that nothing but the flushes that
  wait for the request refers to it.
\<close>

definition early_close :: "reqp \<Rightarrow> srv \<Rightarrow> srv option" where
  "early_close r s = do {
     s \<leftarrow> setr r (\<lambda>q. q\<lparr>rq_responded := True\<rparr>) s;
     q \<leftarrow> sv_reqs s r;
     if rq_pool q \<and> rq_ref q = 1 + int (length (rq_flush q)) then
       (case rq_fid q of
          None \<Rightarrow> Some s
        | Some p \<Rightarrow> do { s \<leftarrow> closefid p s; setr r (\<lambda>q. q\<lparr>rq_fid := None\<rparr>) s })
     else Some s }"

fun closereq :: "nat \<Rightarrow> reqp \<Rightarrow> srv \<Rightarrow> srv option"
  and rflush :: "nat \<Rightarrow> reqp \<Rightarrow> cstr \<Rightarrow> srv \<Rightarrow> (bool \<times> srv) option"
  and respond :: "nat \<Rightarrow> reqp \<Rightarrow> cstr \<Rightarrow> srv \<Rightarrow> srv option" where
  "closereq 0 r s = None"
| "closereq (Suc n) r s = do {
     s \<leftarrow> setr r (\<lambda>q. q\<lparr>rq_ref := rq_ref q - 1\<rparr>) s;
     q \<leftarrow> sv_reqs s r;
     if rq_ref q = 0 then do {
       s \<leftarrow> if_some (rq_fid q) closefid s;
       s \<leftarrow> if_some (rq_newfid q) closefid s;
       s \<leftarrow> if_some (rq_afid q) closefid s;
       s \<leftarrow> if_some (rq_oldreq q) (closereq n) s;
       s \<leftarrow> forM (\<lambda>f. respond n f None) (rq_flush q) s;
       Some (s\<lparr>sv_destroyreq := sv_destroyreq s @ [r], sv_reqs := (sv_reqs s)(r := None)\<rparr>) }
     else Some s }"
| "rflush 0 r e s = None"
| "rflush (Suc n) r e s = do {
     assertion (e = None);
     q \<leftarrow> sv_reqs s r;
     case rq_oldreq q of
       None \<Rightarrow> Some (False, s)
     | Some old \<Rightarrow> do {
         oq \<leftarrow> sv_reqs s old;
         if \<not> rq_responded oq then do {
           s \<leftarrow> setr old (\<lambda>oq. oq\<lparr>rq_flush := rq_flush oq @ [r]\<rparr>) s;
           Some (True, s) }
         else do {
           s \<leftarrow> closereq n old s;
           s \<leftarrow> setr r (\<lambda>q. q\<lparr>rq_oldreq := None\<rparr>) s;
           Some (False, s) } } }"
| "respond 0 r e s = None"
| "respond (Suc n) r e s = do {
     q \<leftarrow> sv_reqs s r;
     s \<leftarrow> (if rq_responded q then do { assertion (rq_pool q); Some (False, s) }
       else do {
         s \<leftarrow> setr r (\<lambda>q. q\<lparr>rq_error := e\<rparr>) s;
         (delayed, s) \<leftarrow> (if fc_type (rq_ifcall q) = Tflush then rflush n r e s
            else map_option (Pair False) (retype r e s));
         if delayed then Some (True, s)
         else do {
           (msg, s) \<leftarrow> put_reply r s;
           s \<leftarrow> (if rq_pool q then
                 (let (v, s) = removereq (fc_tag (rq_ifcall q)) s in if_some v (closereq n) s)
               else Some s);
           s \<leftarrow> early_close r s;
           Some (False, s\<lparr>sv_out := sv_out s @ [msg]\<rparr>) } });
     (case s of
        (True, s) \<Rightarrow> Some s
      | (False, s) \<Rightarrow> do {
          q \<leftarrow> sv_reqs s r;
          s \<leftarrow> forM (\<lambda>f s. do {
            s \<leftarrow> setr f (\<lambda>q. q\<lparr>rq_oldreq := None\<rparr>) s;
            respond n f None s }) (rq_flush q) s;
          s \<leftarrow> setr r (\<lambda>q. q\<lparr>rq_flush := []\<rparr>) s;
          if rq_pool q then closereq n r s
          else Some (s\<lparr>sv_reqs := (sv_reqs s)(r := None)\<rparr>) }) }"

text \<open>
  Enough depth: a delayed flush is younger than the request it waits for, and each level of
  flushes takes two calls.
\<close>

definition depth :: "srv \<Rightarrow> nat" where
  "depth s = 2 * sv_next s + 4"

definition answer :: "reqp \<Rightarrow> cstr \<Rightarrow> srv \<Rightarrow> srv option" where
  "answer r e s = respond (depth s) r e s"

definition allocreq :: "ushort \<Rightarrow> srv \<Rightarrow> (reqp option \<times> srv) option" where
  "allocreq tag s = do {
     let r = sv_next s;
     let s = s\<lparr>sv_reqs := (sv_reqs s)(r \<mapsto> new_req tag), sv_next := r + 1\<rparr>;
     let (ok, m) = caninsertkey (sv_rpool s) (ucast tag) r;
     let s = s\<lparr>sv_rpool := m\<rparr>;
     if \<not> ok then do { s \<leftarrow> closereq 1 r s; s \<leftarrow> closereq 1 r s; Some (None, s) }
     else Some (Some r, s) }"

subsection \<open>Message handlers\<close>

abbreviation (input) OREAD :: uchar where "OREAD \<equiv> 0"
abbreviation (input) OWRITE :: uchar where "OWRITE \<equiv> 1"
abbreviation (input) ORDWR :: uchar where "ORDWR \<equiv> 2"
abbreviation (input) OEXEC :: uchar where "OEXEC \<equiv> 3"
abbreviation (input) OTRUNC :: uchar where "OTRUNC \<equiv> 16"
abbreviation (input) ORCLOSE :: uchar where "ORCLOSE \<equiv> 64"
abbreviation (input) NOTOPEN :: uchar where "NOTOPEN \<equiv> 255"

text \<open>
  Most handlers start by finding the fid, or refusing; \<open>with_fid\<close> is that beginning with the rest
  of the handler as its continuation.
\<close>

definition with_fid :: "reqp \<Rightarrow> (srv \<Rightarrow> (fidp option \<times> srv) option) \<Rightarrow>
    (req \<Rightarrow> fidp \<Rightarrow> fid \<Rightarrow> srv \<Rightarrow> srv option) \<Rightarrow> srv \<Rightarrow> srv option" where
  "with_fid r lookup k s = do {
     (p, s) \<leftarrow> lookup s;
     s \<leftarrow> setr r (\<lambda>q. q\<lparr>rq_fid := p\<rparr>) s;
     case p of
       None \<Rightarrow> answer r (Some Eunknownfid) s
     | Some p \<Rightarrow> do { q \<leftarrow> sv_reqs s r; f \<leftarrow> sv_fids s p; k q p f s } }"

text \<open>A callback takes the request over; without one the handler answers itself.\<close>

definition hand_over :: "bool \<Rightarrow> reqp \<Rightarrow> cstr \<Rightarrow> srv \<Rightarrow> srv option" where
  "hand_over cb r e s = (if cb then Some s else answer r e s)"

definition sversion :: "service \<Rightarrow> reqp \<Rightarrow> srv \<Rightarrow> srv option" where
  "sversion cf r s = do {
     q \<leftarrow> sv_reqs s r;
     v \<leftarrow> fc_version (rq_ifcall q);
     if take 2 v \<noteq> bytes ''9P'' then do {
       s \<leftarrow> setr r (\<lambda>q. q\<lparr>rq_ofcall := (rq_ofcall q)\<lparr>fc_version := Some (bytes ''unknown'')\<rparr>\<rparr>) s;
       answer r None s }
     else do {
       let s = (if fc_msize (rq_ifcall q) < sv_msize s then s\<lparr>sv_msize := fc_msize (rq_ifcall q)\<rparr> else s);
       s \<leftarrow> setr r (\<lambda>q. q\<lparr>rq_ofcall := (rq_ofcall q)\<lparr>fc_version := Some (bytes ''9P2000''),
         fc_msize := sv_msize s\<rparr>\<rparr>) s;
       answer r None s } }"

definition sauth :: "service \<Rightarrow> reqp \<Rightarrow> srv \<Rightarrow> srv option" where
  "sauth cf r s = do {
     q \<leftarrow> sv_reqs s r;
     (p, s) \<leftarrow> allocfid (fc_afid (rq_ifcall q)) s;
     s \<leftarrow> setr r (\<lambda>q. q\<lparr>rq_afid := p\<rparr>) s;
     if p = None then answer r (Some Edupfid) s
     else hand_over (cf_auth cf) r
       (Some (errbuf (cf_argv0 cf @ bytes '': authentication not required''))) s }"

definition sattach :: "service \<Rightarrow> reqp \<Rightarrow> srv \<Rightarrow> srv option" where
  "sattach cf r s = do {
     q \<leftarrow> sv_reqs s r;
     (p, s) \<leftarrow> allocfid (fc_fid (rq_ifcall q)) s;
     s \<leftarrow> setr r (\<lambda>q. q\<lparr>rq_fid := p\<rparr>) s;
     case p of
       None \<Rightarrow> answer r (Some Edupfid) s
     | Some p \<Rightarrow> do {
         s \<leftarrow> setr r (\<lambda>q. q\<lparr>rq_afid := None\<rparr>) s;
         (a, s) \<leftarrow> (if fc_afid (rq_ifcall q) \<noteq> NOFID then lookupfid (fc_afid (rq_ifcall q)) s
            else Some (None, s));
         s \<leftarrow> setr r (\<lambda>q. q\<lparr>rq_afid := a\<rparr>) s;
         if fc_afid (rq_ifcall q) \<noteq> NOFID \<and> a = None then answer r (Some Eunknownfid) s
         else do {
           uname \<leftarrow> fc_uname (rq_ifcall q);
           s \<leftarrow> setf p (\<lambda>f. f\<lparr>fi_uid := Some uname\<rparr>) s;
           s \<leftarrow> (if cf_tree cf then do {
               let root = fs_root (sv_fs s);
               s \<leftarrow> on_fs (increff root) s;
               n \<leftarrow> fs_files (sv_fs s) root;
               let qid = d_qid (fl_dir n);
               s \<leftarrow> setr r (\<lambda>q. q\<lparr>rq_ofcall := (rq_ofcall q)\<lparr>fc_qid := qid\<rparr>\<rparr>) s;
               setf p (\<lambda>f. f\<lparr>fi_file := Some root, fi_qid := qid\<rparr>) s }
             else Some s);
           hand_over (cf_attach cf) r None s } } }"

definition sflush :: "service \<Rightarrow> reqp \<Rightarrow> srv \<Rightarrow> srv option" where
  "sflush cf r s = do {
     q \<leftarrow> sv_reqs s r;
     (old, s) \<leftarrow> lookupreq (fc_oldtag (rq_ifcall q)) s;
     s \<leftarrow> setr r (\<lambda>q. q\<lparr>rq_oldreq := old\<rparr>) s;
     if old = None \<or> old = Some r then answer r None s
     else hand_over (cf_flush cf) r None s }"

text \<open>The walk over a file tree: \<open>i\<close> counts the names walked so far.\<close>

fun filewalk_loop :: "nat \<Rightarrow> cstr list \<Rightarrow> filep \<Rightarrow> fcall \<Rightarrow> fs \<Rightarrow> (nat \<times> filep option \<times> fcall \<times> fs) option" where
  "filewalk_loop i [] f o' fs = Some (i, Some f, o', fs)"
| "filewalk_loop i (w # ws) f o' fs = do {
     w \<leftarrow> w;
     (g, fs) \<leftarrow> walkfile f w fs;
     case g of
       None \<Rightarrow> Some (i, None, o', fs)
     | Some g \<Rightarrow> do {
         n \<leftarrow> fs_files fs g;
         assertion (i < length (fc_wqid o'));
         filewalk_loop (i + 1) ws g (o'\<lparr>fc_wqid := (fc_wqid o')[i := d_qid (fl_dir n)]\<rparr>) fs } }"

definition filewalk :: "reqp \<Rightarrow> srv \<Rightarrow> srv option" where
  "filewalk r s = do {
     q \<leftarrow> sv_reqs s r;
     p \<leftarrow> rq_fid q; fd \<leftarrow> sv_fids s p;
     f \<leftarrow> fi_file fd;
     s \<leftarrow> on_fs (increff f) s;
     assertion (unat (fc_nwname (rq_ifcall q)) \<le> length (fc_wname (rq_ifcall q)));
     (i, g, o', fs) \<leftarrow> filewalk_loop 0 (take (unat (fc_nwname (rq_ifcall q))) (fc_wname (rq_ifcall q)))
       f (rq_ofcall q) (sv_fs s);
     let s = s\<lparr>sv_fs := fs\<rparr>;
     s \<leftarrow> setr r (\<lambda>q. q\<lparr>rq_ofcall := o'\<lparr>fc_nwqid := of_nat i\<rparr>\<rparr>) s;
     s \<leftarrow> (case g of
           None \<Rightarrow> Some s
         | Some g \<Rightarrow> do {
             nf \<leftarrow> rq_newfid q;
             n \<leftarrow> fs_files (sv_fs s) g;
             setf nf (\<lambda>f. f\<lparr>fi_file := Some g, fi_qid := d_qid (fl_dir n)\<rparr>) s });
     answer r None s }"

text \<open>\<open>walkandclone\<close> with \<^verbatim>\<open>oldwalk1\<close> and \<^verbatim>\<open>oldclone\<close>, the service's \<^verbatim>\<open>walk1\<close> and \<^verbatim>\<open>clone\<close>.\<close>

fun walk1_loop ::
  "(fid \<Rightarrow> cstr \<Rightarrow> cstr \<times> qid) \<Rightarrow> nat \<Rightarrow> cstr list \<Rightarrow> fidp \<Rightarrow> fcall \<Rightarrow> srv \<Rightarrow> (nat \<times> cstr \<times> fcall \<times> srv) option" where
  "walk1_loop walk1 i [] nf o' s = Some (i, None, o', s)"
| "walk1_loop walk1 i (w # ws) nf o' s = do {
     f \<leftarrow> sv_fids s nf;
     let (e, qid) = walk1 f w;
     if e \<noteq> None then Some (i, e, o', s)
     else do {
       s \<leftarrow> setf nf (\<lambda>f. f\<lparr>fi_qid := qid\<rparr>) s;
       assertion (i < length (fc_wqid o'));
       walk1_loop walk1 (i + 1) ws nf (o'\<lparr>fc_wqid := (fc_wqid o')[i := qid]\<rparr>) s } }"

definition walkandclone ::
  "reqp \<Rightarrow> (fid \<Rightarrow> cstr \<Rightarrow> cstr \<times> qid) \<Rightarrow> (fid \<Rightarrow> fid \<Rightarrow> cstr) option \<Rightarrow> srv \<Rightarrow> srv option" where
  "walkandclone r walk1 clone s = do {
     q \<leftarrow> sv_reqs s r;
     p \<leftarrow> rq_fid q; nf \<leftarrow> rq_newfid q;
     if p = nf \<and> fc_nwname (rq_ifcall q) > 1 then
       answer r (Some (bytes ''lib9p: unused documented feature not implemented'')) s
     else do {
       f \<leftarrow> sv_fids s p; g \<leftarrow> sv_fids s nf;
       s \<leftarrow> (if p \<noteq> nf then setf nf (\<lambda>g. g\<lparr>fi_qid := fi_qid f\<rparr>) s else Some s);
       g \<leftarrow> sv_fids s nf;
       let e = (if p \<noteq> nf then (case clone of None \<Rightarrow> None | Some c \<Rightarrow> c f g) else None);
       if e \<noteq> None then answer r e s
       else do {
         assertion (unat (fc_nwname (rq_ifcall q)) \<le> length (fc_wname (rq_ifcall q)));
         (i, e, o', s) \<leftarrow> walk1_loop walk1 0
           (take (unat (fc_nwname (rq_ifcall q))) (fc_wname (rq_ifcall q))) nf (rq_ofcall q) s;
         s \<leftarrow> setr r (\<lambda>q. q\<lparr>rq_ofcall := o'\<lparr>fc_nwqid := of_nat i\<rparr>\<rparr>) s;
         answer r (if i = 0 then e else None) s } } }"

text \<open>\<^verbatim>\<open>sysfatal\<close> without a walk function ends the server.\<close>

definition swalk :: "service \<Rightarrow> reqp \<Rightarrow> srv \<Rightarrow> srv option" where
  "swalk cf r s = do {
     q \<leftarrow> sv_reqs s r;
     with_fid r (lookupfid (fc_fid (rq_ifcall q))) (\<lambda>q p f s.
       if fi_omode f \<noteq> NOTOPEN then answer r (Some (bytes ''cannot clone open fid'')) s
       else if fc_nwname (rq_ifcall q) \<noteq> 0 \<and> q_type (fi_qid f) AND QTDIR = 0 then
         answer r (Some Ewalknodir) s
       else do {
         (nf, s) \<leftarrow> (if fc_fid (rq_ifcall q) \<noteq> fc_newfid (rq_ifcall q)
            then allocfid (fc_newfid (rq_ifcall q)) s
            else map_option (Pair (Some p)) (setf p (\<lambda>f. f\<lparr>fi_ref := fi_ref f + 1\<rparr>) s));
         s \<leftarrow> setr r (\<lambda>q. q\<lparr>rq_newfid := nf\<rparr>) s;
         case nf of
           None \<Rightarrow> answer r (Some Edupfid) s
         | Some nf \<Rightarrow> do {
             s \<leftarrow> (if fc_fid (rq_ifcall q) \<noteq> fc_newfid (rq_ifcall q)
                then do { u \<leftarrow> fi_uid f; setf nf (\<lambda>g. g\<lparr>fi_uid := Some u\<rparr>) s } else Some s);
             if fi_file f \<noteq> None then filewalk r s
             else (case cf_walk1 cf of
                 Some walk1 \<Rightarrow> walkandclone r walk1 (cf_clone cf) s
               | None \<Rightarrow> if cf_walk cf then Some s else None) } }) s }"

text \<open>The access that an open mode asks for.\<close>

definition open_access :: "uchar \<Rightarrow> u32int" where
  "open_access mode =
     (let p = (if mode AND 3 = OREAD then AREAD else if mode AND 3 = OWRITE then AWRITE
        else if mode AND 3 = ORDWR then AREAD OR AWRITE else AEXEC) in
      if mode AND OTRUNC \<noteq> 0 then p OR AWRITE else p)"

definition sopen :: "service \<Rightarrow> reqp \<Rightarrow> srv \<Rightarrow> srv option" where
  "sopen cf r s = do {
     q \<leftarrow> sv_reqs s r;
     with_fid r (lookupfid (fc_fid (rq_ifcall q))) (\<lambda>q p f s.
       let mode = fc_mode (rq_ifcall q); isdir = q_type (fi_qid f) AND QTDIR \<noteq> 0 in
       if fi_omode f \<noteq> NOTOPEN then answer r (Some Ebotch) s
       else if isdir \<and> mode AND NOT ORCLOSE \<noteq> OREAD then answer r (Some Eisdir) s
       else do {
         s \<leftarrow> setr r (\<lambda>q. q\<lparr>rq_ofcall := (rq_ofcall q)\<lparr>fc_qid := fi_qid f\<rparr>\<rparr>) s;
         if isdir \<and> open_access mode \<noteq> AREAD then answer r (Some Eperm) s
         else (case fi_file f of
             None \<Rightarrow> hand_over (cf_open cf) r None s
           | Some fl \<Rightarrow> do {
               n \<leftarrow> fs_files (sv_fs s) fl;
               ok \<leftarrow> hasperm n (fi_uid f) (open_access mode);
               if \<not> ok then answer r (Some Eperm) s
               else do {
                 okp \<leftarrow> (if mode AND ORCLOSE \<noteq> 0 then do {
                     pp \<leftarrow> fl_parent n; pn \<leftarrow> fs_files (sv_fs s) pp; hasperm pn (fi_uid f) AWRITE }
                   else Some True);
                 if \<not> okp then answer r (Some Eperm) s
                 else do {
                   let qid = d_qid (fl_dir n);
                   s \<leftarrow> setr r (\<lambda>q. q\<lparr>rq_ofcall := (rq_ofcall q)\<lparr>fc_qid := qid\<rparr>\<rparr>) s;
                   if q_type qid AND QTDIR \<noteq> 0 then do {
                     (rd, fs) \<leftarrow> opendirfile fl (sv_fs s);
                     let s = s\<lparr>sv_fs := fs\<rparr>;
                     s \<leftarrow> setf p (\<lambda>f. f\<lparr>fi_rdir := rd\<rparr>) s;
                     if rd = None then answer r (Some (bytes ''opendirfile failed'')) s
                     else hand_over (cf_open cf) r None s }
                   else hand_over (cf_open cf) r None s } } }) }) s }"

definition screate :: "service \<Rightarrow> reqp \<Rightarrow> srv \<Rightarrow> srv option" where
  "screate cf r s = do {
     q \<leftarrow> sv_reqs s r;
     with_fid r (lookupfid (fc_fid (rq_ifcall q))) (\<lambda>q p f s.
       if fi_omode f \<noteq> NOTOPEN then answer r (Some Ebotch) s
       else if q_type (fi_qid f) AND QTDIR = 0 then answer r (Some Ecreatenondir) s
       else do {
         ok \<leftarrow> (case fi_file f of
             None \<Rightarrow> Some True
           | Some fl \<Rightarrow> do { n \<leftarrow> fs_files (sv_fs s) fl; hasperm n (fi_uid f) AWRITE });
         if \<not> ok then answer r (Some Eperm) s
         else hand_over (cf_create cf) r (Some Enocreate) s }) s }"

text \<open>The count a reply has room for.\<close>

definition clip_count :: "srv \<Rightarrow> u32int \<Rightarrow> u32int" where
  "clip_count s n = (if n > sv_msize s - IOHDRSZ then sv_msize s - IOHDRSZ else n)"

definition sread :: "service \<Rightarrow> reqp \<Rightarrow> srv \<Rightarrow> srv option" where
  "sread cf r s = do {
     q \<leftarrow> sv_reqs s r;
     with_fid r (lookupfid (fc_fid (rq_ifcall q))) (\<lambda>q p f s.
       let i = rq_ifcall q; isdir = q_type (fi_qid f) AND QTDIR \<noteq> 0 in
       if bit (fc_count i) 31 then answer r (Some Ebotch) s
       else if bit (fc_offset i) 63 \<or> isdir \<and> fc_offset i \<noteq> 0 \<and> fc_offset i \<noteq> fi_diroffset f then
         answer r (Some Ebadoffset) s
       else do {
         let count = clip_count s (fc_count i);
         s \<leftarrow> setr r (\<lambda>q. q\<lparr>rq_ifcall := (rq_ifcall q)\<lparr>fc_count := count\<rparr>,
           rq_ofcall := (rq_ofcall q)\<lparr>fc_data := replicate (unat count) 0\<rparr>\<rparr>) s;
         let om = fi_omode f AND 3;
         if om \<noteq> OREAD \<and> om \<noteq> ORDWR \<and> om \<noteq> OEXEC then answer r (Some Ebotch) s
         else if isdir \<and> fi_file f \<noteq> None then do {
           rd \<leftarrow> fi_rdir f;
           (m, buf, rd) \<leftarrow> readdirfile rd (replicate (unat count) 0) (unat count) (sv_fs s);
           s \<leftarrow> setf p (\<lambda>f. f\<lparr>fi_rdir := Some rd\<rparr>) s;
           s \<leftarrow> setr r (\<lambda>q. q\<lparr>rq_ofcall := (rq_ofcall q)\<lparr>fc_count := of_nat m, fc_data := take m buf\<rparr>\<rparr>) s;
           answer r None s }
         else hand_over (cf_read cf) r (Some (bytes ''no srv->read'')) s }) s }"

text \<open>\<^verbatim>\<open>%ux\<close> of the promoted \<^verbatim>\<open>char\<close>.\<close>

fun hexdigits :: "nat \<Rightarrow> uchar list" where
  "hexdigits n = (let d = n mod 16; c = (if d < 10 then of_nat (48 + d) else of_nat (87 + d)) in
     if n < 16 then [c] else hexdigits (n div 16) @ [c])"

declare hexdigits.simps [simp del]

definition swrite :: "service \<Rightarrow> reqp \<Rightarrow> srv \<Rightarrow> srv option" where
  "swrite cf r s = do {
     q \<leftarrow> sv_reqs s r;
     with_fid r (lookupfid (fc_fid (rq_ifcall q))) (\<lambda>q p f s.
       let i = rq_ifcall q in
       if bit (fc_count i) 31 then answer r (Some Ebotch) s
       else if bit (fc_offset i) 63 then answer r (Some Ebotch) s
       else do {
         let count = clip_count s (fc_count i);
         s \<leftarrow> setr r (\<lambda>q. q\<lparr>rq_ifcall := (rq_ifcall q)\<lparr>fc_count := count\<rparr>\<rparr>) s;
         let om = fi_omode f AND 3;
         if om \<noteq> OWRITE \<and> om \<noteq> ORDWR then
           answer r (Some (errbuf (bytes ''write on fid with open mode 0x'' @
             hexdigits (unat (scast (fi_omode f) :: u32int))))) s
         else hand_over (cf_write cf) r (Some (bytes ''no srv->write'')) s }) s }"

definition sclunk :: "service \<Rightarrow> reqp \<Rightarrow> srv \<Rightarrow> srv option" where
  "sclunk cf r s = do {
     q \<leftarrow> sv_reqs s r;
     with_fid r (\<lambda>s. Some (removefid (fc_fid (rq_ifcall q)) s)) (\<lambda>q p f s. answer r None s) s }"

definition sremove :: "service \<Rightarrow> reqp \<Rightarrow> srv \<Rightarrow> srv option" where
  "sremove cf r s = do {
     q \<leftarrow> sv_reqs s r;
     with_fid r (\<lambda>s. Some (removefid (fc_fid (rq_ifcall q)) s)) (\<lambda>q p f s. do {
       ok \<leftarrow> (case fi_file f of
           None \<Rightarrow> Some True
         | Some fl \<Rightarrow> do {
             n \<leftarrow> fs_files (sv_fs s) fl; pp \<leftarrow> fl_parent n; pn \<leftarrow> fs_files (sv_fs s) pp;
             hasperm pn (fi_uid f) AWRITE });
       if \<not> ok then answer r (Some Eperm) s
       else hand_over (cf_remove cf) r (if fi_file f \<noteq> None then None else Some Enoremove) s }) s }"

definition sstat :: "service \<Rightarrow> reqp \<Rightarrow> srv \<Rightarrow> srv option" where
  "sstat cf r s = do {
     q \<leftarrow> sv_reqs s r;
     with_fid r (lookupfid (fc_fid (rq_ifcall q))) (\<lambda>q p f s. do {
       s \<leftarrow> (case fi_file f of
           None \<Rightarrow> Some s
         | Some fl \<Rightarrow> do { n \<leftarrow> fs_files (sv_fs s) fl; setr r (\<lambda>q. q\<lparr>rq_d := fl_dir n\<rparr>) s });
       hand_over (cf_stat cf) r (if fi_file f \<noteq> None then None else Some Enostat) s }) s }"

text \<open>
  \<open>convM2D\<close> unpacks the strings over the message they come from; they never overtake the read
  position, so an area of the message's size stands for it.
\<close>

definition swstat :: "service \<Rightarrow> reqp \<Rightarrow> srv \<Rightarrow> srv option" where
  "swstat cf r s = do {
     q \<leftarrow> sv_reqs s r;
     with_fid r (lookupfid (fc_fid (rq_ifcall q))) (\<lambda>q p f s.
       let i = rq_ifcall q in
       if \<not> cf_wstat cf then answer r (Some Enowstat) s
       else do {
         (st, dr) \<leftarrow> convM2D (fc_stat i) (unat (fc_nstat i)) (rq_d q) (Some (replicate (unat (fc_nstat i)) 0));
         let (n, d) = (case dr of None \<Rightarrow> (0, rq_d q) | Some nd \<Rightarrow> nd);
         if n \<noteq> unat (fc_nstat i) then answer r (Some Ebaddir) s
         else do {
               s \<leftarrow> setr r (\<lambda>q. q\<lparr>rq_d := d\<rparr>) s;
               if NOT (d_type d) \<noteq> 0 then answer r (Some (bytes ''wstat -- attempt to change type'')) s
               else if NOT (d_dev d) \<noteq> 0 then answer r (Some (bytes ''wstat -- attempt to change dev'')) s
               else if NOT (q_type (d_qid d)) \<noteq> 0 \<or> NOT (q_vers (d_qid d)) \<noteq> 0 \<or> NOT (q_path (d_qid d)) \<noteq> 0
               then answer r (Some (bytes ''wstat -- attempt to change qid'')) s
               else if d_muid d \<noteq> None \<and> d_muid d \<noteq> Some []
               then answer r (Some (bytes ''wstat -- attempt to change muid'')) s
               else if NOT (d_mode d) \<noteq> 0 \<and>
                 drop_bit 24 (d_mode d AND DMDIR) \<noteq> ucast (q_type (fi_qid f) AND QTDIR)
               then answer r (Some (bytes ''wstat -- attempt to change DMDIR bit'')) s
               else Some s } }) s }"

subsection \<open>Helpers for read callbacks\<close>

text \<open>
  \<open>n\<close> is the length of \<^verbatim>\<open>s\<close> as a non-negative \<^verbatim>\<open>long\<close>; the offset is a \<^verbatim>\<open>vlong\<close> that \<open>sread\<close> has
  found non-negative.
\<close>

definition readbuf :: "req \<Rightarrow> mem \<Rightarrow> nat \<Rightarrow> req option" where
  "readbuf q s n =
     (let i = rq_ifcall q; off = unat (fc_offset i) in
      if off \<ge> n then Some (q\<lparr>rq_ofcall := (rq_ofcall q)\<lparr>fc_count := 0\<rparr>\<rparr>)
      else do {
        let count = (if off + unat (fc_count i) > n then of_nat (n - off) else fc_count i);
        b \<leftarrow> memget s off (unat count);
        d \<leftarrow> memput (fc_data (rq_ofcall q)) 0 b;
        Some (q\<lparr>rq_ofcall := (rq_ofcall q)\<lparr>fc_count := count, fc_data := d\<rparr>\<rparr>) })"

definition readstr :: "req \<Rightarrow> uchar list \<Rightarrow> req option" where
  "readstr q s = readbuf q s (length s)"

text \<open>
  \<open>dirread9p\<close> with its generator \<open>gen\<close>, which returns the directory entry with a number or nil
  at the end; \<open>m\<close> bytes of the room \<open>n\<close> are filled.  The recursion ends because an entry has more
  than two bytes.
\<close>

function dirread_loop :: "(nat \<Rightarrow> Dir option) \<Rightarrow> nat \<Rightarrow> mem \<Rightarrow> nat \<Rightarrow> nat \<Rightarrow> (nat \<times> mem \<times> nat) option" where
  "dirread_loop gen start buf m n =
     (if m < n then
        (case gen start of
           None \<Rightarrow> Some (start, buf, m)
         | Some d \<Rightarrow>
             (case convD2M d (drop m buf) (n - m) of
                None \<Rightarrow> None
              | Some (rv, b) \<Rightarrow>
                  if rv \<le> BIT16SZ then Some (start, take m buf @ b, m)
                  else dirread_loop gen (start + 1) (take m buf @ b) (m + rv) n))
      else Some (start, buf, m))"
  by pat_completeness auto
termination by (relation "measure (\<lambda>(gen, start, buf, m, n). n - m)") auto

definition dirread9p :: "(nat \<Rightarrow> Dir option) \<Rightarrow> reqp \<Rightarrow> srv \<Rightarrow> srv option" where
  "dirread9p gen r s = do {
     q \<leftarrow> sv_reqs s r;
     p \<leftarrow> rq_fid q; f \<leftarrow> sv_fids s p;
     let start = (if fc_offset (rq_ifcall q) = 0 then 0 else unat (fi_dirindex f));
     (start, buf, m) \<leftarrow> dirread_loop gen start (fc_data (rq_ofcall q)) 0 (unat (fc_count (rq_ifcall q)));
     s \<leftarrow> setf p (\<lambda>f. f\<lparr>fi_dirindex := of_nat start\<rparr>) s;
     setr r (\<lambda>q. q\<lparr>rq_ofcall := (rq_ofcall q)\<lparr>fc_count := of_nat m, fc_data := buf\<rparr>\<rparr>) s }"

subsection \<open>The service loop\<close>

text \<open>
  \<open>read9pmsg\<close> on the bytes still to come: the result (the length of the message, 0 at the end of
  the stream, -1 for a bad length), the message and the rest of the stream.
\<close>

definition read9pmsg :: "mem \<Rightarrow> nat \<Rightarrow> int \<times> mem \<times> mem" where
  "read9pmsg stream n =
     (let hd = take BIT32SZ stream; rest = drop BIT32SZ stream in
      if length hd \<noteq> BIT32SZ then (0, hd, rest)
      else (let w = of_le32 hd in
        if sint w \<le> int BIT32SZ \<or> unat w > n then (-1, hd, rest)
        else (let len = unat w - BIT32SZ; b = take len rest in
          if length b < len then (0, hd @ b, drop len rest)
          else (int (BIT32SZ + length b), hd @ b, drop len rest))))"

text \<open>
  \<open>getreq\<close> returns nil, which ends the loop, or the request for the next message.  A duplicate tag
  gets a made-up request outside of the pool, with one reference and an error.
\<close>

definition getreq :: "mem \<Rightarrow> srv \<Rightarrow> (reqp option \<times> mem \<times> srv) option" where
  "getreq stream s =
     (let (n, msg, rest) = read9pmsg stream (unat (sv_msize s)) in
      if n \<le> 0 then Some (None, rest, s)
      else do {
        (b, v) \<leftarrow> convM2S msg (nat n) zero_fcall;
        case v of
          None \<Rightarrow> Some (None, rest, s)
        | Some (k, f) \<Rightarrow>
            if k \<noteq> nat n then Some (None, rest, s)
            else do {
              (r, s) \<leftarrow> allocreq (fc_tag f) s;
              case r of
                None \<Rightarrow> (let r = sv_next s in
                  Some (Some r, rest, s\<lparr>sv_reqs := (sv_reqs s)(r \<mapsto> (new_req (fc_tag f))
                      \<lparr>rq_ifcall := f, rq_ref := 1, rq_pool := False, rq_error := Some Eduptag\<rparr>),
                    sv_next := r + 1\<rparr>))
              | Some r \<Rightarrow> do {
                  s \<leftarrow> setr r (\<lambda>q. q\<lparr>rq_ifcall := f, rq_ofcall := zero_fcall\<rparr>) s;
                  Some (Some r, rest, s) } } })"

definition dispatch :: "service \<Rightarrow> reqp \<Rightarrow> srv \<Rightarrow> srv option" where
  "dispatch cf r s = do {
     q \<leftarrow> sv_reqs s r;
     let t = fc_type (rq_ifcall q);
     if rq_error q \<noteq> None then answer r (rq_error q) s
     else if t = Tversion then sversion cf r s
     else if t = Tauth then sauth cf r s
     else if t = Tattach then sattach cf r s
     else if t = Tflush then sflush cf r s
     else if t = Twalk then swalk cf r s
     else if t = Topen then sopen cf r s
     else if t = Tcreate then screate cf r s
     else if t = Tread then sread cf r s
     else if t = Twrite then swrite cf r s
     else if t = Tclunk then sclunk cf r s
     else if t = Tremove then sremove cf r s
     else if t = Tstat then sstat cf r s
     else if t = Twstat then swstat cf r s
     else answer r (Some (bytes ''unknown message'')) s }"

definition srv_start :: "u32int \<Rightarrow> fs \<Rightarrow> srv" where
  "srv_start msize fs = changemsize (if msize = 0 then 8 * 8192 + IOHDRSZ else msize)
     \<lparr>sv_fids = Map.empty, sv_reqs = Map.empty, sv_fpool = allocmap, sv_rpool = allocmap, sv_msize = 0,
      sv_fs = fs, sv_next = 0, sv_out = [], sv_destroyfid = [], sv_destroyreq = []\<rparr>"

text \<open>The loop of \<open>srv\<close>, with a bound on the number of messages.\<close>

fun srv_loop :: "nat \<Rightarrow> service \<Rightarrow> mem \<Rightarrow> srv \<Rightarrow> srv option" where
  "srv_loop 0 cf stream s = Some s"
| "srv_loop (Suc k) cf stream s = do {
     (r, stream, s) \<leftarrow> getreq stream s;
     case r of
       None \<Rightarrow> Some s
     | Some r \<Rightarrow> do { s \<leftarrow> dispatch cf r s; srv_loop k cf stream s } }"

definition freefidpool :: "srv \<Rightarrow> srv" where
  "freefidpool s = (freemap (\<lambda>p s. s\<lparr>sv_destroyfid := sv_destroyfid s @ [p]\<rparr>) (sv_fpool s) s)
     \<lparr>sv_fpool := allocmap\<rparr>"

definition freereqpool :: "srv \<Rightarrow> srv" where
  "freereqpool s = (freemap (\<lambda>r s. s\<lparr>sv_destroyreq := sv_destroyreq s @ [r]\<rparr>) (sv_rpool s) s)
     \<lparr>sv_rpool := allocmap\<rparr>"

definition srv_end :: "srv \<Rightarrow> srv" where
  "srv_end s = freereqpool (freefidpool (s\<lparr>sv_msize := 0\<rparr>))"

definition responderror :: "reqp \<Rightarrow> uchar list \<Rightarrow> srv \<Rightarrow> srv option" where
  "responderror r rerr s = answer r (Some (errbuf rerr)) s"

end
