(* ===== verification/SrvFids.thy ===== *)
theory SrvFids
  imports Srv9p
begin

text \<open>
  Reference counting of fids in the 9P server: the count of a fid is the number of pool entries
  and request members that point to it, exactly, so that a fid is destroyed when and only when
  nothing refers to it any more.  The invariant is for services without a file tree; \<open>xf p\<close> counts
  the references to \<open>p\<close> that the running code holds in its variables.
\<close>

subsection \<open>Runs that may crash\<close>

text \<open>
  \<open>runs g m Q\<close>: if \<open>m\<close> returns, its result satisfies \<open>Q\<close>, and under the condition \<open>g\<close> it does
  return.  The rules follow the shape of the code.
\<close>

definition runs :: "bool \<Rightarrow> 'a option \<Rightarrow> ('a \<Rightarrow> bool) \<Rightarrow> bool" where
  "runs g m Q \<longleftrightarrow> (case m of None \<Rightarrow> \<not> g | Some x \<Rightarrow> Q x)"

lemma runs_Some [simp]: "runs g (Some x) Q \<longleftrightarrow> Q x"
  by (simp add: runs_def)

lemma runs_bind: "runs g m R \<Longrightarrow> (\<And>x. R x \<Longrightarrow> runs g (k x) Q) \<Longrightarrow> runs g (m \<bind> k) Q"
  by (cases m) (auto simp: runs_def)

lemma runs_mono: "runs g m R \<Longrightarrow> (\<And>x. R x \<Longrightarrow> Q x) \<Longrightarrow> (h \<Longrightarrow> g) \<Longrightarrow> runs h m Q"
  by (auto simp: runs_def split: option.splits)

lemma runs_None: "(g \<Longrightarrow> False) \<Longrightarrow> runs g None Q"
  by (auto simp: runs_def)

lemma runs_exists: "\<exists>x. m = Some x \<and> Q x \<Longrightarrow> runs g m Q"
  by auto

lemma runs_assertion: "(g \<Longrightarrow> b) \<Longrightarrow> (b \<Longrightarrow> Q ()) \<Longrightarrow> runs g (assertion b) Q"
  by (auto simp: assertion_def runs_def)

lemma runs_if: "(c \<Longrightarrow> runs g a Q) \<Longrightarrow> (\<not> c \<Longrightarrow> runs g b Q) \<Longrightarrow> runs g (if c then a else b) Q"
  by simp

lemma runs_forM:
  assumes "I xs s" "\<And>x ys s. I (x # ys) s \<Longrightarrow> set (x # ys) \<subseteq> set xs \<Longrightarrow> runs g (f x s) (I ys)"
  shows "runs g (forM f xs s) (I [])"
  using assms
proof (induction xs arbitrary: s)
  case (Cons x xs)
  show ?case
    unfolding forM.simps
  proof (rule runs_bind [of g _ "I xs"])
    show "runs g (f x s) (I xs)" using Cons.prems by auto
    show "runs g (forM f xs s') (I [])" if "I xs s'" for s'
      using that Cons.prems(2) by (intro Cons.IH) auto
  qed
qed simp

subsection \<open>Weights of a heap\<close>

text \<open>The sum of a weight over the objects of a heap, and how it changes with one object.\<close>

definition wsum :: "('v \<Rightarrow> nat) \<Rightarrow> ('k \<rightharpoonup> 'v) \<Rightarrow> nat" where
  "wsum w m = (\<Sum>k \<in> dom m. w (the (m k)))"

lemma wsum_del:
  assumes "finite (dom m)" "m k = Some v"
  shows "wsum w (m(k := None)) + w v = wsum w m"
proof -
  have "wsum w m = w (the (m k)) + (\<Sum>x \<in> dom m - {k}. w (the (m x)))"
    unfolding wsum_def using assms by (intro sum.remove) auto
  moreover have "wsum w (m(k := None)) = (\<Sum>x \<in> dom m - {k}. w (the (m x)))"
    unfolding wsum_def by (rule sum.cong) auto
  ultimately show ?thesis using assms(2) by simp
qed

lemma wsum_new:
  assumes "finite (dom m)" "m k = None"
  shows "wsum w (m(k \<mapsto> v)) = wsum w m + w v"
proof -
  have "finite (dom (m(k \<mapsto> v)))" using assms(1) by simp
  from wsum_del [OF this, of k v w] assms(2) show ?thesis by (simp add: fun_upd_idem)
qed

lemma wsum_upd:
  assumes "finite (dom m)" "m k = Some u"
  shows "wsum w (m(k \<mapsto> v)) + w u = wsum w m + w v"
  using wsum_del [OF assms, of w] wsum_new [of "m(k := None)" k w v] assms(1) by simp

lemma wsum_ge:
  assumes "finite (dom m)" "m k = Some v"
  shows "w v \<le> wsum w m"
  using wsum_del [OF assms, of w] by simp

lemma wsum_0: "(\<And>k v. m k = Some v \<Longrightarrow> w v = 0) \<Longrightarrow> wsum w m = 0"
  unfolding wsum_def by (rule sum.neutral) auto

subsection \<open>The invariant\<close>

definition slots :: "req \<Rightarrow> fidp \<Rightarrow> nat" where
  "slots q p = of_bool (rq_fid q = Some p) + of_bool (rq_afid q = Some p) + of_bool (rq_newfid q = Some p)"

definition frefs :: "srv \<Rightarrow> fidp \<Rightarrow> nat" where
  "frefs s p = of_bool (p \<in> ran (mget (sv_fpool s))) +
     wsum (\<lambda>q. slots q p) (sv_reqs s)"

definition fid_ok :: "srv \<Rightarrow> (fidp \<Rightarrow> nat) \<Rightarrow> fidp \<Rightarrow> fid option \<Rightarrow> bool" where
  "fid_ok s xf p fo \<longleftrightarrow> (case fo of
       None \<Rightarrow> frefs s p + xf p = 0
     | Some f \<Rightarrow> fi_ref f = int (frefs s p + xf p) \<and> 0 < frefs s p + xf p \<and> fi_file f = None \<and>
         fi_rdir f = None \<and> p < sv_next s)"

definition finv :: "srv \<Rightarrow> (fidp \<Rightarrow> nat) \<Rightarrow> bool" where
  "finv s xf \<longleftrightarrow> intmap_ok (sv_fpool s) \<and> finite (dom (sv_reqs s)) \<and> distinct (sv_destroyfid s) \<and>
     (\<forall>p \<in> set (sv_destroyfid s). sv_fids s p = None \<and> p < sv_next s) \<and>
     (\<forall>k p. mget (sv_fpool s) k = Some p \<longrightarrow> (\<exists>f. sv_fids s p = Some f \<and> fi_fid f = k)) \<and>
     (\<forall>p. fid_ok s xf p (sv_fids s p))"

lemma finv_change:
  assumes "finv s xf" "\<And>p. frefs s' p + xf' p = frefs s p + xf p" "sv_fids s' = sv_fids s"
    "sv_fpool s' = sv_fpool s" "sv_next s \<le> sv_next s'" "finite (dom (sv_reqs s'))"
    "sv_destroyfid s' = sv_destroyfid s"
  shows "finv s' xf'"
proof -
  have "fid_ok s' xf' p (sv_fids s p)" for p
  proof -
    have "fid_ok s xf p (sv_fids s p)" using assms(1) by (simp add: finv_def)
    then show ?thesis using assms(2) [of p] assms(5) by (cases "sv_fids s p") (auto simp: fid_ok_def)
  qed
  then show ?thesis using assms(1,3-7) by (fastforce simp add: finv_def)
qed

text \<open>The components the invariant reads.\<close>

definition fview :: "srv \<Rightarrow> (fidp \<rightharpoonup> fid) \<times> (reqp \<rightharpoonup> req) \<times> fidp intmap \<times> nat \<times> fidp list" where
  "fview s = (sv_fids s, sv_reqs s, sv_fpool s, sv_next s, sv_destroyfid s)"

lemma finv_cong: "finv s xf \<Longrightarrow> fview s' = fview s \<Longrightarrow> finv s' xf"
  by (rule finv_change) (auto simp: fview_def frefs_def finv_def)

lemma frefs_others [simp]:
  "frefs (s\<lparr>sv_fids := x1\<rparr>) p = frefs s p" "frefs (s\<lparr>sv_rpool := x2\<rparr>) p = frefs s p"
  "frefs (s\<lparr>sv_out := x3\<rparr>) p = frefs s p" "frefs (s\<lparr>sv_msize := x4\<rparr>) p = frefs s p"
  "frefs (s\<lparr>sv_destroyfid := x5\<rparr>) p = frefs s p" "frefs (s\<lparr>sv_destroyreq := x6\<rparr>) p = frefs s p"
  "frefs (s\<lparr>sv_next := x7\<rparr>) p = frefs s p"
  by (simp_all add: frefs_def)

text \<open>Requests change, appear and go.\<close>

lemma finv_req:
  assumes "finv s xf" "sv_reqs s r = Some q" "\<And>p. slots q' p + xf' p = slots q p + xf p"
  shows "finv (s\<lparr>sv_reqs := (sv_reqs s)(r \<mapsto> q')\<rparr>) xf'"
proof (rule finv_change [OF assms(1)])
  have fin: "finite (dom (sv_reqs s))" using assms(1) by (simp add: finv_def)
  show "frefs (s\<lparr>sv_reqs := (sv_reqs s)(r \<mapsto> q')\<rparr>) p + xf' p = frefs s p + xf p" for p
    using wsum_upd [OF fin assms(2), of "\<lambda>q. slots q p" q'] assms(3) [of p] by (simp add: frefs_def)
  show "finite (dom (sv_reqs (s\<lparr>sv_reqs := (sv_reqs s)(r \<mapsto> q')\<rparr>)))" using fin by simp
qed simp_all

lemma finv_del:
  assumes "finv s xf" "sv_reqs s r = Some q"
  shows "finv (s\<lparr>sv_reqs := (sv_reqs s)(r := None)\<rparr>) (\<lambda>p. xf p + slots q p)"
proof (rule finv_change [OF assms(1)])
  have fin: "finite (dom (sv_reqs s))" using assms(1) by (simp add: finv_def)
  show "frefs (s\<lparr>sv_reqs := (sv_reqs s)(r := None)\<rparr>) p + (xf p + slots q p) = frefs s p + xf p" for p
    using wsum_del [OF fin assms(2), of "\<lambda>q. slots q p"] by (simp add: frefs_def)
  show "finite (dom (sv_reqs (s\<lparr>sv_reqs := (sv_reqs s)(r := None)\<rparr>)))" using fin by simp
qed simp_all

lemma finv_new:
  assumes "finv s xf" "sv_reqs s r = None" "\<And>p. slots q p = 0" "sv_next s \<le> n"
  shows "finv (s\<lparr>sv_reqs := (sv_reqs s)(r \<mapsto> q), sv_next := n\<rparr>) xf"
proof (rule finv_change [OF assms(1)])
  have fin: "finite (dom (sv_reqs s))" using assms(1) by (simp add: finv_def)
  show "frefs (s\<lparr>sv_reqs := (sv_reqs s)(r \<mapsto> q), sv_next := n\<rparr>) p + xf p = frefs s p + xf p" for p
    using wsum_new [OF fin assms(2), of "\<lambda>q. slots q p" q] assms(3) by (simp add: frefs_def)
  show "finite (dom (sv_reqs (s\<lparr>sv_reqs := (sv_reqs s)(r \<mapsto> q), sv_next := n\<rparr>)))" using fin by simp
qed (use assms(4) in simp_all)

lemma finv_live: "finv s xf \<Longrightarrow> 0 < xf p \<Longrightarrow> \<exists>f. sv_fids s p = Some f"
proof -
  assume a: "finv s xf" "0 < xf p"
  then have "fid_ok s xf p (sv_fids s p)" by (simp add: finv_def)
  with a(2) show ?thesis by (cases "sv_fids s p") (auto simp: fid_ok_def)
qed

lemma finv_slot:
  assumes "finv s xf" "sv_reqs s r = Some q" "0 < slots q p"
  shows "\<exists>f. sv_fids s p = Some f"
proof -
  have "fid_ok s xf p (sv_fids s p)" "finite (dom (sv_reqs s))" using assms(1) by (simp_all add: finv_def)
  moreover from this(2) have "0 < frefs s p"
    using wsum_ge [of "sv_reqs s" r q "\<lambda>q. slots q p"] assms(2,3) by (simp add: frefs_def)
  ultimately show ?thesis by (cases "sv_fids s p") (auto simp: fid_ok_def)
qed

text \<open>The fid itself changes in members that do not matter here.\<close>

lemma finv_fid:
  assumes "finv s xf" "sv_fids s p = Some f" "fi_ref g = fi_ref f" "fi_fid g = fi_fid f" "fi_file g = None"
    "fi_rdir g = None"
  shows "finv (s\<lparr>sv_fids := (sv_fids s)(p \<mapsto> g)\<rparr>) xf"
proof -
  have ok: "fid_ok s xf q (sv_fids s q)" for q using assms(1) by (simp add: finv_def)
  have "fid_ok (s\<lparr>sv_fids := (sv_fids s)(p \<mapsto> g)\<rparr>) xf q (((sv_fids s)(p \<mapsto> g)) q)" for q
    using ok [of q] assms(2-6) by (cases "sv_fids s q"; cases "q = p") (auto simp: fid_ok_def)
  moreover have "\<exists>f. ((sv_fids s)(p \<mapsto> g)) q = Some f \<and> fi_fid f = k" if "mget (sv_fpool s) k = Some q" for k q
  proof -
    have "\<exists>f. sv_fids s q = Some f \<and> fi_fid f = k" using that assms(1) by (simp add: finv_def)
    then show ?thesis using assms(2,4) by (cases "q = p") auto
  qed
  moreover have "((sv_fids s)(p \<mapsto> g)) q = None \<and> q < sv_next s" if "q \<in> set (sv_destroyfid s)" for q
    using that assms(1,2) by (cases "q = p") (auto simp: finv_def)
  ultimately show ?thesis using assms(1) by (simp add: finv_def)
qed

subsection \<open>The operations on fids keep the counts\<close>

lemma closefid_eq:
  assumes "sv_fids s p = Some f" "fi_file f = None" "fi_rdir f = None"
  shows "closefid p s = Some (if fi_ref f = 1
    then s\<lparr>sv_fids := (sv_fids s)(p := None), sv_destroyfid := sv_destroyfid s @ [p]\<rparr>
    else s\<lparr>sv_fids := (sv_fids s)(p \<mapsto> f\<lparr>fi_ref := fi_ref f - 1\<rparr>)\<rparr>)"
  using assms by (simp add: closefid_def setf_def if_some_def Let_def)

text \<open>One reference to one fid goes or comes.\<close>

lemma fid_ok_cong: "fid_ok s xf p fo \<Longrightarrow> frefs s' p + xf' p = frefs s p + xf p \<Longrightarrow> sv_next s' = sv_next s \<Longrightarrow>
  fid_ok s' xf' p fo"
  by (auto simp: fid_ok_def split: option.splits)

lemma finv_closefid:
  assumes inv: "finv s xf" and held: "0 < xf p"
  shows "\<exists>s'. closefid p s = Some s' \<and> finv s' (xf(p := xf p - 1)) \<and>
    (\<exists>F D. s' = s\<lparr>sv_fids := F, sv_destroyfid := D\<rparr>)"
proof -
  obtain f where f: "sv_fids s p = Some f" using finv_live [OF inv held] by blast
  have ok: "fid_ok s xf q (sv_fids s q)" for q using inv by (simp add: finv_def)
  have pf: "fi_ref f = int (frefs s p + xf p)" "fi_file f = None" "fi_rdir f = None" "p < sv_next s"
    using ok [of p] f by (simp_all add: fid_ok_def)
  define xf' where "xf' = xf(p := xf p - 1)"
  let ?dead = "s\<lparr>sv_fids := (sv_fids s)(p := None), sv_destroyfid := sv_destroyfid s @ [p]\<rparr>"
  let ?live = "s\<lparr>sv_fids := (sv_fids s)(p \<mapsto> f\<lparr>fi_ref := fi_ref f - 1\<rparr>)\<rparr>"
  have notin: "p \<notin> set (sv_destroyfid s)" using inv f by (auto simp: finv_def)
  have other: "fid_ok s' xf' q (sv_fids s q)" if "q \<noteq> p" "s' = ?dead \<or> s' = ?live" for q s'
    using that ok [of q] by (auto simp: xf'_def elim!: fid_ok_cong)
  have pool: "\<exists>g. sv_fids s q = Some g \<and> fi_fid g = k" if "mget (sv_fpool s) k = Some q" for k q
    using inv that by (simp add: finv_def)
  have *: "finv (if fi_ref f = 1 then ?dead else ?live) xf'"
  proof (cases "fi_ref f = 1")
    case True
    then have z: "frefs s p = 0" "xf p = 1" using pf(1) held by linarith+
    then have "p \<notin> ran (mget (sv_fpool s))" by (auto simp: frefs_def split: if_splits)
    then have "mget (sv_fpool s) k \<noteq> Some p" for k by (auto simp: ran_def)
    moreover have "fid_ok ?dead xf' q (((sv_fids s)(p := None)) q)" for q
      using other [of q ?dead] z by (cases "q = p") (auto simp: fid_ok_def xf'_def)
    ultimately show ?thesis using inv True pool notin pf(4)
      by (auto simp: finv_def)
  next
    case False
    have "fid_ok ?live xf' q (((sv_fids s)(p \<mapsto> f\<lparr>fi_ref := fi_ref f - 1\<rparr>)) q)" for q
      using other [of q ?live] False pf held
      by (cases "q = p") (auto simp: fid_ok_def xf'_def of_nat_diff)
    moreover have "\<exists>g. ((sv_fids s)(p \<mapsto> f\<lparr>fi_ref := fi_ref f - 1\<rparr>)) q = Some g \<and> fi_fid g = k"
      if "mget (sv_fpool s) k = Some q" for k q
      using pool [OF that] f by (cases "q = p") auto
    ultimately show ?thesis using inv False notin
      by (auto simp: finv_def)
  qed
  show ?thesis
  proof (cases "fi_ref f = 1")
    case True
    with closefid_eq [OF f pf(2,3)] * show ?thesis
      unfolding xf'_def by (intro exI [of _ ?dead] conjI) auto
  next
    case False
    with closefid_eq [OF f pf(2,3)] * show ?thesis
      unfolding xf'_def by (intro exI [of _ ?live] conjI) (auto intro!: exI [of _ "sv_destroyfid s"])
  qed
qed

lemma finv_incfidref:
  assumes inv: "finv s xf" and f: "sv_fids s p = Some f"
  shows "finv (s\<lparr>sv_fids := (sv_fids s)(p \<mapsto> f\<lparr>fi_ref := fi_ref f + 1\<rparr>)\<rparr>) (xf(p := xf p + 1))"
    (is "finv ?s ?xf")
proof -
  have ok: "fid_ok s xf q (sv_fids s q)" for q using inv by (simp add: finv_def)
  have "fid_ok ?s ?xf q (((sv_fids s)(p \<mapsto> f\<lparr>fi_ref := fi_ref f + 1\<rparr>)) q)" for q
    using ok [of q] f by (cases "q = p"; cases "sv_fids s q") (auto simp: fid_ok_def)
  moreover have "\<exists>g. ((sv_fids s)(p \<mapsto> f\<lparr>fi_ref := fi_ref f + 1\<rparr>)) q = Some g \<and> fi_fid g = k"
    if "mget (sv_fpool s) k = Some q" for k q
  proof -
    have "\<exists>g. sv_fids s q = Some g \<and> fi_fid g = k" using inv that by (simp add: finv_def)
    then show ?thesis using f by (cases "q = p") auto
  qed
  moreover have "p \<notin> set (sv_destroyfid s)" using inv f by (auto simp: finv_def)
  ultimately show ?thesis using inv by (auto simp: finv_def)
qed

text \<open>\<open>hold v xf\<close>: a reference to the fid \<open>v\<close> names, if any, is held too.\<close>

definition hold :: "fidp option \<Rightarrow> (fidp \<Rightarrow> nat) \<Rightarrow> fidp \<Rightarrow> nat" where
  "hold v xf p = xf p + of_bool (v = Some p)"

lemma hold_None [simp]: "hold None xf = xf"
  by (rule ext) (simp add: hold_def)

lemma hold_Some: "hold (Some p) xf = xf(p := xf p + 1)"
  by (rule ext) (simp add: hold_def)

lemma finv_close_held:
  assumes "finv s (hold (Some p) xf)"
  shows "\<exists>s'. closefid p s = Some s' \<and> finv s' xf \<and> (\<exists>F D. s' = s\<lparr>sv_fids := F, sv_destroyfid := D\<rparr>)"
  using finv_closefid [OF assms, of p] by (simp add: hold_Some)

lemma pool_fid: "finv s xf \<Longrightarrow> mget (sv_fpool s) k = Some p \<Longrightarrow> \<exists>f. sv_fids s p = Some f \<and> fi_fid f = k"
  by (simp add: finv_def)

lemma ran_delete_inj:
  assumes "\<And>k'. m k' = Some p \<Longrightarrow> k' = k \<or> m k \<noteq> Some p"
  shows "p \<in> ran (m(k := None)) \<longleftrightarrow> p \<in> ran m \<and> m k \<noteq> Some p"
  using assms by (auto simp: ran_def)

lemma finv_lookupfid:
  assumes inv: "finv s xf"
  shows "\<exists>F. lookupfid k s = Some (mget (sv_fpool s) k, s\<lparr>sv_fids := F\<rparr>) \<and>
    finv (s\<lparr>sv_fids := F\<rparr>) (hold (mget (sv_fpool s) k) xf) \<and>
    (\<forall>p. map_option (fi_ref_update (\<lambda>_. 0)) (F p) = map_option (fi_ref_update (\<lambda>_. 0)) (sv_fids s p))"
proof (cases "mget (sv_fpool s) k")
  case None
  then show ?thesis using inv by (intro exI [of _ "sv_fids s"]) (simp add: lookupfid_def lookupkey_spec)
next
  case (Some p)
  then obtain f where f: "sv_fids s p = Some f" using pool_fid [OF inv] by blast
  show ?thesis using Some f finv_incfidref [OF inv f]
    by (intro exI [of _ "(sv_fids s)(p \<mapsto> f\<lparr>fi_ref := fi_ref f + 1\<rparr>)"])
      (simp add: lookupfid_def lookupkey_spec incfidref_def setf_def hold_Some)
qed

lemma finv_removefid:
  assumes inv: "finv s xf"
  shows "\<exists>m. removefid k s = (mget (sv_fpool s) k, s\<lparr>sv_fpool := m\<rparr>) \<and>
    finv (s\<lparr>sv_fpool := m\<rparr>) (hold (mget (sv_fpool s) k) xf) \<and> mget m = (mget (sv_fpool s))(k := None)"
proof -
  obtain m where m: "deletekey (sv_fpool s) k = (mget (sv_fpool s) k, m)"
      "mget m = (mget (sv_fpool s))(k := None)" "intmap_ok m"
    using deletekey_spec [of "sv_fpool s" k] inv by (cases "deletekey (sv_fpool s) k") (auto simp: finv_def)
  have one: "p \<in> ran (mget m) \<longleftrightarrow> p \<in> ran (mget (sv_fpool s)) \<and> mget (sv_fpool s) k \<noteq> Some p" for p
  proof -
    have "k1 = k2" if "mget (sv_fpool s) k1 = Some p" "mget (sv_fpool s) k2 = Some p" for k1 k2
      using pool_fid [OF inv that(1)] pool_fid [OF inv that(2)] by auto
    then show ?thesis unfolding m(2) by (intro ran_delete_inj) blast
  qed
  have "frefs (s\<lparr>sv_fpool := m\<rparr>) p + hold (mget (sv_fpool s) k) xf p = frefs s p + xf p" for p
    using one [of p] by (auto simp: frefs_def hold_def ran_def)
  note fr = this
  have ok: "fid_ok s xf p (sv_fids s p)" for p using inv by (simp add: finv_def)
  have "fid_ok (s\<lparr>sv_fpool := m\<rparr>) (hold (mget (sv_fpool s) k) xf) p (sv_fids s p)" for p
    by (rule fid_ok_cong [OF ok fr]) simp
  then have "finv (s\<lparr>sv_fpool := m\<rparr>) (hold (mget (sv_fpool s) k) xf)"
    using inv m by (auto simp: finv_def)
  with m show ?thesis by (intro exI [of _ m]) (simp add: removefid_def)
qed

lemma finv_dropfid:
  assumes "finv s xf" "sv_fids s p = Some f" "mget (sv_fpool s) (fi_fid f) = Some v"
  shows "\<exists>s'. dropfid p s = Some s' \<and> finv s' xf \<and>
    (\<exists>F D m. s' = s\<lparr>sv_fpool := m, sv_fids := F, sv_destroyfid := D\<rparr>)"
proof -
  obtain m where m: "removefid (fi_fid f) s = (Some v, s\<lparr>sv_fpool := m\<rparr>)"
      "finv (s\<lparr>sv_fpool := m\<rparr>) (hold (Some v) xf)"
    using finv_removefid [OF assms(1), of "fi_fid f"] assms(3) by auto
  from finv_close_held [OF m(2)] show ?thesis using assms(2) m(1)
    by (fastforce simp: dropfid_def)
qed

lemma dropfid_None: "finv s xf \<Longrightarrow> sv_fids s p = Some f \<Longrightarrow> mget (sv_fpool s) (fi_fid f) = None \<Longrightarrow> dropfid p s = None"
  using finv_removefid [of s xf "fi_fid f"] by (auto simp: dropfid_def)

lemma fresh_fid:
  assumes "finv s xf"
  shows "sv_fids s (sv_next s) = None" "frefs s (sv_next s) = 0" "xf (sv_next s) = 0"
    "mget (sv_fpool s) k \<noteq> Some (sv_next s)"
proof -
  have ok: "fid_ok s xf (sv_next s) (sv_fids s (sv_next s))" using assms by (simp add: finv_def)
  then show none: "sv_fids s (sv_next s) = None" by (auto simp: fid_ok_def split: option.splits)
  with ok show "frefs s (sv_next s) = 0" "xf (sv_next s) = 0" by (simp_all add: fid_ok_def)
  show "mget (sv_fpool s) k \<noteq> Some (sv_next s)" using pool_fid [OF assms, of k "sv_next s"] none by auto
qed

lemma finv_allocfid:
  assumes inv: "finv s xf" and free: "mget (sv_fpool s) k = None"
  shows "\<exists>m. allocfid k s = Some (Some (sv_next s), s\<lparr>sv_fids := (sv_fids s)(sv_next s \<mapsto> new_fid k),
      sv_next := sv_next s + 1, sv_fpool := m\<rparr>) \<and> mget m = (mget (sv_fpool s))(k \<mapsto> sv_next s) \<and>
    finv (s\<lparr>sv_fids := (sv_fids s)(sv_next s \<mapsto> new_fid k), sv_next := sv_next s + 1, sv_fpool := m\<rparr>)
      (hold (Some (sv_next s)) xf)"
proof -
  let ?p = "sv_next s"
  obtain m where m: "caninsertkey (sv_fpool s) k ?p = (True, m)"
      "mget m = (mget (sv_fpool s))(k \<mapsto> ?p)" "intmap_ok m"
    using caninsertkey_spec [of "sv_fpool s" k ?p] inv free
    by (cases "caninsertkey (sv_fpool s) k ?p") (auto simp: finv_def)
  let ?s = "s\<lparr>sv_fids := (sv_fids s)(?p \<mapsto> new_fid k), sv_next := ?p + 1, sv_fpool := m\<rparr>"
  note fresh = fresh_fid [OF inv]
  have "ran (mget m) = insert ?p (ran (mget (sv_fpool s)))"
    unfolding m(2) using free by (rule ran_map_upd)
  then have fr: "frefs (s\<lparr>sv_fids := F, sv_next := n, sv_fpool := m\<rparr>) q = frefs s q + of_bool (q = ?p)" for q n F
    using fresh(4) by (cases "q = ?p") (auto simp: frefs_def ran_def)
  have "fid_ok ?s (hold (Some ?p) xf) q (((sv_fids s)(?p \<mapsto> new_fid k)) q)" for q
  proof (cases "q = ?p")
    case True
    then show ?thesis using fresh unfolding new_fid_def fid_ok_def by (simp add: fr hold_def)
  next
    case False
    have "fid_ok s xf q (sv_fids s q)" using inv by (simp add: finv_def)
    then show ?thesis using False by (auto simp: fid_ok_def fr hold_def split: option.splits)
  qed
  moreover have "\<exists>g. ((sv_fids s)(?p \<mapsto> new_fid k)) q = Some g \<and> fi_fid g = j" if "mget m j = Some q" for j q
    using that m(2) pool_fid [OF inv, of j q] fresh(1) by (auto simp: new_fid_def split: if_splits)
  ultimately have "finv ?s (hold (Some ?p) xf)"
    using inv m(3) by (auto simp: finv_def)
  moreover have "allocfid k s = Some (Some ?p, ?s)"
    using m(1) by (simp add: allocfid_def Let_def)
  ultimately show ?thesis using m(2) by blast
qed

lemma finv_allocfid_taken:
  assumes inv: "finv s xf" and taken: "mget (sv_fpool s) k \<noteq> None"
  shows "\<exists>m D. allocfid k s = Some (None, s\<lparr>sv_next := sv_next s + 1, sv_fpool := m, sv_destroyfid := D\<rparr>) \<and>
    finv (s\<lparr>sv_next := sv_next s + 1, sv_fpool := m, sv_destroyfid := D\<rparr>) xf \<and> mget m = mget (sv_fpool s)"
proof -
  let ?p = "sv_next s"
  obtain m where m: "caninsertkey (sv_fpool s) k ?p = (False, m)"
      "mget m = mget (sv_fpool s)" "intmap_ok m"
    using caninsertkey_spec [of "sv_fpool s" k ?p] inv taken
    by (cases "caninsertkey (sv_fpool s) k ?p") (auto simp: finv_def)
  note fresh = fresh_fid [OF inv]
  let ?s = "s\<lparr>sv_next := sv_next s + 1, sv_fpool := m, sv_destroyfid := sv_destroyfid s @ [?p]\<rparr>"
  have "allocfid k s = Some (None, s\<lparr>sv_fids := (sv_fids s)(?p := None), sv_next := ?p + 1,
      sv_fpool := m, sv_destroyfid := sv_destroyfid s @ [?p]\<rparr>)"
    using m(1) by (simp add: allocfid_def Let_def closefid_eq new_fid_def)
  moreover have "(sv_fids s)(?p := None) = sv_fids s" using fresh(1) by (rule fun_upd_idem)
  ultimately have 1: "allocfid k s = Some (None, ?s)" by simp
  have fr: "frefs (s\<lparr>sv_next := n, sv_fpool := m\<rparr>) q = frefs s q" for q n using m(2) by (simp add: frefs_def)
  have "fid_ok ?s xf q (sv_fids s q)" for q
  proof -
    have "fid_ok s xf q (sv_fids s q)" using inv by (simp add: finv_def)
    then show ?thesis by (auto simp: fid_ok_def fr split: option.splits)
  qed
  then have "finv ?s xf"
    using inv m fresh(1) by (auto simp: finv_def)
  with 1 m(2) show ?thesis by blast
qed

end
