(* ===== verification/SrvReqs.thy ===== *)
theory SrvReqs
  imports SrvFids ConvS2M
begin

text \<open>
  Requests of the 9P server: how they are counted, which flushes wait for which request, and
  what \<open>closereq\<close> and \<open>respond\<close> do to them.  Like the counts of fids this is for services
  without a file tree.
\<close>

subsection \<open>The invariant\<close>

text \<open>
  \<open>rrefs s r\<close> counts the references to a request in the state: its entry in the pool and the
  flushes that name it as \<^verbatim>\<open>oldreq\<close>.  An unresponded request is held once more, by the service
  or by the list of flushes it is in.
\<close>

definition rrefs :: "srv \<Rightarrow> reqp \<Rightarrow> nat" where
  "rrefs s r = of_bool (r \<in> ran (mget (sv_rpool s))) +
     wsum (\<lambda>q. of_bool (rq_oldreq q = Some r)) (sv_reqs s)"

definition waits :: "srv \<Rightarrow> reqp \<Rightarrow> reqp \<Rightarrow> bool" where
  "waits s r f \<longleftrightarrow> (\<exists>g. sv_reqs s f = Some g \<and> rq_oldreq g = Some r \<and> \<not> rq_responded g)"

text \<open>The fids a request has once its handler has handed it to the service.\<close>

definition fids_set :: "req \<Rightarrow> bool" where
  "fids_set q \<longleftrightarrow> (let t = fc_type (rq_ifcall q) in t \<noteq> Tversion \<and>
     (t \<noteq> Tflush \<and> t \<noteq> Tauth \<longrightarrow> rq_fid q \<noteq> None) \<and> (t = Twalk \<longrightarrow> rq_newfid q \<noteq> None))"

lemma fids_set_simps [simp]:
  "fids_set (q\<lparr>rq_ref := x1\<rparr>) = fids_set q" "fids_set (q\<lparr>rq_responded := x2\<rparr>) = fids_set q"
  "fids_set (q\<lparr>rq_oldreq := x3\<rparr>) = fids_set q" "fids_set (q\<lparr>rq_flush := x4\<rparr>) = fids_set q"
  "fids_set (q\<lparr>rq_error := x5\<rparr>) = fids_set q" "fids_set (q\<lparr>rq_ofcall := x6\<rparr>) = fids_set q"
  "fids_set (q\<lparr>rq_d := x7\<rparr>) = fids_set q" "fids_set (q\<lparr>rq_afid := x8\<rparr>) = fids_set q"
  by (simp_all add: fids_set_def)

text \<open>
  The ghost part of the invariant: \<open>gh_refs\<close> counts the references the running code holds in its
  variables, \<open>gh_wait\<close> lists the flushes that still wait for a request, \<open>gh_busy\<close> are the
  requests whose flushes \<open>respond\<close> is answering, and \<open>gh_cur\<close> the requests whose handler runs.
\<close>

record ghost =
  gh_refs :: "reqp \<Rightarrow> nat"
  gh_wait :: "reqp \<Rightarrow> reqp list"
  gh_busy :: "reqp set"
  gh_cur :: "reqp set"

definition req_ok :: "srv \<Rightarrow> ghost \<Rightarrow> reqp \<Rightarrow> req \<Rightarrow> bool" where
  "req_ok s G r q \<longleftrightarrow> r < sv_next s \<and> rq_pool q \<and> 0 < rq_ref q \<and>
     int (rrefs s r + of_bool (\<not> rq_responded q) + gh_refs G r) \<le> rq_ref q \<and>
     (\<forall>old. rq_oldreq q = Some old \<longrightarrow> \<not> rq_responded q \<and> sv_reqs s old \<noteq> None \<and> old \<le> r \<and>
        fc_type (rq_ifcall q) = Tflush) \<and>
     (\<not> rq_responded q \<longrightarrow> mget (sv_rpool s) (ucast (fc_tag (rq_ifcall q))) = Some r \<and>
        (r \<notin> gh_cur G \<longrightarrow> fids_set q)) \<and>
     (r \<notin> gh_busy G \<longrightarrow> rq_flush q = gh_wait G r \<and> (rq_responded q \<longrightarrow> rq_flush q = []))"

definition rinv :: "srv \<Rightarrow> ghost \<Rightarrow> bool" where
  "rinv s G \<longleftrightarrow> intmap_ok (sv_rpool s) \<and> finite (dom (sv_reqs s)) \<and>
     (\<forall>k r. mget (sv_rpool s) k = Some r \<longrightarrow>
        (\<exists>q. sv_reqs s r = Some q \<and> \<not> rq_responded q \<and> k = ucast (fc_tag (rq_ifcall q)))) \<and>
     (\<forall>r. case sv_reqs s r of None \<Rightarrow> rrefs s r + gh_refs G r = 0 | Some q \<Rightarrow> req_ok s G r q) \<and>
     (\<forall>r. distinct (gh_wait G r) \<and> (\<forall>f \<in> set (gh_wait G r). waits s r f)) \<and>
     (\<forall>r \<in> gh_busy G. \<exists>q. sv_reqs s r = Some q \<and> rq_responded q)"

lemma rinvI:
  assumes "intmap_ok (sv_rpool s)" "finite (dom (sv_reqs s))"
    "\<And>k r. mget (sv_rpool s) k = Some r \<Longrightarrow>
        \<exists>q. sv_reqs s r = Some q \<and> \<not> rq_responded q \<and> k = ucast (fc_tag (rq_ifcall q))"
    "\<And>r q. sv_reqs s r = Some q \<Longrightarrow> req_ok s G r q"
    "\<And>r. sv_reqs s r = None \<Longrightarrow> rrefs s r + gh_refs G r = 0"
    "\<And>r. distinct (gh_wait G r)" "\<And>r f. f \<in> set (gh_wait G r) \<Longrightarrow> waits s r f"
    "\<And>r. r \<in> gh_busy G \<Longrightarrow> \<exists>q. sv_reqs s r = Some q \<and> rq_responded q"
  shows "rinv s G"
  using assms by (simp add: rinv_def split: option.split)

lemma rinv_req: "rinv s G \<Longrightarrow> sv_reqs s r = Some q \<Longrightarrow> req_ok s G r q"
  unfolding rinv_def by (metis option.simps(5))

lemma rinv_dead: "rinv s G \<Longrightarrow> sv_reqs s r = None \<Longrightarrow> rrefs s r + gh_refs G r = 0"
  unfolding rinv_def by (metis option.simps(4))

lemma rinv_waits: "rinv s G \<Longrightarrow> f \<in> set (gh_wait G r) \<Longrightarrow> waits s r f"
  by (simp add: rinv_def)

lemma rinv_live: "rinv s G \<Longrightarrow> 0 < gh_refs G r \<Longrightarrow> \<exists>q. sv_reqs s r = Some q"
  using rinv_dead [of s G r] by (cases "sv_reqs s r") auto

lemma rinv_pool: "rinv s G \<Longrightarrow> mget (sv_rpool s) k = Some r \<Longrightarrow>
  \<exists>q. sv_reqs s r = Some q \<and> \<not> rq_responded q \<and> k = ucast (fc_tag (rq_ifcall q))"
  by (simp add: rinv_def)

lemma rinv_pool_inj: "rinv s G \<Longrightarrow> mget (sv_rpool s) k = Some r \<Longrightarrow> mget (sv_rpool s) k' = Some r \<Longrightarrow> k = k'"
  using rinv_pool [of s G k r] rinv_pool [of s G k' r] by auto

text \<open>No flush names a request that is gone, so its list is empty.\<close>

lemma rrefs_oldreq: "rinv s G \<Longrightarrow> sv_reqs s f = Some g \<Longrightarrow> rq_oldreq g = Some r \<Longrightarrow> 0 < rrefs s r"
  using wsum_ge [of "sv_reqs s" f g "\<lambda>q. of_bool (rq_oldreq q = Some r)"] by (simp add: rrefs_def rinv_def)

lemma no_refs_no_wait: "rinv s G \<Longrightarrow> rrefs s r = 0 \<Longrightarrow> gh_wait G r = []"
  using rinv_waits [of s G _ r] rrefs_oldreq [of s G _ _ r] by (cases "gh_wait G r") (fastforce simp: waits_def)+

lemma rinv_cong:
  assumes "rinv s G" "sv_reqs s' = sv_reqs s" "sv_rpool s' = sv_rpool s" "sv_next s \<le> sv_next s'"
  shows "rinv s' G"
proof -
  note rr = rrefs_def waits_def req_ok_def assms(2,3)
  show ?thesis
  proof (rule rinvI)
    show "req_ok s' G r q" if "sv_reqs s' r = Some q" for r q
      using rinv_req [OF assms(1), of r q] that assms(4) by (auto simp: rr)
    show "rrefs s' r + gh_refs G r = 0" if "sv_reqs s' r = None" for r
      using rinv_dead [OF assms(1), of r] that by (simp add: rr)
    show "waits s' r f" if "f \<in> set (gh_wait G r)" for r f
      using rinv_waits [OF assms(1) that] by (simp add: rr)
  qed (use assms in \<open>simp_all add: rinv_def\<close>)
qed

text \<open>The members the invariant looks at; the rest of a request may change freely.\<close>

definition ctl :: "req \<Rightarrow> ushort \<times> uchar \<times> reqp option \<times> int \<times> bool \<times> bool \<times> reqp list" where
  "ctl q = (fc_tag (rq_ifcall q), fc_type (rq_ifcall q), rq_oldreq q, rq_ref q, rq_pool q, rq_responded q,
     rq_flush q)"

lemma rrefs_upd:
  assumes "finite (dom (sv_reqs s))" "sv_reqs s r = Some q"
  shows "rrefs (s\<lparr>sv_reqs := (sv_reqs s)(r \<mapsto> q')\<rparr>) x + of_bool (rq_oldreq q = Some x) =
    rrefs s x + of_bool (rq_oldreq q' = Some x)"
  using wsum_upd [OF assms, of "\<lambda>q. of_bool (rq_oldreq q = Some x)" q'] by (simp add: rrefs_def)

text \<open>One request changes, and with it the ghost state and perhaps the pool.\<close>

lemma rinv_step:
  assumes inv: "rinv s G" and q: "sv_reqs s r = Some q"
    and s': "sv_reqs s' = (sv_reqs s)(r \<mapsto> q')" "sv_next s' = sv_next s" "intmap_ok (sv_rpool s')"
    and tag: "fc_tag (rq_ifcall q') = fc_tag (rq_ifcall q)" "rq_responded q \<Longrightarrow> rq_responded q'"
    and pool: "mget (sv_rpool s') =
      (if rq_responded q' \<and> \<not> rq_responded q then (mget (sv_rpool s))(ucast (fc_tag (rq_ifcall q)) := None)
       else mget (sv_rpool s))"
    and self: "req_ok s' G' r q'"
    and refs: "\<And>x. x \<noteq> r \<Longrightarrow> rrefs s' x + gh_refs G' x \<le> rrefs s x + gh_refs G x"
    and cur: "\<And>x. x \<noteq> r \<Longrightarrow> x \<in> gh_cur G \<Longrightarrow> x \<in> gh_cur G'"
    and busy: "\<And>x. x \<noteq> r \<Longrightarrow> x \<in> gh_busy G' \<longleftrightarrow> x \<in> gh_busy G" "r \<in> gh_busy G' \<Longrightarrow> rq_responded q'"
    and wait: "\<And>x. x \<noteq> r \<Longrightarrow> x \<notin> gh_busy G' \<Longrightarrow> gh_wait G' x = gh_wait G x"
      "\<And>x. distinct (gh_wait G' x)" "\<And>x f. f \<in> set (gh_wait G' x) \<Longrightarrow> waits s' x f"
  shows "rinv s' G'"
proof (rule rinvI)
  have own: "mget (sv_rpool s) (ucast (fc_tag (rq_ifcall q))) = Some r" if "\<not> rq_responded q"
    using rinv_req [OF inv q] that by (simp add: req_ok_def)
  show "req_ok s' G' x p" if p: "sv_reqs s' x = Some p" for x p
  proof (cases "x = r")
    case False
    with p s'(1) have sp: "sv_reqs s x = Some p" by simp
    note ok = rinv_req [OF inv sp]
    have "mget (sv_rpool s') (ucast (fc_tag (rq_ifcall p))) = Some x" if "\<not> rq_responded p"
    proof -
      have "mget (sv_rpool s) (ucast (fc_tag (rq_ifcall p))) = Some x" using ok that by (simp add: req_ok_def)
      then show ?thesis using False own by (cases "rq_responded q") (auto simp: pool)
    qed
    then show ?thesis using ok refs [OF False] cur [OF False] busy(1) [OF False] wait(1) [OF False] s'
      by (auto simp: req_ok_def)
  qed (use p s'(1) self in simp)
  show "rrefs s' x + gh_refs G' x = 0" if "sv_reqs s' x = None" for x
    using that s'(1) refs [of x] rinv_dead [OF inv, of x] by (auto split: if_splits)
  show "\<exists>p. sv_reqs s' x = Some p \<and> \<not> rq_responded p \<and> k = ucast (fc_tag (rq_ifcall p))"
    if "mget (sv_rpool s') k = Some x" for k x
  proof -
    have k: "mget (sv_rpool s) k = Some x" "rq_responded q' \<Longrightarrow> \<not> rq_responded q \<Longrightarrow> k \<noteq> ucast (fc_tag (rq_ifcall q))"
      using that by (auto simp: pool split: if_splits)
    from rinv_pool [OF inv k(1)] show ?thesis using k(2) q s'(1) tag by (cases "x = r") auto
  qed
  show "\<exists>p. sv_reqs s' x = Some p \<and> rq_responded p" if "x \<in> gh_busy G'" for x
    using inv that busy s'(1) by (cases "x = r") (auto simp: rinv_def)
qed (use assms in \<open>simp_all add: rinv_def\<close>)

lemma rinv_data:
  assumes inv: "rinv s G" and q: "sv_reqs s r = Some q" and c: "ctl q' = ctl q"
    and f: "r \<notin> gh_cur G \<Longrightarrow> \<not> rq_responded q \<Longrightarrow> fids_set q'"
  shows "rinv (s\<lparr>sv_reqs := (sv_reqs s)(r \<mapsto> q')\<rparr>) G" (is "rinv ?s G")
proof -
  have fin: "finite (dom (sv_reqs s))" using inv by (simp add: rinv_def)
  have cs: "fc_tag (rq_ifcall q') = fc_tag (rq_ifcall q)" "fc_type (rq_ifcall q') = fc_type (rq_ifcall q)"
    "rq_oldreq q' = rq_oldreq q" "rq_ref q' = rq_ref q" "rq_pool q' = rq_pool q"
    "rq_responded q' = rq_responded q" "rq_flush q' = rq_flush q"
    using c by (simp_all add: ctl_def)
  have rr: "rrefs ?s x = rrefs s x" for x
    using rrefs_upd [OF fin q, of q' x] cs by simp
  have busy: "r \<in> gh_busy G \<Longrightarrow> rq_responded q" using inv q by (auto simp: rinv_def)
  show ?thesis
  proof (rule rinv_step [OF inv q])
    show "req_ok ?s G r q'" using rinv_req [OF inv q] f by (auto simp: req_ok_def rr cs)
    show "waits ?s x y" if "y \<in> set (gh_wait G x)" for x y
      using rinv_waits [OF inv that] q cs by (auto simp: waits_def)
  qed (use inv busy in \<open>simp_all add: rinv_def cs rr\<close>)
qed

subsection \<open>closereq\<close>

lemma closefid_reqs:
  "closefid p (s\<lparr>sv_reqs := R\<rparr>) = map_option (\<lambda>s. s\<lparr>sv_reqs := R\<rparr>) (closefid p s)"
proof (cases "sv_fids s p")
  case (Some f)
  then show ?thesis
    by (cases "fi_rdir f"; cases "fi_file f")
      (auto simp: closefid_def setf_def if_some_def on_fs_def Let_def map_conv_bind_option split: Option.bind_splits)
qed (simp add: closefid_def setf_def)

lemma finv_close_opt:
  assumes "finv s (hold v xf)"
  shows "\<exists>F D. if_some v closefid (s\<lparr>sv_reqs := R\<rparr>) = Some (s\<lparr>sv_fids := F, sv_destroyfid := D, sv_reqs := R\<rparr>) \<and>
    finv (s\<lparr>sv_fids := F, sv_destroyfid := D\<rparr>) xf"
proof (cases v)
  case None
  then show ?thesis using assms
    by (intro exI [of _ "sv_fids s"] exI [of _ "sv_destroyfid s"]) (simp add: if_some_def)
next
  case (Some p)
  then show ?thesis using finv_close_held [of s p xf] assms
    by (fastforce simp: if_some_def closefid_reqs)
qed

text \<open>The fids of a request that has left the heap are closed.\<close>

lemma finv_close_slots:
  assumes "finv s (\<lambda>p. xf p + slots q p)"
  shows "\<exists>F D. if_some (rq_fid q) closefid (s\<lparr>sv_reqs := R\<rparr>) \<bind> if_some (rq_newfid q) closefid \<bind>
      if_some (rq_afid q) closefid = Some (s\<lparr>sv_fids := F, sv_destroyfid := D, sv_reqs := R\<rparr>) \<and>
    finv (s\<lparr>sv_fids := F, sv_destroyfid := D\<rparr>) xf"
proof -
  have "(\<lambda>p. xf p + slots q p) = hold (rq_fid q) (hold (rq_newfid q) (hold (rq_afid q) xf))"
    by (rule ext) (simp add: hold_def slots_def)
  with assms have "finv s (hold (rq_fid q) (hold (rq_newfid q) (hold (rq_afid q) xf)))" by simp
  from finv_close_opt [OF this, of R] obtain F1 D1 where 1: "if_some (rq_fid q) closefid (s\<lparr>sv_reqs := R\<rparr>) =
      Some (s\<lparr>sv_fids := F1, sv_destroyfid := D1, sv_reqs := R\<rparr>)"
    "finv (s\<lparr>sv_fids := F1, sv_destroyfid := D1\<rparr>) (hold (rq_newfid q) (hold (rq_afid q) xf))" by blast
  from finv_close_opt [OF 1(2), of R] obtain F2 D2 where 2: "if_some (rq_newfid q) closefid
      (s\<lparr>sv_fids := F1, sv_destroyfid := D1, sv_reqs := R\<rparr>) = Some (s\<lparr>sv_fids := F2, sv_destroyfid := D2, sv_reqs := R\<rparr>)"
    "finv (s\<lparr>sv_fids := F2, sv_destroyfid := D2\<rparr>) (hold (rq_afid q) xf)" by auto
  from finv_close_opt [OF 2(2), of R] obtain F3 D3 where "if_some (rq_afid q) closefid
      (s\<lparr>sv_fids := F2, sv_destroyfid := D2, sv_reqs := R\<rparr>) = Some (s\<lparr>sv_fids := F3, sv_destroyfid := D3, sv_reqs := R\<rparr>)"
    "finv (s\<lparr>sv_fids := F3, sv_destroyfid := D3\<rparr>) xf" by auto
  with 1(1) 2(1) show ?thesis by auto
qed

lemma finv_free_request:
  assumes "finv s xf" "sv_reqs s r = Some q"
  shows "\<exists>F D. if_some (rq_fid q) closefid s \<bind> if_some (rq_newfid q) closefid \<bind> if_some (rq_afid q) closefid =
      Some (s\<lparr>sv_fids := F, sv_destroyfid := D\<rparr>) \<and>
    finv (s\<lparr>sv_fids := F, sv_destroyfid := D, sv_reqs := (sv_reqs s)(r := None)\<rparr>) xf"
proof -
  obtain F D where *: "if_some (rq_fid q) closefid (s\<lparr>sv_reqs := (sv_reqs s)(r := None), sv_reqs := sv_reqs s\<rparr>) \<bind>
      if_some (rq_newfid q) closefid \<bind> if_some (rq_afid q) closefid =
      Some (s\<lparr>sv_reqs := (sv_reqs s)(r := None), sv_fids := F, sv_destroyfid := D, sv_reqs := sv_reqs s\<rparr>)"
    and 2: "finv (s\<lparr>sv_reqs := (sv_reqs s)(r := None), sv_fids := F, sv_destroyfid := D\<rparr>) xf"
    using finv_close_slots [OF finv_del [OF assms], of "sv_reqs s"] by blast
  have "s\<lparr>sv_reqs := (sv_reqs s)(r := None), sv_fids := F, sv_destroyfid := D, sv_reqs := sv_reqs s\<rparr> =
    s\<lparr>sv_fids := F, sv_destroyfid := D\<rparr>" by simp
  moreover have "s\<lparr>sv_reqs := (sv_reqs s)(r := None), sv_reqs := sv_reqs s\<rparr> = s" by simp
  ultimately show ?thesis using * finv_cong [OF 2, of "s\<lparr>sv_fids := F, sv_destroyfid := D, sv_reqs := (sv_reqs s)(r := None)\<rparr>"]
    by (fastforce simp: fview_def)
qed

definition unref :: "reqp \<Rightarrow> ghost \<Rightarrow> ghost" where
  "unref r G = G\<lparr>gh_refs := (gh_refs G)(r := gh_refs G r - 1)\<rparr>"

definition held :: "reqp \<Rightarrow> ghost \<Rightarrow> ghost" where
  "held r G = G\<lparr>gh_refs := (gh_refs G)(r := gh_refs G r + 1)\<rparr>"

text \<open>What \<open>closereq\<close> leaves alone.\<close>

definition sframe :: "srv \<Rightarrow> srv \<Rightarrow> bool" where
  "sframe s s' \<longleftrightarrow> sv_rpool s' = sv_rpool s \<and> sv_fpool s' = sv_fpool s \<and> sv_msize s' = sv_msize s \<and>
     sv_next s' = sv_next s \<and> sv_out s' = sv_out s"

lemma closereq_inv:
  assumes inv: "rinv s G" "finv s xf" and held: "0 < gh_refs G r" "r \<in> gh_busy G \<Longrightarrow> 1 < gh_refs G r"
  shows "\<exists>s'. closereq (Suc n) r s = Some s' \<and> rinv s' (unref r G) \<and> finv s' xf \<and> sframe s s' \<and>
    (\<forall>x. x \<noteq> r \<longrightarrow> sv_reqs s' x = sv_reqs s x) \<and>
    (\<forall>p. sv_reqs s' r = Some p \<longrightarrow> (\<exists>q. sv_reqs s r = Some q \<and> rq_ifcall p = rq_ifcall q \<and>
       rq_responded p = rq_responded q))"
proof -
  obtain q where q: "sv_reqs s r = Some q" using rinv_live [OF inv(1) held(1)] by blast
  note ok = rinv_req [OF inv(1) q]
  have fin: "finite (dom (sv_reqs s))" using inv(1) by (simp add: rinv_def)
  let ?q = "q\<lparr>rq_ref := rq_ref q - 1\<rparr>" let ?s1 = "s\<lparr>sv_reqs := (sv_reqs s)(r \<mapsto> q\<lparr>rq_ref := rq_ref q - 1\<rparr>)\<rparr>"
  have f1: "finv ?s1 xf" by (rule finv_req [OF inv(2) q]) (simp add: slots_def)
  have rr1: "rrefs ?s1 x = rrefs s x" for x using rrefs_upd [OF fin q, of ?q x] by simp
  show ?thesis
  proof (cases "rq_ref q = 1")
    case False
    have "rinv ?s1 (unref r G)"
    proof (rule rinv_step [OF inv(1) q])
      show "req_ok ?s1 (unref r G) r ?q" using ok held(1) False by (auto simp: req_ok_def unref_def rr1)
      show "waits ?s1 x f" if "f \<in> set (gh_wait (unref r G) x)" for x f
        using rinv_waits [OF inv(1), of f x] that q by (auto simp: unref_def waits_def)
      show "rq_responded ?q" if "r \<in> gh_busy (unref r G)" using inv(1) that q by (auto simp: rinv_def unref_def)
    qed (use inv(1) in \<open>simp_all add: rinv_def unref_def rr1\<close>)
    then show ?thesis using q False f1 by (auto simp: setr_def sframe_def)
  next
    case True
    with ok have "int (rrefs s r + of_bool (\<not> rq_responded q) + gh_refs G r) \<le> 1" by (simp only: req_ok_def)
    then have "rrefs s r + of_bool (\<not> rq_responded q) + gh_refs G r \<le> 1" by linarith
    with held(1) have z: "rrefs s r = 0" "rq_responded q" "gh_refs G r = 1"
      by (simp_all split: if_splits add: of_bool_def)
    with ok have "rq_oldreq q = None" by (cases "rq_oldreq q") (simp_all add: req_ok_def)
    note z = z this
    then have nb: "r \<notin> gh_busy G" using held(2) by auto
    with ok z have fl: "rq_flush q = []" "gh_wait G r = []" by (auto simp: req_ok_def)
    obtain F D where 1: "if_some (rq_fid ?q) closefid ?s1 \<bind> if_some (rq_newfid ?q) closefid \<bind>
        if_some (rq_afid ?q) closefid = Some (?s1\<lparr>sv_fids := F, sv_destroyfid := D\<rparr>)"
      and 2: "finv (?s1\<lparr>sv_fids := F, sv_destroyfid := D, sv_reqs := (sv_reqs ?s1)(r := None)\<rparr>) xf"
      using finv_free_request [OF f1, of r ?q] by auto
    let ?s2 = "s\<lparr>sv_fids := F, sv_destroyfid := D, sv_destroyreq := sv_destroyreq s @ [r],
      sv_reqs := (sv_reqs s)(r := None)\<rparr>"
    have c: "closereq (Suc n) r s = Some ?s2"
      using q True 1 z fl by (auto simp: setr_def if_some_def [of None] bind_eq_Some_conv)
    have f2: "finv ?s2 xf" using 2 by (rule finv_cong) (simp add: fview_def)
    have rr2: "rrefs ?s2 x = rrefs s x" for x
      using wsum_del [OF fin q, of "\<lambda>q. of_bool (rq_oldreq q = Some x)"] z by (simp add: rrefs_def)
    have np: "mget (sv_rpool s) k \<noteq> Some r" for k
      using rinv_pool [OF inv(1), of k r] q z by auto
    have "rinv ?s2 (unref r G)"
    proof (rule rinvI)
      show "req_ok ?s2 (unref r G) x p" if "sv_reqs ?s2 x = Some p" for x p
      proof -
        have x: "x \<noteq> r" "sv_reqs s x = Some p" using that by (auto split: if_splits)
        then have "rq_oldreq p \<noteq> Some r" using rrefs_oldreq [OF inv(1) x(2), of r] z by auto
        then show ?thesis using rinv_req [OF inv(1) x(2)] x by (auto simp: req_ok_def unref_def rr2)
      qed
      show "rrefs ?s2 x + gh_refs (unref r G) x = 0" if "sv_reqs ?s2 x = None" for x
        using that rinv_dead [OF inv(1), of x] z by (auto simp: unref_def rr2 split: if_splits)
      show "waits ?s2 x f" if "f \<in> set (gh_wait (unref r G) x)" for x f
        using rinv_waits [OF inv(1), of f x] that q z by (auto simp: unref_def waits_def)
      show "\<exists>p. sv_reqs ?s2 x = Some p \<and> \<not> rq_responded p \<and> k = ucast (fc_tag (rq_ifcall p))"
        if "mget (sv_rpool ?s2) k = Some x" for k x
        using rinv_pool [OF inv(1), of k x] that q np by auto
      show "\<exists>p. sv_reqs ?s2 x = Some p \<and> rq_responded p" if "x \<in> gh_busy (unref r G)" for x
        using inv(1) that nb by (auto simp: rinv_def unref_def)
    qed (use inv(1) in \<open>simp_all add: rinv_def unref_def\<close>)
    with c f2 show ?thesis by (auto simp: sframe_def)
  qed
qed

subsection \<open>Preparing and writing a reply\<close>

text \<open>What the code before the reply may change: the counts stay, the request stays in its place.\<close>

definition keep :: "req \<Rightarrow> req \<Rightarrow> bool" where
  "keep q q' \<longleftrightarrow> ctl q' = ctl q \<and> rq_fid q' = rq_fid q \<and> rq_afid q' = rq_afid q \<and> rq_newfid q' = rq_newfid q"

lemma keep_refl [simp]: "keep q q"
  by (simp add: keep_def)

lemma keep_trans: "keep q q' \<Longrightarrow> keep q' q'' \<Longrightarrow> keep q q''"
  by (simp add: keep_def)

lemma keep_upd [simp]:
  "keep q (q\<lparr>rq_error := x1\<rparr>)" "keep q (q\<lparr>rq_ofcall := x2\<rparr>)" "keep q (q\<lparr>rq_d := x3\<rparr>)"
  by (simp_all add: keep_def ctl_def)

lemma keep_slots: "keep q q' \<Longrightarrow> slots q' p = slots q p"
  by (simp add: keep_def slots_def)

lemma keep_fids_set: "keep q q' \<Longrightarrow> fids_set q' = fids_set q"
  by (simp add: keep_def fids_set_def ctl_def)

definition rstep :: "reqp \<Rightarrow> (fidp \<Rightarrow> nat) \<Rightarrow> srv \<Rightarrow> srv \<Rightarrow> bool" where
  "rstep r xf s s' \<longleftrightarrow> finv s' xf \<and> (\<exists>q q'. sv_reqs s r = Some q \<and> keep q q' \<and>
     sv_reqs s' = (sv_reqs s)(r \<mapsto> q')) \<and> sv_rpool s' = sv_rpool s \<and> sv_next s' = sv_next s \<and>
     sv_out s' = sv_out s"

lemma rstep_refl: "finv s xf \<Longrightarrow> sv_reqs s r = Some q \<Longrightarrow> rstep r xf s s"
  by (auto simp: rstep_def fun_upd_idem intro!: exI [of _ q])

lemma rstep_setr:
  assumes "rstep r xf s0 s" "setr r g s = Some s'" "\<And>q. keep q (g q)"
  shows "rstep r xf s0 s'"
proof -
  obtain q q' where q: "sv_reqs s0 r = Some q" "keep q q'" "sv_reqs s = (sv_reqs s0)(r \<mapsto> q')"
    "finv s xf" using assms(1) by (auto simp: rstep_def)
  then have s': "s' = s\<lparr>sv_reqs := (sv_reqs s)(r \<mapsto> g q')\<rparr>" using assms(2) by (auto simp: setr_def)
  have "finv s' xf" unfolding s'
    using q by (intro finv_req [of _ xf _ q']) (auto simp: keep_slots [OF assms(3)])
  moreover have "keep q (g q')" using keep_trans [OF q(2) assms(3)] .
  ultimately show ?thesis using assms(1) q s' by (auto simp: rstep_def)
qed

lemma rstep_fids:
  assumes "rstep r xf s0 s" "finv s' xf" "sv_reqs s' = sv_reqs s" "sv_rpool s' = sv_rpool s" "sv_next s' = sv_next s"
    "sv_out s' = sv_out s"
  shows "rstep r xf s0 s'"
  using assms by (simp add: rstep_def)

lemma finv_setf:
  assumes "finv s xf" "setf p g s = Some s'"
    "\<And>f. fi_ref (g f) = fi_ref f \<and> fi_fid (g f) = fi_fid f \<and> fi_file (g f) = fi_file f \<and> fi_rdir (g f) = fi_rdir f"
  shows "finv s' xf"
proof -
  obtain f where f: "sv_fids s p = Some f" "s' = s\<lparr>sv_fids := (sv_fids s)(p \<mapsto> g f)\<rparr>"
    using assms(2) by (auto simp: setf_def)
  have "fid_ok s xf p (sv_fids s p)" using assms(1) by (simp add: finv_def)
  then have "fi_file f = None" "fi_rdir f = None" by (simp_all add: f fid_ok_def)
  then show ?thesis unfolding f(2) by (intro finv_fid [OF assms(1) f(1)]) (simp_all add: assms(3))
qed

lemma rstep_finv: "rstep r xf s0 s \<Longrightarrow> finv s xf"
  by (simp add: rstep_def)

lemma rstep_setf:
  assumes "rstep r xf s0 s" "setf p g s = Some s'"
    "\<And>f. fi_ref (g f) = fi_ref f \<and> fi_fid (g f) = fi_fid f \<and> fi_file (g f) = fi_file f \<and> fi_rdir (g f) = fi_rdir f"
  shows "rstep r xf s0 s'"
  by (rule rstep_fids [OF assms(1) finv_setf [OF rstep_finv [OF assms(1)] assms(2,3)]])
    (use assms(2) in \<open>auto simp: setf_def\<close>)

lemma rstep_dropfid:
  assumes "rstep r xf s0 s" "dropfid p s = Some s'"
  shows "rstep r xf s0 s'"
proof -
  have fin: "finv s xf" using assms(1) by (rule rstep_finv)
  obtain f where f: "sv_fids s p = Some f" using assms(2) by (auto simp: dropfid_def bind_eq_Some_conv)
  then obtain v where "mget (sv_fpool s) (fi_fid f) = Some v"
    using assms(2) dropfid_None [OF fin f] by (cases "mget (sv_fpool s) (fi_fid f)") auto
  from finv_dropfid [OF fin f this] obtain s'' where "dropfid p s = Some s''" "finv s'' xf"
      "\<exists>F D m. s'' = s\<lparr>sv_fpool := m, sv_fids := F, sv_destroyfid := D\<rparr>" by blast
  then show ?thesis using assms by (auto intro!: rstep_fids [OF assms(1)])
qed

lemma rstep_if_some_dropfid: "rstep r xf s0 s \<Longrightarrow> if_some v dropfid s = Some s' \<Longrightarrow> rstep r xf s0 s'"
  by (cases v) (auto simp: if_some_def dest: rstep_dropfid)

lemma finv_nofile: "finv s xf \<Longrightarrow> sv_fids s p = Some f \<Longrightarrow> fi_file f = None \<and> fi_rdir f = None"
proof -
  assume a: "finv s xf" "sv_fids s p = Some f"
  from a(1) have "fid_ok s xf p (sv_fids s p)" by (simp add: finv_def)
  then show ?thesis by (simp add: a(2) fid_ok_def)
qed

text \<open>If a piece of code returns, its result satisfies a predicate; one rule for each construct.\<close>

definition res :: "'a option \<Rightarrow> ('a \<Rightarrow> bool) \<Rightarrow> bool" where
  "res m Q \<longleftrightarrow> (\<forall>x. m = Some x \<longrightarrow> Q x)"

lemma res_Some: "Q x \<Longrightarrow> res (Some x) Q"
  by (simp add: res_def)

lemma res_get: "(\<And>x. m = Some x \<Longrightarrow> res (k x) Q) \<Longrightarrow> res (m \<bind> k) Q"
  by (auto simp: res_def bind_eq_Some_conv)

lemma res_if: "(c \<Longrightarrow> res a Q) \<Longrightarrow> (\<not> c \<Longrightarrow> res b Q) \<Longrightarrow> res (if c then a else b) Q"
  by simp

lemma res_None: "res None Q"
  by (simp add: res_def)

lemma res_bind: "res m R \<Longrightarrow> (\<And>x. R x \<Longrightarrow> res (k x) Q) \<Longrightarrow> res (m \<bind> k) Q"
  by (auto simp: res_def bind_eq_Some_conv)

lemma res_steps:
  assumes "rstep r xf s0 s"
  shows "(\<And>q. keep q (g q)) \<Longrightarrow> res (setr r g s) (rstep r xf s0)"
    "(\<And>f. fi_ref (h f) = fi_ref f \<and> fi_fid (h f) = fi_fid f \<and> fi_file (h f) = fi_file f \<and>
       fi_rdir (h f) = fi_rdir f) \<Longrightarrow> res (setf p h s) (rstep r xf s0)"
    "res (if_some v dropfid s) (rstep r xf s0)"
  using rstep_setr [OF assms] rstep_setf [OF assms] rstep_if_some_dropfid [OF assms] by (auto simp: res_def)

lemma retype_rstep:
  assumes "rstep r xf s0 s"
  shows "res (retype r e s) (rstep r xf s0)"
proof -
  have nf: "fi_file f = None" if "sv_fids s p = Some f" for p f
    using finv_nofile [OF rstep_finv [OF assms] that] by blast
  note steps = res_steps [OF assms]
  have "finv (changemsize m s) xf" for m
    using rstep_finv [OF assms] by (rule finv_cong) (simp add: fview_def changemsize_def)
  then have "rstep r xf s0 (changemsize m s)" for m
    by (rule rstep_fids [OF assms]) (simp_all add: changemsize_def)
  then have "res (rversion r e s) (rstep r xf s0)"
    unfolding rversion_def by (intro res_get res_Some)
  moreover have "res (rauth r e s) (rstep r xf s0)" "res (rattach r e s) (rstep r xf s0)"
    unfolding rauth_def rattach_def by (intro res_get res_if res_Some steps assms)+
  moreover have "res (rwalk r e s) (rstep r xf s0)"
    unfolding rwalk_def Let_def
    by (rule res_get, rule res_if)
      ((rule res_bind [where R = "rstep r xf s0"], (intro res_if steps res_Some assms),
        (intro res_if res_Some res_steps; simp)) | (intro res_get res_if res_None steps; simp))+
  moreover have "res (ropen r e s) (rstep r xf s0)" "res (rcreate r e s) (rstep r xf s0)" "res (rread r e s) (rstep r xf s0)"
    unfolding ropen_def rcreate_def rread_def by (intro res_get res_if res_Some steps assms; simp)+
  moreover have "res (rwrite r e s) (rstep r xf s0)"
    unfolding rwrite_def using nf assms by (auto simp: if_some_def intro!: res_get res_Some)
  moreover have "res (rremove r e s) (rstep r xf s0)"
    unfolding rremove_def using nf assms by (auto intro!: res_get res_Some)
  moreover have "res (rstat r e s) (rstep r xf s0)"
    unfolding rstat_def Let_def case_prod_unfold
    by (rule res_get, rule res_if, rule res_Some, rule assms, rule res_get, rule res_if, rule steps, simp,
      rule res_get, rule res_get, rule res_bind [where R = "rstep r xf s0"], rule steps, simp)
      (intro res_if res_Some res_steps; simp)
  ultimately show ?thesis
    unfolding retype_def Let_def by (intro res_get res_if res_Some res_None assms)
qed

text \<open>The reply that \<open>put_reply\<close> encodes, and that it can be encoded.\<close>

definition the_reply :: "req \<Rightarrow> fcall" where
  "the_reply q = (let f = (rq_ofcall q)\<lparr>fc_tag := fc_tag (rq_ifcall q), fc_type := fc_type (rq_ifcall q) + 1\<rparr> in
     if rq_error q \<noteq> None then setfcallerror (rq_error q) f else f)"

definition fits :: "u32int \<Rightarrow> fcall \<Rightarrow> bool" where
  "fits m f \<longleftrightarrow> (\<exists>n b. convS2M f (replicate (unat m) 0) (unat m) = Some (n, b) \<and> 2 < n)"

lemma put_reply_eq:
  assumes "sv_reqs s r = Some q"
  shows "put_reply r s = do {
    (n, b) \<leftarrow> convS2M (the_reply q) (replicate (unat (sv_msize s)) 0) (unat (sv_msize s));
    assertion (2 < n);
    Some (take n b, s\<lparr>sv_reqs := (sv_reqs s)(r \<mapsto> q\<lparr>rq_ofcall := the_reply q\<rparr>)\<rparr>) }"
  using assms by (auto simp: put_reply_def setr_def the_reply_def Let_def assertion_def split: Option.bind_splits)

lemma fits_wire: "fcall_ok f \<Longrightarrow> wire_size f \<le> unat m \<Longrightarrow> fits m f"
  by (simp add: fits_def convS2M_wire wire_size_def)

lemma fits_7: "fits m f \<Longrightarrow> 7 \<le> unat m"
  by (auto simp: fits_def convS2M_def pbit_defs memput_def bind_eq_Some_conv Let_def split: if_splits)

text \<open>The reply to a flush.\<close>

definition rflush_msg :: "ushort \<Rightarrow> mem" where
  "rflush_msg t = le32 7 @ [Rflush] @ le16 t"

lemma put_rflush:
  assumes "sv_reqs s r = Some q" "fc_type (rq_ifcall q) = Tflush" "rq_error q = None" "7 \<le> unat (sv_msize s)"
  shows "put_reply r s = Some (rflush_msg (fc_tag (rq_ifcall q)),
    s\<lparr>sv_reqs := (sv_reqs s)(r \<mapsto> q\<lparr>rq_ofcall := the_reply q\<rparr>)\<rparr>)"
proof -
  have t: "fc_type (the_reply q) = Rflush" "fc_tag (the_reply q) = fc_tag (rq_ifcall q)"
    using assms(2,3) by (simp_all add: the_reply_def)
  then have w: "wire_size (the_reply q) = 7" "wire (the_reply q) = rflush_msg (fc_tag (rq_ifcall q))"
    by (simp_all add: wire_size_def wire_def wire_body_def rflush_msg_def)
  have ok: "fcall_ok (the_reply q)"
    using t w(1) by (simp add: fcall_ok_def msg_types_def msg_strings_def counts_ok_def)
  have len: "length (rflush_msg t) = 7" for t by (simp add: rflush_msg_def)
  show ?thesis
    using ok assms(4) w by (simp add: put_reply_eq [OF assms(1)] convS2M_wire img_def len)
qed

lemma put_rflush_only:
  assumes "sv_reqs s r = Some q" "fc_type (rq_ifcall q) = Tflush" "rq_error q = None" "put_reply r s = Some x"
  shows "x = (rflush_msg (fc_tag (rq_ifcall q)), s\<lparr>sv_reqs := (sv_reqs s)(r \<mapsto> q\<lparr>rq_ofcall := the_reply q\<rparr>)\<rparr>) \<and>
    7 \<le> unat (sv_msize s)"
proof -
  have "fits (sv_msize s) (the_reply q)"
    using assms(1,4) by (auto simp: put_reply_eq fits_def assertion_def bind_eq_Some_conv split: if_splits)
  then show ?thesis using put_rflush [OF assms(1-3)] fits_7 assms(4) by auto
qed

subsection \<open>The request leaves the pool\<close>

definition answered :: "reqp \<Rightarrow> ghost \<Rightarrow> ghost" where
  "answered r G = G\<lparr>gh_refs := (gh_refs G)(r := gh_refs G r + 1), gh_busy := insert r (gh_busy G)\<rparr>"

lemma closereq_ref:
  "sv_reqs s r = Some q \<Longrightarrow> rq_ref q \<noteq> 1 \<Longrightarrow>
   closereq (Suc n) r s = Some (s\<lparr>sv_reqs := (sv_reqs s)(r \<mapsto> q\<lparr>rq_ref := rq_ref q - 1\<rparr>)\<rparr>)"
  by (simp add: setr_def)

declare closereq.simps [simp del] rflush.simps [simp del] respond.simps [simp del]

text \<open>\<open>early_close\<close> on a request whose fids are counted.\<close>

lemma early_close_inv:
  assumes f: "finv s xf" and q: "sv_reqs s r = Some q" and pool: "rq_pool q"
  shows "\<exists>F D v. early_close r s = Some (s\<lparr>sv_fids := F, sv_destroyfid := D,
      sv_reqs := (sv_reqs s)(r \<mapsto> q\<lparr>rq_responded := True, rq_fid := v\<rparr>)\<rparr>) \<and>
    finv (s\<lparr>sv_fids := F, sv_destroyfid := D,
      sv_reqs := (sv_reqs s)(r \<mapsto> q\<lparr>rq_responded := True, rq_fid := v\<rparr>)\<rparr>) xf"
proof (cases "rq_ref q = 1 + int (length (rq_flush q)) \<and> rq_fid q \<noteq> None")
  case False
  let ?s = "s\<lparr>sv_reqs := (sv_reqs s)(r \<mapsto> q\<lparr>rq_responded := True\<rparr>)\<rparr>"
  have *: "early_close r s = Some ?s"
    using False q by (auto simp: early_close_def setr_def split: option.splits)
  have "finv ?s xf" by (rule finv_req [OF f q]) (simp add: slots_def)
  moreover have "?s = s\<lparr>sv_fids := sv_fids s, sv_destroyfid := sv_destroyfid s,
      sv_reqs := (sv_reqs s)(r \<mapsto> q\<lparr>rq_responded := True, rq_fid := rq_fid q\<rparr>)\<rparr>" by simp
  ultimately show ?thesis using * by metis
next
  case True
  then obtain p where p: "rq_fid q = Some p" by auto
  let ?q = "q\<lparr>rq_responded := True\<rparr>"
  let ?t = "s\<lparr>sv_reqs := (sv_reqs s)(r \<mapsto> q\<lparr>rq_responded := True, rq_fid := None\<rparr>)\<rparr>"
  let ?R = "(sv_reqs s)(r \<mapsto> ?q)"
  have "finv ?t (hold (Some p) xf)"
    by (rule finv_req [OF f q]) (simp add: slots_def hold_def p)
  from finv_close_opt [OF this, of ?R] obtain F D where
    1: "closefid p (?t\<lparr>sv_reqs := ?R\<rparr>) = Some (?t\<lparr>sv_fids := F, sv_destroyfid := D, sv_reqs := ?R\<rparr>)"
    and 2: "finv (?t\<lparr>sv_fids := F, sv_destroyfid := D\<rparr>) xf" by (auto simp: if_some_def)
  let ?u = "s\<lparr>sv_fids := F, sv_destroyfid := D,
      sv_reqs := (sv_reqs s)(r \<mapsto> q\<lparr>rq_responded := True, rq_fid := None\<rparr>)\<rparr>"
  have "?t\<lparr>sv_reqs := ?R\<rparr> = s\<lparr>sv_reqs := ?R\<rparr>" by simp
  with 1 have "early_close r s = Some ?u"
    using True q pool p by (simp add: early_close_def setr_def)
  moreover have "finv ?u xf" using 2 by (rule finv_cong) (simp add: fview_def)
  ultimately show ?thesis by metis
qed

definition leave_pool :: "nat \<Rightarrow> reqp \<Rightarrow> ushort \<Rightarrow> srv \<Rightarrow> srv option" where
  "leave_pool n r tag s = do {
     s \<leftarrow> (let (v, s) = removereq tag s in if_some v (closereq n) s);
     early_close r s }"

lemma leave_pool_inv:
  assumes inv: "rinv s G" "finv s xf" and q: "sv_reqs s r = Some q" "\<not> rq_responded q" "rq_oldreq q = None"
  shows "\<exists>s1 q1. leave_pool (Suc n) r (fc_tag (rq_ifcall q)) s = Some s1 \<and> rinv s1 (answered r G) \<and> finv s1 xf \<and>
    sv_reqs s1 = (sv_reqs s)(r \<mapsto> q1) \<and> rq_flush q1 = gh_wait G r \<and> rq_ifcall q1 = rq_ifcall q \<and> rq_pool q1 \<and>
    sv_msize s1 = sv_msize s \<and> sv_next s1 = sv_next s \<and> sv_out s1 = sv_out s"
proof -
  note ok = rinv_req [OF inv(1) q(1)]
  have fin: "finite (dom (sv_reqs s))" and im: "intmap_ok (sv_rpool s)" using inv(1) by (simp_all add: rinv_def)
  have nb: "r \<notin> gh_busy G" using inv(1) q by (auto simp: rinv_def)
  let ?k = "ucast (fc_tag (rq_ifcall q)) :: u32int"
  have own: "mget (sv_rpool s) ?k = Some r" and pool: "rq_pool q" using ok q by (simp_all add: req_ok_def)
  obtain m where m: "deletekey (sv_rpool s) ?k = (Some r, m)" "mget m = (mget (sv_rpool s))(?k := None)" "intmap_ok m"
    using deletekey_spec [OF im, of ?k] own by (cases "deletekey (sv_rpool s) ?k") auto
  have "0 < rrefs s r" using own by (auto simp: rrefs_def ran_def)
  then have ref: "2 \<le> rq_ref q" using ok q by (auto simp: req_ok_def)
  let ?s2 = "s\<lparr>sv_rpool := m\<rparr>" let ?q2 = "q\<lparr>rq_ref := rq_ref q - 1\<rparr>"
  let ?s3 = "?s2\<lparr>sv_reqs := (sv_reqs s)(r \<mapsto> ?q2)\<rparr>"
  have "(let (v, s) = removereq (fc_tag (rq_ifcall q)) s in if_some v (closereq (Suc n)) s) = Some ?s3"
    using m(1) ref closereq_ref [of ?s2 r q n] q(1) by (simp add: removereq_def if_some_def)
  moreover have "finv ?s2 xf" by (rule finv_cong [OF inv(2)]) (simp add: fview_def)
  then have "finv (?s2\<lparr>sv_reqs := (sv_reqs ?s2)(r \<mapsto> ?q2)\<rparr>) xf"
    by (rule finv_req) (use q in \<open>simp_all add: slots_def\<close>)
  then have "finv ?s3 xf" by simp
  from early_close_inv [OF this, of r ?q2] obtain F D v where
    "early_close r ?s3 = Some (?s3\<lparr>sv_fids := F, sv_destroyfid := D,
      sv_reqs := (sv_reqs ?s3)(r \<mapsto> ?q2\<lparr>rq_responded := True, rq_fid := v\<rparr>)\<rparr>)"
    "finv (?s3\<lparr>sv_fids := F, sv_destroyfid := D,
      sv_reqs := (sv_reqs ?s3)(r \<mapsto> ?q2\<lparr>rq_responded := True, rq_fid := v\<rparr>)\<rparr>) xf"
    using pool by auto
  moreover define s1 where "s1 = ?s3\<lparr>sv_fids := F, sv_destroyfid := D,
      sv_reqs := (sv_reqs ?s3)(r \<mapsto> ?q2\<lparr>rq_responded := True, rq_fid := v\<rparr>)\<rparr>"
  ultimately have 1: "leave_pool (Suc n) r (fc_tag (rq_ifcall q)) s = Some s1" "finv s1 xf"
    by (simp_all add: leave_pool_def)
  define q1 where "q1 = ?q2\<lparr>rq_responded := True, rq_fid := v\<rparr>"
  have s1: "sv_reqs s1 = (sv_reqs s)(r \<mapsto> q1)" "sv_rpool s1 = m" "sv_next s1 = sv_next s"
    "sv_msize s1 = sv_msize s" "sv_out s1 = sv_out s" by (simp_all add: s1_def q1_def)
  have ran: "x \<in> ran (mget m) \<longleftrightarrow> x \<in> ran (mget (sv_rpool s)) \<and> x \<noteq> r" for x
    using ran_delete_inj [of "mget (sv_rpool s)" x ?k] rinv_pool_inj [OF inv(1), of _ x ?k] own m(2) by auto
  have "wsum (\<lambda>q. of_bool (rq_oldreq q = Some x)) ((sv_reqs s)(r \<mapsto> q1)) =
      wsum (\<lambda>q. of_bool (rq_oldreq q = Some x)) (sv_reqs s)" for x
    using wsum_upd [OF fin q(1), of "\<lambda>q. of_bool (rq_oldreq q = Some x)" q1] q(3) by (simp add: q1_def)
  then have rr: "rrefs s1 x + of_bool (x = r) = rrefs s x" for x
    using own by (auto simp: rrefs_def s1 ran ranI)
  have "rinv s1 (answered r G)"
  proof (rule rinv_step [OF inv(1) q(1) s1(1,3)])
    show "mget (sv_rpool s1) = (if rq_responded q1 \<and> \<not> rq_responded q then (mget (sv_rpool s))(?k := None)
       else mget (sv_rpool s))" using m(2) q(2) by (simp add: s1 q1_def)
    show "req_ok s1 (answered r G) r q1"
      using ok q ref rr [of r] by (auto simp: req_ok_def answered_def q1_def s1)
    show "rrefs s1 x + gh_refs (answered r G) x \<le> rrefs s x + gh_refs G x" if "x \<noteq> r" for x
      using rr [of x] that by (simp add: answered_def)
    show "waits s1 x f" if "f \<in> set (gh_wait (answered r G) x)" for x f
      using rinv_waits [OF inv(1), of f x] that q by (auto simp: waits_def s1 answered_def)
  qed (use inv(1) nb in \<open>auto simp: rinv_def answered_def s1 m(3) q1_def\<close>)
  moreover have "rq_flush q = gh_wait G r" using ok nb by (simp add: req_ok_def)
  ultimately show ?thesis using 1 s1 pool
    by (intro exI [of _ s1] exI [of _ q1]) (simp add: q1_def)
qed

subsection \<open>Answering the flushes\<close>

definition served :: "reqp \<Rightarrow> reqp list \<Rightarrow> ghost \<Rightarrow> ghost" where
  "served r fs G = G\<lparr>gh_wait := (gh_wait G)(r := fs)\<rparr>"

text \<open>The next flush is taken out of the list of a request that has been answered.\<close>

lemma detach_inv:
  assumes inv: "rinv s G" "finv s xf" and busy: "r \<in> gh_busy G" and w: "gh_wait G r = f # fs"
  shows "\<exists>g. sv_reqs s f = Some g \<and> \<not> rq_responded g \<and> fc_type (rq_ifcall g) = Tflush \<and> r < f \<and> f < sv_next s \<and>
    rinv (s\<lparr>sv_reqs := (sv_reqs s)(f \<mapsto> g\<lparr>rq_oldreq := None\<rparr>)\<rparr>) (served r fs G) \<and>
    finv (s\<lparr>sv_reqs := (sv_reqs s)(f \<mapsto> g\<lparr>rq_oldreq := None\<rparr>)\<rparr>) xf"
proof -
  obtain g where g: "sv_reqs s f = Some g" "rq_oldreq g = Some r" "\<not> rq_responded g"
    using rinv_waits [OF inv(1), of f r] w by (auto simp: waits_def)
  obtain q where q: "sv_reqs s r = Some q" "rq_responded q" using inv(1) busy by (auto simp: rinv_def)
  note ok = rinv_req [OF inv(1) g(1)]
  have fin: "finite (dom (sv_reqs s))" using inv(1) by (simp add: rinv_def)
  have fr: "f \<noteq> r" using g q by auto
  with ok g have r: "r < f" "f < sv_next s" "fc_type (rq_ifcall g) = Tflush" by (auto simp: req_ok_def)
  have nb: "f \<notin> gh_busy G" using inv(1) g by (auto simp: rinv_def)
  have d: "distinct (f # fs)" using inv(1) w by (metis rinv_def)
  let ?g = "g\<lparr>rq_oldreq := None\<rparr>" let ?s = "s\<lparr>sv_reqs := (sv_reqs s)(f \<mapsto> g\<lparr>rq_oldreq := None\<rparr>)\<rparr>"
  have rr: "rrefs ?s x + of_bool (x = r) = rrefs s x" for x
    using rrefs_upd [OF fin g(1), of ?g x] g(2) by auto
  have "rinv ?s (served r fs G)"
  proof (rule rinv_step [OF inv(1) g(1)])
    show "req_ok ?s (served r fs G) f ?g"
      using ok g fr nb rr [of f] by (auto simp: req_ok_def served_def)
    show "rrefs ?s x + gh_refs (served r fs G) x \<le> rrefs s x + gh_refs G x" if "x \<noteq> f" for x
      using rr [of x] by (simp add: served_def)
    show "waits ?s x h" if "h \<in> set (gh_wait (served r fs G) x)" for x h
    proof -
      have h: "h \<in> set (gh_wait G x)" using that w by (auto simp: served_def split: if_splits)
      have "h \<noteq> f"
      proof
        assume "h = f"
        then have "x = r" using rinv_waits [OF inv(1) h] g by (auto simp: waits_def)
        with that d \<open>h = f\<close> show False by (simp add: served_def)
      qed
      then show ?thesis using rinv_waits [OF inv(1) h] by (auto simp: waits_def)
    qed
    show "distinct (gh_wait (served r fs G) x)" for x
      using inv(1) d by (auto simp: served_def rinv_def)
  qed (use inv(1) nb fr busy in \<open>auto simp: rinv_def served_def\<close>)
  moreover have "finv ?s xf" by (rule finv_req [OF inv(2) g(1)]) (simp add: slots_def)
  ultimately show ?thesis using g r by blast
qed

text \<open>All flushes of a request have been answered; \<open>respond\<close> empties the list and lets go of it.\<close>

definition unbusy :: "reqp \<Rightarrow> ghost \<Rightarrow> ghost" where
  "unbusy r G = G\<lparr>gh_busy := gh_busy G - {r}\<rparr>"

lemma unbusy_inv:
  assumes inv: "rinv s G" "finv s xf" and busy: "r \<in> gh_busy G" and w: "gh_wait G r = []"
    and q: "sv_reqs s r = Some q"
  shows "rinv (s\<lparr>sv_reqs := (sv_reqs s)(r \<mapsto> q\<lparr>rq_flush := []\<rparr>)\<rparr>) (unbusy r G) \<and>
    finv (s\<lparr>sv_reqs := (sv_reqs s)(r \<mapsto> q\<lparr>rq_flush := []\<rparr>)\<rparr>) xf"
proof
  note ok = rinv_req [OF inv(1) q]
  have fin: "finite (dom (sv_reqs s))" using inv(1) by (simp add: rinv_def)
  let ?q = "q\<lparr>rq_flush := []\<rparr>" let ?s = "s\<lparr>sv_reqs := (sv_reqs s)(r \<mapsto> q\<lparr>rq_flush := []\<rparr>)\<rparr>"
  have rr: "rrefs ?s x = rrefs s x" for x using rrefs_upd [OF fin q, of ?q x] by simp
  show "rinv ?s (unbusy r G)"
  proof (rule rinv_step [OF inv(1) q])
    show "req_ok ?s (unbusy r G) r ?q" using ok w by (auto simp: req_ok_def unbusy_def rr)
    show "waits ?s x h" if "h \<in> set (gh_wait (unbusy r G) x)" for x h
      using rinv_waits [OF inv(1), of h x] that q by (auto simp: waits_def unbusy_def)
  qed (use inv(1) in \<open>auto simp: rinv_def unbusy_def rr\<close>)
  show "finv ?s xf" by (rule finv_req [OF inv(2) q]) (simp add: slots_def)
qed

subsection \<open>respond\<close>

text \<open>The part of \<open>respond\<close> from the reply on.\<close>

definition serve :: "nat \<Rightarrow> reqp \<Rightarrow> srv \<Rightarrow> srv option" where
  "serve n f s = do { s \<leftarrow> setr f (\<lambda>q. q\<lparr>rq_oldreq := None\<rparr>) s; respond n f None s }"

definition finish :: "nat \<Rightarrow> reqp \<Rightarrow> ushort \<Rightarrow> srv \<Rightarrow> srv option" where
  "finish n r tag s = do {
     (msg, s) \<leftarrow> put_reply r s;
     s \<leftarrow> leave_pool n r tag s;
     let s = s\<lparr>sv_out := sv_out s @ [msg]\<rparr>;
     q \<leftarrow> sv_reqs s r;
     s \<leftarrow> forM (serve n) (rq_flush q) s;
     s \<leftarrow> setr r (\<lambda>q. q\<lparr>rq_flush := []\<rparr>) s;
     if rq_pool q then closereq n r s else Some (s\<lparr>sv_reqs := (sv_reqs s)(r := None)\<rparr>) }"

lemma respond_finish:
  assumes "sv_reqs s r = Some q" "\<not> rq_responded q" "rq_pool q"
  shows "respond (Suc n) r e s = do {
    s \<leftarrow> setr r (\<lambda>q. q\<lparr>rq_error := e\<rparr>) s;
    (delayed, s) \<leftarrow> (if fc_type (rq_ifcall q) = Tflush then rflush n r e s else map_option (Pair False) (retype r e s));
    if delayed then Some s else finish n r (fc_tag (rq_ifcall q)) s }"
  using assms unfolding finish_def leave_pool_def serve_def [abs_def]
  by (auto simp: respond.simps Let_def case_prod_unfold intro!: Option.bind_cong split: bool.split)

text \<open>The request has been answered: what comes out, and what stays the same.\<close>

definition same_tags :: "srv \<Rightarrow> srv \<Rightarrow> bool" where
  "same_tags s s' \<longleftrightarrow> sv_next s' = sv_next s \<and> (\<forall>x p. sv_reqs s' x = Some p \<longrightarrow>
     (\<exists>q. sv_reqs s x = Some q \<and> fc_tag (rq_ifcall p) = fc_tag (rq_ifcall q) \<and>
       fc_type (rq_ifcall p) = fc_type (rq_ifcall q)))"

definition same_ghost :: "ghost \<Rightarrow> ghost \<Rightarrow> bool" where
  "same_ghost G G' \<longleftrightarrow> gh_refs G' = gh_refs G \<and> gh_busy G' = gh_busy G \<and> gh_cur G' = gh_cur G \<and>
     (\<forall>x \<in> gh_busy G. gh_wait G' x = gh_wait G x)"

definition flushed :: "srv \<Rightarrow> reqp set \<Rightarrow> mem list \<Rightarrow> bool" where
  "flushed s X ms \<longleftrightarrow> (\<forall>m \<in> set ms. \<exists>t. m = rflush_msg t) \<and>
     (\<forall>f \<in> X. \<forall>g. sv_reqs s f = Some g \<longrightarrow> rflush_msg (fc_tag (rq_ifcall g)) \<in> set ms)"

definition replied :: "reqp \<Rightarrow> srv \<Rightarrow> ghost \<Rightarrow> (fidp \<Rightarrow> nat) \<Rightarrow> srv \<Rightarrow> bool" where
  "replied r s G xf s' \<longleftrightarrow> (\<exists>G'. rinv s' G' \<and> same_ghost G G') \<and> finv s' xf \<and> same_tags s s' \<and>
     (\<forall>q. sv_reqs s' r = Some q \<longrightarrow> rq_responded q) \<and>
     (\<exists>msg ms. sv_out s' = sv_out s @ msg # ms \<and> flushed s (set (gh_wait G r)) ms)"

definition rflush_replied :: "reqp \<Rightarrow> srv \<Rightarrow> ghost \<Rightarrow> (fidp \<Rightarrow> nat) \<Rightarrow> srv \<Rightarrow> bool" where
  "rflush_replied f s G xf s' \<longleftrightarrow> (\<exists>G'. rinv s' G' \<and> same_ghost G G') \<and> finv s' xf \<and> same_tags s s' \<and>
     sv_msize s' = sv_msize s \<and>
     (\<exists>ms. sv_out s' = sv_out s @ ms \<and> flushed s {f} ms)"

text \<open>\<open>answers n\<close>: with the depth \<open>n\<close>, \<open>respond\<close> can answer every flush that is not yet answered.\<close>

definition answers :: "nat \<Rightarrow> (fidp \<Rightarrow> nat) \<Rightarrow> bool" where
  "answers n xf \<longleftrightarrow> (\<forall>f g s G. rinv s G \<longrightarrow> finv s xf \<longrightarrow> sv_reqs s f = Some g \<longrightarrow> \<not> rq_responded g \<longrightarrow>
     rq_oldreq g = None \<longrightarrow> fc_type (rq_ifcall g) = Tflush \<longrightarrow> sv_next s - f + 1 < n \<longrightarrow>
     runs (7 \<le> unat (sv_msize s)) (respond n f None s) (rflush_replied f s G xf))"

lemma same_tags_trans: "same_tags s t \<Longrightarrow> same_tags t u \<Longrightarrow> same_tags s u"
  by (fastforce simp: same_tags_def)

definition serving :: "reqp \<Rightarrow> srv \<Rightarrow> ghost \<Rightarrow> (fidp \<Rightarrow> nat) \<Rightarrow> reqp list \<Rightarrow> srv \<Rightarrow> bool" where
  "serving r s G xf fs t \<longleftrightarrow> (\<exists>G'. rinv t G' \<and> same_ghost (served r fs G) G') \<and> finv t xf \<and> same_tags s t \<and>
     sv_msize t = sv_msize s \<and>
     (\<exists>ms. sv_out t = sv_out s @ ms \<and> flushed s (set (gh_wait G r) - set fs) ms)"

lemma same_tags_upd:
  "same_tags s t \<Longrightarrow> sv_reqs t r = Some q \<Longrightarrow> fc_tag (rq_ifcall q') = fc_tag (rq_ifcall q) \<Longrightarrow>
   fc_type (rq_ifcall q') = fc_type (rq_ifcall q) \<Longrightarrow> sv_reqs t' = (sv_reqs t)(r \<mapsto> q') \<Longrightarrow> sv_next t' = sv_next t \<Longrightarrow> same_tags s t'"
  by (auto simp: same_tags_def)

lemma serve_inv:
  assumes ans: "answers n xf" and busy: "r \<in> gh_busy G" and n: "sv_next s < n + r"
    and I: "serving r s G xf (f # fs) t"
  shows "runs (7 \<le> unat (sv_msize s)) (serve n f t) (serving r s G xf fs)"
proof -
  obtain G' where G: "rinv t G'" "same_ghost (served r (f # fs) G) G'" using I by (auto simp: serving_def)
  have ft: "finv t xf" "same_tags s t" "sv_msize t = sv_msize s" using I by (auto simp: serving_def)
  obtain ms where ms: "sv_out t = sv_out s @ ms" "flushed s (set (gh_wait G r) - set (f # fs)) ms"
    using I by (auto simp: serving_def)
  have b': "r \<in> gh_busy G'" and w: "gh_wait G' r = f # fs" using G(2) busy by (auto simp: same_ghost_def served_def)
  from detach_inv [OF G(1) ft(1) b' w] obtain g where g: "sv_reqs t f = Some g" "\<not> rq_responded g"
      "fc_type (rq_ifcall g) = Tflush" "r < f" "f < sv_next t" and
    inv: "rinv (t\<lparr>sv_reqs := (sv_reqs t)(f \<mapsto> g\<lparr>rq_oldreq := None\<rparr>)\<rparr>) (served r fs G')"
      "finv (t\<lparr>sv_reqs := (sv_reqs t)(f \<mapsto> g\<lparr>rq_oldreq := None\<rparr>)\<rparr>) xf" by blast
  let ?u = "t\<lparr>sv_reqs := (sv_reqs t)(f \<mapsto> g\<lparr>rq_oldreq := None\<rparr>)\<rparr>"
  have su: "same_tags s ?u" by (rule same_tags_upd [OF ft(2) g(1)]) simp_all
  have nn: "sv_next t = sv_next s" using ft(2) by (simp add: same_tags_def)
  have "runs (7 \<le> unat (sv_msize ?u)) (respond n f None ?u) (rflush_replied f ?u (served r fs G') xf)"
  proof (rule ans [unfolded answers_def, rule_format])
    show "sv_reqs ?u f = Some (g\<lparr>rq_oldreq := None\<rparr>)" by simp
    show "sv_next ?u - f + 1 < n" using n nn g(4,5) by simp
  qed (use inv g in simp_all)
  then have "runs (7 \<le> unat (sv_msize s)) (respond n f None ?u) (serving r s G xf fs)"
  proof (rule runs_mono)
    fix v assume v: "rflush_replied f ?u (served r fs G') xf v"
    obtain G2 where G2: "rinv v G2" "same_ghost (served r fs G') G2" using v by (auto simp: rflush_replied_def)
    obtain ms' where ms': "sv_out v = sv_out t @ ms'" "flushed ?u {f} ms'" using v by (auto simp: rflush_replied_def)
    have "same_ghost (served r fs G) G2" using G(2) G2(2) by (auto simp: same_ghost_def served_def)
    moreover have "same_tags s v" using v su same_tags_trans by (auto simp: rflush_replied_def)
    moreover have "flushed s (set (gh_wait G r) - set fs) (ms @ ms')"
      unfolding flushed_def
    proof (intro conjI ballI allI impI)
      fix m assume "m \<in> set (ms @ ms')" then show "\<exists>t. m = rflush_msg t" using ms(2) ms'(2) by (auto simp: flushed_def)
    next
      fix h p assume h: "h \<in> set (gh_wait G r) - set fs" "sv_reqs s h = Some p"
      show "rflush_msg (fc_tag (rq_ifcall p)) \<in> set (ms @ ms')"
      proof (cases "h = f")
        case True
        moreover have "fc_tag (rq_ifcall p) = fc_tag (rq_ifcall g)"
          using ft(2) g(1) h(2) True by (fastforce simp: same_tags_def)
        ultimately show ?thesis using ms'(2) by (simp add: flushed_def)
      qed (use h ms(2) in \<open>auto simp: flushed_def\<close>)
    qed
    ultimately show "serving r s G xf fs v"
      using G2(1) v ms(1) ms'(1) ft(3) by (auto simp: serving_def rflush_replied_def)
  qed (simp add: ft(3))
  then show ?thesis using g(1) by (simp add: serve_def setr_def)
qed

lemma finish_inv:
  assumes ans: "answers (Suc n) xf" and inv: "rinv s G" "finv s xf"
    and q: "sv_reqs s r = Some q" "\<not> rq_responded q" "rq_oldreq q = None" and n: "sv_next s < Suc n + r"
  shows "runs (fits (sv_msize s) (the_reply q)) (finish (Suc n) r (fc_tag (rq_ifcall q)) s)
    (\<lambda>s'. replied r s G xf s' \<and> sv_msize s' = sv_msize s \<and>
       (\<forall>msg s1. put_reply r s = Some (msg, s1) \<longrightarrow> (\<exists>ms. sv_out s' = sv_out s @ msg # ms)))"
proof (cases "put_reply r s")
  case None
  then have "\<not> fits (sv_msize s) (the_reply q)"
    by (auto simp: put_reply_eq [OF q(1)] fits_def assertion_def)
  with None show ?thesis by (simp add: finish_def runs_def)
next
  case (Some x)
  then obtain msg where x: "x = (msg, s\<lparr>sv_reqs := (sv_reqs s)(r \<mapsto> q\<lparr>rq_ofcall := the_reply q\<rparr>)\<rparr>)"
      and fit: "fits (sv_msize s) (the_reply q)"
    by (auto simp: put_reply_eq [OF q(1)] fits_def assertion_def bind_eq_Some_conv split: if_splits)
  let ?q = "q\<lparr>rq_ofcall := the_reply q\<rparr>" let ?s = "s\<lparr>sv_reqs := (sv_reqs s)(r \<mapsto> q\<lparr>rq_ofcall := the_reply q\<rparr>)\<rparr>"
  have nb: "r \<notin> gh_busy G" using inv(1) q by (auto simp: rinv_def)
  have "rinv ?s G"
    using rinv_req [OF inv(1) q(1)] q(2) by (intro rinv_data [OF inv(1) q(1)]) (simp_all add: ctl_def req_ok_def)
  moreover have "finv ?s xf" by (rule finv_req [OF inv(2) q(1)]) (simp add: slots_def)
  ultimately obtain s1 q1 where 1: "leave_pool (Suc n) r (fc_tag (rq_ifcall q)) ?s = Some s1"
      "rinv s1 (answered r G)" "finv s1 xf" "sv_reqs s1 = (sv_reqs ?s)(r \<mapsto> q1)" "rq_flush q1 = gh_wait G r"
      "rq_ifcall q1 = rq_ifcall q" "rq_pool q1" "sv_msize s1 = sv_msize s" "sv_next s1 = sv_next s" "sv_out s1 = sv_out s"
    using leave_pool_inv [of ?s G xf r ?q n] q by auto
  let ?s1 = "s1\<lparr>sv_out := sv_out s1 @ [msg]\<rparr>"
  have inv1: "rinv ?s1 (answered r G)" "finv ?s1 xf"
    using rinv_cong [OF 1(2)] finv_cong [OF 1(3)] by (simp_all add: fview_def)
  have busy: "r \<in> gh_busy (answered r G)" by (simp add: answered_def)
  have w: "gh_wait (answered r G) r = gh_wait G r" by (simp add: answered_def)
  have self: "served r (gh_wait G r) (answered r G) = answered r G"
    unfolding served_def using w by (simp add: fun_upd_idem)
  have start: "serving r ?s1 (answered r G) xf (gh_wait G r) ?s1"
    unfolding serving_def self w using inv1 by (auto simp: same_ghost_def same_tags_def flushed_def)
  have loop: "runs (7 \<le> unat (sv_msize ?s1)) (forM (serve (Suc n)) (gh_wait G r) ?s1) (serving r ?s1 (answered r G) xf [])"
    by (rule runs_forM [where I = "serving r ?s1 (answered r G) xf"], rule start, rule serve_inv [OF ans busy])
      (use n 1(9) in simp_all)
  have tags1: "same_tags s ?s1"
    using 1(4,6,9) q(1) by (auto simp: same_tags_def)
  have rest: "runs True (do { s \<leftarrow> setr r (\<lambda>q. q\<lparr>rq_flush := []\<rparr>) t; closereq (Suc n) r s })
     (\<lambda>s'. replied r s G xf s' \<and> sv_msize s' = sv_msize s \<and> (\<exists>ms. sv_out s' = sv_out s @ msg # ms))"
    if t: "serving r ?s1 (answered r G) xf [] t" for t
  proof -
    obtain G' where G': "rinv t G'" "same_ghost (served r [] (answered r G)) G'" using t by (auto simp: serving_def)
    obtain ms where ms: "sv_out t = sv_out s @ msg # ms" "flushed ?s1 (set (gh_wait G r)) ms"
      using t 1(10) w by (auto simp: serving_def)
    have ft: "finv t xf" "same_tags ?s1 t" "sv_msize t = sv_msize s" using t 1(8) by (auto simp: serving_def)
    have b: "r \<in> gh_busy G'" "gh_wait G' r = []" "gh_refs G' r = gh_refs G r + 1"
      using G'(2) by (auto simp: same_ghost_def served_def answered_def)
    then obtain p where p: "sv_reqs t r = Some p" "rq_responded p" using G'(1) by (auto simp: rinv_def)
    let ?t = "t\<lparr>sv_reqs := (sv_reqs t)(r \<mapsto> p\<lparr>rq_flush := []\<rparr>)\<rparr>"
    have "rinv ?t (unbusy r G')" "finv ?t xf" using unbusy_inv [OF G'(1) ft(1) b(1,2) p(1)] by blast+
    from closereq_inv [OF this, of r n] obtain u where u: "closereq (Suc n) r ?t = Some u"
        "rinv u (unref r (unbusy r G'))" "finv u xf" "sframe ?t u" "\<forall>x. x \<noteq> r \<longrightarrow> sv_reqs u x = sv_reqs ?t x"
        "\<forall>p. sv_reqs u r = Some p \<longrightarrow> (\<exists>q. sv_reqs ?t r = Some q \<and> rq_ifcall p = rq_ifcall q \<and>
           rq_responded p = rq_responded q)"
      using b by (auto simp: unbusy_def)
    have "same_ghost G (unref r (unbusy r G'))"
      using G'(2) nb b by (auto simp: same_ghost_def unref_def unbusy_def served_def answered_def)
    moreover have "same_tags s u"
    proof -
      have "same_tags s ?t" by (rule same_tags_upd [OF same_tags_trans [OF tags1 ft(2)] p(1)]) simp_all
      moreover have "same_tags ?t u" unfolding same_tags_def
      proof (intro conjI allI impI)
        show "sv_next u = sv_next ?t" using u(4) by (simp add: sframe_def)
        show "\<exists>q. sv_reqs ?t x = Some q \<and> fc_tag (rq_ifcall y) = fc_tag (rq_ifcall q) \<and>
            fc_type (rq_ifcall y) = fc_type (rq_ifcall q)" if "sv_reqs u x = Some y" for x y
          using u(5,6) that by (cases "x = r") auto
      qed
      ultimately show ?thesis by (rule same_tags_trans)
    qed
    moreover have "flushed s (set (gh_wait G r)) ms"
    proof -
      have "r \<notin> set (gh_wait G r)" using rinv_waits [OF inv(1), of r r] q by (auto simp: waits_def)
      then have "sv_reqs ?s1 f = sv_reqs s f" if "f \<in> set (gh_wait G r)" for f using that 1(4) by auto
      then show ?thesis using ms(2) unfolding flushed_def by metis
    qed
    moreover have "sv_out u = sv_out t" "sv_msize u = sv_msize t" using u(4) by (simp_all add: sframe_def)
    moreover have "rq_responded y" if "sv_reqs u r = Some y" for y using u(6) that p by auto
    ultimately show ?thesis
      using u(1-3) p ms(1) ft(3) by (auto simp: setr_def replied_def)
  qed
  have fl: "fits (sv_msize s) (the_reply q) \<Longrightarrow> 7 \<le> unat (sv_msize ?s1)" using fits_7 1(8) by simp
  have "finish (Suc n) r (fc_tag (rq_ifcall q)) s = forM (serve (Suc n)) (gh_wait G r) ?s1 \<bind>
      (\<lambda>t. setr r (\<lambda>q. q\<lparr>rq_flush := []\<rparr>) t \<bind> closereq (Suc n) r)"
    using 1(1,4,5,7) by (simp add: finish_def Some x Let_def)
  moreover have "runs (fits (sv_msize s) (the_reply q)) (forM (serve (Suc n)) (gh_wait G r) ?s1 \<bind>
      (\<lambda>t. setr r (\<lambda>q. q\<lparr>rq_flush := []\<rparr>) t \<bind> closereq (Suc n) r))
    (\<lambda>s'. replied r s G xf s' \<and> sv_msize s' = sv_msize s \<and> (\<exists>ms. sv_out s' = sv_out s @ msg # ms))"
  proof (rule runs_bind)
    show "runs (fits (sv_msize s) (the_reply q)) (forM (serve (Suc n)) (gh_wait G r) ?s1)
        (serving r ?s1 (answered r G) xf [])"
      by (rule runs_mono [OF loop _ fl])
    show "runs (fits (sv_msize s) (the_reply q)) (setr r (\<lambda>q. q\<lparr>rq_flush := []\<rparr>) t \<bind> closereq (Suc n) r)
        (\<lambda>s'. replied r s G xf s' \<and> sv_msize s' = sv_msize s \<and> (\<exists>ms. sv_out s' = sv_out s @ msg # ms))"
      if "serving r ?s1 (answered r G) xf [] t" for t
      by (rule runs_mono [OF rest [OF that]]) auto
  qed
  ultimately show ?thesis by (simp add: Some x)
qed

lemma fuel_pos: "sv_next s - f + 1 < Suc n \<Longrightarrow> \<exists>m. n = Suc m"
  by (cases n) auto

lemma rinv_error:
  assumes "rinv s G" "finv s xf" "sv_reqs s r = Some q"
  shows "rinv (s\<lparr>sv_reqs := (sv_reqs s)(r \<mapsto> q\<lparr>rq_error := e\<rparr>)\<rparr>) G \<and>
    finv (s\<lparr>sv_reqs := (sv_reqs s)(r \<mapsto> q\<lparr>rq_error := e\<rparr>)\<rparr>) xf"
  using rinv_req [OF assms(1,3)]
  by (intro conjI rinv_data [OF assms(1,3)] finv_req [OF assms(2,3)]) (simp_all add: ctl_def req_ok_def slots_def)

lemma replied_rflush:
  assumes q: "sv_reqs s f = Some g" "\<not> rq_responded g"
    and t: "sv_reqs t = (sv_reqs s)(f \<mapsto> g')" "rq_ifcall g' = rq_ifcall g"
      "sv_out t = sv_out s" "sv_next t = sv_next s" "sv_msize t = sv_msize s"
    and r: "replied f t G xf s'" "sv_msize s' = sv_msize t" "sv_out s' = sv_out t @ rflush_msg (fc_tag (rq_ifcall g)) # ms"
  shows "rflush_replied f s G xf s'"
proof -
  obtain msg ms' where o': "sv_out s' = sv_out t @ msg # ms'" "flushed t (set (gh_wait G f)) ms'"
    using r(1) by (auto simp: replied_def)
  then have ms: "ms' = ms" using r(3) by simp
  have "flushed s {f} (rflush_msg (fc_tag (rq_ifcall g)) # ms)"
    using o'(2) q(1) unfolding flushed_def ms by auto
  moreover have "same_tags s t" using q(1) t by (auto simp: same_tags_def)
  then have "same_tags s s'" using r(1) same_tags_trans by (auto simp: replied_def)
  ultimately show ?thesis using r t by (auto simp: rflush_replied_def replied_def)
qed

lemma answers_all: "answers n xf"
proof (induction n)
  case (Suc n)
  show ?case unfolding answers_def
  proof (intro allI impI)
    fix f g s G
    assume inv: "rinv s G" "finv s xf" and g: "sv_reqs s f = Some g" "\<not> rq_responded g" "rq_oldreq g = None"
      "fc_type (rq_ifcall g) = Tflush" and n: "sv_next s - f + 1 < Suc n"
    obtain m where m: "n = Suc m" using fuel_pos [OF n] by blast
    have pool: "rq_pool g" "f < sv_next s" using rinv_req [OF inv(1) g(1)] by (simp_all add: req_ok_def)
    let ?g = "g\<lparr>rq_error := None\<rparr>" let ?s = "s\<lparr>sv_reqs := (sv_reqs s)(f \<mapsto> g\<lparr>rq_error := None\<rparr>)\<rparr>"
    have inv': "rinv ?s G" "finv ?s xf" using rinv_error [OF inv g(1)] by blast+
    have eq: "respond (Suc n) f None s = finish n f (fc_tag (rq_ifcall ?g)) ?s"
      using g pool m by (simp add: respond_finish setr_def rflush.simps)
    have put: "put_reply f ?s = Some (rflush_msg (fc_tag (rq_ifcall g)), ?s\<lparr>sv_reqs := (sv_reqs ?s)(f \<mapsto> ?g\<lparr>rq_ofcall := the_reply ?g\<rparr>)\<rparr>)"
      if "7 \<le> unat (sv_msize s)"
      using put_rflush [of ?s f ?g] g that by simp
    have fit: "fits (sv_msize ?s) (the_reply ?g)" if "7 \<le> unat (sv_msize s)"
      using put [OF that] put_reply_eq [of ?s f ?g]
      by (auto simp: fits_def assertion_def bind_eq_Some_conv split: if_splits)
    have only: "msg = rflush_msg (fc_tag (rq_ifcall g)) " if "put_reply f ?s = Some (msg, s1)" for msg s1
      using put_rflush_only [of ?s f ?g, OF _ _ _ that] g by simp
    have ex: "\<exists>x. put_reply f ?s = Some x" if "finish n f (fc_tag (rq_ifcall ?g)) ?s = Some s'" for s'
      using that by (auto simp: finish_def bind_eq_Some_conv)
    have fin: "runs (fits (sv_msize ?s) (the_reply ?g)) (finish (Suc m) f (fc_tag (rq_ifcall ?g)) ?s)
      (\<lambda>s'. replied f ?s G xf s' \<and> sv_msize s' = sv_msize ?s \<and>
         (\<forall>msg s1. put_reply f ?s = Some (msg, s1) \<longrightarrow> (\<exists>ms. sv_out s' = sv_out ?s @ msg # ms)))"
      by (rule finish_inv) (use Suc m inv' g n pool in simp_all)
    show "runs (7 \<le> unat (sv_msize s)) (respond (Suc n) f None s) (rflush_replied f s G xf)"
      unfolding eq
      unfolding m
    proof (cases "finish (Suc m) f (fc_tag (rq_ifcall ?g)) ?s")
      case (Some s')
      with ex m obtain msg s1 where p: "put_reply f ?s = Some (msg, s1)" by fastforce
      from fin have r: "replied f ?s G xf s'" "sv_msize s' = sv_msize ?s" "\<exists>ms. sv_out s' = sv_out ?s @ msg # ms"
        using Some p by auto
      then obtain ms where "sv_out s' = sv_out ?s @ rflush_msg (fc_tag (rq_ifcall g)) # ms" using only [OF p] by auto
      from replied_rflush [OF g(1,2) _ _ _ _ _ r(1,2) this] show "runs (7 \<le> unat (sv_msize s))
          (finish (Suc m) f (fc_tag (rq_ifcall ?g)) ?s) (rflush_replied f s G xf)"
        using Some by simp
    qed (use fit fin in \<open>auto simp: runs_def\<close>)
  qed
qed (simp add: answers_def)

text \<open>The service answers a request: what must hold for the reply to go out.\<close>

definition can_reply :: "srv \<Rightarrow> reqp \<Rightarrow> cstr \<Rightarrow> bool" where
  "can_reply s r e \<longleftrightarrow> (\<exists>q. sv_reqs s r = Some q \<and>
     (if fc_type (rq_ifcall q) = Tflush then e = None \<and> 7 \<le> unat (sv_msize s)
      else \<exists>s2 q2. setr r (\<lambda>q. q\<lparr>rq_error := e\<rparr>) s \<bind> retype r e = Some s2 \<and> sv_reqs s2 r = Some q2 \<and>
        fits (sv_msize s2) (the_reply q2)))"

lemma rstep_rinv:
  assumes "rstep r xf s s'" "rinv s G" "\<And>q. sv_reqs s r = Some q \<Longrightarrow> \<not> rq_responded q"
  shows "rinv s' G"
proof -
  obtain q q' where q: "sv_reqs s r = Some q" "keep q q'" "sv_reqs s' = (sv_reqs s)(r \<mapsto> q')"
      "sv_rpool s' = sv_rpool s" "sv_next s' = sv_next s" using assms(1) by (auto simp: rstep_def)
  have "fids_set q' = fids_set q" using q(2) by (rule keep_fids_set)
  then have "rinv (s\<lparr>sv_reqs := (sv_reqs s)(r \<mapsto> q')\<rparr>) G"
    using rinv_req [OF assms(2) q(1)] q(2) by (intro rinv_data [OF assms(2) q(1)]) (auto simp: keep_def req_ok_def)
  then show ?thesis by (rule rinv_cong) (use q in simp_all)
qed

lemma replied_before:
  assumes "replied r t G xf s'" "sv_reqs s r = Some q" "sv_reqs t = (sv_reqs s)(r \<mapsto> q')"
    "fc_tag (rq_ifcall q') = fc_tag (rq_ifcall q)" "fc_type (rq_ifcall q') = fc_type (rq_ifcall q)"
    "sv_out t = sv_out s" "sv_next t = sv_next s"
  shows "replied r s G xf s'"
proof -
  have t: "same_tags s t" using assms(2-5,7) by (auto simp: same_tags_def)
  have "flushed s X ms" if "flushed t X ms" for X ms
    unfolding flushed_def
  proof (intro conjI ballI allI impI)
    fix f g assume f: "f \<in> X" "sv_reqs s f = Some g"
    show "rflush_msg (fc_tag (rq_ifcall g)) \<in> set ms"
      using that f assms(2-4) by (cases "f = r") (auto simp: flushed_def)
  qed (use that in \<open>auto simp: flushed_def\<close>)
  then show ?thesis using assms(1,6) same_tags_trans [OF t] by (fastforce simp: replied_def)
qed

text \<open>The reply to a request: a message with its tag and the reply type of its type, or an error.\<close>

definition encodes :: "ushort \<Rightarrow> uchar \<Rightarrow> mem \<Rightarrow> bool" where
  "encodes t ty msg \<longleftrightarrow> (\<exists>f m n b. convS2M f (replicate m 0) m = Some (n, b) \<and> 2 < n \<and> msg = take n b \<and>
     fc_tag f = t \<and> (fc_type f = ty + 1 \<or> fc_type f = Rerror))"

definition own_reply :: "req \<Rightarrow> srv \<Rightarrow> srv \<Rightarrow> bool" where
  "own_reply q s s' \<longleftrightarrow> (\<exists>msg ms. sv_out s' = sv_out s @ msg # ms \<and>
     encodes (fc_tag (rq_ifcall q)) (fc_type (rq_ifcall q)) msg)"

lemma runs_self: "runs g m R \<Longrightarrow> runs g m (\<lambda>x. R x \<and> m = Some x)"
  by (cases m) (simp_all add: runs_def)

lemma the_reply_for:
  "fc_tag (the_reply q) = fc_tag (rq_ifcall q)"
  "fc_type (the_reply q) = fc_type (rq_ifcall q) + 1 \<or> fc_type (the_reply q) = Rerror"
  by (simp_all add: the_reply_def setfcallerror_def Let_def)

lemma finish_own:
  assumes "finish n r t s = Some s'" "sv_reqs s r = Some q"
    "\<And>msg s1. put_reply r s = Some (msg, s1) \<Longrightarrow> \<exists>ms. sv_out s' = sv_out s @ msg # ms"
  shows "own_reply q s s'"
proof -
  obtain msg s1 where p: "put_reply r s = Some (msg, s1)"
    using assms(1) by (auto simp: finish_def bind_eq_Some_conv)
  then have "encodes (fc_tag (rq_ifcall q)) (fc_type (rq_ifcall q)) msg"
    using put_reply_eq [OF assms(2)] the_reply_for [of q] unfolding encodes_def
    by (auto simp: assertion_def bind_eq_Some_conv split: if_splits)
  then show ?thesis using assms(3) [OF p] by (auto simp: own_reply_def)
qed

lemma respond_other:
  assumes inv: "rinv s G" "finv s xf" and q: "sv_reqs s r = Some q" "\<not> rq_responded q"
    and t: "fc_type (rq_ifcall q) \<noteq> Tflush" and n: "sv_next s < Suc n + r"
  shows "runs (can_reply s r e) (respond (Suc (Suc n)) r e s) (\<lambda>s'. replied r s G xf s' \<and> own_reply q s s')"
proof -
  note ok = rinv_req [OF inv(1) q(1)]
  let ?q = "q\<lparr>rq_error := e\<rparr>" let ?s = "s\<lparr>sv_reqs := (sv_reqs s)(r \<mapsto> q\<lparr>rq_error := e\<rparr>)\<rparr>"
  have inv': "rinv ?s G" "finv ?s xf" using rinv_error [OF inv q(1)] by blast+
  have pool: "rq_pool q" and old: "rq_oldreq q = None"
    using ok t by (cases "rq_oldreq q"; simp add: req_ok_def)+
  have eq: "respond (Suc (Suc n)) r e s = retype r e ?s \<bind> finish (Suc n) r (fc_tag (rq_ifcall q))"
    using q pool t by (simp add: respond_finish setr_def bind_map_option o_def)
  have ret: "res (retype r e ?s) (rstep r xf ?s)"
    by (rule retype_rstep [OF rstep_refl [OF inv'(2)]]) simp
  show ?thesis
  proof (cases "retype r e ?s")
    case None
    then have "\<not> can_reply s r e" using q t by (simp add: can_reply_def setr_def)
    then show ?thesis using None by (simp add: eq runs_def)
  next
    case (Some s2)
    with ret have step: "rstep r xf ?s s2" by (simp add: res_def)
    then obtain q2 where q2: "sv_reqs s2 = (sv_reqs s)(r \<mapsto> q2)" "keep ?q q2" "sv_next s2 = sv_next s" "sv_out s2 = sv_out s"
      by (auto simp: rstep_def)
    have inv2: "rinv s2 G" "finv s2 xf"
      using rstep_rinv [OF step inv'(1)] q rstep_finv [OF step] by simp_all
    have c: "fc_tag (rq_ifcall q2) = fc_tag (rq_ifcall q)" "fc_type (rq_ifcall q2) = fc_type (rq_ifcall q)" "rq_oldreq q2 = None" "\<not> rq_responded q2"
      using q2(2) q old by (simp_all add: keep_def ctl_def)
    have "runs (fits (sv_msize s2) (the_reply q2)) (finish (Suc n) r (fc_tag (rq_ifcall q2)) s2)
      (\<lambda>s'. replied r s2 G xf s' \<and> sv_msize s' = sv_msize s2 \<and>
       (\<forall>msg s1. put_reply r s2 = Some (msg, s1) \<longrightarrow> (\<exists>ms. sv_out s' = sv_out s2 @ msg # ms)))"
      by (rule finish_inv [OF answers_all inv2]) (use q2 c n in simp_all)
    from runs_self [OF this] have "runs (can_reply s r e) (finish (Suc n) r (fc_tag (rq_ifcall q2)) s2)
      (\<lambda>s'. replied r s G xf s' \<and> own_reply q s s')"
    proof (rule runs_mono)
      let ?R = "\<lambda>s'. (replied r s2 G xf s' \<and> sv_msize s' = sv_msize s2 \<and>
         (\<forall>msg s1. put_reply r s2 = Some (msg, s1) \<longrightarrow> (\<exists>ms. sv_out s' = sv_out s2 @ msg # ms))) \<and>
         finish (Suc n) r (fc_tag (rq_ifcall q2)) s2 = Some s'"
      show "replied r s G xf s' \<and> own_reply q s s'" if R: "?R s'" for s'
      proof
        show "replied r s G xf s'"
          using R q2 c q by (intro replied_before [of r s2 G xf s' s q q2]) simp_all
        have "own_reply q2 s2 s'"
          by (rule finish_own [of "Suc n" r "fc_tag (rq_ifcall q2)"]) (use R q2(1) in auto)
        then show "own_reply q s s'" using c q2(4) by (simp add: own_reply_def)
      qed
      show "fits (sv_msize s2) (the_reply q2)" if "can_reply s r e"
        using that q t Some q2 by (auto simp: can_reply_def setr_def)
    qed
    then show ?thesis using Some c(1) by (simp add: eq)
  qed
qed

subsection \<open>A flush is answered or waits\<close>

lemma reqs_self: "s = s\<lparr>sv_reqs := R\<rparr> \<Longrightarrow> sv_reqs s = R"
  by (drule arg_cong [of _ _ sv_reqs]) simp

lemma closefid_keeps_reqs: "closefid p s = Some s' \<Longrightarrow> sv_reqs s' = sv_reqs s"
  using closefid_reqs [where R = "sv_reqs s" and s = s and p = p] by (auto dest: reqs_self)

lemma if_some_closefid_reqs:
  "if_some v closefid (s\<lparr>sv_reqs := R\<rparr>) = map_option (\<lambda>s. s\<lparr>sv_reqs := R\<rparr>) (if_some v closefid s)"
  by (cases v) (simp_all add: if_some_def closefid_reqs)

definition close_slots :: "req \<Rightarrow> srv \<Rightarrow> srv option" where
  "close_slots q s = if_some (rq_fid q) closefid s \<bind> if_some (rq_newfid q) closefid \<bind> if_some (rq_afid q) closefid"

lemma close_slots_reqs: "close_slots q (s\<lparr>sv_reqs := R\<rparr>) = map_option (\<lambda>s. s\<lparr>sv_reqs := R\<rparr>) (close_slots q s)"
  by (cases "if_some (rq_fid q) closefid s")
    (auto simp: close_slots_def if_some_closefid_reqs map_conv_bind_option split: Option.bind_splits)

lemma close_slots_keeps: "close_slots q s = Some s' \<Longrightarrow> sv_reqs s' = sv_reqs s"
  using close_slots_reqs [where R = "sv_reqs s" and s = s and q = q] by (auto dest: reqs_self)

text \<open>Closing a request that waits for nothing and that nothing waits for.\<close>

lemma closereq_plain:
  assumes "sv_reqs s old = Some oq" "rq_oldreq oq = None" "rq_flush oq = []"
  shows "closereq (Suc n) old s =
    (if rq_ref oq = 1 then map_option (\<lambda>t. t\<lparr>sv_destroyreq := sv_destroyreq t @ [old], sv_reqs := (sv_reqs s)(old := None)\<rparr>)
       (close_slots oq s)
     else Some (s\<lparr>sv_reqs := (sv_reqs s)(old \<mapsto> oq\<lparr>rq_ref := rq_ref oq - 1\<rparr>)\<rparr>))"
proof (cases "rq_ref oq = 1")
  case True
  have "close_slots (oq\<lparr>rq_ref := 0\<rparr>) = close_slots oq" by (rule ext) (simp add: close_slots_def)
  then have "closereq (Suc n) old s =
      close_slots oq (s\<lparr>sv_reqs := (sv_reqs s)(old \<mapsto> oq\<lparr>rq_ref := 0\<rparr>)\<rparr>) \<bind>
      (\<lambda>t. Some (t\<lparr>sv_destroyreq := sv_destroyreq t @ [old], sv_reqs := (sv_reqs t)(old := None)\<rparr>))"
    using assms True by (simp add: closereq.simps setr_def close_slots_def if_some_def [of None] fun_eq_iff)
  then show ?thesis using True by (simp add: close_slots_reqs bind_map_option o_def map_conv_bind_option)
qed (use assms in \<open>simp add: closereq_ref\<close>)

lemma closereq_commute:
  assumes "r \<noteq> old" "sv_reqs s old = Some oq" "rq_oldreq oq = None" "rq_flush oq = []"
  shows "closereq (Suc n) old (s\<lparr>sv_reqs := (sv_reqs s)(r \<mapsto> q)\<rparr>) =
      map_option (\<lambda>t. t\<lparr>sv_reqs := (sv_reqs t)(r \<mapsto> q)\<rparr>) (closereq (Suc n) old s)"
    and "closereq (Suc n) old s = Some t \<Longrightarrow> sv_reqs t r = sv_reqs s r"
proof -
  have "closereq (Suc n) old (s\<lparr>sv_reqs := (sv_reqs s)(r \<mapsto> q)\<rparr>) =
    (if rq_ref oq = 1 then map_option (\<lambda>t. t\<lparr>sv_destroyreq := sv_destroyreq t @ [old],
        sv_reqs := (sv_reqs s)(r \<mapsto> q, old := None)\<rparr>) (close_slots oq (s\<lparr>sv_reqs := (sv_reqs s)(r \<mapsto> q)\<rparr>))
     else Some (s\<lparr>sv_reqs := (sv_reqs s)(r \<mapsto> q, old \<mapsto> oq\<lparr>rq_ref := rq_ref oq - 1\<rparr>)\<rparr>))"
    using assms closereq_plain [of "s\<lparr>sv_reqs := (sv_reqs s)(r \<mapsto> q)\<rparr>" old oq n] by simp
  also have "\<dots> = map_option (\<lambda>t. t\<lparr>sv_reqs := (sv_reqs t)(r \<mapsto> q)\<rparr>) (closereq (Suc n) old s)"
    using assms(1)
    by (simp add: closereq_plain [OF assms(2-4)] close_slots_reqs option.map_comp o_def fun_upd_twist)
  finally show "closereq (Suc n) old (s\<lparr>sv_reqs := (sv_reqs s)(r \<mapsto> q)\<rparr>) =
      map_option (\<lambda>t. t\<lparr>sv_reqs := (sv_reqs t)(r \<mapsto> q)\<rparr>) (closereq (Suc n) old s)" .
  show "closereq (Suc n) old s = Some t \<Longrightarrow> sv_reqs t r = sv_reqs s r"
    using assms(1) by (auto simp: closereq_plain [OF assms(2-4)] split: if_splits)
qed

text \<open>The reference moves from the flush to the code, which gives it up.\<close>

lemma release_old:
  assumes inv: "rinv s G" "finv s xf" and busy: "gh_busy G = {}"
    and q: "sv_reqs s r = Some q" "\<not> rq_responded q" "rq_oldreq q = Some old" and nw: "r \<notin> set (gh_wait G old)"
    and oq: "sv_reqs s old = Some oq" "rq_responded oq"
  shows "\<exists>t. closereq (Suc n) old s = Some t \<and> sv_reqs t r = Some q \<and>
    rinv (t\<lparr>sv_reqs := (sv_reqs t)(r \<mapsto> q\<lparr>rq_oldreq := None\<rparr>)\<rparr>) G \<and>
    finv (t\<lparr>sv_reqs := (sv_reqs t)(r \<mapsto> q\<lparr>rq_oldreq := None\<rparr>)\<rparr>) xf \<and> sframe s t \<and> same_tags s t"
proof -
  have ne: "r \<noteq> old" using q oq by auto
  note okr = rinv_req [OF inv(1) q(1)] and oko = rinv_req [OF inv(1) oq(1)]
  have fin: "finite (dom (sv_reqs s))" using inv(1) by (simp add: rinv_def)
  have o: "rq_oldreq oq = None" "rq_flush oq = []"
    using oko oq busy by (cases "rq_oldreq oq"; simp add: req_ok_def)+
  let ?q = "q\<lparr>rq_oldreq := None\<rparr>" let ?s = "s\<lparr>sv_reqs := (sv_reqs s)(r \<mapsto> q\<lparr>rq_oldreq := None\<rparr>)\<rparr>"
  have rr: "rrefs ?s x + of_bool (x = old) = rrefs s x" for x
    using rrefs_upd [OF fin q(1), of ?q x] q(3) by auto
  have "rinv ?s (held old G)"
  proof (rule rinv_step [OF inv(1) q(1)])
    show "req_ok ?s (held old G) r ?q"
      using okr q ne rr [of r] by (auto simp: req_ok_def held_def)
    show "rrefs ?s x + gh_refs (held old G) x \<le> rrefs s x + gh_refs G x" if "x \<noteq> r" for x
      using rr [of x] by (auto simp: held_def)
    show "waits ?s x h" if h: "h \<in> set (gh_wait (held old G) x)" for x h
    proof -
      have w: "waits s x h" using h rinv_waits [OF inv(1), of h x] by (simp add: held_def)
      moreover have "h \<noteq> r" using w h nw q by (auto simp: waits_def held_def)
      ultimately show ?thesis by (auto simp: waits_def)
    qed
  qed (use inv(1) busy q in \<open>auto simp: rinv_def held_def\<close>)
  moreover have "finv ?s xf" by (rule finv_req [OF inv(2) q(1)]) (simp add: slots_def)
  ultimately obtain u where u: "closereq (Suc n) old ?s = Some u" "rinv u (unref old (held old G))" "finv u xf"
      "sframe ?s u" "\<forall>x. x \<noteq> old \<longrightarrow> sv_reqs u x = sv_reqs ?s x"
      "\<forall>p. sv_reqs u old = Some p \<longrightarrow> (\<exists>q. sv_reqs ?s old = Some q \<and> rq_ifcall p = rq_ifcall q \<and>
         rq_responded p = rq_responded q)"
    using closereq_inv [of ?s "held old G" xf old n] busy by (auto simp: held_def)
  obtain t where t: "closereq (Suc n) old s = Some t" "u = t\<lparr>sv_reqs := (sv_reqs t)(r \<mapsto> ?q)\<rparr>"
    using u(1) closereq_commute(1) [OF ne oq(1) o, of n ?q] by auto
  have tr: "sv_reqs t r = Some q" using closereq_commute(2) [OF ne oq(1) o t(1)] q by simp
  have "unref old (held old G) = G" by (simp add: unref_def held_def)
  moreover have "same_tags s t"
    unfolding same_tags_def
  proof (intro conjI allI impI)
    show "sv_next t = sv_next s" using u(4) t(2) by (simp add: sframe_def)
    show "\<exists>q. sv_reqs s x = Some q \<and> fc_tag (rq_ifcall p) = fc_tag (rq_ifcall q) \<and>
        fc_type (rq_ifcall p) = fc_type (rq_ifcall q)" if p: "sv_reqs t x = Some p" for x p
    proof (cases "x = r")
      case False
      then have "sv_reqs u x = Some p" using p t(2) by simp
      then show ?thesis using u(5,6) False ne by (cases "x = old") auto
    qed (use p tr q in auto)
  qed
  moreover have "sframe s t" using u(4) t(2) by (simp add: sframe_def)
  ultimately show ?thesis using t tr u(2,3) by simp
qed

lemma wait_inv:
  assumes inv: "rinv s G" "finv s xf" and q: "waits s old r" and nw: "r \<notin> set (gh_wait G old)"
    and oq: "sv_reqs s old = Some oq" "\<not> rq_responded oq"
  shows "rinv (s\<lparr>sv_reqs := (sv_reqs s)(old \<mapsto> oq\<lparr>rq_flush := rq_flush oq @ [r]\<rparr>)\<rparr>)
      (served old (gh_wait G old @ [r]) G) \<and>
    finv (s\<lparr>sv_reqs := (sv_reqs s)(old \<mapsto> oq\<lparr>rq_flush := rq_flush oq @ [r]\<rparr>)\<rparr>) xf"
proof
  note ok = rinv_req [OF inv(1) oq(1)]
  have fin: "finite (dom (sv_reqs s))" using inv(1) by (simp add: rinv_def)
  have nb: "old \<notin> gh_busy G" using inv(1) oq by (auto simp: rinv_def)
  let ?q = "oq\<lparr>rq_flush := rq_flush oq @ [r]\<rparr>" let ?G = "served old (gh_wait G old @ [r]) G"
  let ?s = "s\<lparr>sv_reqs := (sv_reqs s)(old \<mapsto> oq\<lparr>rq_flush := rq_flush oq @ [r]\<rparr>)\<rparr>"
  have rr: "rrefs (s\<lparr>sv_reqs := (sv_reqs s)(old \<mapsto> oq\<lparr>rq_flush := l\<rparr>)\<rparr>) x = rrefs s x" for l x
    using rrefs_upd [OF fin oq(1), of "oq\<lparr>rq_flush := l\<rparr>" x] by simp
  show "rinv ?s ?G"
  proof (rule rinv_step [OF inv(1) oq(1)])
    show "req_ok ?s ?G old ?q" using ok nb oq by (auto simp: req_ok_def served_def rr)
    show "waits ?s x h" if "h \<in> set (gh_wait ?G x)" for x h
    proof -
      have "waits s x h" using that q rinv_waits [OF inv(1), of h x] by (auto simp: served_def split: if_splits)
      then show ?thesis using oq by (auto simp: waits_def)
    qed
    show "distinct (gh_wait ?G x)" for x using inv(1) nw by (auto simp: served_def rinv_def)
  qed (use inv(1) nb in \<open>auto simp: rinv_def served_def rr\<close>)
  show "finv ?s xf" by (rule finv_req [OF inv(2) oq(1)]) (simp add: slots_def)
qed

text \<open>A flush waits as long as the request it names has not been answered.\<close>

definition delayed :: "srv \<Rightarrow> req \<Rightarrow> bool" where
  "delayed s q \<longleftrightarrow> (\<exists>old oq. rq_oldreq q = Some old \<and> sv_reqs s old = Some oq \<and> \<not> rq_responded oq)"

definition flush_done :: "reqp \<Rightarrow> req \<Rightarrow> srv \<Rightarrow> ghost \<Rightarrow> (fidp \<Rightarrow> nat) \<Rightarrow> srv \<Rightarrow> bool" where
  "flush_done r q s G xf s' \<longleftrightarrow> (\<exists>G'. rinv s' G' \<and> same_ghost G G') \<and> finv s' xf \<and> same_tags s s' \<and>
     (if delayed s q then sv_out s' = sv_out s \<and> (\<exists>q'. sv_reqs s' r = Some q' \<and> \<not> rq_responded q') \<and>
        (\<forall>old. rq_oldreq q = Some old \<longrightarrow>
           (\<exists>p. sv_reqs s' old = Some p \<and> \<not> rq_responded p \<and> r \<in> set (rq_flush p)))
      else \<exists>ms. sv_out s' = sv_out s @ rflush_msg (fc_tag (rq_ifcall q)) # ms)"

lemma finish_flush:
  assumes inv: "rinv s G" "finv s xf" and q: "sv_reqs s r = Some q" "\<not> rq_responded q" "rq_oldreq q = None"
    "fc_type (rq_ifcall q) = Tflush" "rq_error q = None" and n: "sv_next s < Suc n + r"
  shows "runs (7 \<le> unat (sv_msize s)) (finish (Suc n) r (fc_tag (rq_ifcall q)) s)
    (\<lambda>s'. (\<exists>G'. rinv s' G' \<and> same_ghost G G') \<and> finv s' xf \<and> same_tags s s' \<and>
       (\<exists>ms. sv_out s' = sv_out s @ rflush_msg (fc_tag (rq_ifcall q)) # ms))"
proof -
  have fin: "runs (fits (sv_msize s) (the_reply q)) (finish (Suc n) r (fc_tag (rq_ifcall q)) s)
    (\<lambda>s'. replied r s G xf s' \<and> sv_msize s' = sv_msize s \<and>
       (\<forall>msg s1. put_reply r s = Some (msg, s1) \<longrightarrow> (\<exists>ms. sv_out s' = sv_out s @ msg # ms)))"
    by (rule finish_inv [OF answers_all inv q(1-3) n])
  have fit: "fits (sv_msize s) (the_reply q)" if "7 \<le> unat (sv_msize s)"
    using put_rflush [OF q(1,4,5) that] put_reply_eq [OF q(1)]
    by (auto simp: fits_def assertion_def bind_eq_Some_conv split: if_splits)
  show ?thesis
  proof (cases "finish (Suc n) r (fc_tag (rq_ifcall q)) s")
    case (Some s')
    then obtain msg s1 where p: "put_reply r s = Some (msg, s1)"
      by (auto simp: finish_def bind_eq_Some_conv)
    then have "msg = rflush_msg (fc_tag (rq_ifcall q))" using put_rflush_only [OF q(1,4,5)] by blast
    then show ?thesis using fin Some p by (auto simp: replied_def)
  qed (use fin fit in \<open>auto simp: runs_def\<close>)
qed

lemma respond_flush:
  assumes inv: "rinv s G" "finv s xf" and busy: "gh_busy G = {}"
    and q: "sv_reqs s r = Some q" "\<not> rq_responded q" "fc_type (rq_ifcall q) = Tflush"
    and nw: "\<And>x. r \<notin> set (gh_wait G x)" and n: "sv_next s < Suc n + r"
  shows "runs (7 \<le> unat (sv_msize s)) (respond (Suc (Suc (Suc n))) r None s) (flush_done r q s G xf)"
proof -
  note ok = rinv_req [OF inv(1) q(1)]
  let ?q = "q\<lparr>rq_error := None\<rparr>" let ?s = "s\<lparr>sv_reqs := (sv_reqs s)(r \<mapsto> q\<lparr>rq_error := None\<rparr>)\<rparr>"
  have inv': "rinv ?s G" "finv ?s xf" using rinv_error [OF inv q(1)] by blast+
  have pool: "rq_pool q" using ok by (simp add: req_ok_def)
  have st: "same_tags s ?s" using q(1) by (auto simp: same_tags_def)
  have eq: "respond (Suc (Suc (Suc n))) r None s = rflush (Suc (Suc n)) r None ?s \<bind>
      (\<lambda>(d, s). if d then Some s else finish (Suc (Suc n)) r (fc_tag (rq_ifcall q)) s)"
    using q pool by (simp add: respond_finish setr_def)
  show ?thesis
  proof (cases "rq_oldreq q")
    case None
    have "runs (7 \<le> unat (sv_msize s)) (finish (Suc (Suc n)) r (fc_tag (rq_ifcall q)) ?s)
      (\<lambda>s'. (\<exists>G'. rinv s' G' \<and> same_ghost G G') \<and> finv s' xf \<and> same_tags ?s s' \<and>
         (\<exists>ms. sv_out s' = sv_out s @ rflush_msg (fc_tag (rq_ifcall q)) # ms))"
      using finish_flush [OF inv', of r ?q "Suc n"] q n None by simp
    then have "runs (7 \<le> unat (sv_msize s)) (finish (Suc (Suc n)) r (fc_tag (rq_ifcall q)) ?s) (flush_done r q s G xf)"
      by (rule runs_mono) (use None same_tags_trans [OF st] in \<open>auto simp: flush_done_def delayed_def\<close>)
    then show ?thesis using None by (simp add: eq rflush.simps)
  next
    case (Some old)
    obtain oq where oq: "sv_reqs s old = Some oq" using ok Some by (auto simp: req_ok_def)
    show ?thesis
    proof (cases "rq_responded oq")
      case False
      obtain oq' where oq': "sv_reqs ?s old = Some oq'" "\<not> rq_responded oq'" using oq False q by (cases "old = r") auto
      have "waits ?s old r" using q Some by (simp add: waits_def)
      note w = wait_inv [OF inv' this nw oq']
      let ?t = "?s\<lparr>sv_reqs := (sv_reqs ?s)(old \<mapsto> oq'\<lparr>rq_flush := rq_flush oq' @ [r]\<rparr>)\<rparr>"
      have "rflush (Suc (Suc n)) r None ?s = Some (True, ?t)"
        using Some oq' by (auto simp: rflush.simps setr_def)
      moreover have "same_ghost G (served old (gh_wait G old @ [r]) G)"
        using busy by (simp add: same_ghost_def served_def)
      moreover have "same_tags s ?t" by (rule same_tags_upd [OF st oq'(1)]) simp_all
      moreover have "delayed s q" using Some oq False by (simp add: delayed_def)
      moreover have "\<exists>q'. sv_reqs ?t r = Some q' \<and> \<not> rq_responded q'" using q oq' by auto
      moreover have "\<exists>p. sv_reqs ?t old = Some p \<and> \<not> rq_responded p \<and> r \<in> set (rq_flush p)" using oq' by simp
      ultimately show ?thesis using w Some by (auto simp: eq flush_done_def)
    next
      case True
      then have ne: "r \<noteq> old" using oq q by auto
      obtain t where t: "closereq (Suc n) old ?s = Some t" "sv_reqs t r = Some ?q"
        "rinv (t\<lparr>sv_reqs := (sv_reqs t)(r \<mapsto> ?q\<lparr>rq_oldreq := None\<rparr>)\<rparr>) G"
        "finv (t\<lparr>sv_reqs := (sv_reqs t)(r \<mapsto> ?q\<lparr>rq_oldreq := None\<rparr>)\<rparr>) xf" "sframe ?s t" "same_tags ?s t"
        using release_old [OF inv' busy, of r ?q old oq n] q Some nw oq True ne by auto
      let ?u = "t\<lparr>sv_reqs := (sv_reqs t)(r \<mapsto> ?q\<lparr>rq_oldreq := None\<rparr>)\<rparr>"
      have "rflush (Suc (Suc n)) r None ?s = Some (False, ?u)"
        using Some oq True ne t(1,2) by (simp add: rflush.simps setr_def)
      moreover have "runs (7 \<le> unat (sv_msize t)) (finish (Suc (Suc n)) r (fc_tag (rq_ifcall q)) ?u)
        (\<lambda>s'. (\<exists>G'. rinv s' G' \<and> same_ghost G G') \<and> finv s' xf \<and> same_tags ?u s' \<and>
         (\<exists>ms. sv_out s' = sv_out t @ rflush_msg (fc_tag (rq_ifcall q)) # ms))"
        using finish_flush [OF t(3,4), of r "?q\<lparr>rq_oldreq := None\<rparr>" "Suc n"] q n t(5) by (simp add: sframe_def)
      then have "runs (7 \<le> unat (sv_msize s)) (finish (Suc (Suc n)) r (fc_tag (rq_ifcall q)) ?u) (flush_done r q s G xf)"
      proof (rule runs_mono)
        have "same_tags s ?u"
          by (rule same_tags_upd [OF same_tags_trans [OF st t(6)] t(2)]) simp_all
        moreover have "\<not> delayed s q" using Some oq True by (simp add: delayed_def)
        ultimately show "flush_done r q s G xf s'" if "(\<exists>G'. rinv s' G' \<and> same_ghost G G') \<and> finv s' xf \<and> same_tags ?u s' \<and>
         (\<exists>ms. sv_out s' = sv_out t @ rflush_msg (fc_tag (rq_ifcall q)) # ms)" for s'
          using that t(5) same_tags_trans by (auto simp: flush_done_def sframe_def)
      qed (use t(5) in \<open>simp add: sframe_def\<close>)
      ultimately show ?thesis by (simp add: eq)
    qed
  qed
qed

end
