(* ===== verification/ConvWf.thy ===== *)
theory ConvWf
  imports ConvS2M ConvM2S
begin

text \<open>
  Every message that \<open>convM2S\<close> accepts is well formed, so that \<open>convS2M\<close> can encode it again.
\<close>

subsection \<open>What the readers return\<close>

lemma unless_nil_eq_Some:
  "unless_nil r k = Some (b, Some v) \<longleftrightarrow> (\<exists>b' p x. r = Some (b', Some (p, x)) \<and> k b' p x = Some (b, Some v))"
  by (auto simp: unless_nil_def bind_eq_Some_conv split: option.splits)

definition str_wf :: "cstr \<Rightarrow> bool" where
  "str_wf s \<longleftrightarrow> str_ok s \<and> s \<noteq> None \<and> 0 \<notin> set (cbytes s)"

lemma ushort_bound: "unat (n :: ushort) < 65536"
  using unsigned_less [of n] by simp

lemma memget_len: "memget buf p n = Some d \<Longrightarrow> length d = n"
  by (auto simp: memget_Some_iff)

lemma gstring_wf:
  assumes "gstring buf p ep = Some (b, Some (p', s))"
  shows "str_wf s \<and> p + (2 + length (cbytes s)) \<le> p'"
proof -
  obtain n :: ushort and c where p': "p' = p + 2 + unat n"
    and c: "memget buf (p + 2) (unat n) = Some c" "s = Some (takeWhile (\<lambda>c. c \<noteq> 0) c)"
    using assms by (auto simp: gstring_def bind_eq_Some_conv Let_def split: if_splits)
  note n = ushort_bound [of n] and c = memget_len [OF c(1)] c(2)
  have "length (takeWhile (\<lambda>c. c \<noteq> 0) c) \<le> unat n" using length_takeWhile_le [of _ c] c(1) by simp
  moreover have "0 \<notin> set (takeWhile (\<lambda>c. c \<noteq> 0) c)" by (auto dest: set_takeWhileD)
  ultimately show ?thesis using n p' c(2) by (simp add: str_wf_def str_ok_def)
qed

lemma gstrings_wf:
  "gstrings buf p ep n = Some (b, Some (p', ss)) \<Longrightarrow>
   list_all str_wf ss \<and> length ss = n \<and> p + length (concat (map wstr ss)) \<le> p'"
proof (induction n arbitrary: buf p ss)
  case (Suc n)
  then obtain b1 p1 s ss' where s: "gstring buf p ep = Some (b1, Some (p1, s))"
      and ss': "gstrings b1 p1 ep n = Some (b, Some (p', ss'))" "ss = s # ss'"
    by (auto simp: unless_nil_eq_Some)
  show ?case using gstring_wf [OF s] Suc.IH [OF ss'(1)] ss'(2) by simp
qed simp

lemma gqid_wf: "gqid buf p ep = Some (b, Some (p', q)) \<Longrightarrow> p' = p + 13"
  by (auto simp: gqid_def bind_eq_Some_conv split: if_splits)

lemma gqids_wf: "gqids buf p ep n = Some (b, Some (p', qs)) \<Longrightarrow> length qs = n \<and> p' = p + 13 * n"
proof (induction n arbitrary: buf p qs)
  case (Suc n)
  then obtain b1 p1 q qs' where q: "gqid buf p ep = Some (b1, Some (p1, q))"
      and qs': "gqids b1 p1 ep n = Some (b, Some (p', qs'))" "qs = q # qs'"
    by (auto simp: unless_nil_eq_Some)
  show ?case using gqid_wf [OF q] Suc.IH [OF qs'(1)] qs'(2) by simp
qed simp

lemma length_wqids_all: "length (concat (map wqid qs)) = 13 * length qs"
  by (induction qs) simp_all

subsection \<open>Messages\<close>

text \<open>A body read from \<open>p\<close> to \<open>p'\<close> is that of a well-formed message.\<close>

definition body_wf :: "fcall \<Rightarrow> nat \<Rightarrow> nat \<Rightarrow> bool" where
  "body_wf f p p' \<longleftrightarrow> fc_type f \<in> set msg_types \<and> list_all str_wf (msg_strings f) \<and> counts_ok f \<and>
     p + length (wire_body f) \<le> p'"

text \<open>
  \<open>gives r Q\<close>: a result of the reader \<open>r\<close> that is not nil satisfies \<open>Q\<close>.  The rules follow the
  shape of the code.
\<close>

named_theorems gives_intros \<open>rules for what a reader returns\<close>

definition gives :: "(mem \<times> (nat \<times> 'a) option) option \<Rightarrow> (nat \<Rightarrow> 'a \<Rightarrow> bool) \<Rightarrow> bool" where
  "gives r Q \<longleftrightarrow> (\<forall>b p x. r = Some (b, Some (p, x)) \<longrightarrow> Q p x)"

lemma gives_nil [gives_intros]: "gives (Some (b, None)) Q"
  by (simp add: gives_def)

lemma gives_ret [gives_intros]: "Q p x \<Longrightarrow> gives (Some (b, Some (p, x))) Q"
  by (simp add: gives_def)

lemma gives_if [gives_intros]: "(c \<Longrightarrow> gives x Q) \<Longrightarrow> (\<not> c \<Longrightarrow> gives y Q) \<Longrightarrow> gives (if c then x else y) Q"
  by simp

lemma gives_get [gives_intros]: "(\<And>d. length d = n \<Longrightarrow> gives (k d) Q) \<Longrightarrow> gives (memget buf p n \<bind> k) Q"
  using memget_len by (fastforce simp: gives_def bind_eq_Some_conv)

lemma gives_word [gives_intros]:
  "(\<And>v. gives (k8 v) Q) \<Longrightarrow> gives (GBIT8 buf p \<bind> k8) Q"
  "(\<And>v. gives (k16 v) Q) \<Longrightarrow> gives (GBIT16 buf p \<bind> k16) Q"
  "(\<And>v. gives (k32 v) Q) \<Longrightarrow> gives (GBIT32 buf p \<bind> k32) Q"
  "(\<And>v. gives (k64 v) Q) \<Longrightarrow> gives (GBIT64 buf p \<bind> k64) Q"
  by (auto simp: gives_def bind_eq_Some_conv)

lemma gives_string [gives_intros]:
  "(\<And>b p' s. str_wf s \<Longrightarrow> p + (2 + length (cbytes s)) \<le> p' \<Longrightarrow> gives (k b p' s) Q) \<Longrightarrow>
   gives (unless_nil (gstring buf p ep) k) Q"
  using gstring_wf by (fastforce simp: gives_def unless_nil_eq_Some)

lemma gives_strings [gives_intros]:
  "(\<And>b p' ss. list_all str_wf ss \<Longrightarrow> length ss = n \<Longrightarrow> p + length (concat (map wstr ss)) \<le> p' \<Longrightarrow>
     gives (k b p' ss) Q) \<Longrightarrow> gives (unless_nil (gstrings buf p ep n) k) Q"
  using gstrings_wf by (fastforce simp: gives_def unless_nil_eq_Some)

lemma gives_qid [gives_intros]:
  "(\<And>b q. gives (k b (p + 13) q) Q) \<Longrightarrow> gives (unless_nil (gqid buf p ep) k) Q"
  using gqid_wf by (fastforce simp: gives_def unless_nil_eq_Some)

lemma gives_qids [gives_intros]:
  "(\<And>b qs. length qs = n \<Longrightarrow> gives (k b (p + 13 * n) qs) Q) \<Longrightarrow> gives (unless_nil (gqids buf p ep n) k) Q"
  using gqids_wf by (fastforce simp: gives_def unless_nil_eq_Some)

lemmas body_simps = body_wf_def msg_types_def msg_strings_def counts_ok_def wire_body_def length_wqids_all

text \<open>With pointers that do not wrap.\<close>

lemma M2S_R_wf [gives_intros]: "gives (M2S_R f buf p ep) (\<lambda>p' f. body_wf f p p')"
  unfolding M2S_R_def Let_def by (intro gives_intros; (elim disjE)?; simp add: body_simps)

lemma M2S_T_wf: "gives (M2S_T f buf p ep) (\<lambda>p' f. body_wf f p p')"
  unfolding M2S_T_def Let_def by (intro gives_intros; (elim disjE)?; simp add: body_simps)

text \<open>
  Pointers may wrap for the two messages with a 32-bit count.  Then the count is nonsense: it reaches
  past the end of the address space.
\<close>

definition placed :: "u32int option \<Rightarrow> mem \<Rightarrow> nat \<Rightarrow> bool" where
  "placed W buf nap = (case W of None \<Rightarrow> True | Some a \<Rightarrow> nap \<le> length buf \<and> unat a + nap < 2 ^ 32)"

definition count_off :: "uchar \<Rightarrow> nat" where
  "count_off t = (if t = Twrite then 23 else 11)"

definition wraps :: "u32int \<Rightarrow> fcall \<Rightarrow> bool" where
  "wraps a f \<longleftrightarrow> fc_type f \<in> {Twrite, Rread} \<and> 2 ^ 32 \<le> unat a + count_off (fc_type f) + unat (fc_count f)"

definition body_at :: "u32int option \<Rightarrow> nat \<Rightarrow> fcall \<Rightarrow> nat \<Rightarrow> bool" where
  "body_at W ep f p' \<longleftrightarrow> body_wf f 7 p' \<and> (W = None \<or> p' \<le> ep) \<or> (\<exists>a. W = Some a \<and> wraps a f \<and> count_off (fc_type f) \<le> ep \<and>
     p' = (count_off (fc_type f) + unat (fc_count f)) mod 2 ^ 32)"

lemma count_data:
  assumes "placed W buf ep" "p \<le> ep" "\<not> past W (ptr_add W p n) ep" "data_at W buf p n = Some d"
  shows "length d = n \<and> ptr_add W p n = p + n \<and> (W = None \<or> p + n \<le> ep) \<or>
    (\<exists>a. W = Some a \<and> 2 ^ 32 \<le> unat a + p + n \<and> ptr_add W p n = (p + n) mod 2 ^ 32)"
proof (cases W)
  case None
  then show ?thesis using assms(4) memget_len by (simp add: wide_pointers)
next
  case (Some a)
  show ?thesis
  proof (cases "unat a + p + n < 2 ^ 32")
    case True
    then have "ptr_add W p n = p + n" "p + n \<le> ep" using assms(3) Some by (simp_all add: ptr_add_def past_def)
    then show ?thesis using assms(1,4) Some by (auto simp: data_at_def placed_def)
  next
    case False
    then show ?thesis using Some by (simp add: ptr_add_def)
  qed
qed

lemma M2S_at_None: "fc_type f \<noteq> Twrite \<Longrightarrow> fc_type f \<noteq> Rread \<Longrightarrow> M2S_T_at W f buf p ep = M2S_T f buf p ep"
  by (simp add: M2S_T_at_def M2S_R_at_def Let_def)

lemma M2S_T_at_wf:
  assumes "placed W buf ep" "7 \<le> ep"
  shows "gives (M2S_T_at W f buf 7 ep) (\<lambda>p' f. body_at W ep f p')"
proof -
  consider "fc_type f = Twrite" | "fc_type f = Rread" | "fc_type f \<noteq> Twrite" "fc_type f \<noteq> Rread" by blast
  then show ?thesis
  proof cases
    case 1
    have "body_at W ep g p'" if r: "M2S_T_at W f buf 7 ep = Some (b, Some (p', g))" for b p' g
    proof -
      obtain v off n d where g: "g = f\<lparr>fc_fid := v, fc_offset := off, fc_count := n, fc_data := d\<rparr>"
        "23 \<le> ep" "\<not> past W (ptr_add W 23 (unat n)) ep" "data_at W buf 23 (unat n) = Some d" "p' = ptr_add W 23 (unat n)"
        using r 1 by (auto simp: M2S_T_at_def bind_eq_Some_conv Let_def split: if_splits)
      have "fc_type g = Twrite" "fc_count g = n" "fc_data g = d" using g(1) 1 by simp_all
      then show ?thesis
        using count_data [OF assms(1) g(2-4)] g(2,5) by (auto simp: body_at_def wraps_def count_off_def body_simps)
    qed
    then show ?thesis by (simp add: gives_def)
  next
    case 2
    have "body_at W ep g p'" if r: "M2S_T_at W f buf 7 ep = Some (b, Some (p', g))" for b p' g
    proof -
      obtain n d where g: "g = f\<lparr>fc_count := n, fc_data := d\<rparr>"
        "11 \<le> ep" "\<not> past W (ptr_add W 11 (unat n)) ep" "data_at W buf 11 (unat n) = Some d" "p' = ptr_add W 11 (unat n)"
        using r 2 by (auto simp: M2S_T_at_def M2S_R_at_def bind_eq_Some_conv Let_def split: if_splits)
      have "fc_type g = Rread" "fc_count g = n" "fc_data g = d" using g(1) 2 by simp_all
      then show ?thesis
        using count_data [OF assms(1) g(2-4)] g(2,5) by (auto simp: body_at_def wraps_def count_off_def body_simps)
    qed
    then show ?thesis by (simp add: gives_def)
  next
    case 3
    have "gives (M2S_T f buf 7 ep) (\<lambda>p' f. body_wf f 7 p')" by (rule M2S_T_wf)
    moreover have "p' \<le> ep" if "ep \<le> length buf" "M2S_T f buf 7 ep = Some (b, Some (p', g))" for b p' g
      using M2S_T_reads [OF that(1) assms(2), of f] that(2) by (simp add: reads_ok_def)
    moreover have eq: "M2S_T_at W f buf 7 ep = M2S_T f buf 7 ep" by (rule M2S_at_None [OF 3])
    ultimately show ?thesis
      unfolding eq using assms(1) by (cases W) (auto simp: gives_def body_at_def placed_def)
  qed
qed

text \<open>A wrapped cursor is not at the end of the bytes.\<close>

lemma wrapped_short:
  assumes "placed (Some a) buf ep" "wraps a f" "count_off (fc_type f) \<le> ep"
  shows "(count_off (fc_type f) + unat (fc_count f)) mod 2 ^ 32 \<noteq> ep"
proof (cases "count_off (fc_type f) + unat (fc_count f) < 2 ^ 32")
  case True
  then show ?thesis using assms(1,2) by (simp add: placed_def wraps_def)
next
  case False
  have n: "unat (fc_count f) < 2 ^ 32" using unsigned_less [of "fc_count f"] by simp
  have "count_off (fc_type f) + unat (fc_count f) - 2 ^ 32 < 2 ^ 32" using n assms(1,3) unfolding placed_def option.case by linarith
  then have "(count_off (fc_type f) + unat (fc_count f)) mod 2 ^ 32 = count_off (fc_type f) + unat (fc_count f) - 2 ^ 32"
    using False by (simp add: mod_if)
  then show ?thesis using False n assms(3) by linarith
qed

lemma convM2S_at_body:
  assumes "convM2S_at W buf nap g = Some (b, Some (k, f))" "placed W buf nap"
  shows "body_at W nap f k \<and> \<not> past W k nap \<and> k < 2 ^ 32"
proof -
  obtain sz :: u32int and f0 b' p' where "M2S_T_at W f0 buf 7 nap = Some (b', Some (p', f))" "\<not> past W p' nap" "k = p'" "unat sz = k"
      "7 \<le> nap"
    using assms by (auto simp: convM2S_at_def Let_def bind_eq_Some_conv unless_nil_eq_Some split: if_splits)
  moreover from this(1) have "body_at W nap f p'" using M2S_T_at_wf [OF assms(2) \<open>7 \<le> nap\<close>, of f0] by (simp add: gives_def)
  moreover have "unat sz < 2 ^ 32" using unsigned_less [of sz] by simp
  ultimately show ?thesis by simp
qed

lemma convM2S_body:
  assumes "convM2S buf nap g = Some (b, Some (k, f))"
  shows "body_wf f 7 k \<and> k \<le> nap \<and> k < 2 ^ 32"
  using convM2S_at_body [OF assms] by (simp add: placed_def body_at_def wide_pointers)

text \<open>
  C25. Whatever \<open>convM2S\<close> accepts is a well-formed message: a known type, strings without NUL
  bytes and short enough for their counts, counts that agree with the data and lie within the
  arrays, and an encoding no longer than the bytes it was read from.  So it is with 64-bit pointers, and
  with 32-bit pointers when the message fills the \<open>nap\<close> bytes, which is what the callers check.
  The one exception is a \<^verbatim>\<open>Twrite\<close> or \<^verbatim>\<open>Rread\<close> on a 32-bit machine that does not fill them: the test
  \<^verbatim>\<open>p+f->count > ep\<close> is passed by a count that wraps around the end of the address space.
\<close>

theorem convM2S_wf:
  assumes "convM2S_at W buf nap g = Some (b, Some (k, f))" "placed W buf nap"
  shows "fcall_ok f \<and> no_nul f \<and> wire_size f \<le> k \<and> k \<le> nap \<or> (\<exists>a. W = Some a \<and> wraps a f \<and> k \<noteq> nap)"
proof -
  note body = convM2S_at_body [OF assms]
  show ?thesis
  proof (cases "body_wf f 7 k \<and> (W = None \<or> k \<le> nap)")
    case True
    then have "k \<le> nap" using body by (auto simp: wide_pointers)
    then show ?thesis
      using True body by (auto simp: body_wf_def fcall_ok_def no_nul_def wire_size_def str_wf_def list_all_iff)
  next
    case False
    then obtain a where a: "W = Some a" "wraps a f" "count_off (fc_type f) \<le> nap"
      "k = (count_off (fc_type f) + unat (fc_count f)) mod 2 ^ 32"
      using body unfolding body_at_def by blast
    then show ?thesis using wrapped_short [of a buf nap f] assms(2) by blast
  qed
qed

theorem convM2S_wf_witness:
  "\<exists>b f. convM2S (wire (zero_fcall\<lparr>fc_type := 120, fc_tag := 258, fc_fid := 5\<rparr>)) 11 zero_fcall =
     Some (b, Some (11, f)) \<and> fcall_ok f \<and> no_nul f \<and> wire_size f \<le> 11"
proof -
  let ?f = "zero_fcall\<lparr>fc_type := 120, fc_tag := 258, fc_fid := 5\<rparr>"
  have ok: "fcall_ok ?f" "no_nul ?f" "wire_size ?f = 11"
    by (simp_all add: zero_fcall_def fcall_ok_def no_nul_def msg_types_def msg_strings_def counts_ok_def
      wire_size_def wire_body_def)
  then obtain b where b: "convM2S (wire ?f) 11 zero_fcall = Some (b, Some (11, carry ?f zero_fcall))"
    using convM2S_wire [OF ok(1,2), of 11 "[]" zero_fcall] by auto
  then show ?thesis using convM2S_wf [OF b] by (auto simp: placed_def)
qed

text \<open>
  The exception exists: on a 32-bit machine an \<^verbatim>\<open>Rread\<close> of 7 bytes at the start of a buffer of 100 is accepted, with a
  count of almost 4 GB that is read from the bytes behind it; with 64-bit pointers it is refused.
\<close>

theorem read_count_wraps:
  "let buf = le32 7 @ [117] @ le16 1 @ le32 0xFFFFFFFC @ replicate 89 0 in
    (case convM2S_at (Some 0x10000) buf 100 zero_fcall of
       Some (_, Some (k, f)) \<Rightarrow> k = 7 \<and> fc_count f = 0xFFFFFFFC \<and> \<not> fcall_ok f
     | _ \<Rightarrow> False) \<and>
    (case convM2S buf 100 zero_fcall of Some (_, None) \<Rightarrow> True | _ \<Rightarrow> False)"
  by (simp add: convM2S_at_def M2S_T_at_def M2S_R_at_def parse_simps unless_nil_def past_def ptr_add_def
    data_at_def fcall_ok_def counts_ok_def Let_def)

end
