(* ===== verification/SrvReach.thy ===== *)
theory SrvReach
  imports SrvReqs ConvDir ConvWf
begin

text \<open>
  The 9P server as a whole: every handler of a message keeps the counts of fids and requests,
  and with a well-behaved client and service no handler and no reply fails.  The states the
  server reaches are those of a step relation whose steps are the handling of one message and
  the service's answer to one request.
\<close>

subsection \<open>A handler at work\<close>

definition quiet :: "reqp set \<Rightarrow> ghost \<Rightarrow> bool" where
  "quiet C G \<longleftrightarrow> gh_refs G = (\<lambda>_. 0) \<and> gh_busy G = {} \<and> gh_cur G = C"

definition sinv :: "srv \<Rightarrow> bool" where
  "sinv s \<longleftrightarrow> (\<exists>G. rinv s G \<and> quiet {} G) \<and> finv s (\<lambda>_. 0)"

definition pending :: "srv \<Rightarrow> reqp \<Rightarrow> req \<Rightarrow> bool" where
  "pending s r q \<longleftrightarrow> sv_reqs s r = Some q \<and> \<not> rq_responded q \<and>
     (\<forall>x p. sv_reqs s x = Some p \<longrightarrow> r \<notin> set (rq_flush p))"

text \<open>The handler of the request \<open>r\<close> runs; \<open>xf\<close> are the fids it holds in variables.\<close>

definition handling :: "reqp \<Rightarrow> req \<Rightarrow> (fidp \<Rightarrow> nat) \<Rightarrow> srv \<Rightarrow> bool" where
  "handling r q xf s \<longleftrightarrow> (\<exists>G. rinv s G \<and> quiet {r} G) \<and> finv s xf \<and> pending s r q"

lemma wait_flush:
  assumes "rinv s G" "gh_busy G = {}"
  shows "gh_wait G x = (case sv_reqs s x of None \<Rightarrow> [] | Some p \<Rightarrow> rq_flush p)"
proof (cases "sv_reqs s x")
  case None
  then have "rrefs s x = 0" using rinv_dead [OF assms(1)] by fastforce
  then show ?thesis using no_refs_no_wait [OF assms(1)] None by simp
next
  case (Some p)
  then show ?thesis using rinv_req [OF assms(1) Some] assms(2) by (simp add: req_ok_def)
qed

lemma pending_not_waiting:
  assumes "rinv s G" "gh_busy G = {}" "pending s r q"
  shows "r \<notin> set (gh_wait G x)"
  using assms(3) wait_flush [OF assms(1,2), of x] by (cases "sv_reqs s x") (auto simp: pending_def)

text \<open>A request gets to its service, or its handler starts.\<close>

lemma rinv_cur:
  assumes "rinv s G" "\<And>q. sv_reqs s r = Some q \<Longrightarrow> \<not> rq_responded q \<Longrightarrow> fids_set q"
  shows "rinv s (G\<lparr>gh_cur := gh_cur G - {r}\<rparr>)"
proof (rule rinvI)
  show "req_ok s (G\<lparr>gh_cur := gh_cur G - {r}\<rparr>) x q" if "sv_reqs s x = Some q" for x q
    using rinv_req [OF assms(1) that] assms(2) [of q] that by (cases "x = r") (auto simp: req_ok_def)
qed (use assms(1) rinv_dead [OF assms(1)] in \<open>auto simp: rinv_def\<close>)

lemma rinv_cur_mono:
  assumes "rinv s G" shows "rinv s (G\<lparr>gh_cur := insert r (gh_cur G)\<rparr>)"
proof (rule rinvI)
  show "req_ok s (G\<lparr>gh_cur := insert r (gh_cur G)\<rparr>) x q" if "sv_reqs s x = Some q" for x q
    using rinv_req [OF assms(1) that] by (auto simp: req_ok_def)
qed (use assms(1) rinv_dead [OF assms(1)] in \<open>auto simp: rinv_def\<close>)

lemma handling_done:
  assumes "handling r q (\<lambda>_. 0) s" "fids_set q"
  shows "sinv s"
proof -
  obtain G where G: "rinv s G" "quiet {r} G" using assms(1) by (auto simp: handling_def)
  have "rinv s (G\<lparr>gh_cur := gh_cur G - {r}\<rparr>)"
    by (rule rinv_cur [OF G(1)]) (use assms in \<open>auto simp: handling_def pending_def\<close>)
  moreover have "quiet {} (G\<lparr>gh_cur := gh_cur G - {r}\<rparr>)" using G(2) by (simp add: quiet_def)
  ultimately show ?thesis using assms(1) by (auto simp: sinv_def handling_def)
qed

lemma sinv_handling: "sinv s \<Longrightarrow> pending s r q \<Longrightarrow> handling r q (\<lambda>_. 0) s"
  using rinv_cur_mono [of s _ r] by (fastforce simp: sinv_def handling_def quiet_def)

lemma rinv_bound: "rinv s G \<Longrightarrow> sv_reqs s r = Some q \<Longrightarrow> r < sv_next s"
  using rinv_req [of s G r q] by (simp add: req_ok_def)

lemma flush_fids_set: "fc_type (rq_ifcall q) = Tflush \<Longrightarrow> fids_set q"
  by (simp add: fids_set_def)

text \<open>\<open>respond\<close> by a handler or by the service.\<close>

lemma answer_inv:
  assumes "handling r q (\<lambda>_. 0) s"
  shows "runs (can_reply s r e) (answer r e s) sinv"
proof -
  obtain G where G: "rinv s G" "quiet {r} G" using assms by (auto simp: handling_def)
  have f: "finv s (\<lambda>_. 0)" and q: "sv_reqs s r = Some q" "\<not> rq_responded q"
    and pend: "pending s r q" using assms by (auto simp: handling_def pending_def)
  have busy: "gh_busy G = {}" using G(2) by (simp add: quiet_def)
  have n: "sv_next s < Suc (2 * sv_next s + 2) + r" "sv_next s < Suc (2 * sv_next s + 1) + r" by simp_all
  have dep: "depth s = Suc (Suc (2 * sv_next s + 2))" "depth s = Suc (Suc (Suc (2 * sv_next s + 1)))"
    by (simp_all add: depth_def)
  have fin: "sinv s'" if G': "rinv s' G'" "same_ghost G G'" and f': "finv s' (\<lambda>_. 0)"
    and d: "\<And>p. sv_reqs s' r = Some p \<Longrightarrow> rq_responded p \<or> fc_type (rq_ifcall p) = Tflush" for s' G'
  proof -
    have "rinv s' (G'\<lparr>gh_cur := gh_cur G' - {r}\<rparr>)"
      by (rule rinv_cur [OF G'(1)]) (use d flush_fids_set in auto)
    moreover have "quiet {} (G'\<lparr>gh_cur := gh_cur G' - {r}\<rparr>)" using G'(2) G(2) by (simp add: quiet_def same_ghost_def)
    ultimately show ?thesis using f' by (auto simp: sinv_def)
  qed
  show ?thesis
  proof (cases "fc_type (rq_ifcall q) = Tflush")
    case False
    have "runs (can_reply s r e) (respond (depth s) r e s) (\<lambda>s'. replied r s G (\<lambda>_. 0) s' \<and> own_reply q s s')"
      unfolding dep(1) by (rule respond_other [OF G(1) f q False n(1)])
    then show ?thesis unfolding answer_def
      by (rule runs_mono) (auto simp: replied_def intro: fin)
  next
    case True
    show ?thesis
    proof (cases e)
      case None
      have "runs (7 \<le> unat (sv_msize s)) (respond (depth s) r None s) (flush_done r q s G (\<lambda>_. 0))"
        unfolding dep(2)
        by (rule respond_flush [OF G(1) f busy q True pending_not_waiting [OF G(1) busy pend] n(2)])
      then show ?thesis unfolding answer_def None
      proof (rule runs_mono)
        show "sinv s'" if "flush_done r q s G (\<lambda>_. 0) s'" for s'
        proof -
          obtain G' where G': "rinv s' G'" "same_ghost G G'" and f': "finv s' (\<lambda>_. 0)"
            using \<open>flush_done r q s G (\<lambda>_. 0) s'\<close> by (auto simp: flush_done_def)
          have "same_tags s s'" using \<open>flush_done r q s G (\<lambda>_. 0) s'\<close> by (simp add: flush_done_def)
          then have "fc_type (rq_ifcall p) = Tflush" if "sv_reqs s' r = Some p" for p
            using that q True by (fastforce simp: same_tags_def)
          then show ?thesis by (intro fin [OF G' f']) simp
        qed
        show "7 \<le> unat (sv_msize s)" if "can_reply s r None"
          using that q True by (simp add: can_reply_def)
      qed
    next
      case (Some m)
      have "rq_pool q" using rinv_req [OF G(1) q(1)] by (simp add: req_ok_def)
      then have "answer r e s = None"
        using True Some q by (simp add: answer_def dep(1) respond_finish setr_def rflush.simps)
      moreover have "\<not> can_reply s r e" using True Some q by (simp add: can_reply_def)
      ultimately show ?thesis by (simp add: runs_def)
    qed
  qed
qed

subsection \<open>Replies that can be sent\<close>

text \<open>The fid number of a fid that a failing reply drops is still in the pool.\<close>

definition droppable :: "srv \<Rightarrow> fidp option \<Rightarrow> bool" where
  "droppable s v \<longleftrightarrow> (\<forall>p f. v = Some p \<longrightarrow> sv_fids s p = Some f \<longrightarrow> mget (sv_fpool s) (fi_fid f) \<noteq> None)"

lemma droppable_None [simp]: "droppable s None"
  by (simp add: droppable_def)

lemma drop_ok:
  assumes "finv s xf" "droppable s v" "\<And>p. v = Some p \<Longrightarrow> \<exists>f. sv_fids s p = Some f"
  shows "\<exists>s'. if_some v dropfid s = Some s' \<and> sv_reqs s' = sv_reqs s \<and> sv_msize s' = sv_msize s"
proof (cases v)
  case (Some p)
  then obtain f where f: "sv_fids s p = Some f" using assms(3) by blast
  then obtain w where "mget (sv_fpool s) (fi_fid f) = Some w" using assms(2) Some by (auto simp: droppable_def)
  from finv_dropfid [OF assms(1) f this] show ?thesis using Some by (auto simp: if_some_def)
qed (simp add: if_some_def)

definition fid_types :: "uchar list" where
  "fid_types = [Tauth, Tattach, Twalk, Topen, Tcreate, Tread, Twrite, Tclunk, Tremove, Tstat, Twstat]"

text \<open>The fid that an error reply drops.\<close>

definition dropped :: "req \<Rightarrow> fidp option" where
  "dropped q = (let t = fc_type (rq_ifcall q) in
     if t = Tauth then rq_afid q else if t = Tattach then rq_fid q
     else if t = Twalk \<and> fc_fid (rq_ifcall q) \<noteq> fc_newfid (rq_ifcall q) then rq_newfid q else None)"

lemma dropped_upd [simp]: "dropped (q\<lparr>rq_ofcall := x\<rparr>) = dropped q"
  by (simp add: dropped_def Let_def cong: if_cong)

lemma slot_live:
  assumes "finv s xf" "sv_reqs s r = Some q"
  shows "rq_fid q = Some p \<Longrightarrow> \<exists>f. sv_fids s p = Some f" "rq_afid q = Some p \<Longrightarrow> \<exists>f. sv_fids s p = Some f"
    "rq_newfid q = Some p \<Longrightarrow> \<exists>f. sv_fids s p = Some f"
  using finv_slot [OF assms, of p] by (auto simp: slots_def)

lemma dropped_live: "finv s xf \<Longrightarrow> sv_reqs s r = Some q \<Longrightarrow> dropped q = Some p \<Longrightarrow> \<exists>f. sv_fids s p = Some f"
  using slot_live [of s xf r q p] by (auto simp: dropped_def Let_def split: if_splits)

lemma finv_keep: "finv s xf \<Longrightarrow> sv_reqs s r = Some q \<Longrightarrow> (\<And>p. slots q' p = slots q p) \<Longrightarrow>
  finv (s\<lparr>sv_reqs := (sv_reqs s)(r \<mapsto> q')\<rparr>) xf"
  by (rule finv_req) auto

lemma length_bytes: "length (bytes s) = length s"
  by (simp add: bytes_def)

lemma error_fits:
  assumes "rq_error q = Some m" "length m \<le> 240" "256 \<le> unat (sv_msize s)"
  shows "fits (sv_msize s) (the_reply q)"
proof (rule fits_wire)
  have t: "fc_type (the_reply q) = Rerror" "fc_ename (the_reply q) = Some m"
    using assms(1) by (simp_all add: the_reply_def setfcallerror_def Let_def)
  have l: "length (cbytes (Some m)) \<le> length m" by (simp add: length_takeWhile_le)
  have w: "wire_size (the_reply q) = 9 + length (cbytes (Some m))"
    using t by (simp add: wire_size_def wire_body_def wstr_def)
  show "fcall_ok (the_reply q)"
    using t l assms(2) by (simp add: fcall_ok_def msg_types_def msg_strings_def counts_ok_def w str_ok_def)
  show "wire_size (the_reply q) \<le> unat (sv_msize s)" using w l assms by simp
qed

lemma can_reply_error:
  assumes f: "finv s xf" and q: "sv_reqs s r = Some q" and t: "fc_type (rq_ifcall q) \<in> set fid_types"
    and d: "droppable s (dropped q)" and w: "fc_type (rq_ifcall q) = Twalk \<Longrightarrow> fc_nwqid (rq_ofcall q) = 0"
    and m: "length m \<le> 240" "256 \<le> unat (sv_msize s)"
  shows "can_reply s r (Some m)"
proof -
  let ?q = "q\<lparr>rq_error := Some m\<rparr>" let ?s = "s\<lparr>sv_reqs := (sv_reqs s)(r \<mapsto> q\<lparr>rq_error := Some m\<rparr>)\<rparr>"
  have "finv ?s xf" by (rule finv_keep [OF f q]) (simp add: slots_def)
  moreover have "droppable ?s (dropped q)" using d by (simp add: droppable_def)
  ultimately obtain s2 where s2: "if_some (dropped q) dropfid ?s = Some s2" "sv_reqs s2 = sv_reqs ?s" "sv_msize s2 = sv_msize s"
    using drop_ok [of ?s xf "dropped q"] dropped_live [OF f q] by auto
  have "retype r (Some m) ?s = if_some (dropped q) dropfid ?s"
    using t w by (auto simp: fid_types_def retype_def rauth_def rattach_def rwalk_def ropen_def rcreate_def rread_def
      rwrite_def rremove_def rstat_def dropped_def if_some_def [of None])
  moreover have "fits (sv_msize s2) (the_reply ?q)" by (rule error_fits) (use m s2 in simp_all)
  moreover have "fc_type (rq_ifcall q) \<noteq> Tflush" using t by (auto simp: fid_types_def)
  ultimately show ?thesis using s2 q by (auto simp: can_reply_def setr_def)
qed

text \<open>Success: the members of the reply have a wire form that fits the message size.\<close>

definition fits_ok :: "srv \<Rightarrow> req \<Rightarrow> bool" where
  "fits_ok s q \<longleftrightarrow> fits (sv_msize s) (the_reply (q\<lparr>rq_error := None\<rparr>))"

lemma setf_live:
  "sv_fids s p \<noteq> None \<Longrightarrow> sv_reqs s = R \<Longrightarrow> sv_msize s = m \<Longrightarrow>
   \<exists>s'. setf p g s = Some s' \<and> sv_reqs s' = R \<and> sv_msize s' = m"
  by (auto simp: setf_def)

lemma can_reply_plain:
  assumes f: "finv s xf" and q: "sv_reqs s r = Some q"
    and t: "fc_type (rq_ifcall q) \<in> set fid_types" "fc_type (rq_ifcall q) \<noteq> Tstat" "fc_type (rq_ifcall q) \<noteq> Twalk"
    and fs: "fids_set q" and fit: "fits_ok s q"
  shows "can_reply s r None"
proof -
  let ?q = "q\<lparr>rq_error := None\<rparr>" let ?s = "s\<lparr>sv_reqs := (sv_reqs s)(r \<mapsto> q\<lparr>rq_error := None\<rparr>)\<rparr>"
  have live: "\<exists>f. sv_fids s p = Some f \<and> fi_file f = None" if "rq_fid q = Some p" for p
    using slot_live(1) [OF f q that] finv_nofile [OF f] by blast
  have "\<exists>s2. retype r None ?s = Some s2 \<and> sv_reqs s2 = sv_reqs ?s \<and> sv_msize s2 = sv_msize s"
    using t fs live
    by (auto simp: fid_types_def retype_def rauth_def rattach_def ropen_def rcreate_def rread_def rwrite_def
      rremove_def fids_set_def if_some_def intro!: setf_live)
  then obtain s2 where s2: "retype r None ?s = Some s2" "sv_reqs s2 = sv_reqs ?s" "sv_msize s2 = sv_msize s" by blast
  moreover have "fc_type (rq_ifcall q) \<noteq> Tflush" using t by (auto simp: fid_types_def)
  ultimately show ?thesis using q fit by (auto simp: can_reply_def setr_def fits_ok_def)
qed

lemma can_reply_walk:
  assumes f: "finv s xf" and q: "sv_reqs s r = Some q" and t: "fc_type (rq_ifcall q) = Twalk"
    and fs: "fids_set q" and fit: "fc_nwqid (rq_ofcall q) \<noteq> 0 \<or> fc_nwname (rq_ifcall q) = 0 \<Longrightarrow> fits_ok s q"
    and len: "unat (fc_nwqid (rq_ofcall q)) \<le> length (fc_wqid (rq_ofcall q))"
    and d: "fc_nwqid (rq_ofcall q) < fc_nwname (rq_ifcall q) \<Longrightarrow> droppable s (dropped q)"
    and m: "256 \<le> unat (sv_msize s)"
  shows "can_reply s r None"
proof -
  let ?q = "q\<lparr>rq_error := None\<rparr>" let ?s = "s\<lparr>sv_reqs := (sv_reqs s)(r \<mapsto> q\<lparr>rq_error := None\<rparr>)\<rparr>"
  obtain nf p where nf: "rq_newfid q = Some nf" "rq_fid q = Some p" using fs t by (auto simp: fids_set_def)
  obtain f' g where live: "sv_fids s nf = Some f'" "sv_fids s p = Some g" using slot_live [OF f q] nf by blast
  have "\<exists>s2 q2. retype r None ?s = Some s2 \<and> sv_reqs s2 r = Some q2 \<and> fits (sv_msize s2) (the_reply q2)"
  proof (cases "fc_nwqid (rq_ofcall q) < fc_nwname (rq_ifcall q)")
    case True
    have "finv ?s xf" by (rule finv_keep [OF f q]) (simp add: slots_def)
    moreover have "droppable ?s (dropped q)" using d [OF True] by (simp add: droppable_def)
    ultimately obtain s2 where s2: "if_some (dropped q) dropfid ?s = Some s2" "sv_reqs s2 = sv_reqs ?s" "sv_msize s2 = sv_msize s"
      using drop_ok [of ?s xf "dropped q"] dropped_live [OF f q] by auto
    have step: "(if fc_fid (rq_ifcall q) \<noteq> fc_newfid (rq_ifcall q) then if_some (rq_newfid q) dropfid ?s else Some ?s) = Some s2"
      using s2(1) t by (auto simp: dropped_def if_some_def split: if_splits)
    show ?thesis
    proof (cases "fc_nwqid (rq_ofcall q) = 0")
      case z: True
      let ?q2 = "?q\<lparr>rq_error := Some Enotfound\<rparr>" let ?s3 = "s2\<lparr>sv_reqs := (sv_reqs s2)(r \<mapsto> ?q2)\<rparr>"
      have "retype r None ?s = Some ?s3"
        using t True z step s2(2) by (simp add: retype_def rwalk_def setr_def Let_def cong: if_cong)
      moreover have "fits (sv_msize ?s3) (the_reply ?q2)"
        by (rule error_fits [where m = Enotfound]) (use m s2 in \<open>simp_all add: Enotfound_def length_bytes\<close>)
      ultimately show ?thesis by auto
    next
      case nz: False
      have "retype r None ?s = Some (s2\<lparr>sv_reqs := (sv_reqs s2)(r \<mapsto> ?q)\<rparr>)"
        using t True nz step s2(2) by (simp add: retype_def rwalk_def setr_def Let_def cong: if_cong)
      then show ?thesis using fit nz s2(3) by (auto simp: fits_ok_def)
    qed
  next
    case False
    then have "fc_nwqid (rq_ofcall q) \<noteq> 0 \<or> fc_nwname (rq_ifcall q) = 0"
      by (metis word_gt_0)
    with fit have "fits_ok s q" by blast
    moreover have "\<exists>s2. retype r None ?s = Some s2 \<and> sv_reqs s2 = sv_reqs ?s \<and> sv_msize s2 = sv_msize s"
      using t False nf live len by (auto simp: retype_def rwalk_def Let_def intro!: setf_live cong: if_cong)
    ultimately show ?thesis by (fastforce simp: fits_ok_def)
  qed
  then show ?thesis using q t by (auto simp: can_reply_def setr_def)
qed

lemma can_reply_version:
  assumes "sv_reqs s r = Some q" "fc_type (rq_ifcall q) = Tversion"
    "fits (fc_msize (rq_ofcall q)) (the_reply (q\<lparr>rq_error := None\<rparr>))"
  shows "can_reply s r None"
  using assms by (simp add: can_reply_def setr_def retype_def rversion_def changemsize_def)

lemma can_reply_stat:
  assumes f: "finv s xf" and q: "sv_reqs s r = Some q" and t: "fc_type (rq_ifcall q) = Tstat"
    and d: "wire_dirsize (rq_d q) < 65536" "wire_dirsize (rq_d q) + 9 \<le> unat (sv_msize s)"
  shows "can_reply s r None"
proof -
  let ?q = "q\<lparr>rq_error := None\<rparr>" let ?s = "s\<lparr>sv_reqs := (sv_reqs s)(r \<mapsto> q\<lparr>rq_error := None\<rparr>)\<rparr>"
  let ?n = "wire_dirsize (rq_d q)"
  have ok: "dir_ok (rq_d q)" and n: "49 \<le> ?n" using d(1) by (simp_all add: dir_ok_def wire_dirsize_def)
  have un: "unat (of_nat (?n - 2) :: ushort) = ?n - 2" "unat (of_nat ?n :: ushort) = ?n"
    using d(1) n by (simp_all add: unsigned_of_nat take_bit_nat_eq_self del: of_nat_diff)
  have 1: "convD2M (rq_d q) (replicate 2 0) 2 = Some (2, le16 (of_nat (?n - 2)))"
    using convD2M_wire [OF ok, of 2 "replicate 2 0"] n by (simp add: img_def)
  have 2: "GBIT16 (le16 (of_nat (?n - 2))) 0 = Some (of_nat (?n - 2))"
    using gbit_ahead(2) [of 0 "le16 (of_nat (?n - 2))" "of_nat (?n - 2)" "[]"] by simp
  have 3: "convD2M (rq_d q) (replicate ?n 0) ?n = Some (?n, wire_dir (rq_d q))"
    using convD2M_wire [OF ok, of ?n "replicate ?n 0"] n by (simp add: img_def)
  let ?q2 = "?q\<lparr>rq_ofcall := (rq_ofcall q)\<lparr>fc_nstat := of_nat ?n, fc_stat := wire_dir (rq_d q)\<rparr>\<rparr>"
  have "retype r None ?s = Some (s\<lparr>sv_reqs := (sv_reqs s)(r \<mapsto> ?q2)\<rparr>)"
    using t 1 2 3 un n by (simp add: retype_def rstat_def setr_def Let_def del: add_2_eq_Suc')
  moreover have "fits (sv_msize s) (the_reply ?q2)"
  proof (rule fits_wire)
    have ty: "fc_type (the_reply ?q2) = Rstat" using t by (simp add: the_reply_def)
    have w: "wire_size (the_reply ?q2) = 9 + ?n"
      unfolding wire_size_def wire_body_def ty by (simp add: the_reply_def)
    show "fcall_ok (the_reply ?q2)"
      unfolding fcall_ok_def msg_strings_def counts_ok_def ty w using d(1) un by (simp add: msg_types_def the_reply_def)
    show "wire_size (the_reply ?q2) \<le> unat (sv_msize s)" using w d by simp
  qed
  ultimately show ?thesis using q t by (auto simp: can_reply_def setr_def)
qed

subsection \<open>Steps of a handler\<close>

lemma handling_upd:
  assumes h: "handling r q xf s" and c: "ctl q' = ctl q" and sl: "\<And>p. slots q' p + xf' p = slots q p + xf p"
  shows "handling r q' xf' (s\<lparr>sv_reqs := (sv_reqs s)(r \<mapsto> q')\<rparr>)"
proof -
  obtain G where G: "rinv s G" "quiet {r} G" and f: "finv s xf" and p: "pending s r q"
    using h by (auto simp: handling_def)
  have q: "sv_reqs s r = Some q" "\<not> rq_responded q" using p by (simp_all add: pending_def)
  have cs: "rq_responded q' = rq_responded q" "rq_flush q' = rq_flush q" using c by (simp_all add: ctl_def)
  have "rinv (s\<lparr>sv_reqs := (sv_reqs s)(r \<mapsto> q')\<rparr>) G"
    by (rule rinv_data [OF G(1) q(1) c]) (use G(2) in \<open>simp add: quiet_def\<close>)
  moreover have "finv (s\<lparr>sv_reqs := (sv_reqs s)(r \<mapsto> q')\<rparr>) xf'" by (rule finv_req [OF f q(1) sl])
  moreover have "pending (s\<lparr>sv_reqs := (sv_reqs s)(r \<mapsto> q')\<rparr>) r q'"
    using p cs by (auto simp: pending_def split: if_splits)
  ultimately show ?thesis using G(2) by (auto simp: handling_def)
qed

lemma handling_fids:
  assumes "handling r q xf s" "finv s' xf'" "sv_reqs s' = sv_reqs s" "sv_rpool s' = sv_rpool s" "sv_next s \<le> sv_next s'"
  shows "handling r q xf' s'"
proof -
  obtain G where "rinv s G" "quiet {r} G" using assms(1) by (auto simp: handling_def)
  moreover from this(1) have "rinv s' G" by (rule rinv_cong) (use assms in simp_all)
  ultimately show ?thesis using assms by (auto simp: handling_def pending_def)
qed

lemma handling_req: "handling r q xf s \<Longrightarrow> sv_reqs s r = Some q"
  by (simp add: handling_def pending_def)

lemma handling_finv: "handling r q xf s \<Longrightarrow> finv s xf"
  by (simp add: handling_def)

lemma setr_handling: "handling r q xf s \<Longrightarrow> setr r g s = Some (s\<lparr>sv_reqs := (sv_reqs s)(r \<mapsto> g q)\<rparr>)"
  by (simp add: setr_def handling_req)

lemma fits_okI:
  assumes "f = (rq_ofcall q)\<lparr>fc_tag := fc_tag (rq_ifcall q), fc_type := fc_type (rq_ifcall q) + 1\<rparr>"
    "fcall_ok f" "wire_size f \<le> unat (sv_msize s)"
  shows "fits_ok s q"
  unfolding fits_ok_def using fits_wire [OF assms(2,3)] assms(1) by (simp add: the_reply_def)

lemma fits_small:
  assumes "fc_type (rq_ifcall q) \<in> {Tauth, Tattach, Topen, Tcreate, Twrite, Tclunk, Tremove, Twstat}"
    "256 \<le> unat (sv_msize s)"
  shows "fits_ok s q"
proof (rule fits_okI [OF refl])
  let ?f = "(rq_ofcall q)\<lparr>fc_tag := fc_tag (rq_ifcall q), fc_type := fc_type (rq_ifcall q) + 1\<rparr>"
  have w: "wire_size ?f \<le> 24"
    using assms(1) by (elim insertE) (simp_all add: wire_size_def wire_body_def wqid_def)
  then show "wire_size ?f \<le> unat (sv_msize s)" using assms(2) by simp
  show "fcall_ok ?f"
    using assms(1) w by (elim insertE) (simp_all add: fcall_ok_def msg_types_def msg_strings_def counts_ok_def)
qed

lemma fits_walk:
  assumes "fc_type (rq_ifcall q) = Twalk" "256 \<le> unat (sv_msize s)" "unat (fc_nwqid (rq_ofcall q)) \<le> MAXWELEM"
    "MAXWELEM \<le> length (fc_wqid (rq_ofcall q))"
  shows "fits_ok s q"
proof (rule fits_okI [OF refl])
  let ?f = "(rq_ofcall q)\<lparr>fc_tag := fc_tag (rq_ifcall q), fc_type := fc_type (rq_ifcall q) + 1\<rparr>"
  have "wire_size ?f = 9 + 13 * unat (fc_nwqid (rq_ofcall q))"
    using assms by (simp add: wire_size_def wire_body_def length_wqids_all)
  then have w: "wire_size ?f \<le> 217" using assms(3) by (simp add: MAXWELEM_def)
  then show "wire_size ?f \<le> unat (sv_msize s)" using assms(2) by simp
  show "fcall_ok ?f"
    using assms w by (simp add: fcall_ok_def msg_types_def msg_strings_def counts_ok_def)
qed

subsection \<open>Handlers that start with a fid\<close>

definition fresh_req :: "uchar \<Rightarrow> req \<Rightarrow> bool" where
  "fresh_req t q \<longleftrightarrow> fc_type (rq_ifcall q) = t \<and> rq_fid q = None \<and> rq_afid q = None \<and> rq_newfid q = None \<and>
     rq_ofcall q = zero_fcall"

lemma error_reply:
  assumes "handling r q xf s" "fc_type (rq_ifcall q) \<in> set fid_types" "dropped q = None"
    "fc_type (rq_ifcall q) = Twalk \<Longrightarrow> fc_nwqid (rq_ofcall q) = 0" "length m \<le> 240" "256 \<le> unat (sv_msize s)"
  shows "can_reply s r (Some m)"
  by (rule can_reply_error [OF handling_finv [OF assms(1)] handling_req [OF assms(1)]])
    (use assms in simp_all)

lemma refuse:
  assumes "handling r q (\<lambda>_. 0) s" "fc_type (rq_ifcall q) \<in> set fid_types" "dropped q = None"
    "fc_type (rq_ifcall q) = Twalk \<Longrightarrow> fc_nwqid (rq_ofcall q) = 0" "length m \<le> 240" "g \<Longrightarrow> 256 \<le> unat (sv_msize s)"
  shows "runs g (answer r (Some m) s) sinv"
  by (rule runs_mono [OF answer_inv [OF assms(1)]]) (use error_reply [OF assms(1-5)] assms(6) in auto)

lemma accept:
  assumes "handling r q (\<lambda>_. 0) s" "fc_type (rq_ifcall q) \<in> set fid_types" "fc_type (rq_ifcall q) \<noteq> Tstat"
    "fc_type (rq_ifcall q) \<noteq> Twalk" "fids_set q" "g \<Longrightarrow> fits_ok s q"
  shows "runs g (answer r None s) sinv"
  by (rule runs_mono [OF answer_inv [OF assms(1)]])
    (use can_reply_plain [OF handling_finv [OF assms(1)] handling_req [OF assms(1)] assms(2-5)] assms(6) in auto)

text \<open>The lookup hands over the fid that the pool has for the number.\<close>

definition finds :: "srv \<Rightarrow> u32int \<Rightarrow> (srv \<Rightarrow> (fidp option \<times> srv) option) \<Rightarrow> bool" where
  "finds s k lookup \<longleftrightarrow> (\<exists>v s1. lookup s = Some (v, s1) \<and> finv s1 (hold v (\<lambda>_. 0)) \<and> sv_reqs s1 = sv_reqs s \<and>
     sv_rpool s1 = sv_rpool s \<and> sv_next s1 = sv_next s \<and> sv_msize s1 = sv_msize s \<and>
     (\<forall>p. map_option (fi_ref_update (\<lambda>_. 0)) (sv_fids s1 p) = map_option (fi_ref_update (\<lambda>_. 0)) (sv_fids s p)) \<and>
     v = mget (sv_fpool s) k)"

lemma finds_lookup: "finv s (\<lambda>_. 0) \<Longrightarrow> finds s k (lookupfid k)"
  using finv_lookupfid [of s "\<lambda>_. 0" k] by (auto simp: finds_def)

lemma finds_remove: "finv s (\<lambda>_. 0) \<Longrightarrow> finds s k (\<lambda>s. Some (removefid k s))"
  using finv_removefid [of s "\<lambda>_. 0" k] by (auto simp: finds_def)

lemma with_fid_runs:
  assumes h: "handling r q (\<lambda>_. 0) s" and fr: "fresh_req t q" and t: "t \<in> set fid_types"
    and look: "finds s n lookup" and m: "g \<Longrightarrow> 256 \<le> unat (sv_msize s)"
    and ok: "\<And>p f s'. handling r (q\<lparr>rq_fid := Some p\<rparr>) (\<lambda>_. 0) s' \<Longrightarrow> sv_fids s' p = Some f \<Longrightarrow> fi_file f = None \<Longrightarrow>
       sv_msize s' = sv_msize s \<Longrightarrow> mget (sv_fpool s) n = Some p \<Longrightarrow> map_option fi_uid (sv_fids s p) = Some (fi_uid f) \<Longrightarrow>
       runs g (k (q\<lparr>rq_fid := Some p\<rparr>) p f s') sinv"
  shows "runs g (with_fid r lookup k s) sinv"
proof -
  obtain v s1 where s1: "lookup s = Some (v, s1)" "finv s1 (hold v (\<lambda>_. 0))" "sv_reqs s1 = sv_reqs s"
     "sv_rpool s1 = sv_rpool s" "sv_next s1 = sv_next s" "sv_msize s1 = sv_msize s"
     "v = mget (sv_fpool s) n"
     "\<And>p. map_option (fi_ref_update (\<lambda>_. 0)) (sv_fids s1 p) = map_option (fi_ref_update (\<lambda>_. 0)) (sv_fids s p)"
    using look by (auto simp: finds_def)
  have h1: "handling r q (hold v (\<lambda>_. 0)) s1" by (rule handling_fids [OF h s1(2)]) (use s1 in simp_all)
  let ?q = "q\<lparr>rq_fid := v\<rparr>" let ?s = "s1\<lparr>sv_reqs := (sv_reqs s1)(r \<mapsto> q\<lparr>rq_fid := v\<rparr>)\<rparr>"
  have h2: "handling r ?q (\<lambda>_. 0) ?s"
    by (rule handling_upd [OF h1]) (use fr in \<open>auto simp: ctl_def slots_def hold_def fresh_req_def\<close>)
  show ?thesis
  proof (cases v)
    case None
    have "runs g (answer r (Some Eunknownfid) ?s) sinv"
      by (rule refuse [OF h2]) (use fr t m s1 None in
        \<open>auto simp: fresh_req_def dropped_def Eunknownfid_def length_bytes zero_fcall_def\<close>)
    then show ?thesis using None s1(1) by (simp add: with_fid_def setr_handling [OF h1])
  next
    case (Some p)
    obtain f where f: "sv_fids ?s p = Some f" "fi_file f = None"
      using slot_live(1) [OF handling_finv [OF h2] handling_req [OF h2], of p] Some finv_nofile [OF handling_finv [OF h2]]
      by auto
    moreover have "map_option fi_uid (sv_fids s p) = Some (fi_uid f)"
      using arg_cong [OF s1(8), of "map_option fi_uid" p] f(1) by (simp add: option.map_comp o_def)
    moreover have "mget (sv_fpool s) n = Some p" using s1(7) Some by simp
    moreover have "handling r (q\<lparr>rq_fid := Some p\<rparr>) (\<lambda>_. 0) ?s" using h2 unfolding Some .
    moreover have "sv_msize ?s = sv_msize s" using s1(6) by simp
    ultimately have "runs g (k (q\<lparr>rq_fid := Some p\<rparr>) p f ?s) sinv" by (intro ok)
    then show ?thesis using s1(1) f(1) Some by (simp add: with_fid_def setr_handling [OF h1])
  qed
qed

lemma hand_over_runs:
  assumes "cb \<Longrightarrow> sinv s" "\<not> cb \<Longrightarrow> runs g (answer r e s) sinv"
  shows "runs g (hand_over cb r e s) sinv"
  using assms by (simp add: hand_over_def)

lemma sclunk_inv:
  assumes h: "handling r q (\<lambda>_. 0) s" and fr: "fresh_req Tclunk q" and m: "g \<Longrightarrow> 256 \<le> unat (sv_msize s)"
  shows "runs g (sclunk cf r s) sinv"
proof -
  have "runs g (with_fid r (\<lambda>s. Some (removefid (fc_fid (rq_ifcall q)) s)) (\<lambda>q p f s. answer r None s) s) sinv"
  proof (rule with_fid_runs [OF h fr _ finds_remove [OF handling_finv [OF h]] m])
    fix p f s' assume H: "handling r (q\<lparr>rq_fid := Some p\<rparr>) (\<lambda>_. 0) s'" and M: "sv_msize s' = sv_msize s"
    show "runs g (answer r None s') sinv"
      by (rule accept [OF H]) (use fr m M in \<open>auto simp: fresh_req_def fid_types_def fids_set_def intro!: fits_small\<close>)
  qed (simp_all add: fid_types_def)
  then show ?thesis by (simp add: sclunk_def handling_req [OF h])
qed

text \<open>The rest of these handlers run with the fid in the request.\<close>

definition with_fid_of :: "uchar \<Rightarrow> req \<Rightarrow> bool" where
  "with_fid_of t q \<longleftrightarrow> fc_type (rq_ifcall q) = t \<and> rq_fid q \<noteq> None \<and> rq_afid q = None \<and> rq_newfid q = None"

definition plain_types :: "uchar list" where
  "plain_types = [Topen, Tcreate, Tread, Twrite, Tclunk, Tremove, Tstat, Twstat]"

lemma with_fid_of_fresh: "fresh_req t q \<Longrightarrow> with_fid_of t (q\<lparr>rq_fid := Some p\<rparr>)"
  by (simp add: fresh_req_def with_fid_of_def)

lemma plain_refuse:
  assumes "handling r q (\<lambda>_. 0) s" "with_fid_of t q" "t \<in> set plain_types" "length m \<le> 240" "g \<Longrightarrow> 256 \<le> unat (sv_msize s)"
  shows "runs g (answer r (Some m) s) sinv"
  by (rule refuse [OF assms(1) _ _ _ assms(4,5)])
    (use assms(2,3) in \<open>auto simp: with_fid_of_def plain_types_def fid_types_def dropped_def\<close>)

lemma plain_done:
  assumes "handling r q (\<lambda>_. 0) s" "with_fid_of t q" "t \<in> set plain_types"
  shows "sinv s"
  by (rule handling_done [OF assms(1)])
    (use assms(2,3) in \<open>auto simp: with_fid_of_def plain_types_def fids_set_def\<close>)

lemma plain_hand_over:
  assumes "handling r q (\<lambda>_. 0) s" "with_fid_of t q" "t \<in> set plain_types" "length m \<le> 240" "g \<Longrightarrow> 256 \<le> unat (sv_msize s)"
  shows "runs g (hand_over cb r (Some m) s) sinv"
  by (rule hand_over_runs) (use plain_done [OF assms(1-3)] plain_refuse [OF assms] in auto)

lemma handling_data:
  assumes "handling r q (\<lambda>_. 0) s" "keep q q'"
  shows "handling r q' (\<lambda>_. 0) (s\<lparr>sv_reqs := (sv_reqs s)(r \<mapsto> q')\<rparr>)"
  by (rule handling_upd [OF assms(1)]) (use assms(2) in \<open>simp_all add: keep_def slots_def\<close>)

lemma keep_ifcall:
  "fc_tag c = fc_tag (rq_ifcall q) \<Longrightarrow> fc_type c = fc_type (rq_ifcall q) \<Longrightarrow> keep q (q\<lparr>rq_ifcall := c\<rparr>)"
  by (simp add: keep_def ctl_def)

lemma with_fid_of_upd [simp]:
  "with_fid_of t (q\<lparr>rq_ofcall := x1\<rparr>) = with_fid_of t q" "with_fid_of t (q\<lparr>rq_d := x2\<rparr>) = with_fid_of t q"
  "with_fid_of t (q\<lparr>rq_ifcall := (rq_ifcall q)\<lparr>fc_count := x3\<rparr>\<rparr>) = with_fid_of t q"
  by (simp_all add: with_fid_of_def)

lemma length_errbuf: "length (errbuf m) \<le> 240"
  by (simp add: errbuf_def ERRMAX_def)

lemmas error_strings = Ebadoffset_def Ebotch_def Ecreatenondir_def Edupfid_def Eduptag_def Eisdir_def
  Enocreate_def Enoremove_def Enostat_def Enotfound_def Enowstat_def Eperm_def Eunknownfid_def Ebaddir_def
  Ewalknodir_def length_bytes length_errbuf

text \<open>The shape all of them share.\<close>

lemma plain_handler:
  assumes h: "handling r q (\<lambda>_. 0) s" and fr: "fresh_req t q" and t: "t \<in> set plain_types"
    and m: "g \<Longrightarrow> 256 \<le> unat (sv_msize s)"
    and ok: "\<And>p f q' s'. handling r q' (\<lambda>_. 0) s' \<Longrightarrow> with_fid_of t q' \<Longrightarrow> rq_ifcall q' = rq_ifcall q \<Longrightarrow>
      fi_file f = None \<Longrightarrow> (g \<Longrightarrow> 256 \<le> unat (sv_msize s')) \<Longrightarrow> runs g (k q' p f s') sinv"
  shows "runs g (with_fid r (lookupfid n) k s) sinv"
proof (rule with_fid_runs [OF h fr _ finds_lookup [OF handling_finv [OF h]] m])
  show "t \<in> set fid_types" using t by (auto simp: plain_types_def fid_types_def)
  fix p s' and f :: fid
  assume "handling r (q\<lparr>rq_fid := Some p\<rparr>) (\<lambda>_. 0) s'" "fi_file f = None" "sv_msize s' = sv_msize s"
  then show "runs g (k (q\<lparr>rq_fid := Some p\<rparr>) p f s') sinv"
    using m by (intro ok with_fid_of_fresh [OF fr]) auto
qed

lemma sopen_inv:
  assumes h: "handling r q (\<lambda>_. 0) s" and fr: "fresh_req Topen q" and m: "g \<Longrightarrow> 256 \<le> unat (sv_msize s)"
  shows "runs g (sopen cf r s) sinv"
  unfolding sopen_def handling_req [OF h] bind.bind_lunit Let_def
proof (rule plain_handler [OF h fr _ m], goal_cases)
  case (3 p f q' s')
  have t: "Topen \<in> set plain_types" by (simp add: plain_types_def)
  let ?q = "q'\<lparr>rq_ofcall := (rq_ofcall q')\<lparr>fc_qid := fi_qid f\<rparr>\<rparr>" let ?s = "s'\<lparr>sv_reqs := (sv_reqs s')(r \<mapsto> ?q)\<rparr>"
  have H2: "handling r ?q (\<lambda>_. 0) ?s" "with_fid_of Topen ?q" using handling_data [OF 3(1), of ?q] 3(2) by simp_all
  have m2: "g \<Longrightarrow> 256 \<le> unat (sv_msize ?s)" using 3(5) by simp
  note no = plain_refuse [OF 3(1,2) t _ 3(5)] plain_refuse [OF H2 t _ m2]
  have "runs g (answer r None ?s) sinv"
    by (rule accept [OF H2(1)]) (use H2(2) m2 in \<open>auto simp: with_fid_of_def fid_types_def fids_set_def intro!: fits_small\<close>)
  then have "runs g (hand_over (cf_open cf) r None ?s) sinv"
    by (intro hand_over_runs plain_done [OF H2 t])
  then show ?case
    using no 3(4) by (simp add: setr_handling [OF 3(1)] error_strings)
qed (simp_all add: plain_types_def)

lemma screate_inv:
  assumes h: "handling r q (\<lambda>_. 0) s" and fr: "fresh_req Tcreate q" and m: "g \<Longrightarrow> 256 \<le> unat (sv_msize s)"
  shows "runs g (screate cf r s) sinv"
  unfolding screate_def handling_req [OF h] bind.bind_lunit Let_def
proof (rule plain_handler [OF h fr _ m], goal_cases)
  case (3 p f q' s')
  have t: "Tcreate \<in> set plain_types" by (simp add: plain_types_def)
  show ?case
    using plain_refuse [OF 3(1,2) t _ 3(5)] plain_hand_over [OF 3(1,2) t _ 3(5)] 3(4)
    by (simp add: error_strings)
qed (simp_all add: plain_types_def)

lemma sremove_inv:
  assumes h: "handling r q (\<lambda>_. 0) s" and fr: "fresh_req Tremove q" and m: "g \<Longrightarrow> 256 \<le> unat (sv_msize s)"
  shows "runs g (sremove cf r s) sinv"
  unfolding sremove_def handling_req [OF h] bind.bind_lunit
proof (rule with_fid_runs [OF h fr _ finds_remove [OF handling_finv [OF h]] m], goal_cases)
  case (3 p f s')
  have t: "Tremove \<in> set plain_types" by (simp add: plain_types_def)
  have m': "g \<Longrightarrow> 256 \<le> unat (sv_msize s')" using m 3(4) by simp
  show ?case
    using plain_hand_over [OF 3(1) with_fid_of_fresh [OF fr] t _ m'] 3(3) by (simp add: error_strings)
qed (simp_all add: fid_types_def)

lemma sstat_inv:
  assumes h: "handling r q (\<lambda>_. 0) s" and fr: "fresh_req Tstat q" and m: "g \<Longrightarrow> 256 \<le> unat (sv_msize s)"
  shows "runs g (sstat cf r s) sinv"
  unfolding sstat_def handling_req [OF h] bind.bind_lunit
proof (rule plain_handler [OF h fr _ m], goal_cases)
  case (3 p f q' s')
  have t: "Tstat \<in> set plain_types" by (simp add: plain_types_def)
  show ?case
    using plain_hand_over [OF 3(1,2) t _ 3(5)] 3(4) by (simp add: error_strings)
qed (simp_all add: plain_types_def)

lemma sread_inv:
  assumes h: "handling r q (\<lambda>_. 0) s" and fr: "fresh_req Tread q" and m: "g \<Longrightarrow> 256 \<le> unat (sv_msize s)"
  shows "runs g (sread cf r s) sinv"
  unfolding sread_def handling_req [OF h] bind.bind_lunit Let_def
proof (rule plain_handler [OF h fr _ m], goal_cases)
  case (3 p f q' s')
  have t: "Tread \<in> set plain_types" by (simp add: plain_types_def)
  let ?n = "clip_count s' (fc_count (rq_ifcall q'))"
  let ?q1 = "q'\<lparr>rq_ifcall := (rq_ifcall q')\<lparr>fc_count := ?n\<rparr>\<rparr>"
  let ?q = "?q1\<lparr>rq_ofcall := (rq_ofcall q')\<lparr>fc_data := replicate (unat ?n) 0\<rparr>\<rparr>"
  let ?s = "s'\<lparr>sv_reqs := (sv_reqs s')(r \<mapsto> ?q)\<rparr>"
  have "keep q' ?q" by (rule keep_trans [OF keep_ifcall keep_upd(2)]) simp_all
  then have H2: "handling r ?q (\<lambda>_. 0) ?s" "with_fid_of Tread ?q" using handling_data [OF 3(1)] 3(2) by simp_all
  have m2: "g \<Longrightarrow> 256 \<le> unat (sv_msize ?s)" using 3(5) by simp
  show ?case
    using plain_refuse [OF 3(1,2) t _ 3(5)] plain_refuse [OF H2 t _ m2] plain_hand_over [OF H2 t _ m2] 3(4)
    by (simp add: setr_handling [OF 3(1)] error_strings)
qed (simp_all add: plain_types_def)

lemma swrite_inv:
  assumes h: "handling r q (\<lambda>_. 0) s" and fr: "fresh_req Twrite q" and m: "g \<Longrightarrow> 256 \<le> unat (sv_msize s)"
  shows "runs g (swrite cf r s) sinv"
  unfolding swrite_def handling_req [OF h] bind.bind_lunit Let_def
proof (rule plain_handler [OF h fr _ m], goal_cases)
  case (3 p f q' s')
  have t: "Twrite \<in> set plain_types" by (simp add: plain_types_def)
  let ?n = "clip_count s' (fc_count (rq_ifcall q'))"
  let ?q = "q'\<lparr>rq_ifcall := (rq_ifcall q')\<lparr>fc_count := ?n\<rparr>\<rparr>" let ?s = "s'\<lparr>sv_reqs := (sv_reqs s')(r \<mapsto> ?q)\<rparr>"
  have "keep q' ?q" by (rule keep_ifcall) simp_all
  then have H2: "handling r ?q (\<lambda>_. 0) ?s" "with_fid_of Twrite ?q" using handling_data [OF 3(1)] 3(2) by simp_all
  have m2: "g \<Longrightarrow> 256 \<le> unat (sv_msize ?s)" using 3(5) by simp
  show ?case
    using plain_refuse [OF 3(1,2) t _ 3(5)] plain_refuse [OF H2 t _ m2] plain_hand_over [OF H2 t _ m2] 3(4)
    by (simp add: setr_handling [OF 3(1)] error_strings)
qed (simp_all add: plain_types_def)

lemma swstat_inv:
  assumes h: "handling r q (\<lambda>_. 0) s" and fr: "fresh_req Twstat q" and m: "g \<Longrightarrow> 256 \<le> unat (sv_msize s)"
    and len: "g \<Longrightarrow> length (fc_stat (rq_ifcall q)) = unat (fc_nstat (rq_ifcall q))"
  shows "runs g (swstat cf r s) sinv"
  unfolding swstat_def handling_req [OF h] bind.bind_lunit Let_def
proof (rule plain_handler [OF h fr _ m], goal_cases)
  case (3 p f q' s')
  have t: "Twstat \<in> set plain_types" by (simp add: plain_types_def)
  let ?n = "unat (fc_nstat (rq_ifcall q'))"
  have H2: "handling r (q'\<lparr>rq_d := d\<rparr>) (\<lambda>_. 0) (s'\<lparr>sv_reqs := (sv_reqs s')(r \<mapsto> q'\<lparr>rq_d := d\<rparr>)\<rparr>)"
    "with_fid_of Twstat (q'\<lparr>rq_d := d\<rparr>)" for d using handling_data [OF 3(1), of "q'\<lparr>rq_d := d\<rparr>"] 3(2) by simp_all
  have m2: "g \<Longrightarrow> 256 \<le> unat (sv_msize (s'\<lparr>sv_reqs := x\<rparr>))" for x using 3(5) by simp
  note no = plain_refuse [OF 3(1,2) t _ 3(5)] plain_refuse [OF H2 t _ m2] plain_done [OF H2 t]
  have ok: "\<exists>strs' v. convM2D (fc_stat (rq_ifcall q')) ?n (rq_d q') (Some (replicate ?n 0)) = Some (strs', v)" if g
    using convM2D_safe [of ?n "fc_stat (rq_ifcall q')" "Some (replicate ?n 0)" "rq_d q'"] len [OF that] 3(3) by auto
  show ?case
  proof (cases "convM2D (fc_stat (rq_ifcall q')) ?n (rq_d q') (Some (replicate ?n 0))")
    case None
    then show ?thesis using ok no(1) by (auto simp: error_strings runs_def)
  next
    case (Some x)
    obtain strs' v where x: "x = (strs', v)" by (cases x)
    obtain k d where kd: "(case v of None \<Rightarrow> (0, rq_d q') | Some nd \<Rightarrow> nd) = (k, d)"
      by (cases "case v of None \<Rightarrow> (0, rq_d q') | Some nd \<Rightarrow> nd")
    show ?thesis
      using no Some by (simp add: x kd setr_handling [OF 3(1)] error_strings)
  qed
qed (simp_all add: plain_types_def)

subsection \<open>Version, flush and authentication\<close>

lemma handling_same:
  assumes "handling r q xf s" "fview s' = fview s" "sv_rpool s' = sv_rpool s"
  shows "handling r q xf s'"
  by (rule handling_fids [OF assms(1) finv_cong [OF handling_finv [OF assms(1)] assms(2)]])
    (use assms in \<open>simp_all add: fview_def\<close>)

lemma sversion_inv:
  assumes h: "handling r q (\<lambda>_. 0) s" and fr: "fresh_req Tversion q"
    and g: "g \<Longrightarrow> 256 \<le> unat (sv_msize s) \<and> 256 \<le> unat (fc_msize (rq_ifcall q)) \<and>
      (\<exists>v. fc_version (rq_ifcall q) = Some v \<and> take 2 v = bytes ''9P'')"
  shows "runs g (sversion cf r s) sinv"
proof (cases "fc_version (rq_ifcall q)")
  case None
  then show ?thesis using g by (auto simp: sversion_def handling_req [OF h] runs_def)
next
  case (Some v)
  have t: "fc_type (rq_ifcall q) = Tversion" using fr by (simp add: fresh_req_def)
  show ?thesis
  proof (cases "take 2 v = bytes ''9P''")
    case False
    let ?q = "q\<lparr>rq_ofcall := (rq_ofcall q)\<lparr>fc_version := Some (bytes ''unknown'')\<rparr>\<rparr>"
    have "runs g (answer r None (s\<lparr>sv_reqs := (sv_reqs s)(r \<mapsto> ?q)\<rparr>)) sinv"
      by (rule runs_mono [OF answer_inv [OF handling_data [OF h]]]) (use g False Some in auto)
    then show ?thesis using Some False by (simp add: sversion_def handling_req [OF h] setr_handling [OF h])
  next
    case True
    define m where "m = (if fc_msize (rq_ifcall q) < sv_msize s then fc_msize (rq_ifcall q) else sv_msize s)"
    let ?s1 = "s\<lparr>sv_msize := m\<rparr>"
    let ?q = "q\<lparr>rq_ofcall := (rq_ofcall q)\<lparr>fc_version := Some (bytes ''9P2000''), fc_msize := m\<rparr>\<rparr>"
    have s1: "(if fc_msize (rq_ifcall q) < sv_msize s then s\<lparr>sv_msize := fc_msize (rq_ifcall q)\<rparr> else s) = ?s1"
      by (simp add: m_def)
    have h1: "handling r q (\<lambda>_. 0) ?s1" by (rule handling_same [OF h]) (simp_all add: fview_def)
    let ?s2 = "?s1\<lparr>sv_reqs := (sv_reqs ?s1)(r \<mapsto> ?q)\<rparr>"
    have h2: "handling r ?q (\<lambda>_. 0) ?s2" by (rule handling_data [OF h1]) simp
    have "can_reply ?s2 r None" if g
    proof (rule can_reply_version [OF handling_req [OF h2]])
      let ?f = "the_reply (?q\<lparr>rq_error := None\<rparr>)"
      have f: "fc_type ?f = Rversion" "fc_version ?f = Some (bytes ''9P2000'')"
        using t by (simp_all add: the_reply_def)
      have nn: "cbytes (Some (bytes ''9P2000'')) = bytes ''9P2000''" by (simp add: bytes_def)
      have w: "wire_size ?f = 19"
        unfolding wire_size_def wire_body_def Let_def f wstr_def nn by (simp add: length_bytes)
      have "fcall_ok ?f"
        unfolding fcall_ok_def msg_strings_def counts_ok_def Let_def f w str_ok_def
        by (simp add: msg_types_def str_ok_def bytes_def)
      moreover have "256 \<le> unat m" using g [OF that] by (simp add: m_def)
      ultimately show "fits (fc_msize (rq_ofcall ?q)) ?f" using w by (intro fits_wire) simp_all
    qed (use t in simp)
    then have "runs g (answer r None ?s2) sinv" by (intro runs_mono [OF answer_inv [OF h2]]) auto
    then show ?thesis
      using Some True s1 by (simp add: sversion_def handling_req [OF h] Let_def setr_handling [OF h1])
  qed
qed

text \<open>The flush takes a reference to the request it names.\<close>

lemma flush_target:
  assumes h: "handling r q (\<lambda>_. 0) s" and t: "fc_type (rq_ifcall q) = Tflush" "rq_oldreq q = None"
    and new: "\<And>x. sv_reqs s x \<noteq> None \<Longrightarrow> x \<le> r"
    and old: "mget (sv_rpool s) k = Some old" and oq: "sv_reqs s old = Some oq"
  shows "\<exists>q'. handling r q' (\<lambda>_. 0) (s\<lparr>sv_reqs := (sv_reqs s)(old \<mapsto> oq\<lparr>rq_ref := rq_ref oq + 1\<rparr>,
      r \<mapsto> q')\<rparr>) \<and> rq_ifcall q' = rq_ifcall q \<and>
    q' = (if old = r then q\<lparr>rq_ref := rq_ref q + 1\<rparr> else q)\<lparr>rq_oldreq := Some old\<rparr>"
proof -
  obtain G where G: "rinv s G" "quiet {r} G" and f: "finv s (\<lambda>_. 0)" and p: "pending s r q"
    using h by (auto simp: handling_def)
  have q: "sv_reqs s r = Some q" "\<not> rq_responded q" using p by (simp_all add: pending_def)
  have fin: "finite (dom (sv_reqs s))" using G(1) by (simp add: rinv_def)
  have un: "\<not> rq_responded oq" using rinv_pool [OF G(1) old] oq by auto
  let ?oq = "oq\<lparr>rq_ref := rq_ref oq + 1\<rparr>" let ?s1 = "s\<lparr>sv_reqs := (sv_reqs s)(old \<mapsto> oq\<lparr>rq_ref := rq_ref oq + 1\<rparr>)\<rparr>"
  have rr1: "rrefs ?s1 x = rrefs s x" for x using rrefs_upd [OF fin oq, of ?oq x] by simp
  have r1: "rinv ?s1 (held old G)"
  proof (rule rinv_step [OF G(1) oq])
    show "req_ok ?s1 (held old G) old ?oq"
      using rinv_req [OF G(1) oq] by (auto simp: req_ok_def held_def rr1)
    show "waits ?s1 x y" if "y \<in> set (gh_wait (held old G) x)" for x y
      using rinv_waits [OF G(1), of y x] that oq by (auto simp: waits_def held_def)
  qed (use G un in \<open>auto simp: rinv_def held_def rr1 quiet_def\<close>)
  define q1 where "q1 = (if old = r then q\<lparr>rq_ref := rq_ref q + 1\<rparr> else q)"
  have q1: "sv_reqs ?s1 r = Some q1" using q oq by (auto simp: q1_def)
  have cs: "rq_responded q1 = rq_responded q" "rq_flush q1 = rq_flush q" "rq_oldreq q1 = None" "rq_ifcall q1 = rq_ifcall q"
    using t by (simp_all add: q1_def)
  let ?q = "q1\<lparr>rq_oldreq := Some old\<rparr>" let ?s2 = "?s1\<lparr>sv_reqs := (sv_reqs ?s1)(r \<mapsto> q1\<lparr>rq_oldreq := Some old\<rparr>)\<rparr>"
  have fin1: "finite (dom (sv_reqs ?s1))" using fin by simp
  have rr2: "rrefs ?s2 x = rrefs s x + of_bool (x = old)" for x
    using rrefs_upd [OF fin1 q1, of ?q x] cs by (auto simp: rr1)
  have ok1: "req_ok ?s1 (held old G) r q1" by (rule rinv_req [OF r1 q1])
  have "rinv ?s2 G"
  proof (rule rinv_step [OF r1 q1])
    have "old \<le> r" using new [of old] oq by simp
    then show "req_ok ?s2 G r ?q"
      using ok1 q cs t oq rr2 [of r] rr1 [of r] G(2) by (auto simp: req_ok_def held_def quiet_def)
    show "waits ?s2 x y" if "y \<in> set (gh_wait G x)" for x y
    proof -
      have w: "waits ?s1 x y" using rinv_waits [OF r1, of y x] that by (simp add: held_def)
      moreover have "y \<noteq> r" using w q1 cs by (auto simp: waits_def)
      ultimately show ?thesis by (auto simp: waits_def)
    qed
    show "rrefs ?s2 x + gh_refs G x \<le> rrefs ?s1 x + gh_refs (held old G) x" if "x \<noteq> r" for x
      using rr2 [of x] rr1 [of x] by (auto simp: held_def)
  qed (use G un cs q in \<open>auto simp: rinv_def held_def quiet_def\<close>)
  moreover have "finv ?s2 (\<lambda>_. 0)"
    by (rule finv_req [OF finv_req [OF f oq] q1]) (simp_all add: slots_def)
  moreover have "pending ?s2 r ?q" using p q cs oq by (auto simp: pending_def split: if_splits)
  ultimately have "handling r ?q (\<lambda>_. 0) ?s2" using G(2) by (auto simp: handling_def)
  then show ?thesis using cs(4) by (intro exI [of _ ?q]) (simp add: q1_def)
qed

lemma answer_flush:
  assumes "handling r q (\<lambda>_. 0) s" "fc_type (rq_ifcall q) = Tflush" "g \<Longrightarrow> 256 \<le> unat (sv_msize s)"
  shows "runs g (answer r None s) sinv"
  by (rule runs_mono [OF answer_inv [OF assms(1)]])
    (use assms(2,3) handling_req [OF assms(1)] in \<open>auto simp: can_reply_def\<close>)

lemma sflush_inv:
  assumes h: "handling r q (\<lambda>_. 0) s" and fr: "fresh_req Tflush q" and t: "rq_oldreq q = None"
    and new: "\<And>x. sv_reqs s x \<noteq> None \<Longrightarrow> x \<le> r" and m: "g \<Longrightarrow> 256 \<le> unat (sv_msize s)"
  shows "runs g (sflush cf r s) sinv"
proof -
  have ty: "fc_type (rq_ifcall q) = Tflush" using fr by (simp add: fresh_req_def)
  let ?k = "ucast (fc_oldtag (rq_ifcall q)) :: u32int"
  show ?thesis
  proof (cases "mget (sv_rpool s) ?k")
    case None
    then have l: "lookupreq (fc_oldtag (rq_ifcall q)) s = Some (None, s)"
      by (simp add: lookupreq_def lookupkey_spec)
    have q: "q\<lparr>rq_oldreq := None\<rparr> = q" using t by simp
    have "setr r (\<lambda>q. q\<lparr>rq_oldreq := None\<rparr>) s = Some (s\<lparr>sv_reqs := (sv_reqs s)(r \<mapsto> q)\<rparr>)"
      unfolding setr_handling [OF h] q ..
    moreover have "handling r q (\<lambda>_. 0) (s\<lparr>sv_reqs := (sv_reqs s)(r \<mapsto> q)\<rparr>)" by (rule handling_data [OF h]) simp
    from answer_flush [OF this ty] m have "runs g (answer r None (s\<lparr>sv_reqs := (sv_reqs s)(r \<mapsto> q)\<rparr>)) sinv" by simp
    ultimately show ?thesis by (simp add: sflush_def handling_req [OF h] l)
  next
    case (Some old)
    have "rinv s G \<Longrightarrow> \<exists>oq. sv_reqs s old = Some oq" for G using rinv_pool [OF _ Some] by blast
    then obtain oq where oq: "sv_reqs s old = Some oq" using h by (auto simp: handling_def)
    let ?s1 = "s\<lparr>sv_reqs := (sv_reqs s)(old \<mapsto> oq\<lparr>rq_ref := rq_ref oq + 1\<rparr>)\<rparr>"
    have l: "lookupreq (fc_oldtag (rq_ifcall q)) s = Some (Some old, ?s1)"
      using Some oq by (simp add: lookupreq_def lookupkey_spec increqref_def setr_def)
    obtain q' where q': "handling r q' (\<lambda>_. 0) (s\<lparr>sv_reqs := (sv_reqs s)(old \<mapsto> oq\<lparr>rq_ref := rq_ref oq + 1\<rparr>, r \<mapsto> q')\<rparr>)"
        "rq_ifcall q' = rq_ifcall q" "q' = (if old = r then q\<lparr>rq_ref := rq_ref q + 1\<rparr> else q)\<lparr>rq_oldreq := Some old\<rparr>"
      using flush_target [OF h ty t new Some oq] by blast
    let ?s2 = "s\<lparr>sv_reqs := (sv_reqs s)(old \<mapsto> oq\<lparr>rq_ref := rq_ref oq + 1\<rparr>, r \<mapsto> q')\<rparr>"
    have "setr r (\<lambda>q. q\<lparr>rq_oldreq := Some old\<rparr>) ?s1 = Some ?s2"
      using oq handling_req [OF h] by (auto simp: setr_def q'(3))
    moreover have ty': "fc_type (rq_ifcall q') = Tflush" using q'(2) ty by simp
    have "runs g (answer r None ?s2) sinv" by (rule answer_flush [OF q'(1) ty']) (use m in simp)
    moreover have "sinv ?s2" by (rule handling_done [OF q'(1) flush_fids_set [OF ty']])
    ultimately show ?thesis
      by (auto simp: sflush_def handling_req [OF h] l hand_over_def)
  qed
qed

text \<open>A new fid for a request, or a number that is taken.\<close>

lemma allocfid_handling:
  assumes h: "handling r q (\<lambda>_. 0) s" and c: "ctl (u None q) = ctl q" "\<And>p. ctl (u (Some p) q) = ctl q"
    and sl: "\<And>v p. slots (u v q) p = slots q p + of_bool (v = Some p)"
  shows "\<exists>v s'. allocfid k s = Some (v, s') \<and>
    handling r (u v q) (\<lambda>_. 0) (s'\<lparr>sv_reqs := (sv_reqs s')(r \<mapsto> u v q)\<rparr>) \<and> handling r q (hold v (\<lambda>_. 0)) s' \<and>
    sv_msize s' = sv_msize s \<and> sv_reqs s' = sv_reqs s \<and>
    (case v of None \<Rightarrow> sv_fids s' = sv_fids s
     | Some p \<Rightarrow> p = sv_next s \<and> sv_fids s' = (sv_fids s)(p \<mapsto> new_fid k) \<and> mget (sv_fpool s') k = Some p \<and> sv_fids s p = None)"
proof -
  note f = handling_finv [OF h]
  have fin: ?thesis if a: "allocfid k s = Some (v, s')" "finv s' (hold v (\<lambda>_. 0))"
      "sv_reqs s' = sv_reqs s" "sv_rpool s' = sv_rpool s" "sv_next s \<le> sv_next s'" "sv_msize s' = sv_msize s"
      "case v of None \<Rightarrow> sv_fids s' = sv_fids s
       | Some p \<Rightarrow> p = sv_next s \<and> sv_fids s' = (sv_fids s)(p \<mapsto> new_fid k) \<and> mget (sv_fpool s') k = Some p \<and> sv_fids s p = None" for v s'
  proof -
    have h1: "handling r q (hold v (\<lambda>_. 0)) s'" by (rule handling_fids [OF h a(2-5)])
    have "ctl (u v q) = ctl q" using c by (cases v) auto
    then have "handling r (u v q) (\<lambda>_. 0) (s'\<lparr>sv_reqs := (sv_reqs s')(r \<mapsto> u v q)\<rparr>)"
      by (rule handling_upd [OF h1]) (simp add: sl hold_def)
    with a h1 show ?thesis by blast
  qed
  show ?thesis
  proof (cases "mget (sv_fpool s) k")
    case None
    from finv_allocfid [OF f None] obtain m where m: "allocfid k s = Some (Some (sv_next s), s\<lparr>sv_fids := (sv_fids s)(sv_next s \<mapsto> new_fid k),
      sv_next := sv_next s + 1, sv_fpool := m\<rparr>)" "mget m = (mget (sv_fpool s))(k \<mapsto> sv_next s)"
      "finv (s\<lparr>sv_fids := (sv_fids s)(sv_next s \<mapsto> new_fid k), sv_next := sv_next s + 1, sv_fpool := m\<rparr>)
        (hold (Some (sv_next s)) (\<lambda>_. 0))" by blast
    show ?thesis by (rule fin [OF m(1,3)]) (use m(2) fresh_fid(1) [OF f] in simp_all)
  next
    case (Some p)
    then have "mget (sv_fpool s) k \<noteq> None" by simp
    from finv_allocfid_taken [OF f this] obtain m D where m:
      "allocfid k s = Some (None, s\<lparr>sv_next := sv_next s + 1, sv_fpool := m, sv_destroyfid := D\<rparr>)"
      "finv (s\<lparr>sv_next := sv_next s + 1, sv_fpool := m, sv_destroyfid := D\<rparr>) (\<lambda>_. 0)" by blast
    show ?thesis by (rule fin [OF m(1)]) (use m(2) in simp_all)
  qed
qed

lemma error_drop:
  assumes "handling r q (\<lambda>_. 0) s" "fc_type (rq_ifcall q) \<in> set fid_types" "droppable s (dropped q)"
    "fc_type (rq_ifcall q) = Twalk \<Longrightarrow> fc_nwqid (rq_ofcall q) = 0" "g \<Longrightarrow> length m \<le> 240" "g \<Longrightarrow> 256 \<le> unat (sv_msize s)"
  shows "runs g (answer r (Some m) s) sinv"
  by (rule runs_mono [OF answer_inv [OF assms(1)]])
    (use can_reply_error [OF handling_finv [OF assms(1)] handling_req [OF assms(1)] assms(2-4)] assms(5,6) in auto)

lemma sauth_inv:
  assumes h: "handling r q (\<lambda>_. 0) s" and fr: "fresh_req Tauth q" and m: "g \<Longrightarrow> 256 \<le> unat (sv_msize s)"
  shows "runs g (sauth cf r s) sinv"
proof -
  have t: "fc_type (rq_ifcall q) = Tauth" "rq_afid q = None" using fr by (simp_all add: fresh_req_def)
  let ?k = "fc_afid (rq_ifcall q)"
  obtain v s1 where 1: "allocfid ?k s = Some (v, s1)" "handling r (q\<lparr>rq_afid := v\<rparr>) (\<lambda>_. 0) (s1\<lparr>sv_reqs := (sv_reqs s1)(r \<mapsto> q\<lparr>rq_afid := v\<rparr>)\<rparr>)"
    "handling r q (hold v (\<lambda>_. 0)) s1" "sv_msize s1 = sv_msize s"
    "case v of None \<Rightarrow> sv_fids s1 = sv_fids s
     | Some p \<Rightarrow> p = sv_next s \<and> sv_fids s1 = (sv_fids s)(p \<mapsto> new_fid ?k) \<and> mget (sv_fpool s1) ?k = Some p \<and> sv_fids s p = None"
    using allocfid_handling [OF h, of "\<lambda>v q. q\<lparr>rq_afid := v\<rparr>" ?k] t(2) by (auto simp: ctl_def slots_def)
  let ?q = "q\<lparr>rq_afid := v\<rparr>" let ?s = "s1\<lparr>sv_reqs := (sv_reqs s1)(r \<mapsto> q\<lparr>rq_afid := v\<rparr>)\<rparr>"
  have d: "droppable ?s (dropped ?q)" using 1(5) t(1) by (cases v) (auto simp: droppable_def dropped_def new_fid_def)
  have no: "runs g (answer r (Some e) ?s) sinv" if "length e \<le> 240" for e
    by (rule error_drop [OF 1(2) _ d]) (use t(1) that m 1(4) in \<open>auto simp: fid_types_def\<close>)
  have "sinv ?s" by (rule handling_done [OF 1(2)]) (use t(1) in \<open>simp add: fids_set_def\<close>)
  then show ?thesis using no
    by (auto simp: sauth_def handling_req [OF h] 1(1) setr_handling [OF 1(3)] error_strings intro!: hand_over_runs)
qed

lemma setf_handling:
  assumes h: "handling r q xf s" and f: "sv_fids s p = Some f"
    and g: "\<And>f. fi_ref (g f) = fi_ref f \<and> fi_fid (g f) = fi_fid f \<and> fi_file (g f) = fi_file f \<and> fi_rdir (g f) = fi_rdir f"
  shows "setf p g s = Some (s\<lparr>sv_fids := (sv_fids s)(p \<mapsto> g f)\<rparr>)"
    and "handling r q xf (s\<lparr>sv_fids := (sv_fids s)(p \<mapsto> g f)\<rparr>)"
proof -
  show *: "setf p g s = Some (s\<lparr>sv_fids := (sv_fids s)(p \<mapsto> g f)\<rparr>)" using f by (simp add: setf_def)
  show "handling r q xf (s\<lparr>sv_fids := (sv_fids s)(p \<mapsto> g f)\<rparr>)"
    by (rule handling_fids [OF h finv_setf [OF handling_finv [OF h] * g]]) simp_all
qed

lemma droppable_ref:
  assumes "droppable s v" "sv_fpool s' = sv_fpool s"
    "\<And>p. map_option fi_fid (sv_fids s' p) = map_option fi_fid (sv_fids s p)"
  shows "droppable s' v"
  unfolding droppable_def
proof (intro allI impI)
  fix p f assume "v = Some p" "sv_fids s' p = Some f"
  then show "mget (sv_fpool s') (fi_fid f) \<noteq> None"
    using assms(1,2) assms(3) [of p] by (cases "sv_fids s p") (auto simp: droppable_def)
qed

lemma sattach_inv:
  assumes h: "handling r q (\<lambda>_. 0) s" and fr: "fresh_req Tattach q" and cf: "\<not> cf_tree cf"
    and g: "g \<Longrightarrow> 256 \<le> unat (sv_msize s) \<and> fc_uname (rq_ifcall q) \<noteq> None"
  shows "runs g (sattach cf r s) sinv"
proof -
  have t: "fc_type (rq_ifcall q) = Tattach" "rq_afid q = None" "rq_fid q = None" "rq_newfid q = None"
    using fr by (simp_all add: fresh_req_def)
  let ?k = "fc_fid (rq_ifcall q)" let ?a = "fc_afid (rq_ifcall q)"
  obtain v s1 where 1: "allocfid ?k s = Some (v, s1)" "handling r (q\<lparr>rq_fid := v\<rparr>) (\<lambda>_. 0) (s1\<lparr>sv_reqs := (sv_reqs s1)(r \<mapsto> q\<lparr>rq_fid := v\<rparr>)\<rparr>)"
    "handling r q (hold v (\<lambda>_. 0)) s1" "sv_msize s1 = sv_msize s"
    "case v of None \<Rightarrow> sv_fids s1 = sv_fids s
     | Some p \<Rightarrow> p = sv_next s \<and> sv_fids s1 = (sv_fids s)(p \<mapsto> new_fid ?k) \<and> mget (sv_fpool s1) ?k = Some p \<and> sv_fids s p = None"
    using allocfid_handling [OF h, of "\<lambda>v q. q\<lparr>rq_fid := v\<rparr>" ?k] t(3) by (auto simp: ctl_def slots_def)
  let ?q = "q\<lparr>rq_fid := v\<rparr>" let ?s = "s1\<lparr>sv_reqs := (sv_reqs s1)(r \<mapsto> q\<lparr>rq_fid := v\<rparr>)\<rparr>"
  note start = handling_req [OF h] 1(1) setr_handling [OF 1(3)]
  have d: "droppable ?s (dropped ?q)" using 1(5) t(1) by (cases v) (auto simp: droppable_def dropped_def new_fid_def)
  show ?thesis
  proof (cases v)
    case None
    have "runs g (answer r (Some Edupfid) ?s) sinv"
      by (rule error_drop [OF 1(2) _ d]) (use t(1) g 1(4) in \<open>auto simp: fid_types_def error_strings\<close>)
    then show ?thesis using None by (simp add: sattach_def start)
  next
    case (Some p)
    have an: "?q\<lparr>rq_afid := None\<rparr> = ?q" using t(2) by simp
    have same: "?s\<lparr>sv_reqs := (sv_reqs ?s)(r \<mapsto> ?q)\<rparr> = ?s" by simp
    have set0: "setr r (\<lambda>q. q\<lparr>rq_afid := None\<rparr>) ?s = Some ?s"
      unfolding setr_handling [OF 1(2)] an same ..
    define look where "look = (if ?a \<noteq> NOFID then lookupfid ?a ?s else Some (None, ?s))"
    obtain w F where w: "look = Some (w, ?s\<lparr>sv_fids := F\<rparr>)" "finv (?s\<lparr>sv_fids := F\<rparr>) (hold w (\<lambda>_. 0))"
      "\<And>p. map_option (fi_ref_update (\<lambda>_. 0)) (F p) = map_option (fi_ref_update (\<lambda>_. 0)) (sv_fids ?s p)"
    proof (cases "?a \<noteq> NOFID")
      case True
      then show thesis using finv_lookupfid [OF handling_finv [OF 1(2)], of ?a] that by (auto simp: look_def)
    next
      case False
      show thesis
        by (rule that [of None "sv_fids ?s"]) (use False handling_finv [OF 1(2)] in \<open>simp_all add: look_def\<close>)
    qed
    let ?s3 = "?s\<lparr>sv_fids := F\<rparr>" let ?q4 = "?q\<lparr>rq_afid := w\<rparr>" let ?s4 = "?s3\<lparr>sv_reqs := (sv_reqs ?s3)(r \<mapsto> q\<lparr>rq_fid := v, rq_afid := w\<rparr>)\<rparr>"
    have h3: "handling r ?q (hold w (\<lambda>_. 0)) ?s3" by (rule handling_fids [OF 1(2) w(2)]) simp_all
    have h4: "handling r ?q4 (\<lambda>_. 0) ?s4"
      using handling_upd [OF h3, of ?q4 "\<lambda>_. 0"] t by (simp add: ctl_def slots_def hold_def)
    have "map_option fi_fid (F p) = map_option fi_fid (sv_fids ?s p)" for p
      using arg_cong [OF w(3), of "map_option fi_fid" p] by (simp add: option.map_comp o_def)
    then have d4: "droppable ?s4 (dropped ?q4)"
      using droppable_ref [OF d, of ?s4] t(1) by (simp add: dropped_def)
    have set4: "setr r (\<lambda>q. q\<lparr>rq_afid := w\<rparr>) ?s3 = Some ?s4" using setr_handling [OF h3] by simp
    have err: "runs g (answer r (Some Eunknownfid) ?s4) sinv"
      by (rule error_drop [OF h4 _ d4]) (use t(1) g 1(4) in \<open>auto simp: fid_types_def error_strings\<close>)
    have eq: "sattach cf r s = (if ?a \<noteq> NOFID \<and> w = None then answer r (Some Eunknownfid) ?s4
      else do { uname \<leftarrow> fc_uname (rq_ifcall q); s \<leftarrow> setf p (\<lambda>f. f\<lparr>fi_uid := Some uname\<rparr>) ?s4;
        hand_over (cf_attach cf) r None s })"
      unfolding sattach_def handling_req [OF h] bind.bind_lunit 1(1) prod.case setr_handling [OF 1(3)]
      unfolding Some option.case set0 [unfolded Some] bind.bind_lunit look_def [symmetric, unfolded Some] 
        w(1) [unfolded Some] prod.case set4 [unfolded Some]
      using cf by simp
    have "runs g (do { uname \<leftarrow> fc_uname (rq_ifcall q); s \<leftarrow> setf p (\<lambda>f. f\<lparr>fi_uid := Some uname\<rparr>) ?s4;
        hand_over (cf_attach cf) r None s }) sinv"
    proof (cases "fc_uname (rq_ifcall q)")
      case None
      then show ?thesis using g by (auto simp: runs_def)
    next
      case u: (Some u)
      obtain f where f: "sv_fids ?s4 p = Some f"
        using slot_live(1) [OF handling_finv [OF h4] handling_req [OF h4], of p] Some by auto
      note sf = setf_handling [OF h4 f, of "\<lambda>f. f\<lparr>fi_uid := Some u\<rparr>"]
      let ?s5 = "?s4\<lparr>sv_fids := (sv_fids ?s4)(p \<mapsto> f\<lparr>fi_uid := Some u\<rparr>)\<rparr>"
      have h5: "handling r ?q4 (\<lambda>_. 0) ?s5" and s5: "setf p (\<lambda>f. f\<lparr>fi_uid := Some u\<rparr>) ?s4 = Some ?s5"
        using sf by simp_all
      have fs: "fids_set ?q4" using t(1) Some by (simp add: fids_set_def)
      have "runs g (answer r None ?s5) sinv"
        by (rule accept [OF h5 _ _ _ fs]) (use t(1) g 1(4) in \<open>auto simp: fid_types_def intro!: fits_small\<close>)
      then have "runs g (hand_over (cf_attach cf) r None ?s5) sinv"
        by (intro hand_over_runs handling_done [OF h5 fs])
      then show ?thesis using u s5 by simp
    qed
    then show ?thesis unfolding eq by (intro runs_if err)
  qed
qed

subsection \<open>Walking\<close>

lemma walk1_loop_inv:
  assumes "handling r q (\<lambda>_. 0) s" "\<exists>f. sv_fids s nf = Some f" "length (fc_wqid o') = MAXWELEM"
    "g \<Longrightarrow> i + length ws \<le> MAXWELEM"
  shows "runs g (walk1_loop walk1 i ws nf o' s) (\<lambda>(j, e, o'', s'). i \<le> j \<and> j \<le> i + length ws \<and>
    length (fc_wqid o'') = MAXWELEM \<and> (e = None \<longleftrightarrow> j = i + length ws) \<and> (\<forall>m. e = Some m \<longrightarrow> (\<exists>f w n. walk1 f w = (Some m, n))) \<and>
    handling r q (\<lambda>_. 0) s' \<and> sv_fpool s' = sv_fpool s \<and> sv_msize s' = sv_msize s \<and>
    (\<forall>p. map_option fi_fid (sv_fids s' p) = map_option fi_fid (sv_fids s p)))"
  using assms
proof (induction ws arbitrary: i s o')
  case (Cons w ws)
  obtain f where f: "sv_fids s nf = Some f" using Cons.prems(2) by blast
  obtain e qid where w: "walk1 f w = (e, qid)" by (cases "walk1 f w")
  show ?case
  proof (cases e)
    case (Some m)
    then show ?thesis using f w Cons.prems(1,3) by auto
  next
    case None
    note sf = setf_handling [OF Cons.prems(1) f, of "\<lambda>f. f\<lparr>fi_qid := qid\<rparr>"]
    let ?s = "s\<lparr>sv_fids := (sv_fids s)(nf \<mapsto> f\<lparr>fi_qid := qid\<rparr>)\<rparr>"
    show ?thesis
    proof (cases "i < MAXWELEM")
      case False
      then show ?thesis using f w None sf(1) Cons.prems(3,4) by (auto simp: runs_def)
    next
      case True
      have "runs g (walk1_loop walk1 (i + 1) ws nf (o'\<lparr>fc_wqid := (fc_wqid o')[i := qid]\<rparr>) ?s)
        (\<lambda>(j, e, o'', s'). i + 1 \<le> j \<and> j \<le> i + 1 + length ws \<and>
        length (fc_wqid o'') = MAXWELEM \<and> (e = None \<longleftrightarrow> j = i + 1 + length ws) \<and> (\<forall>m. e = Some m \<longrightarrow> (\<exists>f w n. walk1 f w = (Some m, n))) \<and>
        handling r q (\<lambda>_. 0) s' \<and> sv_fpool s' = sv_fpool ?s \<and> sv_msize s' = sv_msize ?s \<and>
        (\<forall>p. map_option fi_fid (sv_fids s' p) = map_option fi_fid (sv_fids ?s p)))"
        by (rule Cons.IH) (use sf(2) Cons.prems in auto)
      then have "runs g (walk1_loop walk1 i (w # ws) nf o' s)
        (\<lambda>(j, e, o'', s'). i + 1 \<le> j \<and> j \<le> i + 1 + length ws \<and>
        length (fc_wqid o'') = MAXWELEM \<and> (e = None \<longleftrightarrow> j = i + 1 + length ws) \<and> (\<forall>m. e = Some m \<longrightarrow> (\<exists>f w n. walk1 f w = (Some m, n))) \<and>
        handling r q (\<lambda>_. 0) s' \<and> sv_fpool s' = sv_fpool ?s \<and> sv_msize s' = sv_msize ?s \<and>
        (\<forall>p. map_option fi_fid (sv_fids s' p) = map_option fi_fid (sv_fids ?s p)))"
        using f w None sf(1) True Cons.prems(3) by simp
      then show ?thesis
      proof (rule runs_mono)
        fix x :: "nat \<times> cstr \<times> fcall \<times> srv"
        have eq: "map_option fi_fid (sv_fids ?s p) = map_option fi_fid (sv_fids s p)" for p using f by simp
        assume "case x of (j, e, o'', s') \<Rightarrow> i + 1 \<le> j \<and> j \<le> i + 1 + length ws \<and>
        length (fc_wqid o'') = MAXWELEM \<and> (e = None \<longleftrightarrow> j = i + 1 + length ws) \<and> (\<forall>m. e = Some m \<longrightarrow> (\<exists>f w n. walk1 f w = (Some m, n))) \<and>
        handling r q (\<lambda>_. 0) s' \<and> sv_fpool s' = sv_fpool ?s \<and> sv_msize s' = sv_msize ?s \<and>
        (\<forall>p. map_option fi_fid (sv_fids s' p) = map_option fi_fid (sv_fids ?s p))"
        then show "case x of (j, e, o'', s') \<Rightarrow> i \<le> j \<and> j \<le> i + length (w # ws) \<and>
        length (fc_wqid o'') = MAXWELEM \<and> (e = None \<longleftrightarrow> j = i + length (w # ws)) \<and> (\<forall>m. e = Some m \<longrightarrow> (\<exists>f w n. walk1 f w = (Some m, n))) \<and>
        handling r q (\<lambda>_. 0) s' \<and> sv_fpool s' = sv_fpool s \<and> sv_msize s' = sv_msize s \<and>
        (\<forall>p. map_option fi_fid (sv_fids s' p) = map_option fi_fid (sv_fids s p))"
          unfolding eq by (auto split: prod.splits)
      qed simp
    qed
  qed
qed simp

text \<open>The error strings of the service's \<open>walk1\<close> and \<open>clone\<close> fit in a reply.\<close>

definition short_errors :: "service \<Rightarrow> bool" where
  "short_errors cf \<longleftrightarrow>
     (\<forall>walk1 f w m n. cf_walk1 cf = Some walk1 \<longrightarrow> walk1 f w = (Some m, n) \<longrightarrow> length m \<le> 240) \<and>
     (\<forall>c f f' m. cf_clone cf = Some c \<longrightarrow> c f f' = Some m \<longrightarrow> length m \<le> 240)"

lemma walkandclone_inv:
  assumes h: "handling r q (\<lambda>_. 0) s" and t: "fc_type (rq_ifcall q) = Twalk" and of: "rq_ofcall q = zero_fcall"
    and p: "rq_fid q = Some p" "rq_newfid q = Some nf" and d: "droppable s (dropped q)"
    and w: "cf_walk1 cf = Some walk1" "clone = cf_clone cf"
    and g: "g \<Longrightarrow> 256 \<le> unat (sv_msize s) \<and> unat (fc_nwname (rq_ifcall q)) \<le> MAXWELEM \<and>
      unat (fc_nwname (rq_ifcall q)) \<le> length (fc_wname (rq_ifcall q)) \<and> short_errors cf"
  shows "runs g (walkandclone r walk1 clone s) sinv"
proof -
  let ?n = "fc_nwname (rq_ifcall q)"
  note start = handling_req [OF h] p
  have ty: "fc_type (rq_ifcall q) \<in> set fid_types" using t by (simp add: fid_types_def)
  have z: "fc_nwqid (rq_ofcall q) = 0" using of by (simp add: zero_fcall_def)
  have no: "runs g (answer r (Some m) s') sinv" if "handling r q (\<lambda>_. 0) s'" "droppable s' (dropped q)"
    "sv_msize s' = sv_msize s" "g \<Longrightarrow> length m \<le> 240" for m s'
    by (rule error_drop [OF that(1) ty that(2)]) (use z that g in auto)
  show ?thesis
  proof (cases "p = nf \<and> ?n > 1")
    case True
    have "runs g (answer r (Some (bytes ''lib9p: unused documented feature not implemented'')) s) sinv"
      by (rule no [OF h d]) (simp_all add: length_bytes)
    then show ?thesis using True by (simp add: walkandclone_def start)
  next
    case False
    then have no_unused: "(p = nf \<and> ?n > 1) = False" by simp
    obtain f f2 where f: "sv_fids s p = Some f" "sv_fids s nf = Some f2"
      using slot_live [OF handling_finv [OF h] handling_req [OF h]] p by blast
    obtain s1 f3 where s1: "(if p \<noteq> nf then setf nf (\<lambda>g. g\<lparr>fi_qid := fi_qid f\<rparr>) s else Some s) = Some s1"
      "handling r q (\<lambda>_. 0) s1" "sv_fids s1 nf = Some f3" "sv_msize s1 = sv_msize s" "sv_fpool s1 = sv_fpool s"
      "\<And>x. map_option fi_fid (sv_fids s1 x) = map_option fi_fid (sv_fids s x)"
    proof (cases "p = nf")
      case True
      then show thesis using that [of s f2] h f by simp
    next
      case False
      note sf = setf_handling [OF h f(2), of "\<lambda>g. g\<lparr>fi_qid := fi_qid f\<rparr>"]
      show thesis
        by (rule that [of "s\<lparr>sv_fids := (sv_fids s)(nf \<mapsto> f2\<lparr>fi_qid := fi_qid f\<rparr>)\<rparr>"]) (use sf False f in auto)
    qed
    define e where "e = (if p \<noteq> nf then (case clone of None \<Rightarrow> None | Some c \<Rightarrow> c f f3) else None)"
    have d1: "droppable s1 (dropped q)" by (rule droppable_ref [OF d s1(5,6)])
    have eq: "walkandclone r walk1 clone s = (if e \<noteq> None then answer r e s1
       else do {
         assertion (unat ?n \<le> length (fc_wname (rq_ifcall q)));
         (i, e, o', s) \<leftarrow> walk1_loop walk1 0 (take (unat ?n) (fc_wname (rq_ifcall q))) nf (rq_ofcall q) s1;
         s \<leftarrow> setr r (\<lambda>q. q\<lparr>rq_ofcall := o'\<lparr>fc_nwqid := of_nat i\<rparr>\<rparr>) s;
         answer r (if i = 0 then e else None) s })"
      using f s1(1,3) by (simp add: walkandclone_def start e_def no_unused)
    show ?thesis
    proof (cases e)
      case (Some m)
      have "runs g (answer r (Some m) s1) sinv"
      proof (rule no [OF s1(2) d1 s1(4)])
        assume g
        with g w(2) Some show "length m \<le> 240" by (auto simp: e_def short_errors_def split: if_splits option.splits)
      qed
      then show ?thesis using Some eq by simp
    next
      case None
      let ?ws = "take (unat ?n) (fc_wname (rq_ifcall q))"
      have lw: "length (fc_wqid (rq_ofcall q)) = MAXWELEM" using of by (simp add: zero_fcall_def)
      have "runs g (walk1_loop walk1 0 ?ws nf (rq_ofcall q) s1) (\<lambda>(j, e, o'', s'). 0 \<le> j \<and> j \<le> 0 + length ?ws \<and>
        length (fc_wqid o'') = MAXWELEM \<and> (e = None \<longleftrightarrow> j = 0 + length ?ws) \<and> (\<forall>m. e = Some m \<longrightarrow> (\<exists>f w n. walk1 f w = (Some m, n))) \<and>
        handling r q (\<lambda>_. 0) s' \<and> sv_fpool s' = sv_fpool s1 \<and> sv_msize s' = sv_msize s1 \<and>
        (\<forall>p. map_option fi_fid (sv_fids s' p) = map_option fi_fid (sv_fids s1 p)))"
        by (rule walk1_loop_inv [OF s1(2) _ lw]) (use s1(3) g in auto)
      note loop = this
      have "runs g (do { s \<leftarrow> setr r (\<lambda>q. q\<lparr>rq_ofcall := o'\<lparr>fc_nwqid := of_nat j\<rparr>\<rparr>) s';
          answer r (if j = 0 then e' else None) s }) sinv"
        if wn: "unat ?n \<le> length (fc_wname (rq_ifcall q))"
          and L: "j \<le> length ?ws" "length (fc_wqid o') = MAXWELEM" "e' = None \<longleftrightarrow> j = length ?ws"
          "\<forall>m. e' = Some m \<longrightarrow> (\<exists>f w n. walk1 f w = (Some m, n))" "handling r q (\<lambda>_. 0) s'" "sv_fpool s' = sv_fpool s1"
          "sv_msize s' = sv_msize s1" "\<forall>p. map_option fi_fid (sv_fids s' p) = map_option fi_fid (sv_fids s1 p)"
        for j e' o' s'
      proof -
        have ln: "length ?ws = unat ?n" using wn by simp
        let ?q = "q\<lparr>rq_ofcall := o'\<lparr>fc_nwqid := of_nat j\<rparr>\<rparr>" let ?s = "s'\<lparr>sv_reqs := (sv_reqs s')(r \<mapsto> ?q)\<rparr>"
        have h2: "handling r ?q (\<lambda>_. 0) ?s" by (rule handling_data [OF L(5)]) simp
        have d2: "droppable ?s (dropped ?q)"
          using droppable_ref [OF d1, of ?s] L(6,8) by simp
        have m2: "sv_msize ?s = sv_msize s" using L(7) s1(4) by simp
        have "runs g (answer r (if j = 0 then e' else None) ?s) sinv"
        proof (cases "j = 0 \<and> e' \<noteq> None")
          case True
          then obtain m where m: "e' = Some m" by auto
          have "runs g (answer r (Some m) ?s) sinv"
            by (rule error_drop [OF h2 _ d2]) (use True t m m2 L(4) g w(1) in \<open>auto simp: fid_types_def short_errors_def\<close>)
          then show ?thesis using True m by simp
        next
          case F: False
          have j: "unat (of_nat j :: ushort) = j" if g
            using g [OF that] L(1) ln by (simp add: unsigned_of_nat take_bit_nat_eq_self MAXWELEM_def)
          have "can_reply ?s r None" if g
          proof (rule can_reply_walk [OF handling_finv [OF h2] handling_req [OF h2]])
            show "fits_ok ?s ?q"
              by (rule fits_walk) (use t g [OF that] m2 j [OF that] L(1,2) ln in auto)
            show "256 \<le> unat (sv_msize ?s)" using g [OF that] m2 by simp
            show "fids_set ?q" using t p by (simp add: fids_set_def)
            show "unat (fc_nwqid (rq_ofcall ?q)) \<le> length (fc_wqid (rq_ofcall ?q))"
              using j [OF that] L(1,2) ln g [OF that] by simp
          qed (use t d2 in simp_all)
          then have "runs g (answer r None ?s) sinv" by (intro runs_mono [OF answer_inv [OF h2]]) auto
          then show ?thesis using F by (cases "j = 0") auto
        qed
        then show ?thesis by (simp add: setr_handling [OF L(5)])
      qed
      note rest = this
      have "runs g (do {
         assertion (unat ?n \<le> length (fc_wname (rq_ifcall q)));
         (i, e, o', s) \<leftarrow> walk1_loop walk1 0 ?ws nf (rq_ofcall q) s1;
         s \<leftarrow> setr r (\<lambda>q. q\<lparr>rq_ofcall := o'\<lparr>fc_nwqid := of_nat i\<rparr>\<rparr>) s;
         answer r (if i = 0 then e else None) s }) sinv"
      proof (cases "unat ?n \<le> length (fc_wname (rq_ifcall q))")
        case True
        then show ?thesis
          unfolding assertion_def if_P [OF True] bind.bind_lunit
          by (intro runs_bind [OF loop]) (auto intro!: rest)
      qed (use g in \<open>auto simp: assertion_def runs_def\<close>)
      then show ?thesis using None eq by simp
    qed
  qed
qed

lemma swalk_inv:
  assumes h: "handling r q (\<lambda>_. 0) s" and fr: "fresh_req Twalk q"
    and g: "g \<Longrightarrow> 256 \<le> unat (sv_msize s) \<and> unat (fc_nwname (rq_ifcall q)) \<le> MAXWELEM \<and>
      unat (fc_nwname (rq_ifcall q)) \<le> length (fc_wname (rq_ifcall q)) \<and> short_errors cf \<and>
      (cf_walk1 cf \<noteq> None \<or> cf_walk cf) \<and>
      (fc_fid (rq_ifcall q) \<noteq> fc_newfid (rq_ifcall q) \<longrightarrow> (\<forall>p f. mget (sv_fpool s) (fc_fid (rq_ifcall q)) = Some p \<longrightarrow>
         sv_fids s p = Some f \<longrightarrow> fi_uid f \<noteq> None))"
  shows "runs g (swalk cf r s) sinv"
  unfolding swalk_def handling_req [OF h] bind.bind_lunit
proof (rule with_fid_runs [OF h fr _ finds_lookup [OF handling_finv [OF h]]], goal_cases)
  case (3 p f s')
  have q: "fc_type (rq_ifcall q) = Twalk" "rq_fid q = None" "rq_afid q = None" "rq_newfid q = None" "rq_ofcall q = zero_fcall"
    using fr by (simp_all add: fresh_req_def)
  let ?q = "q\<lparr>rq_fid := Some p\<rparr>" let ?k = "fc_newfid (rq_ifcall q)" let ?i = "rq_ifcall q"
  have ty: "Twalk \<in> set fid_types" by (simp add: fid_types_def)
  have no: "runs g (answer r (Some m) t) sinv" if "handling r q' (\<lambda>_. 0) t" "rq_ifcall q' = ?i" "rq_ofcall q' = zero_fcall"
    "rq_newfid q' = None" "sv_msize t = sv_msize s" "length m \<le> 240" for m t q'
    by (rule error_drop [OF that(1)]) (use that g q in \<open>auto simp: fid_types_def dropped_def zero_fcall_def\<close>)
  define step where "step = (if fc_fid ?i \<noteq> ?k then allocfid ?k s'
     else map_option (Pair (Some p)) (setf p (\<lambda>f. f\<lparr>fi_ref := fi_ref f + 1\<rparr>) s'))"
  obtain v t where vt: "step = Some (v, t)" "handling r (?q\<lparr>rq_newfid := v\<rparr>) (\<lambda>_. 0) (t\<lparr>sv_reqs := (sv_reqs t)(r \<mapsto> ?q\<lparr>rq_newfid := v\<rparr>)\<rparr>)"
    "handling r ?q (hold v (\<lambda>_. 0)) t" "sv_msize t = sv_msize s'"
    "\<And>nf. v = Some nf \<Longrightarrow> \<exists>f'. sv_fids t nf = Some f' \<and> fi_file f' = None \<and> (fc_fid ?i \<noteq> ?k \<longrightarrow> mget (sv_fpool t) (fi_fid f') \<noteq> None)"
  proof (cases "fc_fid ?i = ?k")
    case False
    obtain v t where 1: "allocfid ?k s' = Some (v, t)" "handling r (?q\<lparr>rq_newfid := v\<rparr>) (\<lambda>_. 0) (t\<lparr>sv_reqs := (sv_reqs t)(r \<mapsto> ?q\<lparr>rq_newfid := v\<rparr>)\<rparr>)"
      "handling r ?q (hold v (\<lambda>_. 0)) t" "sv_msize t = sv_msize s'"
      "case v of None \<Rightarrow> sv_fids t = sv_fids s'
       | Some p \<Rightarrow> p = sv_next s' \<and> sv_fids t = (sv_fids s')(p \<mapsto> new_fid ?k) \<and> mget (sv_fpool t) ?k = Some p \<and> sv_fids s' p = None"
      using allocfid_handling [OF 3(1), of "\<lambda>v q. q\<lparr>rq_newfid := v\<rparr>" ?k] q by (auto simp: ctl_def slots_def)
    show thesis
      by (rule that [of v t]) (use 1 False in \<open>auto simp: step_def new_fid_def split: option.splits\<close>)
  next
    case True
    let ?t = "s'\<lparr>sv_fids := (sv_fids s')(p \<mapsto> f\<lparr>fi_ref := fi_ref f + 1\<rparr>)\<rparr>"
    have f': "finv ?t (hold (Some p) (\<lambda>_. 0))"
      using finv_incfidref [OF handling_finv [OF 3(1)] 3(2)] by (simp add: hold_Some)
    have h1: "handling r ?q (hold (Some p) (\<lambda>_. 0)) ?t" by (rule handling_fids [OF 3(1) f']) simp_all
    have h2: "handling r (?q\<lparr>rq_newfid := Some p\<rparr>) (\<lambda>_. 0) (?t\<lparr>sv_reqs := (sv_reqs ?t)(r \<mapsto> ?q\<lparr>rq_newfid := Some p\<rparr>)\<rparr>)"
      by (rule handling_upd [OF h1]) (use q in \<open>simp_all add: ctl_def slots_def hold_def\<close>)
    show thesis
      by (rule that [of "Some p" ?t]) (use h1 h2 True 3 in \<open>simp_all add: step_def setf_def\<close>)
  qed
  let ?q2 = "?q\<lparr>rq_newfid := v\<rparr>" let ?s2 = "t\<lparr>sv_reqs := (sv_reqs t)(r \<mapsto> ?q\<lparr>rq_newfid := v\<rparr>)\<rparr>"
  define rest where "rest = (case v of
      None \<Rightarrow> answer r (Some Edupfid) ?s2
    | Some nf \<Rightarrow> do {
        s \<leftarrow> (if fc_fid ?i \<noteq> ?k then do { u \<leftarrow> fi_uid f; setf nf (\<lambda>g. g\<lparr>fi_uid := Some u\<rparr>) ?s2 } else Some ?s2);
        case cf_walk1 cf of Some walk1 \<Rightarrow> walkandclone r walk1 (cf_clone cf) s | None \<Rightarrow> if cf_walk cf then Some s else None })"
  have m: "sv_msize ?s2 = sv_msize s" using vt(4) 3(4) by simp
  have "runs g rest sinv"
  proof (cases v)
    case None
    have "runs g (answer r (Some Edupfid) ?s2) sinv"
      by (rule no [OF vt(2)]) (use None q m in \<open>simp_all add: error_strings\<close>)
    then show ?thesis using None by (simp add: rest_def)
  next
    case (Some nf)
    obtain f' where f': "sv_fids t nf = Some f'" "fi_file f' = None" "fc_fid ?i \<noteq> ?k \<longrightarrow> mget (sv_fpool t) (fi_fid f') \<noteq> None"
      using vt(5) [OF Some] by blast
    have d: "droppable ?s2 (dropped ?q2)"
      using f' q Some by (auto simp: droppable_def dropped_def)
    have go: "runs g (case cf_walk1 cf of Some walk1 \<Rightarrow> walkandclone r walk1 (cf_clone cf) u
        | None \<Rightarrow> if cf_walk cf then Some u else None) sinv"
      if u: "handling r ?q2 (\<lambda>_. 0) u" "droppable u (dropped ?q2)" "sv_msize u = sv_msize s" for u
    proof (cases "cf_walk1 cf")
      case None
      have "sinv u" by (rule handling_done [OF u(1)]) (use q Some in \<open>simp add: fids_set_def\<close>)
      then show ?thesis using None g by (auto simp: runs_def)
    next
      case w: (Some walk1)
      have "runs g (walkandclone r walk1 (cf_clone cf) u) sinv"
        by (rule walkandclone_inv [OF u(1) _ _ _ _ u(2) w]) (use q Some g u(3) in auto)
      then show ?thesis using w by simp
    qed
    show ?thesis
    proof (cases "fc_fid ?i = ?k")
      case True
      then have "rest = (case cf_walk1 cf of Some walk1 \<Rightarrow> walkandclone r walk1 (cf_clone cf) ?s2
          | None \<Rightarrow> if cf_walk cf then Some ?s2 else None)" unfolding rest_def Some by simp
      then show ?thesis using go [OF vt(2) d m] by simp
    next
      case False
      show ?thesis
      proof (cases "fi_uid f")
        case None
        then show ?thesis using g 3(5,6) False Some by (auto simp: rest_def runs_def)
      next
        case u: (Some u)
        have f2: "sv_fids ?s2 nf = Some f'" using f'(1) by simp
        note sf = setf_handling [OF vt(2) f2, of "\<lambda>g. g\<lparr>fi_uid := Some u\<rparr>"]
        let ?u = "?s2\<lparr>sv_fids := (sv_fids ?s2)(nf \<mapsto> f'\<lparr>fi_uid := Some u\<rparr>)\<rparr>"
        have "droppable ?u (dropped ?q2)" by (rule droppable_ref [OF d]) (use f' in auto)
        then have "runs g (case cf_walk1 cf of Some walk1 \<Rightarrow> walkandclone r walk1 (cf_clone cf) ?u
          | None \<Rightarrow> if cf_walk cf then Some ?u else None) sinv"
          by (intro go) (use sf(2) m in simp_all)
        moreover have "rest = (case cf_walk1 cf of Some walk1 \<Rightarrow> walkandclone r walk1 (cf_clone cf) ?u
          | None \<Rightarrow> if cf_walk cf then Some ?u else None)"
          using sf(1) False u unfolding rest_def Some by (simp cong: option.case_cong)
        ultimately show ?thesis by simp
      qed
    qed
  qed
  note go = this
  have no1: "runs g (answer r (Some (bytes ''cannot clone open fid'')) s') sinv"
    and no2: "runs g (answer r (Some Ewalknodir) s') sinv"
    by (rule no [OF 3(1)], use q 3(4) in \<open>simp_all add: error_strings\<close>)+
  have sel: "rq_ifcall (q\<lparr>rq_fid := Some p\<rparr>) = rq_ifcall q" by simp
  have eq: "(case v of None \<Rightarrow> answer r (Some Edupfid) ?s2
      | Some nf \<Rightarrow> do {
          s \<leftarrow> (if fc_fid ?i \<noteq> ?k then do { u \<leftarrow> fi_uid f; setf nf (\<lambda>g. g\<lparr>fi_uid := Some u\<rparr>) ?s2 } else Some ?s2);
          if fi_file f \<noteq> None then filewalk r s
          else (case cf_walk1 cf of
              Some walk1 \<Rightarrow> walkandclone r walk1 (cf_clone cf) s
            | None \<Rightarrow> if cf_walk cf then Some s else None) }) = rest"
    using 3(3) by (simp add: rest_def cong: option.case_cong)
  show ?case
    unfolding sel vt(1) [unfolded step_def] bind.bind_lunit prod.case setr_handling [OF vt(3)] eq
    by (intro runs_if no1 no2 go)
qed (use g in \<open>simp_all add: fid_types_def\<close>)

subsection \<open>What a decoded message holds\<close>

definition decoded :: "fcall \<Rightarrow> bool" where
  "decoded f \<longleftrightarrow> (let t = fc_type f in
     (t = Tversion \<longrightarrow> fc_version f \<noteq> None) \<and> (t = Tattach \<longrightarrow> fc_uname f \<noteq> None) \<and>
     (t = Twalk \<longrightarrow> unat (fc_nwname f) \<le> MAXWELEM \<and> unat (fc_nwname f) \<le> length (fc_wname f)) \<and>
     (t = Twstat \<longrightarrow> length (fc_stat f) = unat (fc_nstat f)))"

lemma convM2S_decoded:
  assumes "convM2S buf n g = Some (b, Some (k, f))"
  shows "decoded f"
  using convM2S_body [OF assms]
  by (auto simp: body_wf_def decoded_def Let_def msg_strings_def counts_ok_def str_wf_def)

subsection \<open>A message arrives\<close>

text \<open>A new request, with a tag that no outstanding request has.\<close>

lemma new_request:
  assumes inv: "sinv s" and free: "mget (sv_rpool s) (ucast tag) = None" and t: "fc_tag f = tag"
  shows "\<exists>m s'. allocreq tag s = Some (Some (sv_next s), s') \<and>
    s' = s\<lparr>sv_reqs := (sv_reqs s)(sv_next s \<mapsto> new_req tag), sv_next := sv_next s + 1, sv_rpool := m\<rparr> \<and>
    mget m = (mget (sv_rpool s))(ucast tag \<mapsto> sv_next s) \<and>
    handling (sv_next s) ((new_req tag)\<lparr>rq_ifcall := f\<rparr>) (\<lambda>_. 0)
      (s'\<lparr>sv_reqs := (sv_reqs s')(sv_next s \<mapsto> (new_req tag)\<lparr>rq_ifcall := f\<rparr>)\<rparr>)"
proof -
  obtain G where G: "rinv s G" "quiet {} G" and fi: "finv s (\<lambda>_. 0)" using inv by (auto simp: sinv_def)
  let ?r = "sv_next s" let ?k = "ucast tag :: u32int" let ?q = "(new_req tag)\<lparr>rq_ifcall := f\<rparr>"
  have im: "intmap_ok (sv_rpool s)" and fin: "finite (dom (sv_reqs s))" using G(1) by (simp_all add: rinv_def)
  obtain m where m: "caninsertkey (sv_rpool s) ?k ?r = (True, m)" "mget m = (mget (sv_rpool s))(?k \<mapsto> ?r)" "intmap_ok m"
    using caninsertkey_spec [OF im, of ?k ?r] free by (cases "caninsertkey (sv_rpool s) ?k ?r") auto
  have none: "sv_reqs s ?r = None" using rinv_bound [OF G(1), of ?r] by (cases "sv_reqs s ?r") auto
  have dead: "rrefs s ?r = 0" "gh_wait G ?r = []"
    using rinv_dead [OF G(1) none] no_refs_no_wait [OF G(1)] by simp_all
  let ?s1 = "s\<lparr>sv_reqs := (sv_reqs s)(?r \<mapsto> new_req tag), sv_next := ?r + 1, sv_rpool := m\<rparr>"
  let ?s2 = "?s1\<lparr>sv_reqs := (sv_reqs ?s1)(?r \<mapsto> ?q)\<rparr>"
  have al: "allocreq tag s = Some (Some ?r, ?s1)" using m(1) by (simp add: allocreq_def Let_def)
  have "ran (mget m) = insert ?r (ran (mget (sv_rpool s)))" unfolding m(2) using free by (rule ran_map_upd)
  moreover have "wsum (\<lambda>q. of_bool (rq_oldreq q = Some x)) ((sv_reqs s)(?r \<mapsto> ?q)) =
      wsum (\<lambda>q. of_bool (rq_oldreq q = Some x)) (sv_reqs s)" for x
    using wsum_new [OF fin none, of "\<lambda>q. of_bool (rq_oldreq q = Some x)" ?q] by (simp add: new_req_def)
  moreover have "?r \<notin> ran (mget (sv_rpool s))" using rinv_pool [OF G(1), of _ ?r] none by (auto simp: ran_def)
  ultimately have rr: "rrefs (s\<lparr>sv_reqs := (sv_reqs s)(?r \<mapsto> ?q), sv_next := n, sv_rpool := m\<rparr>) x =
      rrefs s x + of_bool (x = ?r)" for x n
    by (cases "x = ?r") (auto simp: rrefs_def)
  let ?G = "G\<lparr>gh_cur := {?r}\<rparr>"
  have s2: "?s2 = s\<lparr>sv_reqs := (sv_reqs s)(?r \<mapsto> ?q), sv_next := ?r + 1, sv_rpool := m\<rparr>" by simp
  have "rinv ?s2 ?G"
    unfolding s2
  proof (rule rinvI)
    show "req_ok (s\<lparr>sv_reqs := (sv_reqs s)(?r \<mapsto> ?q), sv_next := ?r + 1, sv_rpool := m\<rparr>) ?G x p"
      if p: "sv_reqs (s\<lparr>sv_reqs := (sv_reqs s)(?r \<mapsto> ?q), sv_next := ?r + 1, sv_rpool := m\<rparr>) x = Some p" for x p
    proof (cases "x = ?r")
      case True
      then show ?thesis using p dead G(2) m(2) t unfolding req_ok_def rr
        by (auto simp: new_req_def quiet_def)
    next
      case False
      then have p': "sv_reqs s x = Some p" using p by simp
      have ok: "req_ok s G x p" by (rule rinv_req [OF G(1) p'])
      have "ucast (fc_tag (rq_ifcall p)) \<noteq> ?k" if "\<not> rq_responded p"
        using ok that free by (auto simp: req_ok_def)
      then show ?thesis using ok False none G(2) unfolding req_ok_def rr by (auto simp: m(2) quiet_def)
    qed
    show "rrefs (s\<lparr>sv_reqs := (sv_reqs s)(?r \<mapsto> ?q), sv_next := ?r + 1, sv_rpool := m\<rparr>) x + gh_refs ?G x = 0"
      if "sv_reqs (s\<lparr>sv_reqs := (sv_reqs s)(?r \<mapsto> ?q), sv_next := ?r + 1, sv_rpool := m\<rparr>) x = None" for x
      using that rinv_dead [OF G(1), of x] unfolding rr by (auto split: if_splits)
    show "\<exists>q. sv_reqs (s\<lparr>sv_reqs := (sv_reqs s)(?r \<mapsto> ?q), sv_next := ?r + 1, sv_rpool := m\<rparr>) x = Some q \<and>
        \<not> rq_responded q \<and> k = ucast (fc_tag (rq_ifcall q))"
      if "mget (sv_rpool (s\<lparr>sv_reqs := (sv_reqs s)(?r \<mapsto> ?q), sv_next := ?r + 1, sv_rpool := m\<rparr>)) k = Some x" for k x
    proof (cases "k = ?k")
      case True
      then show ?thesis using that m(2) t by (simp add: new_req_def)
    next
      case False
      then have "mget (sv_rpool s) k = Some x" using that m(2) by simp
      from rinv_pool [OF G(1) this] show ?thesis using none by auto
    qed
    show "waits (s\<lparr>sv_reqs := (sv_reqs s)(?r \<mapsto> ?q), sv_next := ?r + 1, sv_rpool := m\<rparr>) x h" if "h \<in> set (gh_wait ?G x)" for x h
      using rinv_waits [OF G(1), of h x] that none by (auto simp: waits_def)
  qed (use G m fin in \<open>auto simp: rinv_def quiet_def\<close>)
  moreover have "quiet {?r} ?G" using G(2) by (simp add: quiet_def)
  moreover have "finv ?s2 (\<lambda>_. 0)"
  proof -
    have "finv (s\<lparr>sv_reqs := (sv_reqs s)(?r \<mapsto> ?q), sv_next := ?r + 1\<rparr>) (\<lambda>_. 0)"
      by (rule finv_new [OF fi none]) (simp_all add: slots_def new_req_def)
    then show ?thesis by (rule finv_cong) (simp add: fview_def)
  qed
  moreover have "pending ?s2 ?r ?q"
  proof -
    have "?r \<notin> set (rq_flush p)" if "sv_reqs s x = Some p" for x p
    proof
      assume "?r \<in> set (rq_flush p)"
      then have "?r \<in> set (gh_wait G x)" using wait_flush [OF G(1), of x] G(2) that by (simp add: quiet_def)
      then show False using rinv_waits [OF G(1), of ?r x] none by (simp add: waits_def)
    qed
    then show ?thesis by (auto simp: pending_def new_req_def split: if_splits)
  qed
  ultimately show ?thesis using al m(2) by (auto simp: handling_def)
qed

text \<open>With a tag that is taken the server makes up a request outside of the pool and refuses it.\<close>

lemma taken_request:
  assumes inv: "sinv s" and taken: "mget (sv_rpool s) (ucast tag) \<noteq> None"
  shows "\<exists>s'. allocreq tag s = Some (None, s') \<and> sinv s' \<and> sv_next s < sv_next s' \<and> sv_reqs s' = sv_reqs s \<and>
    sv_msize s' = sv_msize s \<and> mget (sv_rpool s') = mget (sv_rpool s)"
proof -
  obtain G where G: "rinv s G" "quiet {} G" and fi: "finv s (\<lambda>_. 0)" using inv by (auto simp: sinv_def)
  let ?r = "sv_next s" let ?k = "ucast tag :: u32int"
  have im: "intmap_ok (sv_rpool s)" and fin: "finite (dom (sv_reqs s))" using G(1) by (simp_all add: rinv_def)
  obtain m where m: "caninsertkey (sv_rpool s) ?k ?r = (False, m)" "mget m = mget (sv_rpool s)" "intmap_ok m"
    using caninsertkey_spec [OF im, of ?k ?r] taken by (cases "caninsertkey (sv_rpool s) ?k ?r") auto
  have none: "sv_reqs s ?r = None" using rinv_bound [OF G(1), of ?r] by (cases "sv_reqs s ?r") auto
  let ?s' = "s\<lparr>sv_next := ?r + 1, sv_rpool := m, sv_destroyreq := sv_destroyreq s @ [?r]\<rparr>"
  have "allocreq tag s = Some (None, s\<lparr>sv_reqs := (sv_reqs s)(?r := None), sv_next := ?r + 1, sv_rpool := m,
      sv_destroyreq := sv_destroyreq s @ [?r]\<rparr>)"
    using m(1) by (simp add: allocreq_def Let_def new_req_def closereq_plain [of _ _ _ 0, simplified] close_slots_def if_some_def)
  moreover have "(sv_reqs s)(?r := None) = sv_reqs s" using none by (rule fun_upd_idem)
  ultimately have al: "allocreq tag s = Some (None, ?s')" by simp
  have rr: "rrefs (s\<lparr>sv_next := n, sv_rpool := m, sv_destroyreq := d\<rparr>) x = rrefs s x" for x n d using m(2) by (simp add: rrefs_def)
  have "rinv ?s' G"
  proof (rule rinvI)
    show "req_ok ?s' G x q" if "sv_reqs ?s' x = Some q" for x q
      using rinv_req [OF G(1), of x q] that unfolding req_ok_def rr by (auto simp: m(2))
    show "rrefs ?s' x + gh_refs G x = 0" if "sv_reqs ?s' x = None" for x
      using rinv_dead [OF G(1), of x] that unfolding rr by simp
    show "waits ?s' x h" if "h \<in> set (gh_wait G x)" for x h using rinv_waits [OF G(1) that] by (simp add: waits_def)
    show "\<exists>q. sv_reqs ?s' x = Some q \<and> \<not> rq_responded q \<and> k = ucast (fc_tag (rq_ifcall q))"
      if "mget (sv_rpool ?s') k = Some x" for k x using rinv_pool [OF G(1), of k x] that m(2) by simp
  qed (use G m fin in \<open>auto simp: rinv_def\<close>)
  moreover have "finv ?s' (\<lambda>_. 0)"
    by (rule finv_change [OF fi]) (use fin in \<open>simp_all add: frefs_def\<close>)
  ultimately show ?thesis using al G(2) m(2) by (auto simp: sinv_def)
qed

text \<open>It cannot be refused when it is a flush or a version request.\<close>

lemma fake_abort:
  assumes q: "q = (new_req tag)\<lparr>rq_ifcall := f, rq_ref := 1, rq_pool := False, rq_error := Some Eduptag\<rparr>"
    and t: "fc_type f \<notin> set fid_types"
  shows "dispatch cf r (s\<lparr>sv_reqs := (sv_reqs s)(r \<mapsto> q), sv_next := n\<rparr>) = None"
proof -
  let ?s = "s\<lparr>sv_reqs := (sv_reqs s)(r \<mapsto> q), sv_next := n\<rparr>"
  have sl: "\<not> rq_responded q" "rq_error q = Some Eduptag" "rq_ifcall q = f"
    using q by (simp_all add: new_req_def)
  have qe: "q\<lparr>rq_error := Some Eduptag\<rparr> = q" using q by simp
  have set1: "setr r (\<lambda>q. q\<lparr>rq_error := Some Eduptag\<rparr>) ?s = Some ?s" by (simp add: setr_def qe)
  obtain k where k: "depth ?s = Suc (Suc k)" by (simp add: depth_def)
  have "retype r (Some Eduptag) ?s = None" if "fc_type f \<noteq> Tflush"
    using t sl by (auto simp: fid_types_def retype_def rversion_def Let_def)
  then show ?thesis using sl by (simp add: dispatch_def answer_def k respond.simps set1 rflush.simps)
qed

lemma fake_request:
  assumes inv: "sinv s" and r: "r = sv_next s"
    and q: "q = (new_req tag)\<lparr>rq_ifcall := f, rq_ref := 1, rq_pool := False, rq_error := Some Eduptag\<rparr>"
    and g: "g \<Longrightarrow> fc_type f \<in> set fid_types \<and> 256 \<le> unat (sv_msize s)"
  shows "runs g (dispatch cf r (s\<lparr>sv_reqs := (sv_reqs s)(r \<mapsto> q), sv_next := Suc r\<rparr>)) sinv"
proof -
  obtain G where G: "rinv s G" "quiet {} G" and fi: "finv s (\<lambda>_. 0)" using inv by (auto simp: sinv_def)
  have none: "sv_reqs s r = None" using rinv_bound [OF G(1), of r] r by (cases "sv_reqs s r") auto
  let ?s = "s\<lparr>sv_reqs := (sv_reqs s)(r \<mapsto> q), sv_next := Suc r\<rparr>"
  have sl: "rq_fid q = None" "rq_afid q = None" "rq_newfid q = None" "\<not> rq_responded q" "\<not> rq_pool q" "rq_flush q = []"
    "rq_error q = Some Eduptag" "rq_ofcall q = zero_fcall" "rq_ifcall q = f"
    using q by (simp_all add: new_req_def)
  have qe: "q\<lparr>rq_error := Some Eduptag\<rparr> = q" using q by simp
  have dis: "dispatch cf r ?s = answer r (Some Eduptag) ?s" using sl by (simp add: dispatch_def)
  let ?t = "\<lambda>q. s\<lparr>sv_reqs := (sv_reqs s)(r \<mapsto> q), sv_next := Suc r\<rparr>"
  have set: "setr r h (?t q) = Some (?t (h q))" for h q
    by (simp add: setr_def)
  have set2: "setr r h ((?t q)\<lparr>sv_out := w\<rparr>) = Some ((?t (h q))\<lparr>sv_out := w\<rparr>)" for h q w
    by (simp add: setr_def)
  have set1: "setr r (\<lambda>q. q\<lparr>rq_error := Some Eduptag\<rparr>) ?s = Some ?s"
    using set [of "\<lambda>q. q\<lparr>rq_error := Some Eduptag\<rparr>" q] qe by simp
  obtain n where n: "depth ?s = Suc (Suc n)" by (simp add: depth_def)
  show ?thesis
  proof (cases "fc_type f \<in> set fid_types")
    case True
    have z: "fc_nwqid zero_fcall = 0" by (simp add: zero_fcall_def)
    have ret: "retype r (Some Eduptag) ?s = Some ?s"
      using True sl z by (auto simp: fid_types_def retype_def rauth_def rattach_def rwalk_def ropen_def rcreate_def rread_def
        rwrite_def rremove_def rstat_def if_some_def Let_def cong: if_cong)
    have nf: "fc_type f \<noteq> Tflush" using True by (auto simp: fid_types_def)
    show ?thesis
    proof (cases "put_reply r ?s")
      case None
      have "fits (sv_msize s) (the_reply q)" if g
        by (rule error_fits [where m = Eduptag]) (use g [OF that] sl in \<open>simp_all add: error_strings\<close>)
      then have "\<not> g" using None put_reply_eq [of ?s r q] by (auto simp: fits_def assertion_def)
      moreover have "answer r (Some Eduptag) ?s = None"
        using None by (simp add: answer_def n respond.simps set1 nf ret sl early_close_def)
      ultimately show ?thesis by (simp add: dis runs_def)
    next
      case (Some x)
      let ?q1 = "q\<lparr>rq_ofcall := the_reply q\<rparr>"
      have eq: "?s\<lparr>sv_reqs := (sv_reqs ?s)(r \<mapsto> ?q1)\<rparr> = ?t ?q1" by simp
      obtain msg where "x = (msg, ?s\<lparr>sv_reqs := (sv_reqs ?s)(r \<mapsto> ?q1)\<rparr>)"
        using Some put_reply_eq [of ?s r q] by (auto simp: assertion_def bind_eq_Some_conv split: if_splits)
      then have x: "x = (msg, ?t ?q1)" unfolding eq .
      let ?out = "s\<lparr>sv_reqs := (sv_reqs s)(r := None), sv_next := Suc r, sv_out := sv_out s @ [msg]\<rparr>"
      have "answer r (Some Eduptag) ?s = Some ?out"
        using Some x sl nf ret by (simp add: answer_def n respond.simps qe set set2 early_close_def)
      moreover have "(sv_reqs s)(r := None) = sv_reqs s" using none by (rule fun_upd_idem)
      ultimately have ans: "answer r (Some Eduptag) ?s = Some (s\<lparr>sv_next := Suc r, sv_out := sv_out s @ [msg]\<rparr>)" by simp
      have "rinv (s\<lparr>sv_next := Suc r, sv_out := sv_out s @ [msg]\<rparr>) G" by (rule rinv_cong [OF G(1)]) (simp_all add: r)
      moreover have "finv (s\<lparr>sv_next := Suc r, sv_out := sv_out s @ [msg]\<rparr>) (\<lambda>_. 0)"
        by (rule finv_change [OF fi]) (use fi r in \<open>simp_all add: finv_def\<close>)
      ultimately show ?thesis using G(2) by (auto simp: dis ans sinv_def)
    qed
  next
    case False
    have "dispatch cf r ?s = None" by (rule fake_abort [OF q False])
    then show ?thesis using g False by (auto simp: runs_def)
  qed
qed

end
