(* ===== verification/SrvRun.thy ===== *)
theory SrvRun
  imports SrvReach
begin

text \<open>
  The runs of the 9P server: the step relation of the service loop and of the service's own
  steps, the states it reaches, what holds in all of them, which messages and answers never
  fail, and the framing of messages.
\<close>

subsection \<open>One message\<close>

text \<open>What a service must do for its server not to fail.\<close>

definition service_ok :: "service \<Rightarrow> bool" where
  "service_ok cf \<longleftrightarrow> short_errors cf \<and> (cf_walk1 cf \<noteq> None \<or> cf_walk cf)"

definition tag_free :: "srv \<Rightarrow> ushort \<Rightarrow> bool" where
  "tag_free s t \<longleftrightarrow> mget (sv_rpool s) (ucast t) = None"

text \<open>The fid, when there is one, was set up by an attach or a walk.\<close>

definition uid_known :: "srv \<Rightarrow> u32int \<Rightarrow> bool" where
  "uid_known s k = (case mget (sv_fpool s) k of
      None \<Rightarrow> True
    | Some p \<Rightarrow> (case sv_fids s p of None \<Rightarrow> True | Some f \<Rightarrow> fi_uid f \<noteq> None))"

text \<open>
  The messages that do not make the server abort: the agreed message size is not tiny, the type is
  one a client sends, a walk to a new fid does not start at an auth fid, and a version or flush
  request neither reuses an outstanding tag nor, for the version, speaks another protocol.
\<close>

definition accepted :: "bool \<Rightarrow> srv \<Rightarrow> fcall \<Rightarrow> bool" where
  "accepted free s f \<longleftrightarrow> 256 \<le> unat (sv_msize s) \<and> (let t = fc_type f in
     t \<in> set fid_types \<and> (t = Twalk \<longrightarrow> fc_fid f \<noteq> fc_newfid f \<longrightarrow> uid_known s (fc_fid f)) \<or>
     free \<and> (t = Tflush \<or>
       t = Tversion \<and> 256 \<le> unat (fc_msize f) \<and> map_option (take 2) (fc_version f) = Some (bytes ''9P'')))"

definition polite :: "srv \<Rightarrow> fcall \<Rightarrow> bool" where
  "polite s f \<longleftrightarrow> accepted (tag_free s (fc_tag f)) s f"

lemma dispatch_inv:
  assumes h: "handling r q (\<lambda>_. 0) s" and q: "q = (new_req tag)\<lparr>rq_ifcall := f\<rparr>"
    and new: "\<And>x. sv_reqs s x \<noteq> None \<Longrightarrow> x \<le> r" and cf: "\<not> cf_tree cf" and dec: "decoded f"
    and g: "g \<Longrightarrow> service_ok cf \<and> accepted True s f"
  shows "runs g (dispatch cf r s) sinv"
proof -
  have sr: "sv_reqs s r = Some q" by (rule handling_req [OF h])
  have fr: "fresh_req (fc_type f) q" by (simp add: q fresh_req_def new_req_def)
  have e: "rq_error q = None" "rq_ifcall q = f" "rq_oldreq q = None" by (simp_all add: q new_req_def)
  have m: "256 \<le> unat (sv_msize s)" if g using g [OF that] by (simp add: accepted_def)
  let ?t = "fc_type f"
  have dis: "dispatch cf r s =
      (if ?t = Tversion then sversion cf r s else if ?t = Tauth then sauth cf r s
       else if ?t = Tattach then sattach cf r s else if ?t = Tflush then sflush cf r s
       else if ?t = Twalk then swalk cf r s else if ?t = Topen then sopen cf r s
       else if ?t = Tcreate then screate cf r s else if ?t = Tread then sread cf r s
       else if ?t = Twrite then swrite cf r s else if ?t = Tclunk then sclunk cf r s
       else if ?t = Tremove then sremove cf r s else if ?t = Tstat then sstat cf r s
       else if ?t = Twstat then swstat cf r s else answer r (Some (bytes ''unknown message'')) s)"
    by (simp add: dispatch_def sr e Let_def cong: if_cong)
  consider "?t = Tversion" | "?t = Tauth" | "?t = Tattach" | "?t = Tflush" | "?t = Twalk" | "?t = Topen"
    | "?t = Tcreate" | "?t = Tread" | "?t = Twrite" | "?t = Tclunk" | "?t = Tremove" | "?t = Tstat" | "?t = Twstat"
    | "?t \<notin> set fid_types" "?t \<noteq> Tversion" "?t \<noteq> Tflush" by (auto simp: fid_types_def)
  then show ?thesis
  proof cases
    case 1
    have "runs g (sversion cf r s) sinv"
      by (rule sversion_inv [OF h]) (use fr 1 g e in \<open>auto simp: accepted_def fid_types_def Let_def map_option_case split: option.splits\<close>)
    then show ?thesis using 1 by (simp add: dis)
  next
    case 2
    have "runs g (sauth cf r s) sinv" by (rule sauth_inv [OF h]) (use fr 2 m in simp_all)
    then show ?thesis using 2 by (simp add: dis)
  next
    case 3
    have "runs g (sattach cf r s) sinv"
      by (rule sattach_inv [OF h]) (use fr 3 m cf dec e in \<open>simp_all add: decoded_def\<close>)
    then show ?thesis using 3 by (simp add: dis)
  next
    case 4
    have "runs g (sflush cf r s) sinv" by (rule sflush_inv [OF h]) (use fr 4 m e new in simp_all)
    then show ?thesis using 4 by (simp add: dis)
  next
    case 5
    have "fc_fid f \<noteq> fc_newfid f \<longrightarrow> uid_known s (fc_fid f)" if g
      using g [OF that] 5 by (simp add: accepted_def)
    then have u: "fi_uid x \<noteq> None"
      if g "fc_fid f \<noteq> fc_newfid f" "mget (sv_fpool s) (fc_fid f) = Some p" "sv_fids s p = Some x" for p x
      using that by (simp add: uid_known_def)
    have d: "unat (fc_nwname f) \<le> MAXWELEM \<and> unat (fc_nwname f) \<le> length (fc_wname f)"
      using dec 5 by (simp add: decoded_def)
    have so: "short_errors cf \<and> (cf_walk1 cf \<noteq> None \<or> cf_walk cf)" if g using g [OF that] by (simp add: service_ok_def)
    have "runs g (swalk cf r s) sinv"
      by (rule swalk_inv [OF h]) (use fr 5 m d u so e in \<open>auto simp: u\<close>)
    then show ?thesis using 5 by (simp add: dis)
  next
    case 6
    have "runs g (sopen cf r s) sinv" by (rule sopen_inv [OF h]) (use fr 6 m in simp_all)
    then show ?thesis using 6 by (simp add: dis)
  next
    case 7
    have "runs g (screate cf r s) sinv" by (rule screate_inv [OF h]) (use fr 7 m in simp_all)
    then show ?thesis using 7 by (simp add: dis)
  next
    case 8
    have "runs g (sread cf r s) sinv" by (rule sread_inv [OF h]) (use fr 8 m in simp_all)
    then show ?thesis using 8 by (simp add: dis)
  next
    case 9
    have "runs g (swrite cf r s) sinv" by (rule swrite_inv [OF h]) (use fr 9 m in simp_all)
    then show ?thesis using 9 by (simp add: dis)
  next
    case 10
    have "runs g (sclunk cf r s) sinv" by (rule sclunk_inv [OF h]) (use fr 10 m in simp_all)
    then show ?thesis using 10 by (simp add: dis)
  next
    case 11
    have "runs g (sremove cf r s) sinv" by (rule sremove_inv [OF h]) (use fr 11 m in simp_all)
    then show ?thesis using 11 by (simp add: dis)
  next
    case 12
    have "runs g (sstat cf r s) sinv" by (rule sstat_inv [OF h]) (use fr 12 m in simp_all)
    then show ?thesis using 12 by (simp add: dis)
  next
    case 13
    have "runs g (swstat cf r s) sinv"
      by (rule swstat_inv [OF h]) (use fr 13 m dec e in \<open>simp_all add: decoded_def\<close>)
    then show ?thesis using 13 by (simp add: dis)
  next
    case 14
    have "\<not> g" using g 14 by (auto simp: accepted_def)
    then have "runs g (answer r (Some (bytes ''unknown message'')) s) sinv"
      by (intro runs_mono [OF answer_inv [OF h]]) simp_all
    then show ?thesis using 14 by (simp add: dis fid_types_def)
  qed
qed


text \<open>
  What \<open>getreq\<close> hands over: the request with the number \<open>r = sv_next s\<close> for a new tag, or the
  made-up request for a duplicate one.
\<close>

definition received :: "srv \<Rightarrow> fcall \<Rightarrow> reqp \<Rightarrow> srv \<Rightarrow> bool" where
  "received s f r s1 \<longleftrightarrow>
     (let q = (new_req (fc_tag f))\<lparr>rq_ifcall := f\<rparr> in
      if tag_free s (fc_tag f) then
        r = sv_next s \<and> handling r q (\<lambda>_. 0) s1 \<and> sv_fpool s1 = sv_fpool s \<and> sv_fids s1 = sv_fids s \<and>
        sv_msize s1 = sv_msize s \<and> sv_out s1 = sv_out s \<and> (\<forall>x. sv_reqs s1 x \<noteq> None \<longrightarrow> x \<le> r) \<and>
        mget (sv_rpool s1) = (mget (sv_rpool s))(ucast (fc_tag f) \<mapsto> r)
      else \<exists>s0. sinv s0 \<and> r = sv_next s0 \<and> sv_msize s0 = sv_msize s \<and> mget (sv_rpool s0) = mget (sv_rpool s) \<and>
        s1 = s0\<lparr>sv_reqs := (sv_reqs s0)(r \<mapsto> q\<lparr>rq_ref := 1, rq_pool := False, rq_error := Some Eduptag\<rparr>),
          sv_next := Suc r\<rparr>)"

lemma admit_received:
  assumes inv: "sinv s"
  shows "\<exists>r s1. (do {
      (r, s) \<leftarrow> allocreq (fc_tag f) s;
      case r of
        None \<Rightarrow> (let r = sv_next s in
          Some (Some r, rest, s\<lparr>sv_reqs := (sv_reqs s)(r \<mapsto> (new_req (fc_tag f))
              \<lparr>rq_ifcall := f, rq_ref := 1, rq_pool := False, rq_error := Some Eduptag\<rparr>),
            sv_next := r + 1\<rparr>))
      | Some r \<Rightarrow> do {
          s \<leftarrow> setr r (\<lambda>q. q\<lparr>rq_ifcall := f, rq_ofcall := zero_fcall\<rparr>) s;
          Some (Some r, rest, s) } }) = Some (Some r, rest, s1) \<and> received s f r s1"
proof (cases "tag_free s (fc_tag f)")
  case True
  let ?q = "(new_req (fc_tag f))\<lparr>rq_ifcall := f\<rparr>" let ?r = "sv_next s"
  from True have free: "mget (sv_rpool s) (ucast (fc_tag f)) = None" by (simp add: tag_free_def)
  obtain m s' where a: "allocreq (fc_tag f) s = Some (Some ?r, s')"
    and s': "s' = s\<lparr>sv_reqs := (sv_reqs s)(?r \<mapsto> new_req (fc_tag f)), sv_next := ?r + 1, sv_rpool := m\<rparr>"
    and pm: "mget m = (mget (sv_rpool s))(ucast (fc_tag f) \<mapsto> ?r)"
    and h: "handling ?r ?q (\<lambda>_. 0) (s'\<lparr>sv_reqs := (sv_reqs s')(?r \<mapsto> ?q)\<rparr>)"
    using new_request [OF inv free refl] by blast
  have q: "(new_req (fc_tag f))\<lparr>rq_ifcall := f, rq_ofcall := zero_fcall\<rparr> = ?q" by (simp add: new_req_def)
  let ?s1 = "s'\<lparr>sv_reqs := (sv_reqs s')(?r \<mapsto> ?q)\<rparr>"
  have set: "setr ?r (\<lambda>q. q\<lparr>rq_ifcall := f, rq_ofcall := zero_fcall\<rparr>) s' = Some ?s1"
    by (simp add: setr_def s' q)
  obtain G where G: "rinv s G" using inv by (auto simp: sinv_def)
  have "x \<le> ?r" if "sv_reqs ?s1 x \<noteq> None" for x
  proof (cases "x = ?r")
    case False
    then have "sv_reqs s x \<noteq> None" using that s' by simp
    then obtain p where "sv_reqs s x = Some p" by blast
    from rinv_bound [OF G this] show ?thesis by simp
  qed simp
  then have "received s f ?r ?s1" using True h pm by (simp add: received_def s')
  then show ?thesis using a set by auto
next
  case False
  then have taken: "mget (sv_rpool s) (ucast (fc_tag f)) \<noteq> None" by (simp add: tag_free_def)
  obtain s0 where s0: "allocreq (fc_tag f) s = Some (None, s0)" "sinv s0" "sv_msize s0 = sv_msize s"
      "mget (sv_rpool s0) = mget (sv_rpool s)"
    using taken_request [OF inv taken] by blast
  then show ?thesis using False by (auto simp: Let_def received_def)
qed

lemma getreq_received:
  assumes "sinv s" "getreq stream s = Some (Some r, rest, s1)"
  shows "\<exists>f. decoded f \<and> received s f r s1"
proof -
  obtain n msg rest' where rd: "read9pmsg stream (unat (sv_msize s)) = (n, msg, rest')"
    by (metis prod_cases3)
  obtain b v where cv: "convM2S msg (nat n) zero_fcall = Some (b, v)" and n: "\<not> n \<le> 0"
    using assms(2) rd by (auto simp: getreq_def bind_eq_Some_conv split: if_splits)
  obtain k f where v: "v = Some (k, f)" and k: "k = nat n"
    using assms(2) rd cv n by (cases v) (auto simp: getreq_def split: if_splits)
  have "\<exists>r s1. getreq stream s = Some (Some r, rest', s1) \<and> received s f r s1"
    using admit_received [OF assms(1), of f rest'] rd cv n by (simp add: getreq_def v k)
  then have "received s f r s1" using assms(2) by auto
  moreover have "decoded f" using cv v by (auto intro: convM2S_decoded)
  ultimately show ?thesis by blast
qed

lemma received_ifcall: "received s f r s1 \<Longrightarrow> map_option rq_ifcall (sv_reqs s1 r) = Some f"
  by (auto simp: received_def Let_def handling_req split: if_splits)

lemma read9pmsg_length:
  assumes "read9pmsg stream n = (k, msg, rest)" "0 < k"
  shows "length msg = nat k"
  using assms by (auto simp: read9pmsg_def Let_def split: if_splits)

text \<open>Reading a request never fails.\<close>

lemma getreq_total:
  assumes inv: "sinv s"
  shows "getreq stream s \<noteq> None"
proof -
  obtain n msg rest where rd: "read9pmsg stream (unat (sv_msize s)) = (n, msg, rest)" by (metis prod_cases3)
  show ?thesis
  proof (cases "n \<le> 0")
    case False
    then have "nat n \<le> length msg" using read9pmsg_length [OF rd] by simp
    then obtain b v where cv: "convM2S msg (nat n) zero_fcall = Some (b, v)"
      using convM2S_reads [of "nat n" msg zero_fcall] by (auto simp: reads_ok_def)
    show ?thesis
    proof (cases v)
      case None
      then show ?thesis using rd False cv by (simp add: getreq_def)
    next
      case (Some w)
      obtain k f where w: "w = (k, f)" by fastforce
      show ?thesis
        using admit_received [OF inv, of f rest] rd False cv by (cases "k = nat n") (auto simp: getreq_def Some w)
    qed
  qed (use rd in \<open>simp add: getreq_def\<close>)
qed

lemma message_inv:
  assumes inv: "sinv s" and rec: "received s f r s1" and cf: "\<not> cf_tree cf" and dec: "decoded f"
    and g: "g \<Longrightarrow> service_ok cf \<and> polite s f"
  shows "runs g (dispatch cf r s1) sinv"
proof (cases "tag_free s (fc_tag f)")
  case True
  then have h: "handling r ((new_req (fc_tag f))\<lparr>rq_ifcall := f\<rparr>) (\<lambda>_. 0) s1"
    and eq: "sv_fpool s1 = sv_fpool s" "sv_fids s1 = sv_fids s" "sv_msize s1 = sv_msize s"
    and new: "\<And>x. sv_reqs s1 x \<noteq> None \<Longrightarrow> x \<le> r"
    using rec unfolding received_def Let_def by auto
  have "accepted True s1 f" if "polite s f"
  proof -
    have "uid_known s1 = uid_known s" by (rule ext) (simp add: uid_known_def eq cong: option.case_cong)
    then show ?thesis using that True by (simp add: polite_def accepted_def eq)
  qed
  then show ?thesis using g by (intro dispatch_inv [OF h refl new cf dec]) simp_all
next
  case False
  then obtain s0 where s0: "sinv s0" "r = sv_next s0" "sv_msize s0 = sv_msize s" and
    s1: "s1 = s0\<lparr>sv_reqs := (sv_reqs s0)(r \<mapsto> (new_req (fc_tag f))\<lparr>rq_ifcall := f, rq_ref := 1, rq_pool := False,
      rq_error := Some Eduptag\<rparr>), sv_next := Suc r\<rparr>"
    using rec by (auto simp: received_def Let_def)
  show ?thesis unfolding s1
    by (rule fake_request [OF s0(1,2) refl]) (use g False s0(3) in \<open>auto simp: polite_def accepted_def Let_def\<close>)
qed


subsection \<open>Runs\<close>

text \<open>
  The steps: a message arrives and its handler runs; the service writes to a request it holds
  (the reply's members and the directory entry of a stat) or to the qid and the directory index of
  a fid; the service answers a request it holds.  The requests the service holds are those that
  are not yet responded to and wait in no flush list.
\<close>

inductive sstep :: "service \<Rightarrow> srv \<Rightarrow> srv \<Rightarrow> bool" for cf where
  recv: "getreq stream s = Some (Some r, rest, s1) \<Longrightarrow> dispatch cf r s1 = Some s' \<Longrightarrow> sstep cf s s'"
| fill: "pending s r q \<Longrightarrow> sstep cf s (s\<lparr>sv_reqs := (sv_reqs s)(r \<mapsto> q\<lparr>rq_ofcall := f, rq_d := d\<rparr>)\<rparr>)"
| fids: "sv_fids s p = Some g \<Longrightarrow> sstep cf s (s\<lparr>sv_fids := (sv_fids s)(p \<mapsto> g\<lparr>fi_qid := x, fi_dirindex := i\<rparr>)\<rparr>)"
| reply: "pending s r q \<Longrightarrow> answer r e s = Some s' \<Longrightarrow> sstep cf s s'"

inductive sreach :: "service \<Rightarrow> srv \<Rightarrow> bool" for cf where
  init: "sreach cf (srv_start msize fs)"
| step: "sreach cf s \<Longrightarrow> sstep cf s s' \<Longrightarrow> sreach cf s'"

lemma start_inv: "sinv (srv_start msize fs)"
proof -
  let ?s = "srv_start msize fs"
  have s: "sv_reqs ?s = Map.empty" "sv_fids ?s = Map.empty" "sv_rpool ?s = allocmap" "sv_fpool ?s = allocmap"
    "sv_destroyfid ?s = []"
    by (simp_all add: srv_start_def changemsize_def)
  note g = mget_allocmap
  let ?G = "\<lparr>gh_refs = \<lambda>_. 0, gh_wait = \<lambda>_. [], gh_busy = {}, gh_cur = {}\<rparr>"
  have "rinv ?s ?G" by (simp add: rinv_def rrefs_def wsum_def s g intmap_ok_allocmap)
  moreover have "finv ?s (\<lambda>_. 0)" by (simp add: finv_def fid_ok_def frefs_def wsum_def s g intmap_ok_allocmap)
  ultimately show ?thesis by (auto simp: sinv_def quiet_def)
qed

lemma fill_inv:
  assumes "sinv s" "pending s r q"
  shows "sinv (s\<lparr>sv_reqs := (sv_reqs s)(r \<mapsto> q\<lparr>rq_ofcall := f, rq_d := d\<rparr>)\<rparr>)"
proof -
  have h: "handling r q (\<lambda>_. 0) s" by (rule sinv_handling [OF assms])
  obtain G where G: "rinv s G" "quiet {} G" using assms(1) by (auto simp: sinv_def)
  have q: "sv_reqs s r = Some q" "\<not> rq_responded q" using assms(2) by (simp_all add: pending_def)
  have fs: "fids_set q" using rinv_req [OF G(1) q(1)] q(2) G(2) by (simp add: req_ok_def quiet_def)
  show ?thesis
    by (rule handling_done [OF handling_upd [OF h]]) (use fs in \<open>simp_all add: ctl_def slots_def\<close>)
qed

lemma fids_inv:
  assumes "sinv s" "sv_fids s p = Some g"
  shows "sinv (s\<lparr>sv_fids := (sv_fids s)(p \<mapsto> g\<lparr>fi_qid := x, fi_dirindex := i\<rparr>)\<rparr>)"
proof -
  obtain G where G: "rinv s G" "quiet {} G" and f: "finv s (\<lambda>_. 0)" using assms(1) by (auto simp: sinv_def)
  let ?s = "s\<lparr>sv_fids := (sv_fids s)(p \<mapsto> g\<lparr>fi_qid := x, fi_dirindex := i\<rparr>)\<rparr>"
  have "setf p (\<lambda>g. g\<lparr>fi_qid := x, fi_dirindex := i\<rparr>) s = Some ?s" using assms(2) by (simp add: setf_def)
  then have "finv ?s (\<lambda>_. 0)" by (rule finv_setf [OF f]) simp
  moreover have "rinv ?s G" by (rule rinv_cong [OF G(1)]) simp_all
  ultimately show ?thesis using G(2) by (auto simp: sinv_def)
qed

lemma sreach_inv:
  assumes "sreach cf s" "\<not> cf_tree cf"
  shows "sinv s"
  using assms(1)
proof induction
  case (step s s')
  from step.hyps(2) show ?case
  proof cases
    case (recv stream r rest s1)
    obtain f where "decoded f" "received s f r s1" using getreq_received [OF step.IH recv(1)] by blast
    then have "runs False (dispatch cf r s1) sinv" by (intro message_inv [OF step.IH]) (use assms(2) in auto)
    then show ?thesis using recv(2) by (simp add: runs_def)
  next
    case (reply r q e)
    then have "runs (can_reply s r e) (answer r e s) sinv" by (intro answer_inv sinv_handling [OF step.IH])
    then show ?thesis using reply(2) by (simp add: runs_def)
  qed (use step.IH fill_inv fids_inv in auto)
qed (rule start_inv)


subsection \<open>What holds in every state\<close>

text \<open>
  C3. The reference counts of fids are exact in every state a server without a file tree reaches,
  whatever its clients send and its service answers: a live fid's \<^verbatim>\<open>ref\<close> is the number of pool
  entries and request slots that name it and is positive, nothing names a fid that is not live,
  the pool maps each number to the fid with that number, and no fid is destroyed twice or used
  after it.
\<close>

theorem fid_counts:
  assumes "sreach cf s" "\<not> cf_tree cf"
  shows "(\<forall>p. case sv_fids s p of
        None \<Rightarrow> frefs s p = 0
      | Some f \<Rightarrow> fi_ref f = int (frefs s p) \<and> 0 < fi_ref f) \<and>
    (\<forall>k p. mget (sv_fpool s) k = Some p \<longrightarrow> (\<exists>f. sv_fids s p = Some f \<and> fi_fid f = k)) \<and>
    distinct (sv_destroyfid s) \<and> (\<forall>p \<in> set (sv_destroyfid s). sv_fids s p = None)"
proof -
  have f: "finv s (\<lambda>_. 0)" using sreach_inv [OF assms] by (simp add: sinv_def)
  have "case sv_fids s p of None \<Rightarrow> frefs s p = 0 | Some f \<Rightarrow> fi_ref f = int (frefs s p) \<and> 0 < fi_ref f" for p
  proof -
    have "fid_ok s (\<lambda>_. 0) p (sv_fids s p)" using f by (simp add: finv_def)
    then show ?thesis by (auto simp: fid_ok_def split: option.splits)
  qed
  then show ?thesis using f by (auto simp: finv_def)
qed

text \<open>
  C14. Requests and tags: in every state a server without a file tree reaches, the outstanding
  requests are exactly those in the pool, each under its own tag, so two of them never share a
  tag; each has at least as many references as the pool, the flushes naming it and its holder
  together; and a request waits in the flush list of another only as an unanswered flush that
  names it, at most once.
\<close>

theorem request_counts:
  assumes "sreach cf s" "\<not> cf_tree cf"
  shows "(\<forall>r q. sv_reqs s r = Some q \<longrightarrow>
        rq_responded q = (mget (sv_rpool s) (ucast (fc_tag (rq_ifcall q))) \<noteq> Some r) \<and>
        int (rrefs s r + of_bool (\<not> rq_responded q)) \<le> rq_ref q \<and> 0 < rq_ref q \<and>
        distinct (rq_flush q) \<and> (\<forall>f \<in> set (rq_flush q). waits s r f)) \<and>
    (\<forall>k r. mget (sv_rpool s) k = Some r \<longrightarrow>
        (\<exists>q. sv_reqs s r = Some q \<and> \<not> rq_responded q \<and> k = ucast (fc_tag (rq_ifcall q)))) \<and>
    (\<forall>r. sv_reqs s r = None \<longrightarrow> rrefs s r = 0)"
proof -
  obtain G where G: "rinv s G" "quiet {} G" using sreach_inv [OF assms] by (auto simp: sinv_def)
  have "rq_responded q = (mget (sv_rpool s) (ucast (fc_tag (rq_ifcall q))) \<noteq> Some r) \<and>
        int (rrefs s r + of_bool (\<not> rq_responded q)) \<le> rq_ref q \<and> 0 < rq_ref q \<and>
        distinct (rq_flush q) \<and> (\<forall>f \<in> set (rq_flush q). waits s r f)" if q: "sv_reqs s r = Some q" for r q
  proof -
    have ok: "req_ok s G r q" by (rule rinv_req [OF G(1) q])
    have "rq_flush q = gh_wait G r" using ok G(2) by (simp add: req_ok_def quiet_def)
    moreover have "rq_responded q = (mget (sv_rpool s) (ucast (fc_tag (rq_ifcall q))) \<noteq> Some r)"
      using ok q rinv_pool [OF G(1), of "ucast (fc_tag (rq_ifcall q))" r] by (auto simp: req_ok_def)
    ultimately show ?thesis using ok G by (simp add: req_ok_def quiet_def rinv_def)
  qed
  moreover have "rrefs s r = 0" if "sv_reqs s r = None" for r using rinv_dead [OF G(1) that] by simp
  ultimately show ?thesis using rinv_pool [OF G(1)] by blast
qed

subsection \<open>What never fails\<close>

text \<open>
  C2. A message that is polite to a server in a reachable state is handled to the end: no
  assertion of the handler or of the replies it causes fails, nothing is used that was freed, no
  reply is too long for its buffer, and the recursion of \<open>respond\<close> ends within \<open>depth\<close>.  The
  service has no file tree, has some way to walk, and its error strings are shorter than
  \<^verbatim>\<open>ERRMAX\<close>.
\<close>

theorem polite_handled:
  assumes "sreach cf s" "\<not> cf_tree cf" "service_ok cf"
    "getreq stream s = Some (Some r, rest, s1)" "sv_reqs s1 r = Some q" "polite s (rq_ifcall q)"
  shows "\<exists>s'. dispatch cf r s1 = Some s' \<and> sreach cf s'"
proof -
  have inv: "sinv s" by (rule sreach_inv [OF assms(1,2)])
  obtain f where f: "decoded f" "received s f r s1" using getreq_received [OF inv assms(4)] by blast
  have "rq_ifcall q = f" using received_ifcall [OF f(2)] assms(5) by simp
  then have "runs True (dispatch cf r s1) sinv"
    using assms(3,6) by (intro message_inv [OF inv f(2) assms(2) f(1)]) simp
  then obtain s' where "dispatch cf r s1 = Some s'" by (auto simp: runs_def split: option.splits)
  with assms(1,4) show ?thesis by (blast intro: sreach.step sstep.recv)
qed

text \<open>
  C27. Framing: the server reads from a stream that starts with an encoded client message exactly
  that message, if it fits the agreed size, and leaves the rest; a free tag gives a new request
  in the pool under that tag, a tag in use one outside of the pool that carries the error for a
  duplicate tag.
\<close>

theorem getreq_framed:
  assumes "sreach cf s" "\<not> cf_tree cf"
    "fcall_ok f" "no_nul f" "wire_size f \<le> unat (sv_msize s)" "wire_size f < 2 ^ 31"
  shows "\<exists>r s1 q. getreq (wire f @ rest) s = Some (Some r, rest, s1) \<and> sv_reqs s1 r = Some q \<and>
    rq_ifcall q = carry f zero_fcall \<and> \<not> rq_responded q \<and>
    (if mget (sv_rpool s) (ucast (fc_tag f)) = None
     then rq_pool q \<and> rq_error q = None \<and> mget (sv_rpool s1) = (mget (sv_rpool s))(ucast (fc_tag f) \<mapsto> r)
     else \<not> rq_pool q \<and> rq_error q = Some Eduptag \<and> mget (sv_rpool s1) = mget (sv_rpool s))"
proof -
  have inv: "sinv s" by (rule sreach_inv [OF assms(1,2)])
  let ?n = "wire_size f" let ?f = "carry f zero_fcall"
  have n: "7 \<le> ?n" by (simp add: wire_size_def)
  have hd: "take BIT32SZ (wire f @ rest) = le32 (of_nat ?n)" "drop BIT32SZ (wire f @ rest) = drop 4 (wire f) @ rest"
    by (simp_all add: wire_def)
  have un: "unat (of_nat ?n :: u32int) = ?n" using assms(6) by (simp add: unat_of_nat)
  have "sint (of_nat ?n :: u32int) = int ?n" using assms(6) by (simp add: signed_of_nat signed_take_bit_int_eq_self)
  then have rd: "read9pmsg (wire f @ rest) (unat (sv_msize s)) = (int ?n, wire f, rest)"
    using n assms(5) un by (simp add: read9pmsg_def hd Let_def) (simp add: wire_def wire_size_def)
  obtain b where cv: "convM2S (wire f) ?n zero_fcall = Some (b, Some (?n, ?f))"
    using convM2S_wire [OF assms(3,4), of ?n "[]"] by auto
  obtain r s1 where g: "getreq (wire f @ rest) s = Some (Some r, rest, s1)" and rec: "received s ?f r s1"
    using admit_received [OF inv, of ?f rest] n by (auto simp: getreq_def rd cv)
  have t: "fc_tag ?f = fc_tag f" by (simp add: carry_def Let_def)
  show ?thesis
  proof (cases "mget (sv_rpool s) (ucast (fc_tag f)) = None")
    case True
    then have "handling r ((new_req (fc_tag f))\<lparr>rq_ifcall := ?f\<rparr>) (\<lambda>_. 0) s1"
      "mget (sv_rpool s1) = (mget (sv_rpool s))(ucast (fc_tag f) \<mapsto> r)"
      using rec t by (auto simp: received_def tag_free_def)
    then show ?thesis using g True handling_req [of r _ _ s1] by (fastforce simp: new_req_def)
  next
    case False
    then show ?thesis using g rec t by (auto simp: received_def tag_free_def new_req_def Let_def)
  qed
qed


subsection \<open>Answers of the service\<close>

text \<open>The reply that a request has when it is answered without an error.\<close>

definition plain_reply :: "req \<Rightarrow> fcall" where
  "plain_reply q = (rq_ofcall q)\<lparr>fc_tag := fc_tag (rq_ifcall q), fc_type := fc_type (rq_ifcall q) + 1\<rparr>"

text \<open>
  The answers that a service may give: an error within the bound, but not to a flush; a reply that
  has a wire form and fits; a directory entry that fits; a walk within the bounds of its array.
  The fid that a failing request has put into the pool must still be there.
\<close>

definition answer_ok :: "srv \<Rightarrow> req \<Rightarrow> cstr \<Rightarrow> bool" where
  "answer_ok s q e \<longleftrightarrow> 256 \<le> unat (sv_msize s) \<and> (let t = fc_type (rq_ifcall q); o' = rq_ofcall q in
     case e of
       Some m \<Rightarrow> t \<in> set fid_types \<and> length m \<le> 240 \<and> droppable s (dropped q) \<and> (t = Twalk \<longrightarrow> fc_nwqid o' = 0)
     | None \<Rightarrow>
         if t = Tstat then wire_dirsize (rq_d q) < 65536 \<and> wire_dirsize (rq_d q) + 9 \<le> unat (sv_msize s)
         else if t = Twalk then unat (fc_nwqid o') \<le> MAXWELEM \<and> MAXWELEM \<le> length (fc_wqid o') \<and>
           (fc_nwqid o' < fc_nwname (rq_ifcall q) \<longrightarrow> droppable s (dropped q))
         else t \<in> set fid_types \<and> fcall_ok (plain_reply q) \<and> wire_size (plain_reply q) \<le> unat (sv_msize s))"

lemma answer_ok_can_reply:
  assumes inv: "sinv s" and p: "pending s r q" and t: "fc_type (rq_ifcall q) \<noteq> Tflush" and ok: "answer_ok s q e"
  shows "can_reply s r e"
proof -
  obtain G where G: "rinv s G" "quiet {} G" and f: "finv s (\<lambda>_. 0)" using inv by (auto simp: sinv_def)
  have q: "sv_reqs s r = Some q" "\<not> rq_responded q" using p by (simp_all add: pending_def)
  have fs: "fids_set q" using rinv_req [OF G(1) q(1)] q(2) G(2) by (simp add: req_ok_def quiet_def)
  have m: "256 \<le> unat (sv_msize s)" using ok by (simp add: answer_ok_def)
  show ?thesis
  proof (cases e)
    case (Some m)
    then show ?thesis using ok by (auto simp: answer_ok_def Let_def intro!: can_reply_error [OF f q(1)])
  next
    case None
    consider "fc_type (rq_ifcall q) = Tstat" | "fc_type (rq_ifcall q) = Twalk"
      | "fc_type (rq_ifcall q) \<noteq> Tstat" "fc_type (rq_ifcall q) \<noteq> Twalk" by blast
    then show ?thesis
    proof cases
      case 1
      then show ?thesis using ok None by (auto simp: answer_ok_def intro!: can_reply_stat [OF f q(1)])
    next
      case 2
      then show ?thesis using ok None fits_walk [of q s]
        by (auto simp: answer_ok_def Let_def intro!: can_reply_walk [OF f q(1) _ fs])
    next
      case 3
      then have w: "fcall_ok (plain_reply q)" "wire_size (plain_reply q) \<le> unat (sv_msize s)"
        using ok None by (simp_all add: answer_ok_def Let_def)
      have fit: "fits_ok s q" by (rule fits_okI [OF _ w]) (simp add: plain_reply_def)
      have "fc_type (rq_ifcall q) \<in> set fid_types" using 3 ok None by (simp add: answer_ok_def Let_def)
      then show ?thesis using can_reply_plain [OF f q(1) _ 3 fs fit] None by simp
    qed
  qed
qed


text \<open>
  C4. Answers go out in order and answer the flushes: when the service answers a request it
  holds, no assertion fails, its reply (the request's tag, its reply type or an error) is the
  first message written, everything after it is \<^verbatim>\<open>Rflush\<close>, and every flush that waited for the
  request gets its own.  The request is responded to or gone afterwards.
\<close>

theorem answer_sent:
  assumes "sreach cf s" "\<not> cf_tree cf" "pending s r q" "fc_type (rq_ifcall q) \<noteq> Tflush" "answer_ok s q e"
  shows "\<exists>s' msg ms. answer r e s = Some s' \<and> sv_out s' = sv_out s @ msg # ms \<and>
    encodes (fc_tag (rq_ifcall q)) (fc_type (rq_ifcall q)) msg \<and>
    (\<forall>m \<in> set ms. \<exists>t. m = rflush_msg t) \<and>
    (\<forall>f \<in> set (rq_flush q). \<forall>g. sv_reqs s f = Some g \<longrightarrow> rflush_msg (fc_tag (rq_ifcall g)) \<in> set ms) \<and>
    (\<forall>p. sv_reqs s' r = Some p \<longrightarrow> rq_responded p)"
proof -
  have inv: "sinv s" by (rule sreach_inv [OF assms(1,2)])
  obtain G where G: "rinv s G" "quiet {r} G" and f: "finv s (\<lambda>_. 0)"
    using sinv_handling [OF inv assms(3)] by (auto simp: handling_def)
  have q: "sv_reqs s r = Some q" "\<not> rq_responded q" using assms(3) by (simp_all add: pending_def)
  have w: "rq_flush q = gh_wait G r" using rinv_req [OF G(1) q(1)] G(2) by (simp add: req_ok_def quiet_def)
  have n: "sv_next s < Suc (2 * sv_next s + 2) + r" "depth s = Suc (Suc (2 * sv_next s + 2))"
    by (simp_all add: depth_def)
  obtain s' where s': "answer r e s = Some s'" "replied r s G (\<lambda>_. 0) s'" "own_reply q s s'"
    using respond_other [OF G(1) f q assms(4) n(1), of e] answer_ok_can_reply [OF inv assms(3-5)]
    unfolding answer_def n(2) by (auto simp: runs_def split: option.splits)
  obtain msg ms where m: "sv_out s' = sv_out s @ msg # ms" "encodes (fc_tag (rq_ifcall q)) (fc_type (rq_ifcall q)) msg"
    using s'(3) by (auto simp: own_reply_def)
  then have "flushed s (set (rq_flush q)) ms" using s'(2) w by (auto simp: replied_def)
  then show ?thesis using s'(1,2) m by (auto simp: flushed_def replied_def)
qed

text \<open>What answering a flush does while its handler runs.\<close>

lemma flush_answered:
  assumes "handling r q (\<lambda>_. 0) s" "fc_type (rq_ifcall q) = Tflush" "7 \<le> unat (sv_msize s)"
  shows "\<exists>s'. answer r None s = Some s' \<and> same_tags s s' \<and>
    (if delayed s q then sv_out s' = sv_out s \<and>
       (\<forall>old. rq_oldreq q = Some old \<longrightarrow> (\<exists>p. sv_reqs s' old = Some p \<and> \<not> rq_responded p \<and> r \<in> set (rq_flush p)))
     else \<exists>ms. sv_out s' = sv_out s @ rflush_msg (fc_tag (rq_ifcall q)) # ms)"
proof -
  obtain G where G: "rinv s G" "quiet {r} G" and f: "finv s (\<lambda>_. 0)" and p: "pending s r q"
    using assms(1) by (auto simp: handling_def)
  have q: "sv_reqs s r = Some q" "\<not> rq_responded q" using p by (simp_all add: pending_def)
  have busy: "gh_busy G = {}" using G(2) by (simp add: quiet_def)
  have n: "sv_next s < Suc (2 * sv_next s + 1) + r" "depth s = Suc (Suc (Suc (2 * sv_next s + 1)))"
    by (simp_all add: depth_def)
  have "runs (7 \<le> unat (sv_msize s)) (answer r None s) (flush_done r q s G (\<lambda>_. 0))"
    unfolding answer_def n(2)
    by (rule respond_flush [OF G(1) f busy q assms(2) pending_not_waiting [OF G(1) busy p] n(1)])
  then show ?thesis using assms(3) by (auto simp: runs_def flush_done_def split: option.splits if_splits)
qed

text \<open>
  When a service that keeps flushes answers one, at any later time: it waits if the old request is
  still unanswered, and otherwise the \<^verbatim>\<open>Rflush\<close> is written at once.
\<close>

lemma flush_answer:
  assumes "sreach cf s" "\<not> cf_tree cf" "pending s r q" "fc_type (rq_ifcall q) = Tflush" "7 \<le> unat (sv_msize s)"
  shows "\<exists>s'. answer r None s = Some s' \<and>
    (if delayed s q then sv_out s' = sv_out s \<and>
       (\<forall>old. rq_oldreq q = Some old \<longrightarrow> (\<exists>p. sv_reqs s' old = Some p \<and> \<not> rq_responded p \<and> r \<in> set (rq_flush p)))
     else \<exists>ms. sv_out s' = sv_out s @ rflush_msg (fc_tag (rq_ifcall q)) # ms)"
  using flush_answered [OF sinv_handling [OF sreach_inv [OF assms(1,2)] assms(3)] assms(4,5)] by blast

text \<open>The two ways through \<open>sflush\<close>: no request has the old tag, or one has it.\<close>

lemma sflush_none:
  assumes h: "handling r q (\<lambda>_. 0) s" and t: "rq_oldreq q = None"
    and none: "mget (sv_rpool s) (ucast (fc_oldtag (rq_ifcall q))) = None"
  shows "sflush cf r s = answer r None s"
proof -
  have l: "lookupreq (fc_oldtag (rq_ifcall q)) s = Some (None, s)" using none by (simp add: lookupreq_def lookupkey_spec)
  have "q\<lparr>rq_oldreq := None\<rparr> = q" using t by simp
  then have "setr r (\<lambda>q. q\<lparr>rq_oldreq := None\<rparr>) s = Some s"
    unfolding setr_handling [OF h] using handling_req [OF h] by (cases s) (simp add: fun_upd_idem)
  then show ?thesis by (simp add: sflush_def handling_req [OF h] l)
qed

lemma sflush_some:
  assumes h: "handling r q (\<lambda>_. 0) s" and ty: "fc_type (rq_ifcall q) = Tflush" and t: "rq_oldreq q = None"
    and new: "\<And>x. sv_reqs s x \<noteq> None \<Longrightarrow> x \<le> r"
    and old: "mget (sv_rpool s) (ucast (fc_oldtag (rq_ifcall q))) = Some old"
  shows "\<exists>q' s2 p. handling r q' (\<lambda>_. 0) s2 \<and> rq_ifcall q' = rq_ifcall q \<and> rq_oldreq q' = Some old \<and> sv_out s2 = sv_out s \<and>
    sv_msize s2 = sv_msize s \<and> sv_reqs s2 old = Some p \<and> \<not> rq_responded p \<and> fc_tag (rq_ifcall p) = fc_oldtag (rq_ifcall q) \<and>
    sflush cf r s = (if cf_flush cf \<and> old \<noteq> r then Some s2 else answer r None s2)"
proof -
  obtain G where G: "rinv s G" using h by (auto simp: handling_def)
  obtain oq where oq: "sv_reqs s old = Some oq" "\<not> rq_responded oq"
      and tag: "(ucast (fc_oldtag (rq_ifcall q)) :: u32int) = ucast (fc_tag (rq_ifcall oq))"
    using rinv_pool [OF G old] by blast
  have "bit (fc_tag (rq_ifcall oq)) n = bit (fc_oldtag (rq_ifcall q)) n" if "n < 16" for n
    using arg_cong [OF tag, of "\<lambda>w. bit w n"] that by (simp add: bit_unsigned_iff)
  then have "fc_tag (rq_ifcall oq) = fc_oldtag (rq_ifcall q)" by (intro bit_word_eqI) simp
  note oq = oq this
  let ?s1 = "s\<lparr>sv_reqs := (sv_reqs s)(old \<mapsto> oq\<lparr>rq_ref := rq_ref oq + 1\<rparr>)\<rparr>"
  have l: "lookupreq (fc_oldtag (rq_ifcall q)) s = Some (Some old, ?s1)"
    using old oq(1) by (simp add: lookupreq_def lookupkey_spec increqref_def setr_def)
  obtain q' where q': "handling r q' (\<lambda>_. 0) (s\<lparr>sv_reqs := (sv_reqs s)(old \<mapsto> oq\<lparr>rq_ref := rq_ref oq + 1\<rparr>, r \<mapsto> q')\<rparr>)"
      "rq_ifcall q' = rq_ifcall q" "q' = (if old = r then q\<lparr>rq_ref := rq_ref q + 1\<rparr> else q)\<lparr>rq_oldreq := Some old\<rparr>"
    using flush_target [OF h ty t new old oq(1)] by blast
  let ?s2 = "s\<lparr>sv_reqs := (sv_reqs s)(old \<mapsto> oq\<lparr>rq_ref := rq_ref oq + 1\<rparr>, r \<mapsto> q')\<rparr>"
  have s2: "setr r (\<lambda>q. q\<lparr>rq_oldreq := Some old\<rparr>) ?s1 = Some ?s2"
    using oq(1) handling_req [OF h] by (auto simp: setr_def q'(3))
  have "sflush cf r s = (if cf_flush cf \<and> old \<noteq> r then Some ?s2 else answer r None ?s2)"
    using s2 by (simp add: sflush_def handling_req [OF h] l hand_over_def)
  moreover have "rq_oldreq q' = Some old" by (simp add: q'(3))
  moreover obtain p where "sv_reqs ?s2 old = Some p" "\<not> rq_responded p" "fc_tag (rq_ifcall p) = fc_oldtag (rq_ifcall q)"
    using oq handling_req [OF h] q'(2,3) by (cases "old = r") auto
  moreover have "sv_out ?s2 = sv_out s" "sv_msize ?s2 = sv_msize s" by simp_all
  ultimately show ?thesis using q'(1,2) by blast
qed

text \<open>
  C13. A flush never overtakes the request it names.  When a flush message with a new tag is handled, the server looks for an
  unanswered request with the message's \<^verbatim>\<open>oldtag\<close>.  If there is none the \<^verbatim>\<open>Rflush\<close> is written at once.
  If there is one, nothing is written, and that request stays unanswered: without a flush callback (and
  when the flush names its own tag) the flush joins the list of flushes to be answered with it; with
  a callback the flush is in the hands of the service with the request noted in it, and if the service
  answers it then, it joins that list and still nothing is written.
\<close>

theorem flush_waits:
  assumes "sreach cf s" "\<not> cf_tree cf" "7 \<le> unat (sv_msize s)"
    "getreq stream s = Some (Some r, rest, s1)" "sv_reqs s1 r = Some q" "fc_type (rq_ifcall q) = Tflush"
    "mget (sv_rpool s) (ucast (fc_tag (rq_ifcall q))) = None"
  shows "\<exists>s'. dispatch cf r s1 = Some s' \<and>
    (case mget (sv_rpool s1) (ucast (fc_oldtag (rq_ifcall q))) of
       None \<Rightarrow> \<exists>ms. sv_out s' = sv_out s @ rflush_msg (fc_tag (rq_ifcall q)) # ms
     | Some old \<Rightarrow> sv_out s' = sv_out s \<and>
        (\<exists>p. sv_reqs s' old = Some p \<and> \<not> rq_responded p \<and> fc_tag (rq_ifcall p) = fc_oldtag (rq_ifcall q) \<and>
          (if cf_flush cf \<and> old \<noteq> r then
             \<exists>q' s2 p2. pending s' r q' \<and> rq_ifcall q' = rq_ifcall q \<and> rq_oldreq q' = Some old \<and>
               answer r None s' = Some s2 \<and> sv_out s2 = sv_out s \<and>
               sv_reqs s2 old = Some p2 \<and> \<not> rq_responded p2 \<and> r \<in> set (rq_flush p2)
           else r \<in> set (rq_flush p))))"
proof -
  obtain f where f: "received s f r s1" using getreq_received [OF sreach_inv [OF assms(1,2)] assms(4)] by blast
  have qf: "rq_ifcall q = f" using received_ifcall [OF f] assms(5) by simp
  then have "tag_free s (fc_tag f)" using assms(7) by (simp add: tag_free_def)
  then have h: "handling r ((new_req (fc_tag f))\<lparr>rq_ifcall := f\<rparr>) (\<lambda>_. 0) s1"
    and out: "sv_out s1 = sv_out s" "sv_msize s1 = sv_msize s" and new: "\<And>x. sv_reqs s1 x \<noteq> None \<Longrightarrow> x \<le> r"
    using f by (auto simp: received_def Let_def)
  have q: "q = (new_req (fc_tag f))\<lparr>rq_ifcall := f\<rparr>" using handling_req [OF h] assms(5) by simp
  then have q0: "rq_oldreq q = None" "rq_error q = None" by (simp_all add: new_req_def)
  note h = h [folded q]
  have dis: "dispatch cf r s1 = sflush cf r s1"
    using assms(5,6) q0(2) by (simp add: dispatch_def Let_def)
  show ?thesis
  proof (cases "mget (sv_rpool s1) (ucast (fc_oldtag (rq_ifcall q)))")
    case None
    have "\<not> delayed s1 q" using q0(1) by (simp add: delayed_def)
    then show ?thesis
      using flush_answered [OF h assms(6)] sflush_none [OF h q0(1) None, of cf] assms(3) out None dis by auto
  next
    case (Some old)
    obtain q' s2 p where s2: "handling r q' (\<lambda>_. 0) s2" "rq_ifcall q' = rq_ifcall q" "rq_oldreq q' = Some old"
      "sv_out s2 = sv_out s1" "sv_msize s2 = sv_msize s1" "sv_reqs s2 old = Some p" "\<not> rq_responded p"
      "fc_tag (rq_ifcall p) = fc_oldtag (rq_ifcall q)"
      "sflush cf r s1 = (if cf_flush cf \<and> old \<noteq> r then Some s2 else answer r None s2)"
      using sflush_some [OF h assms(6) q0(1) new Some] by blast
    have "fc_type (rq_ifcall q') = Tflush" "7 \<le> unat (sv_msize s2)" using s2(2,5) out assms(3,6) by simp_all
    from flush_answered [OF s2(1) this] obtain s3 where s3: "answer r None s2 = Some s3" "same_tags s2 s3"
      "if delayed s2 q' then sv_out s3 = sv_out s2 \<and>
         (\<forall>old. rq_oldreq q' = Some old \<longrightarrow> (\<exists>p. sv_reqs s3 old = Some p \<and> \<not> rq_responded p \<and> r \<in> set (rq_flush p)))
       else \<exists>ms. sv_out s3 = sv_out s2 @ rflush_msg (fc_tag (rq_ifcall q')) # ms" by blast
    have "delayed s2 q'" using s2(3,6,7) by (simp add: delayed_def)
    then obtain p3 where p3: "sv_out s3 = sv_out s2" "sv_reqs s3 old = Some p3" "\<not> rq_responded p3" "r \<in> set (rq_flush p3)"
      using s3(3) s2(3) by auto
    have tag: "fc_tag (rq_ifcall p3) = fc_oldtag (rq_ifcall q)" using s3(2) p3(2) s2(6,8) by (fastforce simp: same_tags_def)
    have pend: "pending s2 r q'" using s2(1) by (simp add: handling_def)
    show ?thesis
    proof (cases "cf_flush cf \<and> old \<noteq> r")
      case True
      then show ?thesis unfolding Some dis s2(9) using s2 s3(1) p3 pend out by simp blast
    next
      case False
      then show ?thesis unfolding Some dis s2(9) using s2 s3(1) p3 tag out by auto
    qed
  qed
qed

end
