(* ===== verification/SrvRead.thy ===== *)
theory SrvRead
  imports Srv9p ConvDir
begin

text \<open>
  What a read callback returns with the helpers of the 9P server library: \<open>dirread9p\<close> packs whole
  directory entries, \<open>readbuf\<close> and \<open>readstr\<close> copy a window of a buffer.
\<close>

subsection \<open>Directory reads\<close>

declare dirread_loop.simps [simp del]

text \<open>The entries with the numbers from \<open>i\<close> to \<open>k\<close>, as bytes.\<close>

definition packed :: "(nat \<Rightarrow> Dir option) \<Rightarrow> nat \<Rightarrow> nat \<Rightarrow> mem" where
  "packed gen i k = concat (map (\<lambda>j. case gen j of None \<Rightarrow> [] | Some d \<Rightarrow> wire_dir d) [i..<k])"

lemma packed_self [simp]: "packed gen i i = []"
  by (simp add: packed_def)

lemma packed_first: "i < k \<Longrightarrow> gen i = Some d \<Longrightarrow> packed gen i k = wire_dir d @ packed gen (Suc i) k"
  by (simp add: packed_def upt_conv_Cons)

text \<open>Why the loop stops: the room is used up, there are no more entries, or the next is too long.\<close>

definition stops :: "(nat \<Rightarrow> Dir option) \<Rightarrow> nat \<Rightarrow> nat \<Rightarrow> bool" where
  "stops gen k room \<longleftrightarrow> room = 0 \<or> (case gen k of None \<Rightarrow> True | Some d \<Rightarrow> room < wire_dirsize d)"

lemma drop_img_far: "length bs \<le> k \<Longrightarrow> drop k (img bs b) = drop k b"
  by (simp add: img_def)

lemma dirread_loop_spec:
  assumes "\<And>i d. gen i = Some d \<Longrightarrow> dir_ok d" "m \<le> n" "n \<le> length buf"
  shows "\<exists>k buf'. start \<le> k \<and> (\<forall>i \<in> {start..<k}. gen i \<noteq> None) \<and>
    dirread_loop gen start buf m n = Some (k, buf', m + length (packed gen start k)) \<and>
    m + length (packed gen start k) \<le> n \<and> length buf' = length buf \<and> drop n buf' = drop n buf \<and>
    take (m + length (packed gen start k)) buf' = take m buf @ packed gen start k \<and>
    stops gen k (n - (m + length (packed gen start k)))"
  using assms
proof (induction gen start buf m n rule: dirread_loop.induct)
  case (1 gen start buf m n)
  have stop: "?case" if "dirread_loop gen start buf m n = Some (start, buf', m)" "length buf' = length buf"
      "drop n buf' = drop n buf" "take m buf' = take m buf" "stops gen start (n - m)" for buf'
    using that 1(3) by (intro exI [of _ start] exI [of _ buf']) simp
  show ?case
  proof (cases "m < n")
    case False
    then show ?thesis using 1(3) by (intro stop [of buf]) (simp_all add: dirread_loop.simps stops_def)
  next
    case True
    show ?thesis
    proof (cases "gen start")
      case None
      then show ?thesis using True by (intro stop [of buf]) (simp_all add: dirread_loop.simps [of gen start] stops_def)
    next
      case (Some d)
      have ok: "dir_ok d" by (rule 1(2) [OF Some])
      let ?n = "wire_dirsize d" let ?b = "drop m buf"
      have len: "length ?b = length buf - m" "m < length buf" using True 1(4) by simp_all
      have n49: "49 \<le> ?n" by (simp add: wire_dirsize_def)
      consider "n - m = 1" | "2 \<le> n - m" "n - m < ?n" | "?n \<le> n - m" using True n49 by linarith
      then show ?thesis
      proof cases
        case 1
        have "convD2M d ?b (n - m) = Some (0, ?b)" using 1 by (simp add: convD2M_def)
        then have "dirread_loop gen start buf m n = Some (start, buf, m)"
          using True Some by (simp add: dirread_loop.simps [of gen start])
        then show ?thesis using 1 n49 Some by (intro stop [of buf]) (simp_all add: stops_def)
      next
        case 2
        let ?c = "img (le16 (of_nat (?n - 2))) ?b"
        have l: "length ?c = length ?b" using 2 len 1(4) by (intro length_img) simp
        have "convD2M d ?b (n - m) = Some (2, ?c)"
          using convD2M_wire [OF ok, of "n - m" ?b] 2 1(4) by simp
        then have "dirread_loop gen start buf m n = Some (start, take m buf @ ?c, m)"
          using True Some by (simp add: dirread_loop.simps [of gen start])
        moreover have "drop n (take m buf @ ?c) = drop n buf"
        proof -
          have "Suc (Suc (n - 2)) = n" using 2 by simp
          then show ?thesis using 2 1(4) by (simp add: img_def)
        qed
        ultimately show ?thesis using 2 n49 Some l len by (intro stop [of "take m buf @ ?c"]) (simp_all add: stops_def)
      next
        case 3
        let ?c = "take m buf @ img (wire_dir d) ?b"
        have w: "length (wire_dir d) = ?n" by simp
        have conv: "convD2M d ?b (n - m) = Some (?n, img (wire_dir d) ?b)"
          using convD2M_wire [OF ok, of "n - m" ?b] 3 1(4) n49 by simp
        have lc: "length ?c = length buf" using 3 1(4) len w by (simp add: img_def)
        have dr: "drop n ?c = drop n buf"
        proof -
          have "length (take m buf) = m" using len by simp
          then have "drop n ?c = drop (n - m) (img (wire_dir d) ?b)" using True by (simp only: drop_append) simp
          also have "\<dots> = drop (n - m) ?b"
            by (rule drop_img_far) (use 3 w in simp)
          finally show ?thesis using True by simp
        qed
        have tk: "take (m + ?n) ?c = take m buf @ wire_dir d" using len w by (simp add: img_def)
        have step: "dirread_loop gen start buf m n = dirread_loop gen (start + 1) ?c (m + ?n) n"
          using True Some conv n49 by (simp add: dirread_loop.simps [of gen start buf])
        have "\<not> ?n \<le> BIT16SZ" using n49 by simp
        note IH = 1(1) [OF True Some conv refl this]
        have "m + ?n \<le> n" "n \<le> length ?c" using 3 True 1(4) lc by simp_all
        from IH [OF _ this] 1(2) obtain k buf' where k: "start + 1 \<le> k" "\<forall>i \<in> {start + 1..<k}. gen i \<noteq> None"
          and run: "dirread_loop gen (start + 1) ?c (m + ?n) n =
             Some (k, buf', m + ?n + length (packed gen (start + 1) k))"
          and r: "m + ?n + length (packed gen (start + 1) k) \<le> n" "length buf' = length ?c" "drop n buf' = drop n ?c"
             "take (m + ?n + length (packed gen (start + 1) k)) buf' = take (m + ?n) ?c @ packed gen (start + 1) k"
             "stops gen k (n - (m + ?n + length (packed gen (start + 1) k)))"
          by blast
        have pk: "packed gen start k = wire_dir d @ packed gen (start + 1) k"
          using packed_first [of start k gen d] k(1) Some by simp
        have "gen i \<noteq> None" if "i \<in> {start..<k}" for i using k that Some by (cases "i = start") auto
        then show ?thesis
          using k(1) run r step lc dr tk by (intro exI [of _ k] exI [of _ buf']) (simp add: pk add.assoc)
      qed
    qed
  qed
qed


text \<open>
  C26. A directory read ends and returns whole entries: \<open>dirread9p\<close> with any generator of entries
  starts at entry 0 for a read at offset 0 and where the last read stopped otherwise, fills the
  buffer with the bytes of the entries from there up to some entry \<open>k\<close>, one after the other and
  within the count asked for, sets the reply's count to their length and remembers \<open>k\<close>; it stops
  only because the room is used up, the generator has no entry \<open>k\<close>, or entry \<open>k\<close> does not fit.
\<close>

theorem dirread9p_spec:
  assumes "\<And>i d. gen i = Some d \<Longrightarrow> dir_ok d"
    "sv_reqs s r = Some q" "rq_fid q = Some p" "sv_fids s p = Some f"
    "n = unat (fc_count (rq_ifcall q))" "n \<le> length (fc_data (rq_ofcall q))"
    "start = (if fc_offset (rq_ifcall q) = 0 then 0 else unat (fi_dirindex f))"
  shows "\<exists>k buf. let w = packed gen start k in
    dirread9p gen r s = Some (s\<lparr>sv_fids := (sv_fids s)(p \<mapsto> f\<lparr>fi_dirindex := of_nat k\<rparr>),
      sv_reqs := (sv_reqs s)(r \<mapsto> q\<lparr>rq_ofcall := (rq_ofcall q)\<lparr>fc_count := of_nat (length w), fc_data := buf\<rparr>\<rparr>)\<rparr>) \<and>
    start \<le> k \<and> (\<forall>i \<in> {start..<k}. gen i \<noteq> None) \<and> take (length w) buf = w \<and> length w \<le> n \<and>
    length buf = length (fc_data (rq_ofcall q)) \<and> drop n buf = drop n (fc_data (rq_ofcall q)) \<and>
    stops gen k (n - length w)"
proof -
  obtain k buf where k: "start \<le> k" "\<forall>i \<in> {start..<k}. gen i \<noteq> None"
    and run: "dirread_loop gen start (fc_data (rq_ofcall q)) 0 n = Some (k, buf, length (packed gen start k))"
    and r: "length (packed gen start k) \<le> n" "length buf = length (fc_data (rq_ofcall q))"
      "drop n buf = drop n (fc_data (rq_ofcall q))"
      "take (length (packed gen start k)) buf = packed gen start k" "stops gen k (n - length (packed gen start k))"
    using dirread_loop_spec [of gen 0 n "fc_data (rq_ofcall q)" start] assms(1,6) by auto
  have "dirread9p gen r s = Some (s\<lparr>sv_fids := (sv_fids s)(p \<mapsto> f\<lparr>fi_dirindex := of_nat k\<rparr>),
      sv_reqs := (sv_reqs s)(r \<mapsto> q\<lparr>rq_ofcall := (rq_ofcall q)\<lparr>fc_count := of_nat (length (packed gen start k)),
        fc_data := buf\<rparr>\<rparr>)\<rparr>)"
    using assms(2-5,7) run by (simp add: dirread9p_def setf_def setr_def)
  then show ?thesis using k r by (intro exI [of _ k] exI [of _ buf]) (simp add: Let_def)
qed

definition example_gen :: "nat \<Rightarrow> Dir option" where
  "example_gen i = (if i < 2 then Some (example_dir\<lparr>d_length := of_nat i\<rparr>) else None)"

definition example_read :: req where
  "example_read = (new_req 1)\<lparr>rq_fid := Some 0, rq_ifcall := zero_fcall\<lparr>fc_type := Tread, fc_count := 100\<rparr>,
     rq_ofcall := zero_fcall\<lparr>fc_data := replicate 100 0\<rparr>\<rparr>"

definition example_srv :: srv where
  "example_srv = (srv_start 8192 (alloctree 0 [103] None 511))
     \<lparr>sv_fids := [0 \<mapsto> new_fid 5], sv_reqs := [0 \<mapsto> example_read]\<rparr>"

theorem dirread9p_spec_witness:
  "\<exists>k s'. dirread9p example_gen 0 example_srv = Some s' \<and> stops example_gen k (100 - length (packed example_gen 0 k))"
proof -
  have "dir_ok d" if "example_gen i = Some d" for i d
    using that by (auto simp: example_gen_def dir_ok_def wire_dirsize_def dir_sv_def example_dir_def split: if_splits)
  moreover have "sv_reqs example_srv 0 = Some example_read" "sv_fids example_srv 0 = Some (new_fid 5)"
    by (simp_all add: example_srv_def)
  moreover have "rq_fid example_read = Some 0" "100 = unat (fc_count (rq_ifcall example_read))"
    "100 \<le> length (fc_data (rq_ofcall example_read))"
    by (simp_all add: example_read_def new_req_def zero_fcall_def)
  moreover have "0 = (if fc_offset (rq_ifcall example_read) = 0 then 0 else unat (fi_dirindex (new_fid 5)))"
    by (simp add: example_read_def zero_fcall_def)
  ultimately show ?thesis
    using dirread9p_spec [of example_gen example_srv 0 example_read 0 "new_fid 5" 100 0] unfolding Let_def by blast
qed

subsection \<open>Reads of a buffer\<close>

text \<open>
  \<open>readbuf\<close> returns a window: the reply's data starts with the bytes of \<open>s\<close>, of which there
  are \<open>n\<close>, from the request's offset on, as many as there are and were asked for, and its count is
  their number; past the end the count is 0.  The rest of the reply's buffer is left alone.
\<close>

theorem readbuf_spec:
  assumes "n \<le> length s" "n < 2 ^ 31" "unat (fc_count (rq_ifcall q)) \<le> length (fc_data (rq_ofcall q))"
  shows "readbuf q s n =
    (let w = take (unat (fc_count (rq_ifcall q))) (drop (unat (fc_offset (rq_ifcall q))) (take n s)) in
     Some (q\<lparr>rq_ofcall := (rq_ofcall q)\<lparr>fc_count := of_nat (length w),
       fc_data := w @ drop (length w) (fc_data (rq_ofcall q))\<rparr>\<rparr>))"
proof -
  let ?off = "unat (fc_offset (rq_ifcall q))" let ?c = "unat (fc_count (rq_ifcall q))"
  let ?w = "take ?c (drop ?off (take n s))"
  show ?thesis
  proof (cases "n \<le> ?off")
    case True
    then have "?w = []" by simp
    then show ?thesis using True by (simp add: readbuf_def Let_def)
  next
    case False
    define m where "m = min ?c (n - ?off)"
    have l: "length ?w = m" "?off + m \<le> length s" "m \<le> length (fc_data (rq_ofcall q))"
      using False assms(1,3) by (auto simp: m_def)
    have "m + ?off = min n (?c + ?off)" using False by (auto simp: m_def)
    then have w: "take m (drop ?off s) = ?w" by (simp add: take_drop min.commute)
    have c: "(if n < ?off + ?c then of_nat (n - ?off) else fc_count (rq_ifcall q)) = (of_nat m :: u32int)"
      using False by (auto simp: m_def of_nat_diff)
    have "unat (of_nat m :: u32int) = m" using assms(2) by (simp add: m_def unat_of_nat)
    then show ?thesis
      using False l unfolding readbuf_def Let_def c memget_def memput_def
      by (simp add: w l del: length_take length_drop)
  qed
qed

theorem readbuf_spec_witness:
  "\<exists>q'. readbuf (example_read\<lparr>rq_ifcall := zero_fcall\<lparr>fc_count := 4, fc_offset := 1\<rparr>\<rparr>) [1, 2, 3] 3 = Some q' \<and>
     fc_count (rq_ofcall q') = 2 \<and> take 3 (fc_data (rq_ofcall q')) = [2, 3, 0]"
  using readbuf_spec [of 3 "[1, 2, 3]" "example_read\<lparr>rq_ifcall := zero_fcall\<lparr>fc_count := 4, fc_offset := 1\<rparr>\<rparr>"]
  by (simp add: example_read_def new_req_def zero_fcall_def)

end
