(* ===== verification/SrvExamples.thy ===== *)
theory SrvExamples
  imports SrvRun SrvRead
begin

text \<open>
  A small run of the 9P server: a client attaches, the service takes the request over, and the
  client flushes it before it is answered.  The theorems about reachable states apply to it.
\<close>

definition example_service :: service where
  "example_service = \<lparr>cf_tree = False, cf_auth = False, cf_attach = True, cf_open = True, cf_create = False,
     cf_read = True, cf_write = True, cf_remove = False, cf_flush = True, cf_stat = False, cf_wstat = False,
     cf_walk = True, cf_walk1 = None, cf_clone = None, cf_argv0 = []\<rparr>"

definition example_attach :: fcall where
  "example_attach = zero_fcall\<lparr>fc_type := 104, fc_tag := 1, fc_fid := 5, fc_afid := NOFID, fc_uname := Some [103],
     fc_aname := Some []\<rparr>"

definition example_flush :: fcall where
  "example_flush = zero_fcall\<lparr>fc_type := 108, fc_tag := 2, fc_oldtag := 1\<rparr>"

definition example_start :: srv where
  "example_start = srv_start 256 (alloctree 0 [103] None 511)"

text \<open>Attach alone, and attach and flush.\<close>

definition example_attached :: srv where
  "example_attached = the (srv_loop 1 example_service (wire example_attach) example_start)"

definition example_flushed :: srv where
  "example_flushed = the (srv_loop 2 example_service (wire example_attach @ wire example_flush) example_start)"

lemma srv_loop_reach: "srv_loop k cf stream s = Some s' \<Longrightarrow> sreach cf s \<Longrightarrow> sreach cf s'"
proof (induction k arbitrary: stream s)
  case (Suc k)
  then obtain ro rest s1 where g: "getreq stream s = Some (ro, rest, s1)" by (auto simp: bind_eq_Some_conv)
  show ?case
  proof (cases ro)
    case None
    then have "s' = s1" using Suc.prems(1) g by simp
    moreover have "s1 = s" using g None
      by (auto simp: getreq_def Let_def bind_eq_Some_conv split: prod.splits option.splits if_splits)
    ultimately show ?thesis using Suc.prems(2) by simp
  next
    case (Some r)
    then obtain s2 where d: "dispatch cf r s1 = Some s2" "srv_loop k cf rest s2 = Some s'"
      using Suc.prems(1) g by (auto simp: bind_eq_Some_conv)
    have "sstep cf s s2" by (rule sstep.recv [OF g [unfolded Some] d(1)])
    then show ?thesis using Suc.IH [OF d(2)] Suc.prems(2) by (blast intro: sreach.step)
  qed
qed simp

lemma example_not_tree: "\<not> cf_tree example_service"
  by (simp add: example_service_def)

lemma example_reach: "sreach example_service example_start" "sreach example_service example_attached"
  "sreach example_service example_flushed"
proof -
  show s: "sreach example_service example_start" unfolding example_start_def by (rule sreach.init)
  have "\<not> Option.is_none (srv_loop 1 example_service (wire example_attach) example_start)"
    "\<not> Option.is_none (srv_loop 2 example_service (wire example_attach @ wire example_flush) example_start)"
    by code_simp+
  then obtain a b where "srv_loop 1 example_service (wire example_attach) example_start = Some a"
    "srv_loop 2 example_service (wire example_attach @ wire example_flush) example_start = Some b"
    unfolding Option.is_none_def by blast
  note ab = this this [THEN srv_loop_reach, OF s]
  show "sreach example_service example_attached" using ab(1,3) by (simp only: example_attached_def option.sel)
  show "sreach example_service example_flushed" using ab(2,4) by (simp only: example_flushed_def option.sel)
qed

lemma droppable_code [code]:
  "droppable s v = (case v of None \<Rightarrow> True | Some p \<Rightarrow>
     (case sv_fids s p of None \<Rightarrow> True | Some f \<Rightarrow> \<not> Option.is_none (mget (sv_fpool s) (fi_fid f))))"
  by (auto simp: droppable_def Option.is_none_def split: option.splits)

text \<open>Whether the service holds a request, by looking through the live ones.\<close>

definition in_hand :: "srv \<Rightarrow> reqp \<Rightarrow> bool" where
  "in_hand s r \<longleftrightarrow> (case sv_reqs s r of None \<Rightarrow> False | Some q \<Rightarrow> \<not> rq_responded q) \<and>
     list_all (\<lambda>x. case sv_reqs s x of None \<Rightarrow> True | Some p \<Rightarrow> r \<notin> set (rq_flush p)) [0..<sv_next s]"

lemma in_hand_pending:
  assumes "sreach cf s" "\<not> cf_tree cf" "in_hand s r"
  shows "pending s r (the (sv_reqs s r))"
proof -
  obtain G where G: "rinv s G" using sreach_inv [OF assms(1,2)] by (auto simp: sinv_def)
  have "r \<notin> set (rq_flush p)" if "sv_reqs s x = Some p" for x p
    using assms(3) that rinv_bound [OF G that] by (fastforce simp: in_hand_def list_all_iff split: option.splits)
  then show ?thesis using assms(3) by (auto simp: in_hand_def pending_def split: option.splits)
qed

theorem fid_counts_witness:
  "\<exists>f. sv_fids example_attached 1 = Some f \<and> fi_ref f = int (frefs example_attached 1)"
proof -
  have "\<not> Option.is_none (sv_fids example_attached 1)" by code_simp
  then obtain f where "sv_fids example_attached 1 = Some f" unfolding Option.is_none_def by blast
  moreover have "case sv_fids example_attached 1 of None \<Rightarrow> frefs example_attached 1 = 0
      | Some f \<Rightarrow> fi_ref f = int (frefs example_attached 1) \<and> 0 < fi_ref f"
    using fid_counts [OF example_reach(2) example_not_tree] by (rule conjE) (erule spec)
  ultimately show ?thesis by simp
qed

theorem request_counts_witness:
  "\<exists>q. sv_reqs example_flushed 2 = Some q \<and> mget (sv_rpool example_flushed) (ucast (fc_tag (rq_ifcall q))) = Some 2 \<and>
     int (rrefs example_flushed 2 + 1) \<le> rq_ref q"
proof -
  have "case sv_reqs example_flushed 2 of None \<Rightarrow> False | Some q \<Rightarrow> \<not> rq_responded q" by code_simp
  then obtain q where q: "sv_reqs example_flushed 2 = Some q" "\<not> rq_responded q" by (auto split: option.splits)
  with request_counts [OF example_reach(3) example_not_tree] have "mget (sv_rpool example_flushed) (ucast (fc_tag (rq_ifcall q))) = Some 2"
    "int (rrefs example_flushed 2 + of_bool (\<not> rq_responded q)) \<le> rq_ref q" by blast+
  with q show ?thesis by auto
qed

theorem polite_handled_witness:
  "\<exists>r rest s1 s'. getreq (wire example_attach) example_start = Some (Some r, rest, s1) \<and>
     dispatch example_service r s1 = Some s' \<and> sreach example_service s'"
proof -
  have "case getreq (wire example_attach) example_start of
      Some (Some r, _, s1) \<Rightarrow> (case sv_reqs s1 r of None \<Rightarrow> False | Some q \<Rightarrow> polite example_start (rq_ifcall q))
    | _ \<Rightarrow> False" by code_simp
  then obtain r rest s1 q where *: "getreq (wire example_attach) example_start = Some (Some r, rest, s1)"
      "sv_reqs s1 r = Some q" "polite example_start (rq_ifcall q)"
    by (auto split: option.splits prod.splits)
  have "service_ok example_service" by (simp add: service_ok_def short_errors_def example_service_def)
  from polite_handled [OF example_reach(1) example_not_tree this *] *(1) show ?thesis by blast
qed

theorem getreq_framed_witness:
  "\<exists>r s1 q. getreq (wire example_flush @ [1, 2]) example_attached = Some (Some r, [1, 2], s1) \<and>
     sv_reqs s1 r = Some q \<and> rq_ifcall q = carry example_flush zero_fcall"
proof -
  have "fcall_ok example_flush" "no_nul example_flush" "wire_size example_flush = 9"
    by (simp_all add: example_flush_def zero_fcall_def fcall_ok_def no_nul_def msg_types_def msg_strings_def
      counts_ok_def wire_size_def wire_body_def)
  moreover have "9 \<le> unat (sv_msize example_attached)" by code_simp
  ultimately show ?thesis
    using getreq_framed [OF example_reach(2) example_not_tree, of example_flush "[1, 2]"] by auto
qed

text \<open>The service refuses the attach; the flush that waited for it is answered after it.\<close>

definition example_waiting :: srv where
  "example_waiting = the (answer 2 None example_flushed)"

lemma example_waiting: "sreach example_service example_waiting" "in_hand example_waiting 0"
  "pending example_flushed 2 (the (sv_reqs example_flushed 2))"
proof -
  have "in_hand example_flushed 2" by code_simp
  then show p: "pending example_flushed 2 (the (sv_reqs example_flushed 2))"
    by (rule in_hand_pending [OF example_reach(3) example_not_tree])
  have "\<not> Option.is_none (answer 2 None example_flushed)" by code_simp
  then obtain s where s: "answer 2 None example_flushed = Some s" unfolding Option.is_none_def by blast
  have "sreach example_service s"
    by (rule sreach.step [OF example_reach(3)]) (rule sstep.reply [OF p s])
  with s show "sreach example_service example_waiting" by (simp add: example_waiting_def)
  show "in_hand example_waiting 0" by code_simp
qed

theorem answer_sent_witness:
  "\<exists>s' msg ms. answer 0 (Some [110, 111]) example_waiting = Some s' \<and> sv_out s' = msg # ms \<and>
     encodes 1 104 msg \<and> rflush_msg 2 \<in> set ms"
proof -
  let ?q = "the (sv_reqs example_waiting 0)"
  note p = in_hand_pending [OF example_waiting(1) example_not_tree example_waiting(2)]
  have *: "fc_type (rq_ifcall ?q) = 104" "fc_tag (rq_ifcall ?q) = 1" "rq_flush ?q = [2]" "sv_out example_waiting = []"
    "map_option (\<lambda>q. fc_tag (rq_ifcall q)) (sv_reqs example_waiting 2) = Some 2"
    by code_simp+
  have ok: "answer_ok example_waiting ?q (Some [110, 111])" by code_simp
  show ?thesis using answer_sent [OF example_waiting(1) example_not_tree p _ ok] * by auto
qed

text \<open>The flush of the attach, received and handed to the service.\<close>

theorem flush_waits_witness:
  "\<exists>r rest s1 s' q' s2 p. getreq (wire example_flush) example_attached = Some (Some r, rest, s1) \<and>
     dispatch example_service r s1 = Some s' \<and> sv_out s' = [] \<and> pending s' r q' \<and> rq_oldreq q' = Some 0 \<and>
     answer r None s' = Some s2 \<and> sv_out s2 = [] \<and> sv_reqs s2 0 = Some p \<and> r \<in> set (rq_flush p)"
proof -
  have run: "case getreq (wire example_flush) example_attached of
      Some (Some r, _, s1) \<Rightarrow> r = 2 \<and> (case sv_reqs s1 r of None \<Rightarrow> False | Some q \<Rightarrow> fc_type (rq_ifcall q) = 108 \<and>
        mget (sv_rpool example_attached) (ucast (fc_tag (rq_ifcall q))) = None \<and>
        mget (sv_rpool s1) (ucast (fc_oldtag (rq_ifcall q))) = Some 0)
    | _ \<Rightarrow> False" by code_simp
  then obtain rest s1 q where g: "getreq (wire example_flush) example_attached = Some (Some 2, rest, s1)"
      "sv_reqs s1 2 = Some q" "fc_type (rq_ifcall q) = 108"
      "mget (sv_rpool example_attached) (ucast (fc_tag (rq_ifcall q))) = None"
      "mget (sv_rpool s1) (ucast (fc_oldtag (rq_ifcall q))) = Some 0"
  proof -
    obtain a rest s1 where g: "getreq (wire example_flush) example_attached = Some (a, rest, s1)"
      using run by (cases "getreq (wire example_flush) example_attached") (simp, metis prod_cases3)
    then have a: "a = Some 2" using run by (cases a) simp_all
    obtain q where "sv_reqs s1 2 = Some q" using run unfolding g a by (cases "sv_reqs s1 2") simp_all
    then show ?thesis using that run unfolding g a by simp
  qed
  have "7 \<le> unat (sv_msize example_attached)" "sv_out example_attached = []" by code_simp+
  moreover have "cf_flush example_service" by (simp add: example_service_def)
  ultimately show ?thesis
    using flush_waits [OF example_reach(2) example_not_tree _ g(1-4)] g(1,5) by auto
qed

subsection \<open>Messages that end the server\<close>

text \<open>
  A flush or version request whose tag is already in use: the refusal of the duplicate is an error
  reply, which \<open>rflush\<close> and \<open>rversion\<close> assert never to give.
\<close>

lemma duplicate_tag_aborts:
  assumes "sreach cf s" "\<not> cf_tree cf" "getreq stream s = Some (Some r, rest, s1)" "sv_reqs s1 r = Some q"
    "mget (sv_rpool s) (ucast (fc_tag (rq_ifcall q))) \<noteq> None" "fc_type (rq_ifcall q) \<in> {Tflush, Tversion}"
  shows "dispatch cf r s1 = None"
proof -
  have inv: "sinv s" by (rule sreach_inv [OF assms(1,2)])
  obtain f where f: "received s f r s1" using getreq_received [OF inv assms(3)] by blast
  have "rq_ifcall q = f" using received_ifcall [OF f] assms(4) by simp
  then have nf: "\<not> tag_free s (fc_tag f)" "fc_type f \<notin> set fid_types"
    using assms(5,6) by (auto simp: tag_free_def fid_types_def)
  obtain s0 where "s1 = s0\<lparr>sv_reqs := (sv_reqs s0)(r \<mapsto> (new_req (fc_tag f))\<lparr>rq_ifcall := f, rq_ref := 1, rq_pool := False,
      rq_error := Some Eduptag\<rparr>), sv_next := Suc r\<rparr>"
    using f nf(1) by (auto simp: received_def Let_def)
  then show ?thesis using fake_abort [OF refl nf(2)] by simp
qed

text \<open>
  A version request for another protocol: \<open>sversion\<close> leaves the reply's \<^verbatim>\<open>msize\<close> at zero, \<open>rversion\<close>
  takes it over, and the reply no longer fits its buffer.
\<close>

lemma sversion_other:
  assumes q: "sv_reqs s r = Some q" "\<not> rq_responded q" "fc_type (rq_ifcall q) = Tversion" "rq_ofcall q = zero_fcall"
    and v: "fc_version (rq_ifcall q) = Some v" "take 2 v \<noteq> bytes ''9P''"
  shows "sversion cf r s = None"
proof -
  let ?o = "zero_fcall\<lparr>fc_version := Some (bytes ''unknown'')\<rparr>"
  let ?q = "q\<lparr>rq_ofcall := ?o\<rparr>" let ?s = "s\<lparr>sv_reqs := (sv_reqs s)(r \<mapsto> ?q)\<rparr>"
  let ?q2 = "?q\<lparr>rq_error := None\<rparr>" let ?s2 = "s\<lparr>sv_reqs := (sv_reqs s)(r \<mapsto> ?q2)\<rparr>"
  have v': "sversion cf r s = answer r None ?s" using q v by (simp add: sversion_def setr_def)
  have set1: "setr r (\<lambda>q. q\<lparr>rq_error := None\<rparr>) ?s = Some ?s2" by (simp add: setr_def)
  have "retype r None ?s2 = Some (?s2\<lparr>sv_msize := 0\<rparr>)"
    using q by (simp add: retype_def rversion_def assertion_def changemsize_def zero_fcall_def)
  moreover have "put_reply r (?s2\<lparr>sv_msize := 0\<rparr>) = None"
  proof (rule ccontr)
    assume "put_reply r (?s2\<lparr>sv_msize := 0\<rparr>) \<noteq> None"
    then have "fits 0 (the_reply ?q2)"
      using put_reply_eq [of "?s2\<lparr>sv_msize := 0\<rparr>" r ?q2]
      by (auto simp: fits_def assertion_def bind_eq_Some_conv split: if_splits)
    then show False using fits_7 by fastforce
  qed
  moreover obtain n where "depth ?s = Suc (Suc n)" by (simp add: depth_def)
  ultimately show ?thesis using q(2,3) by (simp add: v' answer_def respond.simps set1)
qed

text \<open>
  A version request for another protocol ends the server: whatever its tag and message size,
  a well-formed version request whose string does not start with \<^verbatim>\<open>9P\<close> makes \<^verbatim>\<open>respond\<close> abort, in
  every reachable state, although \<^verbatim>\<open>sversion\<close> has just prepared the answer \<^verbatim>\<open>unknown\<close>.
\<close>

theorem unknown_version_aborts:
  assumes "sreach cf s" "\<not> cf_tree cf" "getreq stream s = Some (Some r, rest, s1)" "sv_reqs s1 r = Some q"
    "fc_type (rq_ifcall q) = Tversion" "fc_version (rq_ifcall q) = Some v" "take 2 v \<noteq> bytes ''9P''"
  shows "dispatch cf r s1 = None"
proof -
  have inv: "sinv s" by (rule sreach_inv [OF assms(1,2)])
  obtain f where f: "received s f r s1" using getreq_received [OF inv assms(3)] by blast
  have eq: "rq_ifcall q = f" using received_ifcall [OF f] assms(4) by simp
  show ?thesis
  proof (cases "tag_free s (fc_tag f)")
    case True
    have "handling r ((new_req (fc_tag f))\<lparr>rq_ifcall := f\<rparr>) (\<lambda>_. 0) s1"
      using f True by (auto simp: received_def Let_def)
    then have "q = (new_req (fc_tag f))\<lparr>rq_ifcall := f\<rparr>" using handling_req assms(4) by fastforce
    then have q: "\<not> rq_responded q" "rq_ofcall q = zero_fcall" "rq_error q = None" by (simp_all add: new_req_def)
    have "dispatch cf r s1 = sversion cf r s1" using assms(4,5) q(3) by (simp add: dispatch_def)
    then show ?thesis using sversion_other [OF assms(4) q(1) assms(5) q(2) assms(6,7)] by simp
  next
    case False
    then show ?thesis
      using duplicate_tag_aborts [OF assms(1-4)] assms(5) eq by (simp add: tag_free_def)
  qed
qed

definition example_version :: fcall where
  "example_version = zero_fcall\<lparr>fc_type := 100, fc_tag := 3, fc_msize := 8192, fc_version := Some [56, 80]\<rparr>"

theorem unknown_version_aborts_witness:
  "\<exists>r rest s1. getreq (wire example_version) example_start = Some (Some r, rest, s1) \<and>
     dispatch example_service r s1 = None"
proof -
  have "case getreq (wire example_version) example_start of
      Some (Some r, _, s1) \<Rightarrow> (case sv_reqs s1 r of None \<Rightarrow> False
        | Some q \<Rightarrow> fc_type (rq_ifcall q) = 100 \<and> fc_version (rq_ifcall q) = Some [56, 80])
    | _ \<Rightarrow> False" by code_simp
  then obtain r rest s1 q where *: "getreq (wire example_version) example_start = Some (Some r, rest, s1)"
      "sv_reqs s1 r = Some q" "fc_type (rq_ifcall q) = 100" "fc_version (rq_ifcall q) = Some [56, 80]"
    by (auto split: option.splits prod.splits)
  have "take 2 [56, 80] \<noteq> bytes ''9P''" by (simp add: bytes_def)
  from unknown_version_aborts [OF example_reach(1) example_not_tree * this] *(1) show ?thesis by blast
qed

text \<open>A message of a type that only servers send.\<close>

theorem reply_type_aborts:
  "srv_loop 1 example_service (wire (zero_fcall\<lparr>fc_type := 109, fc_tag := 3\<rparr>)) example_start = None"
proof -
  have "Option.is_none (srv_loop 1 example_service (wire (zero_fcall\<lparr>fc_type := 109, fc_tag := 3\<rparr>)) example_start)"
    by code_simp
  then show ?thesis by (simp add: Option.is_none_def)
qed

text \<open>
  A flush that names its own tag: \<open>sflush\<close> means to answer it at once, but \<open>rflush\<close> finds its old
  request, itself, unanswered and puts it into its own list, where nobody answers it.
\<close>

theorem self_flush_unanswered:
  "\<exists>s. srv_loop 1 example_service (wire (example_flush\<lparr>fc_oldtag := 2\<rparr>)) example_start = Some s \<and> sv_out s = [] \<and>
     (\<exists>q. sv_reqs s 0 = Some q \<and> \<not> rq_responded q \<and> rq_flush q = [0])"
proof -
  have "case srv_loop 1 example_service (wire (example_flush\<lparr>fc_oldtag := 2\<rparr>)) example_start of
      None \<Rightarrow> False
    | Some s \<Rightarrow> sv_out s = [] \<and> (case sv_reqs s 0 of None \<Rightarrow> False | Some q \<Rightarrow> \<not> rq_responded q \<and> rq_flush q = [0])"
    by code_simp
  then show ?thesis by (auto split: option.splits)
qed

end
