(* ===== verification/Block.thy ===== *)
theory Block
  imports P9Base
begin

text \<open>
  The kernel's data blocks: allocation and release (\<^verbatim>\<open>9/port/allocb.c\<close>) and the operations on
  strings of blocks (the first half of \<^verbatim>\<open>9/port/qio.c\<close>).

  A block is the memory between \<^verbatim>\<open>base\<close> and \<^verbatim>\<open>lim\<close> with the offsets of \<^verbatim>\<open>rp\<close> and \<^verbatim>\<open>wp\<close> from
  \<^verbatim>\<open>base\<close>; a string of blocks linked by \<^verbatim>\<open>next\<close> is a list, nil the empty one.  An operation owns
  the blocks it is given and returns the ones that are left.  \<open>None\<close> is a panic, an access
  outside of a block or of nil.

  The allocator is a parameter: \<open>ka_malloc k n\<close> is what the \<open>k\<close>-th call of \<^verbatim>\<open>mallocz(n, 0)\<close>
  returns, an address with the old contents of the memory there, or nil.  C integers that count
  bytes are \<open>int\<close>: a block string is far shorter than \<open>2 ^ 31\<close>.  The statistics counters are left
  out.
\<close>

named_theorems blk_simps \<open>contents of blocks and strings of blocks\<close>

subsection \<open>Blocks\<close>

record block =
  b_buf :: mem
  b_rp :: nat
  b_wp :: nat
  b_own :: bool        \<comment> \<open>has a \<^verbatim>\<open>free\<close> routine of its own\<close>
  b_intr :: bool       \<comment> \<open>\<^verbatim>\<open>BINTR\<close>: allocated at interrupt level\<close>

type_synonym chain = "block list"

record kalloc =
  ka_align :: nat                  \<comment> \<open>\<^verbatim>\<open>BLOCKALIGN\<close> of the machine\<close>
  ka_malloc :: "nat \<Rightarrow> nat \<Rightarrow> (nat \<times> (nat \<Rightarrow> uchar)) option"
  ka_calls :: nat
  ka_bytes :: u32int               \<comment> \<open>\<^verbatim>\<open>ialloc.bytes\<close>\<close>
  ka_conf :: u32int                \<comment> \<open>\<^verbatim>\<open>conf.ialloc\<close>\<close>
  ka_m1 :: int
  ka_m2 :: int
  ka_mp :: int
  ka_live :: int                   \<comment> \<open>ghost: blocks allocated and not yet freed\<close>

definition BLEN :: "block \<Rightarrow> int" where
  "BLEN b = int (b_wp b) - int (b_rp b)"

definition BALLOC :: "block \<Rightarrow> int" where
  "BALLOC b = int (length (b_buf b))"

text \<open>\<open>n\<close> bytes from \<open>off\<close> bytes after \<^verbatim>\<open>rp\<close>, and \<^verbatim>\<open>memmove\<close> to \<^verbatim>\<open>wp\<close>, which then moves.\<close>

definition rdblock :: "block \<Rightarrow> int \<Rightarrow> int \<Rightarrow> mem option" where
  "rdblock b off n = (if off < 0 \<or> n < 0 then None else memget (b_buf b) (b_rp b + nat off) (nat n))"

definition wrblock :: "block \<Rightarrow> mem \<Rightarrow> block option" where
  "wrblock b d = map_option (\<lambda>m. b\<lparr>b_buf := m, b_wp := b_wp b + length d\<rparr>) (memput (b_buf b) (b_wp b) d)"

definition skip :: "int \<Rightarrow> block \<Rightarrow> block" where
  "skip n b = b\<lparr>b_rp := nat (int (b_rp b) + n)\<rparr>"

subsection \<open>Allocation\<close>

definition Hdrspc :: nat where "Hdrspc = 64"
definition SZBLOCK :: nat where "SZBLOCK = 32"

definition ROUNDUP :: "nat \<Rightarrow> nat \<Rightarrow> nat" where
  "ROUNDUP x y = (x + (y - 1)) div y * y"

text \<open>\<^verbatim>\<open>_allocb\<close>: \<open>None\<close> is its panic, nil is no memory.\<close>

definition xallocb :: "nat \<Rightarrow> kalloc \<Rightarrow> (block option \<times> kalloc) option" where
  "xallocb sz ka =
     (let n = ka_align ka + ROUNDUP (sz + Hdrspc) (ka_align ka) + SZBLOCK;
          ka' = ka\<lparr>ka_calls := ka_calls ka + 1\<rparr> in
      case ka_malloc ka (ka_calls ka) n of
        None \<Rightarrow> Some (None, ka')
      | Some (p, junk) \<Rightarrow>
          (let b = p + n - SZBLOCK; lim = b - b mod ka_align ka; room = ROUNDUP sz (ka_align ka) in
           if lim < p + room \<or> room < sz then None
           else Some (Some \<lparr>b_buf = map junk [0..<lim - p], b_rp = lim - p - room, b_wp = lim - p - room,
               b_own = False, b_intr = False\<rparr>, ka'\<lparr>ka_live := ka_live ka' + 1\<rparr>)))"

definition allocb :: "nat \<Rightarrow> kalloc \<Rightarrow> (block \<times> kalloc) option" where
  "allocb sz ka = do {
     (b, ka) \<leftarrow> xallocb sz ka;
     b \<leftarrow> b;
     Some (b, ka) }"

text \<open>The rate-limited complaint of \<^verbatim>\<open>iallocb\<close>, which after too many times exits the kernel.\<close>

definition complain :: "int \<Rightarrow> kalloc \<Rightarrow> kalloc option" where
  "complain m ka =
     (if m mod 10000 = 0 then
        (if ka_mp ka > 1000 then None else Some (ka\<lparr>ka_mp := ka_mp ka + 1\<rparr>))
      else Some ka)"

definition iallocb :: "nat \<Rightarrow> kalloc \<Rightarrow> (block option \<times> kalloc) option" where
  "iallocb sz ka =
     (if ka_bytes ka > ka_conf ka then do {
        ka \<leftarrow> complain (ka_m1 ka) (ka\<lparr>ka_m1 := ka_m1 ka + 1\<rparr>);
        Some (None, ka) }
      else do {
        (b, ka) \<leftarrow> xallocb sz ka;
        case b of
          None \<Rightarrow> do {
            ka \<leftarrow> complain (ka_m2 ka) (ka\<lparr>ka_m2 := ka_m2 ka + 1\<rparr>);
            Some (None, ka) }
        | Some b \<Rightarrow> Some (Some (b\<lparr>b_intr := True\<rparr>),
            ka\<lparr>ka_bytes := ka_bytes ka + of_nat (length (b_buf b))\<rparr>) })"

definition freeb :: "block \<Rightarrow> kalloc \<Rightarrow> kalloc" where
  "freeb b ka =
     (let ka = ka\<lparr>ka_live := ka_live ka - 1\<rparr> in
      if b_own b then ka
      else if b_intr b then ka\<lparr>ka_bytes := ka_bytes ka - of_nat (length (b_buf b))\<rparr>
      else ka)"

text \<open>The bounds that \<^verbatim>\<open>checkb\<close> tests, with \<^verbatim>\<open>rp <= wp\<close>, which it does not.\<close>

definition checkb :: "block \<Rightarrow> bool" where
  "checkb b \<longleftrightarrow> b_rp b \<le> length (b_buf b) \<and> b_wp b \<le> length (b_buf b)"

definition wfb :: "block \<Rightarrow> bool" where
  "wfb b \<longleftrightarrow> checkb b \<and> b_rp b \<le> b_wp b"

subsection \<open>Strings of blocks\<close>

fun freeblist :: "chain \<Rightarrow> kalloc \<Rightarrow> kalloc" where
  "freeblist [] ka = ka"
| "freeblist (b # bs) ka = freeblist bs (freeb b ka)"

fun blocklen :: "chain \<Rightarrow> int" where
  "blocklen [] = 0"
| "blocklen (b # bs) = BLEN b + blocklen bs"

fun blockalloclen :: "chain \<Rightarrow> int" where
  "blockalloclen [] = 0"
| "blockalloclen (b # bs) = BALLOC b + blockalloclen bs"

definition padblock :: "chain \<Rightarrow> int \<Rightarrow> kalloc \<Rightarrow> (chain \<times> kalloc) option" where
  "padblock c sz ka =
     (case c of
        [] \<Rightarrow> None
      | bp # next \<Rightarrow>
          if sz \<ge> 0 then
            (if int (b_rp bp) \<ge> sz then Some (bp\<lparr>b_rp := b_rp bp - nat sz\<rparr> # next, ka)
             else do {
               assertion (next = []);
               let n = BLEN bp;
               (nbp, ka) \<leftarrow> allocb (nat (sz + n)) ka;
               let nbp = nbp\<lparr>b_rp := b_rp nbp + nat sz, b_wp := b_rp nbp + nat sz\<rparr>;
               d \<leftarrow> rdblock bp 0 n;
               nbp \<leftarrow> wrblock nbp d;
               Some ([nbp\<lparr>b_rp := b_rp nbp - nat sz\<rparr>], freeb bp ka) })
          else
            (let sz = - sz in do {
               assertion (next = []);
               if int (length (b_buf bp)) - int (b_wp bp) \<ge> sz then Some (c, ka)
               else do {
                 let n = BLEN bp;
                 (nbp, ka) \<leftarrow> allocb (nat (sz + n)) ka;
                 d \<leftarrow> rdblock bp 0 n;
                 nbp \<leftarrow> wrblock nbp d;
                 Some ([nbp], freeb bp ka) } }))"

fun concat_loop :: "block \<Rightarrow> chain \<Rightarrow> block option" where
  "concat_loop nb [] = Some nb"
| "concat_loop nb (f # fs) = do {
     d \<leftarrow> rdblock f 0 (BLEN f);
     nb \<leftarrow> wrblock nb d;
     concat_loop nb fs }"

definition concatblock :: "chain \<Rightarrow> kalloc \<Rightarrow> (chain \<times> kalloc) option" where
  "concatblock c ka =
     (case c of
        [] \<Rightarrow> None
      | [bp] \<Rightarrow> Some ([bp], ka)
      | _ \<Rightarrow> do {
          (nb, ka) \<leftarrow> allocb (nat (blocklen c)) ka;
          nb \<leftarrow> concat_loop nb c;
          Some ([nb], freeblist c ka) })"

text \<open>\<open>pullup_loop bp next n\<close> moves \<open>n\<close> bytes from the blocks after \<open>bp\<close>; nil when they are too few.\<close>

fun pullup_loop :: "block \<Rightarrow> chain \<Rightarrow> int \<Rightarrow> kalloc \<Rightarrow> (chain \<times> kalloc) option" where
  "pullup_loop bp [] n ka = Some ([], freeb bp ka)"
| "pullup_loop bp (nbp # next) n ka =
     (let i = BLEN nbp in
      if i > n then do {
        d \<leftarrow> rdblock nbp 0 n;
        bp \<leftarrow> wrblock bp d;
        Some (bp # skip n nbp # next, ka) }
      else do {
        let i = max i 0;
        d \<leftarrow> rdblock nbp 0 i;
        bp \<leftarrow> wrblock bp d;
        let ka = freeb nbp ka;
        if n - i = 0 then Some (bp # next, ka) else pullup_loop bp next (n - i) ka })"

definition pullupblock :: "chain \<Rightarrow> int \<Rightarrow> kalloc \<Rightarrow> (chain \<times> kalloc) option" where
  "pullupblock c n ka =
     (case c of
        [] \<Rightarrow> None
      | bp # next \<Rightarrow>
          if BLEN bp \<ge> n then Some (c, ka)
          else if int (length (b_buf bp)) - int (b_rp bp) < n then do {
            (nbp, ka) \<leftarrow> allocb (nat n) ka;
            pullup_loop nbp c (n - BLEN nbp) ka }
          else pullup_loop bp next (n - BLEN bp) ka)"

fun trim_head :: "chain \<Rightarrow> int \<Rightarrow> kalloc \<Rightarrow> (chain \<times> int \<times> kalloc) option" where
  "trim_head [] offset ka = None"
| "trim_head (bp # next) offset ka =
     (if BLEN bp < offset then trim_head next (offset - BLEN bp) (freeb bp ka)
      else Some (bp # next, offset, ka))"

fun trim_tail :: "chain \<Rightarrow> int \<Rightarrow> (chain \<times> chain) option" where
  "trim_tail [] len = None"
| "trim_tail (bp # next) len =
     (if BLEN bp < len then map_option (\<lambda>(c, rest). (bp # c, rest)) (trim_tail next (len - BLEN bp))
      else Some ([bp\<lparr>b_wp := nat (int (b_wp bp) - (BLEN bp - len))\<rparr>], next))"

definition trimblock :: "chain \<Rightarrow> int \<Rightarrow> int \<Rightarrow> kalloc \<Rightarrow> (chain \<times> kalloc) option" where
  "trimblock c offset len ka =
     (if blocklen c < offset + len then Some ([], freeblist c ka)
      else do {
        (c, offset, ka) \<leftarrow> trim_head c offset ka;
        case c of
          [] \<Rightarrow> None
        | bp # next \<Rightarrow> do {
            (c, rest) \<leftarrow> trim_tail (skip offset bp # next) len;
            Some (c, freeblist rest ka) } })"

fun copy_loop :: "block \<Rightarrow> chain \<Rightarrow> int \<Rightarrow> (block \<times> int) option" where
  "copy_loop nbp [] count = Some (nbp, count)"
| "copy_loop nbp (bp # next) count =
     (if count > 0 then do {
        let l = min (BLEN bp) count;
        d \<leftarrow> rdblock bp 0 l;
        nbp \<leftarrow> wrblock nbp d;
        copy_loop nbp next (count - l) }
      else Some (nbp, count))"

definition copyblock :: "chain \<Rightarrow> int \<Rightarrow> kalloc \<Rightarrow> (block \<times> kalloc) option" where
  "copyblock c count ka = do {
     (nbp, ka) \<leftarrow> allocb (nat count) ka;
     (nbp, count) \<leftarrow> copy_loop nbp c count;
     nbp \<leftarrow> (if count > 0 then wrblock nbp (replicate (nat count) 0) else Some nbp);
     Some (nbp, ka) }"

definition adjustblock :: "chain \<Rightarrow> int \<Rightarrow> kalloc \<Rightarrow> (chain \<times> kalloc) option" where
  "adjustblock c len ka =
     (case c of
        [] \<Rightarrow> (if len < 0 then Some ([], ka) else None)
      | bp # next \<Rightarrow>
          if len < 0 then Some ([], freeb bp ka)
          else if int (b_rp bp) + len > int (length (b_buf bp)) then do {
            (nbp, ka) \<leftarrow> copyblock c len ka;
            Some ([nbp], freeblist c ka) }
          else do {
            let n = BLEN bp;
            bp \<leftarrow> (if len > n then wrblock bp (replicate (nat (len - n)) 0) else Some bp);
            Some (bp\<lparr>b_wp := b_rp bp + nat len\<rparr> # next, ka) })"

fun pullblock :: "chain \<Rightarrow> int \<Rightarrow> kalloc \<Rightarrow> int \<times> chain \<times> kalloc" where
  "pullblock [] count ka = (0, [], ka)"
| "pullblock (bp # next) count ka =
     (if count = 0 then (0, bp # next, ka)
      else (let n = min (BLEN bp) count; bp' = skip n bp in
        if BLEN bp' = 0 then
          (let (bytes, c, ka) = pullblock next (count - n) (freeb bp ka) in (n + bytes, c, ka))
        else (n, bp' # next, ka)))"

fun packblock :: "chain \<Rightarrow> kalloc \<Rightarrow> (chain \<times> kalloc) option" where
  "packblock [] ka = Some ([], ka)"
| "packblock (nbp # next) ka =
     (let n = BLEN nbp in
      if 4 * n < BALLOC nbp then do {
        (b, ka) \<leftarrow> allocb (nat n) ka;
        d \<leftarrow> rdblock nbp 0 n;
        b \<leftarrow> wrblock b d;
        (c, ka) \<leftarrow> packblock next (freeb nbp ka);
        Some (b # c, ka) }
      else do {
        (c, ka) \<leftarrow> packblock next ka;
        Some (nbp # c, ka) })"

text \<open>\<open>bl2mem\<close> returns the bytes it puts at \<^verbatim>\<open>p\<close>.\<close>

fun bl2mem :: "chain \<Rightarrow> int \<Rightarrow> kalloc \<Rightarrow> (mem \<times> chain \<times> kalloc) option" where
  "bl2mem [] n ka = Some ([], [], ka)"
| "bl2mem (b # next) n ka =
     (let i = BLEN b in
      if i > n then do {
        d \<leftarrow> rdblock b 0 n;
        Some (d, skip n b # next, ka) }
      else do {
        d \<leftarrow> rdblock b 0 i;
        (ds, c, ka) \<leftarrow> bl2mem next (n - i) (freeb b ka);
        Some (d @ ds, c, ka) })"

definition Maxatomic :: nat where "Maxatomic = 64 * 1024"

text \<open>The \<^verbatim>\<open>do\<close> loop of \<open>mem2bl\<close> over the bytes \<open>p\<close> that are left; it runs at least once.\<close>

function mem2bl :: "mem \<Rightarrow> kalloc \<Rightarrow> (chain \<times> kalloc) option" where
  "mem2bl p ka = do {
     let n = min (length p) Maxatomic;
     (b, ka) \<leftarrow> allocb n ka;
     b \<leftarrow> wrblock b (take n p);
     if length p - n > 0 then do {
       (c, ka) \<leftarrow> mem2bl (drop n p) ka;
       Some (b # c, ka) }
     else Some ([b], ka) }"
  by pat_completeness auto
termination by (relation "measure (\<lambda>(p, ka). length p)") (auto simp: Maxatomic_def)

declare mem2bl.simps [simp del]

subsection \<open>Contents\<close>

definition bdata :: "block \<Rightarrow> mem" where
  "bdata b = take (b_wp b - b_rp b) (drop (b_rp b) (b_buf b))"

definition cdata :: "chain \<Rightarrow> mem" where
  "cdata c = concat (map bdata c)"

definition wfc :: "chain \<Rightarrow> bool" where
  "wfc c \<longleftrightarrow> list_all wfb c"

definition room :: "block \<Rightarrow> nat" where
  "room b = length (b_buf b) - b_wp b"

lemma cdata_simps [simp, blk_simps]:
  "cdata [] = []" "cdata (b # c) = bdata b @ cdata c" "cdata (c @ d) = cdata c @ cdata d"
  by (simp_all add: cdata_def)

lemma wfc_simps [simp, blk_simps]:
  "wfc []" "wfc (b # c) \<longleftrightarrow> wfb b \<and> wfc c" "wfc (c @ d) \<longleftrightarrow> wfc c \<and> wfc d"
  by (auto simp: wfc_def)

lemma BLEN_data: "wfb b \<Longrightarrow> BLEN b = int (length (bdata b))"
  by (auto simp: wfb_def checkb_def BLEN_def bdata_def)

lemma length_bdata: "wfb b \<Longrightarrow> length (bdata b) = b_wp b - b_rp b"
  by (auto simp: wfb_def checkb_def bdata_def)

lemma blocklen_data: "wfc c \<Longrightarrow> blocklen c = int (length (cdata c))"
  by (induction c) (auto simp: BLEN_data)

lemma blocklen_append [simp]: "blocklen (c @ d) = blocklen c + blocklen d"
  by (induction c) auto

lemma blockalloclen_append [simp]: "blockalloclen (c @ d) = blockalloclen c + blockalloclen d"
  by (induction c) auto

lemma rdblock_data: "wfb b \<Longrightarrow> 0 \<le> n \<Longrightarrow> n \<le> BLEN b \<Longrightarrow> rdblock b 0 n = Some (take (nat n) (bdata b))"
  by (auto simp: rdblock_def memget_def wfb_def checkb_def BLEN_def bdata_def min_def)

lemma rdblock_all: "wfb b \<Longrightarrow> rdblock b 0 (BLEN b) = Some (bdata b)"
  using rdblock_data [of b "BLEN b"] by (simp add: BLEN_data)

lemma wrblock_ok:
  assumes "wfb b" "length d \<le> room b"
  shows "\<exists>b'. wrblock b d = Some b' \<and> wfb b' \<and> bdata b' = bdata b @ d \<and> room b' = room b - length d \<and>
    length (b_buf b') = length (b_buf b) \<and> b_rp b' = b_rp b \<and> b_own b' = b_own b \<and> b_intr b' = b_intr b"
proof -
  let ?m = "take (b_wp b) (b_buf b) @ d @ drop (b_wp b + length d) (b_buf b)"
  have le: "b_rp b \<le> b_wp b" "b_wp b + length d \<le> length (b_buf b)"
    using assms by (auto simp: wfb_def checkb_def room_def)
  have "take (b_wp b + length d - b_rp b) (drop (b_rp b) ?m) =
      take (b_wp b - b_rp b) (drop (b_rp b) (b_buf b)) @ d"
  proof -
    have "drop (b_rp b) ?m = take (b_wp b - b_rp b) (drop (b_rp b) (b_buf b)) @ d @
        drop (b_wp b + length d) (b_buf b)"
      using le by (simp add: drop_take)
    moreover have "length (take (b_wp b - b_rp b) (drop (b_rp b) (b_buf b))) = b_wp b - b_rp b"
      using le by simp
    ultimately show ?thesis using le(1) by (simp add: take_Cons')
  qed
  then show ?thesis
    using le by (auto simp: wrblock_def memput_def wfb_def checkb_def bdata_def room_def)
qed

lemma skip_ok:
  assumes "wfb b" "0 \<le> n" "n \<le> BLEN b"
  shows "wfb (skip n b)" "bdata (skip n b) = drop (nat n) (bdata b)" "BLEN (skip n b) = BLEN b - n"
    "BALLOC (skip n b) = BALLOC b" "b_intr (skip n b) = b_intr b" "b_own (skip n b) = b_own b"
proof -
  have e: "nat (int (b_rp b) + n) = b_rp b + nat n" "nat (n + int (b_rp b)) = b_rp b + nat n"
    using assms(2) by (simp_all add: nat_add_distrib)
  show "wfb (skip n b)" "BLEN (skip n b) = BLEN b - n" "BALLOC (skip n b) = BALLOC b"
    "b_intr (skip n b) = b_intr b" "b_own (skip n b) = b_own b"
    using assms by (auto simp: skip_def e wfb_def checkb_def BLEN_def BALLOC_def)
  show "bdata (skip n b) = drop (nat n) (bdata b)"
    by (simp add: skip_def e bdata_def drop_take add.commute)
qed

subsection \<open>Allocation\<close>

text \<open>An allocator that never runs out.\<close>

definition mem_avail :: "kalloc \<Rightarrow> bool" where
  "mem_avail ka \<longleftrightarrow> 0 < ka_align ka \<and> (\<forall>k n. ka_malloc ka k n \<noteq> None)"

lemma mem_avail_freeb [simp]: "mem_avail (freeb b ka) = mem_avail ka"
  by (simp add: mem_avail_def freeb_def Let_def)

lemma ka_live_freeb [simp]: "ka_live (freeb b ka) = ka_live ka - 1"
  by (simp add: freeb_def Let_def)

lemma freeblist_view [simp]:
  "mem_avail (freeblist c ka) = mem_avail ka" "ka_live (freeblist c ka) = ka_live ka - int (length c)"
  by (induction c arbitrary: ka) auto

lemma ROUNDUP_ge: "0 < y \<Longrightarrow> x \<le> ROUNDUP x y"
proof -
  assume y: "0 < y"
  have "x + (y - 1) = (x + (y - 1)) div y * y + (x + (y - 1)) mod y" by simp
  moreover have "(x + (y - 1)) mod y \<le> y - 1" using y by (simp add: Suc_leI less_Suc_eq_le flip: less_Suc_eq_le)
  ultimately show ?thesis unfolding ROUNDUP_def by linarith
qed

lemma ROUNDUP_mono: "x \<le> z \<Longrightarrow> ROUNDUP x y \<le> ROUNDUP z y"
  by (simp add: ROUNDUP_def div_le_mono)

lemma ROUNDUP_add: "y dvd k \<Longrightarrow> 0 < y \<Longrightarrow> ROUNDUP (x + k) y = ROUNDUP x y + k"
proof -
  assume "y dvd k" "0 < y"
  then obtain j where k: "k = y * j" by (auto elim: dvdE)
  have "x + k + (y - 1) = x + (y - 1) + y * j" by (simp add: k)
  then have "(x + k + (y - 1)) div y = j + (x + (y - 1)) div y"
    using \<open>0 < y\<close> by (simp only: div_mult_self2 neq0_conv)
  then show ?thesis by (simp add: ROUNDUP_def k algebra_simps)
qed

text \<open>
  What \<open>xallocb\<close> hands out: an empty block of the asked size, with at least the rounded header
  space in front of it.
\<close>

lemma xallocb_Some:
  assumes "0 < ka_align ka" "xallocb sz ka = Some (Some b, ka')"
  shows "wfb b \<and> bdata b = [] \<and> room b = ROUNDUP sz (ka_align ka) \<and>
    ROUNDUP (sz + Hdrspc) (ka_align ka) - ROUNDUP sz (ka_align ka) \<le> b_rp b \<and> \<not> b_own b \<and> \<not> b_intr b \<and>
    ka' = ka\<lparr>ka_calls := ka_calls ka + 1, ka_live := ka_live ka + 1\<rparr>"
proof -
  obtain p junk where "ka_malloc ka (ka_calls ka)
      (ka_align ka + ROUNDUP (sz + Hdrspc) (ka_align ka) + SZBLOCK) = Some (p, junk)"
    using assms(2) by (auto simp: xallocb_def Let_def split: option.splits)
  moreover define e where "e = p + (ka_align ka + ROUNDUP (sz + Hdrspc) (ka_align ka))"
  moreover have "e mod ka_align ka < ka_align ka" using assms(1) by simp
  moreover have "ROUNDUP sz (ka_align ka) \<le> ROUNDUP (sz + Hdrspc) (ka_align ka)"
    by (rule ROUNDUP_mono) simp
  ultimately show ?thesis
    using assms(2) by (auto simp: xallocb_def Let_def wfb_def checkb_def bdata_def room_def split: if_splits)
qed

lemma xallocb_safe:
  assumes "0 < ka_align ka"
  shows "xallocb sz ka \<noteq> None"
proof (cases "ka_malloc ka (ka_calls ka) (ka_align ka + ROUNDUP (sz + Hdrspc) (ka_align ka) + SZBLOCK)")
  case (Some pj)
  obtain p junk where pj: "pj = (p, junk)" by (cases pj)
  define e where "e = p + (ka_align ka + ROUNDUP (sz + Hdrspc) (ka_align ka))"
  have "e mod ka_align ka < ka_align ka" using assms(1) by simp
  moreover have "ROUNDUP sz (ka_align ka) \<le> ROUNDUP (sz + Hdrspc) (ka_align ka)"
    by (rule ROUNDUP_mono) simp
  ultimately have "p + ROUNDUP sz (ka_align ka) \<le> e - e mod ka_align ka" by (simp add: e_def)
  then show ?thesis using Some pj ROUNDUP_ge [OF assms, of sz]
    by (simp add: xallocb_def Let_def e_def add.assoc)
qed (simp add: xallocb_def Let_def)

lemma allocb_ok:
  assumes "mem_avail ka"
  shows "\<exists>b ka'. allocb sz ka = Some (b, ka') \<and> wfb b \<and> bdata b = [] \<and> sz \<le> room b \<and> \<not> b_intr b \<and>
    \<not> b_own b \<and> mem_avail ka' \<and> ka_live ka' = ka_live ka + 1 \<and> ka_bytes ka' = ka_bytes ka"
proof -
  have a: "0 < ka_align ka" using assms by (simp add: mem_avail_def)
  obtain bo ka' where x: "xallocb sz ka = Some (bo, ka')" using xallocb_safe [OF a, of sz] by auto
  have "ka_malloc ka (ka_calls ka) (ka_align ka + ROUNDUP (sz + Hdrspc) (ka_align ka) + SZBLOCK) \<noteq> None"
    using assms unfolding mem_avail_def by blast
  then have "bo \<noteq> None" using x by (auto simp: xallocb_def Let_def split: option.splits if_splits)
  then obtain b where b: "bo = Some b" by auto
  show ?thesis
    using xallocb_Some [OF a x [unfolded b]] ROUNDUP_ge [OF a, of sz] assms
    by (simp add: allocb_def x b mem_avail_def)
qed

subsection \<open>Operations on strings of blocks\<close>

lemma concat_loop_ok:
  "wfb nb \<Longrightarrow> wfc c \<Longrightarrow> length (cdata c) \<le> room nb \<Longrightarrow>
    \<exists>nb'. concat_loop nb c = Some nb' \<and> wfb nb' \<and> bdata nb' = bdata nb @ cdata c"
proof (induction c arbitrary: nb)
  case (Cons f fs)
  obtain nb1 where "wrblock nb (bdata f) = Some nb1" "wfb nb1" "bdata nb1 = bdata nb @ bdata f"
      "room nb1 = room nb - length (bdata f)"
    using wrblock_ok [of nb "bdata f"] Cons.prems by auto
  with Cons.IH [of nb1] Cons.prems show ?case by (auto simp: rdblock_all)
qed simp

lemma concatblock_ok:
  assumes "mem_avail ka" "wfc c" "c \<noteq> []"
  shows "\<exists>b ka'. concatblock c ka = Some ([b], ka') \<and> wfb b \<and> bdata b = cdata c \<and> mem_avail ka' \<and>
    ka_live ka' = ka_live ka + 1 - int (length c)"
proof (cases c)
  case Nil
  with assms show ?thesis by simp
next
  case (Cons bp bs)
  show ?thesis
  proof (cases bs)
    case Nil
    with Cons assms show ?thesis by (simp add: concatblock_def)
  next
    case (Cons b2 more)
    obtain nb ka1 where a: "allocb (nat (blocklen c)) ka = Some (nb, ka1)" "wfb nb" "bdata nb = []"
        "nat (blocklen c) \<le> room nb" "mem_avail ka1" "ka_live ka1 = ka_live ka + 1"
      using allocb_ok [OF assms(1)] by blast
    then obtain nb' where "concat_loop nb c = Some nb'" "wfb nb'" "bdata nb' = cdata c"
      using concat_loop_ok [of nb c] assms(2) blocklen_data [of c] by auto
    with a \<open>c = bp # bs\<close> Cons show ?thesis
      by (simp add: concatblock_def del: concat_loop.simps blocklen.simps freeblist.simps)
  qed
qed

text \<open>
  A string with one block more or less: \<open>owns\<close> says that the blocks that an operation allocated
  and freed are exactly the difference between the string it got and the one it returns.
\<close>

definition owns :: "chain \<Rightarrow> kalloc \<Rightarrow> chain \<Rightarrow> kalloc \<Rightarrow> bool" where
  "owns c ka c' ka' \<longleftrightarrow> ka_live ka' - int (length c') = ka_live ka - int (length c) \<and> mem_avail ka'"

lemma pullup_loop_ok:
  assumes "wfb bp" "wfc c" "0 < n" "n \<le> int (room bp)" "mem_avail ka"
  shows "\<exists>c' ka'. pullup_loop bp c n ka = Some (c', ka') \<and> wfc c' \<and> owns (bp # c) ka c' ka' \<and>
    (if blocklen c < n then c' = [] else cdata c' = bdata bp @ cdata c \<and> c' \<noteq> [] \<and> BLEN (hd c') = BLEN bp + n)"
  using assms
proof (induction c arbitrary: bp n ka)
  case Nil
  then show ?case by (simp add: owns_def)
next
  case (Cons nbp c)
  have w: "wfb nbp" "wfc c" using Cons.prems(2) by simp_all
  have pos: "0 \<le> BLEN nbp" "0 \<le> blocklen c" using w by (simp_all add: BLEN_data blocklen_data)
  show ?case
  proof (cases "BLEN nbp > n")
    case True
    obtain bp' where bp': "wrblock bp (take (nat n) (bdata nbp)) = Some bp'" "wfb bp'"
        "bdata bp' = bdata bp @ take (nat n) (bdata nbp)"
      using wrblock_ok [of bp "take (nat n) (bdata nbp)"] Cons.prems
      by (auto simp: min_le_iff_disj nat_le_iff)
    have "BLEN bp' = BLEN bp + n"
      using bp' Cons.prems True w by (simp add: BLEN_data)
    with bp' True Cons.prems w pos skip_ok [of nbp n] show ?thesis
      by (simp add: rdblock_data owns_def)
  next
    case False
    obtain bp' where bp': "wrblock bp (bdata nbp) = Some bp'" "wfb bp'" "bdata bp' = bdata bp @ bdata nbp"
        "room bp' = room bp - length (bdata nbp)"
      using wrblock_ok [of bp "bdata nbp"] Cons.prems False w by (auto simp: BLEN_data)
    have len: "BLEN bp' = BLEN bp + BLEN nbp" using bp' Cons.prems w by (simp add: BLEN_data)
    show ?thesis
    proof (cases "BLEN nbp = n")
      case True
      with bp' len Cons.prems w pos rdblock_all [OF w(1)] show ?thesis by (simp add: owns_def)
    next
      case ne: False
      have "n - BLEN nbp \<le> int (room bp')"
        using bp'(4) Cons.prems(4) w False by (simp add: BLEN_data)
      with Cons.IH [of bp' "n - BLEN nbp" "freeb nbp ka"] bp'(2) w ne False Cons.prems(5)
      obtain c' ka' where "pullup_loop bp' c (n - BLEN nbp) (freeb nbp ka) = Some (c', ka')" "wfc c'"
          "owns (bp' # c) (freeb nbp ka) c' ka'"
          "if blocklen c < n - BLEN nbp then c' = []
           else cdata c' = bdata bp' @ cdata c \<and> c' \<noteq> [] \<and> BLEN (hd c') = BLEN bp' + (n - BLEN nbp)"
        by auto
      with bp' len False ne pos w show ?thesis
        by (simp add: rdblock_all owns_def max_def split: if_splits)
    qed
  qed
qed

lemma pullupblock_ok:
  assumes "mem_avail ka" "wfc c" "c \<noteq> []"
  shows "\<exists>c' ka'. pullupblock c n ka = Some (c', ka') \<and> wfc c' \<and> owns c ka c' ka' \<and>
    (if blocklen c < n then c' = [] else cdata c' = cdata c \<and> c' \<noteq> [] \<and> n \<le> BLEN (hd c'))"
proof -
  obtain bp bs where c: "c = bp # bs" using assms(3) by (cases c) auto
  have w: "wfb bp" "wfc bs" using assms(2) c by simp_all
  have pos: "0 \<le> blocklen bs" "0 \<le> BLEN bp" using w by (simp_all add: blocklen_data BLEN_data)
  consider (enough) "n \<le> BLEN bp" | (fresh) "BLEN bp < n" "int (length (b_buf bp)) - int (b_rp bp) < n"
    | (space) "BLEN bp < n" "n \<le> int (length (b_buf bp)) - int (b_rp bp)" by linarith
  then show ?thesis
  proof cases
    case enough
    then show ?thesis using c w pos assms(1) by (simp add: pullupblock_def owns_def)
  next
    case fresh
    obtain nbp ka1 where a: "allocb (nat n) ka = Some (nbp, ka1)" "wfb nbp" "bdata nbp = []"
        "nat n \<le> room nbp" "mem_avail ka1" "ka_live ka1 = ka_live ka + 1"
      using allocb_ok [OF assms(1)] by blast
    then have z: "BLEN nbp = 0" by (simp add: BLEN_data)
    have "0 < n" "n \<le> int (room nbp)" using a(4) fresh pos by linarith+
    from pullup_loop_ok [OF a(2) assms(2) this a(5)]
    obtain c' ka' where "pullup_loop nbp c n ka1 = Some (c', ka')" "wfc c'" "owns (nbp # c) ka1 c' ka'"
      "if blocklen c < n then c' = [] else cdata c' = bdata nbp @ cdata c \<and> c' \<noteq> [] \<and> BLEN (hd c') = BLEN nbp + n"
      by blast
    with a z fresh show ?thesis
      by (simp add: pullupblock_def c owns_def del: pullup_loop.simps)
  next
    case space
    have "n - BLEN bp \<le> int (room bp)"
      using space w by (auto simp: BLEN_def room_def wfb_def checkb_def)
    from pullup_loop_ok [OF w _ this assms(1)] space(1)
    obtain c' ka' where "pullup_loop bp bs (n - BLEN bp) ka = Some (c', ka')" "wfc c'" "owns (bp # bs) ka c' ka'"
      "if blocklen bs < n - BLEN bp then c' = []
       else cdata c' = bdata bp @ cdata bs \<and> c' \<noteq> [] \<and> BLEN (hd c') = BLEN bp + (n - BLEN bp)"
      by auto
    with space show ?thesis
      by (simp add: pullupblock_def c owns_def del: pullup_loop.simps split: if_splits)
  qed
qed

lemma trim_head_ok:
  assumes "wfc c" "0 \<le> off" "off \<le> blocklen c" "c \<noteq> []" "mem_avail ka"
  shows "\<exists>bp bs off' ka'. trim_head c off ka = Some (bp # bs, off', ka') \<and> wfb bp \<and> wfc bs \<and>
    0 \<le> off' \<and> off' \<le> BLEN bp \<and> drop (nat off') (cdata (bp # bs)) = drop (nat off) (cdata c) \<and>
    owns c ka (bp # bs) ka'"
  using assms
proof (induction c arbitrary: off ka)
  case (Cons b c)
  have w: "wfb b" "wfc c" using Cons.prems(1) by simp_all
  show ?case
  proof (cases "BLEN b < off")
    case True
    then have nn: "c \<noteq> []" using Cons.prems(3) by auto
    have "0 \<le> off - BLEN b" "off - BLEN b \<le> blocklen c" "mem_avail (freeb b ka)"
      using True Cons.prems(3,5) by simp_all
    from Cons.IH [OF w(2) this(1,2) nn this(3)] obtain bp bs off' ka' where
      "trim_head c (off - BLEN b) (freeb b ka) = Some (bp # bs, off', ka')" "wfb bp" "wfc bs"
      "0 \<le> off'" "off' \<le> BLEN bp" "drop (nat off') (cdata (bp # bs)) = drop (nat (off - BLEN b)) (cdata c)"
      "owns c (freeb b ka) (bp # bs) ka'" by blast
    moreover have "drop (nat off) (cdata (b # c)) = drop (nat (off - BLEN b)) (cdata c)"
      using True w(1) by (simp add: BLEN_data nat_diff_distrib')
    ultimately show ?thesis using True by (simp add: owns_def)
  next
    case False
    then show ?thesis using Cons.prems w by (simp add: owns_def)
  qed
qed simp

lemma trim_tail_ok:
  assumes "wfc c" "0 \<le> len" "len \<le> blocklen c" "c \<noteq> []"
  shows "\<exists>c' rest. trim_tail c len = Some (c', rest) \<and> wfc c' \<and> wfc rest \<and> c' \<noteq> [] \<and>
    cdata c' = take (nat len) (cdata c) \<and> length c' + length rest = length c"
  using assms
proof (induction c arbitrary: len)
  case (Cons b c)
  have w: "wfb b" "wfc c" using Cons.prems(1) by simp_all
  show ?case
  proof (cases "BLEN b < len")
    case True
    then have nn: "c \<noteq> []" using Cons.prems(3) by auto
    have "0 \<le> len - BLEN b" "len - BLEN b \<le> blocklen c" using True Cons.prems(3) by simp_all
    from Cons.IH [OF w(2) this nn] obtain c' rest where
      "trim_tail c (len - BLEN b) = Some (c', rest)" "wfc c'" "wfc rest" "c' \<noteq> []"
      "cdata c' = take (nat (len - BLEN b)) (cdata c)" "length c' + length rest = length c" by blast
    moreover have "take (nat len) (cdata (b # c)) = bdata b @ take (nat (len - BLEN b)) (cdata c)"
      using True w(1) by (simp add: BLEN_data nat_diff_distrib')
    ultimately show ?thesis using True w by auto
  next
    case False
    define b' where "b' = b\<lparr>b_wp := nat (int (b_wp b) - (BLEN b - len))\<rparr>"
    have le: "b_rp b \<le> b_wp b" "b_wp b \<le> length (b_buf b)" using w(1) by (auto simp: wfb_def checkb_def)
    then have e: "nat (int (b_wp b) - (BLEN b - len)) = b_rp b + nat len"
      using Cons.prems(2) by (simp add: BLEN_def nat_add_distrib)
    have "wfb b'" using e le False Cons.prems(2) by (auto simp: b'_def wfb_def checkb_def BLEN_def)
    moreover have "bdata b' = take (nat len) (bdata b)"
      using e le False by (auto simp: b'_def bdata_def BLEN_def min_def)
    moreover have "nat len \<le> length (bdata b)" using False w(1) by (simp add: BLEN_data nat_le_iff)
    ultimately show ?thesis using False w by (auto simp: b'_def [symmetric])
  qed
qed simp

lemma trimblock_ok:
  assumes "mem_avail ka" "wfc c" "c \<noteq> []" "0 \<le> off" "0 \<le> len"
  shows "\<exists>c' ka'. trimblock c off len ka = Some (c', ka') \<and> wfc c' \<and> owns c ka c' ka' \<and>
    (if blocklen c < off + len then c' = []
     else c' \<noteq> [] \<and> cdata c' = take (nat len) (drop (nat off) (cdata c)))"
proof (cases "blocklen c < off + len")
  case True
  then show ?thesis using assms(1) by (simp add: trimblock_def owns_def)
next
  case False
  from trim_head_ok [OF assms(2,4) _ assms(3,1)] False assms(5)
  obtain bp bs off' ka1 where h: "trim_head c off ka = Some (bp # bs, off', ka1)" "wfb bp" "wfc bs"
    "0 \<le> off'" "off' \<le> BLEN bp" "drop (nat off') (cdata (bp # bs)) = drop (nat off) (cdata c)"
    "owns c ka (bp # bs) ka1" by auto
  note sk = skip_ok [OF h(2,4,5)]
  have d: "cdata (skip off' bp # bs) = drop (nat off) (cdata c)"
    using h(2,4,5) h(6) [symmetric] sk(2) by (simp add: BLEN_data nat_le_iff)
  have wf: "wfc (skip off' bp # bs)" using sk(1) h(3) by simp
  have "len \<le> blocklen (skip off' bp # bs)"
    using blocklen_data [OF wf] blocklen_data [OF assms(2)] False assms(4) unfolding d length_drop by linarith
  from trim_tail_ok [OF wf assms(5) this, unfolded d] obtain c' rest where
    "trim_tail (skip off' bp # bs) len = Some (c', rest)" "wfc c'" "c' \<noteq> []"
    "cdata c' = take (nat len) (drop (nat off) (cdata c))" "length c' + length rest = length (skip off' bp # bs)"
    by blast
  with False h(1,7) show ?thesis
    by (simp add: trimblock_def owns_def del: trim_head.simps trim_tail.simps)
qed

lemma copy_loop_ok:
  assumes "wfb nb" "wfc c" "0 \<le> count" "nat count \<le> room nb"
  shows "\<exists>nb'. copy_loop nb c count = Some (nb', max 0 (count - blocklen c)) \<and> wfb nb' \<and>
    bdata nb' = bdata nb @ take (nat count) (cdata c) \<and> nat (count - blocklen c) \<le> room nb'"
  using assms
proof (induction c arbitrary: nb count)
  case (Cons b c)
  have w: "wfb b" "wfc c" using Cons.prems(2) by simp_all
  have pos: "0 \<le> BLEN b" "0 \<le> blocklen c" using w by (simp_all add: BLEN_data blocklen_data)
  show ?case
  proof (cases "0 < count")
    case True
    define l where "l = min (BLEN b) count"
    have l: "0 \<le> l" "l \<le> BLEN b" "l \<le> count" using pos True by (auto simp: l_def)
    have tk: "take (nat l) (bdata b) = take (nat count) (bdata b)"
      using w(1) l by (auto simp: l_def BLEN_data min_def)
    have "length (take (nat l) (bdata b)) = nat l" using w(1) l(2) by (simp add: BLEN_data nat_le_iff min_absorb2)
    moreover have "nat l \<le> room nb" using Cons.prems(4) l by linarith
    ultimately obtain nb1 where nb1: "wrblock nb (take (nat l) (bdata b)) = Some nb1" "wfb nb1"
      "bdata nb1 = bdata nb @ take (nat l) (bdata b)" "room nb1 = room nb - nat l"
      using wrblock_ok [OF Cons.prems(1), of "take (nat l) (bdata b)"] by auto
    have "0 \<le> count - l" "nat (count - l) \<le> room nb1" using l nb1(4) Cons.prems(4) by auto
    from Cons.IH [OF nb1(2) w(2) this] obtain nb' where
      nb': "copy_loop nb1 c (count - l) = Some (nb', max 0 (count - l - blocklen c))" "wfb nb'"
      "bdata nb' = bdata nb1 @ take (nat (count - l)) (cdata c)" "nat (count - l - blocklen c) \<le> room nb'" by blast
    have "take (nat (count - l)) (cdata c) = take (nat count - length (bdata b)) (cdata c)"
      using w(1) pos by (auto simp: l_def BLEN_data min_def nat_diff_distrib')
    moreover have "max 0 (count - l - blocklen c) = max 0 (count - (BLEN b + blocklen c))"
      using pos by (auto simp: l_def min_def)
    moreover have "nat (count - (BLEN b + blocklen c)) = nat (count - l - blocklen c)"
      using pos by (auto simp: l_def min_def)
    ultimately show ?thesis using nb1 nb' True rdblock_data [OF w(1) l(1,2)] tk by (simp add: l_def [symmetric])
  next
    case False
    then show ?thesis using Cons.prems pos by simp
  qed
qed simp

text \<open>The bytes of a string cut or padded with zeros to a length.\<close>

definition fit :: "nat \<Rightarrow> mem \<Rightarrow> mem" where
  "fit n d = take n d @ replicate (n - length d) 0"

lemma length_fit [simp]: "length (fit n d) = n"
  by (simp add: fit_def)

lemma copyblock_ok:
  assumes "mem_avail ka" "wfc c" "0 \<le> n"
  shows "\<exists>b ka'. copyblock c n ka = Some (b, ka') \<and> wfb b \<and> bdata b = fit (nat n) (cdata c) \<and>
    mem_avail ka' \<and> ka_live ka' = ka_live ka + 1"
proof -
  obtain nb ka1 where a: "allocb (nat n) ka = Some (nb, ka1)" "wfb nb" "bdata nb = []"
      "nat n \<le> room nb" "mem_avail ka1" "ka_live ka1 = ka_live ka + 1"
    using allocb_ok [OF assms(1)] by blast
  from copy_loop_ok [OF a(2) assms(2,3) a(4)] a(3) obtain nb1 where
    l: "copy_loop nb c n = Some (nb1, max 0 (n - blocklen c))" "wfb nb1" "bdata nb1 = take (nat n) (cdata c)"
      "nat (n - blocklen c) \<le> room nb1" by auto
  show ?thesis
  proof (cases "n - blocklen c > 0")
    case True
    have "length (replicate (nat (n - blocklen c)) 0 :: mem) \<le> room nb1" using l(4) by simp
    from wrblock_ok [OF l(2) this] obtain nb2 where "wrblock nb1 (replicate (nat (n - blocklen c)) 0) = Some nb2"
      "wfb nb2" "bdata nb2 = bdata nb1 @ replicate (nat (n - blocklen c)) 0" by blast
    moreover have "nat n - length (cdata c) = nat (n - blocklen c)"
      using blocklen_data [OF assms(2)] by (simp add: nat_diff_distrib')
    ultimately show ?thesis using True a l by (simp add: copyblock_def fit_def)
  next
    case False
    then have "nat n - length (cdata c) = 0" using blocklen_data [OF assms(2)] by simp
    then show ?thesis using False a l by (simp add: copyblock_def fit_def)
  qed
qed

lemma pullblock_ok:
  assumes "wfc c" "0 \<le> count" "mem_avail ka"
  shows "\<exists>c' ka'. pullblock c count ka = (min count (blocklen c), c', ka') \<and> wfc c' \<and>
    cdata c' = drop (nat count) (cdata c) \<and> owns c ka c' ka'"
  using assms
proof (induction c arbitrary: count ka)
  case Nil
  then show ?case by (simp add: owns_def)
next
  case (Cons b c)
  have w: "wfb b" "wfc c" using Cons.prems(1) by simp_all
  have pos: "0 \<le> BLEN b" "0 \<le> blocklen c" using w by (simp_all add: BLEN_data blocklen_data)
  consider (zero) "count = 0" | (part) "0 < count" "count < BLEN b" | (whole) "0 < count" "BLEN b \<le> count"
    using Cons.prems(2) by linarith
  then show ?case
  proof cases
    case zero
    then show ?thesis using Cons.prems pos by (simp add: owns_def)
  next
    case part
    then have "BLEN (skip count b) \<noteq> 0" "min (BLEN b) count = count" using skip_ok(3) [of b count] w by auto
    moreover have "drop (nat count) (cdata (b # c)) = drop (nat count) (bdata b) @ cdata c"
      using part w(1) by (simp add: BLEN_data)
    ultimately show ?thesis
      using part pos Cons.prems(3) w skip_ok(1,2) [of b count] by (auto simp: owns_def)
  next
    case whole
    then have z: "BLEN (skip (BLEN b) b) = 0" "min (BLEN b) count = BLEN b"
      using skip_ok(3) [of b "BLEN b"] w pos by auto
    have "0 \<le> count - BLEN b" using whole by simp
    from Cons.IH [OF w(2) this, of "freeb b ka"] Cons.prems(3) obtain c' ka' where
      "pullblock c (count - BLEN b) (freeb b ka) = (min (count - BLEN b) (blocklen c), c', ka')" "wfc c'"
      "cdata c' = drop (nat (count - BLEN b)) (cdata c)" "owns c (freeb b ka) c' ka'" by auto
    moreover have "drop (nat count) (cdata (b # c)) = drop (nat (count - BLEN b)) (cdata c)"
      using whole w(1) by (simp add: BLEN_data nat_diff_distrib')
    moreover have "BLEN b + min (count - BLEN b) (blocklen c) = min count (BLEN b + blocklen c)" by linarith
    ultimately show ?thesis using z whole by (simp add: owns_def Let_def)
  qed
qed

lemma packblock_ok:
  assumes "wfc c" "mem_avail ka"
  shows "\<exists>c' ka'. packblock c ka = Some (c', ka') \<and> wfc c' \<and> map bdata c' = map bdata c \<and> owns c ka c' ka'"
  using assms
proof (induction c arbitrary: ka)
  case (Cons b c)
  have w: "wfb b" "wfc c" using Cons.prems(1) by simp_all
  show ?case
  proof (cases "4 * BLEN b < BALLOC b")
    case True
    obtain nb ka1 where a: "allocb (nat (BLEN b)) ka = Some (nb, ka1)" "wfb nb" "bdata nb = []"
        "nat (BLEN b) \<le> room nb" "mem_avail ka1" "ka_live ka1 = ka_live ka + 1"
      using allocb_ok [OF Cons.prems(2)] by blast
    have "length (bdata b) \<le> room nb" using a(4) w(1) by (simp add: BLEN_data)
    from wrblock_ok [OF a(2) this] obtain nb' where "wrblock nb (bdata b) = Some nb'" "wfb nb'"
      "bdata nb' = bdata b" using a(3) by auto
    moreover have "mem_avail (freeb b ka1)" using a(5) by simp
    moreover from Cons.IH [OF w(2) this] obtain c' ka' where "packblock c (freeb b ka1) = Some (c', ka')" "wfc c'"
      "map bdata c' = map bdata c" "owns c (freeb b ka1) c' ka'" by blast
    ultimately show ?thesis using True a w by (simp add: rdblock_all owns_def)
  next
    case False
    from Cons.IH [OF w(2) Cons.prems(2)] obtain c' ka' where "packblock c ka = Some (c', ka')" "wfc c'"
      "map bdata c' = map bdata c" "owns c ka c' ka'" by blast
    then show ?thesis using False w by (simp add: owns_def)
  qed
qed (simp add: owns_def)

lemma bl2mem_ok:
  assumes "wfc c" "0 \<le> n" "mem_avail ka"
  shows "\<exists>c' ka'. bl2mem c n ka = Some (take (nat n) (cdata c), c', ka') \<and> wfc c' \<and>
    cdata c' = drop (nat n) (cdata c) \<and> owns c ka c' ka' \<and>
    (\<exists>k. map b_wp c' = map b_wp (drop k c) \<and> map b_buf c' = map b_buf (drop k c) \<and>
      (c' = [] \<or> blocklen (take k c) \<le> n \<and> n < blocklen (take (Suc k) c) \<and> tl c' = drop (Suc k) c))"
  using assms
proof (induction c arbitrary: n ka)
  case Nil
  then show ?case by (simp add: owns_def)
next
  case (Cons b c)
  have w: "wfb b" "wfc c" using Cons.prems(1) by simp_all
  show ?case
  proof (cases "BLEN b > n")
    case True
    note sk = skip_ok [OF w(1) Cons.prems(2) less_imp_le [OF True]]
    have "take (nat n) (cdata (b # c)) = take (nat n) (bdata b)"
      "drop (nat n) (cdata (b # c)) = drop (nat n) (bdata b) @ cdata c"
      using True w(1) Cons.prems(2) by (simp_all add: BLEN_data)
    moreover have "b_wp (skip n b) = b_wp b" "b_buf (skip n b) = b_buf b" by (simp_all add: skip_def)
    ultimately show ?thesis using True sk w Cons.prems
      by (auto simp: rdblock_data owns_def intro!: exI [of _ 0])
  next
    case False
    have le: "0 \<le> n - BLEN b" "mem_avail (freeb b ka)" using False Cons.prems(3) by simp_all
    from Cons.IH [OF w(2) le] obtain c' ka' k where
      r: "bl2mem c (n - BLEN b) (freeb b ka) = Some (take (nat (n - BLEN b)) (cdata c), c', ka')" "wfc c'"
      "cdata c' = drop (nat (n - BLEN b)) (cdata c)" "owns c (freeb b ka) c' ka'"
      "map b_wp c' = map b_wp (drop k c)" "map b_buf c' = map b_buf (drop k c)"
      "c' = [] \<or> blocklen (take k c) \<le> n - BLEN b \<and> n - BLEN b < blocklen (take (Suc k) c) \<and> tl c' = drop (Suc k) c"
      by blast
    moreover have "take (nat n) (cdata (b # c)) = bdata b @ take (nat (n - BLEN b)) (cdata c)"
      "drop (nat n) (cdata (b # c)) = drop (nat (n - BLEN b)) (cdata c)"
      using False w(1) by (simp_all add: BLEN_data nat_diff_distrib')
    moreover have "map b_wp c' = map b_wp (drop (Suc k) (b # c))" "map b_buf c' = map b_buf (drop (Suc k) (b # c))"
      "c' = [] \<or> blocklen (take (Suc k) (b # c)) \<le> n \<and> n < blocklen (take (Suc (Suc k)) (b # c)) \<and>
        tl c' = drop (Suc (Suc k)) (b # c)"
      using r(5-7) by auto
    ultimately show ?thesis using False w
      by (intro exI [of _ c'] exI [of _ ka'] conjI exI [of _ "Suc k"]) (simp_all add: rdblock_all owns_def)
  qed
qed

lemma mem2bl_ok:
  assumes "mem_avail ka"
  shows "\<exists>c ka'. mem2bl p ka = Some (c, ka') \<and> wfc c \<and> cdata c = p \<and> c \<noteq> [] \<and> mem_avail ka' \<and>
    ka_live ka' = ka_live ka + int (length c) \<and> list_all (\<lambda>b. length (bdata b) \<le> Maxatomic) c"
  using assms
proof (induction p ka rule: mem2bl.induct)
  case (1 p ka)
  define n where "n = min (length p) Maxatomic"
  obtain nb ka1 where a: "allocb n ka = Some (nb, ka1)" "wfb nb" "bdata nb = []"
      "n \<le> room nb" "mem_avail ka1" "ka_live ka1 = ka_live ka + 1"
    using allocb_ok [OF "1.prems"] by blast
  have n: "n \<le> length p" "n \<le> Maxatomic" by (simp_all add: n_def)
  then have "length (take n p) \<le> room nb" using a(4) by simp
  from wrblock_ok [OF a(2) this] obtain nb' where w: "wrblock nb (take n p) = Some nb'" "wfb nb'"
    "bdata nb' = take n p" using a(3) by auto
  show ?case
  proof (cases "length p - n > 0")
    case True
    from "1.IH" [of n "(nb, ka1)" nb ka1 nb', OF n_def a(1) refl w(1) True a(5)]
    obtain c ka' where "mem2bl (drop n p) ka1 = Some (c, ka')" "wfc c" "cdata c = drop n p" "c \<noteq> []" "mem_avail ka'"
      "ka_live ka' = ka_live ka1 + int (length c)" "list_all (\<lambda>b. length (bdata b) \<le> Maxatomic) c" by blast
    then show ?thesis using True a w n by (subst mem2bl.simps) (simp add: n_def [symmetric] Let_def)
  next
    case False
    then show ?thesis using a w n by (subst mem2bl.simps) (simp add: n_def [symmetric] Let_def)
  qed
qed

lemma unskip_ok:
  assumes "wfb b" "n \<le> b_rp b"
  shows "wfb (b\<lparr>b_rp := b_rp b - n\<rparr>)"
    "\<exists>hdr. length hdr = n \<and> bdata (b\<lparr>b_rp := b_rp b - n\<rparr>) = hdr @ bdata b"
proof -
  have le: "b_rp b \<le> b_wp b" "b_wp b \<le> length (b_buf b)" using assms(1) by (auto simp: wfb_def checkb_def)
  obtain h where h: "drop (b_rp b - n) (b_buf b) = h @ drop (b_rp b) (b_buf b)" "length h = n"
  proof
    have "drop n (drop (b_rp b - n) (b_buf b)) = drop (b_rp b) (b_buf b)" using assms(2) by simp
    then show "drop (b_rp b - n) (b_buf b) = take n (drop (b_rp b - n) (b_buf b)) @ drop (b_rp b) (b_buf b)"
      by (metis append_take_drop_id)
    show "length (take n (drop (b_rp b - n) (b_buf b))) = n" using assms(2) le by simp
  qed
  have "b_wp b - (b_rp b - n) = length h + (b_wp b - b_rp b)" using assms(2) le h(2) by simp
  then have "bdata (b\<lparr>b_rp := b_rp b - n\<rparr>) = h @ bdata b" by (simp add: bdata_def h(1))
  with h(2) show "\<exists>hdr. length hdr = n \<and> bdata (b\<lparr>b_rp := b_rp b - n\<rparr>) = hdr @ bdata b" by blast
  show "wfb (b\<lparr>b_rp := b_rp b - n\<rparr>)" using le by (auto simp: wfb_def checkb_def)
qed

lemma empty_block: "wfb b \<Longrightarrow> bdata b = [] \<longleftrightarrow> b_wp b = b_rp b"
  by (auto simp: bdata_def wfb_def checkb_def)

lemma padblock_ok:
  assumes "mem_avail ka" "wfb b" "0 \<le> n"
  shows "\<exists>b' ka'. padblock [b] n ka = Some ([b'], ka') \<and> wfb b' \<and> mem_avail ka' \<and> ka_live ka' = ka_live ka \<and>
    (\<exists>hdr. length hdr = nat n \<and> bdata b' = hdr @ bdata b)"
proof (cases "int (b_rp b) \<ge> n")
  case True
  then have "nat n \<le> b_rp b" by simp
  with unskip_ok [OF assms(2) this] True assms show ?thesis by (simp add: padblock_def)
next
  case False
  obtain nb ka1 where a: "allocb (nat (n + BLEN b)) ka = Some (nb, ka1)" "wfb nb" "bdata nb = []"
      "nat (n + BLEN b) \<le> room nb" "mem_avail ka1" "ka_live ka1 = ka_live ka + 1"
    using allocb_ok [OF assms(1)] by blast
  define nb1 where "nb1 = nb\<lparr>b_rp := b_rp nb + nat n, b_wp := b_rp nb + nat n\<rparr>"
  have "b_wp nb = b_rp nb" using a(2,3) by (simp add: empty_block)
  then have nb1: "wfb nb1" "bdata nb1 = []" "length (bdata b) \<le> room nb1"
    using a(2,4) assms(2,3) by (auto simp: nb1_def wfb_def checkb_def bdata_def room_def BLEN_def)
  from wrblock_ok [OF nb1(1,3)] nb1(2) obtain nb2 where w: "wrblock nb1 (bdata b) = Some nb2" "wfb nb2"
    "bdata nb2 = bdata b" "b_rp nb2 = b_rp nb1" by auto
  have "nat n \<le> b_rp nb2" by (simp add: w(4) nb1_def)
  from unskip_ok [OF w(2) this] show ?thesis
    using a(1,5,6) w(1,3) False assms(2,3) by (simp add: padblock_def Let_def nb1_def [symmetric] rdblock_all)
qed

lemma adjustblock_ok:
  assumes "mem_avail ka" "wfc c" "c \<noteq> []" "0 \<le> n"
  shows "\<exists>c' ka'. adjustblock c n ka = Some (c', ka') \<and> wfc c' \<and> owns c ka c' ka' \<and> c' \<noteq> [] \<and>
    ((tl c' = [] \<and> bdata (hd c') = fit (nat n) (cdata c)) \<or>
     (tl c' = tl c \<and> bdata (hd c') = fit (nat n) (bdata (hd c))))"
proof -
  obtain b bs where c: "c = b # bs" using assms(3) by (cases c) auto
  have w: "wfb b" "wfc bs" using assms(2) c by simp_all
  consider (over) "int (b_rp b) + n > int (length (b_buf b))"
    | (grow) "int (b_rp b) + n \<le> int (length (b_buf b))" "BLEN b < n"
    | (cut) "int (b_rp b) + n \<le> int (length (b_buf b))" "n \<le> BLEN b" by linarith
  then show ?thesis
  proof cases
    case over
    with copyblock_ok [OF assms(1,2,4)] assms(4) show ?thesis
      by (auto simp: adjustblock_def c owns_def simp del: freeblist.simps)
  next
    case grow
    have r: "nat (n - BLEN b) \<le> room b" using grow w(1) by (auto simp: room_def BLEN_def wfb_def checkb_def)
    then have "length (replicate (nat (n - BLEN b)) 0 :: mem) \<le> room b" by simp
    from wrblock_ok [OF w(1) this] obtain b1 where b1: "wrblock b (replicate (nat (n - BLEN b)) 0) = Some b1"
      "wfb b1" "bdata b1 = bdata b @ replicate (nat (n - BLEN b)) 0" "b_rp b1 = b_rp b" by auto
    have l: "nat (n - BLEN b) = nat n - length (bdata b)" using w(1) by (simp add: BLEN_data nat_diff_distrib')
    have "length (bdata b) \<le> nat n" using grow(2) w(1) by (simp add: BLEN_data le_nat_iff)
    then have d: "bdata b1 = fit (nat n) (bdata b)" using b1(3) l by (simp add: fit_def)
    then have "b_wp b1 = b_rp b + nat n" using length_bdata [OF b1(2)] b1(2,4)
      by (auto simp: wfb_def)
    then have "b1\<lparr>b_wp := b_rp b1 + nat n\<rparr> = b1" using b1(4) by simp
    then show ?thesis using grow b1 w assms(1,4) d by (simp add: adjustblock_def c owns_def)
  next
    case cut
    define b1 where "b1 = b\<lparr>b_wp := b_rp b + nat n\<rparr>"
    have le: "nat n \<le> b_wp b - b_rp b" "b_wp b \<le> length (b_buf b)" "b_rp b \<le> b_wp b"
      using cut w(1) by (auto simp: wfb_def checkb_def BLEN_def)
    then have "wfb b1" "bdata b1 = take (nat n) (bdata b)"
      by (auto simp: b1_def wfb_def checkb_def bdata_def min_def)
    moreover have "nat n \<le> length (bdata b)" using cut(2) w(1) by (simp add: BLEN_data nat_le_iff)
    ultimately show ?thesis using cut w assms(1,4)
      by (simp add: adjustblock_def c owns_def b1_def [symmetric] fit_def)
  qed
qed

subsection \<open>Properties\<close>

text \<open>A sample allocator and a sample block.\<close>

definition sample_ka :: kalloc where
  "sample_ka = \<lparr>ka_align = 8, ka_malloc = (\<lambda>k n. Some (4096, \<lambda>i. 0)), ka_calls = 0, ka_bytes = 0,
     ka_conf = 100000, ka_m1 = 0, ka_m2 = 0, ka_mp = 0, ka_live = 1\<rparr>"

definition sample_block :: block where
  "sample_block = \<lparr>b_buf = [0, 1, 2, 3, 0], b_rp = 1, b_wp = 4, b_own = False, b_intr = False\<rparr>"

lemma sample_ok:
  "mem_avail sample_ka" "wfb sample_block" "bdata sample_block = [1, 2, 3]" "BALLOC sample_block = 5"
  by (simp_all add: mem_avail_def sample_ka_def sample_block_def wfb_def checkb_def bdata_def BALLOC_def)

text \<open>
  Allocation: \<open>allocb\<close> gives an empty block with room for at least the bytes asked for and, when the
  machine's block alignment divides 64, with at least \<open>Hdrspc\<close> bytes in front of its data for
  headers; its panic for a misaligned block is unreachable.
\<close>

theorem allocb_bounds:
  assumes "mem_avail ka" "ka_align ka dvd Hdrspc"
  shows "\<exists>b ka'. allocb sz ka = Some (b, ka') \<and> checkb b \<and> b_rp b = b_wp b \<and> sz \<le> room b \<and> Hdrspc \<le> b_rp b"
proof -
  have a: "0 < ka_align ka" using assms(1) by (simp add: mem_avail_def)
  obtain b ka' where b: "allocb sz ka = Some (b, ka')" "wfb b" "bdata b = []" "sz \<le> room b"
    using allocb_ok [OF assms(1)] by blast
  then have x: "xallocb sz ka = Some (Some b, ka')" by (auto simp: allocb_def bind_eq_Some_conv)
  from xallocb_Some [OF a x] have "Hdrspc \<le> b_rp b" using ROUNDUP_add [OF assms(2) a, of sz] by simp
  with b show ?thesis by (auto simp: empty_block wfb_def)
qed

text \<open>
  \<open>pullupblock\<close> returns a string with the same bytes whose first block holds at least \<open>n\<close> of them,
  or, exactly when the string is shorter, nil; nothing leaks and no access leaves a block.
\<close>

theorem pullupblock_spec:
  assumes "mem_avail ka" "wfc c" "c \<noteq> []"
  shows "\<exists>c' ka'. pullupblock c n ka = Some (c', ka') \<and> wfc c' \<and>
    (c' = [] \<longleftrightarrow> int (length (cdata c)) < n) \<and> (c' \<noteq> [] \<longrightarrow> cdata c' = cdata c \<and> n \<le> BLEN (hd c')) \<and>
    ka_live ka' - int (length c') = ka_live ka - int (length c)"
  using pullupblock_ok [OF assms, of n] blocklen_data [OF assms(2)]
  by (auto simp: owns_def split: if_splits)

text \<open>
  \<open>trimblock\<close> leaves the \<open>len\<close> bytes after the first \<open>off\<close>, or nil when the string is too short for
  that, and frees the blocks it drops.
\<close>

theorem trimblock_spec:
  assumes "mem_avail ka" "wfc c" "c \<noteq> []"
  shows "\<exists>c' ka'. trimblock c (int off) (int len) ka = Some (c', ka') \<and> wfc c' \<and>
    (if length (cdata c) < off + len then c' = [] else c' \<noteq> [] \<and> cdata c' = take len (drop off (cdata c))) \<and>
    ka_live ka' - int (length c') = ka_live ka - int (length c)"
  using trimblock_ok [OF assms, of "int off" "int len"] blocklen_data [OF assms(2)]
  by (auto simp: owns_def split: if_splits)

text \<open>
  Bytes put into blocks by \<open>mem2bl\<close> come out of \<open>bl2mem\<close> as they were, every block being freed on the
  way; a shorter read gives the front of the bytes and leaves the rest in the blocks.
\<close>

theorem mem2bl_bl2mem:
  assumes "mem_avail ka"
  shows "\<exists>c ka1 c' ka2. mem2bl p ka = Some (c, ka1) \<and> bl2mem c (int n) ka1 = Some (take n p, c', ka2) \<and>
    cdata c' = drop n p \<and> ka_live ka2 = ka_live ka + int (length c')"
proof -
  obtain c ka1 where c: "mem2bl p ka = Some (c, ka1)" "wfc c" "cdata c = p" "mem_avail ka1"
    "ka_live ka1 = ka_live ka + int (length c)" using mem2bl_ok [OF assms] by blast
  from bl2mem_ok [OF c(2) _ c(4), of "int n"] obtain c' ka2 where "bl2mem c (int n) ka1 = Some (take n p, c', ka2)"
    "cdata c' = drop n p" "owns c ka1 c' ka2" using c(3) by auto
  with c show ?thesis by (auto simp: owns_def)
qed

theorem allocb_bounds_witness:
  "\<exists>b ka'. allocb 100 sample_ka = Some (b, ka') \<and> 100 \<le> room b \<and> 64 \<le> b_rp b"
  using allocb_bounds [OF sample_ok(1), of 100] by (auto simp: sample_ka_def Hdrspc_def)

theorem pullupblock_spec_witness:
  "\<exists>c' ka'. pullupblock [sample_block, sample_block] 5 sample_ka = Some (c', ka') \<and> cdata c' = [1, 2, 3, 1, 2, 3] \<and>
    5 \<le> BLEN (hd c')"
  using pullupblock_spec [OF sample_ok(1), of "[sample_block, sample_block]" 5] sample_ok by auto

theorem trimblock_spec_witness:
  "\<exists>c' ka'. trimblock [sample_block, sample_block] 2 3 sample_ka = Some (c', ka') \<and> cdata c' = [3, 1, 2]"
  using trimblock_spec [OF sample_ok(1), of "[sample_block, sample_block]" 2 3] sample_ok by auto

theorem mem2bl_bl2mem_witness:
  "\<exists>c ka1 c' ka2. mem2bl [1, 2, 3] sample_ka = Some (c, ka1) \<and> bl2mem c 2 ka1 = Some ([1, 2], c', ka2) \<and> cdata c' = [3]"
  using mem2bl_bl2mem [OF sample_ok(1), of "[1, 2, 3]" 2] by auto

end
