(* ===== verification/Qio.thy ===== *)
theory Qio
  imports Block
begin

text \<open>
  The kernel's I/O queues (the second half of \<^verbatim>\<open>9/port/qio.c\<close>): a queue of data blocks between a
  producer and a consumer with a soft limit, flow control and hangup.

  Each function is the code between taking and releasing the queue's spin lock, so it is one step
  of the system.  Where a process sleeps, the function returns \<open>Asleep\<close> with the state in which it
  sleeps; it resumes by running the rest of the function again.  \<open>q_log\<close> records the calls of
  \<^verbatim>\<open>wakeup\<close>, of the queue's \<^verbatim>\<open>kick\<close> and of its \<^verbatim>\<open>bypass\<close>.  The two mutexes \<^verbatim>\<open>rlock\<close> and \<^verbatim>\<open>wlock\<close> make
  the callers of \<open>qread\<close>, \<open>qbread\<close> and of \<open>qbwrite\<close> exclude each other.
\<close>

subsection \<open>State\<close>

datatype qevent = WakeReader | WakeWriter | Kick | Bypass chain

record queue =
  q_blocks :: chain
  q_len :: int
  q_dlen :: int
  q_limit :: int
  q_inilim :: int
  q_state :: u32int
  q_noblock :: bool
  q_eof :: int
  q_kick :: bool
  q_bypass :: bool
  q_err :: mem
  q_log :: "qevent list"

text \<open>The bits of \<open>q_state\<close> by their position.\<close>

abbreviation (input) Qstarve :: nat where "Qstarve \<equiv> 0"
abbreviation (input) Qmsg :: nat where "Qmsg \<equiv> 1"
abbreviation (input) Qclosed :: nat where "Qclosed \<equiv> 2"
abbreviation (input) Qflow :: nat where "Qflow \<equiv> 3"
abbreviation (input) Qcoalesce :: nat where "Qcoalesce \<equiv> 4"
abbreviation (input) Qkick :: nat where "Qkick \<equiv> 5"

definition qis :: "nat \<Rightarrow> queue \<Rightarrow> bool" where
  "qis f q = bit (q_state q) f"

definition qset :: "nat \<Rightarrow> queue \<Rightarrow> queue" where
  "qset f q = q\<lparr>q_state := set_bit f (q_state q)\<rparr>"

definition qclear :: "nat \<Rightarrow> queue \<Rightarrow> queue" where
  "qclear f q = q\<lparr>q_state := unset_bit f (q_state q)\<rparr>"

definition event :: "qevent \<Rightarrow> queue \<Rightarrow> queue" where
  "event e q = q\<lparr>q_log := q_log q @ [e]\<rparr>"

text \<open>What a function that may sleep or raise an error gives.\<close>

datatype 'a qres = Done 'a | Raised mem | Asleep

definition Ehungup :: mem where "Ehungup = bytes ''i/o on hungup channel''"

text \<open>\<open>limit/2\<close> in C truncates towards zero.\<close>

definition half :: "int \<Rightarrow> int" where
  "half n = (if n < 0 then - (- n div 2) else n div 2)"

text \<open>Taking blocks off the accounts and putting them on.\<close>

definition qaddlist :: "queue \<Rightarrow> chain \<Rightarrow> queue" where
  "qaddlist q c = q\<lparr>q_blocks := q_blocks q @ c, q_len := q_len q + blockalloclen c,
     q_dlen := q_dlen q + blocklen c\<rparr>"

definition qremove :: "queue \<Rightarrow> block option \<times> queue" where
  "qremove q = (case q_blocks q of
       [] \<Rightarrow> (None, q)
     | b # bs \<Rightarrow> (Some b, q\<lparr>q_blocks := bs, q_dlen := q_dlen q - BLEN b, q_len := q_len q - BALLOC b\<rparr>))"

definition qputback :: "queue \<Rightarrow> block \<Rightarrow> queue" where
  "qputback q b = q\<lparr>q_blocks := b # q_blocks q, q_len := q_len q + BALLOC b, q_dlen := q_dlen q + BLEN b\<rparr>"

text \<open>\<^verbatim>\<open>if writer flow controlled, restart\<close>, without and with the \<^verbatim>\<open>kick\<close>.\<close>

definition unflow :: "queue \<Rightarrow> queue" where
  "unflow q = (if qis Qflow q \<and> q_len q < half (q_limit q) then event WakeWriter (qclear Qflow q) else q)"

definition qwakeup_iunlock :: "queue \<Rightarrow> queue" where
  "qwakeup_iunlock q =
     (if qis Qflow q \<and> q_len q < half (q_limit q) then
        (let q = qclear Qflow q in
         event WakeWriter (if q_kick q then event Kick q else q))
      else q)"

text \<open>\<^verbatim>\<open>if(q->state & Qstarve)\<close>: the consumer is woken.\<close>

definition unstarve :: "queue \<Rightarrow> bool \<times> queue" where
  "unstarve q = (if qis Qstarve q then (True, qclear Qstarve q) else (False, q))"

definition wake_if :: "bool \<times> queue \<Rightarrow> queue" where
  "wake_if dq = (if fst dq then event WakeReader (snd dq) else snd dq)"

subsection \<open>Consumers at interrupt level\<close>

definition qget :: "queue \<Rightarrow> block option \<times> queue" where
  "qget q = (case qremove q of
       (None, q) \<Rightarrow> (None, qset Qstarve q)
     | (Some b, q) \<Rightarrow> (Some b, unflow q))"

fun discard_loop :: "chain \<Rightarrow> int \<Rightarrow> int \<Rightarrow> queue \<Rightarrow> kalloc \<Rightarrow> int \<times> queue \<times> kalloc" where
  "discard_loop [] sofar len q ka = (sofar, q\<lparr>q_blocks := []\<rparr>, ka)"
| "discard_loop (b # bs) sofar len q ka =
     (if sofar < len then
        (let n = BLEN b in
         if n \<le> len - sofar then
           discard_loop bs (sofar + n) len
             (q\<lparr>q_blocks := bs, q_len := q_len q - BALLOC b, q_dlen := q_dlen q - BLEN b\<rparr>) (freeb b ka)
         else
           (let n = len - sofar in
            (sofar + n, q\<lparr>q_blocks := skip n b # bs, q_dlen := q_dlen q - n\<rparr>, ka)))
      else (sofar, q\<lparr>q_blocks := b # bs\<rparr>, ka))"

definition qdiscard :: "queue \<Rightarrow> int \<Rightarrow> kalloc \<Rightarrow> int \<times> queue \<times> kalloc" where
  "qdiscard q len ka =
     (let (sofar, q, ka) = discard_loop (q_blocks q) 0 len q ka in (sofar, unflow q, ka))"

text \<open>The loop over empty blocks; \<open>tf\<close> is \<^verbatim>\<open>tofree\<close>.\<close>

fun skip_empty :: "chain \<Rightarrow> queue \<Rightarrow> chain \<Rightarrow> queue \<times> chain" where
  "skip_empty [] q tf = (q\<lparr>q_blocks := []\<rparr>, tf)"
| "skip_empty (b # bs) q tf =
     (if BLEN b > 0 then (q\<lparr>q_blocks := b # bs\<rparr>, tf)
      else skip_empty bs (q\<lparr>q_blocks := bs, q_len := q_len q - BALLOC b\<rparr>) (b # tf))"

definition qconsume :: "queue \<Rightarrow> int \<Rightarrow> kalloc \<Rightarrow> (int \<times> mem \<times> queue \<times> kalloc) option" where
  "qconsume q len ka =
     (let (q, tf) = skip_empty (q_blocks q) q [] in
      case q_blocks q of
        [] \<Rightarrow> Some (-1, [], qset Qstarve q, ka)
      | b # bs \<Rightarrow> do {
          let n = BLEN b;
          let len = min n len;
          d \<leftarrow> rdblock b 0 len;
          let b = skip len b;
          let q = q\<lparr>q_blocks := b # bs, q_dlen := q_dlen q - len\<rparr>;
          let (q, tf) = (if qis Qmsg q \<or> len = n
            then (q\<lparr>q_blocks := bs, q_len := q_len q - BALLOC b, q_dlen := q_dlen q - BLEN b\<rparr>, b # tf)
            else (q, tf));
          let q = unflow q;
          Some (len, d, q, freeblist tf ka) })"

subsection \<open>Producers at interrupt level\<close>

text \<open>\<open>qpass\<close> and \<open>qpassnolim\<close> after their tests.\<close>

definition passlist :: "queue \<Rightarrow> chain \<Rightarrow> int \<times> queue" where
  "passlist q c =
     (let q = qaddlist q c;
          q = (if q_len q \<ge> half (q_limit q) then qset Qflow q else q) in
      (blockalloclen c, wake_if (unstarve q)))"

definition qpassnolim :: "queue \<Rightarrow> chain \<Rightarrow> kalloc \<Rightarrow> (int \<times> queue \<times> kalloc) option" where
  "qpassnolim q c ka =
     (case c of
        [] \<Rightarrow> None
      | b # bs \<Rightarrow>
          if qis Qclosed q then Some (BALLOC b, q, freeblist c ka)
          else (let (len, q) = passlist q c in Some (len, q, ka)))"

definition qpass :: "queue \<Rightarrow> chain \<Rightarrow> kalloc \<Rightarrow> (int \<times> queue \<times> kalloc) option" where
  "qpass q c ka =
     (if q_len q \<ge> q_limit q then Some (-1, q, freeblist c ka)
      else (case c of
        [] \<Rightarrow> None
      | b # bs \<Rightarrow>
          if qis Qclosed q then Some (BALLOC b, q, freeblist c ka)
          else (let (len, q) = passlist q c in Some (len, q, ka))))"

definition qproduce :: "queue \<Rightarrow> mem \<Rightarrow> kalloc \<Rightarrow> (int \<times> queue \<times> kalloc) option" where
  "qproduce q p ka =
     (if q_len q \<ge> q_limit q then Some (-1, qset Qflow q, ka)
      else do {
        (b, ka) \<leftarrow> iallocb (length p) ka;
        case b of
          None \<Rightarrow> Some (0, q, ka)
        | Some b \<Rightarrow> do {
            b \<leftarrow> wrblock b p;
            let q = qaddlist q [b];
            let (w, q) = unstarve q;
            let q = (if q_len q \<ge> q_limit q then qset Qflow q else q);
            Some (int (length p), wake_if (w, q), ka) } })"

text \<open>\<open>qcopy\<close>: first to the offset, then copying; \<open>off\<close> counts down and so does \<open>len\<close>.\<close>

fun qcopy_seek :: "chain \<Rightarrow> int \<Rightarrow> (int \<times> chain) option" where
  "qcopy_seek [] off = None"
| "qcopy_seek (b # bs) off = (if BLEN b > off then Some (off, b # bs) else qcopy_seek bs (off - BLEN b))"

fun qcopy_loop :: "block \<Rightarrow> int \<Rightarrow> chain \<Rightarrow> int \<Rightarrow> block option" where
  "qcopy_loop nb start [] len = Some nb"
| "qcopy_loop nb start (b # bs) len =
     (if len > 0 then do {
        let n = min (BLEN b - start) len;
        d \<leftarrow> rdblock b start n;
        nb \<leftarrow> wrblock nb d;
        qcopy_loop nb 0 bs (len - n) }
      else Some nb)"

definition qcopy :: "queue \<Rightarrow> nat \<Rightarrow> int \<Rightarrow> kalloc \<Rightarrow> (block \<times> kalloc) option" where
  "qcopy q len offset ka = do {
     (nb, ka) \<leftarrow> allocb len ka;
     case qcopy_seek (q_blocks q) offset of
       None \<Rightarrow> Some (nb, ka)
     | Some (start, c) \<Rightarrow> do {
         nb \<leftarrow> qcopy_loop nb start c (int len);
         Some (nb, ka) } }"

subsection \<open>Opening\<close>

definition qopen :: "int \<Rightarrow> u32int \<Rightarrow> bool \<Rightarrow> queue" where
  "qopen limit msg kick = qset Qstarve
     \<lparr>q_blocks = [], q_len = 0, q_dlen = 0, q_limit = limit, q_inilim = limit, q_state = msg, q_noblock = False,
      q_eof = 0, q_kick = kick, q_bypass = False, q_err = [], q_log = []\<rparr>"

definition qbypass :: queue where
  "qbypass = \<lparr>q_blocks = [], q_len = 0, q_dlen = 0, q_limit = 0, q_inilim = 0, q_state = 0, q_noblock = False,
      q_eof = 0, q_kick = False, q_bypass = True, q_err = [], q_log = []\<rparr>"

subsection \<open>Readers\<close>

definition notempty :: "queue \<Rightarrow> bool" where
  "notempty q = (qis Qclosed q \<or> q_blocks q \<noteq> [])"

text \<open>One turn of the loop of \<open>qwait\<close>: \<open>None\<close> is going to sleep.\<close>

definition qwait :: "queue \<Rightarrow> int option \<times> queue" where
  "qwait q =
     (if q_blocks q \<noteq> [] then (Some 1, q)
      else if qis Qclosed q then
        (let q = q\<lparr>q_eof := q_eof q + 1\<rparr> in
         if q_eof q > 3 then (Some (-1), q)
         else if q_err q \<noteq> [] \<and> q_err q \<noteq> Ehungup then (Some (-1), q)
         else (Some 0, q))
      else (None, qset Qstarve q))"

definition qbread :: "queue \<Rightarrow> int \<Rightarrow> kalloc \<Rightarrow> (block option qres \<times> queue \<times> kalloc) option" where
  "qbread q len ka =
     (case qwait q of
        (None, q) \<Rightarrow> Some (Asleep, q, ka)
      | (Some w, q) \<Rightarrow>
          if w = 0 then Some (Done None, q, ka)
          else if w = -1 then Some (Raised (q_err q), q, ka)
          else (let (b, q) = qremove q in do {
            nb \<leftarrow> b;
            let n = BLEN nb;
            (nb, q, ka) \<leftarrow> (if n > len then do {
                (q, ka) \<leftarrow> (if \<not> qis Qmsg q then do {
                    let n = n - len;
                    (b, ka) \<leftarrow> allocb (nat n) ka;
                    d \<leftarrow> rdblock nb len n;
                    b \<leftarrow> wrblock b d;
                    Some (qputback q b, ka) }
                  else Some (q, ka));
                Some (nb\<lparr>b_wp := nat (int (b_rp nb) + len)\<rparr>, q, ka) }
              else Some (nb, q, ka));
            Some (Done (Some nb), qwakeup_iunlock q, ka) }))"

text \<open>The loop that grabs the blocks of one read when coalescing; \<open>n\<close> counts their bytes.\<close>

fun grab :: "chain \<Rightarrow> queue \<Rightarrow> int \<Rightarrow> int \<Rightarrow> chain \<times> int \<times> queue" where
  "grab [] q n len = ([], n, q)"
| "grab (b # bs) q n len =
     (let q = snd (qremove q); n = n + BLEN b in
      if n \<ge> len \<or> bs = [] then ([b], n, q)
      else (let (c, n, q) = grab bs q n len in (b # c, n, q)))"

text \<open>\<open>qread\<close> up to its \<^verbatim>\<open>iunlock\<close>: the blocks it has taken and their length.\<close>

function qread_take :: "queue \<Rightarrow> int \<Rightarrow> kalloc \<Rightarrow> ((chain \<times> int) option qres \<times> queue \<times> kalloc)" where
  "qread_take q len ka =
     (case qwait q of
        (None, q1) \<Rightarrow> (Asleep, q1, ka)
      | (Some w, q1) \<Rightarrow>
          if w = 0 then (Done None, q1, ka)
          else if w = -1 then (Raised (q_err q1), q1, ka)
          else (case q_blocks q of
              [] \<Rightarrow> (Asleep, q1, ka)
            | b # bs \<Rightarrow>
                if qis Qcoalesce q1 then
                  (if BLEN b \<le> 0 then qread_take (snd (qremove q1)) len (freeb b ka)
                   else (let (c, n, q2) = grab (q_blocks q1) q1 0 len in (Done (Some (c, n)), q2, ka)))
                else (Done (Some ([b], BLEN b)), snd (qremove q1), ka)))"
  by pat_completeness auto
termination
  by (relation "measure (\<lambda>(q, len, ka). length (q_blocks q))")
    (auto simp: qwait_def qremove_def Let_def split: if_splits list.splits)

declare qread_take.simps [simp del]

text \<open>The rest of \<open>qread\<close>: the count and the bytes.\<close>

definition qread_give :: "queue \<Rightarrow> chain \<times> int \<Rightarrow> int \<Rightarrow> kalloc \<Rightarrow> (int \<times> mem \<times> queue \<times> kalloc) option" where
  "qread_give q cn len ka = do {
     (d, c, ka) \<leftarrow> bl2mem (fst cn) len ka;
     (n, q, ka) \<leftarrow> (case c of
         [] \<Rightarrow> Some (snd cn, q, ka)
       | b # bs \<Rightarrow>
           if qis Qmsg q then Some (snd cn - BLEN b, q, freeb b ka)
           else Some (snd cn - BLEN b, qputback q b, ka));
     Some (n, d, qwakeup_iunlock q, ka) }"

definition qread :: "queue \<Rightarrow> int \<Rightarrow> kalloc \<Rightarrow> ((int \<times> mem) qres \<times> queue \<times> kalloc) option" where
  "qread q len ka =
     (case qread_take q len ka of
        (Asleep, q, ka) \<Rightarrow> Some (Asleep, q, ka)
      | (Raised e, q, ka) \<Rightarrow> Some (Raised e, q, ka)
      | (Done None, q, ka) \<Rightarrow> Some (Done (0, []), q, ka)
      | (Done (Some cn), q, ka) \<Rightarrow> do {
          (n, d, q, ka) \<leftarrow> qread_give q cn len ka;
          Some (Done (n, d), q, ka) })"

subsection \<open>Writers\<close>

definition qnotfull :: "queue \<Rightarrow> bool" where
  "qnotfull q = (q_len q < q_limit q \<or> qis Qclosed q)"

text \<open>
  \<open>qbwrite_put\<close> is \<open>qbwrite\<close> up to its flow control loop; it queues the first block of \<open>c\<close> and cuts
  the rest off.  \<open>Asleep\<close> is going on to the loop.
\<close>

definition qbwrite_put :: "queue \<Rightarrow> chain \<Rightarrow> kalloc \<Rightarrow> (int qres \<times> queue \<times> kalloc) option" where
  "qbwrite_put q c ka =
     (case c of
        [] \<Rightarrow> None
      | b # bs \<Rightarrow>
          if q_bypass q then Some (Done (BLEN b), event (Bypass c) q, ka)
          else if qis Qclosed q then Some (Raised (q_err q), q, freeb b ka)
          else if q_len q \<ge> q_limit q \<and> q_noblock q then Some (Done (BLEN b), q, freeb b ka)
          else
            (let (w, q) = unstarve (qaddlist q [b]);
                 q = (if q_kick q \<and> (w \<or> qis Qkick q) then event Kick q else q) in
             Some (Asleep, wake_if (w, q), ka)))"

text \<open>The test of the loop, and \<open>qbwrite\<close>; \<open>Asleep\<close>: the block is queued and the writer waits.\<close>

definition qbwrite_go :: "queue \<Rightarrow> bool" where
  "qbwrite_go q = (q_noblock q \<or> qnotfull q)"

definition qbwrite :: "queue \<Rightarrow> chain \<Rightarrow> kalloc \<Rightarrow> (int qres \<times> queue \<times> kalloc) option" where
  "qbwrite q c ka = do {
     (r, q, ka) \<leftarrow> qbwrite_put q c ka;
     Some (case r of
         Asleep \<Rightarrow> (if qbwrite_go q then (Done (BLEN (hd c)), q, ka) else (Asleep, qset Qflow q, ka))
       | _ \<Rightarrow> (r, q, ka)) }"

text \<open>
  The \<^verbatim>\<open>do\<close> loop of \<open>qwrite\<close> over the bytes \<open>p\<close> that are left; \<open>sofar\<close> counts the ones queued.
  After a sleep the writer goes on with the rest.
\<close>

function qwrite_loop :: "queue \<Rightarrow> mem \<Rightarrow> int \<Rightarrow> kalloc \<Rightarrow> (int qres \<times> int \<times> queue \<times> kalloc) option" where
  "qwrite_loop q p sofar ka = do {
     let n = min (length p) Maxatomic;
     (b, ka) \<leftarrow> allocb n ka;
     b \<leftarrow> wrblock b (take n p);
     (r, q, ka) \<leftarrow> qbwrite q [b] ka;
     case r of
       Raised e \<Rightarrow> Some (Raised e, sofar, q, ka)
     | Asleep \<Rightarrow> Some (Asleep, sofar + int n, q, ka)
     | Done _ \<Rightarrow>
         if n < length p \<and> \<not> qis Qmsg q then qwrite_loop q (drop n p) (sofar + int n) ka
         else Some (Done (sofar + int (length p)), sofar + int n, q, ka) }"
  by pat_completeness auto
termination by (relation "measure (\<lambda>(q, p, sofar, ka). length p)") (auto simp: Maxatomic_def)

declare qwrite_loop.simps [simp del]

definition qwrite :: "queue \<Rightarrow> mem \<Rightarrow> kalloc \<Rightarrow> (int qres \<times> int \<times> queue \<times> kalloc) option" where
  "qwrite q p ka = qwrite_loop q p 0 ka"

text \<open>\<open>qiwrite\<close>, whose \<open>dowakeup\<close> (here \<open>w\<close>) stays set once it is.\<close>

function qiwrite_loop :: "queue \<Rightarrow> mem \<Rightarrow> int \<Rightarrow> bool \<Rightarrow> kalloc \<Rightarrow> (int \<times> queue \<times> kalloc) option" where
  "qiwrite_loop q p sofar w ka = do {
     let n = min (length p) Maxatomic;
     (b, ka) \<leftarrow> iallocb n ka;
     case b of
       None \<Rightarrow> Some (sofar, q, ka)
     | Some b \<Rightarrow> do {
         b \<leftarrow> wrblock b (take n p);
         if q_dlen q \<ge> 16 * 1024 then Some (sofar, q, freeb b ka)
         else do {
           let (s, q) = unstarve (qaddlist q [b]);
           let w = (w \<or> s);
           let q = (if w then event WakeReader (if q_kick q then event Kick q else q) else q);
           if n < length p \<and> \<not> qis Qmsg q then qiwrite_loop q (drop n p) (sofar + int n) w ka
           else Some (sofar + int n, q, ka) } } }"
  by pat_completeness auto
termination by (relation "measure (\<lambda>(q, p, sofar, w, ka). length p)") (auto simp: Maxatomic_def)

declare qiwrite_loop.simps [simp del]

definition qiwrite :: "queue \<Rightarrow> mem \<Rightarrow> kalloc \<Rightarrow> (int \<times> queue \<times> kalloc) option" where
  "qiwrite q p ka = qiwrite_loop q p 0 False ka"

subsection \<open>Closing and control\<close>

definition wake_both :: "queue \<Rightarrow> queue" where
  "wake_both q = event WakeWriter (event WakeReader q)"

definition qclose :: "queue \<Rightarrow> kalloc \<Rightarrow> queue \<times> kalloc" where
  "qclose q ka =
     (let c = q_blocks q; q = qclear Qstarve (qclear Qflow (qset Qclosed q)) in
      (wake_both (q\<lparr>q_err := Ehungup, q_blocks := [], q_len := 0, q_dlen := 0, q_noblock := False\<rparr>),
       freeblist c ka))"

definition qhangup :: "queue \<Rightarrow> cstr \<Rightarrow> queue" where
  "qhangup q msg =
     wake_both ((qset Qclosed q)\<lparr>q_err := (case msg of None \<Rightarrow> Ehungup
        | Some m \<Rightarrow> if m = [] then Ehungup else take 127 m)\<rparr>)"

definition qisclosed :: "queue \<Rightarrow> bool" where
  "qisclosed q = qis Qclosed q"

definition qreopen :: "queue \<Rightarrow> queue" where
  "qreopen q = (qset Qstarve (qclear Qclosed q))\<lparr>q_eof := 0, q_limit := q_inilim q\<rparr>"

definition qlen :: "queue \<Rightarrow> int" where
  "qlen q = q_dlen q"

definition qcnt :: "queue \<Rightarrow> nat" where
  "qcnt q = length (q_blocks q)"

definition qwindow :: "queue \<Rightarrow> int" where
  "qwindow q = max 0 (q_limit q - q_len q)"

definition qcanread :: "queue \<Rightarrow> bool" where
  "qcanread q = (q_blocks q \<noteq> [])"

definition qsetlimit :: "queue \<Rightarrow> int \<Rightarrow> queue" where
  "qsetlimit q limit = q\<lparr>q_limit := limit\<rparr>"

definition qnoblock :: "queue \<Rightarrow> bool \<Rightarrow> queue" where
  "qnoblock q onoff = q\<lparr>q_noblock := onoff\<rparr>"

definition qflush :: "queue \<Rightarrow> kalloc \<Rightarrow> queue \<times> kalloc" where
  "qflush q ka = (event WakeWriter (q\<lparr>q_blocks := [], q_len := 0, q_dlen := 0\<rparr>), freeblist (q_blocks q) ka)"

definition qfull :: "queue \<Rightarrow> bool" where
  "qfull q = qis Qflow q"

definition qstate :: "queue \<Rightarrow> u32int" where
  "qstate q = q_state q"

text \<open>\<open>pullupqueue\<close> changes the blocks and leaves the accounts alone.\<close>

definition pullupqueue :: "queue \<Rightarrow> int \<Rightarrow> kalloc \<Rightarrow> (block option \<times> queue \<times> kalloc) option" where
  "pullupqueue q n ka =
     (case q_blocks q of
        [] \<Rightarrow> None
      | b # bs \<Rightarrow>
          if BLEN b \<ge> n then Some (Some b, q, ka)
          else do {
            (c, ka) \<leftarrow> pullupblock (q_blocks q) n ka;
            Some (case c of [] \<Rightarrow> None | b # _ \<Rightarrow> Some b, q\<lparr>q_blocks := c\<rparr>, ka) })"

subsection \<open>Views of a queue\<close>

named_theorems q_simps \<open>fields of a queue under the operations that leave them alone\<close>

lemma qset_fields [simp, q_simps]:
  "q_blocks (qset f q) = q_blocks q" "q_len (qset f q) = q_len q" "q_dlen (qset f q) = q_dlen q"
  "q_limit (qset f q) = q_limit q" "q_inilim (qset f q) = q_inilim q" "q_noblock (qset f q) = q_noblock q"
  "q_eof (qset f q) = q_eof q" "q_kick (qset f q) = q_kick q" "q_bypass (qset f q) = q_bypass q"
  "q_err (qset f q) = q_err q" "q_log (qset f q) = q_log q"
  by (simp_all add: qset_def)

lemma qclear_fields [simp, q_simps]:
  "q_blocks (qclear f q) = q_blocks q" "q_len (qclear f q) = q_len q" "q_dlen (qclear f q) = q_dlen q"
  "q_limit (qclear f q) = q_limit q" "q_inilim (qclear f q) = q_inilim q" "q_noblock (qclear f q) = q_noblock q"
  "q_eof (qclear f q) = q_eof q" "q_kick (qclear f q) = q_kick q" "q_bypass (qclear f q) = q_bypass q"
  "q_err (qclear f q) = q_err q" "q_log (qclear f q) = q_log q"
  by (simp_all add: qclear_def)

lemma event_fields [simp, q_simps]:
  "q_blocks (event e q) = q_blocks q" "q_len (event e q) = q_len q" "q_dlen (event e q) = q_dlen q"
  "q_limit (event e q) = q_limit q" "q_inilim (event e q) = q_inilim q" "q_noblock (event e q) = q_noblock q"
  "q_eof (event e q) = q_eof q" "q_kick (event e q) = q_kick q" "q_bypass (event e q) = q_bypass q"
  "q_err (event e q) = q_err q" "q_log (event e q) = q_log q @ [e]" "qis f (event e q) = qis f q"
  by (simp_all add: event_def qis_def)

lemma qis_qset: "f < 32 \<Longrightarrow> qis g (qset f q) \<longleftrightarrow> g = f \<or> qis g q"
  by (auto simp: qis_def qset_def bit_simps)

lemma qis_qclear: "qis g (qclear f q) \<longleftrightarrow> g \<noteq> f \<and> qis g q"
  by (auto simp: qis_def qclear_def bit_simps)

lemma qis_set [simp, q_simps]:
  "qis g (qset 0 q) \<longleftrightarrow> g = 0 \<or> qis g q" "qis g (qset 2 q) \<longleftrightarrow> g = 2 \<or> qis g q"
  "qis g (qset 3 q) \<longleftrightarrow> g = 3 \<or> qis g q" "qis g (qclear f q) \<longleftrightarrow> g \<noteq> f \<and> qis g q"
  by (simp_all add: qis_qset qis_qclear)

lemma qis_fields [simp, q_simps]:
  "qis f (q\<lparr>q_blocks := a\<rparr>) = qis f q" "qis f (q\<lparr>q_len := b\<rparr>) = qis f q" "qis f (q\<lparr>q_dlen := c\<rparr>) = qis f q"
  "qis f (q\<lparr>q_limit := d\<rparr>) = qis f q" "qis f (q\<lparr>q_noblock := e\<rparr>) = qis f q" "qis f (q\<lparr>q_eof := g\<rparr>) = qis f q"
  "qis f (q\<lparr>q_err := h\<rparr>) = qis f q"
  by (simp_all add: qis_def)

text \<open>The accounts of a queue are right.\<close>

definition qinv :: "queue \<Rightarrow> bool" where
  "qinv q \<longleftrightarrow> wfc (q_blocks q) \<and> q_len q = blockalloclen (q_blocks q) \<and> q_dlen q = blocklen (q_blocks q)"

definition qdata :: "queue \<Rightarrow> mem" where
  "qdata q = cdata (q_blocks q)"

text \<open>\<open>qlike\<close>: nothing but the two flow bits and the log differ.\<close>

definition qlike :: "queue \<Rightarrow> queue \<Rightarrow> bool" where
  "qlike q' q \<longleftrightarrow> q_blocks q' = q_blocks q \<and> q_len q' = q_len q \<and> q_dlen q' = q_dlen q \<and> q_limit q' = q_limit q \<and>
     q_inilim q' = q_inilim q \<and> q_noblock q' = q_noblock q \<and> q_eof q' = q_eof q \<and> q_kick q' = q_kick q \<and>
     q_bypass q' = q_bypass q \<and> q_err q' = q_err q \<and>
     (\<forall>f. f \<noteq> Qstarve \<longrightarrow> f \<noteq> Qflow \<longrightarrow> qis f q' = qis f q)"

lemma qlike_refl [simp]: "qlike q q"
  by (simp add: qlike_def)

lemma qlike_trans [trans]: "qlike a b \<Longrightarrow> qlike b c \<Longrightarrow> qlike a c"
  by (simp add: qlike_def)

lemma qlike_ops [simp]:
  "qlike (event e q) q" "qlike (qset 0 q) q" "qlike (qset 3 q) q" "qlike (qclear 0 q) q" "qlike (qclear 3 q) q"
  "qlike (unflow q) q" "qlike (qwakeup_iunlock q) q" "qlike (snd (unstarve q)) q" "qlike (wake_if (w, q)) q"
  by (auto simp: qlike_def unflow_def qwakeup_iunlock_def unstarve_def wake_if_def Let_def)

lemma qlike_view: "qlike q' q \<Longrightarrow> qinv q' = qinv q \<and> qdata q' = qdata q"
  by (simp add: qlike_def qinv_def qdata_def)

lemma qinv_nonneg:
  assumes "qinv q"
  shows "0 \<le> q_len q" "0 \<le> q_dlen q" "q_dlen q = int (length (qdata q))"
proof -
  show d: "q_dlen q = int (length (qdata q))"
    using assms by (simp add: qinv_def qdata_def blocklen_data)
  then show "0 \<le> q_dlen q" by simp
  have "0 \<le> blockalloclen c" for c by (induction c) (auto simp: BALLOC_def)
  then show "0 \<le> q_len q" using assms by (simp add: qinv_def)
qed

subsection \<open>Adding and removing blocks\<close>

text \<open>\<open>qcut q c\<close>: the blocks \<open>c\<close> at the front are taken off.\<close>

definition qcut :: "queue \<Rightarrow> chain \<Rightarrow> queue" where
  "qcut q c = q\<lparr>q_blocks := drop (length c) (q_blocks q), q_dlen := q_dlen q - blocklen c,
     q_len := q_len q - blockalloclen c\<rparr>"

lemma qcut_fields [simp, q_simps]:
  "q_limit (qcut q c) = q_limit q" "q_inilim (qcut q c) = q_inilim q" "q_noblock (qcut q c) = q_noblock q"
  "q_eof (qcut q c) = q_eof q" "q_kick (qcut q c) = q_kick q" "q_bypass (qcut q c) = q_bypass q"
  "q_err (qcut q c) = q_err q" "q_log (qcut q c) = q_log q" "qis f (qcut q c) = qis f q"
  by (simp_all add: qcut_def qis_def)

lemma qcut_Nil [simp]: "qcut q [] = q"
  by (simp add: qcut_def)

lemma qcut_qcut: "qcut (qcut q c) d = qcut q (c @ d)"
  by (simp add: qcut_def add.commute)

lemma qremove_Cons: "q_blocks q = b # bs \<Longrightarrow> qremove q = (Some b, qcut q [b])"
  by (simp add: qremove_def qcut_def)

lemma qcut_ok:
  assumes "qinv q" "q_blocks q = c @ r"
  shows "qinv (qcut q c)" "q_blocks (qcut q c) = r" "qdata q = cdata c @ qdata (qcut q c)"
    "q_len (qcut q c) = q_len q - blockalloclen c" "wfc c"
  using assms by (auto simp: qinv_def qcut_def qdata_def)

lemma qaddlist_ok:
  assumes "qinv q" "wfc c"
  shows "qinv (qaddlist q c)" "qdata (qaddlist q c) = qdata q @ cdata c"
    "q_blocks (qaddlist q c) = q_blocks q @ c"
  using assms by (auto simp: qinv_def qaddlist_def qdata_def)

lemma qaddlist_fields [simp, q_simps]:
  "q_limit (qaddlist q c) = q_limit q" "q_inilim (qaddlist q c) = q_inilim q" "q_noblock (qaddlist q c) = q_noblock q"
  "q_eof (qaddlist q c) = q_eof q" "q_kick (qaddlist q c) = q_kick q" "q_bypass (qaddlist q c) = q_bypass q"
  "q_err (qaddlist q c) = q_err q" "q_log (qaddlist q c) = q_log q" "qis f (qaddlist q c) = qis f q"
  "q_len (qaddlist q c) = q_len q + blockalloclen c"
  by (simp_all add: qaddlist_def qis_def)

lemma qputback_ok:
  assumes "qinv q" "wfb b"
  shows "qinv (qputback q b)" "qdata (qputback q b) = bdata b @ qdata q" "q_blocks (qputback q b) = b # q_blocks q"
  using assms by (auto simp: qinv_def qputback_def qdata_def)

lemma qputback_fields [simp, q_simps]:
  "q_limit (qputback q b) = q_limit q" "q_inilim (qputback q b) = q_inilim q" "q_noblock (qputback q b) = q_noblock q"
  "q_eof (qputback q b) = q_eof q" "q_kick (qputback q b) = q_kick q" "q_bypass (qputback q b) = q_bypass q"
  "q_err (qputback q b) = q_err q" "q_log (qputback q b) = q_log q" "qis f (qputback q b) = qis f q"
  "q_len (qputback q b) = q_len q + BALLOC b"
  by (simp_all add: qputback_def qis_def)

lemma blockalloclen_nonneg [simp]: "0 \<le> blockalloclen c"
  by (induction c) (auto simp: BALLOC_def)

lemma blocklen_nonneg: "wfc c \<Longrightarrow> 0 \<le> blocklen c"
  by (simp add: blocklen_data)

subsection \<open>Reading\<close>

text \<open>Taking blocks never takes more than the last one beyond the count.\<close>

definition snug :: "chain \<Rightarrow> int \<Rightarrow> bool" where
  "snug c len \<longleftrightarrow> c \<noteq> [] \<and> (blocklen (butlast c) < len \<or> length c = 1)"

lemma grab_ok:
  assumes "q_blocks q = b # bs"
  shows "\<exists>c r. b # bs = c @ r \<and> c \<noteq> [] \<and> grab (b # bs) q n len = (c, n + blocklen c, qcut q c) \<and>
    (n + blocklen (butlast c) < len \<or> length c = 1) \<and> (n + blocklen c \<ge> len \<or> r = [])"
  using assms
proof (induction bs arbitrary: b q n)
  case Nil
  then show ?case by (auto simp: qremove_Cons intro!: exI [of _ "[b]"])
next
  case (Cons b2 bs)
  show ?case
  proof (cases "n + BLEN b \<ge> len")
    case True
    then show ?thesis using Cons.prems by (auto simp: qremove_Cons Let_def intro!: exI [of _ "[b]"])
  next
    case False
    have "q_blocks (qcut q [b]) = b2 # bs" using Cons.prems by (simp add: qcut_def)
    from Cons.IH [OF this, of "n + BLEN b"] obtain c r where
      c: "b2 # bs = c @ r" "c \<noteq> []" "grab (b2 # bs) (qcut q [b]) (n + BLEN b) len =
        (c, n + BLEN b + blocklen c, qcut (qcut q [b]) c)"
      "n + BLEN b + blocklen (butlast c) < len \<or> length c = 1"
      "n + BLEN b + blocklen c \<ge> len \<or> r = []" by blast
    have "grab (b # b2 # bs) q n len = (b # c, n + blocklen (b # c), qcut q (b # c))"
      using False Cons.prems c(3) by (simp add: qremove_Cons qcut_qcut Let_def del: grab.simps(2)) 
        (simp add: grab.simps(2) [of b] qremove_Cons qcut_qcut Let_def del: grab.simps)
    moreover have "n + blocklen (butlast (b # c)) < len"
      using c(2,4) False by (cases c) (auto simp: length_Suc_conv)
    ultimately show ?thesis using c(1,5) by (intro exI [of _ "b # c"] exI [of _ r]) auto
  qed
qed

text \<open>
  What \<open>qread_take\<close> gives: \<open>e\<close> are the empty blocks a coalescing queue drops first and \<open>r\<close> the rest.
\<close>

definition took :: "queue \<Rightarrow> int \<Rightarrow> kalloc \<Rightarrow> chain \<Rightarrow> chain \<Rightarrow> (chain \<times> int) option qres \<times> queue \<times> kalloc \<Rightarrow> bool" where
  "took q len ka e r out \<longleftrightarrow>
     (if r = [] then
        (if qis Qclosed q
         then out = (Raised (q_err q), (qcut q e)\<lparr>q_eof := q_eof q + 1\<rparr>, freeblist e ka) \<or>
           out = (Done None, (qcut q e)\<lparr>q_eof := q_eof q + 1\<rparr>, freeblist e ka)
         else out = (Asleep, qset Qstarve (qcut q e), freeblist e ka))
      else (\<exists>c r'. r = c @ r' \<and> snug c len \<and> out = (Done (Some (c, blocklen c)), qcut q (e @ c), freeblist e ka) \<and>
         (qis Qcoalesce q \<longrightarrow> len \<le> blocklen c \<or> r' = []) \<and> (\<not> qis Qcoalesce q \<longrightarrow> length c = 1)))"

lemma qread_take_ok:
  "\<exists>e r. q_blocks q = e @ r \<and> list_all (\<lambda>b. BLEN b \<le> 0) e \<and> (e = [] \<or> qis Qcoalesce q) \<and>
     took q len ka e r (qread_take q len ka)"
proof (induction "q_blocks q" arbitrary: q ka)
  case Nil
  then show ?case
    by (subst qread_take.simps)
      (auto simp: qwait_def took_def Let_def)
next
  case (Cons b bs)
  have w: "qwait q = (Some 1, q)" using Cons.hyps(2) by (auto simp: qwait_def)
  have rm: "snd (qremove q) = qcut q [b]" using Cons.hyps(2) by (metis qremove_Cons snd_conv)
  note step = qread_take.simps [of q len ka, unfolded w]
  consider (plain) "\<not> qis Qcoalesce q" | (drop) "qis Qcoalesce q" "BLEN b \<le> 0" | (grab) "qis Qcoalesce q" "0 < BLEN b"
    by linarith
  then show ?case
  proof cases
    case plain
    then have "took q len ka [] (b # bs) (qread_take q len ka)"
      using step Cons.hyps(2) [symmetric] rm
      by (auto simp: took_def snug_def intro!: exI [of _ "[b]"])
    then show ?thesis using Cons.hyps(2) by (intro exI [of _ "[]"] exI [of _ "b # bs"]) auto
  next
    case drop
    have "bs = q_blocks (qcut q [b])" by (simp add: qcut_def Cons.hyps(2) [symmetric])
    from Cons.hyps(1) [OF this, of "freeb b ka"] obtain e r where
      e: "bs = e @ r" "list_all (\<lambda>b. BLEN b \<le> 0) e"
      "took (qcut q [b]) len (freeb b ka) e r (qread_take (qcut q [b]) len (freeb b ka))"
      by (auto simp: qcut_def Cons.hyps(2) [symmetric])
    have "qread_take q len ka = qread_take (qcut q [b]) len (freeb b ka)"
      using step drop Cons.hyps(2) [symmetric] rm by simp
    then have "took q len ka (b # e) r (qread_take q len ka)"
      using e(3) by (cases "r = []"; cases "qis Qclosed q") (simp_all add: took_def qcut_qcut)
    then show ?thesis using e drop Cons.hyps(2) by (intro exI [of _ "b # e"] exI [of _ r]) auto
  next
    case grab
    from grab_ok [OF Cons.hyps(2) [symmetric], of 0 len, unfolded add_0] obtain c r where
      c: "b # bs = c @ r" "c \<noteq> []" "grab (b # bs) q 0 len = (c, blocklen c, qcut q c)"
      "blocklen (butlast c) < len \<or> length c = 1" "len \<le> blocklen c \<or> r = []" by blast
    have "qread_take q len ka = (Done (Some (c, blocklen c)), qcut q c, ka)"
      using step grab Cons.hyps(2) [symmetric] c(3) by simp
    then have "took q len ka [] (b # bs) (qread_take q len ka)"
      using c grab by (auto simp: took_def snug_def)
    then show ?thesis using Cons.hyps(2) by (intro exI [of _ "[]"] exI [of _ "b # bs"]) auto
  qed
qed

text \<open>The other half of \<open>qread\<close>.\<close>

lemma qread_give_ok:
  assumes "qinv q" "wfc c" "snug c len" "0 \<le> len" "mem_avail ka"
  shows "\<exists>q0 ka'. qread_give q (c, blocklen c) len ka =
      Some (min len (blocklen c), take (nat len) (cdata c), qwakeup_iunlock q0, ka') \<and>
    qinv q0 \<and> qdata q0 = (if qis Qmsg q then qdata q else drop (nat len) (cdata c) @ qdata q) \<and>
    (q0 = q \<or> (\<exists>b. q0 = qputback q b \<and> 0 < BLEN b \<and> BALLOC b \<le> blockalloclen c)) \<and> mem_avail ka' \<and>
    ka_live ka' - int (length (q_blocks q0)) = ka_live ka - int (length (q_blocks q) + length c)"
proof -
  from bl2mem_ok [OF assms(2,4,5)] obtain c' ka' k where
    r: "bl2mem c len ka = Some (take (nat len) (cdata c), c', ka')" "wfc c'" "cdata c' = drop (nat len) (cdata c)"
      "owns c ka c' ka'" "map b_wp c' = map b_wp (drop k c)" "map b_buf c' = map b_buf (drop k c)"
      "c' = [] \<or> blocklen (take k c) \<le> len \<and> len < blocklen (take (Suc k) c) \<and> tl c' = drop (Suc k) c" by blast
  have len: "blocklen c' = max 0 (blocklen c - len)"
    using blocklen_data [OF r(2)] blocklen_data [OF assms(2)] r(3) assms(4) by (simp add: max_def)
  show ?thesis
  proof (cases c')
    case Nil
    then have "blocklen c \<le> len" "drop (nat len) (cdata c) = []" using len r(3) by (auto simp: max_def split: if_splits)
    then show ?thesis
      using r(1,4) Nil assms(1) by (intro exI [of _ q] exI [of _ ka']) (auto simp: qread_give_def owns_def)
  next
    case (Cons b bs)
    have lt: "len < blocklen (take (Suc k) c)" "bs = drop (Suc k) c" using r(7) Cons by simp_all
    have "bs = []"
    proof (rule ccontr)
      assume "bs \<noteq> []"
      then have k: "Suc k < length c" using lt(2) by (metis drop_all not_less)
      then have "butlast c = take (Suc k) c @ drop (Suc k) (butlast c)"
        by (metis append_take_drop_id butlast_conv_take min.absorb1 less_imp_le_nat take_butlast)
      moreover have "wfc (butlast c)" using assms(2) by (metis append_butlast_last_id wfc_simps(3) wfc_simps(1) butlast.simps(1))
      ultimately have "blocklen (take (Suc k) c) \<le> blocklen (butlast c)"
        by (metis blocklen_append blocklen_nonneg le_add_same_cancel1 wfc_simps(3))
      with lt(1) k assms(3) show False by (auto simp: snug_def)
    qed
    then have bl: "BLEN b = blocklen c - len" "0 < BLEN b"
    proof -
      have "blocklen (take (Suc k) c) \<le> blocklen c"
        using assms(2) by (metis append_take_drop_id blocklen_append blocklen_nonneg le_add_same_cancel1 wfc_simps(3))
      then show "BLEN b = blocklen c - len" "0 < BLEN b" using len Cons \<open>bs = []\<close> lt(1) by auto
    qed
    have "length (b_buf b) \<in> set (map (\<lambda>b. length (b_buf b)) c)"
    proof -
      have "b_buf b \<in> set (map b_buf (drop k c))" using r(6) Cons by (metis list.set_intros(1) list.simps(9))
      then show ?thesis by (auto dest: in_set_dropD)
    qed
    then have al: "BALLOC b \<le> blockalloclen c"
    proof (induction c)
      case (Cons x xs)
      then show ?case using blockalloclen_nonneg [of xs] by (auto simp: BALLOC_def)
    qed simp
    have w: "wfb b" using r(2) Cons by simp
    have d: "bdata b = drop (nat len) (cdata c)" using r(3) Cons \<open>bs = []\<close> by simp
    show ?thesis
    proof (cases "qis Qmsg q")
      case True
      with r(1,4) Cons \<open>bs = []\<close> bl assms(1) show ?thesis
        by (intro exI [of _ q] exI [of _ "freeb b ka'"]) (auto simp: qread_give_def owns_def)
    next
      case False
      with r(1,4) Cons \<open>bs = []\<close> bl w d al assms(1) qputback_ok [OF assms(1) w] show ?thesis
        by (intro exI [of _ "qputback q b"] exI [of _ ka']) (auto simp: qread_give_def owns_def)
    qed
  qed
qed

lemma empties: "list_all (\<lambda>b. BLEN b \<le> 0) e \<Longrightarrow> wfc e \<Longrightarrow> cdata e = []"
  by (induction e) (auto simp: BLEN_data)

text \<open>
  C34. Reading a stream: on a queue that is not a message queue and holds data, \<open>qread\<close> returns without
  sleeping; the bytes it returns are the front of the queue's contents and exactly they are removed.
  A coalescing queue gives as many bytes as asked for or as there are, any other queue at most its
  first block.  The accounts stay right, and every block taken is put back or freed.
\<close>

theorem qread_spec:
  assumes "qinv q" "mem_avail ka" "0 \<le> len" "qdata q \<noteq> []" "\<not> qis Qmsg q"
  shows "\<exists>d q' ka'. qread q len ka = Some (Done (int (length d), d), q', ka') \<and> qinv q' \<and>
    qdata q = d @ qdata q' \<and>
    d = take (nat len) (if qis Qcoalesce q then qdata q else bdata (hd (q_blocks q))) \<and>
    ka_live ka' - int (length (q_blocks q')) = ka_live ka - int (length (q_blocks q))"
proof -
  obtain e r where er: "q_blocks q = e @ r" "list_all (\<lambda>b. BLEN b \<le> 0) e" "e = [] \<or> qis Qcoalesce q"
    "took q len ka e r (qread_take q len ka)" using qread_take_ok by blast
  have e: "cdata e = []" using empties er(1,2) assms(1) by (simp add: qinv_def)
  then have dr: "qdata q = cdata r" by (simp add: qdata_def er(1))
  with assms(4) have "r \<noteq> []" by auto
  with er(4) obtain c r' where c: "r = c @ r'" "snug c len"
    "qread_take q len ka = (Done (Some (c, blocklen c)), qcut q (e @ c), freeblist e ka)"
    "qis Qcoalesce q \<Longrightarrow> len \<le> blocklen c \<or> r' = []" "\<not> qis Qcoalesce q \<Longrightarrow> length c = 1"
    by (auto simp: took_def)
  have cut: "q_blocks q = (e @ c) @ r'" using er(1) c(1) by simp
  note k = qcut_ok [OF assms(1) cut]
  have wf: "wfc c" using k(5) by simp
  have av: "mem_avail (freeblist e ka)" using assms(2) by simp
  from qread_give_ok [OF k(1) wf c(2) assms(3) av] obtain q0 ka' where
    g: "qread_give (qcut q (e @ c)) (c, blocklen c) len (freeblist e ka) =
      Some (min len (blocklen c), take (nat len) (cdata c), qwakeup_iunlock q0, ka')"
    "qinv q0" "qdata q0 = drop (nat len) (cdata c) @ qdata (qcut q (e @ c))"
    "ka_live ka' - int (length (q_blocks q0)) = ka_live (freeblist e ka) - int (length (q_blocks (qcut q (e @ c))) + length c)"
    using assms(5) by auto
  let ?d = "take (nat len) (cdata c)"
  have n: "min len (blocklen c) = int (length ?d)" using blocklen_data [OF wf] assms(3)
    by (auto simp: min_def le_nat_iff nat_le_iff)
  have D: "qdata q = ?d @ qdata (qwakeup_iunlock q0)"
    using k(3) e g(3) qlike_view [OF qlike_ops(7) [of q0]] by (simp flip: append_assoc)
  have E: "?d = take (nat len) (if qis Qcoalesce q then qdata q else bdata (hd (q_blocks q)))"
  proof (cases "qis Qcoalesce q")
    case True
    then have "len \<le> blocklen c \<or> r' = []" using c(4) by simp
    then have "take (nat len) (cdata r) = ?d" using blocklen_data [OF wf] c(1) by auto
    then show ?thesis using True dr by simp
  next
    case False
    with c(5) er(3) obtain b where "c = [b]" "e = []" by (auto simp: length_Suc_conv)
    then show ?thesis using False cut by simp
  qed
  have L: "ka_live ka' - int (length (q_blocks (qwakeup_iunlock q0))) = ka_live ka - int (length (q_blocks q))"
    using g(4) k(2) cut qlike_ops(7) [of q0] by (simp add: qlike_def)
  have I: "qinv (qwakeup_iunlock q0)" using g(2) qlike_view [OF qlike_ops(7) [of q0]] by simp
  have "qread q len ka = Some (Done (min len (blocklen c), ?d), qwakeup_iunlock q0, ka')"
    by (simp add: qread_def c(3) g(1))
  then have Q: "qread q len ka = Some (Done (int (length ?d), ?d), qwakeup_iunlock q0, ka')" unfolding n .
  show ?thesis by (intro exI conjI) (rule Q I D E L)+
qed

text \<open>
  Reading a closed queue without data: the reader gets end of file (no bytes) as long as it has
  asked at most three times and the queue was hung up without a message of its own, and the queue's
  error otherwise; nothing but the count of such reads changes.
\<close>

theorem qread_hangup:
  assumes "q_blocks q = []" "qis Qclosed q"
  shows "qread q len ka = Some (if q_eof q < 3 \<and> (q_err q = [] \<or> q_err q = Ehungup)
    then Done (0, []) else Raised (q_err q), q\<lparr>q_eof := q_eof q + 1\<rparr>, ka)"
  using assms by (auto simp: qread_def qread_take.simps [of q] qwait_def Let_def)

subsection \<open>Writing\<close>

text \<open>The events an operation added to the log.\<close>

definition news :: "queue \<Rightarrow> queue \<Rightarrow> qevent list" where
  "news q q' = drop (length (q_log q)) (q_log q')"

text \<open>\<open>pushed\<close>: blocks were added at the end and a starved consumer was woken.\<close>

definition pushed :: "queue \<Rightarrow> chain \<Rightarrow> queue \<Rightarrow> bool" where
  "pushed q c q' \<longleftrightarrow> qlike q' (qaddlist q c) \<and> \<not> qis Qstarve q' \<and> (qis Qflow q \<longrightarrow> qis Qflow q') \<and>
     (qis Qstarve q \<longrightarrow> WakeReader \<in> set (news q q')) \<and> WakeWriter \<notin> set (news q q')"

lemma pushed_ok:
  assumes "pushed q c q'" "qinv q" "wfc c"
  shows "qinv q'" "qdata q' = qdata q @ cdata c" "q_blocks q' = q_blocks q @ c"
proof -
  have "qlike q' (qaddlist q c)" using assms(1) by (simp add: pushed_def)
  with qlike_view [OF this] qaddlist_ok [OF assms(2,3)]
  show "qinv q'" "qdata q' = qdata q @ cdata c" "q_blocks q' = q_blocks q @ c"
    by (simp_all add: qlike_def)
qed

lemma unstarve_cases:
  "unstarve q = (qis Qstarve q, if qis Qstarve q then qclear Qstarve q else q)"
  by (simp add: unstarve_def)

lemma qbwrite_put_cases:
  assumes "\<not> q_bypass q"
  shows "(if qis Qclosed q then qbwrite_put q (b # bs) ka = Some (Raised (q_err q), q, freeb b ka)
    else if q_limit q \<le> q_len q \<and> q_noblock q then qbwrite_put q (b # bs) ka = Some (Done (BLEN b), q, freeb b ka)
    else \<exists>q'. qbwrite_put q (b # bs) ka = Some (Asleep, q', ka) \<and> pushed q [b] q' \<and> qis Qflow q' = qis Qflow q)"
  using assms
  by (auto simp: qbwrite_put_def unstarve_cases wake_if_def pushed_def news_def Let_def qlike_def)

lemma qwrite_loop_ok:
  assumes "qinv q" "mem_avail ka" "\<not> q_bypass q" "\<not> q_noblock q"
  shows "\<exists>r s q' ka'. qwrite_loop q p sofar ka = Some (r, s, q', ka') \<and> qinv q' \<and> mem_avail ka' \<and>
    sofar \<le> s \<and> s \<le> sofar + int (length p) \<and> qdata q' = qdata q @ take (nat (s - sofar)) p \<and>
    ka_live ka' - int (length (q_blocks q')) = ka_live ka - int (length (q_blocks q)) \<and>
    (case r of
       Raised e \<Rightarrow> qis Qclosed q \<and> e = q_err q \<and> s = sofar
     | Asleep \<Rightarrow> q_limit q' \<le> q_len q' \<and> qis Qflow q'
     | Done n \<Rightarrow> n = sofar + int (length p) \<and> \<not> qis Qclosed q \<and>
         s = sofar + int (if qis Qmsg q then min (length p) Maxatomic else length p))"
  using assms
proof (induction q p sofar ka rule: qwrite_loop.induct)
  case (1 q p sofar ka)
  define n where "n = min (length p) Maxatomic"
  obtain b0 ka1 where a: "allocb n ka = Some (b0, ka1)" "wfb b0" "bdata b0 = []"
      "n \<le> room b0" "mem_avail ka1" "ka_live ka1 = ka_live ka + 1"
    using allocb_ok [OF "1.prems"(2)] by blast
  have n: "n \<le> length p" "n \<le> Maxatomic" by (simp_all add: n_def)
  then have "length (take n p) \<le> room b0" using a(4) by simp
  from wrblock_ok [OF a(2) this] obtain b where b: "wrblock b0 (take n p) = Some b" "wfb b"
    "bdata b = take n p" using a(3) by auto
  note unf = qwrite_loop.simps [of q p sofar ka]
  show ?case
  proof (cases "qis Qclosed q")
    case True
    then have "qbwrite q [b] ka1 = Some (Raised (q_err q), q, freeb b ka1)"
      using qbwrite_put_cases [OF "1.prems"(3), of b "[]" ka1] by (simp add: qbwrite_def)
    then show ?thesis using True a b "1.prems"
      by (subst unf) (simp add: n_def [symmetric] Let_def)
  next
    case False
    then obtain q1 where q1: "qbwrite_put q [b] ka1 = Some (Asleep, q1, ka1)" "pushed q [b] q1"
      using qbwrite_put_cases [OF "1.prems"(3), of b "[]" ka1] "1.prems"(4) by auto
    have wfb': "wfc [b]" using b(2) by simp
    note po = pushed_ok [OF q1(2) "1.prems"(1) wfb']
    have like: "qlike q1 (qaddlist q [b])" using q1(2) by (simp add: pushed_def)
    then have fl: "q_noblock q1 = q_noblock q" "q_bypass q1 = q_bypass q" "q_err q1 = q_err q"
      "\<And>f. f \<noteq> Qstarve \<Longrightarrow> f \<noteq> Qflow \<Longrightarrow> qis f q1 = qis f q"
      by (simp_all add: qlike_def)
    have lv: "ka_live ka1 - int (length (q_blocks q1)) = ka_live ka - int (length (q_blocks q))"
      using a(6) po(3) by simp
    show ?thesis
    proof (cases "qbwrite_go q1")
      case go: True
      then have bw: "qbwrite q [b] ka1 = Some (Done (BLEN b), q1, ka1)" by (simp add: qbwrite_def q1(1))
      show ?thesis
      proof (cases "n < length p \<and> \<not> qis Qmsg q")
        case True
        have cont: "n < length p \<and> \<not> qis Qmsg q1" using True fl(4) by simp
        have "qinv q1" "mem_avail ka1" "\<not> q_bypass q1" "\<not> q_noblock q1"
          using po(1) a(5) fl "1.prems"(3,4) by simp_all
        note IH = "1.IH" [OF n_def a(1) refl b(1) bw refl refl refl cont this]
        then obtain r s q' ka' where r: "qwrite_loop q1 (drop n p) (sofar + int n) ka1 = Some (r, s, q', ka')"
          "qinv q'" "mem_avail ka'" "sofar + int n \<le> s" "s \<le> sofar + int n + int (length (drop n p))"
          "qdata q' = qdata q1 @ take (nat (s - (sofar + int n))) (drop n p)"
          "ka_live ka' - int (length (q_blocks q')) = ka_live ka1 - int (length (q_blocks q1))"
          "case r of Raised e \<Rightarrow> qis Qclosed q1 \<and> e = q_err q1 \<and> s = sofar + int n
           | Asleep \<Rightarrow> q_limit q' \<le> q_len q' \<and> qis Qflow q'
           | Done m \<Rightarrow> m = sofar + int n + int (length (drop n p)) \<and> \<not> qis Qclosed q1 \<and>
               s = sofar + int n + int (if qis Qmsg q1 then min (length (drop n p)) Maxatomic else length (drop n p))"
          by blast
        have "nat (s - sofar) = n + nat (s - (sofar + int n))" using r(4) by linarith
        then have "take (nat (s - sofar)) p = take n p @ take (nat (s - (sofar + int n))) (drop n p)"
          by (simp add: take_add)
        with r po(2) b(3) have "qdata q' = qdata q @ take (nat (s - sofar)) p" by simp
        moreover have "qwrite_loop q p sofar ka = Some (r, s, q', ka')"
          using True fl(4) r(1) by (subst unf) (simp add: n_def [symmetric] Let_def a(1) b(1) bw)
        ultimately show ?thesis using r(2-5,7,8) lv True fl(3,4) n False
          by (cases r) (auto simp: of_nat_diff)
      next
        case False
        have "qwrite_loop q p sofar ka = Some (Done (sofar + int (length p)), sofar + int n, q1, ka1)"
          using False fl(4) by (subst unf) (auto simp: n_def [symmetric] Let_def a(1) b(1) bw)
        moreover have "n = (if qis Qmsg q then min (length p) Maxatomic else length p)"
          using False n by (auto simp: n_def)
        ultimately show ?thesis using po b(3) a(5) lv n \<open>\<not> qis Qclosed q\<close> by simp
      qed
    next
      case stop: False
      then have "qbwrite q [b] ka1 = Some (Asleep, qset Qflow q1, ka1)" by (simp add: qbwrite_def q1(1))
      then have "qwrite_loop q p sofar ka = Some (Asleep, sofar + int n, qset Qflow q1, ka1)"
        by (subst unf) (simp add: n_def [symmetric] Let_def a(1) b(1))
      moreover have "q_limit q1 \<le> q_len q1" using stop by (simp add: qbwrite_go_def qnotfull_def)
      moreover have "qinv (qset Qflow q1)" "qdata (qset Qflow q1) = qdata q @ take n p"
        using qlike_view [OF qlike_ops(3) [of q1]] po b(3) by simp_all
      ultimately show ?thesis using a(5) lv n by simp
    qed
  qed
qed

text \<open>
  C35. Writing: on an open blocking queue the bytes \<open>qwrite\<close> has queued when it returns or goes to
  sleep are a prefix of the data, added at the end of the stream, and it sleeps only at the limit
  with the flow bit set.  When it returns it reports the whole length.  On a message queue that
  is not what was queued: data beyond the first \<open>Maxatomic\<close> bytes is dropped.
\<close>

theorem qwrite_spec:
  assumes "qinv q" "mem_avail ka" "\<not> q_bypass q" "\<not> q_noblock q" "\<not> qis Qclosed q"
  shows "\<exists>r s q' ka'. qwrite q p ka = Some (r, int s, q', ka') \<and> qinv q' \<and> s \<le> length p \<and>
    qdata q' = qdata q @ take s p \<and>
    (r = Asleep \<and> q_limit q' \<le> q_len q' \<and> qis Qflow q' \<or>
     r = Done (int (length p)) \<and> s = (if qis Qmsg q then min (length p) Maxatomic else length p))"
proof -
  from qwrite_loop_ok [OF assms(1-4), of p 0, unfolded add_0 diff_zero] obtain r s q' ka' where
    r: "qwrite_loop q p 0 ka = Some (r, s, q', ka')" "qinv q'" "0 \<le> s" "s \<le> int (length p)"
    "qdata q' = qdata q @ take (nat s) p"
    "case r of Raised e \<Rightarrow> qis Qclosed q \<and> e = q_err q \<and> s = 0
     | Asleep \<Rightarrow> q_limit q' \<le> q_len q' \<and> qis Qflow q'
     | Done n \<Rightarrow> n = int (length p) \<and> \<not> qis Qclosed q \<and>
         s = int (if qis Qmsg q then min (length p) Maxatomic else length p)" by blast
  then have "r = Asleep \<and> q_limit q' \<le> q_len q' \<and> qis Qflow q' \<or>
     r = Done (int (length p)) \<and> nat s = (if qis Qmsg q then min (length p) Maxatomic else length p)"
    using assms(5) by (cases r) (auto simp: min_def)
  with r(1-5) show ?thesis
    by (intro exI [of _ r] exI [of _ "nat s"] exI [of _ q'] exI [of _ ka']) (auto simp: qwrite_def)
qed

subsection \<open>Two slips\<close>

lemma skip_empty_all:
  "list_all (\<lambda>b. BLEN b \<le> 0) c \<Longrightarrow> skip_empty c q tf =
    (q\<lparr>q_blocks := [], q_len := q_len q - blockalloclen c\<rparr>, rev c @ tf)"
proof (induction c arbitrary: q tf)
  case (Cons b bs)
  then show ?case by (simp add: not_less algebra_simps)
qed simp

text \<open>
  \<open>qconsume\<close> loses blocks: when it finds only empty blocks it takes them off the queue and returns
  -1 without freeing them; the allocator's state, and so the interrupt allocation count, is what it
  was.
\<close>

theorem qconsume_leak:
  assumes "list_all (\<lambda>b. BLEN b \<le> 0) (q_blocks q)"
  shows "\<exists>q'. qconsume q len ka = Some (-1, [], q', ka) \<and> q_blocks q' = [] \<and>
    q_len q' = q_len q - blockalloclen (q_blocks q)"
  using skip_empty_all [OF assms, of q "[]"] by (simp add: qconsume_def)

text \<open>What \<open>pullupqueue\<close> does to a queue with exact accounts: it counts nothing.\<close>

lemma pullupqueue_accounts:
  assumes "qinv q" "mem_avail ka" "q_blocks q \<noteq> []"
  shows "\<exists>r q' ka'. pullupqueue q n ka = Some (r, q', ka') \<and> q_len q' = q_len q \<and> q_dlen q' = q_dlen q \<and>
    list_all wfb (q_blocks q') \<and>
    (if n \<le> q_dlen q then r \<noteq> None \<and> qdata q' = qdata q \<and> q_blocks q' \<noteq> [] \<and> n \<le> BLEN (hd (q_blocks q'))
     else r = None \<and> q_blocks q' = [])"
proof -
  obtain b bs where q: "q_blocks q = b # bs" using assms(3) by (cases "q_blocks q") auto
  have w: "wfc (q_blocks q)" "q_dlen q = blocklen (q_blocks q)" using assms(1) by (auto simp: qinv_def)
  then have "BLEN b \<le> q_dlen q" using q blocklen_nonneg [of bs] by simp
  show ?thesis
  proof (cases "n \<le> BLEN b")
    case True
    then show ?thesis using q w \<open>BLEN b \<le> q_dlen q\<close> by (simp add: pullupqueue_def wfc_def)
  next
    case False
    obtain c ka' where c: "pullupblock (q_blocks q) n ka = Some (c, ka')" "wfc c"
        "if blocklen (q_blocks q) < n then c = [] else cdata c = cdata (q_blocks q) \<and> c \<noteq> [] \<and> n \<le> BLEN (hd c)"
      using pullupblock_ok [OF assms(2) w(1) assms(3), of n] by blast
    have p: "pullupqueue q n ka = Some (case c of [] \<Rightarrow> None | b # _ \<Rightarrow> Some b, q\<lparr>q_blocks := c\<rparr>, ka')"
      using False q c(1) by (simp add: pullupqueue_def)
    show ?thesis unfolding p using c(2,3) w(2) by (cases c) (auto simp: qdata_def wfc_def not_le split: if_splits)
  qed
qed

text \<open>
  \<open>pullupqueue\<close> does not keep the accounts: asked for more than the queue holds, it frees every block
  and returns nil, but the queue still reports the bytes and the space of the blocks that are gone.
\<close>

theorem pullupqueue_stale:
  assumes "qinv q" "mem_avail ka" "q_blocks q \<noteq> []" "q_dlen q < n"
  shows "\<exists>q' ka'. pullupqueue q n ka = Some (None, q', ka') \<and> q_blocks q' = [] \<and> qlen q' = qlen q \<and>
    q_len q' = q_len q \<and> ka_live ka' = ka_live ka - int (length (q_blocks q))"
proof -
  obtain b bs where q: "q_blocks q = b # bs" using assms(3) by (cases "q_blocks q") auto
  have w: "wfc (q_blocks q)" "blocklen (q_blocks q) < n" using assms(1,4) by (auto simp: qinv_def)
  then have "BLEN b < n" using q blocklen_nonneg [of bs] by simp
  with pullupblock_ok [OF assms(2) w(1) assms(3), of n] w(2) show ?thesis
    by (auto simp: pullupqueue_def q qlen_def owns_def)
qed

subsection \<open>Sample queues\<close>

definition sample_queue :: "u32int \<Rightarrow> chain \<Rightarrow> queue" where
  "sample_queue st c = qaddlist (qopen 200 st False) c"

lemma sample_queue_ok:
  "wfc c \<Longrightarrow> qinv (sample_queue st c)" "qdata (sample_queue st c) = cdata c"
  "q_blocks (sample_queue st c) = c" "q_bypass (sample_queue st c) = False" "q_noblock (sample_queue st c) = False"
  "q_dlen (sample_queue st c) = blocklen c" "q_err (sample_queue st c) = []" "q_eof (sample_queue st c) = 0"
  "qis f (sample_queue st c) \<longleftrightarrow> f = 0 \<or> bit st f"
  by (simp_all add: sample_queue_def qinv_def qaddlist_def qdata_def qopen_def) (simp add: qis_def)

theorem qread_spec_witness:
  "\<exists>d q' ka'. qread (sample_queue 16 [sample_block]) 2 sample_ka = Some (Done (int (length d), d), q', ka') \<and>
    d = [1, 2] \<and> qdata q' = [3]"
  using qread_spec [of "sample_queue 16 [sample_block]" sample_ka 2]
  by (auto simp: sample_queue_ok sample_ok bit_numeral_rec)

theorem qread_hangup_witness:
  "qread (sample_queue 4 []) 10 sample_ka = Some (Done (0, []), (sample_queue 4 [])\<lparr>q_eof := 1\<rparr>, sample_ka)"
  using qread_hangup [of "sample_queue 4 []" 10 sample_ka]
  by (simp add: sample_queue_ok)

theorem qwrite_spec_witness:
  "\<exists>r s q' ka'. qwrite (sample_queue 0 [sample_block]) [7, 8] sample_ka = Some (r, int s, q', ka') \<and> qinv q' \<and>
    qdata q' = [1, 2, 3] @ take s [7, 8]"
  using qwrite_spec [of "sample_queue 0 [sample_block]" sample_ka "[7, 8]"]
  by (simp add: sample_queue_ok sample_ok) blast

theorem qconsume_leak_witness:
  "\<exists>q'. qconsume (sample_queue 0 [skip 3 sample_block]) 10 sample_ka = Some (-1, [], q', sample_ka) \<and> q_blocks q' = []"
  using qconsume_leak [of "sample_queue 0 [skip 3 sample_block]" 10 sample_ka]
  by (auto simp: sample_queue_ok BLEN_def skip_def sample_block_def)

theorem pullupqueue_stale_witness:
  "\<exists>q' ka'. pullupqueue (sample_queue 0 [sample_block]) 7 sample_ka = Some (None, q', ka') \<and>
    q_blocks q' = [] \<and> qlen q' = 3"
  using pullupqueue_stale [of "sample_queue 0 [sample_block]" sample_ka 7]
  by (auto simp: sample_queue_ok sample_ok BLEN_data qlen_def)

end
