(* ===== verification/QioSys.thy ===== *)
theory QioSys
  imports Qio
begin

text \<open>
  Processes and interrupts on one I/O queue.  A step of the system is the code of a function of
  \<open>Qio\<close> between two points where the queue's lock is free, so the steps of a writer in \<open>qbwrite\<close>, of
  a reader in \<open>qread\<close> or \<open>qbread\<close>, of interrupt routines and of control operations interleave
  freely.  \<^verbatim>\<open>wlock\<close> admits one writer to \<open>qbwrite\<close>, \<^verbatim>\<open>rlock\<close> one reader, and the consumers at interrupt
  level do not share a queue with a reader.

  \<^verbatim>\<open>sleep\<close> tests its condition once more before the process is committed to sleep; only from then on
  does \<^verbatim>\<open>wakeup\<close> reach it.  A note that takes a process out of \<^verbatim>\<open>sleep\<close> by an error is not a step: it changes
  nothing of the queue.
\<close>

subsection \<open>States and labels\<close>

text \<open>
  The writer: at the loop's test, about to set the flow bit, about to sleep, asleep.  The reader: at
  \<open>qwait\<close>, about to sleep, asleep, or between the two locked parts of \<open>qread\<close> with the blocks it
  has taken.  The flag of a reader tells \<open>qbread\<close> from \<open>qread\<close>.
\<close>

datatype wpc = WIdle | WCheck | WFlow | WSleep | WAsleep

datatype rpc = RIdle | RTry bool int | RSleep bool int | RAsleep bool int | RGive chain int int

record qsys =
  qs_q :: queue
  qs_ka :: kalloc
  qs_w :: wpc
  qs_r :: rpc

datatype qlabel = Put mem | Got mem | Dropped | Flushed | Limit | Tau

definition wake_w :: "qevent list \<Rightarrow> wpc \<Rightarrow> wpc" where
  "wake_w ev w = (if WakeWriter \<in> set ev \<and> w = WAsleep then WCheck else w)"

definition wake_r :: "qevent list \<Rightarrow> rpc \<Rightarrow> rpc" where
  "wake_r ev r = (case r of RAsleep k len \<Rightarrow> if WakeReader \<in> set ev then RTry k len else r | _ \<Rightarrow> r)"

definition settle :: "qsys \<Rightarrow> queue \<Rightarrow> kalloc \<Rightarrow> qsys" where
  "settle s q ka = \<lparr>qs_q = q, qs_ka = ka, qs_w = wake_w (news (qs_q s) q) (qs_w s),
     qs_r = wake_r (news (qs_q s) q) (qs_r s)\<rparr>"

text \<open>The bytes that an operation put at the end of the queue.\<close>

definition added :: "queue \<Rightarrow> queue \<Rightarrow> mem" where
  "added q q' = drop (length (qdata q)) (qdata q')"

subsection \<open>Steps\<close>

inductive wstep :: "qsys \<Rightarrow> qlabel \<Rightarrow> qsys \<Rightarrow> bool" where
  w_put: "qs_w s = WIdle \<Longrightarrow> wfb b \<Longrightarrow> qbwrite_put (qs_q s) [b] (qs_ka s) = Some (Asleep, q', ka') \<Longrightarrow>
    wstep s (Put (bdata b)) ((settle s q' ka')\<lparr>qs_w := WCheck\<rparr>)"
| w_refuse: "qs_w s = WIdle \<Longrightarrow> wfb b \<Longrightarrow> qbwrite_put (qs_q s) [b] (qs_ka s) = Some (r, q', ka') \<Longrightarrow> r \<noteq> Asleep \<Longrightarrow>
    wstep s Tau (settle s q' ka')"
| w_check: "qs_w s = WCheck \<Longrightarrow> wstep s Tau (s\<lparr>qs_w := if qbwrite_go (qs_q s) then WIdle else WFlow\<rparr>)"
| w_flow: "qs_w s = WFlow \<Longrightarrow> wstep s Tau (s\<lparr>qs_q := qset Qflow (qs_q s), qs_w := WSleep\<rparr>)"
| w_sleep: "qs_w s = WSleep \<Longrightarrow> wstep s Tau (s\<lparr>qs_w := if qnotfull (qs_q s) then WCheck else WAsleep\<rparr>)"

inductive rstep :: "qsys \<Rightarrow> qlabel \<Rightarrow> qsys \<Rightarrow> bool" where
  r_start: "qs_r s = RIdle \<Longrightarrow> 0 \<le> len \<Longrightarrow> rstep s Tau (s\<lparr>qs_r := RTry False len\<rparr>)"
| r_wait: "qs_r s = RTry False len \<Longrightarrow> qread_take (qs_q s) len (qs_ka s) = (Asleep, q', ka') \<Longrightarrow>
    rstep s Tau ((settle s q' ka')\<lparr>qs_r := RSleep False len\<rparr>)"
| r_error: "qs_r s = RTry False len \<Longrightarrow> qread_take (qs_q s) len (qs_ka s) = (Raised e, q', ka') \<Longrightarrow>
    rstep s Tau ((settle s q' ka')\<lparr>qs_r := RIdle\<rparr>)"
| r_eof: "qs_r s = RTry False len \<Longrightarrow> qread_take (qs_q s) len (qs_ka s) = (Done None, q', ka') \<Longrightarrow>
    rstep s (Got []) ((settle s q' ka')\<lparr>qs_r := RIdle\<rparr>)"
| r_take: "qs_r s = RTry False len \<Longrightarrow> qread_take (qs_q s) len (qs_ka s) = (Done (Some (c, n)), q', ka') \<Longrightarrow>
    rstep s Tau ((settle s q' ka')\<lparr>qs_r := RGive c n len\<rparr>)"
| r_give: "qs_r s = RGive c n len \<Longrightarrow> qread_give (qs_q s) (c, n) len (qs_ka s) = Some (m, d, q', ka') \<Longrightarrow>
    rstep s (Got d) ((settle s q' ka')\<lparr>qs_r := RIdle\<rparr>)"
| r_sleep: "qs_r s = RSleep k len \<Longrightarrow>
    rstep s Tau (s\<lparr>qs_r := if notempty (qs_q s) then RTry k len else RAsleep k len\<rparr>)"

inductive bstep :: "qsys \<Rightarrow> qlabel \<Rightarrow> qsys \<Rightarrow> bool" where
  b_start: "qs_r s = RIdle \<Longrightarrow> 0 \<le> len \<Longrightarrow> bstep s Tau (s\<lparr>qs_r := RTry True len\<rparr>)"
| b_wait: "qs_r s = RTry True len \<Longrightarrow> qbread (qs_q s) len (qs_ka s) = Some (Asleep, q', ka') \<Longrightarrow>
    bstep s Tau ((settle s q' ka')\<lparr>qs_r := RSleep True len\<rparr>)"
| b_error: "qs_r s = RTry True len \<Longrightarrow> qbread (qs_q s) len (qs_ka s) = Some (Raised e, q', ka') \<Longrightarrow>
    bstep s Tau ((settle s q' ka')\<lparr>qs_r := RIdle\<rparr>)"
| b_eof: "qs_r s = RTry True len \<Longrightarrow> qbread (qs_q s) len (qs_ka s) = Some (Done None, q', ka') \<Longrightarrow>
    bstep s (Got []) ((settle s q' ka')\<lparr>qs_r := RIdle\<rparr>)"
| b_read: "qs_r s = RTry True len \<Longrightarrow> qbread (qs_q s) len (qs_ka s) = Some (Done (Some b), q', ka') \<Longrightarrow>
    bstep s (Got (bdata b)) ((settle s q' ka')\<lparr>qs_r := RIdle\<rparr>)"

inductive istep :: "qsys \<Rightarrow> qlabel \<Rightarrow> qsys \<Rightarrow> bool" where
  i_get: "qs_r s = RIdle \<Longrightarrow> qget (qs_q s) = (Some b, q') \<Longrightarrow> istep s (Got (bdata b)) (settle s q' (qs_ka s))"
| i_starve: "qs_r s = RIdle \<Longrightarrow> qget (qs_q s) = (None, q') \<Longrightarrow> istep s Tau (settle s q' (qs_ka s))"
| i_consume: "qs_r s = RIdle \<Longrightarrow> 0 \<le> len \<Longrightarrow> qconsume (qs_q s) len (qs_ka s) = Some (n, d, q', ka') \<Longrightarrow>
    istep s (Got d) (settle s q' ka')"
| i_discard: "qs_r s = RIdle \<Longrightarrow> 0 \<le> len \<Longrightarrow> qdiscard (qs_q s) len (qs_ka s) = (n, q', ka') \<Longrightarrow>
    istep s (Got (take (nat n) (qdata (qs_q s)))) (settle s q' ka')"
| i_pass: "wfc c \<Longrightarrow> qpass (qs_q s) c (qs_ka s) = Some (n, q', ka') \<Longrightarrow>
    istep s (Put (added (qs_q s) q')) (settle s q' ka')"
| i_passnolim: "wfc c \<Longrightarrow> qpassnolim (qs_q s) c (qs_ka s) = Some (n, q', ka') \<Longrightarrow>
    istep s (Put (added (qs_q s) q')) (settle s q' ka')"
| i_produce: "qproduce (qs_q s) p (qs_ka s) = Some (n, q', ka') \<Longrightarrow>
    istep s (Put (added (qs_q s) q')) (settle s q' ka')"
| i_print: "length p \<le> Maxatomic \<Longrightarrow> qiwrite (qs_q s) p (qs_ka s) = Some (n, q', ka') \<Longrightarrow>
    istep s (Put (added (qs_q s) q')) (settle s q' ka')"

inductive cstep :: "qsys \<Rightarrow> qlabel \<Rightarrow> qsys \<Rightarrow> bool" where
  c_hangup: "cstep s Tau (settle s (qhangup (qs_q s) msg) (qs_ka s))"
| c_close: "qclose (qs_q s) (qs_ka s) = (q', ka') \<Longrightarrow> cstep s Dropped (settle s q' ka')"
| c_noblock: "cstep s Tau (settle s (qnoblock (qs_q s) onoff) (qs_ka s))"
| c_reopen: "cstep s Limit (settle s (qreopen (qs_q s)) (qs_ka s))"
| c_limit: "cstep s Limit (settle s (qsetlimit (qs_q s) n) (qs_ka s))"
| c_flush: "qflush (qs_q s) (qs_ka s) = (q', ka') \<Longrightarrow> cstep s Flushed (settle s q' ka')"

definition qstep :: "qsys \<Rightarrow> qlabel \<Rightarrow> qsys \<Rightarrow> bool" where
  "qstep s l s' \<longleftrightarrow> wstep s l s' \<or> rstep s l s' \<or> bstep s l s' \<or> istep s l s' \<or> cstep s l s'"

text \<open>The steps of processes on a pipe: one writes, one reads, and the ends are closed.\<close>

definition pstep :: "qsys \<Rightarrow> qlabel \<Rightarrow> qsys \<Rightarrow> bool" where
  "pstep s l s' \<longleftrightarrow> l \<noteq> Put [] \<and> (wstep s l s' \<or> rstep s l s' \<or> (cstep s l s' \<and> l \<noteq> Flushed \<and> l \<noteq> Limit))"

inductive run :: "(qsys \<Rightarrow> qlabel \<Rightarrow> qsys \<Rightarrow> bool) \<Rightarrow> qsys \<Rightarrow> qlabel list \<Rightarrow> qsys \<Rightarrow> bool"
  for st :: "qsys \<Rightarrow> qlabel \<Rightarrow> qsys \<Rightarrow> bool" where
  run_Nil: "run st s [] s"
| run_snoc: "run st s ls s' \<Longrightarrow> st s' l s'' \<Longrightarrow> run st s (ls @ [l]) s''"

definition open_sys :: "int \<Rightarrow> u32int \<Rightarrow> bool \<Rightarrow> kalloc \<Rightarrow> qsys" where
  "open_sys limit msg kick ka = \<lparr>qs_q = qopen limit msg kick, qs_ka = ka, qs_w = WIdle, qs_r = RIdle\<rparr>"

fun puts :: "qlabel list \<Rightarrow> mem" where
  "puts [] = []"
| "puts (Put d # ls) = d @ puts ls"
| "puts (_ # ls) = puts ls"

fun gots :: "qlabel list \<Rightarrow> mem" where
  "gots [] = []"
| "gots (Got d # ls) = d @ gots ls"
| "gots (_ # ls) = gots ls"

subsection \<open>What producers do\<close>

text \<open>
  \<open>grown q c q'\<close>: the blocks \<open>c\<close> were added at the end; if there are any, a starved consumer was woken,
  and otherwise the starved bit is as before.
\<close>

definition grown :: "queue \<Rightarrow> chain \<Rightarrow> queue \<Rightarrow> bool" where
  "grown q c q' \<longleftrightarrow> qlike q' (qaddlist q c) \<and> wfc c \<and>
     (c = [] \<longrightarrow> qis Qstarve q' = qis Qstarve q) \<and>
     (c \<noteq> [] \<longrightarrow> (qis Qstarve q \<longrightarrow> WakeReader \<in> set (news q q')))"

lemma qaddlist_Nil [simp]: "qaddlist q [] = q"
  by (simp add: qaddlist_def)

lemma grown_ok:
  assumes "grown q c q'" "qinv q"
  shows "qinv q'" "qdata q' = qdata q @ cdata c" "q_blocks q' = q_blocks q @ c" "added q q' = cdata c"
    "qis Qmsg q' = qis Qmsg q" "qis Qclosed q' = qis Qclosed q" "q_bypass q' = q_bypass q"
proof -
  have w: "qlike q' (qaddlist q c)" "wfc c" using assms(1) by (simp_all add: grown_def)
  note a = qaddlist_ok [OF assms(2) w(2)]
  show "qinv q'" "q_blocks q' = q_blocks q @ c" "qis Qmsg q' = qis Qmsg q" "qis Qclosed q' = qis Qclosed q"
    "q_bypass q' = q_bypass q" and d: "qdata q' = qdata q @ cdata c"
    using a w qlike_view [OF w(1)] by (simp_all add: qlike_def)
  show "added q q' = cdata c" by (simp add: added_def d)
qed

lemma grown_none: "qlike q' q \<Longrightarrow> qis Qstarve q' = qis Qstarve q \<Longrightarrow> grown q [] q'"
  by (simp add: grown_def)

lemma grown_refl [simp]: "grown q [] q"
  by (simp add: grown_none)

lemma pushed_grown: "pushed q c q' \<Longrightarrow> wfc c \<Longrightarrow> c \<noteq> [] \<Longrightarrow> grown q c q'"
  by (simp add: pushed_def grown_def)

lemma passlist_grown:
  assumes "wfc c" "c \<noteq> []"
  shows "grown q c (snd (passlist q c))"
  using assms
  by (auto simp: passlist_def grown_def unstarve_cases wake_if_def news_def Let_def qlike_def)

lemma qpass_grown:
  assumes "wfc c" "qpass q c ka = Some (n, q', ka') \<or> qpassnolim q c ka = Some (n, q', ka')" "mem_avail ka"
  shows "\<exists>c'. grown q c' q' \<and> mem_avail ka'"
  using assms passlist_grown [of c q]
  by (cases "passlist q c")
    (auto simp: qpass_def qpassnolim_def Let_def simp del: freeblist.simps split: if_splits list.splits
      intro: exI [of _ "[]"])

lemma iallocb_ok:
  assumes "iallocb n ka = Some (bo, ka')" "mem_avail ka"
  shows "mem_avail ka' \<and> (\<forall>b. bo = Some b \<longrightarrow> wfb b \<and> bdata b = [] \<and> n \<le> room b)"
proof -
  have a: "0 < ka_align ka" using assms(2) by (simp add: mem_avail_def)
  have cp: "mem_avail ka2" if "complain m ka1 = Some ka2" "mem_avail ka1" for m ka1 ka2
    using that by (auto simp: complain_def mem_avail_def split: if_splits)
  have av: "mem_avail (ka\<lparr>ka_m1 := m1\<rparr>)" for m1 using assms(2) by (simp add: mem_avail_def)
  show ?thesis
  proof (cases "ka_bytes ka > ka_conf ka")
    case True
    then show ?thesis using assms(1) cp av by (auto simp: iallocb_def bind_eq_Some_conv)
  next
    case False
    then obtain b0 ka1 where x: "xallocb n ka = Some (b0, ka1)"
      using assms(1) by (auto simp: iallocb_def bind_eq_Some_conv)
    have "ka_malloc ka (ka_calls ka) (ka_align ka + ROUNDUP (n + Hdrspc) (ka_align ka) + SZBLOCK) \<noteq> None"
      using assms(2) unfolding mem_avail_def by blast
    then obtain b where b: "b0 = Some b" using x by (auto simp: xallocb_def Let_def split: option.splits if_splits)
    note xs = xallocb_Some [OF a x [unfolded b]]
    have e: "bo = Some (b\<lparr>b_intr := True\<rparr>)" "ka' = ka1\<lparr>ka_bytes := ka_bytes ka1 + of_nat (length (b_buf b))\<rparr>"
      using assms(1) False x b by (auto simp: iallocb_def)
    show ?thesis using e xs ROUNDUP_ge [OF a, of n] assms(2)
      by (simp add: mem_avail_def wfb_def checkb_def bdata_def room_def)
  qed
qed

lemma qproduce_grown:
  assumes "qproduce q p ka = Some (n, q', ka')" "mem_avail ka"
  shows "\<exists>c. grown q c q' \<and> mem_avail ka'"
proof (cases "q_limit q \<le> q_len q")
  case True
  with assms show ?thesis by (auto simp: qproduce_def intro!: exI [of _ "[]"] grown_none)
next
  case False
  then obtain bo ka1 where i: "iallocb (length p) ka = Some (bo, ka1)"
    using assms(1) by (auto simp: qproduce_def bind_eq_Some_conv)
  note ok = iallocb_ok [OF i assms(2)]
  show ?thesis
  proof (cases bo)
    case None
    with assms(1) False i ok show ?thesis by (auto simp: qproduce_def intro!: exI [of _ "[]"])
  next
    case (Some b)
    with ok wrblock_ok [of b p] obtain b' where b': "wrblock b p = Some b'" "wfb b'" by auto
    have "grown q [b'] q'" "ka' = ka1"
      using assms(1) False i Some b'
      by (auto simp: qproduce_def Let_def unstarve_cases wake_if_def grown_def news_def qlike_def split: if_splits)
    with ok show ?thesis by auto
  qed
qed

lemma qiwrite_grown:
  assumes "qiwrite q p ka = Some (n, q', ka')" "length p \<le> Maxatomic" "mem_avail ka"
  shows "\<exists>c. grown q c q' \<and> mem_avail ka'"
proof -
  have m: "min (length p) Maxatomic = length p" using assms(2) by simp
  note unf = assms(1) [unfolded qiwrite_def, unfolded qiwrite_loop.simps [of q p], unfolded m Let_def]
  obtain bo ka1 where i: "iallocb (length p) ka = Some (bo, ka1)"
    using unf by (auto simp: bind_eq_Some_conv)
  note ok = iallocb_ok [OF i assms(3)]
  show ?thesis
  proof (cases bo)
    case None
    with unf i ok show ?thesis by (auto intro!: exI [of _ "[]"])
  next
    case (Some b)
    with ok wrblock_ok [of b p] obtain b' where b': "wrblock b p = Some b'" "wfb b'" by auto
    show ?thesis
    proof (cases "16 * 1024 \<le> q_dlen q")
      case True
      with unf i Some b' ok show ?thesis by (auto intro!: exI [of _ "[]"])
    next
      case False
      have "grown q [b'] q'" "ka' = ka1"
        using unf False i Some b'
        by (auto simp: unstarve_cases grown_def news_def qlike_def split: if_splits)
      with ok show ?thesis by auto
    qed
  qed
qed

subsection \<open>What consumers do\<close>

text \<open>\<open>same_kind\<close>: the message bit and the bypass are constant.\<close>

definition same_kind :: "queue \<Rightarrow> queue \<Rightarrow> bool" where
  "same_kind q' q \<longleftrightarrow> qis Qmsg q' = qis Qmsg q \<and> q_bypass q' = q_bypass q"

lemma same_kind_refl [simp]: "same_kind q q"
  by (simp add: same_kind_def)

lemma qlike_kind: "qlike q' q \<Longrightarrow> same_kind q' q"
  by (simp add: qlike_def same_kind_def)

lemma qget_ok:
  assumes "qinv q" "qget q = (bo, q')"
  shows "qinv q' \<and> same_kind q' q \<and> qdata q = (case bo of None \<Rightarrow> [] | Some b \<Rightarrow> bdata b) @ qdata q'"
proof (cases "q_blocks q")
  case Nil
  with assms have e: "bo = None" "q' = qset Qstarve q" by (simp_all add: qget_def qremove_def)
  with qlike_view [OF qlike_ops(2) [of q]] assms(1) show ?thesis
    by (simp add: same_kind_def)
next
  case (Cons b bs)
  with assms(2) have e: "bo = Some b" "q' = unflow (qcut q [b])" by (simp_all add: qget_def qremove_Cons)
  have "q_blocks q = [b] @ bs" using Cons by simp
  note k = qcut_ok [OF assms(1) this]
  have l: "qlike q' (qcut q [b])" by (simp add: e)
  show ?thesis using qlike_view [OF l] k e(1) l by (simp add: same_kind_def qlike_def)
qed

lemma qinv_skip:
  assumes "qinv q" "q_blocks q = b # bs" "0 \<le> n" "n \<le> BLEN b"
  shows "qinv (q\<lparr>q_blocks := skip n b # bs, q_dlen := q_dlen q - n\<rparr>)"
    "qdata q = take (nat n) (bdata b) @ qdata (q\<lparr>q_blocks := skip n b # bs, q_dlen := q_dlen q - n\<rparr>)"
  using assms skip_ok [of b n] by (auto simp: qinv_def qdata_def)

lemma discard_loop_ok:
  assumes "qinv q" "q_blocks q = c" "sofar \<le> len" "mem_avail ka"
  shows "\<exists>n q' ka'. discard_loop c sofar len q ka = (n, q', ka') \<and> qinv q' \<and> same_kind q' q \<and> mem_avail ka' \<and>
    sofar \<le> n \<and> n \<le> len \<and> qdata q' = drop (nat (n - sofar)) (qdata q) \<and> n - sofar \<le> q_dlen q"
  using assms
proof (induction c arbitrary: sofar q ka)
  case Nil
  have e: "q\<lparr>q_blocks := []\<rparr> = q" using Nil.prems(2) by simp
  show ?case unfolding discard_loop.simps e using qinv_nonneg(2) [OF Nil.prems(1)] Nil.prems by simp
next
  case (Cons b bs)
  have w: "wfb b" "wfc bs" "q_dlen q = BLEN b + blocklen bs" using Cons.prems(1,2) by (auto simp: qinv_def)
  have pos: "0 \<le> BLEN b" "0 \<le> blocklen bs" using w by (simp_all add: BLEN_data blocklen_nonneg)
  consider (stop) "sofar = len" | (whole) "sofar < len" "BLEN b \<le> len - sofar" | (part) "sofar < len" "len - sofar < BLEN b"
    using Cons.prems(3) by linarith
  then show ?case
  proof cases
    case stop
    have e: "q\<lparr>q_blocks := b # bs\<rparr> = q" using Cons.prems(2) by simp
    show ?thesis unfolding discard_loop.simps e using stop Cons.prems pos w(3) by simp
  next
    case whole
    let ?q = "q\<lparr>q_blocks := bs, q_len := q_len q - BALLOC b, q_dlen := q_dlen q - BLEN b\<rparr>"
    have "qinv ?q" "sofar + BLEN b \<le> len" "mem_avail (freeb b ka)" "q_blocks ?q = bs"
      using Cons.prems(1,2,4) whole by (auto simp: qinv_def)
    from Cons.IH [OF this(1,4,2,3)] obtain n q' ka' where
      r: "discard_loop bs (sofar + BLEN b) len ?q (freeb b ka) = (n, q', ka')" "qinv q'" "same_kind q' ?q" "mem_avail ka'"
      "sofar + BLEN b \<le> n" "n \<le> len" "qdata q' = drop (nat (n - (sofar + BLEN b))) (qdata ?q)"
      "n - (sofar + BLEN b) \<le> q_dlen ?q" by blast
    have "qdata q = bdata b @ qdata ?q" using Cons.prems(2) by (simp add: qdata_def)
    moreover have "nat (n - sofar) = length (bdata b) + nat (n - (sofar + BLEN b))"
      using r(5) w(1) by (simp add: BLEN_data)
    ultimately have "qdata q' = drop (nat (n - sofar)) (qdata q)" using r(7) by simp
    moreover have "same_kind q' q" using r(3) by (simp add: same_kind_def)
    ultimately show ?thesis using r whole pos by simp
  next
    case part
    let ?q = "q\<lparr>q_blocks := skip (len - sofar) b # bs, q_dlen := q_dlen q - (len - sofar)\<rparr>"
    have n: "0 \<le> len - sofar" "len - sofar \<le> BLEN b" using part by simp_all
    note s = qinv_skip [OF Cons.prems(1,2) n]
    have "qdata ?q = drop (nat (len - sofar)) (qdata q)"
    proof -
      have "nat (len - sofar) = length (take (nat (len - sofar)) (bdata b))" using n w(1) by (auto simp: BLEN_data min_def le_nat_iff nat_le_iff)
      then show ?thesis by (subst s(2)) (metis append_eq_conv_conj)
    qed
    moreover have "same_kind ?q q" by (simp add: same_kind_def)
    ultimately show ?thesis using part s(1) Cons.prems(4) w(3) pos by (simp add: Let_def)
  qed
qed

lemma qdiscard_ok:
  assumes "qinv q" "mem_avail ka" "0 \<le> len" "qdiscard q len ka = (n, q', ka')"
  shows "qinv q' \<and> same_kind q' q \<and> mem_avail ka'"
    "qdata q = take (nat n) (qdata q) @ qdata q'" "0 \<le> n" "n \<le> len"
proof -
  from discard_loop_ok [OF assms(1) refl assms(3,2)] obtain m q1 ka1 where
    d: "discard_loop (q_blocks q) 0 len q ka = (m, q1, ka1)" "qinv q1" "same_kind q1 q" "mem_avail ka1"
    "0 \<le> m" "m \<le> len" "qdata q1 = drop (nat m) (qdata q)" by auto
  have e: "n = m" "q' = unflow q1" "ka' = ka1" using assms(4) d(1) by (auto simp: qdiscard_def)
  note v = qlike_view [OF qlike_ops(6) [of q1]] qlike_kind [OF qlike_ops(6) [of q1]]
  show "qdata q = take (nat n) (qdata q) @ qdata q'" "0 \<le> n" "n \<le> len" using e v d by simp_all
  show "qinv q' \<and> same_kind q' q \<and> mem_avail ka'"
    using e v d by (simp add: same_kind_def)
qed

lemma skip_empty_ok:
  "\<exists>e r. c = e @ r \<and> list_all (\<lambda>b. BLEN b \<le> 0) e \<and> (r = [] \<or> 0 < BLEN (hd r)) \<and>
    skip_empty c q tf = (q\<lparr>q_blocks := r, q_len := q_len q - blockalloclen e\<rparr>, rev e @ tf)"
proof (induction c arbitrary: q tf)
  case (Cons b bs)
  show ?case
  proof (cases "0 < BLEN b")
    case True
    then show ?thesis by (intro exI [of _ "[]"] exI [of _ "b # bs"]) simp
  next
    case False
    from Cons.IH [of "q\<lparr>q_blocks := bs, q_len := q_len q - BALLOC b\<rparr>" "b # tf"] obtain e r where
      "bs = e @ r" "list_all (\<lambda>b. BLEN b \<le> 0) e" "r = [] \<or> 0 < BLEN (hd r)"
      "skip_empty bs (q\<lparr>q_blocks := bs, q_len := q_len q - BALLOC b\<rparr>) (b # tf) =
        (q\<lparr>q_blocks := r, q_len := q_len q - BALLOC b - blockalloclen e\<rparr>, rev e @ b # tf)" by auto
    then show ?thesis using False by (intro exI [of _ "b # e"] exI [of _ r]) (simp add: algebra_simps)
  qed
qed simp

lemma empty_len: "list_all (\<lambda>b. BLEN b \<le> 0) e \<Longrightarrow> wfc e \<Longrightarrow> blocklen e = 0"
  by (simp add: blocklen_data empties)

lemma q_swap: "(q :: queue)\<lparr>q_len := a, q_dlen := b\<rparr> = q\<lparr>q_dlen := b, q_len := a\<rparr>"
  by simp

lemma qconsume_ok:
  assumes "qinv q" "mem_avail ka" "0 \<le> len" "qconsume q len ka = Some (n, d, q', ka')"
  shows "qinv q' \<and> same_kind q' q \<and> mem_avail ka'" "\<not> qis Qmsg q \<Longrightarrow> qdata q = d @ qdata q'"
proof -
  from skip_empty_ok [of "q_blocks q" q "[]", unfolded append_Nil2] obtain e r where
    s: "q_blocks q = e @ r" "list_all (\<lambda>b. BLEN b \<le> 0) e" "r = [] \<or> 0 < BLEN (hd r)"
    "skip_empty (q_blocks q) q [] = (q\<lparr>q_blocks := r, q_len := q_len q - blockalloclen e\<rparr>, rev e)" by blast
  have we: "wfc e" "wfc r" using assms(1) s(1) by (auto simp: qinv_def)
  define q0 where "q0 = q\<lparr>q_blocks := r, q_len := q_len q - blockalloclen e\<rparr>"
  have s4: "skip_empty (q_blocks q) q [] = (q0, rev e)" using s(4) by (simp add: q0_def)
  have q0: "qinv q0" "qdata q0 = qdata q" "q_blocks q0 = r" "same_kind q0 q" "qis Qmsg q0 = qis Qmsg q"
    using assms(1) s(1) empties [OF s(2) we(1)] empty_len [OF s(2) we(1)]
    by (auto simp: q0_def qinv_def qdata_def same_kind_def)
  have "(qinv q' \<and> same_kind q' q \<and> mem_avail ka') \<and> (\<not> qis Qmsg q \<longrightarrow> qdata q = d @ qdata q')"
  proof (cases r)
    case Nil
    with assms(4) s4 q0(3) have e: "n = -1" "d = []" "q' = qset Qstarve q0" "ka' = ka"
      by (auto simp: qconsume_def)
    show ?thesis using q0 assms(2) qlike_view [OF qlike_ops(2) [of q0]] e
      by (simp add: same_kind_def)
  next
    case (Cons b bs)
    define l where "l = min (BLEN b) len"
    have l: "0 \<le> l" "l \<le> BLEN b" using s(3) Cons assms(3) by (auto simp: l_def)
    have b: "wfb b" using we(2) Cons by simp
    have bl: "q_blocks q0 = b # bs" using q0(3) Cons by simp
    define q1 where "q1 = q0\<lparr>q_blocks := skip l b # bs, q_dlen := q_dlen q0 - l\<rparr>"
    have q1: "qinv q1" "qdata q0 = take (nat l) (bdata b) @ qdata q1" "q_blocks q1 = [skip l b] @ bs"
      using qinv_skip [OF q0(1) bl l] by (simp_all add: q1_def)
    note sk = skip_ok [OF b l]
    note cut = qcut_ok [OF q1(1,3)]
    define q2 where "q2 = (if qis Qmsg q0 \<or> l = BLEN b then qcut q1 [skip l b] else q1)"
    have k1: "same_kind q1 q" "qis Qmsg q1 = qis Qmsg q" using q0(4,5) by (auto simp: q1_def same_kind_def)
    have q2: "qinv q2" "same_kind q2 q" "\<not> qis Qmsg q \<Longrightarrow> qdata q1 = qdata q2"
      using cut q1(1) k1 q0(5) sk(2) l b by (auto simp: q2_def same_kind_def BLEN_data)
    have "d = take (nat l) (bdata b) \<and> q' = unflow q2 \<and> mem_avail ka'"
      using assms(2,4) s4 bl rdblock_data [OF b l]
      by (auto simp: qconsume_def l_def [symmetric] Let_def q2_def qcut_def q1_def q_swap
          simp del: freeblist.simps split: if_splits)
    then show ?thesis
      using qlike_view [OF qlike_ops(6) [of q2]] qlike_kind [OF qlike_ops(6) [of q2]] q2 q1(2) q0(2)
      by (simp add: same_kind_def)
  qed
  then show "qinv q' \<and> same_kind q' q \<and> mem_avail ka'" "\<not> qis Qmsg q \<Longrightarrow> qdata q = d @ qdata q'" by simp_all
qed

lemma rdblock_at:
  assumes "wfb b" "0 \<le> off" "0 \<le> n" "off + n \<le> BLEN b"
  shows "rdblock b off n = Some (take (nat n) (drop (nat off) (bdata b)))"
proof -
  have le: "b_rp b \<le> b_wp b" "b_wp b \<le> length (b_buf b)" using assms(1) by (auto simp: wfb_def checkb_def)
  have r: "b_rp b + nat off + nat n \<le> b_wp b" using assms(2-4) le by (auto simp: BLEN_def)
  then have "take (nat n) (drop (nat off) (bdata b)) = take (nat n) (drop (b_rp b + nat off) (b_buf b))"
    by (simp add: bdata_def drop_take min_absorb1 add.commute)
  then show ?thesis using assms(2,3) r le by (simp add: rdblock_def memget_def)
qed

lemma cut_ok:
  assumes "wfb b" "0 \<le> len" "len \<le> BLEN b"
  shows "wfb (b\<lparr>b_wp := nat (int (b_rp b) + len)\<rparr>)"
    "bdata (b\<lparr>b_wp := nat (int (b_rp b) + len)\<rparr>) = take (nat len) (bdata b)"
proof -
  have le: "b_rp b \<le> b_wp b" "b_wp b \<le> length (b_buf b)" using assms(1) by (auto simp: wfb_def checkb_def)
  have e: "nat (int (b_rp b) + len) = b_rp b + nat len" using assms(2) by (simp add: nat_add_distrib)
  have l: "nat len \<le> b_wp b - b_rp b" using assms(2,3) le by (auto simp: BLEN_def)
  then show "wfb (b\<lparr>b_wp := nat (int (b_rp b) + len)\<rparr>)"
    using le unfolding e by (auto simp: wfb_def checkb_def)
  show "bdata (b\<lparr>b_wp := nat (int (b_rp b) + len)\<rparr>) = take (nat len) (bdata b)"
    using l unfolding e by (simp add: bdata_def min_absorb1)
qed

lemma qwait_some:
  "q_blocks q \<noteq> [] \<Longrightarrow> qwait q = (Some 1, q)"
  by (simp add: qwait_def)

lemma qwait_none:
  assumes "q_blocks q = []"
  shows "qwait q = (if qis Qclosed q
    then (if q_eof q < 3 \<and> (q_err q = [] \<or> q_err q = Ehungup) then Some 0 else Some (-1), q\<lparr>q_eof := q_eof q + 1\<rparr>)
    else (None, qset Qstarve q))"
  using assms by (auto simp: qwait_def Let_def)

text \<open>The outcomes of a read that takes nothing: the queue is empty and its accounts are untouched.\<close>

definition idle_read :: "queue \<Rightarrow> bool \<Rightarrow> queue \<Rightarrow> bool" where
  "idle_read q sleeps q' \<longleftrightarrow> (if sleeps then q' = qset Qstarve q \<and> \<not> qis Qclosed q else q' = q\<lparr>q_eof := q_eof q + 1\<rparr>)"

lemma idle_read_ok:
  assumes "idle_read q k q'" "qinv q"
  shows "qinv q'" "same_kind q' q" "qdata q' = qdata q" "k \<Longrightarrow> qis Qstarve q'"
  using assms qlike_view [OF qlike_ops(2) [of q]]
  by (auto simp: idle_read_def same_kind_def qinv_def qdata_def split: if_splits)

lemma qbread_ok:
  assumes "qinv q" "mem_avail ka" "0 \<le> len"
  shows "\<exists>r q' ka'. qbread q len ka = Some (r, q', ka') \<and> mem_avail ka' \<and>
    (case r of
       Done (Some b) \<Rightarrow> qinv q' \<and> same_kind q' q \<and> wfb b \<and> BLEN b \<le> max 0 len \<and>
         (\<not> qis Qmsg q \<longrightarrow> qdata q = bdata b @ qdata q')
     | Asleep \<Rightarrow> q_blocks q = [] \<and> idle_read q True q'
     | _ \<Rightarrow> q_blocks q = [] \<and> idle_read q False q')"
proof (cases "q_blocks q")
  case Nil
  then show ?thesis
    using assms(2) by (simp add: qbread_def qwait_none idle_read_def)
next
  case (Cons b bs)
  have spl: "q_blocks q = [b] @ bs" using Cons by simp
  note k = qcut_ok [OF assms(1) spl]
  have w: "wfb b" using k(5) by simp
  have base: "qbread q len ka = (do {
      (nb, q, ka) \<leftarrow> (if BLEN b > len then do {
          (q, ka) \<leftarrow> (if \<not> qis Qmsg q then do {
              (b1, ka) \<leftarrow> allocb (nat (BLEN b - len)) ka;
              d \<leftarrow> rdblock b len (BLEN b - len);
              b1 \<leftarrow> wrblock b1 d;
              Some (qputback (qcut q [b]) b1, ka) }
            else Some (qcut q [b], ka));
          Some (b\<lparr>b_wp := nat (int (b_rp b) + len)\<rparr>, q, ka) }
        else Some (b, qcut q [b], ka));
      Some (Done (Some nb), qwakeup_iunlock q, ka) })"
    using Cons by (simp add: qbread_def qwait_some qremove_Cons Let_def bind_assoc)
  have fin: "?thesis" if r: "qbread q len ka = Some (Done (Some nb), qwakeup_iunlock q1, ka1)" "qinv q1" "same_kind q1 q"
    "wfb nb" "BLEN nb \<le> max 0 len" "\<not> qis Qmsg q \<longrightarrow> qdata q = bdata nb @ qdata q1" "mem_avail ka1" for nb q1 ka1
    using r qlike_view [OF qlike_ops(7) [of q1]] qlike_kind [OF qlike_ops(7) [of q1]]
    by (simp add: same_kind_def)
  consider (fits) "BLEN b \<le> len" | (msg) "len < BLEN b" "qis Qmsg q" | (split) "len < BLEN b" "\<not> qis Qmsg q" by linarith
  then show ?thesis
  proof cases
    case fits
    then have "qbread q len ka = Some (Done (Some b), qwakeup_iunlock (qcut q [b]), ka)" by (simp add: base)
    from fin [OF this] show ?thesis using k w fits assms(2) by (auto simp: same_kind_def)
  next
    case msg
    note c = cut_ok [OF w assms(3) less_imp_le [OF msg(1)]]
    have "qbread q len ka = Some (Done (Some (b\<lparr>b_wp := nat (int (b_rp b) + len)\<rparr>)), qwakeup_iunlock (qcut q [b]), ka)"
      using msg by (simp add: base)
    from fin [OF this] show ?thesis using k c msg assms(2,3) by (auto simp: same_kind_def BLEN_def)
  next
    case split
    note c = cut_ok [OF w assms(3) less_imp_le [OF split(1)]]
    obtain b1 ka1 where a: "allocb (nat (BLEN b - len)) ka = Some (b1, ka1)" "wfb b1" "bdata b1 = []"
        "nat (BLEN b - len) \<le> room b1" "mem_avail ka1"
      using allocb_ok [OF assms(2)] by blast
    have rd: "rdblock b len (BLEN b - len) = Some (drop (nat len) (bdata b))"
      using rdblock_at [OF w assms(3), of "BLEN b - len"] split(1) w by (simp add: BLEN_data nat_diff_distrib')
    have "length (drop (nat len) (bdata b)) \<le> room b1" using a(4) w assms(3) split(1)
      by (simp add: BLEN_data nat_diff_distrib')
    from wrblock_ok [OF a(2) this] a(3) obtain b2 where b2: "wrblock b1 (drop (nat len) (bdata b)) = Some b2" "wfb b2"
      "bdata b2 = drop (nat len) (bdata b)" by auto
    have r: "qbread q len ka = Some (Done (Some (b\<lparr>b_wp := nat (int (b_rp b) + len)\<rparr>)),
        qwakeup_iunlock (qputback (qcut q [b]) b2), ka1)"
      using split by (simp add: base a(1) rd b2(1))
    note p = qputback_ok [OF k(1) b2(2)]
    have "qdata q = bdata (b\<lparr>b_wp := nat (int (b_rp b) + len)\<rparr>) @ qdata (qputback (qcut q [b]) b2)"
      using k(3) c(2) p(2) b2(3) by simp
    with fin [OF r] show ?thesis using p(1) c a(5) assms(3) by (auto simp: same_kind_def BLEN_def)
  qed
qed

subsection \<open>The accounts and the stream\<close>

definition rheld :: "rpc \<Rightarrow> mem" where
  "rheld r = (case r of RGive c n len \<Rightarrow> cdata c | _ \<Rightarrow> [])"

definition rwf :: "rpc \<Rightarrow> bool" where
  "rwf r = (case r of RIdle \<Rightarrow> True | RTry k len \<Rightarrow> 0 \<le> len | RSleep k len \<Rightarrow> 0 \<le> len | RAsleep k len \<Rightarrow> 0 \<le> len
     | RGive c n len \<Rightarrow> wfc c \<and> n = blocklen c \<and> snug c len \<and> 0 \<le> len)"

lemma rpc_simps [simp]:
  "rheld RIdle = []" "rheld (RTry k len) = []" "rheld (RSleep k len) = []" "rheld (RAsleep k len) = []"
  "rheld (RGive c n len) = cdata c" "rwf RIdle" "rwf (RTry k len) = (0 \<le> len)" "rwf (RSleep k len) = (0 \<le> len)"
  "rwf (RAsleep k len) = (0 \<le> len)"
  "rwf (RGive c n len) = (wfc c \<and> n = blocklen c \<and> snug c len \<and> 0 \<le> len)"
  "rheld (wake_r ev r) = rheld r" "rwf (wake_r ev r) = rwf r"
  by (auto simp: rheld_def rwf_def wake_r_def split: rpc.splits)

lemma settle_fields [simp]:
  "qs_q (settle s q ka) = q" "qs_ka (settle s q ka) = ka" "qs_r (settle s q ka) = wake_r (news (qs_q s) q) (qs_r s)"
  "qs_w (settle s q ka) = wake_w (news (qs_q s) q) (qs_w s)"
  by (simp_all add: settle_def)

definition sinv :: "qsys \<Rightarrow> bool" where
  "sinv s \<longleftrightarrow> qinv (qs_q s) \<and> mem_avail (qs_ka s) \<and> \<not> q_bypass (qs_q s) \<and> rwf (qs_r s)"

text \<open>\<open>flows s l s'\<close>: the invariant holds after the step and the stream is the same up to the label.\<close>

definition flows :: "qsys \<Rightarrow> qlabel \<Rightarrow> qsys \<Rightarrow> bool" where
  "flows s l s' \<longleftrightarrow> sinv s' \<and> same_kind (qs_q s') (qs_q s) \<and>
     (\<not> qis Qmsg (qs_q s) \<longrightarrow> l \<noteq> Dropped \<longrightarrow> l \<noteq> Flushed \<longrightarrow>
        rheld (qs_r s) @ qdata (qs_q s) @ puts [l] = gots [l] @ rheld (qs_r s') @ qdata (qs_q s'))"

lemma flowsI:
  assumes "sinv s" "qinv (qs_q s')" "same_kind (qs_q s') (qs_q s)" "mem_avail (qs_ka s')" "rwf (qs_r s')"
    "\<not> qis Qmsg (qs_q s) \<Longrightarrow> l \<noteq> Dropped \<Longrightarrow> l \<noteq> Flushed \<Longrightarrow>
      rheld (qs_r s) @ qdata (qs_q s) @ puts [l] = gots [l] @ rheld (qs_r s') @ qdata (qs_q s')"
  shows "flows s l s'"
  using assms by (simp add: flows_def sinv_def same_kind_def)

lemma flows_grown:
  assumes "sinv s" "grown (qs_q s) c q'" "mem_avail ka'"
  shows "flows s (Put (added (qs_q s) q')) (settle s q' ka')"
proof -
  have "qinv (qs_q s)" "rwf (qs_r s)" using assms(1) by (simp_all add: sinv_def)
  with grown_ok [OF assms(2)] assms show ?thesis by (intro flowsI) (auto simp: same_kind_def)
qed

lemma flows_like:
  assumes "sinv s" "qlike (qs_q s') (qs_q s)" "mem_avail (qs_ka s')" "rwf (qs_r s')" "rheld (qs_r s') = rheld (qs_r s)"
  shows "flows s Tau s'"
  using assms qlike_view [OF assms(2)] qlike_kind [OF assms(2)] by (intro flowsI) (simp_all add: sinv_def)

lemma wstep_flows:
  assumes "wstep s l s'" "sinv s"
  shows "flows s l s'"
  using assms(1)
proof cases
  case (w_put b q' ka')
  have nb: "\<not> q_bypass (qs_q s)" "qinv (qs_q s)" "rwf (qs_r s)" "mem_avail (qs_ka s)" using assms(2) by (simp_all add: sinv_def)
  with qbwrite_put_cases [OF nb(1), of b "[]" "qs_ka s"] w_put(5)
  have "pushed (qs_q s) [b] q'" "ka' = qs_ka s" by (auto split: if_splits)
  with pushed_grown [of "qs_q s" "[b]" q'] w_put(4) have g: "grown (qs_q s) [b] q'" "ka' = qs_ka s" by simp_all
  with grown_ok [OF g(1) nb(2)] nb w_put(1,2) assms(2) show ?thesis
    by (intro flowsI) (auto simp: same_kind_def)
next
  case (w_refuse b r q' ka')
  have nb: "\<not> q_bypass (qs_q s)" "rwf (qs_r s)" "mem_avail (qs_ka s)" using assms(2) by (simp_all add: sinv_def)
  with qbwrite_put_cases [OF nb(1), of b "[]" "qs_ka s"] w_refuse(5,6)
  have "q' = qs_q s" "ka' = freeb b (qs_ka s)" by (auto split: if_splits)
  then show ?thesis using w_refuse(1,2) assms(2) nb by (auto intro: flows_like)
next
  case w_check
  then show ?thesis using assms(2) by (auto simp: sinv_def intro: flows_like)
next
  case w_flow
  then show ?thesis using assms(2) by (auto simp: sinv_def intro: flows_like)
next
  case w_sleep
  then show ?thesis using assms(2) by (auto simp: sinv_def intro: flows_like)
qed

lemma took_facts:
  assumes "qinv q" "mem_avail ka" "0 \<le> len" "qread_take q len ka = (x, q', ka')"
  shows "mem_avail ka' \<and> qinv q' \<and> same_kind q' q \<and>
    (case x of
       Done (Some (c, n)) \<Rightarrow> rwf (RGive c n len) \<and> qdata q = cdata c @ qdata q'
     | _ \<Rightarrow> qdata q = [] \<and> qdata q' = [])"
proof -
  obtain e r where er: "q_blocks q = e @ r" "list_all (\<lambda>b. BLEN b \<le> 0) e" "took q len ka e r (x, q', ka')"
    using qread_take_ok [of q len ka] assms(4) by auto
  have e: "cdata e = []" using empties er(1,2) assms(1) by (simp add: qinv_def)
  have dr: "qdata q = cdata r" by (simp add: qdata_def er(1) e)
  have ka: "mem_avail (freeblist e ka)" using assms(2) by simp
  show ?thesis
  proof (cases "r = []")
    case True
    have spl: "q_blocks q = e @ []" using er(1) True by simp
    note k = qcut_ok [OF assms(1) spl]
    have k': "qdata (qcut q e) = []" using k(2) by (simp add: qdata_def)
    have up: "qinv ((qcut q e)\<lparr>q_eof := n\<rparr>)" "qdata ((qcut q e)\<lparr>q_eof := n\<rparr>) = []"
      "same_kind ((qcut q e)\<lparr>q_eof := n\<rparr>) q" for n
      using k(1) k' by (auto simp: qinv_def qdata_def same_kind_def)
    show ?thesis
    proof (cases "qis Qclosed q")
      case closed: True
      then show ?thesis using er(3) True ka up dr by (auto simp: took_def)
    next
      case False
      then have "x = Asleep" "q' = qset Qstarve (qcut q e)" "ka' = freeblist e ka"
        using er(3) True by (simp_all add: took_def)
      then show ?thesis using ka k(1) k' dr True qlike_view [OF qlike_ops(2) [of "qcut q e"]]
        by (simp add: same_kind_def)
    qed
  next
    case False
    with er(3) obtain c r' where c: "r = c @ r'" "snug c len" "x = Done (Some (c, blocklen c))" "q' = qcut q (e @ c)"
      "ka' = freeblist e ka" by (auto simp: took_def)
    have spl: "q_blocks q = (e @ c) @ r'" using er(1) c(1) by simp
    note k = qcut_ok [OF assms(1) spl]
    show ?thesis using k c ka assms(3) e by (auto simp: same_kind_def)
  qed
qed

lemma rstep_flows:
  assumes "rstep s l s'" "sinv s"
  shows "flows s l s'"
proof -
  have i: "qinv (qs_q s)" "mem_avail (qs_ka s)" "rwf (qs_r s)" using assms(2) by (simp_all add: sinv_def)
  show ?thesis using assms(1)
  proof cases
    case (r_start len)
    then show ?thesis using i assms(2) by (auto intro: flows_like)
  next
    case (r_wait len q' ka')
    then have "0 \<le> len" using i by simp
    with took_facts [OF i(1,2) this r_wait(4)] r_wait(1-3) assms(2) show ?thesis by (intro flowsI) auto
  next
    case (r_error len e q' ka')
    then have "0 \<le> len" using i by simp
    with took_facts [OF i(1,2) this r_error(4)] r_error(1-3) assms(2) show ?thesis by (intro flowsI) auto
  next
    case (r_eof len q' ka')
    then have "0 \<le> len" using i by simp
    with took_facts [OF i(1,2) this r_eof(4)] r_eof(1-3) assms(2) show ?thesis by (intro flowsI) auto
  next
    case (r_take len c n q' ka')
    then have "0 \<le> len" using i by simp
    with took_facts [OF i(1,2) this r_take(4)] r_take(1-3) assms(2) show ?thesis by (intro flowsI) auto
  next
    case (r_give c n len m d q' ka')
    then have w: "wfc c" "n = blocklen c" "snug c len" "0 \<le> len" using i by simp_all
    from qread_give_ok [OF i(1) w(1,3,4) i(2)] r_give(4) obtain q0 where
      g: "d = take (nat len) (cdata c)" "q' = qwakeup_iunlock q0" "qinv q0" "mem_avail ka'"
      "qdata q0 = (if qis Qmsg (qs_q s) then qdata (qs_q s) else drop (nat len) (cdata c) @ qdata (qs_q s))"
      "q0 = qs_q s \<or> (\<exists>b. q0 = qputback (qs_q s) b)" using w(2) by auto
    have "same_kind q0 (qs_q s)" using g(6) by (auto simp: same_kind_def)
    with g r_give(1-3) assms(2) qlike_view [OF qlike_ops(7) [of q0]] qlike_kind [OF qlike_ops(7) [of q0]]
    show ?thesis by (intro flowsI) (auto simp: same_kind_def simp flip: append_assoc)
  next
    case (r_sleep k len)
    then show ?thesis using i assms(2) by (auto intro: flows_like)
  qed
qed

lemma bstep_flows:
  assumes "bstep s l s'" "sinv s"
  shows "flows s l s'"
proof -
  have i: "qinv (qs_q s)" "mem_avail (qs_ka s)" "rwf (qs_r s)" using assms(2) by (simp_all add: sinv_def)
  show ?thesis using assms(1)
  proof cases
    case (b_start len)
    then show ?thesis using i assms(2) by (auto intro: flows_like)
  next
    case (b_wait len q' ka')
    then have "0 \<le> len" using i by simp
    with qbread_ok [OF i(1,2) this] b_wait(4) have "idle_read (qs_q s) True q'" "mem_avail ka'" by auto
    with idle_read_ok [OF this(1) i(1)] \<open>0 \<le> len\<close> b_wait(1-3) assms(2) show ?thesis by (intro flowsI) auto
  next
    case (b_error len e q' ka')
    then have "0 \<le> len" using i by simp
    with qbread_ok [OF i(1,2) this] b_error(4) have "idle_read (qs_q s) False q'" "mem_avail ka'" by auto
    with idle_read_ok [OF this(1) i(1)] b_error(1-3) assms(2) show ?thesis by (intro flowsI) auto
  next
    case (b_eof len q' ka')
    then have "0 \<le> len" using i by simp
    with qbread_ok [OF i(1,2) this] b_eof(4) have "idle_read (qs_q s) False q'" "mem_avail ka'" by auto
    with idle_read_ok [OF this(1) i(1)] b_eof(1-3) assms(2) show ?thesis by (intro flowsI) auto
  next
    case (b_read len b q' ka')
    then have "0 \<le> len" using i by simp
    with qbread_ok [OF i(1,2) this] b_read(4) b_read(1-3) assms(2) show ?thesis by (intro flowsI) auto
  qed
qed

lemma istep_flows:
  assumes "istep s l s'" "sinv s"
  shows "flows s l s'"
proof -
  have i: "qinv (qs_q s)" "mem_avail (qs_ka s)" "rwf (qs_r s)" using assms(2) by (simp_all add: sinv_def)
  show ?thesis using assms(1)
  proof cases
    case (i_get b q')
    with qget_ok [OF i(1) i_get(4)] i assms(2) show ?thesis by (intro flowsI) auto
  next
    case (i_starve q')
    with qget_ok [OF i(1) i_starve(4)] i assms(2) show ?thesis by (intro flowsI) auto
  next
    case (i_consume len n d q' ka')
    with qconsume_ok [OF i(1,2) i_consume(4,5)] i assms(2) show ?thesis by (intro flowsI) auto
  next
    case (i_discard len n q' ka')
    with qdiscard_ok [OF i(1,2) i_discard(4,5)] i assms(2) show ?thesis by (intro flowsI) auto
  next
    case (i_pass c n q' ka')
    then show ?thesis using qpass_grown [of c "qs_q s" "qs_ka s" n q' ka'] i assms(2) flows_grown by blast
  next
    case (i_passnolim c n q' ka')
    then show ?thesis using qpass_grown [of c "qs_q s" "qs_ka s" n q' ka'] i assms(2) flows_grown by blast
  next
    case (i_produce p n q' ka')
    then show ?thesis using qproduce_grown i assms(2) flows_grown by blast
  next
    case (i_print p n q' ka')
    then show ?thesis using qiwrite_grown i assms(2) flows_grown by blast
  qed
qed

lemma control_like:
  "qis f (qhangup q m) \<longleftrightarrow> f = 2 \<or> qis f q" "q_blocks (qhangup q m) = q_blocks q" "q_len (qhangup q m) = q_len q"
  "q_dlen (qhangup q m) = q_dlen q" "q_bypass (qhangup q m) = q_bypass q" "q_limit (qhangup q m) = q_limit q"
  "news q (qhangup q m) = [WakeReader, WakeWriter]"
  by (auto simp: qhangup_def wake_both_def news_def event_def qis_def qset_def bit_simps)

lemma reopen_like:
  "qis f (qreopen q) \<longleftrightarrow> f = 0 \<or> f \<noteq> 2 \<and> qis f q" "q_blocks (qreopen q) = q_blocks q" "q_len (qreopen q) = q_len q"
  "q_dlen (qreopen q) = q_dlen q" "q_bypass (qreopen q) = q_bypass q" "news q (qreopen q) = []"
  by (auto simp: qreopen_def news_def qis_def qset_def qclear_def bit_simps)

lemma qclose_like:
  assumes "qclose q ka = (q', ka')"
  shows "qis f q' \<longleftrightarrow> f = 2 \<or> f \<noteq> 0 \<and> f \<noteq> 3 \<and> qis f q" "q_blocks q' = []" "q_len q' = 0" "q_dlen q' = 0"
    "q_bypass q' = q_bypass q" "q_limit q' = q_limit q" "news q q' = [WakeReader, WakeWriter]"
    "ka' = freeblist (q_blocks q) ka"
  using assms
  by (auto simp: qclose_def wake_both_def news_def event_def qis_def qset_def qclear_def bit_simps Let_def)

lemma cstep_flows:
  assumes "cstep s l s'" "sinv s"
  shows "flows s l s'"
proof -
  have i: "qinv (qs_q s)" "mem_avail (qs_ka s)" "rwf (qs_r s)" using assms(2) by (simp_all add: sinv_def)
  show ?thesis using assms(1)
  proof cases
    case (c_hangup msg)
    with i assms(2) show ?thesis by (intro flowsI) (auto simp: same_kind_def qinv_def qdata_def control_like)
  next
    case (c_close q' ka')
    with qclose_like [OF c_close(3)] i assms(2) show ?thesis
      by (intro flowsI) (auto simp: same_kind_def qinv_def qdata_def)
  next
    case (c_noblock onoff)
    with i assms(2) show ?thesis by (intro flowsI) (auto simp: same_kind_def qinv_def qdata_def qnoblock_def)
  next
    case c_reopen
    with i assms(2) show ?thesis by (intro flowsI) (auto simp: same_kind_def qinv_def qdata_def reopen_like)
  next
    case (c_limit n)
    with i assms(2) show ?thesis by (intro flowsI) (auto simp: same_kind_def qinv_def qdata_def qsetlimit_def)
  next
    case (c_flush q' ka')
    then have "q' = event WakeWriter ((qs_q s)\<lparr>q_blocks := [], q_len := 0, q_dlen := 0\<rparr>)"
      "ka' = freeblist (q_blocks (qs_q s)) (qs_ka s)" by (auto simp: qflush_def)
    with c_flush(1,2) i assms(2) show ?thesis
      by (intro flowsI) (auto simp: same_kind_def qinv_def qdata_def)
  qed
qed

lemma qstep_flows: "qstep s l s' \<Longrightarrow> sinv s \<Longrightarrow> flows s l s'"
  unfolding qstep_def using wstep_flows rstep_flows bstep_flows istep_flows cstep_flows by blast

lemma puts_append [simp]: "puts (a @ b) = puts a @ puts b"
  by (induction a rule: puts.induct) auto

lemma gots_append [simp]: "gots (a @ b) = gots a @ gots b"
  by (induction a rule: gots.induct) auto

text \<open>
  The interface between steps and runs: an invariant of the steps is one of the runs, and steps that
  hand bytes through in order make up runs that do.
\<close>

locale stepper =
  fixes st :: "qsys \<Rightarrow> qlabel \<Rightarrow> qsys \<Rightarrow> bool" and inv :: "qsys \<Rightarrow> bool"
  assumes step_inv: "st s l s' \<Longrightarrow> inv s \<Longrightarrow> inv s'"
begin

lemma run_inv: "run st s ls s' \<Longrightarrow> inv s \<Longrightarrow> inv s'"
  by (induction rule: run.induct) (auto intro: step_inv)

end

locale streamer = stepper +
  fixes content :: "qsys \<Rightarrow> mem" and lossy :: "qlabel \<Rightarrow> bool"
  assumes step_content: "st s l s' \<Longrightarrow> inv s \<Longrightarrow> \<not> lossy l \<Longrightarrow> content s @ puts [l] = gots [l] @ content s'"
begin

lemma run_content:
  "run st s ls s' \<Longrightarrow> inv s \<Longrightarrow> \<forall>l \<in> set ls. \<not> lossy l \<Longrightarrow> content s @ puts ls = gots ls @ content s'"
proof (induction rule: run.induct)
  case (run_snoc s ls s1 l s2)
  have "content s @ puts ls = gots ls @ content s1" using run_snoc by simp
  moreover have "content s1 @ puts [l] = gots [l] @ content s2"
    using run_snoc run_inv by (intro step_content) auto
  ultimately show ?case by (metis append_assoc gots_append puts_append)
qed simp

end

interpretation accounts: stepper qstep sinv
  by unfold_locales (use qstep_flows in \<open>auto simp: flows_def\<close>)

interpretation bytes: streamer qstep "\<lambda>s. sinv s \<and> \<not> qis Qmsg (qs_q s)"
  "\<lambda>s. rheld (qs_r s) @ qdata (qs_q s)" "\<lambda>l. l = Dropped \<or> l = Flushed"
  by unfold_locales (use qstep_flows in \<open>auto simp: flows_def same_kind_def\<close>)

lemma open_sinv: "mem_avail ka \<Longrightarrow> sinv (open_sys limit msg kick ka)"
  by (simp add: open_sys_def sinv_def qopen_def qinv_def)

lemma open_fields [simp]:
  "qs_q (open_sys limit msg kick ka) = qopen limit msg kick" "qs_r (open_sys limit msg kick ka) = RIdle"
  "qs_w (open_sys limit msg kick ka) = WIdle" "qdata (qopen limit msg kick) = []"
  "qis f (qopen limit msg kick) \<longleftrightarrow> f = 0 \<or> bit msg f"
  by (simp_all add: open_sys_def qdata_def qopen_def) (simp add: qis_def)

text \<open>
  C30. The accounts: however the steps of processes, interrupts and control operations interleave on a
  queue, its length counts exactly the space of the blocks on it, its data length exactly their
  bytes, and every block is within its bounds.  \<open>pullupqueue\<close>, which only the mount driver calls on its
  own queue, is not among these steps, because it breaks the accounts: it counts nothing.  Asked for bytes that such a queue has, it leaves
  the bytes and so the data length right and brings the bytes asked for into the first block, but
  \<^verbatim>\<open>q->len\<close> does not follow the blocks; asked for more, it frees all blocks and both counts stay.
\<close>

theorem qio_accounts:
  assumes "run qstep (open_sys limit msg kick ka) ls s" "mem_avail ka"
  shows "q_len (qs_q s) = blockalloclen (q_blocks (qs_q s)) \<and> q_dlen (qs_q s) = int (length (qdata (qs_q s))) \<and>
    list_all wfb (q_blocks (qs_q s)) \<and>
    (q_blocks (qs_q s) = [] \<or>
     (\<exists>r q' ka'. pullupqueue (qs_q s) n (qs_ka s) = Some (r, q', ka') \<and> q_len q' = q_len (qs_q s) \<and>
       q_dlen q' = q_dlen (qs_q s) \<and> list_all wfb (q_blocks q') \<and>
       (if n \<le> q_dlen (qs_q s) then r \<noteq> None \<and> qdata q' = qdata (qs_q s) \<and> q_blocks q' \<noteq> [] \<and> n \<le> BLEN (hd (q_blocks q'))
        else r = None \<and> q_blocks q' = [])))"
proof -
  have "sinv s" by (rule accounts.run_inv [OF assms(1) open_sinv [OF assms(2)]])
  then have q: "qinv (qs_q s)" and m: "mem_avail (qs_ka s)" by (simp_all add: sinv_def)
  have "q_len (qs_q s) = blockalloclen (q_blocks (qs_q s))" "q_dlen (qs_q s) = int (length (qdata (qs_q s)))"
    "list_all wfb (q_blocks (qs_q s))"
    using q qinv_nonneg(3) [OF q] by (simp_all add: qinv_def wfc_def)
  then show ?thesis using pullupqueue_accounts [OF q m] by blast
qed

text \<open>
  C6. The queue is a byte stream: under every interleaving of writers, producers at interrupt level,
  readers and consumers, the bytes that were read, followed by those a reader is just copying and
  those on the queue, are the bytes that were put in, in that order; nothing is lost, doubled or
  overtaken, as long as the queue is not a message queue and is not closed or flushed.
\<close>

theorem qio_stream:
  assumes "run qstep (open_sys limit msg kick ka) ls s" "mem_avail ka" "\<not> bit msg Qmsg"
    "Dropped \<notin> set ls" "Flushed \<notin> set ls"
  shows "puts ls = gots ls @ rheld (qs_r s) @ qdata (qs_q s)"
proof -
  have "\<forall>l \<in> set ls. \<not> (l = Dropped \<or> l = Flushed)" using assms(4,5) by auto
  from bytes.run_content [OF assms(1) _ this] open_sinv [OF assms(2)] assms(3) show ?thesis by simp
qed

end
