(* ===== verification/QioWake.thy ===== *)
theory QioWake
  imports QioSys
begin

text \<open>
  Sleeping and waking on an I/O queue: a sleeping reader has nothing to read, a writer asleep on a
  pipe has a reader to wake it, and the two places where the code breaks this.
\<close>

subsection \<open>A sleeping reader\<close>

definition rsafe :: "queue \<Rightarrow> rpc \<Rightarrow> bool" where
  "rsafe q r = (case r of
       RSleep k len \<Rightarrow> qis Qstarve q \<or> notempty q
     | RAsleep k len \<Rightarrow> qis Qstarve q \<and> \<not> notempty q
     | _ \<Rightarrow> True)"

lemma rsafe_simps [simp]:
  "rsafe q RIdle" "rsafe q (RTry k len)" "rsafe q (RGive c n len)" "wake_r [] r = r" "wake_w [] w = w"
  "wake_r ev RIdle = RIdle"
  "rsafe q (RSleep k len) = (qis Qstarve q \<or> notempty q)" "news q q = []"
  by (auto simp: rsafe_def wake_r_def wake_w_def news_def split: rpc.splits)

lemma rsafe_woken: "WakeReader \<in> set ev \<Longrightarrow> qis Qstarve q \<or> notempty q \<Longrightarrow> rsafe q (wake_r ev r)"
  by (cases r) (auto simp: rsafe_def wake_r_def)

lemma rsafe_same:
  assumes "rsafe q r" "notempty q' = notempty q" "qis Qstarve q \<Longrightarrow> qis Qstarve q'"
  shows "rsafe q' (wake_r ev r)"
  using assms by (cases r) (auto simp: rsafe_def wake_r_def)

lemma rsafe_grown:
  assumes "grown q c q'" "qinv q" "rsafe q r"
  shows "rsafe q' (wake_r (news q q') r)"
proof (cases "c = []")
  case True
  then show ?thesis using assms grown_ok [OF assms(1,2)]
    by (intro rsafe_same [OF assms(3)]) (auto simp: grown_def notempty_def)
next
  case False
  note g = grown_ok [OF assms(1,2)]
  have ne: "notempty q'" using g(3) False by (simp add: notempty_def)
  show ?thesis
  proof (cases r)
    case (RAsleep k len)
    then have "WakeReader \<in> set (news q q')" using assms(1,3) False by (auto simp: rsafe_def grown_def)
    then show ?thesis using RAsleep by (simp add: wake_r_def)
  qed (auto simp: wake_r_def ne)
qed

lemma qstep_rsafe:
  assumes "qstep s l s'" "sinv s" "rsafe (qs_q s) (qs_r s)" "l \<noteq> Flushed"
  shows "rsafe (qs_q s') (qs_r s')"
proof -
  have i: "qinv (qs_q s)" "mem_avail (qs_ka s)" "rwf (qs_r s)" "\<not> q_bypass (qs_q s)"
    using assms(2) by (simp_all add: sinv_def)
  have same: ?thesis if "qs_q s' = qs_q s" "qs_r s' = qs_r s" using that assms(3) by simp
  have idle: ?thesis if "qs_r s' = RIdle" using that by simp
  have grow: ?thesis if "grown (qs_q s) c (qs_q s')" "qs_r s' = wake_r (news (qs_q s) (qs_q s')) (qs_r s)" for c
    using that rsafe_grown [OF that(1) i(1) assms(3)] by simp
  consider "wstep s l s'" | "rstep s l s'" | "bstep s l s'" | "istep s l s'" | "cstep s l s'"
    using assms(1) by (auto simp: qstep_def)
  then show ?thesis
  proof cases
    case 1
    then show ?thesis
    proof cases
      case (w_put b q' ka')
      with qbwrite_put_cases [OF i(4), of b "[]" "qs_ka s"] have "pushed (qs_q s) [b] q'" by (auto split: if_splits)
      with pushed_grown [of "qs_q s" "[b]" q'] w_put show ?thesis by (intro grow [of "[b]"]) auto
    next
      case (w_refuse b r q' ka')
      with qbwrite_put_cases [OF i(4), of b "[]" "qs_ka s"] have "q' = qs_q s" by (auto split: if_splits)
      with w_refuse show ?thesis by (intro same) auto
    next
      case w_flow
      then show ?thesis using rsafe_same [OF assms(3), of "qset Qflow (qs_q s)" "[]"] by (simp add: notempty_def)
    qed (use assms(3) in simp_all)
  next
    case 2
    then show ?thesis
    proof cases
      case (r_wait len q' ka')
      obtain e r where "took (qs_q s) len (qs_ka s) e r (Asleep, q', ka')"
        using qread_take_ok [of "qs_q s" len "qs_ka s"] r_wait(4) by auto
      then have "qis Qstarve q'" by (auto simp: took_def split: if_splits)
      then show ?thesis using r_wait by simp
    next
      case (r_sleep k len)
      then show ?thesis using assms(3) by (auto simp: rsafe_def split: if_splits)
    qed simp_all
  next
    case 3
    then show ?thesis
    proof cases
      case (b_wait len q' ka')
      then have "0 \<le> len" using i(3) by simp
      with qbread_ok [OF i(1,2) this] b_wait(4) have "idle_read (qs_q s) True q'" by auto
      with idle_read_ok [OF this i(1)] b_wait show ?thesis by simp
    qed simp_all
  next
    case 4
    then show ?thesis
    proof cases
      case (i_pass c n q' ka')
      then obtain c' where "grown (qs_q s) c' q'" using qpass_grown [of c "qs_q s" "qs_ka s" n q' ka'] i by blast
      then show ?thesis using i_pass by (intro grow) auto
    next
      case (i_passnolim c n q' ka')
      then obtain c' where "grown (qs_q s) c' q'" using qpass_grown [of c "qs_q s" "qs_ka s" n q' ka'] i by blast
      then show ?thesis using i_passnolim by (intro grow) auto
    next
      case (i_produce p n q' ka')
      then obtain c' where "grown (qs_q s) c' q'" using qproduce_grown i by blast
      then show ?thesis using i_produce by (intro grow) auto
    next
      case (i_print p n q' ka')
      then obtain c' where "grown (qs_q s) c' q'" using qiwrite_grown i by blast
      then show ?thesis using i_print by (intro grow) auto
    qed simp_all
  next
    case 5
    then show ?thesis
    proof cases
      case (c_hangup msg)
      then show ?thesis by (simp add: control_like notempty_def rsafe_woken)
    next
      case (c_close q' ka')
      with qclose_like [OF c_close(3)] c_close(1,2) show ?thesis by (simp add: notempty_def rsafe_woken)
    next
      case (c_noblock onoff)
      then show ?thesis
        using rsafe_same [OF assms(3), of "qnoblock (qs_q s) onoff" "news (qs_q s) (qnoblock (qs_q s) onoff)"]
        by (simp add: qnoblock_def notempty_def)
    next
      case c_reopen
      show ?thesis
      proof (cases "qs_r s")
        case (RAsleep k len)
        then show ?thesis using c_reopen assms(3) by (auto simp: rsafe_def wake_r_def reopen_like notempty_def)
      qed (use c_reopen in \<open>auto simp: wake_r_def reopen_like\<close>)
    next
      case (c_limit n)
      then show ?thesis
        using rsafe_same [OF assms(3), of "qsetlimit (qs_q s) n" "news (qs_q s) (qsetlimit (qs_q s) n)"]
        by (simp add: qsetlimit_def notempty_def)
    next
      case (c_flush q' ka')
      then show ?thesis using assms(4) by simp
    qed
  qed
qed

lemma run_mono:
  assumes "run st s ls s'" "\<And>a l b. st a l b \<Longrightarrow> l \<in> set ls \<Longrightarrow> st' a l b"
  shows "run st' s ls s'"
  using assms by induction (auto intro: run.intros)

interpretation noflush: stepper "\<lambda>s l s'. qstep s l s' \<and> l \<noteq> Flushed" "\<lambda>s. sinv s \<and> rsafe (qs_q s) (qs_r s)"
  by unfold_locales (use qstep_rsafe accounts.step_inv in blast)

lemma run_rsafe:
  assumes "run qstep s ls s'" "sinv s" "rsafe (qs_q s) (qs_r s)" "Flushed \<notin> set ls"
  shows "rsafe (qs_q s') (qs_r s')"
proof -
  have "run (\<lambda>s l s'. qstep s l s' \<and> l \<noteq> Flushed) s ls s'"
    by (rule run_mono [OF assms(1)]) (use assms(4) in auto)
  from noflush.run_inv [OF this] assms(2,3) show ?thesis by simp
qed

text \<open>
  C31. No reader sleeps on data: in every run without \<open>qflush\<close>, when a reader is asleep the queue is
  empty and open, and its starved bit is set, so the next producer wakes it.
\<close>

theorem qio_reader_woken:
  assumes "run qstep (open_sys limit msg kick ka) ls s" "mem_avail ka" "Flushed \<notin> set ls" "qs_r s = RAsleep k len"
  shows "q_blocks (qs_q s) = [] \<and> \<not> qis Qclosed (qs_q s) \<and> qis Qstarve (qs_q s)"
  using run_rsafe [OF assms(1) open_sinv [OF assms(2)] _ assms(3)] assms(4)
  by (simp add: rsafe_def notempty_def)

subsection \<open>A sleeping writer on a pipe\<close>

definition rspace :: "rpc \<Rightarrow> int" where
  "rspace r = (case r of RGive c n len \<Rightarrow> blockalloclen c | _ \<Rightarrow> 0)"

definition giving :: "rpc \<Rightarrow> bool" where
  "giving r = (case r of RGive c n len \<Rightarrow> True | _ \<Rightarrow> False)"

lemma rspace_simps [simp]:
  "rspace RIdle = 0" "rspace (RTry k len) = 0" "rspace (RSleep k len) = 0" "rspace (RAsleep k len) = 0"
  "rspace (RGive c n len) = blockalloclen c" "rspace (wake_r ev r) = rspace r"
  "\<not> giving RIdle" "\<not> giving (RTry k len)" "\<not> giving (RSleep k len)" "\<not> giving (RAsleep k len)"
  "giving (RGive c n len)" "giving (wake_r ev r) = giving r" "0 \<le> rspace r"
  by (auto simp: rspace_def giving_def wake_r_def split: rpc.splits)

text \<open>
  What holds of the writer: before it sleeps the flow bit is set, or the queue is closed or has room even
  for the blocks in the reader's hands; and asleep, the flow bit is set and there are blocks.
\<close>

definition wsafe :: "queue \<Rightarrow> rpc \<Rightarrow> wpc \<Rightarrow> bool" where
  "wsafe q r w = (case w of
       WSleep \<Rightarrow> qis Qflow q \<or> qis Qclosed q \<or> q_len q + rspace r < q_limit q
     | WAsleep \<Rightarrow> qis Qflow q \<and> \<not> qis Qclosed q \<and> (q_blocks q \<noteq> [] \<or> giving r)
     | _ \<Rightarrow> True)"

definition pinv :: "qsys \<Rightarrow> bool" where
  "pinv s \<longleftrightarrow> sinv s \<and> 2 \<le> q_limit (qs_q s) \<and> list_all (\<lambda>b. 0 < BLEN b) (q_blocks (qs_q s)) \<and>
     wsafe (qs_q s) (qs_r s) (qs_w s)"

lemma wsafe_simps [simp]:
  "wsafe q r WIdle" "wsafe q r WCheck" "wsafe q r WFlow" "wsafe q (wake_r ev r) w = wsafe q r w"
  by (auto simp: wsafe_def split: wpc.splits)

lemma wsafe_woken: "WakeWriter \<in> set ev \<Longrightarrow> qis Qflow q \<or> qis Qclosed q \<or> q_len q + rspace r < q_limit q \<Longrightarrow>
    wsafe q r (wake_w ev w)"
  by (cases w) (auto simp: wsafe_def wake_w_def)

lemma wsafe_same:
  assumes "wsafe q r w" "qis Qflow q \<Longrightarrow> qis Qflow q'" "qis Qclosed q' = qis Qclosed q"
    "q_len q' + rspace r' \<le> q_len q + rspace r" "q_limit q' = q_limit q"
    "q_blocks q \<noteq> [] \<or> giving r \<Longrightarrow> q_blocks q' \<noteq> [] \<or> giving r'"
  shows "wsafe q' r' (wake_w ev w)"
  using assms by (cases w) (auto simp: wsafe_def wake_w_def)

lemma qread_take_full:
  assumes "qinv q" "list_all (\<lambda>b. 0 < BLEN b) (q_blocks q)" "qread_take q len ka = (x, q', ka')"
  shows "(if q_blocks q = [] then if qis Qclosed q then q' = q\<lparr>q_eof := q_eof q + 1\<rparr> else q' = qset Qstarve q
    else \<exists>c r n. q_blocks q = c @ r \<and> x = Done (Some (c, n)) \<and> q' = qcut q c)"
proof -
  obtain e r where er: "q_blocks q = e @ r" "list_all (\<lambda>b. BLEN b \<le> 0) e" "took q len ka e r (x, q', ka')"
    using qread_take_ok [of q len ka] assms(3) by auto
  have "e = []" using er(1,2) assms(2) by (cases e) auto
  then show ?thesis using er by (auto simp: took_def split: if_splits)
qed

lemma unflow_blocks: "list_all P (q_blocks (qwakeup_iunlock q)) = list_all P (q_blocks q)"
  using qlike_ops(7) [of q] by (simp add: qlike_def)

lemma wakeup_cases:
  "(qis Qflow q \<and> q_len q < half (q_limit q) \<and> WakeWriter \<in> set (news q0 (qwakeup_iunlock q))) \<or>
   (qwakeup_iunlock q = q \<and> (qis Qflow q \<longrightarrow> half (q_limit q) \<le> q_len q))" if "q_log q = q_log q0"
  using that by (auto simp: qwakeup_iunlock_def news_def Let_def)

lemma give_wsafe:
  assumes "qinv q" "2 \<le> q_limit q" "wsafe q (RGive c n len) w" "mem_avail ka"
    "rwf (RGive c n len)" "list_all (\<lambda>b. 0 < BLEN b) (q_blocks q)" "qread_give q (c, n) len ka = Some (m, d, q', ka')"
  shows "wsafe q' RIdle (wake_w (news q q') w) \<and> list_all (\<lambda>b. 0 < BLEN b) (q_blocks q') \<and> q_limit q' = q_limit q"
proof -
  have w: "wfc c" "n = blocklen c" "snug c len" "0 \<le> len" using assms(5) by simp_all
  from qread_give_ok [OF assms(1) w(1,3,4) assms(4)] assms(7) w(2) obtain q0 where
    g: "q' = qwakeup_iunlock q0" "qinv q0" "q0 = q \<or> (\<exists>b. q0 = qputback q b \<and> 0 < BLEN b \<and> BALLOC b \<le> blockalloclen c)"
    by auto
  have q0: "q_limit q0 = q_limit q" "q_log q0 = q_log q" "qis Qflow q0 = qis Qflow q" "qis Qclosed q0 = qis Qclosed q"
    "q_len q0 \<le> q_len q + blockalloclen c" "list_all (\<lambda>b. 0 < BLEN b) (q_blocks q0)"
    using g(3) assms(6) by (auto simp: qputback_def qis_def)
  have lk: "q_limit q' = q_limit q0" "q_len q' = q_len q0" "qis Qclosed q' = qis Qclosed q0" "q_blocks q' = q_blocks q0"
    using qlike_ops(7) [of q0] by (simp_all add: g(1) qlike_def)
  have h: "half (q_limit q) \<le> q_limit q" "0 < half (q_limit q)" using assms(2) by (auto simp: half_def)
  have ws: "wsafe q' RIdle (wake_w (news q q') w)"
    using wakeup_cases [OF q0(2)]
  proof
    assume "qis Qflow q0 \<and> q_len q0 < half (q_limit q0) \<and> WakeWriter \<in> set (news q (qwakeup_iunlock q0))"
    then show ?thesis using lk q0(1) h g(1) by (intro wsafe_woken) auto
  next
    assume a: "qwakeup_iunlock q0 = q0 \<and> (qis Qflow q0 \<longrightarrow> half (q_limit q0) \<le> q_len q0)"
    then have e: "q' = q0" using g(1) by simp
    have "q_blocks q0 \<noteq> []" if "qis Qflow q0"
      using that a q0(1) h g(2) by (auto simp: qinv_def)
    then show ?thesis using assms(3) q0 unfolding e by (cases w) (auto simp: wsafe_def wake_w_def)
  qed
  then show ?thesis using lk q0 by simp
qed

lemma pstep_pinv:
  assumes "pstep s l s'" "pinv s"
  shows "pinv s'"
proof -
  have i: "qinv (qs_q s)" "mem_avail (qs_ka s)" "rwf (qs_r s)" "\<not> q_bypass (qs_q s)" "2 \<le> q_limit (qs_q s)"
    "list_all (\<lambda>b. 0 < BLEN b) (q_blocks (qs_q s))" "wsafe (qs_q s) (qs_r s) (qs_w s)" "sinv s"
    using assms(2) by (simp_all add: sinv_def pinv_def)
  have "qstep s l s'" using assms(1) by (auto simp: pstep_def qstep_def)
  with qstep_flows i(8) have si: "sinv s'" by (auto simp: flows_def)
  have ok: ?thesis if "2 \<le> q_limit (qs_q s')" "list_all (\<lambda>b. 0 < BLEN b) (q_blocks (qs_q s'))"
    "wsafe (qs_q s') (qs_r s') (qs_w s')" using that si by (simp add: pinv_def)
  have pos: "q_blocks (qs_q s) \<noteq> []" if "q_limit (qs_q s) \<le> q_len (qs_q s)"
    using that i(1,5) by (auto simp: qinv_def)
  consider "wstep s l s'" "l \<noteq> Put []" | "rstep s l s'" | "cstep s l s'" "l \<noteq> Flushed" "l \<noteq> Limit"
    using assms(1) by (auto simp: pstep_def)
  then show ?thesis
  proof cases
    case 1
    from 1(1) show ?thesis
    proof cases
      case (w_put b q' ka')
      with qbwrite_put_cases [OF i(4), of b "[]" "qs_ka s"] have p: "pushed (qs_q s) [b] q'" by (auto split: if_splits)
      have "0 < BLEN b" using w_put(1,4) 1(2) by (simp add: BLEN_data)
      moreover have "q_limit q' = q_limit (qs_q s)" using p by (simp add: pushed_def qlike_def)
      moreover have "q_blocks q' = q_blocks (qs_q s) @ [b]" using pushed_ok(3) [OF p i(1)] w_put(4) by simp
      ultimately show ?thesis using w_put(1,2) i(5,6) by (intro ok) simp_all
    next
      case (w_refuse b r q' ka')
      with qbwrite_put_cases [OF i(4), of b "[]" "qs_ka s"] have "q' = qs_q s" by (auto split: if_splits)
      with w_refuse i show ?thesis by (intro ok) auto
    next
      case w_check
      with i show ?thesis by (intro ok) auto
    next
      case w_flow
      with i show ?thesis by (intro ok) (auto simp: wsafe_def)
    next
      case w_sleep
      have "wsafe (qs_q s) (qs_r s) WAsleep" if "\<not> qnotfull (qs_q s)"
        using that pos i(7) w_sleep(3) rspace_simps(13) [of "qs_r s"] by (auto simp: qnotfull_def wsafe_def)
      with w_sleep i show ?thesis by (intro ok) auto
    qed
  next
    case 2
    have rt: "list_all (\<lambda>b. 0 < BLEN b) (q_blocks q') \<and> q_limit q' = q_limit (qs_q s) \<and> news (qs_q s) q' = [] \<and>
        wsafe q' (case x of Done (Some (c, n)) \<Rightarrow> RGive c n len | _ \<Rightarrow> RIdle) (qs_w s)"
      if "qs_r s = RTry False len" "qread_take (qs_q s) len (qs_ka s) = (x, q', ka')" for len x q' ka'
    proof (cases "q_blocks (qs_q s) = []")
      case True
      with qread_take_full [OF i(1,6) that(2)] have e: "q' = (qs_q s)\<lparr>q_eof := q_eof (qs_q s) + 1\<rparr> \<and> qis Qclosed (qs_q s) \<or>
          q' = qset Qstarve (qs_q s) \<and> \<not> qis Qclosed (qs_q s)"
        by (auto split: if_splits)
      have x: "x = Asleep \<or> (\<exists>m. x = Raised m) \<or> x = Done None"
        using qread_take_ok [of "qs_q s" len "qs_ka s"] that(2) True by (auto simp: took_def split: if_splits)
      show ?thesis using e x i(6,7) that(1) True by (cases "qs_w s") (auto simp: wsafe_def news_def)
    next
      case False
      with qread_take_full [OF i(1,6) that(2)] obtain c r n where
        c: "q_blocks (qs_q s) = c @ r" "x = Done (Some (c, n))" "q' = qcut (qs_q s) c" by auto
      note k = qcut_ok [OF i(1) c(1)]
      show ?thesis using c k i(6,7) that(1) by (cases "qs_w s") (auto simp: wsafe_def news_def)
    qed
    have rt': "wsafe q' (RSleep k len) w = wsafe q' RIdle w" for q' k len w
      by (cases w) (auto simp: wsafe_def)
    from 2 show ?thesis
    proof cases
      case (r_start len)
      with i show ?thesis by (intro ok) (auto simp: wsafe_def split: wpc.splits)
    next
      case (r_wait len q' ka')
      from rt [OF r_wait(3,4)] r_wait(1,2) i(5) show ?thesis by (intro ok) (auto simp: rt')
    next
      case (r_error len e q' ka')
      from rt [OF r_error(3,4)] r_error(1,2) i(5) show ?thesis by (intro ok) auto
    next
      case (r_eof len q' ka')
      from rt [OF r_eof(3,4)] r_eof(1,2) i(5) show ?thesis by (intro ok) auto
    next
      case (r_take len c n q' ka')
      from rt [OF r_take(3,4)] r_take(1,2) i(5) show ?thesis by (intro ok) auto
    next
      case (r_give c n len m d q' ka')
      have "wsafe (qs_q s) (RGive c n len) (qs_w s)" "rwf (RGive c n len)" using i(3,7) r_give(3) by auto
      from give_wsafe [OF i(1,5) this(1) i(2) this(2) i(6) r_give(4)] r_give(1,2) i(5) show ?thesis
        by (intro ok) auto
    next
      case (r_sleep k len)
      with i show ?thesis by (intro ok) (auto simp: wsafe_def split: wpc.splits)
    qed
  next
    case 3
    from 3(1) show ?thesis
    proof cases
      case (c_hangup msg)
      with i show ?thesis by (intro ok) (auto simp: control_like intro!: wsafe_woken)
    next
      case (c_close q' ka')
      with qclose_like [OF c_close(3)] i show ?thesis by (intro ok) (auto intro!: wsafe_woken)
    next
      case (c_noblock onoff)
      with i show ?thesis
        using wsafe_same [OF i(7), of "qnoblock (qs_q s) onoff" "qs_r s" "news (qs_q s) (qnoblock (qs_q s) onoff)"]
        by (intro ok) (auto simp: qnoblock_def)
    qed (use 3 in simp_all)
  qed
qed

interpretation pipe: stepper pstep pinv
  by unfold_locales (rule pstep_pinv)

lemma run_pipe:
  assumes "run pstep s ls s'"
  shows "run qstep s ls s'" "Flushed \<notin> set ls"
proof -
  have p: "qstep a l b" "l \<noteq> Flushed" if "pstep a l b" for a l b
    using that by (auto simp: pstep_def qstep_def elim: wstep.cases rstep.cases)
  show "run qstep s ls s'" by (rule run_mono [OF assms]) (rule p(1))
  show "Flushed \<notin> set ls" using assms by induction (use p(2) in auto)
qed

text \<open>
  C17. No deadlock on a pipe: when processes write (never empty blocks) and read with \<open>qread\<close> and close or hang
  up a queue whose limit is at least 2, then a writer that is asleep has its flow bit set and there
  are blocks for a reader to take or to give, so that reader and writer never sleep at the same time.
\<close>

theorem pipe_no_deadlock:
  assumes "run pstep (open_sys limit msg kick ka) ls s" "mem_avail ka" "2 \<le> limit" "qs_w s = WAsleep"
  shows "qis Qflow (qs_q s) \<and> \<not> qis Qclosed (qs_q s) \<and>
    (q_blocks (qs_q s) \<noteq> [] \<or> (\<exists>c n len. qs_r s = RGive c n len)) \<and> (\<nexists>k len. qs_r s = RAsleep k len)"
proof -
  note q = run_pipe [OF assms(1)]
  have "pinv (open_sys limit msg kick ka)"
    using open_sinv [OF assms(2)] assms(3) by (simp add: pinv_def) (simp add: open_sys_def qopen_def)
  from pipe.run_inv [OF assms(1) this] assms(4) have w: "qis Qflow (qs_q s)" "\<not> qis Qclosed (qs_q s)"
    "q_blocks (qs_q s) \<noteq> [] \<or> giving (qs_r s)" by (auto simp: pinv_def wsafe_def)
  moreover have "giving (qs_r s) \<longleftrightarrow> (\<exists>c n len. qs_r s = RGive c n len)" by (cases "qs_r s") auto
  moreover have "\<nexists>k len. qs_r s = RAsleep k len"
    using run_rsafe [OF q(1) open_sinv [OF assms(2)] _ q(2)] w(3) by (auto simp: rsafe_def notempty_def)
  ultimately show ?thesis by blast
qed

subsection \<open>Two lost wakeups\<close>

definition hollow_block :: block where
  "hollow_block = \<lparr>b_buf = replicate 64 0, b_rp = 64, b_wp = 64, b_own = False, b_intr = False\<rparr>"

lemma hollow_block_ok [simp]: "wfb hollow_block" "bdata hollow_block = []" "BLEN hollow_block = 0" "BALLOC hollow_block = 64"
  by (simp_all add: hollow_block_def wfb_def checkb_def bdata_def BLEN_def BALLOC_def)

lemma qopen_fields [simp]:
  "q_blocks (qopen limit msg kick) = []" "q_len (qopen limit msg kick) = 0" "q_limit (qopen limit msg kick) = limit"
  "q_noblock (qopen limit msg kick) = False" "q_kick (qopen limit msg kick) = kick"
  "q_bypass (qopen limit msg kick) = False"
  by (simp_all add: qopen_def)

lemma qaddlist_blocks [simp]: "q_blocks (qaddlist q c) = q_blocks q @ c"
  by (simp add: qaddlist_def)

lemma run_one: "st s l s' \<Longrightarrow> run st s [l] s'"
  by (metis append_Nil run_Nil run_snoc)

text \<open>The steps of one reader and one writer.\<close>

definition wrstep :: "qsys \<Rightarrow> qlabel \<Rightarrow> qsys \<Rightarrow> bool" where
  "wrstep s l s' \<longleftrightarrow> wstep s l s' \<or> rstep s l s'"

lemma first_put:
  assumes "wfb b" "\<not> bit msg Qclosed" "0 < limit"
  shows "wstep ((open_sys limit msg False ka)\<lparr>qs_r := r\<rparr>) (Put (bdata b))
    \<lparr>qs_q = event WakeReader (qclear Qstarve (qaddlist (qopen limit msg False) [b])), qs_ka = ka, qs_w = WCheck,
      qs_r = wake_r [WakeReader] r\<rparr>"
proof -
  let ?s = "(open_sys limit msg False ka)\<lparr>qs_r := r\<rparr>"
  let ?q = "event WakeReader (qclear Qstarve (qaddlist (qopen limit msg False) [b]))"
  have "qbwrite_put (qs_q ?s) [b] (qs_ka ?s) = Some (Asleep, ?q, ka)"
    using assms by (simp add: open_sys_def qbwrite_put_def unstarve_cases wake_if_def Let_def)
  from wstep.w_put [OF _ assms(1) this] show ?thesis
    by (simp add: open_sys_def settle_def news_def)
qed

text \<open>
  Reader and writer of a coalescing queue can sleep forever: an empty block fills the queue to its
  limit and the writer waits for room; the reader throws the empty block away without waking the
  writer and goes to sleep on the now empty queue.
\<close>

theorem coalesce_deadlock:
  "\<exists>ls s. run wrstep (open_sys 50 16 False sample_ka) ls s \<and> qs_w s = WAsleep \<and> qs_r s = RAsleep False 10 \<and>
    q_blocks (qs_q s) = [] \<and> q_len (qs_q s) = 0"
proof -
  define q1 where "q1 = event WakeReader (qclear Qstarve (qaddlist (qopen 50 16 False) [hollow_block]))"
  define q2 where "q2 = qset Qflow q1"
  define q3 where "q3 = qset Qstarve (qcut q2 [hollow_block])"
  define st where "st = (\<lambda>q w r. \<lparr>qs_q = q, qs_ka = sample_ka, qs_w = w, qs_r = r\<rparr>)"
  have b: "\<not> bit (16 :: u32int) 2" "bit (16 :: u32int) 4" "\<not> bit (16 :: u32int) 3" by (simp_all add: bit_numeral_rec)
  have q1: "q_blocks q1 = [hollow_block]" "q_limit q1 = 50" "q_len q1 = 64" "\<not> q_noblock q1" "\<not> qis Qclosed q1"
    "qis Qcoalesce q1" "q_log q1 = [WakeReader]"
    using b by (simp_all add: q1_def) (simp add: qopen_def)
  have q2: "q_blocks q2 = [hollow_block]" "\<not> qis Qclosed q2" "qis Qcoalesce q2" "q_len q2 = 64" "q_limit q2 = 50"
    "q_log q2 = q_log q1"
    using q1 by (simp_all add: q2_def)
  have q3: "q_blocks q3 = []" "\<not> qis Qclosed q3" "q_len q3 = 0" "q_log q3 = q_log q2"
    using q2 by (simp_all add: q3_def) (simp_all add: qcut_def)
  have tk: "qread_take q2 10 sample_ka = (Asleep, q3, freeb hollow_block sample_ka)"
    using q2 q3(1,2)
    by (simp add: qread_take.simps [of q2] qread_take.simps [of "qcut q2 [hollow_block]"] qwait_some qremove_Cons
        qwait_none q3_def)
  let ?R = "run wrstep (open_sys 50 16 False sample_ka)"
  have "wrstep (open_sys 50 16 False sample_ka) (Put []) (st q1 WCheck RIdle)"
    using first_put [OF hollow_block_ok(1) b(1), where limit = 50 and ka = sample_ka and r = RIdle]
    by (simp add: wrstep_def st_def q1_def open_sys_def)
  from run_one [of wrstep, OF this] have "?R [Put []] (st q1 WCheck RIdle)" by simp
  moreover have "wrstep (st q1 WCheck RIdle) Tau (st q1 WFlow RIdle)"
    using wstep.w_check [of "st q1 WCheck RIdle"] q1 by (simp add: wrstep_def st_def qbwrite_go_def qnotfull_def)
  ultimately have "\<exists>ls. ?R ls (st q1 WFlow RIdle)" by (metis run_snoc)
  moreover have "wrstep (st q1 WFlow RIdle) Tau (st q2 WSleep RIdle)"
    using wstep.w_flow [of "st q1 WFlow RIdle"] by (simp add: wrstep_def st_def q2_def)
  ultimately have "\<exists>ls. ?R ls (st q2 WSleep RIdle)" by (metis run_snoc)
  moreover have "wrstep (st q2 WSleep RIdle) Tau (st q2 WAsleep RIdle)"
    using wstep.w_sleep [of "st q2 WSleep RIdle"] q2 by (simp add: wrstep_def st_def qnotfull_def)
  ultimately have "\<exists>ls. ?R ls (st q2 WAsleep RIdle)" by (metis run_snoc)
  moreover have "wrstep (st q2 WAsleep RIdle) Tau (st q2 WAsleep (RTry False 10))"
    using rstep.r_start [of "st q2 WAsleep RIdle" 10] by (simp add: wrstep_def st_def)
  ultimately have "\<exists>ls. ?R ls (st q2 WAsleep (RTry False 10))" by (metis run_snoc)
  moreover have "wrstep (st q2 WAsleep (RTry False 10)) Tau
      \<lparr>qs_q = q3, qs_ka = freeb hollow_block sample_ka, qs_w = WAsleep, qs_r = RSleep False 10\<rparr>"
    using rstep.r_wait [of "st q2 WAsleep (RTry False 10)" 10 q3 "freeb hollow_block sample_ka"] tk q3(4)
    by (simp add: wrstep_def st_def settle_def news_def wake_w_def)
  ultimately have "\<exists>ls. ?R ls \<lparr>qs_q = q3, qs_ka = freeb hollow_block sample_ka, qs_w = WAsleep, qs_r = RSleep False 10\<rparr>"
    by (metis run_snoc)
  moreover have "wrstep \<lparr>qs_q = q3, qs_ka = freeb hollow_block sample_ka, qs_w = WAsleep, qs_r = RSleep False 10\<rparr> Tau
      \<lparr>qs_q = q3, qs_ka = freeb hollow_block sample_ka, qs_w = WAsleep, qs_r = RAsleep False 10\<rparr>"
    using rstep.r_sleep [of "\<lparr>qs_q = q3, qs_ka = freeb hollow_block sample_ka, qs_w = WAsleep, qs_r = RSleep False 10\<rparr>" False 10] q3
    by (simp add: wrstep_def notempty_def)
  ultimately have "\<exists>ls. ?R ls \<lparr>qs_q = q3, qs_ka = freeb hollow_block sample_ka, qs_w = WAsleep, qs_r = RAsleep False 10\<rparr>"
    by (metis run_snoc)
  with q3 show ?thesis by fastforce
qed

text \<open>
  A flush can make a reader sleep on data: between the reader's setting of the starved bit and its
  \<^verbatim>\<open>sleep\<close>, a write clears the bit and \<open>qflush\<close> takes the block away; the reader finds the queue empty
  and sleeps with the bit clear, so the next write queues data and wakes nobody.
\<close>

theorem flush_lost_wakeup:
  "\<exists>ls s. run qstep (open_sys 200 0 False sample_ka) ls s \<and> qs_r s = RAsleep False 10 \<and>
    qdata (qs_q s) = [1, 2, 3] \<and> \<not> qis Qstarve (qs_q s)"
proof -
  let ?b = sample_block
  define q0 where "q0 = qset Qstarve (qopen 200 0 False)"
  define q1 where "q1 = event WakeReader (qclear Qstarve (qaddlist q0 [?b]))"
  define q2 where "q2 = event WakeWriter (q1\<lparr>q_blocks := [], q_len := 0, q_dlen := 0\<rparr>)"
  define q3 where "q3 = qaddlist q2 [?b]"
  define ka where "ka = freeb ?b sample_ka"
  define st where "st = (\<lambda>q ka w r. \<lparr>qs_q = q, qs_ka = ka, qs_w = w, qs_r = r\<rparr>)"
  note b = sample_ok
  have q0: "q_blocks q0 = []" "q_limit q0 = 200" "q_len q0 = 0" "\<not> q_noblock q0" "\<not> qis Qclosed q0" "qis Qstarve q0"
    "q_log q0 = q_log (qopen 200 0 False)" "\<not> q_kick q0" "\<not> q_bypass q0"
    by (simp_all add: q0_def)
  have q1: "q_blocks q1 = [?b]" "q_limit q1 = 200" "q_len q1 = 5" "\<not> q_noblock q1" "\<not> qis Qclosed q1"
    "\<not> qis Qstarve q1" "q_log q1 = q_log q0 @ [WakeReader]" "\<not> q_kick q1" "\<not> q_bypass q1"
    using q0 b by (simp_all add: q1_def)
  have q2: "q_blocks q2 = []" "q_limit q2 = 200" "q_len q2 = 0" "\<not> q_noblock q2" "\<not> qis Qclosed q2"
    "\<not> qis Qstarve q2" "q_log q2 = q_log q1 @ [WakeWriter]" "\<not> q_kick q2" "\<not> q_bypass q2"
    using q1 by (simp_all add: q2_def)
  have tk: "qread_take (qopen 200 0 False) 10 sample_ka = (Asleep, q0, sample_ka)"
    by (simp add: qread_take.simps [of "qopen 200 0 False"] qwait_none q0_def)
  let ?R = "run qstep (open_sys 200 0 False sample_ka)"
  have "qstep (open_sys 200 0 False sample_ka) Tau (st (qopen 200 0 False) sample_ka WIdle (RTry False 10))"
    using rstep.r_start [of "open_sys 200 0 False sample_ka" 10] by (simp add: qstep_def st_def open_sys_def)
  from run_one [of qstep, OF this] have "\<exists>ls. ?R ls (st (qopen 200 0 False) sample_ka WIdle (RTry False 10))" by blast
  moreover have "qstep (st (qopen 200 0 False) sample_ka WIdle (RTry False 10)) Tau (st q0 sample_ka WIdle (RSleep False 10))"
    using rstep.r_wait [of "st (qopen 200 0 False) sample_ka WIdle (RTry False 10)" 10 q0 sample_ka] tk q0(7)
    by (simp add: qstep_def st_def settle_def news_def wake_w_def)
  ultimately have "\<exists>ls. ?R ls (st q0 sample_ka WIdle (RSleep False 10))" by (metis run_snoc)
  moreover have "qbwrite_put q0 [?b] sample_ka = Some (Asleep, q1, sample_ka)"
    using q0 by (simp add: qbwrite_put_def unstarve_cases wake_if_def Let_def q1_def)
  then have "qstep (st q0 sample_ka WIdle (RSleep False 10)) (Put [1, 2, 3]) (st q1 sample_ka WCheck (RSleep False 10))"
    using wstep.w_put [of "st q0 sample_ka WIdle (RSleep False 10)" ?b q1 sample_ka] b
    by (simp add: qstep_def st_def settle_def wake_r_def)
  ultimately have "\<exists>ls. ?R ls (st q1 sample_ka WCheck (RSleep False 10))" by (metis run_snoc)
  moreover have "qstep (st q1 sample_ka WCheck (RSleep False 10)) Tau (st q1 sample_ka WIdle (RSleep False 10))"
    using wstep.w_check [of "st q1 sample_ka WCheck (RSleep False 10)"] q1
    by (simp add: qstep_def st_def qbwrite_go_def qnotfull_def)
  ultimately have "\<exists>ls. ?R ls (st q1 sample_ka WIdle (RSleep False 10))" by (metis run_snoc)
  moreover have "qflush q1 sample_ka = (q2, ka)" using q1(1) by (simp add: qflush_def q2_def ka_def)
  then have "qstep (st q1 sample_ka WIdle (RSleep False 10)) Flushed (st q2 ka WIdle (RSleep False 10))"
    using cstep.c_flush [of "st q1 sample_ka WIdle (RSleep False 10)" q2 ka]
    by (simp add: qstep_def st_def settle_def wake_r_def wake_w_def)
  ultimately have "\<exists>ls. ?R ls (st q2 ka WIdle (RSleep False 10))" by (metis run_snoc)
  moreover have "qstep (st q2 ka WIdle (RSleep False 10)) Tau (st q2 ka WIdle (RAsleep False 10))"
    using rstep.r_sleep [of "st q2 ka WIdle (RSleep False 10)" False 10] q2 by (simp add: qstep_def st_def notempty_def)
  ultimately have "\<exists>ls. ?R ls (st q2 ka WIdle (RAsleep False 10))" by (metis run_snoc)
  moreover have "qbwrite_put q2 [?b] ka = Some (Asleep, q3, ka)"
    using q2 by (simp add: qbwrite_put_def unstarve_cases wake_if_def Let_def q3_def)
  then have "qstep (st q2 ka WIdle (RAsleep False 10)) (Put [1, 2, 3]) (st q3 ka WCheck (RAsleep False 10))"
    using wstep.w_put [of "st q2 ka WIdle (RAsleep False 10)" ?b q3 ka] b
    by (simp add: qstep_def st_def settle_def wake_r_def news_def q3_def)
  ultimately have "\<exists>ls. ?R ls (st q3 ka WCheck (RAsleep False 10))" by (metis run_snoc)
  moreover have "qdata q3 = [1, 2, 3]" "\<not> qis Qstarve q3" using q2 b by (simp_all add: q3_def qdata_def)
  ultimately show ?thesis by (fastforce simp: st_def)
qed

subsection \<open>Sample runs\<close>

lemma sample_run:
  "run qstep (open_sys 200 0 False sample_ka) [Put [1, 2, 3]]
    \<lparr>qs_q = event WakeReader (qclear Qstarve (qaddlist (qopen 200 0 False) [sample_block])), qs_ka = sample_ka,
      qs_w = WCheck, qs_r = RIdle\<rparr>"
proof -
  have "qstep (open_sys 200 0 False sample_ka) (Put [1, 2, 3])
    \<lparr>qs_q = event WakeReader (qclear Qstarve (qaddlist (qopen 200 0 False) [sample_block])), qs_ka = sample_ka,
      qs_w = WCheck, qs_r = RIdle\<rparr>"
    using first_put [OF sample_ok(2), where msg = 0 and limit = 200 and ka = sample_ka and r = RIdle] sample_ok(3)
    by (simp add: qstep_def open_sys_def)
  then show ?thesis by (rule run_one)
qed

theorem qio_accounts_witness:
  "q_len (event WakeReader (qclear Qstarve (qaddlist (qopen 200 0 False) [sample_block]))) = 5"
  using qio_accounts [OF sample_run sample_ok(1), of 2] sample_ok(4) by simp

theorem qio_stream_witness:
  "qdata (event WakeReader (qclear Qstarve (qaddlist (qopen 200 0 False) [sample_block]))) = [1, 2, 3]"
  using qio_stream [OF sample_run sample_ok(1)] by simp

lemma sample_reader:
  "\<exists>ls s. run qstep (open_sys 200 0 False sample_ka) ls s \<and> Flushed \<notin> set ls \<and> qs_r s = RAsleep False 10"
proof -
  let ?q = "qopen 200 0 False"
  define st where "st = (\<lambda>q r. \<lparr>qs_q = q, qs_ka = sample_ka, qs_w = WIdle, qs_r = r\<rparr>)"
  have s1: "qstep (open_sys 200 0 False sample_ka) Tau (st ?q (RTry False 10))"
    using rstep.r_start [of "open_sys 200 0 False sample_ka" 10] by (simp add: qstep_def st_def open_sys_def)
  have "qread_take ?q 10 sample_ka = (Asleep, qset Qstarve ?q, sample_ka)"
    by (simp add: qread_take.simps [of ?q] qwait_none)
  then have s2: "qstep (st ?q (RTry False 10)) Tau (st (qset Qstarve ?q) (RSleep False 10))"
    using rstep.r_wait [of "st ?q (RTry False 10)" 10 "qset Qstarve ?q" sample_ka]
    by (simp add: qstep_def st_def settle_def news_def wake_w_def)
  have s3: "qstep (st (qset Qstarve ?q) (RSleep False 10)) Tau (st (qset Qstarve ?q) (RAsleep False 10))"
    using rstep.r_sleep [of "st (qset Qstarve ?q) (RSleep False 10)" False 10] by (simp add: qstep_def st_def notempty_def)
  from run_snoc [OF run_snoc [OF run_one [of qstep, OF s1] s2] s3]
  have "run qstep (open_sys 200 0 False sample_ka) [Tau, Tau, Tau] (st (qset Qstarve ?q) (RAsleep False 10))" by simp
  moreover have "qs_r (st (qset Qstarve ?q) (RAsleep False 10)) = RAsleep False 10" by (simp add: st_def)
  moreover have "Flushed \<notin> set [Tau, Tau, Tau]" by simp
  ultimately show ?thesis by blast
qed

theorem qio_reader_woken_witness:
  "\<exists>ls s. run qstep (open_sys 200 0 False sample_ka) ls s \<and> qs_r s = RAsleep False 10 \<and> qis Qstarve (qs_q s)"
  using sample_reader qio_reader_woken [OF _ sample_ok(1)] by blast

lemma sample_writer:
  "\<exists>ls s. run pstep (open_sys 3 0 False sample_ka) ls s \<and> qs_w s = WAsleep"
proof -
  define q where "q = event WakeReader (qclear Qstarve (qaddlist (qopen 3 0 False) [sample_block]))"
  define st where "st = (\<lambda>q w. \<lparr>qs_q = q, qs_ka = sample_ka, qs_w = w, qs_r = RIdle\<rparr>)"
  have q: "q_limit q = 3" "q_len q = 5" "\<not> q_noblock q" "\<not> qis Qclosed q" "q_len (qset Qflow q) = 5"
    "\<not> qis Qclosed (qset Qflow q)" "q_limit (qset Qflow q) = 3"
    using sample_ok(4) by (simp_all add: q_def)
  have s1: "pstep (open_sys 3 0 False sample_ka) (Put [1, 2, 3]) (st q WCheck)"
    using first_put [OF sample_ok(2), where msg = 0 and limit = 3 and ka = sample_ka and r = RIdle] sample_ok(3)
    by (simp add: pstep_def open_sys_def q_def st_def)
  have s2: "pstep (st q WCheck) Tau (st q WFlow)"
    using wstep.w_check [of "st q WCheck"] q by (simp add: pstep_def st_def qbwrite_go_def qnotfull_def)
  have s3: "pstep (st q WFlow) Tau (st (qset Qflow q) WSleep)"
    using wstep.w_flow [of "st q WFlow"] by (simp add: pstep_def st_def)
  have s4: "pstep (st (qset Qflow q) WSleep) Tau (st (qset Qflow q) WAsleep)"
    using wstep.w_sleep [of "st (qset Qflow q) WSleep"] q by (simp add: pstep_def st_def qnotfull_def)
  have "qs_w (st (qset Qflow q) WAsleep) = WAsleep" by (simp add: st_def)
  with run_snoc [OF run_snoc [OF run_snoc [OF run_one [of pstep, OF s1] s2] s3] s4] show ?thesis by blast
qed

theorem pipe_no_deadlock_witness:
  "\<exists>ls s. run pstep (open_sys 3 0 False sample_ka) ls s \<and> qs_w s = WAsleep \<and> qis Qflow (qs_q s)"
proof -
  from sample_writer obtain ls s where "run pstep (open_sys 3 0 False sample_ka) ls s" "qs_w s = WAsleep" by blast
  with pipe_no_deadlock [OF this(1) sample_ok(1) _ this(2)] show ?thesis by auto
qed

end
