(* ===== verification/MntTag.thy ===== *)
theory MntTag
  imports P9Base
begin

text \<open>
  The tags of the mount driver, \<^verbatim>\<open>9/port/devmnt.c\<close> (\<open>alloctag\<close>, \<open>tagallocd\<close>, \<open>freetag\<close>,
  \<open>mntreset\<close>): a bit mask of 64 k bits in words of 32.  \<open>tags\<close> reads it as the set of tags in use;
  the locale \<open>tag_pool\<close> is what the users of tags rely on.
\<close>

subsection \<open>The code\<close>

definition TAGSHIFT :: nat where "TAGSHIFT = 5"
definition TAGMASK :: nat where "TAGMASK = 2 ^ TAGSHIFT - 1"
definition NMASK :: nat where "NMASK = drop_bit TAGSHIFT (64 * 1024)"

text \<open>The inner loop, which looks for a zero bit of \<open>v\<close> from bit \<open>j\<close> on.\<close>

definition alloctag_bit :: "u32int \<Rightarrow> nat option" where
  "alloctag_bit v = find (\<lambda>j. v AND push_bit j 1 = 0) [0..<2 ^ TAGSHIFT]"

text \<open>The outer loop at word \<open>i\<close>; \<open>None\<close> is the panic at its end.\<close>

fun alloctag_loop :: "u32int list \<Rightarrow> nat \<Rightarrow> (nat \<times> u32int list) option" where
  "alloctag_loop [] i = None"
| "alloctag_loop (v # vs) i =
     (let next = map_option (\<lambda>(t, vs). (t, v # vs)) (alloctag_loop vs (i + 1)) in
      if v = NOT 0 then next
      else (case alloctag_bit v of
          None \<Rightarrow> next
        | Some j \<Rightarrow> Some (push_bit TAGSHIFT i + j, (v OR push_bit j 1) # vs)))"

definition alloctag :: "u32int list \<Rightarrow> (nat \<times> u32int list) option" where
  "alloctag m = alloctag_loop m 0"

definition tagallocd :: "u32int list \<Rightarrow> nat \<Rightarrow> bool" where
  "tagallocd m t \<longleftrightarrow> m ! drop_bit TAGSHIFT t AND push_bit (t AND TAGMASK) 1 \<noteq> 0"

definition freetag :: "u32int list \<Rightarrow> nat \<Rightarrow> u32int list" where
  "freetag m t =
     m[drop_bit TAGSHIFT t := m ! drop_bit TAGSHIFT t AND NOT (push_bit (t AND TAGMASK) 1)]"

text \<open>The mask after \<open>mntreset\<close>: neither 0 nor \<^verbatim>\<open>NOTAG\<close> is handed out.\<close>

definition mntreset :: "u32int list" where
  "mntreset = (replicate NMASK 0)[0 := 1, NMASK - 1 := 0x80000000]"

subsection \<open>The set of tags in use\<close>

definition tags :: "u32int list \<Rightarrow> nat set" where
  "tags m = {t. t < 32 * length m \<and> bit (m ! (t div 32)) (t mod 32)}"

lemma tag_index [simp]: "drop_bit TAGSHIFT t = t div 32" "t AND TAGMASK = t mod 32" "push_bit TAGSHIFT t = 32 * t"
proof -
  show "drop_bit TAGSHIFT t = t div 32" "push_bit TAGSHIFT t = 32 * t"
    by (simp_all add: TAGSHIFT_def drop_bit_eq_div push_bit_eq_mult)
  have "TAGMASK = mask 5" by (simp add: TAGMASK_def TAGSHIFT_def mask_eq_exp_minus_1)
  then have "t AND TAGMASK = take_bit 5 t" by (simp add: take_bit_eq_mask)
  then show "t AND TAGMASK = t mod 32" by (simp add: take_bit_eq_mod)
qed

lemma NMASK [simp]: "NMASK = 2048"
  by (simp add: NMASK_def)

lemma test_bit: "(v :: u32int) AND 2 ^ j = 0 \<longleftrightarrow> \<not> bit v j"
  by (simp add: and_exp_eq_0_iff_not_bit)

lemma bit_2p: "j < 32 \<Longrightarrow> bit (2 ^ j :: u32int) i \<longleftrightarrow> i = j"
  by (auto simp: bit_exp_iff)

lemma bit_set: "j < 32 \<Longrightarrow> bit ((v :: u32int) OR 2 ^ j) i \<longleftrightarrow> bit v i \<or> i = j"
  by (auto simp: bit_or_iff bit_2p)

lemma bit_clear: "j < 32 \<Longrightarrow> i < 32 \<Longrightarrow> bit ((v :: u32int) AND NOT (2 ^ j)) i \<longleftrightarrow> bit v i \<and> i \<noteq> j"
  by (auto simp: bit_and_iff bit_not_iff bit_2p)

lemma tags_Cons: "t \<in> tags (v # vs) \<longleftrightarrow> (if t < 32 then bit v t else t - 32 \<in> tags vs)"
  by (auto simp: tags_def nth_Cons' le_div_geq le_mod_geq)

lemma alloctag_bit_None: "alloctag_bit v = None \<longleftrightarrow> v = NOT 0"
proof -
  have "alloctag_bit v = None \<longleftrightarrow> (\<forall>j < 32. bit v j)"
    by (auto simp: alloctag_bit_def find_None_iff TAGSHIFT_def test_bit)
  also have "\<dots> \<longleftrightarrow> v = NOT 0" by (auto simp: bit_eq_iff bit_not_iff)
  finally show ?thesis .
qed

lemma alloctag_bit_Some:
  "alloctag_bit v = Some j \<Longrightarrow> j < 32 \<and> \<not> bit v j \<and> (\<forall>i < j. bit v i)"
  by (auto simp: alloctag_bit_def find_Some_iff TAGSHIFT_def test_bit)

lemma alloctag_loop_None: "alloctag_loop vs i = None \<longleftrightarrow> (\<forall>t < 32 * length vs. t \<in> tags vs)"
proof (induction vs arbitrary: i)
  case (Cons v vs)
  have "(\<forall>t < 32 * length (v # vs). t \<in> tags (v # vs)) \<longleftrightarrow>
      (\<forall>t < 32. bit v t) \<and> (\<forall>t < 32 * length vs. t \<in> tags vs)"
    by (auto simp: tags_Cons) (metis add.commute add_diff_cancel_left' add_less_cancel_left less_add_same_cancel1 not_add_less2 less_diff_conv2)+
  moreover have "(\<forall>t < 32. bit v t) \<longleftrightarrow> v = NOT 0" by (auto simp: bit_eq_iff bit_not_iff)
  ultimately show ?case using Cons [of "Suc i"] alloctag_bit_None [of v]
    by (auto simp: Let_def split: option.splits)
qed simp

lemma alloctag_loop_Some:
  "alloctag_loop vs i = Some (t, vs') \<Longrightarrow> length vs' = length vs \<and> (\<exists>u. t = 32 * i + u \<and> u < 32 * length vs \<and>
     u \<notin> tags vs \<and> (\<forall>w < u. w \<in> tags vs) \<and> tags vs' = insert u (tags vs))"
proof (induction vs arbitrary: i t vs')
  case (Cons v vs)
  show ?case
  proof (cases "alloctag_bit v")
    case None
    then have v: "v = NOT 0" by (simp add: alloctag_bit_None)
    then obtain ws where ws: "alloctag_loop vs (i + 1) = Some (t, ws)" "vs' = v # ws" using Cons.prems by auto
    from Cons.IH [OF ws(1)] obtain u where u: "length ws = length vs" "t = 32 * (i + 1) + u" "u < 32 * length vs" "u \<notin> tags vs"
      "\<forall>w < u. w \<in> tags vs" "tags ws = insert u (tags vs)" by blast
    have "tags (v # ws) = insert (32 + u) (tags (v # vs))" by (auto simp: tags_Cons u(6) split: if_splits)
    moreover have "\<forall>w < 32 + u. w \<in> tags (v # vs)" using u(5) v by (auto simp: tags_Cons bit_not_iff)
    moreover have "32 + u \<notin> tags (v # vs)" using u(4) by (simp add: tags_Cons)
    ultimately show ?thesis using u ws(2) by (intro conjI exI [of _ "32 + u"]) simp_all
  next
    case (Some j)
    then have n: "v \<noteq> NOT 0" by (metis alloctag_bit_None option.discI)
    then have e: "t = 32 * i + j" "vs' = (v OR push_bit j 1) # vs" using Cons.prems Some by (auto simp: Let_def)
    note j = alloctag_bit_Some [OF Some]
    have "x \<in> tags vs' \<longleftrightarrow> x = j \<or> x \<in> tags (v # vs)" for x using j by (auto simp: e tags_Cons bit_set)
    then have "tags vs' = insert j (tags (v # vs))" by blast
    moreover have "j \<notin> tags (v # vs)" "\<forall>w < j. w \<in> tags (v # vs)" using j by (auto simp: tags_Cons)
    ultimately show ?thesis using j e by (intro conjI exI [of _ j]) simp_all
  qed
qed simp

subsection \<open>The interface\<close>

text \<open>
  \<open>N\<close> tags, of which \<open>used m\<close> are taken in the state \<open>m\<close> of the allocator.
\<close>

locale tag_pool =
  fixes N :: nat and valid :: "'m \<Rightarrow> bool" and used :: "'m \<Rightarrow> nat set"
    and get :: "'m \<Rightarrow> (nat \<times> 'm) option" and taken :: "'m \<Rightarrow> nat \<Rightarrow> bool" and put :: "'m \<Rightarrow> nat \<Rightarrow> 'm"
  assumes used_bound: "valid m \<Longrightarrow> used m \<subseteq> {..<N}"
    and get_None: "valid m \<Longrightarrow> get m = None \<longleftrightarrow> used m = {..<N}"
    and get_Some: "valid m \<Longrightarrow> get m = Some (t, m') \<Longrightarrow> valid m' \<and> t < N \<and> t \<notin> used m \<and> used m' = insert t (used m)"
    and taken_iff: "valid m \<Longrightarrow> t < N \<Longrightarrow> taken m t \<longleftrightarrow> t \<in> used m"
    and put_spec: "valid m \<Longrightarrow> t < N \<Longrightarrow> valid (put m t) \<and> used (put m t) = used m - {t}"
begin

text \<open>Taking \<open>n\<close> tags and giving none back.\<close>

fun take_tags :: "nat \<Rightarrow> 'm \<Rightarrow> 'm option" where
  "take_tags 0 m = Some m"
| "take_tags (Suc n) m = (case get m of None \<Rightarrow> None | Some (_, m) \<Rightarrow> take_tags n m)"

lemma card_used: "valid m \<Longrightarrow> card (used m) \<le> N"
  using card_mono [OF _ used_bound [of m]] by simp

lemma get_full: "valid m \<Longrightarrow> get m = None \<longleftrightarrow> card (used m) = N"
proof -
  assume v: "valid m"
  have "used m = {..<N} \<longleftrightarrow> card (used m) = N"
    using card_subset_eq [OF finite_lessThan used_bound [OF v]] by (metis card_lessThan)
  then show ?thesis using get_None [OF v] by simp
qed

lemma take_tags_None: "valid m \<Longrightarrow> take_tags n m = None \<longleftrightarrow> N < card (used m) + n"
proof (induction n arbitrary: m)
  case 0
  then show ?case using card_used [of m] by simp
next
  case (Suc n)
  show ?case
  proof (cases "get m")
    case None
    then show ?thesis using Suc.prems get_full [of m] by auto
  next
    case (Some x)
    obtain t m' where x: "x = (t, m')" by (cases x)
    note g = get_Some [OF Suc.prems Some [unfolded x]]
    have "finite (used m)" using finite_subset [OF used_bound [OF Suc.prems]] by simp
    then have "card (used m') = Suc (card (used m))" using g by simp
    then show ?thesis using Some x g Suc.IH [of m'] by simp
  qed
qed

end

definition mask_ok :: "u32int list \<Rightarrow> bool" where
  "mask_ok m \<longleftrightarrow> length m = NMASK"

lemma tags_free:
  assumes "mask_ok m" "t < 65536"
  shows "mask_ok (freetag m t) \<and> tags (freetag m t) = tags m - {t}"
proof -
  have l: "length m = 2048" using assms(1) by (simp add: mask_ok_def)
  then have d: "t div 32 < length m" using assms(2) by simp
  have "u \<in> tags (freetag m t) \<longleftrightarrow> u \<in> tags m \<and> u \<noteq> t" for u
  proof (cases "u div 32 = t div 32")
    case True
    then have "u \<noteq> t \<longleftrightarrow> u mod 32 \<noteq> t mod 32" by (metis mult_div_mod_eq)
    then show ?thesis using True d by (auto simp: tags_def freetag_def bit_clear)
  next
    case False
    then show ?thesis by (auto simp: tags_def freetag_def)
  qed
  then show ?thesis using l by (auto simp: mask_ok_def freetag_def)
qed

interpretation mnttags: tag_pool 65536 mask_ok tags alloctag tagallocd freetag
proof
  fix m :: "u32int list" and m' t assume v: "mask_ok m"
  show b: "tags m \<subseteq> {..<65536}" using v by (auto simp: mask_ok_def tags_def)
  show "(alloctag m = None) = (tags m = {..<65536})"
    using v b alloctag_loop_None [of m 0] by (auto simp: alloctag_def mask_ok_def)
  show "alloctag m = Some (t, m') \<Longrightarrow> mask_ok m' \<and> t < 65536 \<and> t \<notin> tags m \<and> tags m' = insert t (tags m)"
    using v alloctag_loop_Some [of m 0 t m'] by (auto simp: alloctag_def mask_ok_def)
  show "t < 65536 \<Longrightarrow> tagallocd m t = (t \<in> tags m)"
    using v by (simp add: tagallocd_def tags_def test_bit mask_ok_def)
  show "t < 65536 \<Longrightarrow> mask_ok (freetag m t) \<and> tags (freetag m t) = tags m - {t}"
    using v tags_free by blast
qed

lemma mntreset_ok: "mask_ok mntreset" "tags mntreset = {0, 65535}"
proof -
  show "mask_ok mntreset" by (simp add: mntreset_def mask_ok_def)
  have "t \<in> tags mntreset \<longleftrightarrow> t = 0 \<or> t = 65535" for t
  proof -
    have a: "bit (1 :: u32int) (t mod 32) \<longleftrightarrow> t mod 32 = 0" by (auto simp: bit_1_iff)
    have "(0x80000000 :: u32int) = 2 ^ 31" by simp
    then have b: "bit (0x80000000 :: u32int) (t mod 32) \<longleftrightarrow> t mod 32 = 31" by (simp only: bit_2p)
    show ?thesis using a b by (auto simp: tags_def mntreset_def nth_list_update split: if_splits) presburger+
  qed
  then show "tags mntreset = {0, 65535}" by auto
qed

text \<open>
  C37. Tags: \<open>alloctag\<close> hands out the smallest tag that is not in use, which is neither 0 nor \<^verbatim>\<open>NOTAG\<close>
  while those are reserved, and marks exactly that one; it panics when and only when every tag is in
  use.  \<open>tagallocd\<close> tells whether a tag is in use and \<open>freetag\<close> gives back exactly the one named.
\<close>

theorem tags_spec:
  assumes "mask_ok m" "s < 65536"
  shows "(case alloctag m of
      None \<Rightarrow> tags m = {..<65536}
    | Some (t, m') \<Rightarrow> t < 65536 \<and> t \<notin> tags m \<and> (\<forall>u < t. u \<in> tags m) \<and> ({0, 65535} \<subseteq> tags m \<longrightarrow> t \<noteq> 0 \<and> t \<noteq> 65535) \<and>
        mask_ok m' \<and> tags m' = insert t (tags m)) \<and>
    (tagallocd m s \<longleftrightarrow> s \<in> tags m) \<and> mask_ok (freetag m s) \<and> tags (freetag m s) = tags m - {s}"
proof (cases "alloctag m")
  case None
  then show ?thesis using mnttags.get_None [OF assms(1)] mnttags.taken_iff [OF assms] mnttags.put_spec [OF assms] by simp
next
  case (Some x)
  obtain u m' where x: "x = (u, m')" by (cases x)
  note g = mnttags.get_Some [OF assms(1) Some [unfolded x]]
  moreover from this have "{0, 65535} \<subseteq> tags m \<Longrightarrow> u \<noteq> 0 \<and> u \<noteq> 65535" by (metis insert_subset)
  moreover have "\<forall>w < u. w \<in> tags m" using alloctag_loop_Some [of m 0 u m'] Some x by (auto simp: alloctag_def)
  ultimately show ?thesis using Some x mnttags.taken_iff [OF assms] mnttags.put_spec [OF assms] by simp
qed

theorem tags_spec_witness:
  "case alloctag mntreset of None \<Rightarrow> False | Some (t, m') \<Rightarrow> t = 1 \<and> tags m' = {0, 1, 65535}"
proof -
  have n: "(1 :: nat) \<in> {..<65536}" "(1 :: nat) \<notin> {0, 65535}" by simp_all
  have one: "(\<forall>u < t. u \<in> {0, 65535}) \<Longrightarrow> t \<notin> {0, 65535} \<Longrightarrow> t = 1" for t :: nat
    using n by (metis insertCI insertE less_one linorder_neqE_nat singletonD)
  have f: "{0, 65535} \<noteq> {..<65536 :: nat}" using n by blast
  from tags_spec [OF mntreset_ok(1), of 0] show ?thesis
    unfolding mntreset_ok(2) using f one by (auto split: option.splits)
qed

end
