(* ===== verification/MntRead.thy ===== *)
theory MntRead
  imports ConvM2S QioSys
begin

text \<open>
  Reading replies in the mount driver, \<^verbatim>\<open>9/port/devmnt.c\<close> (\<open>doread\<close>, \<open>mntrpcread\<close>): the blocks that
  the connection delivers are queued until a whole message is there, the header is pulled up into
  one block and decoded, and the data of a read reply stays in its blocks.
\<close>

subsection \<open>The code\<close>

text \<open>What one \<^verbatim>\<open>bread\<close> of the connection gives: blocks, nil, or an error.\<close>

datatype devread = Got chain | NoBlock | Fails mem

text \<open>
  \<open>inp\<close> are the results of the reads still to come; with none left the reader sleeps in \<^verbatim>\<open>bread\<close>.
  The result is whether there is enough (0 in the code) or not (-1).
\<close>

fun doread :: "queue \<Rightarrow> devread list \<Rightarrow> int \<Rightarrow> kalloc \<Rightarrow> bool qres \<times> queue \<times> devread list \<times> kalloc" where
  "doread q inp len ka =
     (if qlen q < len then
        (case inp of
           [] \<Rightarrow> (Asleep, q, [], ka)
         | Fails e # inp \<Rightarrow> (Raised e, q, inp, ka)
         | NoBlock # inp \<Rightarrow> (Done False, q, inp, ka)
         | Got c # inp \<Rightarrow>
             if blocklen c = 0 then (Done False, q, inp, freeblist c ka)
             else doread (qaddlist q c) inp len ka)
      else (Done True, q, inp, ka))"

declare doread.simps [simp del]

text \<open>\<^verbatim>\<open>hang the data off of the fcall struct\<close>: \<open>acc\<close> are the blocks linked so far.\<close>

function hang :: "queue \<Rightarrow> int \<Rightarrow> int \<Rightarrow> chain \<Rightarrow> kalloc \<Rightarrow> (chain \<times> queue \<times> kalloc) option" where
  "hang q hlen len acc ka =
     (case qremove q of
        (None, _) \<Rightarrow> None
      | (Some b, q) \<Rightarrow>
          (let (b, len) = (if hlen > 0 then (skip hlen b, len - hlen) else (b, len));
               hlen = (if hlen > 0 then 0 else hlen);
               i = BLEN b in
           if i \<le> len then
             (let len = len - i in
              if len > 0 then hang q hlen len (acc @ [b]) ka else Some (acc @ [b], q, ka))
           else do {
             (nb, ka) \<leftarrow> allocb (nat (i - len)) ka;
             d \<leftarrow> rdblock b len (i - len);
             nb \<leftarrow> wrblock nb d;
             Some (acc @ [b\<lparr>b_wp := nat (int (b_rp b) + len)\<rparr>], qputback q nb, ka) }))"
  by pat_completeness auto
termination
  by (relation "measure (\<lambda>(q, hlen, len, acc, ka). length (q_blocks q))")
    (auto simp: qremove_def split: list.splits)

declare hang.simps [simp del]

text \<open>
  The reader's reply \<open>f\<close> and blocks \<open>rb\<close> are those of its own request.  \<open>convM2S\<close> works on the
  memory of the first block, in which it moves strings; for \<^verbatim>\<open>Rread\<close> it only notes where the data
  starts, which may be in later blocks, so there it is given the bytes of the queue.
\<close>

definition mntrpcread :: "int \<Rightarrow> queue \<Rightarrow> devread list \<Rightarrow> fcall \<Rightarrow> chain \<Rightarrow> kalloc \<Rightarrow>
    (int qres \<times> fcall \<times> chain \<times> queue \<times> devread list \<times> kalloc) option" where
  "mntrpcread msize q inp f rb ka =
     (let f = f\<lparr>fc_type := 0, fc_tag := 0\<rparr> in
      case doread q inp (int (BIT32SZ + BIT8SZ + BIT16SZ)) ka of
        (Raised e, q, inp, ka) \<Rightarrow> Some (Raised e, f, rb, q, inp, ka)
      | (Asleep, q, inp, ka) \<Rightarrow> Some (Asleep, f, rb, q, inp, ka)
      | (Done False, q, inp, ka) \<Rightarrow> Some (Done (-1), f, rb, q, inp, ka)
      | (Done True, q, inp, ka) \<Rightarrow> do {
          (nb, q, ka) \<leftarrow> pullupqueue q (int (BIT32SZ + BIT8SZ + BIT16SZ)) ka;
          nb \<leftarrow> nb;
          w \<leftarrow> GBIT32 (bdata nb) 0;
          let len = sint w;
          if len > msize then
            (let (_, q, ka) = qdiscard q (qlen q) ka in Some (Done (-1), f, rb, q, inp, ka))
          else (case doread q inp len ka of
              (Raised e, q, inp, ka) \<Rightarrow> Some (Raised e, f, rb, q, inp, ka)
            | (Asleep, q, inp, ka) \<Rightarrow> Some (Asleep, f, rb, q, inp, ka)
            | (Done False, q, inp, ka) \<Rightarrow> Some (Done (-1), f, rb, q, inp, ka)
            | (Done True, q, inp, ka) \<Rightarrow> do {
                t \<leftarrow> GBIT8 (bdata nb) BIT32SZ;
                let hlen = (if t = Rread then int (BIT32SZ + BIT8SZ + BIT16SZ + BIT32SZ) else len);
                (nb, q, ka) \<leftarrow> pullupqueue q hlen ka;
                nb \<leftarrow> nb;
                (buf, v) \<leftarrow> convM2S (if t = Rread then qdata q else drop (b_rp nb) (b_buf nb)) (unat w) f;
                let nb = (if t = Rread then nb else nb\<lparr>b_buf := take (b_rp nb) (b_buf nb) @ buf\<rparr>);
                let q = q\<lparr>q_blocks := nb # tl (q_blocks q)\<rparr>;
                case v of
                  None \<Rightarrow> (let (_, q, ka) = qdiscard q len ka in Some (Done (-1), f, rb, q, inp, ka))
                | Some (_, f) \<Rightarrow> do {
                    (c, q, ka) \<leftarrow> hang q hlen len [] ka;
                    Some (Done 0, f, c, q, inp, ka) } }) })"


subsection \<open>Enough bytes\<close>

text \<open>The accounts that matter here: \<open>pullupqueue\<close> leaves \<^verbatim>\<open>q->len\<close> alone when it adds a block.\<close>

definition minv :: "queue \<Rightarrow> bool" where
  "minv q \<longleftrightarrow> wfc (q_blocks q) \<and> q_dlen q = blocklen (q_blocks q)"

fun instream :: "devread list \<Rightarrow> mem" where
  "instream (Got c # inp) = cdata c @ instream inp"
| "instream inp = []"

definition input_ok :: "devread list \<Rightarrow> bool" where
  "input_ok inp \<longleftrightarrow> list_all (\<lambda>d. case d of Got c \<Rightarrow> wfc c \<and> cdata c \<noteq> [] | _ \<Rightarrow> True) inp"

lemma minv_len: "minv q \<Longrightarrow> qlen q = int (length (qdata q))"
  by (simp add: minv_def qlen_def qdata_def blocklen_data)

lemma minv_addlist: "minv q \<Longrightarrow> wfc c \<Longrightarrow> minv (qaddlist q c) \<and> qdata (qaddlist q c) = qdata q @ cdata c"
  by (simp add: minv_def qaddlist_def qdata_def)

lemma doread_ok:
  assumes "minv q" "input_ok inp" "len \<le> int (length (qdata q @ instream inp))"
  shows "\<exists>q' inp'. doread q inp len ka = (Done True, q', inp', ka) \<and> minv q' \<and> input_ok inp' \<and>
    qdata q' @ instream inp' = qdata q @ instream inp \<and> len \<le> qlen q' \<and> (\<exists>c. q_blocks q' = q_blocks q @ c)"
  using assms
proof (induction q inp len ka rule: doread.induct)
  case (1 q inp len ka)
  show ?case
  proof (cases "qlen q < len")
    case False
    then show ?thesis using 1(2-4) by (simp add: doread.simps [of q])
  next
    case True
    then have "instream inp \<noteq> []" using 1(2,4) by (auto simp: minv_len)
    then obtain c inp1 where inp: "inp = Got c # inp1" by (cases inp rule: instream.cases) auto
    have c: "wfc c" "blocklen c \<noteq> 0" "input_ok inp1" using 1(3) by (auto simp: inp input_ok_def blocklen_data)
    note a = minv_addlist [OF 1(2) c(1)]
    have "len \<le> int (length (qdata (qaddlist q c) @ instream inp1))" using 1(4) a inp by simp
    from 1(1) [OF True inp refl c(2) a [THEN conjunct1] c(3) this] obtain q' inp' e where
      r: "doread (qaddlist q c) inp1 len ka = (Done True, q', inp', ka)" "minv q'" "input_ok inp'"
        "qdata q' @ instream inp' = qdata (qaddlist q c) @ instream inp1" "len \<le> qlen q'"
        "q_blocks q' = q_blocks (qaddlist q c) @ e" by blast
    have "doread q inp len ka = (Done True, q', inp', ka)" using True c r(1) by (simp add: doread.simps [of q] inp)
    moreover have "q_blocks q' = q_blocks q @ c @ e" using r(6) by (simp add: qaddlist_def)
    ultimately show ?thesis using r a by (auto simp: inp)
  qed
qed

lemma pullupqueue_ok:
  assumes "minv q" "mem_avail ka" "n \<le> qlen q" "q_blocks q \<noteq> []"
  shows "\<exists>nb q' ka'. pullupqueue q n ka = Some (Some nb, q', ka') \<and> minv q' \<and> qdata q' = qdata q \<and>
    (\<exists>bs. q_blocks q' = nb # bs) \<and> n \<le> BLEN nb \<and> mem_avail ka'"
proof -
  obtain b bs where b: "q_blocks q = b # bs" using assms(4) by (cases "q_blocks q") auto
  show ?thesis
  proof (cases "BLEN b \<ge> n")
    case True
    then show ?thesis using assms b by (simp add: pullupqueue_def)
  next
    case False
    have w: "wfc (q_blocks q)" and l: "n \<le> blocklen (q_blocks q)" using assms(1,3) by (simp_all add: minv_def qlen_def)
    obtain c ka' where c: "pullupblock (q_blocks q) n ka = Some (c, ka')" "wfc c" "owns (q_blocks q) ka c ka'"
        "cdata c = cdata (q_blocks q)" "c \<noteq> []" "n \<le> BLEN (hd c)"
      using pullupblock_ok [OF assms(2) w assms(4), of n] l by auto
    then obtain nb r where nb: "c = nb # r" by (cases c) auto
    have "blocklen c = blocklen (q_blocks q)" using c w by (simp add: blocklen_data)
    then have "minv (q\<lparr>q_blocks := c\<rparr>)" using assms(1) c(2) by (simp add: minv_def)
    then show ?thesis using b False c nb by (simp add: pullupqueue_def qdata_def owns_def)
  qed
qed

lemma qremove_ok:
  assumes "minv q" "q_blocks q = b # bs"
  shows "\<exists>q'. qremove q = (Some b, q') \<and> minv q' \<and> q_blocks q' = bs \<and> wfb b"
  using assms by (auto simp: qremove_def minv_def)

lemma minv_putback: "minv q \<Longrightarrow> wfb b \<Longrightarrow> minv (qputback q b) \<and> qdata (qputback q b) = bdata b @ qdata q"
  by (simp add: minv_def qputback_def qdata_def)

subsection \<open>The rest of a message\<close>

text \<open>The bytes of a message behind its header go to the caller, the rest stays in the queue.\<close>

definition hung :: "chain \<Rightarrow> mem \<Rightarrow> mem \<Rightarrow> (chain \<times> queue \<times> kalloc) option \<Rightarrow> bool" where
  "hung acc d rest r \<longleftrightarrow> (\<exists>c q' ka'. r = Some (acc @ c, q', ka') \<and> wfc c \<and> cdata c = d \<and> minv q' \<and>
     qdata q' = rest \<and> mem_avail ka')"

lemma skip_0: "skip 0 b = b"
  by (simp add: skip_def)

lemma hang_block:
  assumes "minv q" "q_blocks q = b # bs" "0 \<le> hlen"
  shows "\<exists>q'. minv q' \<and> q_blocks q' = bs \<and> hang q hlen len acc ka =
     (let b' = skip hlen b; l = len - hlen in
      if BLEN b' \<le> l then
        (if 0 < l - BLEN b' then hang q' 0 (l - BLEN b') (acc @ [b']) ka else Some (acc @ [b'], q', ka))
      else do {
        (nb, ka) \<leftarrow> allocb (nat (BLEN b' - l)) ka;
        d \<leftarrow> rdblock b' l (BLEN b' - l);
        nb \<leftarrow> wrblock nb d;
        Some (acc @ [b'\<lparr>b_wp := nat (int (b_rp b') + l)\<rparr>], qputback q' nb, ka) })"
proof -
  obtain q' where q': "qremove q = (Some b, q')" "minv q'" "q_blocks q' = bs" using qremove_ok [OF assms(1,2)] by blast
  then show ?thesis using assms(3)
    by (cases "hlen = 0") (auto simp: hang.simps [of q] skip_0 Let_def)
qed

lemma cut_block:
  assumes "wfb b" "0 \<le> l" "l \<le> BLEN b"
  shows "wfb (b\<lparr>b_wp := nat (int (b_rp b) + l)\<rparr>)" "bdata (b\<lparr>b_wp := nat (int (b_rp b) + l)\<rparr>) = take (nat l) (bdata b)"
    "rdblock b l (BLEN b - l) = Some (drop (nat l) (bdata b))"
proof -
  have e: "nat (int (b_rp b) + l) = b_rp b + nat l" using assms(2) by (simp add: nat_add_distrib)
  have le: "b_rp b \<le> b_wp b" "b_wp b \<le> length (b_buf b)" using assms(1) by (auto simp: wfb_def checkb_def)
  have l: "b_rp b + nat l \<le> b_wp b" using assms(2,3) le by (simp add: BLEN_def)
  show "wfb (b\<lparr>b_wp := nat (int (b_rp b) + l)\<rparr>)" using le l by (simp add: wfb_def checkb_def e)
  show "bdata (b\<lparr>b_wp := nat (int (b_rp b) + l)\<rparr>) = take (nat l) (bdata b)"
    using l by (simp add: bdata_def e min_absorb1)
  have n: "nat (BLEN b - l) = b_wp b - (b_rp b + nat l)" using assms(2,3) le by (simp add: BLEN_def)
  have a: "b_rp b + nat l + (b_wp b - (b_rp b + nat l)) \<le> length (b_buf b)" using l le by simp
  have "rdblock b l (BLEN b - l) = memget (b_buf b) (b_rp b + nat l) (nat (BLEN b - l))"
    using assms(2,3) by (simp add: rdblock_def)
  also have "\<dots> = Some (take (b_wp b - (b_rp b + nat l)) (drop (b_rp b + nat l) (b_buf b)))"
    unfolding n memget_def using a by simp
  also have "take (b_wp b - (b_rp b + nat l)) (drop (b_rp b + nat l) (b_buf b)) = drop (nat l) (bdata b)"
    by (simp add: bdata_def drop_take add.commute)
  finally show "rdblock b l (BLEN b - l) = Some (drop (nat l) (bdata b))" .
qed

lemma hang_ok:
  assumes "minv q" "mem_avail ka" "q_blocks q = b # bs" "0 \<le> hlen" "hlen \<le> BLEN b" "hlen \<le> len" "len \<le> qlen q"
  shows "hung acc (take (nat (len - hlen)) (drop (nat hlen) (qdata q))) (drop (nat len) (qdata q)) (hang q hlen len acc ka)"
  using assms
proof (induction "length bs" arbitrary: bs q b hlen len acc ka rule: less_induct)
  case less
  note minv = less.prems(1) and ka = less.prems(2) and bl = less.prems(3)
  let ?b = "skip hlen b" and ?l = "len - hlen"
  obtain q' where q': "minv q'" "q_blocks q' = bs" and step: "hang q hlen len acc ka =
     (if BLEN ?b \<le> ?l then
        (if 0 < ?l - BLEN ?b then hang q' 0 (?l - BLEN ?b) (acc @ [?b]) ka else Some (acc @ [?b], q', ka))
      else do {
        (nb, ka) \<leftarrow> allocb (nat (BLEN ?b - ?l)) ka;
        d \<leftarrow> rdblock ?b ?l (BLEN ?b - ?l);
        nb \<leftarrow> wrblock nb d;
        Some (acc @ [?b\<lparr>b_wp := nat (int (b_rp ?b) + ?l)\<rparr>], qputback q' nb, ka) })"
    using hang_block [OF minv bl less.prems(4), of len acc ka] unfolding Let_def by blast
  have w: "wfb b" "wfc bs" using minv bl by (simp_all add: minv_def)
  note sk = skip_ok(1-3) [OF w(1) less.prems(4,5)]
  have d: "qdata q = bdata b @ cdata bs" "qdata q' = cdata bs" using bl q'(2) by (simp_all add: qdata_def)
  have L: "BLEN b = int (length (bdata b))" "BLEN ?b = int (length (bdata ?b))" "qlen q = int (length (qdata q))"
    using BLEN_data w(1) sk(1) minv_len minv by simp_all
  have hl: "nat hlen \<le> length (bdata b)" using less.prems(5) L(1) by simp
  have data: "drop (nat hlen) (qdata q) = bdata ?b @ cdata bs" using hl by (simp add: d sk(2))
  have rest: "drop (nat len) (qdata q) = drop (nat ?l) (bdata ?b @ cdata bs)"
    using less.prems(4,6) by (simp add: data [symmetric] drop_drop flip: nat_add_distrib)
  show ?case
  proof (cases "BLEN ?b \<le> ?l")
    case True
    have tk: "take (nat ?l) (bdata ?b @ cdata bs) = bdata ?b @ take (nat (?l - BLEN ?b)) (cdata bs)"
      "drop (nat ?l) (bdata ?b @ cdata bs) = drop (nat (?l - BLEN ?b)) (cdata bs)"
      using True L(2) by (simp_all add: nat_diff_distrib')
    show ?thesis
    proof (cases "0 < ?l - BLEN ?b")
      case False
      then have "hang q hlen len acc ka = Some (acc @ [?b], q', ka)" using True step by simp
      then show ?thesis using False tk sk(1) q' ka d(2) unfolding hung_def data rest by auto
    next
      case more: True
      have "?l - BLEN ?b \<le> qlen q'"
        using less.prems(7) L d minv_len [OF q'(1)] sk(3) by simp
      moreover from this more obtain c cs where c: "bs = c # cs" using d(2) minv_len [OF q'(1)] by (cases bs) auto
      ultimately have "hung (acc @ [?b]) (take (nat (?l - BLEN ?b - 0)) (drop (nat 0) (qdata q')))
          (drop (nat (?l - BLEN ?b)) (qdata q')) (hang q' 0 (?l - BLEN ?b) (acc @ [?b]) ka)"
        using less.hyps [of cs q' ka c 0 "?l - BLEN ?b" "acc @ [?b]"] q' ka more w(2) BLEN_data [of c] by simp
      then obtain e q2 ka2 where e: "hang q' 0 (?l - BLEN ?b) (acc @ [?b]) ka = Some ((acc @ [?b]) @ e, q2, ka2)" "wfc e"
          "cdata e = take (nat (?l - BLEN ?b)) (cdata bs)" "minv q2" "qdata q2 = drop (nat (?l - BLEN ?b)) (cdata bs)"
          "mem_avail ka2" by (auto simp: hung_def d(2))
      have "hang q hlen len acc ka = Some (acc @ (?b # e), q2, ka2)" using True more step e(1) by simp
      then show ?thesis using e sk(1) tk unfolding hung_def data rest by (intro exI [of _ "?b # e"]) simp
    qed
  next
    case False
    have l: "0 \<le> ?l" "?l \<le> BLEN ?b" "nat ?l \<le> length (bdata ?b)" using False less.prems(6) L(2) by simp_all
    note cut = cut_block [OF sk(1) l(1,2)]
    obtain nb ka1 where nb: "allocb (nat (BLEN ?b - ?l)) ka = Some (nb, ka1)" "wfb nb" "bdata nb = []"
        "nat (BLEN ?b - ?l) \<le> room nb" "mem_avail ka1" using allocb_ok [OF ka] by blast
    have "length (drop (nat ?l) (bdata ?b)) \<le> room nb" using nb(4) L(2) l by simp
    then obtain nb' where nb': "wrblock nb (drop (nat ?l) (bdata ?b)) = Some nb'" "wfb nb'"
        "bdata nb' = drop (nat ?l) (bdata ?b)" using wrblock_ok [OF nb(2)] nb(3) by fastforce
    have "hang q hlen len acc ka = Some (acc @ [?b\<lparr>b_wp := nat (int (b_rp ?b) + ?l)\<rparr>], qputback q' nb', ka1)"
      using False step nb(1) cut(3) nb'(1) by simp
    then show ?thesis
      using cut minv_putback [OF q'(1) nb'(2)] nb'(3) nb(5) l(3) d(2) unfolding hung_def data rest
      by (intro exI [of _ "[?b\<lparr>b_wp := nat (int (b_rp ?b) + ?l)\<rparr>]"]) simp
  qed
qed


subsection \<open>One message\<close>

lemma front_part: "xs @ ys = ws @ rest \<Longrightarrow> length ws \<le> length xs \<Longrightarrow> \<exists>r. xs = ws @ r \<and> r @ ys = rest"
  by (auto simp: append_eq_append_conv2)

lemma rewrite_block:
  assumes "wfb nb" "length buf = length (drop (b_rp nb) (b_buf nb))"
    "drop n buf = drop n (drop (b_rp nb) (b_buf nb))" "n \<le> length (bdata nb)"
  shows "wfb (nb\<lparr>b_buf := take (b_rp nb) (b_buf nb) @ buf\<rparr>)"
    "BLEN (nb\<lparr>b_buf := take (b_rp nb) (b_buf nb) @ buf\<rparr>) = BLEN nb"
    "drop n (bdata (nb\<lparr>b_buf := take (b_rp nb) (b_buf nb) @ buf\<rparr>)) = drop n (bdata nb)"
proof -
  have le: "b_rp nb \<le> b_wp nb" "b_wp nb \<le> length (b_buf nb)" using assms(1) by (auto simp: wfb_def checkb_def)
  show "wfb (nb\<lparr>b_buf := take (b_rp nb) (b_buf nb) @ buf\<rparr>)" using le assms(2) by (simp add: wfb_def checkb_def)
  show "BLEN (nb\<lparr>b_buf := take (b_rp nb) (b_buf nb) @ buf\<rparr>) = BLEN nb" by (simp add: BLEN_def)
  have "bdata (nb\<lparr>b_buf := take (b_rp nb) (b_buf nb) @ buf\<rparr>) = take (b_wp nb - b_rp nb) buf"
    using le by (simp add: bdata_def min_absorb1)
  then show "drop n (bdata (nb\<lparr>b_buf := take (b_rp nb) (b_buf nb) @ buf\<rparr>)) = drop n (bdata nb)"
    using assms(3) by (simp add: bdata_def drop_take)
qed

text \<open>The header of a message that is at the front of the queue.\<close>

lemma front_header:
  assumes "wfb nb" "7 \<le> BLEN nb" "bdata nb @ ys = wire f @ rest"
  shows "GBIT32 (bdata nb) 0 = Some (of_nat (wire_size f))" "GBIT8 (bdata nb) 4 = Some (fc_type f)"
proof -
  let ?h = "le32 (of_nat (wire_size f)) @ [fc_type f] @ le16 (fc_tag f)"
  have "bdata nb @ ys = ?h @ wire_body f @ rest" using assms(3) by (simp add: wire_def)
  moreover have "length ?h \<le> length (bdata nb)" using assms(1,2) by (simp add: BLEN_data)
  ultimately obtain r where r: "bdata nb = ?h @ r" using front_part by metis
  show "GBIT32 (bdata nb) 0 = Some (of_nat (wire_size f))" by (rule gbit_ahead(3)) (simp_all add: r)
  have "drop 4 (bdata nb) = [fc_type f] @ le16 (fc_tag f) @ r" by (simp add: r)
  then show "GBIT8 (bdata nb) 4 = Some (fc_type f)" by (rule gbit_ahead(1)) (simp add: r)
qed

text \<open>The header that is pulled up: all but the data of a read reply.\<close>

definition header_len :: "fcall \<Rightarrow> nat" where
  "header_len f = (if fc_type f = Rread then 11 else wire_size f)"

lemma header_len_le: "header_len f \<le> wire_size f" "7 \<le> header_len f"
  by (simp_all add: header_len_def wire_size_def wire_body_def)

lemma header_rest:
  "take (wire_size f - header_len f) (drop (header_len f) (wire f @ r)) = (if fc_type f = Rread then fc_data f else [])"
  by (simp add: header_len_def wire_size_def wire_def wire_body_def)

text \<open>Decoding the message at the front of the queue, in the two memories \<open>convM2S\<close> is given.\<close>

lemma front_decode:
  assumes "minv q" "q_blocks q = nb # bs" "int (header_len f) \<le> BLEN nb" "qdata q = wire f @ r"
    "fcall_ok f" "no_nul f"
  shows "\<exists>buf. convM2S (if fc_type f = Rread then qdata q else drop (b_rp nb) (b_buf nb)) (wire_size f) g =
      Some (buf, Some (wire_size f, carry f g)) \<and>
    (let nb' = (if fc_type f = Rread then nb else nb\<lparr>b_buf := take (b_rp nb) (b_buf nb) @ buf\<rparr>);
         q' = q\<lparr>q_blocks := nb' # bs\<rparr> in
      minv q' \<and> BLEN nb' = BLEN nb \<and> qlen q' = qlen q \<and> drop (header_len f) (qdata q') = drop (header_len f) (qdata q))"
proof (cases "fc_type f = Rread")
  case True
  obtain b where "convM2S (qdata q) (wire_size f) g = Some (b, Some (wire_size f, carry f g))"
    using convM2S_wire [OF assms(5,6), of "wire_size f" r g] assms(4) by auto
  moreover have "q\<lparr>q_blocks := nb # bs\<rparr> = q" using assms(2) by (cases q) simp
  ultimately show ?thesis using True assms(1) by simp
next
  case False
  have h: "header_len f = wire_size f" using False by (simp add: header_len_def)
  have w: "wfb nb" "wfc bs" using assms(1,2) by (simp_all add: minv_def)
  have len: "wire_size f \<le> length (bdata nb)" using assms(3) w(1) by (simp add: BLEN_data h)
  have "bdata nb @ cdata bs = wire f @ r" using assms(2,4) by (simp add: qdata_def)
  then obtain r' where r': "bdata nb = wire f @ r'" using front_part [of "bdata nb" "cdata bs" "wire f" r] len by auto
  let ?m = "drop (b_rp nb) (b_buf nb)"
  have "?m = bdata nb @ drop (b_wp nb - b_rp nb) ?m" by (simp add: bdata_def del: drop_drop)
  then obtain e where m: "?m = wire f @ e" using r' by (metis append.assoc)
  obtain b where b: "convM2S ?m (wire_size f) g = Some (b, Some (wire_size f, carry f g))"
    using convM2S_wire [OF assms(5,6), of "wire_size f" e g] m by auto
  have le: "wire_size f \<le> length ?m" unfolding m by simp
  have bb: "length b = length ?m" "drop (wire_size f) b = drop (wire_size f) ?m"
    using convM2S_reads [OF le, of g] b by (auto simp: reads_ok_def)
  let ?nb = "nb\<lparr>b_buf := take (b_rp nb) (b_buf nb) @ b\<rparr>"
  note rw = rewrite_block [OF w(1) bb len]
  have "minv (q\<lparr>q_blocks := ?nb # bs\<rparr>)" using assms(1,2) rw w(2) by (simp add: minv_def)
  moreover have "drop (header_len f) (qdata (q\<lparr>q_blocks := ?nb # bs\<rparr>)) = drop (header_len f) (qdata q)"
  proof -
    have "length (bdata ?nb) = length (bdata nb)" using rw(1,2) w(1) by (simp add: BLEN_data)
    then show ?thesis using rw(3) len assms(2) by (simp add: qdata_def h)
  qed
  ultimately show ?thesis using False b rw(2) by (simp add: qlen_def Let_def)
qed

text \<open>
  C36. Replies are cut out of the connection's stream exactly: when the bytes queued and still to
  come, in blocks of any sizes, start with an encoded message that fits the connection's message
  size, \<open>mntrpcread\<close> returns that message, hands over the data of a read reply in blocks and
  leaves the rest of the stream, without a fault.
\<close>

theorem mntrpcread_framed:
  assumes "minv q" "mem_avail ka" "input_ok inp" "qdata q @ instream inp = wire f @ rest"
    "fcall_ok f" "no_nul f" "int (wire_size f) \<le> msize" "msize < 2 ^ 31"
  shows "\<exists>c q' inp' ka'. mntrpcread msize q inp g rb ka =
      Some (Done 0, carry f (g\<lparr>fc_type := 0, fc_tag := 0\<rparr>), c, q', inp', ka') \<and>
    wfc c \<and> cdata c = (if fc_type f = Rread then fc_data f else []) \<and>
    minv q' \<and> mem_avail ka' \<and> input_ok inp' \<and> qdata q' @ instream inp' = rest"
proof -
  let ?n = "wire_size f" and ?g = "g\<lparr>fc_type := 0, fc_tag := 0\<rparr>" and ?h = "header_len f"
  have n: "7 \<le> ?n" by (simp add: wire_size_def)
  have w: "sint (of_nat ?n :: u32int) = int ?n" "unat (of_nat ?n :: u32int) = ?n"
    using assms(7,8) by (simp_all add: signed_of_nat signed_take_bit_int_eq_self unat_of_nat)
  have all: "length (qdata q @ instream inp) = ?n + length rest" using assms(4) by simp
  obtain q1 inp1 where q1: "doread q inp 7 ka = (Done True, q1, inp1, ka)" "minv q1" "input_ok inp1"
      "qdata q1 @ instream inp1 = wire f @ rest" "7 \<le> qlen q1"
    using doread_ok [OF assms(1,3), of 7 ka] all n assms(4) by auto
  then have ne1: "q_blocks q1 \<noteq> []" by (auto simp: minv_def qlen_def)
  obtain nb q2 ka2 bs where q2: "pullupqueue q1 7 ka = Some (Some nb, q2, ka2)" "minv q2" "qdata q2 = qdata q1"
      "q_blocks q2 = nb # bs" "7 \<le> BLEN nb" "mem_avail ka2"
    using pullupqueue_ok [OF q1(2) assms(2) q1(5) ne1] by blast
  have nbw: "wfb nb" using q2(2,4) by (simp add: minv_def)
  have "qdata q2 = bdata nb @ cdata bs" using q2(4) by (simp add: qdata_def)
  then have "bdata nb @ cdata bs @ instream inp1 = wire f @ rest" using q1(4) q2(3) by simp
  note hdr = front_header [OF nbw q2(5) this]
  obtain q3 inp3 where q3: "doread q2 inp1 (int ?n) ka2 = (Done True, q3, inp3, ka2)" "minv q3" "input_ok inp3"
      "qdata q3 @ instream inp3 = wire f @ rest" "int ?n \<le> qlen q3"
    using doread_ok [OF q2(2) q1(3), of "int ?n" ka2] q1(4) q2(3) by auto
  have ne3: "q_blocks q3 \<noteq> []" using q3(2,5) n by (auto simp: minv_def qlen_def)
  have h: "int ?h \<le> qlen q3" using header_len_le(1) [of f] q3(5) by simp
  obtain nb4 q4 ka4 bs4 where q4: "pullupqueue q3 (int ?h) ka2 = Some (Some nb4, q4, ka4)" "minv q4"
      "qdata q4 = qdata q3" "q_blocks q4 = nb4 # bs4" "int ?h \<le> BLEN nb4" "mem_avail ka4"
    using pullupqueue_ok [OF q3(2) q2(6) h ne3] by blast
  have "?n \<le> length (qdata q4)" using q3(2,5) q4(3) by (simp add: minv_len)
  then obtain r where r: "qdata q4 = wire f @ r" "r @ instream inp3 = rest"
    using front_part [of "qdata q4" "instream inp3" "wire f" rest] q3(4) q4(3) by auto
  obtain buf where dec: "convM2S (if fc_type f = Rread then qdata q4 else drop (b_rp nb4) (b_buf nb4)) ?n ?g =
      Some (buf, Some (?n, carry f ?g))" and q5: "let nb' = (if fc_type f = Rread then nb4 else
         nb4\<lparr>b_buf := take (b_rp nb4) (b_buf nb4) @ buf\<rparr>); q' = q4\<lparr>q_blocks := nb' # bs4\<rparr> in
      minv q' \<and> BLEN nb' = BLEN nb4 \<and> qlen q' = qlen q4 \<and> drop ?h (qdata q') = drop ?h (qdata q4)"
    using front_decode [OF q4(2,4,5) r(1) assms(5,6), of ?g] by blast
  define nb5 where "nb5 = (if fc_type f = Rread then nb4 else nb4\<lparr>b_buf := take (b_rp nb4) (b_buf nb4) @ buf\<rparr>)"
  let ?q5 = "q4\<lparr>q_blocks := nb5 # bs4\<rparr>"
  have q5: "minv ?q5" "BLEN nb5 = BLEN nb4" "qlen ?q5 = qlen q4" "drop ?h (qdata ?q5) = drop ?h (qdata q4)"
    using q5 unfolding nb5_def Let_def by simp_all
  have "drop ?n (qdata ?q5) = drop (?n - ?h) (drop ?h (qdata ?q5))" using header_len_le(1) [of f] by simp
  also have "\<dots> = drop ?n (qdata q4)" unfolding q5(4) using header_len_le(1) [of f] by simp
  finally have tail: "drop ?n (qdata ?q5) = r" using r(1) by simp
  have "qlen q4 = qlen q3" using q3(2) q4(2,3) by (simp add: minv_len)
  then have "hung [] (take (nat (int ?n - int ?h)) (drop (nat (int ?h)) (qdata ?q5))) (drop (nat (int ?n)) (qdata ?q5))
      (hang ?q5 (int ?h) (int ?n) [] ka4)"
    using header_len_le(1) [of f] q4(5,6) q5 q3(5) by (intro hang_ok [where b = nb5 and bs = bs4]) simp_all
  moreover have "nat (int ?n - int ?h) = ?n - ?h" by simp
  ultimately have "hung [] (if fc_type f = Rread then fc_data f else []) r (hang ?q5 (int ?h) (int ?n) [] ka4)"
    using q5(4) tail header_rest [of f r] r(1) by simp
  then obtain c q' ka' where c: "hang ?q5 (int ?h) (int ?n) [] ka4 = Some (c, q', ka')" "wfc c"
      "cdata c = (if fc_type f = Rread then fc_data f else [])" "minv q'" "qdata q' = r" "mem_avail ka'"
    by (auto simp: hung_def)
  have hl: "(if fc_type f = Rread then 11 else int ?n) = int ?h" by (simp add: header_len_def)
  have "mntrpcread msize q inp g rb ka = Some (Done 0, carry f ?g, c, q', inp3, ka')"
    using assms(7) q1(1) q2(1) q3(1) q4(1,4) hdr w hl dec c(1)
    by (cases "fc_type f = Rread") (simp_all add: mntrpcread_def nb5_def Let_def header_len_def)
  then show ?thesis using c q3(3) r(2) by blast
qed


definition block_of :: "mem \<Rightarrow> block" where
  "block_of d = \<lparr>b_buf = d, b_rp = 0, b_wp = length d, b_own = False, b_intr = False\<rparr>"

lemma block_of [simp]: "wfb (block_of d)" "bdata (block_of d) = d" "BLEN (block_of d) = int (length d)"
  by (simp_all add: block_of_def wfb_def checkb_def bdata_def BLEN_def)

definition example_rread :: fcall where
  "example_rread = zero_fcall\<lparr>fc_type := Rread, fc_tag := 3, fc_count := 4, fc_data := [1, 2, 3, 4]\<rparr>"

theorem mntrpcread_framed_witness:
  "\<exists>c q' inp' ka'. mntrpcread 8192 (qopen 1000 0 False)
      [Got [block_of (take 5 (wire example_rread))], Got [block_of (drop 5 (wire example_rread) @ [9])]]
      zero_fcall [] sample_ka = Some (Done 0, carry example_rread (zero_fcall\<lparr>fc_type := 0, fc_tag := 0\<rparr>), c, q', inp', ka') \<and>
    cdata c = [1, 2, 3, 4] \<and> qdata q' @ instream inp' = [9]"
proof -
  let ?w = "wire example_rread" and ?q = "qopen 1000 0 False"
  let ?inp = "[Got [block_of (take 5 ?w)], Got [block_of (drop 5 ?w @ [9])]]"
  have ok: "fcall_ok example_rread" "no_nul example_rread" "wire_size example_rread = 15"
    by (simp_all add: example_rread_def zero_fcall_def fcall_ok_def no_nul_def msg_types_def msg_strings_def
      counts_ok_def wire_size_def wire_body_def)
  have t: "fc_type example_rread = Rread" "fc_data example_rread = [1, 2, 3, 4]" by (simp_all add: example_rread_def)
  have q: "minv ?q" "qdata ?q = []" by (simp_all add: qopen_def minv_def qdata_def)
  have "?w \<noteq> []" "drop 5 ?w \<noteq> []" using ok(3) by (simp_all flip: length_0_conv)
  then have i: "input_ok ?inp" by (simp add: input_ok_def)
  have "(take 5 ?w @ drop 5 ?w) @ [9] = ?w @ [9]" by (simp only: append_take_drop_id)
  then have "instream ?inp = ?w @ [9]" by simp
  then have s: "qdata ?q @ instream ?inp = ?w @ [9]" using q by simp
  have b: "int (wire_size example_rread) \<le> 8192" "(8192 :: int) < 2 ^ 31" by (simp_all add: ok(3))
  from mntrpcread_framed [OF q(1) sample_ok(1) i s ok(1,2) b, of zero_fcall "[]"]
  show ?thesis unfolding t by auto
qed

text \<open>
  Two replies that the checks let through.  The length of a message is a signed number, so one of
  2 GB and more is negative, passes the test against the message size and is handed to \<open>convM2S\<close>
  as the size of a buffer that is far shorter; and a read reply that is too short for its count
  makes \<open>pullupqueue\<close> free the queue's blocks and return nil, which is followed.
\<close>

theorem hostile_reply_faults:
  "mntrpcread 8192 (qopen 1000 0 False) [Got [block_of [0, 0, 0, 128, Rerror, 1, 0, 255, 255, 65]]] zero_fcall [] sample_ka = None"
  "mntrpcread 8192 (qopen 1000 0 False) [Got [block_of [7, 0, 0, 0, Rread, 1, 0]]] zero_fcall [] sample_ka = None"
proof -
  let ?m = "[0, 0, 0, 128, Rerror, 1, 0, 255, 255, 65] :: mem"
  have g: "GBIT32 ?m 0 = Some 2147483648" "GBIT8 ?m 4 = Some Rerror" "GBIT16 ?m 5 = Some 1" "GBIT16 ?m 7 = Some 65535"
    by code_simp+
  have q: "bdata (block_of ?m) = ?m" "BLEN (block_of ?m) = 10" "b_rp (block_of ?m) = 0" "b_buf (block_of ?m) = ?m"
    by (simp_all add: block_of_def bdata_def BLEN_def)
  have c: "convM2S ?m 2147483648 f = None" for f
    by (simp add: convM2S_def g gstring_def memget_def M2S_T_def M2S_R_def unless_nil_def)
  let ?q = "qaddlist (qopen 1000 0 False) [block_of ?m]"
  have r: "doread (qopen 1000 0 False) [Got [block_of ?m]] 7 ka = (Done True, ?q, [], ka)"
    "doread ?q [] (- 2147483648) ka = (Done True, ?q, [], ka)" for ka
    by (simp_all add: doread.simps qopen_def qlen_def qaddlist_def q)
  have p: "pullupqueue ?q 7 ka = Some (Some (block_of ?m), ?q, ka)"
    "pullupqueue ?q (- 2147483648) ka = Some (Some (block_of ?m), ?q, ka)" for ka
    by (simp_all add: pullupqueue_def qaddlist_def qopen_def q)
  have u: "unat (2147483648 :: u32int) = 2147483648" "sint (2147483648 :: u32int) = - 2147483648" by simp_all
  show "mntrpcread 8192 (qopen 1000 0 False) [Got [block_of [0, 0, 0, 128, Rerror, 1, 0, 255, 255, 65]]] zero_fcall [] sample_ka = None"
    by (simp add: mntrpcread_def r p q g u c del: block_of)
  show "mntrpcread 8192 (qopen 1000 0 False) [Got [block_of [7, 0, 0, 0, Rread, 1, 0]]] zero_fcall [] sample_ka = None"
  proof -
    let ?m = "[7, 0, 0, 0, Rread, 1, 0] :: mem" and ?q = "qopen 1000 0 False"
    have g: "GBIT32 ?m 0 = Some 7" "GBIT8 ?m 4 = Some Rread" by code_simp+
    have q: "bdata (block_of ?m) = ?m" "BLEN (block_of ?m) = 7" by simp_all
    have r: "doread ?q [Got [block_of ?m]] 7 ka = (Done True, qaddlist ?q [block_of ?m], [], ka)"
      "doread (qaddlist ?q [block_of ?m]) [] 7 ka = (Done True, qaddlist ?q [block_of ?m], [], ka)" for ka
      by (simp_all add: doread.simps qopen_def qlen_def qaddlist_def q)
    have p: "pullupqueue (qaddlist ?q [block_of ?m]) 7 ka = Some (Some (block_of ?m), qaddlist ?q [block_of ?m], ka)" for ka
      by (simp add: pullupqueue_def qaddlist_def qopen_def q)
    obtain q' ka' where "pullupqueue (qaddlist ?q [block_of ?m]) 11 sample_ka = Some (None, q', ka')"
      using pullupqueue_stale [of "qaddlist ?q [block_of ?m]" sample_ka 11] sample_ok(1)
      by (auto simp: qinv_def qaddlist_def qopen_def q)
    then show ?thesis by (simp add: mntrpcread_def r p q g)
  qed
qed

end
