(* ===== verification/Mnt.thy ===== *)
theory Mnt
  imports MntTag MntRead ConvS2M
begin

text \<open>
  Remote procedure calls of the mount driver, \<^verbatim>\<open>9/port/devmnt.c\<close>: request structures and their
  pool, the queue of a connection, and the processes in \<open>mountio\<close>, of which one at a time reads
  the replies of all.

  Structures on a list (\<^verbatim>\<open>rpcfree\<close>, the queue of a \<^verbatim>\<open>Mnt\<close>) and the chain of flushes of a process
  (\<^verbatim>\<open>flushed\<close>) are lists of addresses.  \<open>None\<close> is a fault: a dangling pointer, a panic, or the release
  of a structure that is still linked.  The statistics and the channel kept for diagnostics are left out.
\<close>

subsection \<open>State\<close>

type_synonym rpcp = nat
type_synonym mntp = nat
type_synonym pid = nat

abbreviation (input) Tmax :: uchar where "Tmax \<equiv> 128"

definition Eintr :: mem where "Eintr = bytes ''interrupted''"
definition Emountrpc :: mem where "Emountrpc = bytes ''mount rpc error''"

text \<open>\<open>mr_r\<close> is the \<^verbatim>\<open>Rendez\<close>: the process asleep on it.\<close>

record mntrpc =
  mr_request :: fcall
  mr_reply :: fcall
  mr_m :: "mntp option"
  mr_r :: "pid option"
  mr_rpc :: mem
  mr_b :: chain
  mr_done :: nat

text \<open>\<open>m_lock\<close> tells that the lock is held from one step to the next.\<close>

record mnt =
  m_queue :: "rpcp list"
  m_rip :: "pid option"
  m_lock :: bool
  m_msize :: nat

text \<open>
  Where a process is in \<open>mountio\<close>.  \<open>Fail\<close> and \<open>Fail2\<close> are the handler of \<^verbatim>\<open>waserror\<close> before and after
  its call of \<open>mntgate\<close>; \<open>Free\<close>, \<open>Qrm\<close>, \<open>Drop\<close> are the loop of \<open>mntflushfree\<close>, with the error that is
  raised after it; \<open>Return\<close> is \<open>mountrpc\<close> and its caller.
\<close>

datatype act =
    Enqueue | Send | Gate | Doze | Sleep | Check | Read | Mux | Waking rpcp | Ungate
  | Fail mem | Fail2 mem | Free "mem option" | Qrm "mem option" | Drop "mem option" | Return "mem option"

text \<open>
  A process outside, or in a call on a connection with its request and the flushes of it, the
  last one first, so that \<^verbatim>\<open>r\<close> is the head of the list.
\<close>

datatype proc = Out | In mntp "rpcp list" act

text \<open>\<open>ms_owed m\<close> are the messages that the server of \<open>m\<close> has received and not answered.\<close>

record mstate =
  ms_rpc :: "rpcp \<Rightarrow> mntrpc option"
  ms_mnt :: "mntp \<Rightarrow> mnt"
  ms_rpcfree :: "rpcp list"
  ms_nrpcfree :: int
  ms_nrpcused :: int
  ms_tagmask :: "u32int list"
  ms_proc :: "pid \<Rightarrow> proc"
  ms_owed :: "mntp \<Rightarrow> fcall list"

definition setrpc :: "rpcp \<Rightarrow> (mntrpc \<Rightarrow> mntrpc) \<Rightarrow> mstate \<Rightarrow> mstate option" where
  "setrpc r f s = map_option (\<lambda>x. s\<lparr>ms_rpc := (ms_rpc s)(r \<mapsto> f x)\<rparr>) (ms_rpc s r)"

definition setmnt :: "mntp \<Rightarrow> (mnt \<Rightarrow> mnt) \<Rightarrow> mstate \<Rightarrow> mstate" where
  "setmnt m f s = s\<lparr>ms_mnt := (ms_mnt s)(m := f (ms_mnt s m))\<rparr>"

subsection \<open>The pool of requests\<close>

text \<open>
  \<open>hdr\<close> and \<open>buf\<close> are what the two calls of \<^verbatim>\<open>malloc\<close> give: memory for the structure at the fresh
  address \<open>a\<close>, and a buffer of \<open>msize\<close> bytes.  The inner \<open>None\<close> is the error of \<^verbatim>\<open>exhausted\<close>.
\<close>

definition mntralloc :: "bool \<Rightarrow> mem option \<Rightarrow> rpcp \<Rightarrow> nat \<Rightarrow> mstate \<Rightarrow> (rpcp option \<times> mstate) option" where
  "mntralloc hdr buf a msize s = do {
     (new, s) \<leftarrow> (case ms_rpcfree s of
         [] \<Rightarrow> if \<not> hdr then Some (None, s)
              else (case buf of
                  None \<Rightarrow> Some (None, s)
                | Some d \<Rightarrow> do {
                    (t, mask) \<leftarrow> alloctag (ms_tagmask s);
                    Some (Some a, s\<lparr>ms_tagmask := mask, ms_rpc := (ms_rpc s)(a \<mapsto>
                      \<lparr>mr_request = zero_fcall\<lparr>fc_tag := of_nat t\<rparr>, mr_reply = zero_fcall, mr_m = None,
                       mr_r = None, mr_rpc = d, mr_b = [], mr_done = 0\<rparr>)\<rparr>) })
       | new # list \<Rightarrow> do {
           let s = s\<lparr>ms_rpcfree := list, ms_nrpcfree := ms_nrpcfree s - 1\<rparr>;
           x \<leftarrow> ms_rpc s new;
           if length (mr_rpc x) < msize then
             (case buf of
                None \<Rightarrow> Some (None, s\<lparr>ms_rpc := (ms_rpc s)(new := None), ms_nrpcused := ms_nrpcused s - 1\<rparr>)
              | Some d \<Rightarrow> Some (Some new, s\<lparr>ms_rpc := (ms_rpc s)(new \<mapsto> x\<lparr>mr_rpc := d\<rparr>)\<rparr>))
           else Some (Some new, s) });
     case new of
       None \<Rightarrow> Some (None, s)
     | Some new \<Rightarrow> do {
         s \<leftarrow> setrpc new (\<lambda>x. x\<lparr>mr_done := 0, mr_b := []\<rparr>) (s\<lparr>ms_nrpcused := ms_nrpcused s + 1\<rparr>);
         Some (Some new, s) } }"

text \<open>The structure is on a list, whose links its release would overwrite.\<close>

definition linked :: "rpcp \<Rightarrow> mntrpc \<Rightarrow> mstate \<Rightarrow> bool" where
  "linked r x s \<longleftrightarrow> r \<in> set (ms_rpcfree s) \<or> (case mr_m x of None \<Rightarrow> False | Some m \<Rightarrow> r \<in> set (m_queue (ms_mnt s m)))"

definition mntfree :: "rpcp \<Rightarrow> mstate \<Rightarrow> mstate option" where
  "mntfree r s = do {
     x \<leftarrow> ms_rpc s r;
     s \<leftarrow> (if linked r x s then None
           else if ms_nrpcfree s \<ge> 10 then
             Some (s\<lparr>ms_tagmask := (if mr_done x \<noteq> 2 then freetag (ms_tagmask s) (unat (fc_tag (mr_request x))) else ms_tagmask s),
               ms_rpc := (ms_rpc s)(r := None)\<rparr>)
           else do {
             (t, mask) \<leftarrow> (if mr_done x = 2 then map_option (\<lambda>(t, mask). (of_nat t, mask)) (alloctag (ms_tagmask s))
                           else Some (fc_tag (mr_request x), ms_tagmask s));
             Some (s\<lparr>ms_tagmask := mask, ms_rpc := (ms_rpc s)(r \<mapsto> x\<lparr>mr_request := (mr_request x)\<lparr>fc_tag := t\<rparr>\<rparr>),
               ms_rpcfree := r # ms_rpcfree s, ms_nrpcfree := ms_nrpcfree s + 1\<rparr>) });
     Some (s\<lparr>ms_nrpcused := ms_nrpcused s - 1\<rparr>) }"

subsection \<open>The queue of a connection\<close>

text \<open>The start of \<open>mountio\<close>, under the lock.\<close>

definition enqueue :: "mntp \<Rightarrow> rpcp \<Rightarrow> mstate \<Rightarrow> mstate option" where
  "enqueue m r s = do {
     s \<leftarrow> setrpc r (\<lambda>x. x\<lparr>mr_m := Some m\<rparr>) s;
     Some (setmnt m (\<lambda>c. c\<lparr>m_queue := r # m_queue c\<rparr>) s) }"

text \<open>
  What is given to the connection's \<^verbatim>\<open>write\<close>.  The result of \<open>convS2M\<close> is unsigned, so that the panic
  for a negative one is dead code and a message that does not fit is an empty write.
\<close>

definition transmit :: "mntp \<Rightarrow> rpcp \<Rightarrow> mstate \<Rightarrow> (mem \<times> mstate) option" where
  "transmit m r s = do {
     x \<leftarrow> ms_rpc s r;
     if m_msize (ms_mnt s m) = 0 then None
     else do {
       (n, buf) \<leftarrow> convS2M (mr_request x) (mr_rpc x) (m_msize (ms_mnt s m));
       Some (take n buf, s\<lparr>ms_rpc := (ms_rpc s)(r \<mapsto> x\<lparr>mr_rpc := buf\<rparr>)\<rparr>) } }"

definition rpcattn :: "rpcp \<Rightarrow> mstate \<Rightarrow> bool option" where
  "rpcattn r s = do {
     x \<leftarrow> ms_rpc s r;
     m \<leftarrow> mr_m x;
     Some (mr_done x \<noteq> 0 \<or> m_rip (ms_mnt s m) = None) }"

fun rouse :: "proc \<Rightarrow> proc" where
  "rouse (In m rs Sleep) = In m rs Check"
| "rouse x = x"

text \<open>\<^verbatim>\<open>wakeup(&q->r)\<close>: the process woken, if one sleeps there.\<close>

definition wakeup :: "rpcp \<Rightarrow> mstate \<Rightarrow> (pid option \<times> mstate) option" where
  "wakeup q s = do {
     x \<leftarrow> ms_rpc s q;
     case mr_r x of
       None \<Rightarrow> Some (None, s)
     | Some p \<Rightarrow> Some (Some p, s\<lparr>ms_rpc := (ms_rpc s)(q \<mapsto> x\<lparr>mr_r := None\<rparr>),
         ms_proc := (ms_proc s)(p := rouse (ms_proc s p))\<rparr>) }"

fun gate_loop :: "rpcp list \<Rightarrow> mstate \<Rightarrow> mstate option" where
  "gate_loop [] s = Some s"
| "gate_loop (q # list) s = do {
     x \<leftarrow> ms_rpc s q;
     if mr_done x = 0 then do {
       (p, s) \<leftarrow> wakeup q s;
       if p \<noteq> None then Some s else gate_loop list s }
     else gate_loop list s }"

definition mntgate :: "mntp \<Rightarrow> mstate \<Rightarrow> mstate option" where
  "mntgate m s = gate_loop (m_queue (ms_mnt s m)) (setmnt m (\<lambda>c. c\<lparr>m_rip := None\<rparr>) s)"

fun find_tag :: "ushort \<Rightarrow> rpcp list \<Rightarrow> mstate \<Rightarrow> rpcp option option" where
  "find_tag t [] s = Some None"
| "find_tag t (q # list) s = do {
     x \<leftarrow> ms_rpc s q;
     if fc_tag (mr_request x) = t then Some (Some q) else find_tag t list s }"

text \<open>
  \<open>mountmux\<close> up to the wakeup: the request that is complete, which is owed a wakeup unless it is
  the reader's own.
\<close>

definition mountmux :: "mntp \<Rightarrow> rpcp \<Rightarrow> mstate \<Rightarrow> (rpcp option \<times> mstate) option" where
  "mountmux m r s = do {
     x \<leftarrow> ms_rpc s r;
     found \<leftarrow> find_tag (fc_tag (mr_reply x)) (m_queue (ms_mnt s m)) s;
     case found of
       Some q \<Rightarrow> do {
         let s = setmnt m (\<lambda>c. c\<lparr>m_queue := remove1 q (m_queue c)\<rparr>) s;
         s \<leftarrow> (if q \<noteq> r then do {
                  s \<leftarrow> setrpc q (\<lambda>y. y\<lparr>mr_reply := mr_reply x, mr_b := mr_b x\<rparr>) s;
                  setrpc r (\<lambda>x. x\<lparr>mr_b := []\<rparr>) s }
                else Some s);
         s \<leftarrow> setrpc q (\<lambda>y. y\<lparr>mr_done := 1\<rparr>) s;
         Some (Some q, s) }
     | None \<Rightarrow>
         Some (None, if tagallocd (ms_tagmask s) (unat (fc_tag (mr_reply x)))
                     then s\<lparr>ms_tagmask := freetag (ms_tagmask s) (unat (fc_tag (mr_reply x)))\<rparr> else s) }"

definition mntqrm :: "mntp \<Rightarrow> rpcp \<Rightarrow> mstate \<Rightarrow> mstate option" where
  "mntqrm m r s = do {
     s \<leftarrow> setrpc r (\<lambda>x. x\<lparr>mr_done := 2\<rparr>) s;
     Some (setmnt m (\<lambda>c. c\<lparr>m_queue := remove1 r (m_queue c)\<rparr>) s) }"

definition mntflushalloc :: "bool \<Rightarrow> mem option \<Rightarrow> rpcp \<Rightarrow> rpcp \<Rightarrow> nat \<Rightarrow> mstate \<Rightarrow> (rpcp option \<times> mstate) option" where
  "mntflushalloc hdr buf a r iounit s = do {
     (fr, s) \<leftarrow> mntralloc hdr buf a iounit s;
     case fr of
       None \<Rightarrow> Some (None, s)
     | Some fr \<Rightarrow> do {
         x \<leftarrow> ms_rpc s r;
         s \<leftarrow> setrpc fr (\<lambda>y. y\<lparr>mr_request := (mr_request y)\<lparr>fc_type := Tflush,
                fc_oldtag := (if fc_type (mr_request x) = Tflush then fc_oldtag (mr_request x)
                              else fc_tag (mr_request x))\<rparr>\<rparr>) s;
         Some (Some fr, s) } }"

text \<open>What \<open>mountrpc\<close> makes of the reply: no error, or the one it raises.\<close>

definition mountrpc_check :: "fcall \<Rightarrow> fcall \<Rightarrow> mem option" where
  "mountrpc_check request reply =
     (let t = fc_type reply in
      if t = Rerror then Some (case fc_ename reply of None \<Rightarrow> [] | Some e \<Rightarrow> e)
      else if t = Rflush then Some Eintr
      else if t = fc_type request + 1 then None
      else Some Emountrpc)"

subsection \<open>Processes\<close>

definition place :: "pid \<Rightarrow> mntp \<Rightarrow> rpcp list \<Rightarrow> act \<Rightarrow> mstate \<Rightarrow> mstate" where
  "place p m rs a s = s\<lparr>ms_proc := (ms_proc s)(p := In m rs a)\<rparr>"

text \<open>
  One round of the loop of \<open>mntflushfree\<close> is three steps, because \<open>mntqrm\<close> takes the lock only after \<^verbatim>\<open>done\<close> was tested.
\<close>

fun flush_step :: "pid \<Rightarrow> mntp \<Rightarrow> rpcp \<Rightarrow> rpcp list \<Rightarrow> act \<Rightarrow> mstate \<Rightarrow> mstate option" where
  "flush_step p m r rs (Free e) s = do {
     x \<leftarrow> ms_rpc s r;
     if mr_done x = 0 then
       map_option (place p m (r # rs) (Qrm e)) (setrpc r (\<lambda>x. x\<lparr>mr_reply := (mr_reply x)\<lparr>fc_type := Rflush\<rparr>\<rparr>) s)
     else Some (place p m (r # rs) (Drop e) s) }"
| "flush_step p m r rs (Qrm e) s = map_option (place p m (r # rs) (Drop e)) (mntqrm m r s)"
| "flush_step p m r rs (Drop e) s =
     (case rs of
        [] \<Rightarrow> Some (place p m [r] (Return e) s)
      | fr # rs \<Rightarrow> map_option (place p m (fr # rs) (Free e)) (mntfree r s))"
| "flush_step p m r rs a s = None"

text \<open>
  What a process does next of its own, where nothing outside decides: one access to the structures
  that processes share, with \<^verbatim>\<open>r\<close> and the rest of its chain as arguments.
\<close>

fun tick :: "pid \<Rightarrow> mntp \<Rightarrow> rpcp \<Rightarrow> rpcp list \<Rightarrow> act \<Rightarrow> mstate \<Rightarrow> mstate option" where
  "tick p m r rs Enqueue s = map_option (place p m (r # rs) Send) (enqueue m r s)"
| "tick p m r rs Gate s =
     (if m_rip (ms_mnt s m) = None
      then Some (place p m (r # rs) Read (setmnt m (\<lambda>c. c\<lparr>m_rip := Some p\<rparr>) s))
      else Some (place p m (r # rs) Doze s))"
| "tick p m r rs Doze s = do {
     b \<leftarrow> rpcattn r s;
     if b then Some (place p m (r # rs) Check s)
     else map_option (place p m (r # rs) Sleep) (setrpc r (\<lambda>x. x\<lparr>mr_r := Some p\<rparr>) s) }"
| "tick p m r rs Check s = do {
     x \<leftarrow> ms_rpc s r;
     Some (place p m (r # rs) (if mr_done x \<noteq> 0 then Free None else Gate) s) }"
| "tick p m r rs Mux s = do {
     x \<leftarrow> ms_rpc s r;
     (q, s) \<leftarrow> mountmux m r s;
     case q of
       Some q \<Rightarrow> if q \<noteq> r then Some (place p m (r # rs) (Waking q) (setmnt m (\<lambda>c. c\<lparr>m_lock := True\<rparr>) s))
                else Some (place p m (r # rs) Read s)
     | None \<Rightarrow> Some (place p m (r # rs) Read s) }"
| "tick p m r rs (Waking q) s = do {
     (_, s) \<leftarrow> wakeup q s;
     Some (place p m (r # rs) Read (setmnt m (\<lambda>c. c\<lparr>m_lock := False\<rparr>) s)) }"
| "tick p m r rs Ungate s = map_option (place p m (r # rs) (Free None)) (mntgate m s)"
| "tick p m r rs (Fail e) s =
     map_option (place p m (r # rs) (Fail2 e)) (if m_rip (ms_mnt s m) = Some p then mntgate m s else Some s)"
| "tick p m r rs (Fail2 e) s = Some (place p m (r # rs) (Free (Some e)) s)"
| "tick p m r rs (Free e) s = flush_step p m r rs (Free e) s"
| "tick p m r rs (Qrm e) s = flush_step p m r rs (Qrm e) s"
| "tick p m r rs (Drop e) s = flush_step p m r rs (Drop e) s"
| "tick p m r rs (Return e) s =
     map_option (\<lambda>s. s\<lparr>ms_proc := (ms_proc s)(p := Out)\<rparr>) (mntfree (last (r # rs)) s)"
| "tick p m r rs a s = None"

text \<open>The acts that take the lock of the connection.\<close>

fun locks :: "act \<Rightarrow> bool" where
  "locks Enqueue = True" | "locks Gate = True" | "locks Mux = True" | "locks Ungate = True" | "locks (Fail e) = True"
| "locks (Qrm e) = True" | "locks a = False"

subsection \<open>Events\<close>

text \<open>
  What can happen next: a process calls the driver (with the outcome of its allocations and the
  address of a new structure), takes a step of its own, has its message written (or not: then it
  may have reached the server all the same), reads a reply or fails to, is interrupted by a note,
  or allocates a flush after an interrupted call.
\<close>

datatype event =
    Start pid mntp fcall bool "mem option" rpcp
  | Tick pid
  | Written pid
  | WriteFails pid mem bool
  | Reply pid fcall chain
  | ReadFails pid mem
  | Note pid
  | Flush pid bool "mem option" rpcp mem

text \<open>The messages still owed after the reply \<open>f\<close>: a flush that is answered settles the old message too.\<close>

definition settled :: "fcall \<Rightarrow> fcall list \<Rightarrow> fcall list" where
  "settled f xs = filter (\<lambda>x. fc_tag x \<noteq> fc_tag f \<and>
     \<not> (fc_type f = Rflush \<and> list_ex (\<lambda>y. fc_tag y = fc_tag f \<and> fc_oldtag y = fc_tag x) xs)) xs"

definition sends :: "mntp \<Rightarrow> mem \<Rightarrow> rpcp \<Rightarrow> mstate \<Rightarrow> mstate" where
  "sends m d r s = (case ms_rpc s r of
       None \<Rightarrow> s
     | Some x \<Rightarrow> if d = [] then s else s\<lparr>ms_owed := (ms_owed s)(m := ms_owed s m @ [mr_request x])\<rparr>)"

fun happens :: "event \<Rightarrow> mstate \<Rightarrow> mstate option" where
  "happens (Start p m f hdr buf a) s =
     (if ms_proc s p \<noteq> Out then None
      else do {
        (r, s) \<leftarrow> mntralloc hdr buf a (m_msize (ms_mnt s m)) s;
        case r of
          None \<Rightarrow> Some s
        | Some r \<Rightarrow>
            map_option (place p m [r] Enqueue)
              (setrpc r (\<lambda>x. x\<lparr>mr_request := f\<lparr>fc_tag := fc_tag (mr_request x)\<rparr>,
                 mr_reply := (mr_reply x)\<lparr>fc_tag := 0, fc_type := Tmax\<rparr>\<rparr>) s) })"
| "happens (Tick p) s =
     (case ms_proc s p of
        In m (r # rs) Mux \<Rightarrow> do {
          x \<leftarrow> ms_rpc s r;
          s' \<leftarrow> tick p m r rs Mux s;
          Some (s'\<lparr>ms_owed := (ms_owed s')(m := settled (mr_reply x) (ms_owed s' m))\<rparr>) }
      | In m (r # rs) Read \<Rightarrow> do {
          x \<leftarrow> ms_rpc s r;
          if mr_done x \<noteq> 0 then Some (place p m (r # rs) Ungate s) else None }
      | In m (r # rs) a \<Rightarrow> tick p m r rs a s
      | _ \<Rightarrow> None)"
| "happens (Written p) s =
     (case ms_proc s p of
        In m (r # rs) Send \<Rightarrow> do {
          (d, s) \<leftarrow> transmit m r s;
          Some (place p m (r # rs) Gate (sends m d r s)) }
      | _ \<Rightarrow> None)"
| "happens (WriteFails p e sent) s =
     (case ms_proc s p of
        In m (r # rs) Send \<Rightarrow> do {
          (d, s) \<leftarrow> transmit m r s;
          Some (place p m (r # rs) (Fail e) (if sent then sends m d r s else s)) }
      | _ \<Rightarrow> None)"
| "happens (Reply p f c) s =
     (case ms_proc s p of
        In m (r # rs) Read \<Rightarrow> do {
          x \<leftarrow> ms_rpc s r;
          if mr_done x \<noteq> 0 then None
          else map_option (place p m (r # rs) Mux) (setrpc r (\<lambda>x. x\<lparr>mr_reply := f, mr_b := c\<rparr>) s) }
      | _ \<Rightarrow> None)"
| "happens (ReadFails p e) s =
     (case ms_proc s p of
        In m (r # rs) Read \<Rightarrow> do {
          x \<leftarrow> ms_rpc s r;
          if mr_done x \<noteq> 0 then None
          else map_option (place p m (r # rs) (Fail e))
            (setrpc r (\<lambda>x. x\<lparr>mr_reply := (mr_reply x)\<lparr>fc_type := 0, fc_tag := 0\<rparr>\<rparr>) s) }
      | _ \<Rightarrow> None)"
| "happens (Note p) s =
     (case ms_proc s p of
        In m (r # rs) Sleep \<Rightarrow> map_option (place p m (r # rs) (Fail Eintr)) (setrpc r (\<lambda>x. x\<lparr>mr_r := None\<rparr>) s)
      | In m (r # rs) Doze \<Rightarrow> Some (place p m (r # rs) (Fail Eintr) s)
      | In m (r # rs) Check \<Rightarrow> Some (place p m (r # rs) (Fail Eintr) s)
      | _ \<Rightarrow> None)"
| "happens (Flush p hdr buf a e) s =
     (case ms_proc s p of
        In m (r # rs) (Fail2 _) \<Rightarrow> do {
          (fr, s) \<leftarrow> mntflushalloc hdr buf a r (m_msize (ms_mnt s m)) s;
          case fr of
            None \<Rightarrow> Some (place p m (r # rs) (Return (Some e)) s)
          | Some fr \<Rightarrow> Some (place p m (fr # r # rs) Enqueue s) }
      | _ \<Rightarrow> None)"

end
