(* ===== verification/MntSys.thy ===== *)
theory MntSys
  imports Mnt
begin

text \<open>
  The states that processes in the mount driver reach.  The steps of \<open>Mnt\<close> are first brought
  into an explicit form, a step relation whose rules show every update; invariants are then shown
  rule by rule.
\<close>

subsection \<open>Runs\<close>

text \<open>
  What may go wrong around the driver: the device raises errors, memory runs out, and the server
  sends replies that answer nothing.
\<close>

datatype mfault = DevError | NoMem | Rude

definition answers :: "fcall \<Rightarrow> fcall \<Rightarrow> bool" where
  "answers x f \<longleftrightarrow> fc_tag f = fc_tag x \<and> (fc_type f = fc_type x + 1 \<or> fc_type f = Rerror)"

fun memory :: "mfault set \<Rightarrow> bool \<Rightarrow> mem option \<Rightarrow> rpcp \<Rightarrow> mntp \<Rightarrow> mstate \<Rightarrow> bool" where
  "memory F hdr buf a m s \<longleftrightarrow> ms_rpc s a = None \<and> (NoMem \<in> F \<or> hdr \<and> buf \<noteq> None) \<and>
     (\<forall>d. buf = Some d \<longrightarrow> length d = m_msize (ms_mnt s m))"

fun allowed :: "mfault set \<Rightarrow> event \<Rightarrow> mstate \<Rightarrow> bool" where
  "allowed F (Start p m f hdr buf a) s \<longleftrightarrow> memory F hdr buf a m s \<and> fc_type f \<noteq> Tflush"
| "allowed F (Tick p) s \<longleftrightarrow> (case ms_proc s p of
      Out \<Rightarrow> False
    | In m rs a \<Rightarrow> (locks a \<longrightarrow> \<not> m_lock (ms_mnt s m)) \<and> a \<noteq> Fail2 Eintr)"
| "allowed F (WriteFails p e sent) s \<longleftrightarrow> e = Eintr \<or> DevError \<in> F"
| "allowed F (Reply p f c) s \<longleftrightarrow> (case ms_proc s p of
      Out \<Rightarrow> False
    | In m rs a \<Rightarrow> Rude \<in> F \<or> list_ex (\<lambda>x. answers x f) (ms_owed s m))"
| "allowed F (ReadFails p e) s \<longleftrightarrow> e = Eintr \<or> DevError \<in> F"
| "allowed F (Flush p hdr buf a e) s \<longleftrightarrow> (case ms_proc s p of
      Out \<Rightarrow> False
    | In m rs b \<Rightarrow> b = Fail2 Eintr \<and> memory F hdr buf a m s)"
| "allowed F e s \<longleftrightarrow> True"

definition mstart :: "(mntp \<Rightarrow> nat) \<Rightarrow> mstate" where
  "mstart sz = \<lparr>ms_rpc = Map.empty, ms_mnt = (\<lambda>m. \<lparr>m_queue = [], m_rip = None, m_lock = False, m_msize = sz m\<rparr>),
     ms_rpcfree = [], ms_nrpcfree = 0, ms_nrpcused = 0, ms_tagmask = mntreset, ms_proc = (\<lambda>_. Out), ms_owed = (\<lambda>_. [])\<rparr>"

inductive mreach :: "mfault set \<Rightarrow> mstate \<Rightarrow> bool" for F :: "mfault set" where
  mreach_start: "mreach F (mstart sz)"
| mreach_step: "mreach F s \<Longrightarrow> allowed F e s \<Longrightarrow> happens e s = Some s' \<Longrightarrow> mreach F s'"

text \<open>Running a list of events, for examples.\<close>

fun mrun :: "mfault set \<Rightarrow> event list \<Rightarrow> mstate \<Rightarrow> mstate option" where
  "mrun F [] s = Some s"
| "mrun F (e # es) s = (if allowed F e s then happens e s \<bind> mrun F es else None)"

lemma mrun_reach: "mreach F s \<Longrightarrow> mrun F es s = Some s' \<Longrightarrow> mreach F s'"
proof (induction es arbitrary: s)
  case (Cons e es)
  then obtain s1 where "allowed F e s" "happens e s = Some s1" "mrun F es s1 = Some s'"
    by (auto simp: bind_eq_Some_conv split: if_splits)
  with Cons.prems(1) Cons.IH [of s1] show ?case by (blast intro: mreach_step)
qed simp

subsection \<open>The steps, spelled out\<close>

abbreviation (input) upd_mnt :: "mntp \<Rightarrow> (mnt \<Rightarrow> mnt) \<Rightarrow> mstate \<Rightarrow> mntp \<Rightarrow> mnt" where
  "upd_mnt m f s \<equiv> (ms_mnt s)(m := f (ms_mnt s m))"

definition sleeper :: "mstate \<Rightarrow> rpcp \<Rightarrow> pid option" where
  "sleeper s q = (case ms_rpc s q of None \<Rightarrow> None | Some x \<Rightarrow> mr_r x)"

text \<open>A structure taken from the allocator or the pool, not yet filled in: its address and tag.\<close>

inductive fetched :: "mstate \<Rightarrow> rpcp \<Rightarrow> ushort \<Rightarrow> mstate \<Rightarrow> bool" where
  fetch_new: "ms_rpcfree s = [] \<Longrightarrow> ms_rpc s a = None \<Longrightarrow> alloctag (ms_tagmask s) = Some (t, mk) \<Longrightarrow>
    fetched s a (of_nat t) (s\<lparr>ms_tagmask := mk, ms_nrpcused := ms_nrpcused s + 1\<rparr>)"
| fetch_pool: "ms_rpcfree s = a # list \<Longrightarrow> ms_rpc s a = Some x \<Longrightarrow>
    fetched s a (fc_tag (mr_request x)) (s\<lparr>ms_rpcfree := list, ms_nrpcfree := ms_nrpcfree s - 1, ms_nrpcused := ms_nrpcused s + 1\<rparr>)"

text \<open>A structure that is given back: freed, or kept in the pool.\<close>

inductive released :: "mstate \<Rightarrow> rpcp \<Rightarrow> mstate \<Rightarrow> bool" where
  release_free: "ms_rpc s r = Some x \<Longrightarrow> \<not> linked r x s \<Longrightarrow>
    mk = (if mr_done x \<noteq> 2 then freetag (ms_tagmask s) (unat (fc_tag (mr_request x))) else ms_tagmask s) \<Longrightarrow>
    released s r (s\<lparr>ms_tagmask := mk, ms_rpc := (ms_rpc s)(r := None), ms_nrpcused := ms_nrpcused s - 1\<rparr>)"
| release_pool: "ms_rpc s r = Some x \<Longrightarrow> \<not> linked r x s \<Longrightarrow>
    (if mr_done x = 2 then \<exists>u. alloctag (ms_tagmask s) = Some (u, mk) \<and> t = of_nat u
     else t = fc_tag (mr_request x) \<and> mk = ms_tagmask s) \<Longrightarrow>
    released s r (s\<lparr>ms_tagmask := mk, ms_rpc := (ms_rpc s)(r \<mapsto> x\<lparr>mr_request := (mr_request x)\<lparr>fc_tag := t\<rparr>\<rparr>),
      ms_rpcfree := r # ms_rpcfree s, ms_nrpcfree := ms_nrpcfree s + 1, ms_nrpcused := ms_nrpcused s - 1\<rparr>)"

text \<open>The process asleep on \<open>q\<close> is made to run, if there is one.\<close>

inductive woken :: "mstate \<Rightarrow> rpcp \<Rightarrow> mstate \<Rightarrow> bool" where
  woken_none: "ms_rpc s q = Some x \<Longrightarrow> mr_r x = None \<Longrightarrow> woken s q s"
| woken_some: "ms_rpc s q = Some x \<Longrightarrow> mr_r x = Some p \<Longrightarrow>
    pr = rouse (ms_proc s p) \<Longrightarrow>
    woken s q (s\<lparr>ms_rpc := (ms_rpc s)(q \<mapsto> x\<lparr>mr_r := None\<rparr>), ms_proc := (ms_proc s)(p := pr)\<rparr>)"

text \<open>The gate is open: nobody reads, and the first sleeper of the queue that waits for a reply is made to run.\<close>

inductive gated :: "mntp \<Rightarrow> mstate \<Rightarrow> mstate \<Rightarrow> bool" where
  gated_none: "(\<And>q. q \<in> set (m_queue (ms_mnt s m)) \<Longrightarrow> \<exists>x. ms_rpc s q = Some x \<and> (mr_done x = 0 \<longrightarrow> mr_r x = None)) \<Longrightarrow>
    gated m s (s\<lparr>ms_mnt := upd_mnt m (\<lambda>c. c\<lparr>m_rip := None\<rparr>) s\<rparr>)"
| gated_some: "q \<in> set (m_queue (ms_mnt s m)) \<Longrightarrow> ms_rpc s q = Some x \<Longrightarrow> mr_done x = 0 \<Longrightarrow> mr_r x = Some p \<Longrightarrow>
    pr = rouse (ms_proc s p) \<Longrightarrow>
    gated m s (s\<lparr>ms_mnt := upd_mnt m (\<lambda>c. c\<lparr>m_rip := None\<rparr>) s, ms_rpc := (ms_rpc s)(q \<mapsto> x\<lparr>mr_r := None\<rparr>),
      ms_proc := (ms_proc s)(p := pr)\<rparr>)"

inductive mstep :: "mfault set \<Rightarrow> mstate \<Rightarrow> mstate \<Rightarrow> bool" for F :: "mfault set" where
  m_start: "ms_proc s p = Out \<Longrightarrow> fetched s r t s1 \<Longrightarrow> fc_tag (mr_request x) = t \<Longrightarrow> fc_type (mr_request x) \<noteq> Tflush \<Longrightarrow>
    mr_done x = 0 \<Longrightarrow> mr_r x = sleeper s r \<Longrightarrow>
    mstep F s (place p m [r] Enqueue (s1\<lparr>ms_rpc := (ms_rpc s1)(r \<mapsto> x)\<rparr>))"
| m_flush: "ms_proc s p = In m (q # rs) (Fail2 Eintr) \<Longrightarrow> fetched s r t s1 \<Longrightarrow> fc_tag (mr_request x) = t \<Longrightarrow>
    fc_type (mr_request x) = Tflush \<Longrightarrow>
    mr_done x = 0 \<Longrightarrow> mr_r x = sleeper s r \<Longrightarrow>
    mstep F s (place p m (r # q # rs) Enqueue (s1\<lparr>ms_rpc := (ms_rpc s1)(r \<mapsto> x)\<rparr>))"
| m_enqueue: "ms_proc s p = In m (r # rs) Enqueue \<Longrightarrow> \<not> m_lock (ms_mnt s m) \<Longrightarrow> ms_rpc s r = Some x \<Longrightarrow>
    mstep F s (place p m (r # rs) Send (s\<lparr>ms_rpc := (ms_rpc s)(r \<mapsto> x\<lparr>mr_m := Some m\<rparr>),
      ms_mnt := upd_mnt m (\<lambda>c. c\<lparr>m_queue := r # m_queue c\<rparr>) s\<rparr>))"
| m_send: "ms_proc s p = In m (r # rs) Send \<Longrightarrow> ms_rpc s r = Some x \<Longrightarrow>
    ow = ms_owed s \<or> ow = (ms_owed s)(m := ms_owed s m @ [mr_request x]) \<Longrightarrow>
    a = Gate \<or> (\<exists>e. a = Fail e \<and> (e = Eintr \<or> DevError \<in> F)) \<Longrightarrow>
    mstep F s (place p m (r # rs) a (s\<lparr>ms_rpc := (ms_rpc s)(r \<mapsto> x\<lparr>mr_rpc := buf\<rparr>), ms_owed := ow\<rparr>))"
| m_gate: "ms_proc s p = In m (r # rs) Gate \<Longrightarrow> \<not> m_lock (ms_mnt s m) \<Longrightarrow> m_rip (ms_mnt s m) = None \<Longrightarrow>
    mstep F s (place p m (r # rs) Read (s\<lparr>ms_mnt := upd_mnt m (\<lambda>c. c\<lparr>m_rip := Some p\<rparr>) s\<rparr>))"
| m_busy: "ms_proc s p = In m (r # rs) Gate \<Longrightarrow> \<not> m_lock (ms_mnt s m) \<Longrightarrow> m_rip (ms_mnt s m) \<noteq> None \<Longrightarrow>
    mstep F s (place p m (r # rs) Doze s)"
| m_attn: "ms_proc s p = In m (r # rs) Doze \<Longrightarrow> mstep F s (place p m (r # rs) Check s)"
| m_sleep: "ms_proc s p = In m (r # rs) Doze \<Longrightarrow> ms_rpc s r = Some x \<Longrightarrow> mr_done x = 0 \<Longrightarrow>
    mr_m x = Some m' \<Longrightarrow> m_rip (ms_mnt s m') \<noteq> None \<Longrightarrow>
    mstep F s (place p m (r # rs) Sleep (s\<lparr>ms_rpc := (ms_rpc s)(r \<mapsto> x\<lparr>mr_r := Some p\<rparr>)\<rparr>))"
| m_check: "ms_proc s p = In m (r # rs) Check \<Longrightarrow> ms_rpc s r = Some x \<Longrightarrow>
    mstep F s (place p m (r # rs) (if mr_done x \<noteq> 0 then Free None else Gate) s)"
| m_read: "ms_proc s p = In m (r # rs) Read \<Longrightarrow> ms_rpc s r = Some x \<Longrightarrow> mr_done x \<noteq> 0 \<Longrightarrow>
    mstep F s (place p m (r # rs) Ungate s)"
| m_reply: "ms_proc s p = In m (r # rs) Read \<Longrightarrow> ms_rpc s r = Some x \<Longrightarrow> mr_done x = 0 \<Longrightarrow>
    Rude \<in> F \<or> (\<exists>y \<in> set (ms_owed s m). answers y f) \<Longrightarrow>
    mstep F s (place p m (r # rs) Mux (s\<lparr>ms_rpc := (ms_rpc s)(r \<mapsto> x\<lparr>mr_reply := f, mr_b := c\<rparr>)\<rparr>))"
| m_readfail: "ms_proc s p = In m (r # rs) Read \<Longrightarrow> ms_rpc s r = Some x \<Longrightarrow> mr_done x = 0 \<Longrightarrow>
    e = Eintr \<or> DevError \<in> F \<Longrightarrow>
    mstep F s (place p m (r # rs) (Fail e) (s\<lparr>ms_rpc := (ms_rpc s)(r \<mapsto> x\<lparr>mr_reply := f\<rparr>)\<rparr>))"
| m_match: "ms_proc s p = In m (r # rs) Mux \<Longrightarrow> \<not> m_lock (ms_mnt s m) \<Longrightarrow> ms_rpc s r = Some x \<Longrightarrow>
    q \<in> set (m_queue (ms_mnt s m)) \<Longrightarrow> ms_rpc s q = Some y \<Longrightarrow> fc_tag (mr_request y) = fc_tag (mr_reply x) \<Longrightarrow> q \<noteq> r \<Longrightarrow>
    mstep F s (place p m (r # rs) (Waking q) (s\<lparr>
      ms_mnt := upd_mnt m (\<lambda>c. c\<lparr>m_queue := remove1 q (m_queue c), m_lock := True\<rparr>) s,
      ms_rpc := (ms_rpc s)(q \<mapsto> y\<lparr>mr_reply := mr_reply x, mr_b := mr_b x, mr_done := 1\<rparr>, r \<mapsto> x\<lparr>mr_b := []\<rparr>),
      ms_owed := (ms_owed s)(m := settled (mr_reply x) (ms_owed s m))\<rparr>))"
| m_own: "ms_proc s p = In m (r # rs) Mux \<Longrightarrow> \<not> m_lock (ms_mnt s m) \<Longrightarrow> ms_rpc s r = Some x \<Longrightarrow>
    r \<in> set (m_queue (ms_mnt s m)) \<Longrightarrow> fc_tag (mr_request x) = fc_tag (mr_reply x) \<Longrightarrow>
    mstep F s (place p m (r # rs) Read (s\<lparr>
      ms_mnt := upd_mnt m (\<lambda>c. c\<lparr>m_queue := remove1 r (m_queue c)\<rparr>) s,
      ms_rpc := (ms_rpc s)(r \<mapsto> x\<lparr>mr_done := 1\<rparr>),
      ms_owed := (ms_owed s)(m := settled (mr_reply x) (ms_owed s m))\<rparr>))"
| m_stale: "ms_proc s p = In m (r # rs) Mux \<Longrightarrow> \<not> m_lock (ms_mnt s m) \<Longrightarrow> ms_rpc s r = Some x \<Longrightarrow>
    (\<And>q. q \<in> set (m_queue (ms_mnt s m)) \<Longrightarrow> \<exists>y. ms_rpc s q = Some y \<and> fc_tag (mr_request y) \<noteq> fc_tag (mr_reply x)) \<Longrightarrow>
    mk = ms_tagmask s \<or> mk = freetag (ms_tagmask s) (unat (fc_tag (mr_reply x))) \<Longrightarrow>
    mstep F s (place p m (r # rs) Read (s\<lparr>ms_tagmask := mk,
      ms_owed := (ms_owed s)(m := settled (mr_reply x) (ms_owed s m))\<rparr>))"
| m_waking: "ms_proc s p = In m (r # rs) (Waking q) \<Longrightarrow> woken s q s1 \<Longrightarrow>
    mstep F s (place p m (r # rs) Read (s1\<lparr>ms_mnt := upd_mnt m (\<lambda>c. c\<lparr>m_lock := False\<rparr>) s1\<rparr>))"
| m_ungate: "ms_proc s p = In m (r # rs) Ungate \<Longrightarrow> \<not> m_lock (ms_mnt s m) \<Longrightarrow> gated m s s1 \<Longrightarrow>
    mstep F s (place p m (r # rs) (Free None) s1)"
| m_failgate: "ms_proc s p = In m (r # rs) (Fail e) \<Longrightarrow> \<not> m_lock (ms_mnt s m) \<Longrightarrow> m_rip (ms_mnt s m) = Some p \<Longrightarrow>
    gated m s s1 \<Longrightarrow> mstep F s (place p m (r # rs) (Fail2 e) s1)"
| m_fail: "ms_proc s p = In m (r # rs) (Fail e) \<Longrightarrow> m_rip (ms_mnt s m) \<noteq> Some p \<Longrightarrow> mstep F s (place p m (r # rs) (Fail2 e) s)"
| m_fail2: "ms_proc s p = In m (r # rs) (Fail2 e) \<Longrightarrow> e \<noteq> Eintr \<Longrightarrow> mstep F s (place p m (r # rs) (Free (Some e)) s)"
| m_undone: "ms_proc s p = In m (r # rs) (Free e) \<Longrightarrow> ms_rpc s r = Some x \<Longrightarrow> mr_done x = 0 \<Longrightarrow>
    mstep F s (place p m (r # rs) (Qrm e) (s\<lparr>ms_rpc := (ms_rpc s)(r \<mapsto> x\<lparr>mr_reply := (mr_reply x)\<lparr>fc_type := Rflush\<rparr>\<rparr>)\<rparr>))"
| m_done: "ms_proc s p = In m (r # rs) (Free e) \<Longrightarrow> ms_rpc s r = Some x \<Longrightarrow> mr_done x \<noteq> 0 \<Longrightarrow>
    mstep F s (place p m (r # rs) (Drop e) s)"
| m_qrm: "ms_proc s p = In m (r # rs) (Qrm e) \<Longrightarrow> \<not> m_lock (ms_mnt s m) \<Longrightarrow> ms_rpc s r = Some x \<Longrightarrow>
    mstep F s (place p m (r # rs) (Drop e) (s\<lparr>ms_rpc := (ms_rpc s)(r \<mapsto> x\<lparr>mr_done := 2\<rparr>),
      ms_mnt := upd_mnt m (\<lambda>c. c\<lparr>m_queue := remove1 r (m_queue c)\<rparr>) s\<rparr>))"
| m_drop: "ms_proc s p = In m (r # q # rs) (Drop e) \<Longrightarrow> released s r s1 \<Longrightarrow> mstep F s (place p m (q # rs) (Free e) s1)"
| m_last: "ms_proc s p = In m [r] (Drop e) \<Longrightarrow> mstep F s (place p m [r] (Return e) s)"
| m_return: "ms_proc s p = In m rs (Return e) \<Longrightarrow> rs \<noteq> [] \<Longrightarrow> released s (last rs) s1 \<Longrightarrow>
    mstep F s (s1\<lparr>ms_proc := (ms_proc s1)(p := Out)\<rparr>)"
| m_note: "ms_proc s p = In m (r # rs) a \<Longrightarrow> a = Doze \<or> a = Check \<Longrightarrow> mstep F s (place p m (r # rs) (Fail Eintr) s)"
| m_notesleep: "ms_proc s p = In m (r # rs) Sleep \<Longrightarrow> ms_rpc s r = Some x \<Longrightarrow>
    mstep F s (place p m (r # rs) (Fail Eintr) (s\<lparr>ms_rpc := (ms_rpc s)(r \<mapsto> x\<lparr>mr_r := None\<rparr>)\<rparr>))"

lemma mntralloc_fetched:
  assumes "mntralloc hdr buf a n s = Some (Some r, s')" "ms_rpc s a = None"
  shows "\<exists>s1 x. fetched s r (fc_tag (mr_request x)) s1 \<and> s' = s1\<lparr>ms_rpc := (ms_rpc s1)(r \<mapsto> x)\<rparr> \<and> mr_done x = 0 \<and>
    mr_r x = sleeper s r"
proof (cases "ms_rpcfree s")
  case Nil
  with assms obtain d t mk where t: "buf = Some d" "alloctag (ms_tagmask s) = Some (t, mk)"
    by (auto simp: mntralloc_def bind_eq_Some_conv split: if_splits option.splits)
  have "fetched s a (of_nat t) (s\<lparr>ms_tagmask := mk, ms_nrpcused := ms_nrpcused s + 1\<rparr>)"
    using Nil assms(2) t(2) by (rule fetch_new)
  then show ?thesis using assms Nil t
    by (intro exI [of _ "s\<lparr>ms_tagmask := mk, ms_nrpcused := ms_nrpcused s + 1\<rparr>"]
        exI [of _ "\<lparr>mr_request = zero_fcall\<lparr>fc_tag := of_nat t\<rparr>, mr_reply = zero_fcall, mr_m = None,
          mr_r = None, mr_rpc = d, mr_b = [], mr_done = 0\<rparr>"])
      (auto simp: mntralloc_def setrpc_def sleeper_def split: if_splits)
next
  case (Cons b list)
  with assms obtain x where x: "ms_rpc s b = Some x" "r = b"
    by (auto simp: mntralloc_def bind_eq_Some_conv setrpc_def Let_def split: if_splits option.splits)
  let ?s1 = "s\<lparr>ms_rpcfree := list, ms_nrpcfree := ms_nrpcfree s - 1, ms_nrpcused := ms_nrpcused s + 1\<rparr>"
  let ?x = "if length (mr_rpc x) < n then x\<lparr>mr_rpc := the buf, mr_done := 0, mr_b := []\<rparr> else x\<lparr>mr_done := 0, mr_b := []\<rparr>"
  have "fetched s b (fc_tag (mr_request x)) ?s1" using Cons x(1) by (rule fetch_pool)
  then show ?thesis using assms Cons x
    by (intro exI [of _ ?s1] exI [of _ ?x])
      (auto simp: mntralloc_def setrpc_def sleeper_def bind_eq_Some_conv Let_def split: if_splits option.splits)
qed

lemma mntralloc_memory:
  "memory F hdr buf a m s \<Longrightarrow> NoMem \<notin> F \<Longrightarrow> mntralloc hdr buf a n s = Some (None, s') \<Longrightarrow> False"
  by (auto simp: mntralloc_def bind_eq_Some_conv setrpc_def Let_def split: if_splits option.splits list.splits)

lemma mntfree_released: "mntfree r s = Some s' \<Longrightarrow> released s r s'"
proof -
  assume a: "mntfree r s = Some s'"
  then obtain x where x: "ms_rpc s r = Some x" "\<not> linked r x s"
    by (auto simp: mntfree_def bind_eq_Some_conv split: if_splits)
  show ?thesis
  proof (cases "ms_nrpcfree s \<ge> 10")
    case True
    then have "s' = s\<lparr>ms_tagmask := (if mr_done x \<noteq> 2 then freetag (ms_tagmask s) (unat (fc_tag (mr_request x))) else ms_tagmask s),
        ms_rpc := (ms_rpc s)(r := None), ms_nrpcused := ms_nrpcused s - 1\<rparr>"
      using a x by (simp add: mntfree_def)
    then show ?thesis using release_free [OF x refl] by simp
  next
    case False
    then obtain t mk where "s' = s\<lparr>ms_tagmask := mk, ms_rpc := (ms_rpc s)(r \<mapsto> x\<lparr>mr_request := (mr_request x)\<lparr>fc_tag := t\<rparr>\<rparr>),
        ms_rpcfree := r # ms_rpcfree s, ms_nrpcfree := ms_nrpcfree s + 1, ms_nrpcused := ms_nrpcused s - 1\<rparr>"
        "if mr_done x = 2 then \<exists>u. alloctag (ms_tagmask s) = Some (u, mk) \<and> t = of_nat u
         else t = fc_tag (mr_request x) \<and> mk = ms_tagmask s"
      using a x by (auto simp: mntfree_def bind_eq_Some_conv split: if_splits)
    then show ?thesis using release_pool [OF x, of mk t] by simp
  qed
qed

lemma wakeup_woken: "wakeup q s = Some (p, s') \<Longrightarrow> woken s q s' \<and> (p = None \<longrightarrow> s' = s)"
  by (auto simp: wakeup_def bind_eq_Some_conv split: option.splits intro: woken.intros)

lemma wakeup_elim:
  assumes "wakeup q s = Some (p, s')"
  obtains x where "ms_rpc s q = Some x" "mr_r x = None" "p = None" "s' = s"
  | x p' where "ms_rpc s q = Some x" "mr_r x = Some p'" "p = Some p'"
      "s' = s\<lparr>ms_rpc := (ms_rpc s)(q \<mapsto> x\<lparr>mr_r := None\<rparr>),
        ms_proc := (ms_proc s)(p' := rouse (ms_proc s p'))\<rparr>"
  using assms by (auto simp: wakeup_def bind_eq_Some_conv split: option.splits)

text \<open>What the loop of \<open>mntgate\<close> comes to.\<close>

lemma gate_loop_cases:
  "gate_loop l s = Some s' \<Longrightarrow>
    s' = s \<and> (\<forall>q \<in> set l. \<exists>x. ms_rpc s q = Some x \<and> (mr_done x = 0 \<longrightarrow> mr_r x = None)) \<or>
    (\<exists>q \<in> set l. \<exists>x p. ms_rpc s q = Some x \<and> mr_done x = 0 \<and> mr_r x = Some p \<and>
      s' = s\<lparr>ms_rpc := (ms_rpc s)(q \<mapsto> x\<lparr>mr_r := None\<rparr>),
        ms_proc := (ms_proc s)(p := rouse (ms_proc s p))\<rparr>)"
proof (induction l)
  case (Cons q l)
  then obtain x where x: "ms_rpc s q = Some x" by (auto simp: bind_eq_Some_conv)
  show ?case
  proof (cases "mr_done x = 0")
    case False
    then have "gate_loop l s = Some s'" using Cons.prems x by simp
    from Cons.IH [OF this] show ?thesis using x False by auto
  next
    case True
    then obtain p s1 where w: "wakeup q s = Some (p, s1)" "(if p \<noteq> None then Some s1 else gate_loop l s1) = Some s'"
      using Cons.prems x by (auto simp: bind_eq_Some_conv)
    from w(1) show ?thesis
    proof (cases rule: wakeup_elim)
      case 1
      then have "gate_loop l s = Some s'" using w(2) by simp
      from Cons.IH [OF this] show ?thesis using 1 x by auto
    next
      case (2 y p')
      then have "s' = s1" "y = x" using w(2) x by simp_all
      then have c: "ms_rpc s q = Some x \<and> mr_done x = 0 \<and> mr_r x = Some p' \<and>
          s' = s\<lparr>ms_rpc := (ms_rpc s)(q \<mapsto> x\<lparr>mr_r := None\<rparr>), ms_proc := (ms_proc s)(p' := rouse (ms_proc s p'))\<rparr>"
        using 2 True by simp
      show ?thesis by (rule disjI2, rule bexI [of _ q], rule exI, rule exI, rule c) simp
    qed
  qed
qed simp

lemma mntgate_gated:
  assumes "mntgate m s = Some s'" shows "gated m s s'"
proof -
  let ?s = "setmnt m (\<lambda>c. c\<lparr>m_rip := None\<rparr>) s"
  have f: "ms_rpc ?s = ms_rpc s" "ms_proc ?s = ms_proc s" "?s = s\<lparr>ms_mnt := upd_mnt m (\<lambda>c. c\<lparr>m_rip := None\<rparr>) s\<rparr>"
    by (simp_all add: setmnt_def)
  from gate_loop_cases [OF assms [unfolded mntgate_def]] show ?thesis
  proof (elim disjE bexE exE conjE)
    assume "s' = ?s" "\<forall>q \<in> set (m_queue (ms_mnt s m)). \<exists>x. ms_rpc ?s q = Some x \<and> (mr_done x = 0 \<longrightarrow> mr_r x = None)"
    then show ?thesis unfolding f(1,3) using gated_none [of s m] by simp
  next
    fix q x p assume "q \<in> set (m_queue (ms_mnt s m))" "ms_rpc ?s q = Some x" "mr_done x = 0" "mr_r x = Some p"
      "s' = ?s\<lparr>ms_rpc := (ms_rpc ?s)(q \<mapsto> x\<lparr>mr_r := None\<rparr>),
        ms_proc := (ms_proc ?s)(p := rouse (ms_proc ?s p))\<rparr>"
    then show ?thesis using gated_some [where q = q and s = s and m = m and x = x and p = p, OF _ _ _ _ refl] unfolding f by simp
  qed
qed

lemma find_tag_cases:
  "find_tag t l s = Some v \<Longrightarrow> case v of
      None \<Rightarrow> \<forall>q \<in> set l. \<exists>x. ms_rpc s q = Some x \<and> fc_tag (mr_request x) \<noteq> t
    | Some q \<Rightarrow> q \<in> set l \<and> (\<exists>x. ms_rpc s q = Some x \<and> fc_tag (mr_request x) = t)"
  by (induction l) (auto simp: bind_eq_Some_conv split: if_splits option.splits)

lemma map_place: "map_option (place p m rs a) v = Some s' \<longleftrightarrow> (\<exists>s1. v = Some s1 \<and> s' = place p m rs a s1)"
  by auto

lemma start_mstep:
  assumes "allowed F (Start p m f hdr buf a) s" "happens (Start p m f hdr buf a) s = Some s'" "NoMem \<notin> F"
  shows "mstep F s s'"
proof -
  have al: "memory F hdr buf a m s" "fc_type f \<noteq> Tflush" "ms_rpc s a = None" using assms(1) by simp_all
  have p: "ms_proc s p = Out" using assms(2) by (auto split: if_splits)
  obtain r s1 where r: "mntralloc hdr buf a (m_msize (ms_mnt s m)) s = Some (r, s1)"
    using assms(2) p by (auto simp: bind_eq_Some_conv)
  obtain q where q: "r = Some q" using mntralloc_memory [OF al(1) assms(3)] r by (cases r) auto
  obtain s2 x where x: "fetched s q (fc_tag (mr_request x)) s2" "s1 = s2\<lparr>ms_rpc := (ms_rpc s2)(q \<mapsto> x)\<rparr>" "mr_done x = 0"
      "mr_r x = sleeper s q"
    using mntralloc_fetched [OF r [unfolded q] al(3)] by blast
  let ?x = "x\<lparr>mr_request := f\<lparr>fc_tag := fc_tag (mr_request x)\<rparr>, mr_reply := (mr_reply x)\<lparr>fc_tag := 0, fc_type := Tmax\<rparr>\<rparr>"
  have "s' = place p m [q] Enqueue (s2\<lparr>ms_rpc := (ms_rpc s2)(q \<mapsto> ?x)\<rparr>)"
    using assms(2) p r q x(2) by (simp add: setrpc_def)
  then show ?thesis using m_start [OF p x(1), where m = m and x = ?x] x(3,4) al(2) by simp
qed

lemma flush_mstep:
  assumes "allowed F (Flush p hdr buf a e) s" "happens (Flush p hdr buf a e) s = Some s'" "NoMem \<notin> F"
  shows "mstep F s s'"
proof -
  obtain m r rs where p: "ms_proc s p = In m (r # rs) (Fail2 Eintr)" using assms(1,2)
    by (auto split: proc.splits list.splits act.splits)
  then have al: "memory F hdr buf a m s" "ms_rpc s a = None" using assms(1) by simp_all
  obtain v s1 where v: "mntflushalloc hdr buf a r (m_msize (ms_mnt s m)) s = Some (v, s1)"
    using assms(2) p by (auto simp: bind_eq_Some_conv)
  then obtain v' s2 where v': "mntralloc hdr buf a (m_msize (ms_mnt s m)) s = Some (v', s2)"
    by (auto simp: mntflushalloc_def bind_eq_Some_conv)
  obtain q where q: "v' = Some q" using mntralloc_memory [OF al(1) assms(3)] v' by (cases v') auto
  obtain s3 x where x: "fetched s q (fc_tag (mr_request x)) s3" "s2 = s3\<lparr>ms_rpc := (ms_rpc s3)(q \<mapsto> x)\<rparr>" "mr_done x = 0"
      "mr_r x = sleeper s q"
    using mntralloc_fetched [OF v' [unfolded q] al(2)] by blast
  obtain t where t: "v = Some q" "s1 = s3\<lparr>ms_rpc := (ms_rpc s3)(q \<mapsto>
      x\<lparr>mr_request := (mr_request x)\<lparr>fc_type := Tflush, fc_oldtag := t\<rparr>\<rparr>)\<rparr>"
    using v v' q x(2) by (auto simp: mntflushalloc_def setrpc_def bind_eq_Some_conv)
  then have "s' = place p m (q # r # rs) Enqueue s1" using assms(2) p v by simp
  then show ?thesis unfolding t(2) using m_flush [OF p x(1),
      where x = "x\<lparr>mr_request := (mr_request x)\<lparr>fc_type := Tflush, fc_oldtag := t\<rparr>\<rparr>"] x(3,4) by simp
qed

lemma mux_mstep:
  assumes "ms_proc s p = In m (r # rs) Mux" "\<not> m_lock (ms_mnt s m)" "happens (Tick p) s = Some s'"
  shows "mstep F s s'"
proof -
  obtain x where x: "ms_rpc s r = Some x" using assms(1,3) by (auto simp: bind_eq_Some_conv)
  obtain v where v: "find_tag (fc_tag (mr_reply x)) (m_queue (ms_mnt s m)) s = Some v"
    using assms(1,3) x by (auto simp: bind_eq_Some_conv mountmux_def)
  note c = find_tag_cases [OF v]
  show ?thesis
  proof (cases v)
    case None
    then have "s' = place p m (r # rs) Read (s\<lparr>ms_tagmask := (if tagallocd (ms_tagmask s) (unat (fc_tag (mr_reply x)))
          then freetag (ms_tagmask s) (unat (fc_tag (mr_reply x))) else ms_tagmask s),
        ms_owed := (ms_owed s)(m := settled (mr_reply x) (ms_owed s m))\<rparr>)"
      using assms(1,3) x v by (auto simp: mountmux_def place_def)
    then show ?thesis using m_stale [OF assms(1,2) x] c None by simp
  next
    case (Some q)
    then obtain y where y: "q \<in> set (m_queue (ms_mnt s m))" "ms_rpc s q = Some y" "fc_tag (mr_request y) = fc_tag (mr_reply x)"
      using c by auto
    show ?thesis
    proof (cases "q = r")
      case True
      then have "s' = place p m (r # rs) Read (s\<lparr>
          ms_mnt := upd_mnt m (\<lambda>c. c\<lparr>m_queue := remove1 r (m_queue c)\<rparr>) s,
          ms_rpc := (ms_rpc s)(r \<mapsto> x\<lparr>mr_done := 1\<rparr>),
          ms_owed := (ms_owed s)(m := settled (mr_reply x) (ms_owed s m))\<rparr>)"
        using assms(1,3) x v Some by (auto simp: mountmux_def setrpc_def setmnt_def place_def intro!: mstate.equality)
      then show ?thesis using m_own [OF assms(1,2) x] y x True by simp
    next
      case False
      then have "s' = place p m (r # rs) (Waking q) (s\<lparr>
          ms_mnt := upd_mnt m (\<lambda>c. c\<lparr>m_queue := remove1 q (m_queue c), m_lock := True\<rparr>) s,
          ms_rpc := (ms_rpc s)(q \<mapsto> y\<lparr>mr_reply := mr_reply x, mr_b := mr_b x, mr_done := 1\<rparr>, r \<mapsto> x\<lparr>mr_b := []\<rparr>),
          ms_owed := (ms_owed s)(m := settled (mr_reply x) (ms_owed s m))\<rparr>)"
        using assms(1,3) x v Some y(2) by (auto simp: mountmux_def setrpc_def setmnt_def place_def fun_upd_twist intro!: mstate.equality)
      then show ?thesis using m_match [OF assms(1,2) x y False] by simp
    qed
  qed
qed

lemma tick_mstep:
  assumes "ms_proc s p = In m (r # rs) a" "locks a \<longrightarrow> \<not> m_lock (ms_mnt s m)" "a \<noteq> Fail2 Eintr" "a \<noteq> Mux"
    "happens (Tick p) s = Some s'"
  shows "mstep F s s'"
  using assms(1-2,4-5)
proof (cases a)
  case Enqueue
  then obtain x where x: "ms_rpc s r = Some x" using assms by (auto simp: enqueue_def setrpc_def bind_eq_Some_conv map_place)
  then have "s' = place p m (r # rs) Send (s\<lparr>ms_rpc := (ms_rpc s)(r \<mapsto> x\<lparr>mr_m := Some m\<rparr>),
      ms_mnt := upd_mnt m (\<lambda>c. c\<lparr>m_queue := r # m_queue c\<rparr>) s\<rparr>)"
    using assms Enqueue by (simp add: enqueue_def setrpc_def setmnt_def)
  then show ?thesis using m_enqueue [of s p m r rs x F] assms Enqueue x by simp
next
  case Gate
  then show ?thesis using assms m_gate [of s p m r rs F] m_busy [of s p m r rs F] by (auto simp: setmnt_def split: if_splits)
next
  case Doze
  then obtain b where b: "rpcattn r s = Some b" using assms by (auto simp: bind_eq_Some_conv)
  then obtain x m' where x: "ms_rpc s r = Some x" "mr_m x = Some m'" "b \<longleftrightarrow> mr_done x \<noteq> 0 \<or> m_rip (ms_mnt s m') = None"
    by (auto simp: rpcattn_def bind_eq_Some_conv)
  show ?thesis
  proof (cases b)
    case True
    then show ?thesis using assms Doze b m_attn [of s p m r rs F] by simp
  next
    case False
    then have "s' = place p m (r # rs) Sleep (s\<lparr>ms_rpc := (ms_rpc s)(r \<mapsto> x\<lparr>mr_r := Some p\<rparr>)\<rparr>)"
      using assms Doze b x(1) by (simp add: setrpc_def)
    then show ?thesis using m_sleep [of s p m r rs x m' F] assms Doze x False by simp
  qed
next
  case Check
  then show ?thesis using assms m_check [of s p m r rs _ F] by (auto simp: bind_eq_Some_conv)
next
  case Read
  then show ?thesis using assms m_read [of s p m r rs _ F] by (auto simp: bind_eq_Some_conv split: if_splits)
next
  case (Waking q)
  then obtain v s1 where v: "wakeup q s = Some (v, s1)" "s' = place p m (r # rs) Read (setmnt m (\<lambda>c. c\<lparr>m_lock := False\<rparr>) s1)"
    using assms by (auto simp: bind_eq_Some_conv)
  then show ?thesis using m_waking [of s p m r rs q s1 F] wakeup_woken [OF v(1)] assms Waking by (simp add: setmnt_def)
next
  case Ungate
  then obtain s1 where "mntgate m s = Some s1" "s' = place p m (r # rs) (Free None) s1" using assms by auto
  then show ?thesis using m_ungate [of s p m r rs s1 F] mntgate_gated assms Ungate by simp
next
  case (Fail e)
  then show ?thesis using assms m_failgate [of s p m r rs e _ F] m_fail [of s p m r rs e F] mntgate_gated
    by (auto split: if_splits)
next
  case (Fail2 e)
  then show ?thesis using assms m_fail2 [of s p m r rs e F] by auto
next
  case (Free e)
  then obtain x where x: "ms_rpc s r = Some x" using assms by (auto simp: bind_eq_Some_conv)
  then show ?thesis using assms Free m_undone [of s p m r rs e x F] m_done [of s p m r rs e x F]
    by (auto simp: setrpc_def split: if_splits)
next
  case (Qrm e)
  then obtain x where x: "ms_rpc s r = Some x" using assms by (auto simp: mntqrm_def setrpc_def bind_eq_Some_conv)
  then have "s' = place p m (r # rs) (Drop e) (s\<lparr>ms_rpc := (ms_rpc s)(r \<mapsto> x\<lparr>mr_done := 2\<rparr>),
      ms_mnt := upd_mnt m (\<lambda>c. c\<lparr>m_queue := remove1 r (m_queue c)\<rparr>) s\<rparr>)"
    using assms Qrm by (simp add: mntqrm_def setrpc_def setmnt_def)
  then show ?thesis using m_qrm [of s p m r rs e x F] assms Qrm x by simp
next
  case (Drop e)
  then show ?thesis using assms m_drop [of s p m r _ _ e _ F] m_last [of s p m r e F] mntfree_released
    by (cases rs) auto
next
  case (Return e)
  then obtain s1 where "mntfree (last (r # rs)) s = Some s1" "s' = s1\<lparr>ms_proc := (ms_proc s1)(p := Out)\<rparr>"
    using assms by auto
  then show ?thesis using m_return [of s p m "r # rs" e s1 F] mntfree_released assms Return by simp
qed (use assms in auto)

lemma transmit_cases:
  "transmit m r s = Some (d, s1) \<Longrightarrow> \<exists>x b. ms_rpc s r = Some x \<and> s1 = s\<lparr>ms_rpc := (ms_rpc s)(r \<mapsto> x\<lparr>mr_rpc := b\<rparr>)\<rparr>"
  by (auto simp: transmit_def bind_eq_Some_conv split: if_splits)

lemma send_mstep:
  assumes "ms_proc s p = In m (r # rs) Send" "transmit m r s = Some (d, s1)"
    "a = Gate \<or> (\<exists>e. a = Fail e \<and> (e = Eintr \<or> DevError \<in> F))"
    "s2 = sends m d r s1 \<or> s2 = s1"
  shows "mstep F s (place p m (r # rs) a s2)"
proof -
  obtain x b where x: "ms_rpc s r = Some x" "s1 = s\<lparr>ms_rpc := (ms_rpc s)(r \<mapsto> x\<lparr>mr_rpc := b\<rparr>)\<rparr>"
    using transmit_cases [OF assms(2)] by blast
  then obtain ow where "s2 = s\<lparr>ms_rpc := (ms_rpc s)(r \<mapsto> x\<lparr>mr_rpc := b\<rparr>), ms_owed := ow\<rparr>"
      "ow = ms_owed s \<or> ow = (ms_owed s)(m := ms_owed s m @ [mr_request x])"
    using assms(4) that [of "ms_owed s"] that [of "(ms_owed s)(m := ms_owed s m @ [mr_request x])"]
    by (cases "d = []") (auto simp: sends_def)
  then show ?thesis using m_send [OF assms(1) x(1) _ assms(3)] by blast
qed

theorem happens_mstep:
  assumes "allowed F e s" "happens e s = Some s'" "NoMem \<notin> F"
  shows "mstep F s s'"
proof (cases e)
  case (Start p m f hdr buf a)
  then show ?thesis using assms start_mstep by blast
next
  case (Flush p hdr buf a e)
  then show ?thesis using assms flush_mstep by blast
next
  case (Tick p)
  then obtain m r rs a where p: "ms_proc s p = In m (r # rs) a" using assms(2) by (auto split: proc.splits list.splits act.splits)
  show ?thesis
  proof (cases "a = Mux")
    case True
    then show ?thesis using assms p Tick mux_mstep [of s p m r rs s' F] by simp
  next
    case False
    then show ?thesis using assms p Tick tick_mstep [of s p m r rs a s' F] by simp
  qed
next
  case (Written p)
  then obtain m r rs d s1 where "ms_proc s p = In m (r # rs) Send" "transmit m r s = Some (d, s1)"
      "s' = place p m (r # rs) Gate (sends m d r s1)"
    using assms(2) by (auto simp: bind_eq_Some_conv split: proc.splits list.splits act.splits)
  then show ?thesis using send_mstep by blast
next
  case (WriteFails p e sent)
  then obtain m r rs d s1 where "ms_proc s p = In m (r # rs) Send" "transmit m r s = Some (d, s1)"
      "s' = place p m (r # rs) (Fail e) (if sent then sends m d r s1 else s1)"
    using assms(2) by (auto simp: bind_eq_Some_conv split: proc.splits list.splits act.splits)
  moreover have "e = Eintr \<or> DevError \<in> F" using assms(1) WriteFails by simp
  ultimately show ?thesis using send_mstep [of s p m r rs d s1 "Fail e" F] by (cases sent) auto
next
  case (Reply p f c)
  then obtain m r rs x where p: "ms_proc s p = In m (r # rs) Read" "ms_rpc s r = Some x" "mr_done x = 0"
      "s' = place p m (r # rs) Mux (s\<lparr>ms_rpc := (ms_rpc s)(r \<mapsto> x\<lparr>mr_reply := f, mr_b := c\<rparr>)\<rparr>)"
    using assms(2) by (auto simp: bind_eq_Some_conv setrpc_def split: proc.splits list.splits act.splits if_splits)
  then have "Rude \<in> F \<or> (\<exists>y \<in> set (ms_owed s m). answers y f)" using assms(1) Reply by (auto simp: list_ex_iff)
  then show ?thesis using m_reply [OF p(1-3)] p(4) by simp
next
  case (ReadFails p e)
  then obtain m r rs x where p: "ms_proc s p = In m (r # rs) Read" "ms_rpc s r = Some x" "mr_done x = 0"
      "s' = place p m (r # rs) (Fail e) (s\<lparr>ms_rpc := (ms_rpc s)(r \<mapsto> x\<lparr>mr_reply := (mr_reply x)\<lparr>fc_type := 0, fc_tag := 0\<rparr>\<rparr>)\<rparr>)"
    using assms(2) by (auto simp: bind_eq_Some_conv setrpc_def split: proc.splits list.splits act.splits if_splits)
  then show ?thesis using m_readfail [OF p(1-3)] assms(1) ReadFails by simp
next
  case (Note p)
  then obtain m r rs a where p: "ms_proc s p = In m (r # rs) a" "a = Sleep \<or> a = Doze \<or> a = Check"
    using assms(2) by (auto split: proc.splits list.splits act.splits)
  then show ?thesis using assms(2) Note m_note [of s p m r rs a F] m_notesleep [of s p m r rs _ F]
    by (auto simp: setrpc_def)
qed

end
