(* ===== verification/MntInv.thy ===== *)
theory MntInv
  imports MntSys
begin

text \<open>
  Invariants of the mount driver: which process holds which structure, what the queues and the
  gates of the connections mean, and that tags identify the messages under way.
\<close>

subsection \<open>Ownership\<close>

definition held :: "(pid \<Rightarrow> proc) \<Rightarrow> pid \<Rightarrow> rpcp list" where
  "held pr p = (case pr p of Out \<Rightarrow> [] | In m rs a \<Rightarrow> rs)"

text \<open>The structures are those of the pool and those of each process, without overlap.\<close>

definition own_of :: "(pid \<Rightarrow> rpcp list) \<Rightarrow> rpcp list \<Rightarrow> rpcp set \<Rightarrow> bool" where
  "own_of h fr D \<longleftrightarrow> (\<forall>p. distinct (h p)) \<and> (\<forall>p p' r. r \<in> set (h p) \<longrightarrow> r \<in> set (h p') \<longrightarrow> p = p') \<and>
     distinct fr \<and> (\<forall>p. \<forall>r \<in> set (h p). r \<notin> set fr) \<and> (\<forall>r. r \<in> D \<longleftrightarrow> r \<in> set fr \<or> (\<exists>p. r \<in> set (h p)))"

definition own :: "mstate \<Rightarrow> bool" where
  "own s \<longleftrightarrow> own_of (held (ms_proc s)) (ms_rpcfree s) (dom (ms_rpc s))"

text \<open>A process has a request; when it returns, its flushes are gone.\<close>

fun proc_ok :: "proc \<Rightarrow> bool" where
  "proc_ok (In m rs (Return e)) \<longleftrightarrow> (\<exists>r. rs = [r])"
| "proc_ok (In m rs a) \<longleftrightarrow> rs \<noteq> []"
| "proc_ok Out \<longleftrightarrow> True"

definition shaped :: "mstate \<Rightarrow> bool" where
  "shaped s \<longleftrightarrow> (\<forall>p. proc_ok (ms_proc s p))"

lemma proc_ok_ne: "proc_ok (In m rs a) \<Longrightarrow> rs \<noteq> []"
  by (cases a) auto

lemma proc_ok_rouse: "proc_ok (rouse pr) = proc_ok pr"
  by (cases pr rule: rouse.cases) auto

lemma held_upd [simp]: "held (pr(p := In m rs a)) = (held pr)(p := rs)" "held (pr(p := Out)) = (held pr)(p := [])"
  by (auto simp: held_def)

lemma held_rouse [simp]: "held (pr(p := rouse (pr p))) = held pr"
  by (rule ext) (cases "pr p" rule: rouse.cases; simp add: held_def)

lemma held_In: "pr p = In m rs a \<Longrightarrow> held pr p = rs"
  by (simp add: held_def)

lemma own_fetch_new: "own_of h [] D \<Longrightarrow> r \<notin> D \<Longrightarrow> own_of (h(p := r # h p)) [] (insert r D)"
  by (auto simp: own_of_def split: if_splits)

lemma own_fetch_pool: "own_of h (r # fr) D \<Longrightarrow> own_of (h(p := r # h p)) fr D"
  by (auto simp: own_of_def split: if_splits)

lemma own_of_tl:
  assumes "own_of h fr D" "h p = r # rs"
  shows "distinct (r # rs)" "r \<notin> set fr" "\<And>x p'. x \<in> set (h p') \<Longrightarrow> x = r \<or> x \<in> set rs \<Longrightarrow> p' = p"
    "\<And>x. x \<in> set rs \<Longrightarrow> x \<notin> set fr" "\<And>x. x = r \<or> x \<in> set rs \<Longrightarrow> x \<in> D"
proof -
  have e: "x \<in> set (h p) \<longleftrightarrow> x = r \<or> x \<in> set rs" for x using assms(2) by simp
  show "distinct (r # rs)" using assms unfolding own_of_def by (metis assms(2))
  show "r \<notin> set fr" "\<And>x. x \<in> set rs \<Longrightarrow> x \<notin> set fr" "\<And>x. x = r \<or> x \<in> set rs \<Longrightarrow> x \<in> D"
    using assms(1) e unfolding own_of_def by blast+
  show "\<And>x p'. x \<in> set (h p') \<Longrightarrow> x = r \<or> x \<in> set rs \<Longrightarrow> p' = p" using assms(1) e unfolding own_of_def by blast
qed

lemma own_of_drop:
  assumes "own_of h fr D" "h p = r # rs"
  shows "x \<in> set ((h(p := rs)) q) \<longleftrightarrow> x \<in> set (h q) \<and> x \<noteq> r"
proof (cases "q = p")
  case True
  then show ?thesis using own_of_tl(1) [OF assms] assms(2) by auto
next
  case False
  then show ?thesis using own_of_tl(3) [OF assms, of r q] by auto
qed

lemma own_release:
  assumes "own_of h fr D" "h p = r # rs"
  shows "own_of (h(p := rs)) fr (D - {r})" "own_of (h(p := rs)) (r # fr) D"
proof -
  note e = own_of_drop [OF assms] and t = own_of_tl [OF assms]
  have d: "\<forall>q. distinct ((h(p := rs)) q)" using assms(1) t(1) by (simp add: own_of_def)
  have u: "\<forall>q q' x. x \<in> set ((h(p := rs)) q) \<longrightarrow> x \<in> set ((h(p := rs)) q') \<longrightarrow> q = q'"
    using assms(1) unfolding e own_of_def by blast
  have f: "\<forall>q. \<forall>x \<in> set ((h(p := rs)) q). x \<notin> set fr" using assms(1) unfolding e Ball_def own_of_def by blast
  have D: "x \<in> D \<longleftrightarrow> x \<in> set fr \<or> (\<exists>q. x \<in> set (h q))" for x using assms(1) by (simp add: own_of_def)
  have p: "r \<in> set (h p)" using assms(2) by simp
  have fr: "distinct fr" using assms(1) by (simp add: own_of_def)
  have "\<forall>x. x \<in> D - {r} \<longleftrightarrow> x \<in> set fr \<or> (\<exists>q. x \<in> set ((h(p := rs)) q))" unfolding e using D t(2) by auto
  then show "own_of (h(p := rs)) fr (D - {r})" unfolding own_of_def using d u f fr by blast
  have "\<forall>x. x \<in> D \<longleftrightarrow> x \<in> set (r # fr) \<or> (\<exists>q. x \<in> set ((h(p := rs)) q))" unfolding e using D p by auto
  moreover have "\<forall>q. \<forall>x \<in> set ((h(p := rs)) q). x \<notin> set (r # fr)" using f e by auto
  moreover have "distinct (r # fr)" using fr t(2) by simp
  ultimately show "own_of (h(p := rs)) (r # fr) D" unfolding own_of_def using d u by blast
qed

lemma fetched_view:
  "fetched s r t s1 \<Longrightarrow> ms_proc s1 = ms_proc s" "fetched s r t s1 \<Longrightarrow> ms_rpc s1 = ms_rpc s"
  "fetched s r t s1 \<Longrightarrow> ms_mnt s1 = ms_mnt s" "fetched s r t s1 \<Longrightarrow> ms_owed s1 = ms_owed s"
  by (auto elim: fetched.cases)

lemma fetched_own:
  assumes "fetched s r t s1" "own_of (held (ms_proc s)) (ms_rpcfree s) (dom (ms_rpc s))"
  shows "own_of ((held (ms_proc s))(p := r # held (ms_proc s) p)) (ms_rpcfree s1) (insert r (dom (ms_rpc s)))"
  using assms(1)
proof cases
  case (fetch_new mk t)
  then show ?thesis using assms(2) own_fetch_new [of "held (ms_proc s)" "dom (ms_rpc s)" r p] by auto
next
  case (fetch_pool list x)
  then show ?thesis using assms(2) own_fetch_pool [of "held (ms_proc s)" r list "dom (ms_rpc s)" p] by (simp add: insert_dom)
qed

lemma released_view:
  "released s r s1 \<Longrightarrow> ms_proc s1 = ms_proc s" "released s r s1 \<Longrightarrow> ms_mnt s1 = ms_mnt s"
  "released s r s1 \<Longrightarrow> ms_owed s1 = ms_owed s"
  by (auto elim: released.cases)

lemma released_own:
  assumes "released s r s1" "own_of (held (ms_proc s)) (ms_rpcfree s) (dom (ms_rpc s))" "held (ms_proc s) p = r # rs"
  shows "own_of ((held (ms_proc s))(p := rs)) (ms_rpcfree s1) (dom (ms_rpc s1))"
  using assms(1)
proof cases
  case (release_free x mk)
  then show ?thesis using own_release(1) [OF assms(2,3)] by simp
next
  case (release_pool x mk t)
  then have "insert r (dom (ms_rpc s)) = dom (ms_rpc s)" by auto
  then show ?thesis using own_release(2) [OF assms(2,3)] release_pool by simp
qed

lemma woken_view:
  assumes "woken s q s1"
  shows "held (ms_proc s1) = held (ms_proc s)" "dom (ms_rpc s1) = dom (ms_rpc s)" "ms_rpcfree s1 = ms_rpcfree s"
    "ms_mnt s1 = ms_mnt s" "ms_owed s1 = ms_owed s" "ms_tagmask s1 = ms_tagmask s"
  using assms by (auto elim!: woken.cases split: if_splits)

lemma gated_view:
  assumes "gated m s s1"
  shows "held (ms_proc s1) = held (ms_proc s)" "dom (ms_rpc s1) = dom (ms_rpc s)" "ms_rpcfree s1 = ms_rpcfree s"
    "ms_mnt s1 = upd_mnt m (\<lambda>c. c\<lparr>m_rip := None\<rparr>) s" "ms_owed s1 = ms_owed s" "ms_tagmask s1 = ms_tagmask s"
  using assms by (auto elim!: gated.cases split: if_splits)

lemma rouse_In: "rouse pr = In m rs a \<longleftrightarrow> pr = In m rs a \<and> a \<noteq> Sleep \<or> pr = In m rs Sleep \<and> a = Check"
  by (cases pr rule: rouse.cases) auto

text \<open>Who is where after a wakeup.\<close>

lemma woken_proc:
  assumes "woken s q s1 \<or> gated m s s1"
  shows "ms_proc s1 p = In m' rs a \<Longrightarrow> ms_proc s p = In m' rs a \<and> a \<noteq> Sleep \<or> ms_proc s p = In m' rs Sleep"
    "ms_proc s p = In m' rs a \<Longrightarrow> a \<noteq> Sleep \<Longrightarrow> ms_proc s1 p = In m' rs a"
  using assms by (auto elim!: woken.cases gated.cases simp: rouse_In split: if_splits)

lemma mstep_shaped:
  assumes "mstep F s s'" "shaped s" shows "shaped s'"
  using assms
  by cases (auto simp: shaped_def place_def proc_ok_rouse elim!: fetched.cases released.cases woken.cases gated.cases)

lemma held_case: "held pr p = (case pr p of Out \<Rightarrow> [] | In m rs a \<Rightarrow> rs)"
  by (simp add: held_def)

lemma mstep_own:
  assumes "mstep F s s'" "own s" "shaped s" shows "own s'"
proof -
  note o = assms(2) [unfolded own_def]
  from assms(1) show ?thesis
  proof cases
    case (m_start p r t s1 x m)
    then show ?thesis using fetched_own [of s r t s1 p] fetched_view [of s r t s1] o
      by (simp add: own_def place_def held_case)
  next
    case (m_flush p m q rs r t s1 x)
    then show ?thesis using fetched_own [of s r t s1 p] fetched_view [of s r t s1] o
      by (simp add: own_def place_def held_case)
  next
    case (m_drop p m r q rs e s1)
    then show ?thesis using released_own [of s r s1 p "q # rs"] released_view [of s r s1] o by (simp add: own_def place_def held_case)
  next
    case (m_return p m rs e s1)
    then have "rs = [last rs]" using assms(3) [unfolded shaped_def, rule_format, of p] by auto
    then show ?thesis using m_return released_own [of s "last rs" s1 p "[]"] released_view [of s "last rs" s1] o by (simp add: own_def place_def held_case)
  next
    case (m_waking p m r rs q s1)
    then show ?thesis using woken_view [of s q s1] o by (simp add: own_def place_def held_case fun_upd_idem)
  next
    case (m_ungate p m r rs s1)
    then show ?thesis using gated_view [of m s s1] o by (simp add: own_def place_def held_case fun_upd_idem)
  next
    case (m_failgate p m r rs e s1)
    then show ?thesis using gated_view [of m s s1] o by (simp add: own_def place_def held_case fun_upd_idem)
  qed (use o in \<open>simp_all add: own_def place_def held_case insert_dom fun_upd_idem\<close>)
qed

subsection \<open>Gates and locks\<close>

fun reading :: "act \<Rightarrow> bool" where
  "reading Read = True" | "reading Mux = True" | "reading (Waking q) = True" | "reading Ungate = True" | "reading a = False"

fun failing :: "act \<Rightarrow> bool" where
  "failing (Fail e) = True" | "failing a = False"

fun waking :: "act \<Rightarrow> bool" where
  "waking (Waking q) = True" | "waking a = False"

text \<open>
  The process in \<^verbatim>\<open>rip\<close> is the one that reads, or one whose read has just failed, and the lock is
  kept by the reader that is about to wake another process.
\<close>

fun gate_ok :: "(mntp \<Rightarrow> mnt) \<Rightarrow> pid \<Rightarrow> proc \<Rightarrow> bool" where
  "gate_ok mn p Out \<longleftrightarrow> True"
| "gate_ok mn p (In m rs a) \<longleftrightarrow> (reading a \<longrightarrow> m_rip (mn m) = Some p) \<and> (waking a \<longrightarrow> m_lock (mn m))"

fun in_gate :: "mntp \<Rightarrow> proc \<Rightarrow> bool" where
  "in_gate m Out \<longleftrightarrow> False"
| "in_gate m (In m' rs a) \<longleftrightarrow> m' = m \<and> (reading a \<or> failing a)"

fun in_lock :: "mntp \<Rightarrow> proc \<Rightarrow> bool" where
  "in_lock m Out \<longleftrightarrow> False"
| "in_lock m (In m' rs a) \<longleftrightarrow> m' = m \<and> waking a"

definition gates :: "mstate \<Rightarrow> bool" where
  "gates s \<longleftrightarrow> (\<forall>p. gate_ok (ms_mnt s) p (ms_proc s p)) \<and>
     (\<forall>m p. m_rip (ms_mnt s m) = Some p \<longrightarrow> in_gate m (ms_proc s p)) \<and>
     (\<forall>m. m_lock (ms_mnt s m) \<longrightarrow> (\<exists>p. in_lock m (ms_proc s p)))"

lemma gates_one_reader:
  "gates s \<Longrightarrow> ms_proc s p = In m rs a \<Longrightarrow> reading a \<Longrightarrow> ms_proc s p' = In m rs' a' \<Longrightarrow> reading a' \<Longrightarrow> p = p'"
  unfolding gates_def by (metis gate_ok.simps(2) option.inject)

lemma waking_reading: "waking a \<Longrightarrow> reading a"
  by (cases a) auto

lemma rouse_gate [simp]:
  "gate_ok mn p (rouse pr) = gate_ok mn p pr" "in_gate m (rouse pr) = in_gate m pr" "in_lock m (rouse pr) = in_lock m pr"
  by (cases pr rule: rouse.cases; simp)+

text \<open>A process moves on, and nothing about the gate of its connection changes.\<close>

lemma gates_move:
  assumes "gates s" "ms_proc s p = In m rs a" "ms_proc s1 = ms_proc s"
    "\<And>m. m_rip (ms_mnt s1 m) = m_rip (ms_mnt s m)" "\<And>m. m_lock (ms_mnt s1 m) = m_lock (ms_mnt s m)"
    "reading a' \<longrightarrow> reading a" "waking a' = waking a"
    "reading a \<or> failing a \<longrightarrow> reading a' \<or> failing a' \<or> m_rip (ms_mnt s m) \<noteq> Some p"
  shows "gates (place p m rs' a' s1)"
proof -
  let ?s = "place p m rs' a' s1"
  have pr: "ms_proc ?s = (ms_proc s)(p := In m rs' a')" and mn: "ms_mnt ?s = ms_mnt s1" by (simp_all add: place_def assms(3))
  have g: "gate_ok (ms_mnt s1) q pr = gate_ok (ms_mnt s) q pr" for q pr using assms(4,5) by (cases pr) auto
  have "gate_ok (ms_mnt s) p (In m rs a)" using assms(1,2) unfolding gates_def by metis
  then have "gate_ok (ms_mnt s) p (In m rs' a')" using assms(6,7) by simp
  then have 1: "\<forall>q. gate_ok (ms_mnt ?s) q (ms_proc ?s q)" unfolding pr mn g using assms(1) by (simp add: gates_def)
  have "in_gate n (ms_proc ?s q)" if "m_rip (ms_mnt s n) = Some q" for n q
    using that assms(1,2,8) unfolding gates_def pr by (cases "q = p") force+
  then have 2: "\<forall>n q. m_rip (ms_mnt ?s n) = Some q \<longrightarrow> in_gate n (ms_proc ?s q)" using assms(4) mn by simp
  have "\<exists>q. in_lock n (ms_proc ?s q)" if "in_lock n (ms_proc s q)" for n q
    using that assms(2,7) unfolding pr by (intro exI [of _ q]) auto
  then have 3: "\<forall>n. m_lock (ms_mnt ?s n) \<longrightarrow> (\<exists>q. in_lock n (ms_proc ?s q))"
    using assms(1,5) unfolding gates_def mn by metis
  show ?thesis unfolding gates_def using 1 2 3 by blast
qed

lemma gates_outside:
  assumes "gates s" "\<And>n. \<not> in_gate n (ms_proc s p) \<and> \<not> in_lock n (ms_proc s p)" "gate_ok (ms_mnt s) p x"
    "ms_proc s' = (ms_proc s)(p := x)" "ms_mnt s' = ms_mnt s"
  shows "gates s'"
proof -
  have 1: "gate_ok (ms_mnt s) q (ms_proc s' q)" for q using assms(1,3,4) by (simp add: gates_def)
  have 2: "in_gate n (ms_proc s' q)" if "m_rip (ms_mnt s n) = Some q" for n q
  proof -
    have "in_gate n (ms_proc s q)" using assms(1) that unfolding gates_def by blast
    then show ?thesis using assms(2,4) by auto
  qed
  have 3: "\<exists>q. in_lock n (ms_proc s' q)" if "m_lock (ms_mnt s n)" for n
  proof -
    obtain q where "in_lock n (ms_proc s q)" using assms(1) \<open>m_lock (ms_mnt s n)\<close> unfolding gates_def by blast
    then show ?thesis using assms(2,4) by (intro exI [of _ q]) auto
  qed
  show ?thesis unfolding gates_def assms(5) using 1 2 3 by blast
qed

text \<open>A step that passes the gate or takes or gives the lock, and may wake a process.\<close>

lemma gates_pass:
  assumes "gates s" "ms_proc s p = In m rs a" "ms_proc s' p = In m rs' a'"
    "\<And>q. q \<noteq> p \<Longrightarrow> ms_proc s' q = ms_proc s q \<or> ms_proc s' q = rouse (ms_proc s q)"
    "\<And>n. n \<noteq> m \<Longrightarrow> m_rip (ms_mnt s' n) = m_rip (ms_mnt s n) \<and> m_lock (ms_mnt s' n) = m_lock (ms_mnt s n)"
    "m_rip (ms_mnt s m) = None \<or> m_rip (ms_mnt s m) = Some p"
    "m_rip (ms_mnt s' m) = (if reading a' \<or> failing a' then Some p else None)"
    "m_lock (ms_mnt s' m) = waking a'" "\<not> m_lock (ms_mnt s m) \<or> waking a"
  shows "gates s'"
proof -
  have o: "\<not> reading b" if "ms_proc s q = In m ts b" "q \<noteq> p" for q ts b
    using that assms(1,6) unfolding gates_def by (metis gate_ok.simps(2) option.distinct(1) option.inject)
  have g: "gate_ok (ms_mnt s') q pr" if "gate_ok (ms_mnt s) q pr" "\<And>ts b. pr = In m ts b \<Longrightarrow> \<not> reading b" for q pr
  proof (cases pr)
    case (In n ts b)
    show ?thesis
    proof (cases "n = m")
      case True
      then show ?thesis using In that(2) waking_reading by auto
    next
      case False
      then show ?thesis using In that(1) assms(5) by simp
    qed
  qed simp
  have s': "gate_ok (ms_mnt s) q (ms_proc s' q)" "in_gate n (ms_proc s' q) = in_gate n (ms_proc s q)"
    "in_lock n (ms_proc s' q) = in_lock n (ms_proc s q)" if "q \<noteq> p" for q n
    using assms(1) assms(4) [OF that] unfolding gates_def by (metis rouse_gate)+
  have o': "\<not> reading b" if "ms_proc s' q = In m ts b" "q \<noteq> p" for q ts b
    using assms(4) [OF that(2)]
  proof
    assume "ms_proc s' q = ms_proc s q"
    then show ?thesis using that o by metis
  next
    assume "ms_proc s' q = rouse (ms_proc s q)"
    then have "rouse (ms_proc s q) = In m ts b" using that(1) by simp
    from rouse_In [THEN iffD1, OF this] show ?thesis using that(2) o by auto
  qed
  have 1: "gate_ok (ms_mnt s') q (ms_proc s' q)" for q
  proof (cases "q = p")
    case True
    then show ?thesis using assms(3,7,8) by simp
  next
    case False
    then show ?thesis using g s'(1) o' by blast
  qed
  have 2: "in_gate n (ms_proc s' q)" if "m_rip (ms_mnt s' n) = Some q" for n q
  proof (cases "n = m")
    case True
    then show ?thesis using that assms(3,7) by (auto split: if_splits)
  next
    case False
    then have "in_gate n (ms_proc s q)" using that assms(1,5) unfolding gates_def by metis
    moreover from this have "q \<noteq> p" using False assms(2) by auto
    ultimately show ?thesis using s'(2) by simp
  qed
  have 3: "\<exists>q. in_lock n (ms_proc s' q)" if "m_lock (ms_mnt s' n)" for n
  proof (cases "n = m")
    case True
    then show ?thesis using that assms(3,8) by (intro exI [of _ p]) simp
  next
    case False
    then have "m_lock (ms_mnt s n)" using \<open>m_lock (ms_mnt s' n)\<close> assms(5) by simp
    then obtain q where "in_lock n (ms_proc s q)" using assms(1) unfolding gates_def by blast
    moreover from this have "q \<noteq> p" using False assms(2) by auto
    ultimately show ?thesis using s'(3) by blast
  qed
  show ?thesis unfolding gates_def using 1 2 3 by blast
qed

lemma woken_others:
  assumes "woken s q s1 \<or> gated m s s1"
  shows "ms_proc s1 p = ms_proc s p \<or> ms_proc s1 p = rouse (ms_proc s p)"
  using assms by (auto elim!: woken.cases gated.cases)

lemma mstep_gates:
  assumes "mstep F s s'" "gates s" shows "gates s'"
proof -
  have rip: "m_rip (ms_mnt s m) = Some p" if "ms_proc s p = In m rs a" "reading a" for p m rs a
    using assms(2) that unfolding gates_def by (metis gate_ok.simps(2))
  have lock: "m_lock (ms_mnt s m)" if "ms_proc s p = In m rs (Waking q)" for p m rs q
    using assms(2) that unfolding gates_def by (metis gate_ok.simps(2) waking.simps(1))
  from assms(1) show ?thesis
  proof cases
    case (m_start p r t s1 x m)
    show ?thesis by (rule gates_outside [OF assms(2), where s' = s' and p = p and x = "In m [r] Enqueue"])
      (use m_start fetched_view [of s r t s1] in \<open>auto simp: place_def\<close>)
  next
    case (m_flush p m q rs r t s1 x)
    show ?thesis unfolding m_flush(1) by (rule gates_move [OF assms(2) m_flush(2)])
      (use m_flush fetched_view [of s r t s1] in auto)
  next
    case (m_gate p m r rs)
    show ?thesis by (rule gates_pass [OF assms(2) m_gate(2), where s' = s' and a' = Read])
      (use m_gate in \<open>auto simp: place_def\<close>)
  next
    case (m_match p m r rs x q y)
    show ?thesis by (rule gates_pass [OF assms(2) m_match(2), where s' = s' and a' = "Waking q"])
      (use m_match rip [of p m _ Mux] in \<open>auto simp: place_def\<close>)
  next
    case (m_waking p m r rs q s1)
    show ?thesis by (rule gates_pass [OF assms(2) m_waking(2), where s' = s' and a' = Read])
      (use m_waking rip [of p m _ "Waking q"] lock woken_others [of s q s1] woken_view(4) [of s q s1] in \<open>auto simp: place_def\<close>)
  next
    case (m_ungate p m r rs s1)
    show ?thesis by (rule gates_pass [OF assms(2) m_ungate(2), where s' = s' and a' = "Free None"])
      (use m_ungate rip [of p m _ Ungate] woken_others [of s _ s1 m] gated_view(4) [of m s s1] in \<open>auto simp: place_def\<close>)
  next
    case (m_failgate p m r rs e s1)
    show ?thesis by (rule gates_pass [OF assms(2) m_failgate(2), where s' = s' and a' = "Fail2 e"])
      (use m_failgate woken_others [of s _ s1 m] gated_view(4) [of m s s1] in \<open>auto simp: place_def\<close>)
  next
    case (m_drop p m r q rs e s1)
    show ?thesis unfolding m_drop(1) by (rule gates_move [OF assms(2) m_drop(2)])
      (use m_drop released_view [of s r s1] in auto)
  next
    case (m_return p m rs e s1)
    show ?thesis by (rule gates_outside [OF assms(2), where s' = s' and p = p and x = Out])
      (use m_return released_view [of s "last rs" s1] in \<open>auto\<close>)
  qed (hypsubst, erule gates_move [OF assms(2)]; auto split: if_splits)+
qed

subsection \<open>Sleepers\<close>

text \<open>The process recorded in a \<^verbatim>\<open>Rendez\<close> is the one that sleeps on it.\<close>

definition sleeps :: "mstate \<Rightarrow> bool" where
  "sleeps s \<longleftrightarrow> (\<forall>q p. sleeper s q = Some p \<longleftrightarrow> (\<exists>m rs. ms_proc s p = In m (q # rs) Sleep))"

lemma sleepsD: "sleeps s \<Longrightarrow> (\<exists>m rs. ms_proc s p = In m (q # rs) Sleep) = (sleeper s q = Some p)"
  by (simp add: sleeps_def)

lemma sleeps_cong: "ms_rpc s' = ms_rpc s \<Longrightarrow> ms_proc s' = ms_proc s \<Longrightarrow> sleeps s' = sleeps s"
  by (simp add: sleeps_def sleeper_def)

lemma sleeps_move:
  assumes "sleeps s" "ms_proc s p = In m rs a" "ms_proc s1 = ms_proc s" "\<And>q. sleeper s1 q = sleeper s q" "a \<noteq> Sleep" "a' \<noteq> Sleep"
  shows "sleeps (place p m rs' a' s1)"
proof -
  have "ms_proc (place p m rs' a' s1) p' = In n ts Sleep \<longleftrightarrow> ms_proc s p' = In n ts Sleep" for p' n ts
    using assms(2,3,5,6) by (auto simp: place_def)
  moreover have "sleeper (place p m rs' a' s1) q = sleeper s q" for q using assms(4) by (simp add: place_def sleeper_def)
  ultimately show ?thesis using assms(1) unfolding sleeps_def by simp
qed

lemma sleeps_to:
  assumes "sleeps s" "ms_proc s p = x" "\<And>m rs. x \<noteq> In m rs Sleep" "\<And>m rs. y \<noteq> In m rs Sleep"
    "ms_proc s' = (ms_proc s)(p := y)" "\<And>q. sleeper s' q = sleeper s q"
  shows "sleeps s'"
proof -
  have "ms_proc s' p' = In n ts Sleep \<longleftrightarrow> ms_proc s p' = In n ts Sleep" for p' n ts using assms(2-5) by auto
  then show ?thesis using assms(1,6) unfolding sleeps_def by simp
qed

lemma sleeps_woken:
  assumes "sleeps s" "woken s q s1"
  shows "sleeps s1"
  using assms(2)
proof cases
  case (woken_some x p pr)
  then have "sleeper s q = Some p" by (simp add: sleeper_def)
  then obtain m rs where p: "ms_proc s p = In m (q # rs) Sleep" using assms(1) unfolding sleeps_def by blast
  have "sleeper s1 q' = (if q' = q then None else sleeper s q')" for q' using woken_some by (simp add: sleeper_def)
  moreover have "ms_proc s1 p' = In n (q' # ts) Sleep \<longleftrightarrow> ms_proc s p' = In n (q' # ts) Sleep \<and> p' \<noteq> p" for p' n q' ts
    using woken_some p by auto
  moreover have "sleeper s q' \<noteq> Some p" if "q' \<noteq> q" for q' using assms(1) p that unfolding sleeps_def by (metis list.inject proc.inject)
  moreover have "ms_proc s p' = In n (q # ts) Sleep \<Longrightarrow> p' = p" for p' n ts
    using assms(1) \<open>sleeper s q = Some p\<close> unfolding sleeps_def by (metis option.inject)
  ultimately show ?thesis using assms(1) unfolding sleeps_def by (metis option.distinct(1))
qed (use assms(1) in simp)

lemma gated_woken:
  assumes "gated m s s1"
  obtains "ms_rpc s1 = ms_rpc s" "ms_proc s1 = ms_proc s"
  | q s2 where "woken s q s2" "ms_rpc s1 = ms_rpc s2" "ms_proc s1 = ms_proc s2"
  using assms
proof cases
  case (gated_some q x p pr)
  then show ?thesis using that(2) [OF woken_some [of s q x p pr]] by simp
qed (use that in simp)

lemma sleeps_gated: "sleeps s \<Longrightarrow> gated m s s1 \<Longrightarrow> sleeps s1"
  by (erule gated_woken) (metis sleeps_cong, metis sleeps_cong sleeps_woken)

lemma woken_awake:
  assumes "woken s q s1 \<or> gated m s s1" "ms_proc s p = In n rs a" "a \<noteq> Sleep"
  shows "ms_proc s1 p = In n rs a"
  using assms by (auto elim!: woken.cases gated.cases simp: rouse_In)

lemma fetched_sleeper: "fetched s r t s1 \<Longrightarrow> mr_r x = sleeper s r \<Longrightarrow> sleeper (s1\<lparr>ms_rpc := (ms_rpc s1)(r \<mapsto> x)\<rparr>) q = sleeper s q"
  using fetched_view [of s r t s1] by (simp add: sleeper_def)

lemma own_holder: "own s \<Longrightarrow> r \<in> set (held (ms_proc s) p) \<Longrightarrow> r \<in> set (held (ms_proc s) p') \<Longrightarrow> p = p'"
  unfolding own_def own_of_def by blast

lemma released_sleeper:
  assumes "released s r s1" "own s" "sleeps s" "ms_proc s p = In m rs a" "r \<in> set rs" "a \<noteq> Sleep"
  shows "sleeper s1 q = sleeper s q"
proof -
  have "sleeper s r = None"
  proof (cases "sleeper s r")
    case (Some p')
    then obtain n ts where p': "ms_proc s p' = In n (r # ts) Sleep" using assms(3) unfolding sleeps_def by blast
    then have "p = p'" using own_holder [OF assms(2), of r p p'] assms(4,5) by (simp add: held_case)
    then show ?thesis using assms(4,6) p' by simp
  qed
  then show ?thesis using assms(1) by (auto simp: sleeper_def elim!: released.cases)
qed

lemma mstep_sleeps:
  assumes "mstep F s s'" "own s" "shaped s" "sleeps s" shows "sleeps s'"
  using assms(1)
proof cases
  case (m_start p r t s1 x m)
  show ?thesis by (rule sleeps_to [OF assms(4) m_start(2), where y = "In m [r] Enqueue"])
    (use m_start fetched_view [of s r t s1] in \<open>auto simp: place_def sleeper_def\<close>)
next
  case (m_flush p m q rs r t s1 x)
  show ?thesis unfolding m_flush(1) by (rule sleeps_move [OF assms(4) m_flush(2)])
    (use m_flush fetched_view [of s r t s1] in \<open>auto simp: sleeper_def\<close>)
next
  case (m_sleep p m r rs x m')
  have n: "sleeper s q \<noteq> Some p" for q using assms(4) m_sleep(2) unfolding sleeps_def by auto
  have o: "p' = p" if "ms_proc s p' = In n (r # ts) b" for p' n ts b
    using own_holder [OF assms(2), of r p' p] that m_sleep(2) by (simp add: held_case)
  have "sleeper s' q = (if q = r then Some p else sleeper s q)" for q using m_sleep(1) by (simp add: place_def sleeper_def)
  moreover have "ms_proc s' p' = (if p' = p then In m (r # rs) Sleep else ms_proc s p')" for p' using m_sleep(1) by (simp add: place_def)
  ultimately show ?thesis using assms(4) n o unfolding sleeps_def by auto
next
  case (m_notesleep p m r rs x)
  have r: "sleeper s r = Some p" using assms(4) m_notesleep(2) unfolding sleeps_def by blast
  have o: "q = r" if "sleeper s q = Some p" for q using assms(4) m_notesleep(2) that unfolding sleeps_def by (metis list.inject proc.inject)
  have "sleeper s' q = (if q = r then None else sleeper s q)" for q using m_notesleep(1) by (simp add: place_def sleeper_def)
  then have 1: "sleeper s' q = Some p' \<longleftrightarrow> q \<noteq> r \<and> sleeper s q = Some p'" for q p' by simp
  have "(\<exists>n ts. ms_proc s' p' = In n (q # ts) Sleep) \<longleftrightarrow> p' \<noteq> p \<and> (\<exists>n ts. ms_proc s p' = In n (q # ts) Sleep)" for p' q
    using m_notesleep(1) by (simp add: place_def)
  then have 2: "(\<exists>n ts. ms_proc s' p' = In n (q # ts) Sleep) \<longleftrightarrow> p' \<noteq> p \<and> sleeper s q = Some p'" for p' q
    by (simp only: sleepsD [OF assms(4)])
  have "q \<noteq> r \<and> sleeper s q = Some p' \<longleftrightarrow> p' \<noteq> p \<and> sleeper s q = Some p'" for q p' using r o by (metis option.inject)
  then show ?thesis unfolding sleeps_def 1 2 by blast
next
  case (m_waking p m r rs q s1)
  show ?thesis unfolding m_waking(1)
    by (rule sleeps_move [OF sleeps_woken [OF assms(4) m_waking(3)] woken_awake [OF disjI1 [OF m_waking(3)] m_waking(2)]])
      (use m_waking in \<open>auto simp: sleeper_def\<close>)
next
  case (m_ungate p m r rs s1)
  show ?thesis unfolding m_ungate(1)
    by (rule sleeps_move [OF sleeps_gated [OF assms(4) m_ungate(4)] woken_awake [OF disjI2 [OF m_ungate(4)] m_ungate(2)]]) (use m_ungate in auto)
next
  case (m_failgate p m r rs e s1)
  show ?thesis unfolding m_failgate(1)
    by (rule sleeps_move [OF sleeps_gated [OF assms(4) m_failgate(5)] woken_awake [OF disjI2 [OF m_failgate(5)] m_failgate(2)]]) (use m_failgate in auto)
next
  case (m_drop p m r q rs e s1)
  show ?thesis unfolding m_drop(1) by (rule sleeps_move [OF assms(4) m_drop(2)])
    (use released_view [of s r s1] released_sleeper [OF m_drop(3) assms(2,4) m_drop(2)] m_drop(3) in auto)
next
  case (m_return p m rs e s1)
  show ?thesis by (rule sleeps_to [OF assms(4) m_return(2), where y = Out])
    (use m_return released_view [of s "last rs" s1] released_sleeper [OF m_return(4) assms(2,4) m_return(2)]
      in \<open>auto simp: sleeper_def\<close>)
qed (hypsubst, erule sleeps_move [OF assms(4)]; auto simp: sleeper_def split: if_splits)+

subsection \<open>Queues\<close>

definition dn :: "mstate \<Rightarrow> rpcp \<Rightarrow> nat" where
  "dn s q = (case ms_rpc s q of None \<Rightarrow> 0 | Some x \<Rightarrow> mr_done x)"

definition lk :: "mstate \<Rightarrow> rpcp \<Rightarrow> mntp option option" where
  "lk s q = map_option mr_m (ms_rpc s q)"

lemma dn_Some [simp]: "ms_rpc s q = Some x \<Longrightarrow> dn s q = mr_done x"
  by (simp add: dn_def)

text \<open>The structures of a process that it has put in the queue of its connection.\<close>

fun pends :: "mntp \<Rightarrow> proc \<Rightarrow> rpcp set" where
  "pends m Out = {}"
| "pends m (In m' rs a) = (if m' = m then (if a = Enqueue then set (tl rs) else set rs) else {})"

definition pending :: "(pid \<Rightarrow> proc) \<Rightarrow> mntp \<Rightarrow> rpcp set" where
  "pending pr m = (\<Union>p. pends m (pr p))"

text \<open>
  A structure is in the queue exactly while it has no reply, it knows its connection, and the
  stages at which its reply must be there or not.
\<close>

fun stage_ok :: "(rpcp \<Rightarrow> nat) \<Rightarrow> proc \<Rightarrow> bool" where
  "stage_ok d (In m (r # rs) Enqueue) \<longleftrightarrow> d r = 0"
| "stage_ok d (In m (r # rs) (Drop e)) \<longleftrightarrow> d r \<noteq> 0"
| "stage_ok d (In m (r # rs) (Return e)) \<longleftrightarrow> d r \<noteq> 0"
| "stage_ok d pr \<longleftrightarrow> True"

definition queued :: "mstate \<Rightarrow> bool" where
  "queued s \<longleftrightarrow> (\<forall>m. distinct (m_queue (ms_mnt s m)) \<and>
       set (m_queue (ms_mnt s m)) = {q \<in> pending (ms_proc s) m. dn s q = 0}) \<and>
     (\<forall>m. \<forall>q \<in> pending (ms_proc s) m. lk s q = Some (Some m)) \<and>
     (\<forall>p. stage_ok (dn s) (ms_proc s p))"

lemma pends_rouse [simp]: "pends m (rouse pr) = pends m pr"
  by (cases pr rule: rouse.cases; simp)

lemma stage_rouse [simp]: "stage_ok d (rouse pr) = stage_ok d pr"
proof (cases pr rule: rouse.cases)
  case (1 m rs)
  then show ?thesis by (cases rs) simp_all
qed simp_all

lemma pending_upd: "pending (pr(p := y)) m = pends m y \<union> (\<Union>q \<in> - {p}. pends m (pr q))"
  by (auto simp: pending_def split: if_splits)

lemma pending_at: "pending pr m = pends m (pr p) \<union> (\<Union>q \<in> - {p}. pends m (pr q))"
  using pending_upd [of pr p "pr p" m] by simp

lemma pending_move: "pr p = x \<Longrightarrow> pends m y = pends m x \<Longrightarrow> pending (pr(p := y)) m = pending pr m"
  using pending_upd [of pr p y m] pending_at [of pr m p] by simp

lemma pends_held: "q \<in> pends m (pr p) \<Longrightarrow> q \<in> set (held pr p)"
proof (cases "pr p")
  case (In n rs a)
  then show "q \<in> pends m (pr p) \<Longrightarrow> q \<in> set (held pr p)" by (cases rs) (auto simp: held_def split: if_splits)
qed simp

lemma pending_held: "q \<in> pending pr m \<Longrightarrow> \<exists>p. q \<in> set (held pr p) \<and> q \<in> pends m (pr p)"
  using pends_held unfolding pending_def by fast

text \<open>The structures that processes hold keep their stage and their connection.\<close>

definition keeps :: "mstate \<Rightarrow> mstate \<Rightarrow> bool" where
  "keeps s s' \<longleftrightarrow> (\<forall>p. \<forall>q \<in> set (held (ms_proc s) p). dn s' q = dn s q \<and> lk s' q = lk s q)"

lemma stage_cong: "(\<And>q. q \<in> set (held pr p) \<Longrightarrow> d q = d' q) \<Longrightarrow> stage_ok d (pr p) = stage_ok d' (pr p)"
  by (cases "pr p" rule: rouse.cases; cases "pr p") (auto simp: held_def elim!: stage_ok.elims)

lemma queued_move:
  assumes "queued s" "keeps s s'" "ms_proc s p = x" "ms_proc s' = (ms_proc s)(p := y)" "\<And>m. pends m y = pends m x"
    "\<And>m. m_queue (ms_mnt s' m) = m_queue (ms_mnt s m)" "stage_ok (dn s') y"
  shows "queued s'"
proof -
  have k: "dn s' q = dn s q" "lk s' q = lk s q" if "q \<in> pending (ms_proc s) m" for q m
    using pending_held [OF that] assms(2) unfolding keeps_def by blast+
  have pe: "pending (ms_proc s') m = pending (ms_proc s) m" for m unfolding assms(4) using pending_move assms(3,5) by metis
  have "stage_ok (dn s') (ms_proc s' q)" for q
  proof (cases "q = p")
    case False
    have "stage_ok (dn s') (ms_proc s q) = stage_ok (dn s) (ms_proc s q)"
      using assms(2) unfolding keeps_def by (intro stage_cong) blast
    then show ?thesis using assms(1,4) False unfolding queued_def by simp
  qed (simp add: assms(4,7))
  moreover have "{q \<in> pending (ms_proc s') m. dn s' q = 0} = {q \<in> pending (ms_proc s) m. dn s q = 0}" for m
    unfolding pe by (rule Collect_cong) (metis k(1))
  moreover have "lk s' q = Some (Some m)" if "q \<in> pending (ms_proc s') m" for q m
    using that k(2) assms(1) unfolding pe queued_def by simp
  ultimately show ?thesis using assms(1,6) unfolding queued_def by simp
qed

lemma queued_place:
  assumes "queued s" "ms_proc s p = In m rs a" "ms_proc s1 = ms_proc s" "keeps s s1" "\<And>m. m_queue (ms_mnt s1 m) = m_queue (ms_mnt s m)"
    "pends m (In m rs' a') = pends m (In m rs a)" "stage_ok (dn s1) (In m rs' a')"
  shows "queued (place p m rs' a' s1)"
proof (rule queued_move [OF assms(1) _ assms(2)])
  have "dn (place p m rs' a' s1) = dn s1" "lk (place p m rs' a' s1) = lk s1" by (simp_all add: place_def dn_def lk_def fun_eq_iff)
  then show "keeps s (place p m rs' a' s1)" "stage_ok (dn (place p m rs' a' s1)) (In m rs' a')"
    using assms(4,7) unfolding keeps_def by simp_all
qed (use assms(3,5,6) in \<open>auto simp: place_def\<close>)

lemma queued_woken:
  assumes "queued s" "woken s q s1 \<or> gated m s s1"
  shows "queued s1"
proof -
  have d: "dn s1 = dn s" "lk s1 = lk s" using assms(2) by (auto simp: dn_def lk_def elim!: woken.cases gated.cases)
  have q: "m_queue (ms_mnt s1 n) = m_queue (ms_mnt s n)" for n using assms(2) by (auto elim!: woken.cases gated.cases)
  have pr: "ms_proc s1 p = ms_proc s p \<or> ms_proc s1 p = rouse (ms_proc s p)" for p using woken_others [OF assms(2)] .
  have "pends n (ms_proc s1 p) = pends n (ms_proc s p)" "stage_ok (dn s) (ms_proc s1 p) = stage_ok (dn s) (ms_proc s p)" for n p
    using pr [of p] by auto
  then show ?thesis using assms(1) by (simp add: queued_def pending_def d q)
qed

text \<open>A structure gets its reply, or is given up: it leaves the queue of its connection.\<close>

lemma queued_off:
  assumes "queued s" "own s" "ms_proc s p = In m rs a" "pends m (In m rs' a') = pends m (In m rs a)" "q \<in> pending (ms_proc s) m" "v \<noteq> 0"
    "ms_proc s' = (ms_proc s)(p := In m rs' a')" "\<And>n. n \<noteq> m \<Longrightarrow> m_queue (ms_mnt s' n) = m_queue (ms_mnt s n)"
    "m_queue (ms_mnt s' m) = remove1 q (m_queue (ms_mnt s m))" "\<And>x. dn s' x = (if x = q then v else dn s x)" "\<And>x. lk s' x = lk s x"
    "\<And>b. a' \<noteq> Enqueue \<and> a' \<noteq> Return b \<and> (a' = Drop b \<longrightarrow> rs' \<noteq> [] \<and> hd rs' = q)"
  shows "queued s'"
proof -
  have pe: "pending (ms_proc s') n = pending (ms_proc s) n" for n
    unfolding assms(7) using assms(4) by (intro pending_move [where x = "In m rs a"]) (auto simp: assms(3))
  obtain h where h: "q \<in> set (held (ms_proc s) h)" "q \<in> pends m (ms_proc s h)" using pending_held [OF assms(5)] by blast
  have only: "q \<notin> pending (ms_proc s) n" if "n \<noteq> m" for n
  proof
    assume "q \<in> pending (ms_proc s) n"
    then obtain h' where h': "q \<in> set (held (ms_proc s) h')" "q \<in> pends n (ms_proc s h')" using pending_held by blast
    then have "h' = h" using own_holder [OF assms(2)] h(1) by blast
    then show False using h(2) h'(2) that by (cases "ms_proc s h") (auto split: if_splits)
  qed
  have st: "stage_ok (dn s) (ms_proc s x)" for x using assms(1) by (simp add: queued_def)
  have "stage_ok (dn s') (ms_proc s' x)" for x
  proof (cases "x = p")
    case True
    then show ?thesis using assms(6,10,12) unfolding assms(7) by (cases rs'; cases a') auto
  next
    case False
    have "q \<notin> set rs2 \<or> a2 \<noteq> Enqueue \<or> q \<in> set (tl rs2)" if "ms_proc s x = In n rs2 a2" for n rs2 a2
    proof (rule ccontr)
      assume c: "\<not> (q \<notin> set rs2 \<or> a2 \<noteq> Enqueue \<or> q \<in> set (tl rs2))"
      then have "x = h" using own_holder [OF assms(2), of q x h] h(1) that by (simp add: held_case)
      then show False using h(2) that c by (simp split: if_splits)
    qed
    note nq = this
    show ?thesis
    proof (cases "ms_proc s x")
      case (In n rs2 a2)
      then show ?thesis using st [of x] False assms(6,10) nq [OF In] own_of_tl(1) [of "held (ms_proc s)" _ _ x] assms(2)
        unfolding assms(7) own_def
        by (cases rs2; cases a2) (auto simp: held_case split: if_splits)
    qed (simp add: assms(7) False)
  qed
  moreover have "distinct (m_queue (ms_mnt s' n)) \<and> set (m_queue (ms_mnt s' n)) = {x \<in> pending (ms_proc s') n. dn s' x = 0}" for n
  proof -
    have o: "distinct (m_queue (ms_mnt s n))" "set (m_queue (ms_mnt s n)) = {x \<in> pending (ms_proc s) n. dn s x = 0}"
      using assms(1) by (auto simp: queued_def)
    show ?thesis using o only [of n] assms(6,8-10) pe by (cases "n = m") auto
  qed
  ultimately show ?thesis using assms(1,11) by (simp add: queued_def pe)
qed

lemma own_distinct: "own s \<Longrightarrow> ms_proc s p = In m rs a \<Longrightarrow> distinct rs"
  unfolding own_def own_of_def by (metis held_In)

lemma queued_on:
  assumes "queued s" "own s" "ms_proc s p = In m (r # rs) Enqueue"
    "ms_proc s' = (ms_proc s)(p := In m (r # rs) Send)" "\<And>n. n \<noteq> m \<Longrightarrow> m_queue (ms_mnt s' n) = m_queue (ms_mnt s n)"
    "m_queue (ms_mnt s' m) = r # m_queue (ms_mnt s m)" "\<And>x. dn s' x = dn s x" "\<And>x. lk s' x = (if x = r then Some (Some m) else lk s x)"
  shows "queued s'"
proof -
  have r: "r \<notin> pending (ms_proc s) n" for n
  proof
    assume "r \<in> pending (ms_proc s) n"
    then obtain h where h: "r \<in> set (held (ms_proc s) h)" "r \<in> pends n (ms_proc s h)" using pending_held by blast
    then have "h = p" using own_holder [OF assms(2), of r h p] assms(3) by (simp add: held_case)
    then show False using h(2) assms(3) own_distinct [OF assms(2,3)] by (simp split: if_splits)
  qed
  have pe: "pending (ms_proc s') n = (if n = m then insert r (pending (ms_proc s) n) else pending (ms_proc s) n)" for n
    unfolding assms(4) pending_upd pending_at [of "ms_proc s" n p] assms(3) by auto
  have d0: "dn s r = 0" using assms(1,3) unfolding queued_def by (metis stage_ok.simps(1))
  have "distinct (m_queue (ms_mnt s' n)) \<and> set (m_queue (ms_mnt s' n)) = {x \<in> pending (ms_proc s') n. dn s' x = 0}" for n
  proof -
    have o: "distinct (m_queue (ms_mnt s n))" "set (m_queue (ms_mnt s n)) = {x \<in> pending (ms_proc s) n. dn s x = 0}"
      using assms(1) by (auto simp: queued_def)
    then show ?thesis using r [of n] d0 assms(5-7) pe [of n] by (cases "n = m") auto
  qed
  moreover have "lk s' x = Some (Some n)" if "x \<in> pending (ms_proc s') n" for x n
    using that assms(1,8) r pe [of n] unfolding queued_def by (auto split: if_splits)
  moreover have "stage_ok (dn s') (ms_proc s' x)" for x
  proof -
    have "dn s' = dn s" using assms(7) by blast
    then show ?thesis using assms(1,4) by (simp add: queued_def)
  qed
  ultimately show ?thesis by (simp add: queued_def)
qed

text \<open>A structure with a reply is given back.\<close>

lemma queued_release:
  assumes "queued s" "own s" "ms_proc s p = In m (r # rs) a" "released s r s1" "dn s r \<noteq> 0"
    "ms_proc s' = (ms_proc s)(p := y)" "\<And>n. pends n y = pends n (In m rs (Free None))" "a \<noteq> Enqueue"
    "ms_mnt s' = ms_mnt s" "ms_rpc s' = ms_rpc s1" "stage_ok (dn s1) y"
  shows "queued s'"
proof -
  have d: "dn s' = dn s1" "lk s' = lk s1" using assms(10) by (simp_all add: dn_def lk_def fun_eq_iff)
  have k: "dn s1 q = dn s q" "lk s1 q = lk s q" if "q \<noteq> r" for q
    using assms(4) that by (auto simp: dn_def lk_def elim!: released.cases)
  have mine: "h = p" if "r \<in> set (held (ms_proc s) h)" for h
    using own_holder [OF assms(2) that, of p] assms(3) by (simp add: held_case)
  have dist: "r \<notin> set rs" using own_distinct [OF assms(2,3)] by simp
  have pe: "pending (ms_proc s') n = pending (ms_proc s) n - {r}" for n
  proof -
    have "r \<notin> pends n (ms_proc s q)" if "q \<noteq> p" for q using mine pends_held that by metis
    then show ?thesis unfolding assms(6) pending_upd pending_at [of "ms_proc s" n p] assms(3,7) using dist assms(8) by auto
  qed
  have "distinct (m_queue (ms_mnt s' n)) \<and> set (m_queue (ms_mnt s' n)) = {x \<in> pending (ms_proc s') n. dn s' x = 0}" for n
  proof -
    have o: "distinct (m_queue (ms_mnt s n))" "set (m_queue (ms_mnt s n)) = {x \<in> pending (ms_proc s) n. dn s x = 0}"
      using assms(1) by (auto simp: queued_def)
    have "{x \<in> pending (ms_proc s) n. dn s x = 0} = {x \<in> pending (ms_proc s') n. dn s' x = 0}"
      unfolding pe d
    proof (rule set_eqI)
      fix x show "x \<in> {x \<in> pending (ms_proc s) n. dn s x = 0} \<longleftrightarrow> x \<in> {x \<in> pending (ms_proc s) n - {r}. dn s1 x = 0}"
        using k(1) [of x] assms(5) by (cases "x = r") simp_all
    qed
    then show ?thesis using o assms(9) by simp
  qed
  moreover have "lk s' x = Some (Some n)" if "x \<in> pending (ms_proc s') n" for x n
    using that assms(1) k(2) unfolding pe d queued_def by auto
  moreover have "stage_ok (dn s') (ms_proc s' x)" for x
  proof (cases "x = p")
    case False
    have "stage_ok (dn s1) (ms_proc s x) = stage_ok (dn s) (ms_proc s x)"
      by (rule stage_cong) (metis False k(1) mine)
    then show ?thesis using assms(1,6) False d unfolding queued_def by simp
  qed (simp add: assms(6,11) d)
  ultimately show ?thesis by (simp add: queued_def)
qed

lemma fetched_keeps:
  assumes "fetched s r t s1" "own s"
  shows "keeps s (s1\<lparr>ms_rpc := (ms_rpc s1)(r \<mapsto> x)\<rparr>)"
proof -
  have "r \<notin> set (held (ms_proc s) p)" for p
  proof
    assume r: "r \<in> set (held (ms_proc s) p)"
    then have "r \<in> dom (ms_rpc s)" "r \<notin> set (ms_rpcfree s)" using assms(2) unfolding own_def own_of_def by blast+
    then show False using assms(1) by (auto elim!: fetched.cases)
  qed
  then show ?thesis using fetched_view(2) [OF assms(1)] by (auto simp: keeps_def dn_def lk_def)
qed

lemma mstep_queued:
  assumes "mstep F s s'" "own s" "shaped s" "queued s" shows "queued s'"
  using assms(1)
proof cases
  case (m_start p r t s1 x m)
  have k: "keeps s s'" using fetched_keeps [OF m_start(3) assms(2), of x] m_start(1)
    by (simp add: keeps_def place_def dn_def lk_def)
  show ?thesis by (rule queued_move [OF assms(4) k m_start(2)])
    (use m_start fetched_view [of s r t s1] in \<open>auto simp: place_def dn_def split: if_splits\<close>)
next
  case (m_flush p m q rs r t s1 x)
  show ?thesis unfolding m_flush(1) by (rule queued_place [OF assms(4) m_flush(2) _ fetched_keeps [OF m_flush(3) assms(2)]])
    (use m_flush fetched_view [of s r t s1] in \<open>auto simp: dn_def\<close>)
next
  case (m_enqueue p m r rs x)
  show ?thesis by (rule queued_on [OF assms(4,2) m_enqueue(2)])
    (use m_enqueue in \<open>auto simp: place_def dn_def lk_def\<close>)
next
  case (m_match p m r rs x q y)
  have q: "q \<in> pending (ms_proc s) m" "r \<noteq> q" using assms(4) m_match(5,8) by (auto simp: queued_def)
  show ?thesis by (rule queued_off [OF assms(4,2) m_match(2) _ q(1), where v = 1 and rs' = "r # rs" and a' = "Waking q"])
    (use m_match q(2) in \<open>auto simp: place_def dn_def lk_def\<close>)
next
  case (m_own p m r rs x)
  have q: "r \<in> pending (ms_proc s) m" using assms(4) m_own(5) by (auto simp: queued_def)
  show ?thesis by (rule queued_off [OF assms(4,2) m_own(2) _ q, where v = 1 and rs' = "r # rs" and a' = Read])
    (use m_own in \<open>auto simp: place_def dn_def lk_def\<close>)
next
  case (m_qrm p m r rs e x)
  have q: "r \<in> pending (ms_proc s) m" using m_qrm(2) by (simp add: pending_at [of _ _ p])
  show ?thesis by (rule queued_off [OF assms(4,2) m_qrm(2) _ q, where v = 2 and rs' = "r # rs" and a' = "Drop e"])
    (use m_qrm in \<open>auto simp: place_def dn_def lk_def\<close>)
next
  case (m_waking p m r rs q s1)
  show ?thesis unfolding m_waking(1)
    by (rule queued_place [OF queued_woken [OF assms(4) disjI1 [OF m_waking(3)]] woken_awake [OF disjI1 [OF m_waking(3)] m_waking(2)]])
      (auto simp: keeps_def dn_def lk_def)
next
  case (m_ungate p m r rs s1)
  show ?thesis unfolding m_ungate(1)
    by (rule queued_place [OF queued_woken [OF assms(4) disjI2 [OF m_ungate(4)]] woken_awake [OF disjI2 [OF m_ungate(4)] m_ungate(2)]])
      (auto simp: keeps_def)
next
  case (m_failgate p m r rs e s1)
  show ?thesis unfolding m_failgate(1)
    by (rule queued_place [OF queued_woken [OF assms(4) disjI2 [OF m_failgate(5)]] woken_awake [OF disjI2 [OF m_failgate(5)] m_failgate(2)]])
      (auto simp: keeps_def)
next
  case (m_drop p m r q rs e s1)
  have "dn s r \<noteq> 0" using assms(4) m_drop(2) unfolding queued_def by (metis stage_ok.simps(2))
  then show ?thesis
    by (rule queued_release [OF assms(4,2) m_drop(2,3), where y = "In m (q # rs) (Free e)"])
      (use m_drop released_view [of s r s1] in \<open>auto simp: place_def\<close>)
next
  case (m_return p m rs e s1)
  obtain r where r: "rs = [r]" using assms(3) m_return(2) unfolding shaped_def by (metis proc_ok.simps(1))
  have "dn s r \<noteq> 0" using assms(4) m_return(2) unfolding queued_def r by (metis stage_ok.simps(3))
  then show ?thesis
    by (rule queued_release [OF assms(4,2) m_return(2) [unfolded r] m_return(4) [unfolded r, simplified], where y = Out])
      (use m_return r released_view [of s r s1] in auto)
next
  case (m_done p m r rs e x)
  show ?thesis unfolding m_done(1) by (rule queued_place [OF assms(4) m_done(2)])
    (use m_done in \<open>auto simp: keeps_def\<close>)
next
  case (m_last p m r e)
  have "dn s r \<noteq> 0" using assms(4) m_last(2) unfolding queued_def by (metis stage_ok.simps(2))
  then show ?thesis unfolding m_last(1) by (intro queued_place [OF assms(4) m_last(2)]) (auto simp: keeps_def)
qed (hypsubst, erule queued_place [OF assms(4)]; auto simp: keeps_def dn_def lk_def split: if_splits)+

end
