(* ===== verification/MntTags.thy ===== *)
theory MntTags
  imports MntInv
begin

text \<open>
  Tags name the messages under way: with a server that only answers messages, the structures in use
  have different tags, all marked in the mask, and a message that is owed an answer either belongs
  to the one structure with its tag, which is in the queue, or its tag belongs to nobody.
\<close>

subsection \<open>Tags and owed messages\<close>

text \<open>The tag that a structure keeps: none while it is given up and not yet back in the pool.\<close>

definition ltag :: "mstate \<Rightarrow> rpcp \<Rightarrow> ushort option" where
  "ltag s r = (case ms_rpc s r of None \<Rightarrow> None
     | Some x \<Rightarrow> if r \<in> set (ms_rpcfree s) \<or> mr_done x \<noteq> 2 then Some (fc_tag (mr_request x)) else None)"

definition rq :: "mstate \<Rightarrow> rpcp \<Rightarrow> fcall option" where
  "rq s r = map_option mr_request (ms_rpc s r)"

abbreviation (input) NOTAG :: ushort where "NOTAG \<equiv> - 1"

definition tag_inv :: "(rpcp \<Rightarrow> ushort option) \<Rightarrow> nat set \<Rightarrow> bool" where
  "tag_inv L T \<longleftrightarrow> (\<forall>r r' t. L r = Some t \<longrightarrow> L r' = Some t \<longrightarrow> r = r') \<and>
     (\<forall>r t. L r = Some t \<longrightarrow> unat t \<in> T \<and> t \<noteq> 0 \<and> t \<noteq> NOTAG)"

definition owe_inv :: "(rpcp \<Rightarrow> ushort option) \<Rightarrow> nat set \<Rightarrow> (mntp \<Rightarrow> fcall list) \<Rightarrow> (mntp \<Rightarrow> rpcp set) \<Rightarrow>
    (rpcp \<Rightarrow> fcall option) \<Rightarrow> bool" where
  "owe_inv L T W Q R \<longleftrightarrow> (\<forall>m. distinct (map fc_tag (W m))) \<and>
     (\<forall>m m' x x'. x \<in> set (W m) \<longrightarrow> x' \<in> set (W m') \<longrightarrow> fc_tag x = fc_tag x' \<longrightarrow> m = m') \<and>
     (\<forall>m. \<forall>x \<in> set (W m). unat (fc_tag x) \<in> T \<and> fc_tag x \<noteq> 0 \<and> fc_tag x \<noteq> NOTAG \<and>
        (\<forall>r. L r = Some (fc_tag x) \<longrightarrow> r \<in> Q m \<and> R r = Some x))"

lemma tag_inv_off: "tag_inv L T \<Longrightarrow> tag_inv (L(r := None)) T"
  by (auto simp: tag_inv_def)

lemma tag_inv_new:
  "tag_inv L T \<Longrightarrow> unat t \<notin> T \<Longrightarrow> t \<noteq> 0 \<Longrightarrow> t \<noteq> NOTAG \<Longrightarrow> tag_inv (L(r \<mapsto> t)) (insert (unat t) T)"
  by (auto simp: tag_inv_def split: if_splits)

lemma tag_inv_free: "tag_inv L T \<Longrightarrow> L r = Some t \<Longrightarrow> tag_inv (L(r := None)) (T - {unat t})"
  by (auto simp: tag_inv_def simp flip: word_unat_eq_iff)

lemma tag_inv_stale: "tag_inv L T \<Longrightarrow> (\<And>r. L r \<noteq> Some t) \<Longrightarrow> tag_inv L (T - {unat t})"
  by (auto simp: tag_inv_def simp flip: word_unat_eq_iff)

lemma owe_invD:
  assumes "owe_inv L T W Q R" "x \<in> set (W m)"
  shows "unat (fc_tag x) \<in> T" "fc_tag x \<noteq> 0" "fc_tag x \<noteq> NOTAG" "L r = Some (fc_tag x) \<Longrightarrow> r \<in> Q m"
    "L r = Some (fc_tag x) \<Longrightarrow> R r = Some x" "x' \<in> set (W m') \<Longrightarrow> fc_tag x = fc_tag x' \<Longrightarrow> m = m'"
  using assms unfolding owe_inv_def by blast+

lemma owe_invI:
  assumes "owe_inv L T W Q R"
    "\<And>x m. x \<in> set (W m) \<Longrightarrow> unat (fc_tag x) \<in> T'"
    "\<And>x m r. x \<in> set (W m) \<Longrightarrow> L' r = Some (fc_tag x) \<Longrightarrow> L r = Some (fc_tag x)"
    "\<And>x m r. x \<in> set (W m) \<Longrightarrow> L' r = Some (fc_tag x) \<Longrightarrow> r \<in> Q m \<Longrightarrow> R r = Some x \<Longrightarrow> r \<in> Q' m \<and> R' r = Some x"
  shows "owe_inv L' T' W Q' R'"
proof -
  have "r \<in> Q' m \<and> R' r = Some x" if "x \<in> set (W m)" "L' r = Some (fc_tag x)" for x m r
    using assms(4) [OF that] assms(3) [OF that] owe_invD(4,5) [OF assms(1) that(1)] by blast
  then show ?thesis using assms(1,2) unfolding owe_inv_def by blast
qed

lemma owe_inv_off:
  assumes "owe_inv L T W Q R" "\<And>q. q \<noteq> r \<Longrightarrow> R' q = R q" "\<And>m q. q \<noteq> r \<Longrightarrow> q \<in> Q m \<Longrightarrow> q \<in> Q' m"
  shows "owe_inv (L(r := None)) T W Q' R'"
  by (rule owe_invI [OF assms(1)]) (use assms(2,3) owe_invD(1) [OF assms(1)] in \<open>auto split: if_splits\<close>)

lemma owe_inv_new:
  assumes "owe_inv L T W Q R" "unat t \<notin> T" "\<And>q. q \<noteq> r \<Longrightarrow> R' q = R q"
  shows "owe_inv (L(r \<mapsto> t)) (insert (unat t) T) W Q R'"
proof (rule owe_invI [OF assms(1)])
  fix x m q assume x: "x \<in> set (W m)"
  show "unat (fc_tag x) \<in> insert (unat t) T" using owe_invD(1) [OF assms(1) x] by simp
  assume q: "(L(r \<mapsto> t)) q = Some (fc_tag x)"
  have "q \<noteq> r" using owe_invD(1) [OF assms(1) x] q assms(2) by auto
  then show "L q = Some (fc_tag x)" and "R q = Some x \<Longrightarrow> q \<in> Q m \<Longrightarrow> q \<in> Q m \<and> R' q = Some x" using q assms(3) by simp_all
qed

lemma owe_inv_free:
  assumes "owe_inv L T W Q R" "L r = Some t" "\<And>m. r \<notin> Q m" "\<And>q. q \<noteq> r \<Longrightarrow> R' q = R q"
  shows "owe_inv (L(r := None)) (T - {unat t}) W Q R'"
proof (rule owe_invI [OF assms(1)])
  fix x m assume x: "x \<in> set (W m)"
  have "fc_tag x \<noteq> t" using owe_invD(4) [OF assms(1) x, of r] assms(2,3) by auto
  then show "unat (fc_tag x) \<in> T - {unat t}" using owe_invD(1) [OF assms(1) x] by (simp flip: word_unat_eq_iff)
qed (use assms(4) in \<open>auto split: if_splits\<close>)

lemma owe_inv_mono:
  assumes "owe_inv L T W Q R" "\<And>m q. q \<in> Q m \<Longrightarrow> q \<in> Q' m \<and> R' q = R q"
  shows "owe_inv L T W Q' R'"
  by (rule owe_invI [OF assms(1)]) (use assms(2) owe_invD(1) [OF assms(1)] in auto)

text \<open>The answer to the message with tag \<open>t\<close> has arrived.\<close>

lemma owe_inv_answer:
  assumes "owe_inv L T W Q R" "set os \<subseteq> {x \<in> set (W m). fc_tag x \<noteq> t}" "distinct (map fc_tag os)" "y \<in> set (W m)" "fc_tag y = t"
    "\<And>n q. q \<in> Q n \<Longrightarrow> L q \<noteq> Some t \<Longrightarrow> q \<in> Q' n" "\<And>q n. q \<in> Q n \<Longrightarrow> R' q = R q" "T - {unat t} \<subseteq> T'"
  shows "owe_inv L T' (W(m := os)) Q' R'"
proof -
  let ?W = "W(m := os)"
  have sub: "x \<in> set (W n)" if "x \<in> set (?W n)" for x n using that assms(2) by (auto split: if_splits)
  have ne: "fc_tag x \<noteq> t" if x: "x \<in> set (?W n)" for x n
  proof (cases "n = m")
    case True
    then show ?thesis using x assms(2) by auto
  next
    case False
    then show ?thesis using owe_invD(6) [OF assms(1) sub [OF x] assms(4)] assms(5) by auto
  qed
  have d: "\<forall>n. distinct (map fc_tag (?W n))" using assms(1,3) by (simp add: owe_inv_def)
  have u: "\<forall>n n' x x'. x \<in> set (?W n) \<longrightarrow> x' \<in> set (?W n') \<longrightarrow> fc_tag x = fc_tag x' \<longrightarrow> n = n'"
    using owe_invD(6) [OF assms(1)] sub by blast
  have "unat (fc_tag x) \<in> T' \<and> fc_tag x \<noteq> 0 \<and> fc_tag x \<noteq> NOTAG \<and>
      (\<forall>r. L r = Some (fc_tag x) \<longrightarrow> r \<in> Q' n \<and> R' r = Some x)" if x: "x \<in> set (?W n)" for x n
  proof -
    note o = owe_invD [OF assms(1) sub [OF x]]
    have "unat (fc_tag x) \<noteq> unat t" using ne [OF x] by (simp flip: word_unat_eq_iff)
    then have "unat (fc_tag x) \<in> T'" using o(1) assms(8) by blast
    moreover have "r \<in> Q' n \<and> R' r = Some x" if "L r = Some (fc_tag x)" for r
      using o(4) [OF that] o(5) [OF that] assms(6) [of r n] assms(7) [of r n] that ne [OF x] by simp
    ultimately show ?thesis using o(2,3) by blast
  qed
  then show ?thesis using d u unfolding owe_inv_def by blast
qed

lemma owe_inv_send:
  assumes "owe_inv L T W Q R" "tag_inv L T" "L r = Some (fc_tag x)" "r \<in> Q m" "R r = Some x" "\<And>n y. y \<in> set (W n) \<Longrightarrow> fc_tag y \<noteq> fc_tag x"
  shows "owe_inv L T (W(m := W m @ [x])) Q R"
proof -
  have o: "x' \<in> set ((W(m := W m @ [x])) n) \<longleftrightarrow> x' \<in> set (W n) \<or> n = m \<and> x' = x" for x' n by auto
  have "fc_tag x \<notin> set (map fc_tag (W m))" using assms(6) [of _ m] by fastforce
  then have "distinct (map fc_tag (W m @ [x]))" using assms(1) by (simp add: owe_inv_def)
  then have d: "\<forall>n. distinct (map fc_tag ((W(m := W m @ [x])) n))" using assms(1) by (simp add: owe_inv_def)
  have u: "n = n'" if "x1 \<in> set ((W(m := W m @ [x])) n)" "x2 \<in> set ((W(m := W m @ [x])) n')" "fc_tag x1 = fc_tag x2" for x1 x2 n n'
    using that(1,2) unfolding o
  proof (elim disjE)
    assume "x1 \<in> set (W n)" "x2 \<in> set (W n')"
    then show ?thesis using owe_invD(6) [OF assms(1)] that(3) by blast
  qed (use assms(6) that(3) in auto)
  have "unat (fc_tag x) \<in> T \<and> fc_tag x \<noteq> 0 \<and> fc_tag x \<noteq> NOTAG" using assms(2,3) unfolding tag_inv_def by blast
  moreover have "q \<in> Q m \<and> R q = Some x" if "L q = Some (fc_tag x)" for q
  proof -
    have "q = r" using assms(2,3) that unfolding tag_inv_def by blast
    then show ?thesis using assms(4,5) by simp
  qed
  ultimately have "\<forall>n. \<forall>y \<in> set ((W(m := W m @ [x])) n). unat (fc_tag y) \<in> T \<and> fc_tag y \<noteq> 0 \<and> fc_tag y \<noteq> NOTAG \<and>
      (\<forall>q. L q = Some (fc_tag y) \<longrightarrow> q \<in> Q n \<and> R q = Some y)"
    using owe_invD(1-5) [OF assms(1)] o by auto
  then show ?thesis using d u unfolding owe_inv_def by blast
qed

subsection \<open>Tags in every state\<close>

definition tagged :: "mstate \<Rightarrow> bool" where
  "tagged s \<longleftrightarrow> mask_ok (ms_tagmask s) \<and> {0, 65535} \<subseteq> tags (ms_tagmask s) \<and> tag_inv (ltag s) (tags (ms_tagmask s)) \<and>
     owe_inv (ltag s) (tags (ms_tagmask s)) (ms_owed s) (\<lambda>m. set (m_queue (ms_mnt s m))) (rq s)"

text \<open>
  A message that is about to be sent has a tag that nothing is owed for, and a reply that has been
  read answers a message.
\<close>

fun talk_ok :: "(rpcp \<Rightarrow> mntrpc option) \<Rightarrow> (mntp \<Rightarrow> fcall list) \<Rightarrow> proc \<Rightarrow> bool" where
  "talk_ok h W (In m (r # rs) Send) \<longleftrightarrow> (\<exists>z. h r = Some z \<and> mr_done z = 0 \<and>
     (\<forall>n. \<forall>x \<in> set (W n). fc_tag x \<noteq> fc_tag (mr_request z)))"
| "talk_ok h W (In m (r # rs) Mux) \<longleftrightarrow> (\<exists>z. h r = Some z \<and> (\<exists>x \<in> set (W m). answers x (mr_reply z)))"
| "talk_ok h W pr \<longleftrightarrow> True"

definition talks :: "mstate \<Rightarrow> bool" where
  "talks s \<longleftrightarrow> (\<forall>p. talk_ok (ms_rpc s) (ms_owed s) (ms_proc s p))"

lemma ltag_Some: "ms_rpc s r = Some x \<Longrightarrow> mr_done x \<noteq> 2 \<Longrightarrow> ltag s r = Some (fc_tag (mr_request x))"
  by (simp add: ltag_def)

lemma tagged_same:
  assumes "tagged s" "ltag s' = ltag s" "rq s' = rq s" "ms_tagmask s' = ms_tagmask s" "ms_owed s' = ms_owed s"
    "\<And>m. set (m_queue (ms_mnt s' m)) = set (m_queue (ms_mnt s m))"
  shows "tagged s'"
  using assms by (simp add: tagged_def)

lemma not_queued: "queued s \<Longrightarrow> dn s r \<noteq> 0 \<Longrightarrow> r \<notin> set (m_queue (ms_mnt s m))"
  by (simp add: queued_def)

lemma unheld_not_queued: "queued s \<Longrightarrow> (\<And>p. r \<notin> set (held (ms_proc s) p)) \<Longrightarrow> r \<notin> set (m_queue (ms_mnt s m))"
  using pending_held unfolding queued_def by fast

lemma held_not_free: "own s \<Longrightarrow> r \<in> set (held (ms_proc s) p) \<Longrightarrow> r \<notin> set (ms_rpcfree s)"
  unfolding own_def own_of_def by blast

lemma fetched_unheld: "fetched s r t s1 \<Longrightarrow> own s \<Longrightarrow> r \<notin> set (held (ms_proc s) p)"
proof
  assume "own s" "r \<in> set (held (ms_proc s) p)"
  then have "r \<in> dom (ms_rpc s)" "r \<notin> set (ms_rpcfree s)" unfolding own_def own_of_def by blast+
  then show "fetched s r t s1 \<Longrightarrow> False" by (auto elim!: fetched.cases)
qed

lemma unat_notag: "unat (NOTAG :: ushort) = 65535"
  by (simp add: unsigned_minus_1_eq_mask mask_eq_exp_minus_1)

lemma alloctag_new:
  assumes "mask_ok mk0" "{0, 65535} \<subseteq> tags mk0" "alloctag mk0 = Some (t, mk)"
  shows "mask_ok mk" "tags mk = insert (unat (of_nat t :: ushort)) (tags mk0)" "unat (of_nat t :: ushort) \<notin> tags mk0"
    "(of_nat t :: ushort) \<noteq> 0" "(of_nat t :: ushort) \<noteq> NOTAG"
proof -
  note g = mnttags.get_Some [OF assms(1,3)]
  then have u: "unat (of_nat t :: ushort) = t" by (simp add: unat_of_nat)
  show "mask_ok mk" "tags mk = insert (unat (of_nat t :: ushort)) (tags mk0)" "unat (of_nat t :: ushort) \<notin> tags mk0"
    using g u by simp_all
  have "0 \<in> tags mk0" "65535 \<in> tags mk0" using assms(2) by auto
  then have n: "t \<noteq> 0" "t \<noteq> 65535" using g by metis+
  show "(of_nat t :: ushort) \<noteq> 0" using u n(1) by auto
  show "(of_nat t :: ushort) \<noteq> NOTAG" using u n(2) unat_notag by metis
qed

text \<open>A structure is taken into use.\<close>

lemma tagged_fetch:
  assumes "tagged s" "own s" "queued s" "fetched s r t s1" "fc_tag (mr_request x) = t" "mr_done x = 0"
    "ms_rpc s' = (ms_rpc s)(r \<mapsto> x)" "ms_rpcfree s' = ms_rpcfree s1" "ms_tagmask s' = ms_tagmask s1"
    "ms_owed s' = ms_owed s" "ms_mnt s' = ms_mnt s"
  shows "tagged s'"
proof -
  have free: "r \<notin> set (held (ms_proc s) p)" for p
    using fetched_unheld [OF assms(4,2)] .
  have nq: "r \<notin> set (m_queue (ms_mnt s m))" for m using unheld_not_queued [OF assms(3)] free by blast
  have R: "q \<noteq> r \<Longrightarrow> rq s' q = rq s q" for q using assms(7) by (simp add: rq_def)
  note inv = assms(1) [unfolded tagged_def]
  from assms(4) show ?thesis
  proof cases
    case (fetch_new mk u)
    have "ltag s' = (ltag s)(r \<mapsto> t)" using assms(5-8) fetch_new by (auto simp: ltag_def fun_eq_iff split: option.split)
    moreover note a = alloctag_new [OF _ _ fetch_new(5)]
    ultimately show ?thesis
      using inv fetch_new assms(9-11) tag_inv_new [of "ltag s" "tags (ms_tagmask s)" t r]
        owe_inv_new [of "ltag s" "tags (ms_tagmask s)" "ms_owed s" "\<lambda>m. set (m_queue (ms_mnt s m))" "rq s" t r "rq s'"] R
      by (auto simp: tagged_def)
  next
    case (fetch_pool list y)
    then have "distinct (r # list)" using assms(2) unfolding own_def own_of_def by metis
    then have L: "ltag s' = ltag s" using assms(5-8) fetch_pool by (auto simp: ltag_def fun_eq_iff split: option.split)
    have "owe_inv (ltag s) (tags (ms_tagmask s)) (ms_owed s) (\<lambda>m. set (m_queue (ms_mnt s m))) (rq s')"
    proof (rule owe_inv_mono)
      fix m q assume "q \<in> set (m_queue (ms_mnt s m))"
      then show "q \<in> set (m_queue (ms_mnt s m)) \<and> rq s' q = rq s q" using R nq by metis
    qed (use inv in blast)
    then show ?thesis using inv fetch_pool assms(9-11) L by (simp add: tagged_def)
  qed
qed

text \<open>A structure that is no longer in a queue is given back.\<close>

lemma freetag_reserved:
  assumes "mask_ok mk" "{0, 65535} \<subseteq> tags mk" "t \<noteq> 0" "t \<noteq> NOTAG"
  shows "mask_ok (freetag mk (unat (t :: ushort))) \<and> tags (freetag mk (unat t)) = tags mk - {unat t} \<and>
    {0, 65535} \<subseteq> tags (freetag mk (unat t))"
proof -
  have lt: "unat t < 65536" using unsigned_less [of t] by simp
  have "unat t \<noteq> 0" using assms(3) by (simp add: unat_eq_0)
  moreover have "unat t \<noteq> 65535"
  proof
    assume "unat t = 65535"
    then have "unat t = unat (NOTAG :: ushort)" by (simp add: unat_notag)
    then show False using assms(4) by (simp only: word_unat_eq_iff [symmetric])
  qed
  ultimately show ?thesis using mnttags.put_spec [OF assms(1) lt] assms(2) by auto
qed

lemma tagged_release:
  assumes "tagged s" "released s r s1" "\<And>m. r \<notin> set (m_queue (ms_mnt s m))" "r \<notin> set (ms_rpcfree s)"
  shows "tagged s1"
proof -
  note inv = assms(1) [unfolded tagged_def]
  let ?Q = "\<lambda>m. set (m_queue (ms_mnt s m))"
  from assms(2) show ?thesis
  proof cases
    case (release_free x mk)
    have L: "ltag s1 = (ltag s)(r := None)" using release_free by (auto simp: ltag_def fun_eq_iff split: option.split)
    have R: "q \<noteq> r \<Longrightarrow> rq s1 q = rq s q" for q using release_free by (simp add: rq_def)
    have o: "owe_inv (ltag s1) (tags (ms_tagmask s)) (ms_owed s) ?Q (rq s1)" "tag_inv (ltag s1) (tags (ms_tagmask s))"
      unfolding L using inv R by (auto intro: owe_inv_off tag_inv_off)
    show ?thesis
    proof (cases "mr_done x = 2")
      case True
      then show ?thesis using o inv release_free by (simp add: tagged_def)
    next
      case False
      let ?t = "fc_tag (mr_request x)"
      have lt: "ltag s r = Some ?t" using ltag_Some release_free(2) False by blast
      then have n: "?t \<noteq> 0" "?t \<noteq> NOTAG" using inv unfolding tag_inv_def by blast+
      have f: "mask_ok (freetag (ms_tagmask s) (unat ?t))" "{0, 65535} \<subseteq> tags (freetag (ms_tagmask s) (unat ?t))"
          "tags (freetag (ms_tagmask s) (unat ?t)) = tags (ms_tagmask s) - {unat ?t}"
        using freetag_reserved [of "ms_tagmask s" ?t, OF _ _ n] inv by blast+
      have "owe_inv (ltag s1) (tags (ms_tagmask s) - {unat ?t}) (ms_owed s) ?Q (rq s1)"
        unfolding L by (rule owe_inv_free [where L = "ltag s" and r = r and t = ?t and Q = ?Q and R = "rq s"]) (use inv lt assms(3) R in auto)
      moreover have "tag_inv (ltag s1) (tags (ms_tagmask s) - {unat ?t})"
        unfolding L by (rule tag_inv_free [where L = "ltag s" and r = r and t = ?t]) (use inv lt in auto)
      ultimately show ?thesis using f(1,2) inv release_free False by (simp add: tagged_def f(3))
    qed
  next
    case (release_pool x mk t)
    have R: "q \<noteq> r \<Longrightarrow> rq s1 q = rq s q" for q using release_pool by (simp add: rq_def)
    show ?thesis
    proof (cases "mr_done x = 2")
      case False
      then have "ltag s1 = ltag s" "rq s1 = rq s" using release_pool by (auto simp: ltag_def rq_def fun_eq_iff split: option.split)
      then show ?thesis using inv release_pool False by (simp add: tagged_def)
    next
      case True
      then obtain u where u: "alloctag (ms_tagmask s) = Some (u, mk)" "t = of_nat u" using release_pool by auto
      note a = alloctag_new [OF _ _ u(1)]
      have "ltag s1 = (ltag s)(r \<mapsto> t)" using release_pool by (auto simp: ltag_def fun_eq_iff split: option.split)
      then show ?thesis using inv release_pool a u(2) tag_inv_new [of "ltag s" "tags (ms_tagmask s)" t r]
          owe_inv_new [of "ltag s" "tags (ms_tagmask s)" "ms_owed s" ?Q "rq s" t r "rq s1"] R
        by (auto simp: tagged_def)
    qed
  qed
qed

subsection \<open>Every step keeps the tags\<close>

lemma tagged_place [simp]: "tagged (place p m rs a s) = tagged s" "tagged (s\<lparr>ms_proc := pr\<rparr>) = tagged s"
proof -
  have "ltag (s\<lparr>ms_proc := pr\<rparr>) = ltag s" "rq (s\<lparr>ms_proc := pr\<rparr>) = rq s" for pr
    by (simp_all add: ltag_def rq_def fun_eq_iff cong: option.case_cong)
  then show "tagged (place p m rs a s) = tagged s" "tagged (s\<lparr>ms_proc := pr\<rparr>) = tagged s"
    by (simp_all add: tagged_def place_def)
qed

lemma tagged_woken:
  assumes "woken s q s1 \<or> gated m s s1" "tagged s" shows "tagged s1"
proof -
  have "ltag s1 = ltag s" using assms(1)
    by (elim disjE woken.cases gated.cases; hypsubst?; auto simp: ltag_def fun_eq_iff split: option.split if_splits)
  moreover have "rq s1 = rq s" using assms(1)
    by (elim disjE woken.cases gated.cases; hypsubst?; auto simp: rq_def fun_eq_iff)
  moreover have "set (m_queue (ms_mnt s1 n)) = set (m_queue (ms_mnt s n))" for n
    using assms(1) by (auto elim!: woken.cases gated.cases split: if_splits)
  ultimately show ?thesis using tagged_same [OF assms(2)] assms(1) woken_view(5,6) gated_view(5,6) by metis
qed

lemma settled_tags:
  "set (settled f xs) \<subseteq> {x \<in> set xs. fc_tag x \<noteq> fc_tag f}" "distinct (map fc_tag xs) \<Longrightarrow> distinct (map fc_tag (settled f xs))"
  by (auto simp: settled_def intro: distinct_map_filter)

lemma settled_sub: "x \<in> set (settled f xs) \<Longrightarrow> x \<in> set xs"
  by (simp add: settled_def)

lemma enqueue_unpending:
  assumes "own s" "ms_proc s p = In m (r # rs) Enqueue" shows "r \<notin> pending (ms_proc s) n"
proof
  assume "r \<in> pending (ms_proc s) n"
  then obtain h where h: "r \<in> set (held (ms_proc s) h)" "r \<in> pends n (ms_proc s h)" using pending_held by blast
  then have "h = p" using own_holder [OF assms(1), of r h p] assms(2) by (simp add: held_case)
  then show False using h(2) assms(2) own_distinct [OF assms(1,2)] by (simp split: if_splits)
qed

text \<open>The messages of \<open>m\<close> that \<open>f\<close> answers are settled, and what it answers leaves the queue.\<close>

lemma tagged_answer:
  assumes "tagged s" "y \<in> set (ms_owed s m)" "fc_tag y = fc_tag f"
    "ltag s' = ltag s" "rq s' = rq s" "ms_owed s' = (ms_owed s)(m := settled f (ms_owed s m))"
    "\<And>n q. q \<in> set (m_queue (ms_mnt s n)) \<Longrightarrow> ltag s q \<noteq> Some (fc_tag f) \<Longrightarrow> q \<in> set (m_queue (ms_mnt s' n))"
    "ms_tagmask s' = ms_tagmask s \<or> (\<forall>r. ltag s r \<noteq> Some (fc_tag f)) \<and> ms_tagmask s' = freetag (ms_tagmask s) (unat (fc_tag f))"
  shows "tagged s'"
proof -
  note inv = assms(1) [unfolded tagged_def]
  let ?t = "fc_tag f" and ?T = "tags (ms_tagmask s)" and ?Q = "\<lambda>m. set (m_queue (ms_mnt s m))"
  have ow: "owe_inv (ltag s) ?T (ms_owed s) ?Q (rq s)" and ti: "tag_inv (ltag s) ?T" using inv by blast+
  have d: "distinct (map fc_tag (ms_owed s m))" using ow by (simp add: owe_inv_def)
  have a: "owe_inv (ltag s) T' ((ms_owed s)(m := settled f (ms_owed s m))) (\<lambda>n. set (m_queue (ms_mnt s' n))) (rq s')"
    if "?T - {unat ?t} \<subseteq> T'" for T'
    by (rule owe_inv_answer [OF ow _ _ assms(2), of _ ?t])
      (use that assms(3,5,7) settled_tags(1) settled_tags(2) [OF d] in auto)
  from assms(8) show ?thesis
  proof (elim disjE conjE)
    assume "ms_tagmask s' = ms_tagmask s"
    then show ?thesis unfolding tagged_def assms(4,6) using inv a [of ?T] by simp
  next
    assume free: "\<forall>r. ltag s r \<noteq> Some ?t" and mk: "ms_tagmask s' = freetag (ms_tagmask s) (unat ?t)"
    have t: "?t \<noteq> 0" "?t \<noteq> NOTAG" using owe_invD(2,3) [OF ow assms(2)] assms(3) by auto
    have f: "mask_ok (ms_tagmask s')" "{0, 65535} \<subseteq> tags (ms_tagmask s')" "tags (ms_tagmask s') = ?T - {unat ?t}"
      unfolding mk using freetag_reserved [of "ms_tagmask s" ?t, OF _ _ t] inv by blast+
    have "tag_inv (ltag s) (?T - {unat ?t})" using tag_inv_stale [OF ti, of ?t] free by blast
    then show ?thesis unfolding tagged_def assms(4,6) using f(1,2) a [OF subset_refl] by (simp add: f(3))
  qed
qed

lemma queue_dn: "queued s \<Longrightarrow> q \<in> set (m_queue (ms_mnt s m)) \<Longrightarrow> dn s q = 0 \<and> q \<in> pending (ms_proc s) m"
  unfolding queued_def by blast

lemma mstep_tagged:
  assumes "mstep F s s'" "own s" "shaped s" "queued s" "talks s" "tagged s" shows "tagged s'"
proof -
  note inv = assms(6) [unfolded tagged_def]
  note talk = assms(5) [unfolded talks_def, rule_format]
  from assms(1) show ?thesis
  proof cases
    case (m_start p r t s1 x m)
    show ?thesis by (rule tagged_fetch [OF assms(6,2,4) m_start(3,4)]) (use m_start fetched_view [of s r t s1] in \<open>auto simp: place_def\<close>)
  next
    case (m_flush p m q rs r t s1 x)
    show ?thesis by (rule tagged_fetch [OF assms(6,2,4) m_flush(3,4)]) (use m_flush fetched_view [of s r t s1] in \<open>auto simp: place_def\<close>)
  next
    case (m_enqueue p m r rs x)
    have e: "ltag s' = ltag s" "rq s' = rq s" "ms_tagmask s' = ms_tagmask s" "ms_owed s' = ms_owed s"
      using m_enqueue by (auto simp: ltag_def rq_def place_def fun_eq_iff split: option.split)
    have "owe_inv (ltag s) (tags (ms_tagmask s)) (ms_owed s) (\<lambda>m. set (m_queue (ms_mnt s' m))) (rq s)"
      by (rule owe_inv_mono [of _ _ _ "\<lambda>m. set (m_queue (ms_mnt s m))" "rq s"]) (use inv m_enqueue(1) in \<open>auto simp: place_def\<close>)
    then show ?thesis unfolding tagged_def e using inv by blast
  next
    case (m_send p m r rs x ow a buf)
    obtain z where z: "ms_rpc s r = Some z" "mr_done z = 0" "\<And>n y. y \<in> set (ms_owed s n) \<Longrightarrow> fc_tag y \<noteq> fc_tag (mr_request z)"
      using talk [of p] m_send(2) by auto
    then have x: "z = x" using m_send(3) by simp
    have r: "r \<in> set (m_queue (ms_mnt s m))" using assms(4) m_send(2) z x unfolding queued_def by (auto simp: pending_at [of _ _ p])
    have e: "ltag s' = ltag s" "rq s' = rq s" "ms_tagmask s' = ms_tagmask s" "ms_owed s' = ow" "ms_mnt s' = ms_mnt s"
      using m_send by (auto simp: ltag_def rq_def place_def fun_eq_iff split: option.split)
    have "owe_inv (ltag s) (tags (ms_tagmask s)) ((ms_owed s)(m := ms_owed s m @ [mr_request x])) (\<lambda>m. set (m_queue (ms_mnt s m))) (rq s)"
      by (rule owe_inv_send [where r = r]) (use inv z x r ltag_Some [of s r x] in \<open>auto simp: rq_def\<close>)
    then show ?thesis using inv m_send(4) unfolding tagged_def e by auto
  next
    case (m_match p m r rs x q y)
    obtain w where w: "w \<in> set (ms_owed s m)" "fc_tag w = fc_tag (mr_reply x)"
      using talk [of p] m_match(2,4) by (auto simp: answers_def)
    have y: "mr_done y = 0" using queue_dn [OF assms(4) m_match(5)] m_match(6) by simp
    have lq: "ltag s q = Some (fc_tag (mr_reply x))" using ltag_Some [OF m_match(6)] y m_match(7) by simp
    have e: "ltag s' = ltag s" "rq s' = rq s" using m_match y by (auto simp: ltag_def rq_def place_def fun_eq_iff split: option.split)
    have k: "z \<in> set (remove1 q l)" if "z \<in> set l" "ltag s z \<noteq> Some (fc_tag (mr_reply x))" for z l
      using that lq by (metis in_set_remove1)
    show ?thesis by (rule tagged_answer [OF assms(6) w e]) (use m_match(1) k in \<open>auto simp: place_def\<close>)
  next
    case (m_own p m r rs x)
    obtain w where w: "w \<in> set (ms_owed s m)" "fc_tag w = fc_tag (mr_reply x)"
      using talk [of p] m_own(2,4) by (auto simp: answers_def)
    have y: "mr_done x = 0" using queue_dn [OF assms(4) m_own(5)] m_own(4) by simp
    have lq: "ltag s r = Some (fc_tag (mr_reply x))" using ltag_Some [OF m_own(4)] y m_own(6) by simp
    have e: "ltag s' = ltag s" "rq s' = rq s" using m_own y by (auto simp: ltag_def rq_def place_def fun_eq_iff split: option.split)
    have k: "z \<in> set (remove1 r l)" if "z \<in> set l" "ltag s z \<noteq> Some (fc_tag (mr_reply x))" for z l
      using that lq by (metis in_set_remove1)
    show ?thesis by (rule tagged_answer [OF assms(6) w e]) (use m_own(1) k in \<open>auto simp: place_def\<close>)
  next
    case (m_stale p m r rs x mk)
    obtain w where w: "w \<in> set (ms_owed s m)" "fc_tag w = fc_tag (mr_reply x)"
      using talk [of p] m_stale(2,4) by (auto simp: answers_def)
    have "owe_inv (ltag s) (tags (ms_tagmask s)) (ms_owed s) (\<lambda>m. set (m_queue (ms_mnt s m))) (rq s)" using inv by blast
    note o = owe_invD(4,5) [OF this w(1)]
    have "ltag s q \<noteq> Some (fc_tag (mr_reply x))" for q
    proof
      assume "ltag s q = Some (fc_tag (mr_reply x))"
      then have "q \<in> set (m_queue (ms_mnt s m))" "rq s q = Some w" using o w(2) by simp_all
      then show False using m_stale(5) w(2) by (fastforce simp: rq_def)
    qed
    moreover have e: "ltag s' = ltag s" "rq s' = rq s" using m_stale by (auto simp: ltag_def rq_def place_def fun_eq_iff split: option.split)
    ultimately show ?thesis by (intro tagged_answer [OF assms(6) w e]) (use m_stale in \<open>auto simp: place_def\<close>)
  next
    case (m_qrm p m r rs e x)
    have "r \<notin> set (ms_rpcfree s)" using held_not_free [OF assms(2), of r p] m_qrm(2) by (simp add: held_case)
    then have e: "ltag s' = (ltag s)(r := None)" "ms_tagmask s' = ms_tagmask s" "ms_owed s' = ms_owed s" "rq s' = rq s"
      using m_qrm by (auto simp: ltag_def rq_def place_def fun_eq_iff split: option.split)
    have "owe_inv ((ltag s)(r := None)) (tags (ms_tagmask s)) (ms_owed s) (\<lambda>m. set (m_queue (ms_mnt s' m))) (rq s)"
      by (rule owe_inv_off [of _ _ _ "\<lambda>m. set (m_queue (ms_mnt s m))" "rq s"]) (use inv m_qrm(1) in \<open>auto simp: place_def\<close>)
    then show ?thesis unfolding tagged_def e using inv tag_inv_off by blast
  next
    case (m_drop p m r q rs e s1)
    have "dn s r \<noteq> 0" using assms(4) m_drop(2) unfolding queued_def by (metis stage_ok.simps(2))
    then have "tagged s1" using m_drop(2) held_not_free [OF assms(2), of r p] not_queued [OF assms(4)]
      by (intro tagged_release [OF assms(6) m_drop(3)]) (auto simp: held_case)
    then show ?thesis using m_drop(1) by simp
  next
    case (m_return p m rs e s1)
    obtain r where r: "rs = [r]" using assms(3) m_return(2) unfolding shaped_def by (metis proc_ok.simps(1))
    have "dn s r \<noteq> 0" using assms(4) m_return(2) unfolding queued_def r by (metis stage_ok.simps(3))
    then have "tagged s1" using m_return(2,4) r held_not_free [OF assms(2), of r p] not_queued [OF assms(4)]
      by (intro tagged_release [OF assms(6), of r]) (auto simp: held_case)
    then show ?thesis using m_return(1) by simp
  next
    case (m_waking p m r rs q s1)
    have "tagged s1" using tagged_woken assms(6) m_waking(3) by blast
    then show ?thesis unfolding m_waking(1) tagged_place
      by (rule tagged_same) (auto simp: ltag_def rq_def fun_eq_iff cong: option.case_cong)
  next
    case (m_ungate p m r rs s1)
    then show ?thesis using tagged_woken [OF disjI2] assms(6) by simp
  next
    case (m_failgate p m r rs e s1)
    then show ?thesis using tagged_woken [OF disjI2] assms(6) by simp
  qed (hypsubst, simp only: tagged_place, rule tagged_same [OF assms(6)];
      auto simp: ltag_def rq_def fun_eq_iff assms(6) split: option.split)+
qed

text \<open>What the processes that send and deliver rely on.\<close>

definition core :: "mstate \<Rightarrow> rpcp \<Rightarrow> (fcall \<times> nat \<times> fcall) option" where
  "core s r = map_option (\<lambda>x. (mr_request x, mr_done x, mr_reply x)) (ms_rpc s r)"

lemma talk_keep:
  assumes "talk_ok (ms_rpc s) (ms_owed s) (In m rs a)"
    "\<And>r ts. rs = r # ts \<Longrightarrow> a = Send \<or> a = Mux \<Longrightarrow> core s' r = core s r"
    "\<And>r ts z n x. rs = r # ts \<Longrightarrow> a = Send \<Longrightarrow> ms_rpc s r = Some z \<Longrightarrow> x \<in> set (ms_owed s' n) \<Longrightarrow> fc_tag x = fc_tag (mr_request z) \<Longrightarrow>
      x \<in> set (ms_owed s n)"
    "a = Mux \<Longrightarrow> set (ms_owed s m) \<subseteq> set (ms_owed s' m)"
  shows "talk_ok (ms_rpc s') (ms_owed s') (In m rs a)"
proof (cases rs)
  case (Cons r ts)
  consider "a = Send" | "a = Mux" | "a \<noteq> Send" "a \<noteq> Mux" by blast
  then show ?thesis
  proof cases
    case 1
    then obtain z where z: "ms_rpc s r = Some z" "mr_done z = 0" "\<forall>n. \<forall>x \<in> set (ms_owed s n). fc_tag x \<noteq> fc_tag (mr_request z)"
      using assms(1) Cons by auto
    then obtain z' where "ms_rpc s' r = Some z'" "mr_done z' = 0" "mr_request z' = mr_request z"
      using assms(2) [OF Cons] 1 by (auto simp: core_def)
    then show ?thesis using 1 Cons z assms(3) [OF Cons 1 z(1)] by auto
  next
    case 2
    then obtain z x where z: "ms_rpc s r = Some z" "x \<in> set (ms_owed s m)" "answers x (mr_reply z)"
      using assms(1) Cons by auto
    then obtain z' where "ms_rpc s' r = Some z'" "mr_reply z' = mr_reply z"
      using assms(2) [OF Cons] 2 by (auto simp: core_def)
    then show ?thesis using 2 Cons z assms(4) by auto
  next
    case 3
    then show ?thesis using Cons by (cases a) auto
  qed
qed simp

lemma talk_light: "a \<noteq> Send \<Longrightarrow> a \<noteq> Mux \<Longrightarrow> talk_ok h W (In m rs a)"
  by (cases rs; cases a) auto

text \<open>A process moves on, and the structures and owed messages of others stay as they are.\<close>

lemma talks_move:
  assumes "talks s" "own s" "ms_proc s p = x" "ms_proc s' = (ms_proc s)(p := y)" "ms_owed s' = ms_owed s"
    "\<And>p' q. p' \<noteq> p \<Longrightarrow> q \<in> set (held (ms_proc s) p') \<Longrightarrow> core s' q = core s q" "talk_ok (ms_rpc s') (ms_owed s) y"
  shows "talks s'"
proof -
  have "talk_ok (ms_rpc s') (ms_owed s') (ms_proc s' p')" for p'
  proof (cases "p' = p")
    case False
    have t: "talk_ok (ms_rpc s) (ms_owed s) (ms_proc s p')" using assms(1) by (simp add: talks_def)
    show ?thesis
    proof (cases "ms_proc s p'")
      case (In m rs a)
      have "talk_ok (ms_rpc s') (ms_owed s') (In m rs a)"
        by (rule talk_keep [of s]) (use t In assms(5) assms(6) [OF False] in \<open>auto simp: held_case\<close>)
      then show ?thesis using assms(4) False In by simp
    qed (use assms(4) False in simp)
  qed (use assms(4,5,7) in simp)
  then show ?thesis by (simp add: talks_def)
qed

lemma talks_place:
  assumes "talks s" "own s" "ms_proc s p = In m rs a" "ms_proc s1 = ms_proc s" "ms_owed s1 = ms_owed s"
    "\<And>q. q \<notin> set rs \<Longrightarrow> core s1 q = core s q" "a' \<noteq> Send" "a' \<noteq> Mux"
  shows "talks (place p m rs' a' s1)"
proof (rule talks_move [OF assms(1-3)])
  fix p' q assume "p' \<noteq> p" "q \<in> set (held (ms_proc s) p')"
  then have "q \<notin> set rs" using own_holder [OF assms(2), of q p' p] assms(3) by (auto simp: held_case)
  then show "core (place p m rs' a' s1) q = core s q" using assms(6) by (simp add: place_def core_def)
qed (use assms(4,5) talk_light [OF assms(7,8)] in \<open>auto simp: place_def\<close>)

lemma talks_woken:
  assumes "talks s" "woken s q s1 \<or> gated m s s1" shows "talks s1"
proof -
  have c: "core s1 r = core s r" for r using assms(2) by (elim disjE woken.cases gated.cases; hypsubst?; auto simp: core_def)
  have w: "ms_owed s1 = ms_owed s" using assms(2) woken_view(5) gated_view(5) by metis
  have "talk_ok (ms_rpc s1) (ms_owed s1) (ms_proc s1 p)" for p
  proof (cases "ms_proc s1 p")
    case (In n rs a)
    have t: "talk_ok (ms_rpc s) (ms_owed s) (ms_proc s p)" using assms(1) by (simp add: talks_def)
    show ?thesis
    proof (cases "a = Send \<or> a = Mux")
      case True
      then have "a \<noteq> Check" by auto
      have "ms_proc s p = In n rs a" using woken_others [OF assms(2), of p]
      proof
        assume "ms_proc s1 p = rouse (ms_proc s p)"
        then have "rouse (ms_proc s p) = In n rs a" using In by metis
        from rouse_In [THEN iffD1, OF this] show ?thesis using \<open>a \<noteq> Check\<close> by blast
      qed (use In in simp)
      then have "talk_ok (ms_rpc s) (ms_owed s) (In n rs a)" using t by simp
      then show ?thesis unfolding In by (rule talk_keep) (simp_all add: c w)
    qed (use In talk_light in simp)
  qed simp
  then show ?thesis by (simp add: talks_def)
qed

lemma core_upd: "core (s\<lparr>ms_rpc := (ms_rpc s)(r \<mapsto> x)\<rparr>) q = (if q = r then Some (mr_request x, mr_done x, mr_reply x) else core s q)"
  by (simp add: core_def)

text \<open>A reply is taken from its process to the structure \<open>q\<close>.\<close>

lemma talks_answer:
  assumes "talks s" "own s" "queued s" "gates s" "ms_proc s p = In m rs Mux" "r \<in> set rs" "q \<in> set (m_queue (ms_mnt s m))" "ltag s q = Some (fc_tag f)"
    "w \<in> set (ms_owed s m)" "fc_tag w = fc_tag f"
    "ms_proc s' = (ms_proc s)(p := In m rs a)" "a \<noteq> Send" "a \<noteq> Mux" "ms_owed s' = (ms_owed s)(m := settled f (ms_owed s m))"
    "\<And>x. x \<noteq> q \<Longrightarrow> x \<noteq> r \<Longrightarrow> core s' x = core s x"
  shows "talks s'"
proof -
  have "talk_ok (ms_rpc s') (ms_owed s') (ms_proc s' p')" for p'
  proof (cases "p' = p")
    case True
    then show ?thesis using assms(11-13) talk_light by simp
  next
    case False
    show ?thesis
    proof (cases "ms_proc s p'")
      case (In n ts b)
      have t: "talk_ok (ms_rpc s) (ms_owed s) (In n ts b)" using assms(1) In unfolding talks_def by metis
      have nr: "x \<noteq> r" if "x \<in> set ts" for x
        using own_holder [OF assms(2), of r p' p] that False assms(5,6) In by (auto simp: held_case)
      have qm: "b = Mux \<Longrightarrow> n \<noteq> m" using gates_one_reader [OF assms(4,5) _ In [THEN trans]] False assms(5) In
        using gates_one_reader [OF assms(4), of p m rs Mux p' ts b] by auto
      have nq: "x \<noteq> q" if x: "ts = x # us" "b = Send \<or> b = Mux" for x us
      proof
        assume e: "x = q"
        from x(2) show False
        proof
          assume "b = Send"
          then have "ltag s q = Some (fc_tag f) \<Longrightarrow> False" using t x(1) e assms(9,10) by (auto simp: ltag_def split: if_splits)
          then show False using assms(8) by blast
        next
          assume b: "b = Mux"
          have "lk s q = Some (Some m)" using queue_dn [OF assms(3,7)] assms(3) unfolding queued_def by blast
          moreover have "q \<in> pending (ms_proc s) n" unfolding pending_at [of _ _ p'] In using x(1) e b by simp
          then have "lk s q = Some (Some n)" using assms(3) unfolding queued_def by blast
          ultimately show False using qm b by simp
        qed
      qed
      have "talk_ok (ms_rpc s') (ms_owed s') (In n ts b)"
      proof (rule talk_keep [OF t])
        show "b = Mux \<Longrightarrow> set (ms_owed s n) \<subseteq> set (ms_owed s' n)" using qm assms(14) by simp
      qed (use nq nr assms(14,15) settled_sub in \<open>auto split: if_splits\<close>)
      then show ?thesis using assms(11) False In by simp
    qed (use assms(11) False in simp)
  qed
  then show ?thesis by (simp add: talks_def)
qed

lemma mstep_talks:
  assumes "mstep F s s'" "own s" "shaped s" "queued s" "gates s" "tagged s" "Rude \<notin> F" "talks s" shows "talks s'"
proof -
  note talk = assms(8) [unfolded talks_def, rule_format]
  note inv = assms(6) [unfolded tagged_def]
  have other: "x \<noteq> r" if "ms_proc s p = In m rs a" "r \<in> set rs" "p' \<noteq> p" "x \<in> set (held (ms_proc s) p')" for p m rs a r p' x
    using own_holder [OF assms(2), of r p' p] that by (auto simp: held_case)
  from assms(1) show ?thesis
  proof cases
    case (m_start p r t s1 x m)
    show ?thesis by (rule talks_move [OF assms(8,2) m_start(2), where y = "In m [r] Enqueue"])
      (use m_start fetched_view [of s r t s1] fetched_unheld [OF m_start(3) assms(2)] in \<open>auto simp: place_def core_def\<close>)
  next
    case (m_flush p m q rs r t s1 x)
    show ?thesis by (rule talks_move [OF assms(8,2) m_flush(2), where y = "In m (r # q # rs) Enqueue"])
      (use m_flush fetched_view [of s r t s1] fetched_unheld [OF m_flush(3) assms(2)] in \<open>auto simp: place_def core_def\<close>)
  next
    case (m_enqueue p m r rs x)
    have d: "mr_done x = 0" using assms(4) m_enqueue(2,4) unfolding queued_def by (metis dn_Some stage_ok.simps(1))
    have "owe_inv (ltag s) (tags (ms_tagmask s)) (ms_owed s) (\<lambda>m. set (m_queue (ms_mnt s m))) (rq s)" using inv by blast
    note o = owe_invD(4) [OF this, of _ _ r]
    have "fc_tag y \<noteq> fc_tag (mr_request x)" if "y \<in> set (ms_owed s n)" for y n
      using o [OF that] queue_dn [OF assms(4), of r n] enqueue_unpending [OF assms(2) m_enqueue(2)] ltag_Some [OF m_enqueue(4)] d by auto
    then show ?thesis using m_enqueue(1) d other [OF m_enqueue(2)]
      by (intro talks_move [OF assms(8,2) m_enqueue(2), where y = "In m (r # rs) Send"]) (auto simp: place_def core_def)
  next
    case (m_send p m r rs x ow a buf)
    obtain z where z: "ms_rpc s r = Some z" "mr_done z = 0" using talk [of p] m_send(2) by auto
    then have x: "ms_rpc s r = Some x" "mr_done x = 0" using m_send(3) by simp_all
    have ti: "tag_inv (ltag s) (tags (ms_tagmask s))" using inv by blast
    have "talk_ok (ms_rpc s') (ms_owed s') (ms_proc s' p')" for p'
    proof (cases "p' = p")
      case True
      then show ?thesis using m_send(1,5) by (auto simp: place_def)
    next
      case False
      show ?thesis
      proof (cases "ms_proc s p'")
        case (In n ts b)
        have t: "talk_ok (ms_rpc s) (ms_owed s) (In n ts b)" using talk [of p'] In by simp
        have nr: "r \<notin> set ts" using other [OF m_send(2) _ False, of r] In by (auto simp: held_case)
        have new: "fc_tag (mr_request x) \<noteq> fc_tag (mr_request y)" if "ts = u # us" "b = Send" "ms_rpc s u = Some y" for u us y
        proof
          assume e: "fc_tag (mr_request x) = fc_tag (mr_request y)"
          have "mr_done y = 0" using t that by auto
          then have "ltag s u = ltag s r" using ltag_Some [OF that(3)] ltag_Some [OF x(1)] x(2) e by simp
          then have "u = r" using ltag_Some [OF x(1)] x(2) ti unfolding tag_inv_def by auto
          then show False using nr that(1) by simp
        qed
        have "talk_ok (ms_rpc s') (ms_owed s') (In n ts b)"
          by (rule talk_keep [OF t]) (use m_send(1,4) nr new in \<open>auto simp: place_def core_def split: if_splits\<close>)
        then show ?thesis using m_send(1) False In by (simp add: place_def)
      qed (use m_send(1) False in \<open>simp add: place_def\<close>)
    qed
    then show ?thesis by (simp add: talks_def)
  next
    case (m_reply p m r rs x f c)
    then show ?thesis using assms(7) other [OF m_reply(2)]
      by (intro talks_move [OF assms(8,2) m_reply(2), where y = "In m (r # rs) Mux"]) (auto simp: place_def core_def)
  next
    case (m_match p m r rs x q y)
    obtain w where w: "w \<in> set (ms_owed s m)" "fc_tag w = fc_tag (mr_reply x)"
      using talk [of p] m_match(2,4) by (auto simp: answers_def)
    have "ltag s q = Some (fc_tag (mr_reply x))" using ltag_Some [OF m_match(6)] queue_dn [OF assms(4) m_match(5)] m_match(6,7) by simp
    from talks_answer [OF assms(8,2,4,5) m_match(2) _ m_match(5) this w, where a = "Waking q" and r = r] show ?thesis
      using m_match(1) by (simp add: place_def core_def)
  next
    case (m_own p m r rs x)
    obtain w where w: "w \<in> set (ms_owed s m)" "fc_tag w = fc_tag (mr_reply x)"
      using talk [of p] m_own(2,4) by (auto simp: answers_def)
    have "ltag s r = Some (fc_tag (mr_reply x))" using ltag_Some [OF m_own(4)] queue_dn [OF assms(4) m_own(5)] m_own(4,6) by simp
    from talks_answer [OF assms(8,2,4,5) m_own(2) _ m_own(5) this w, where a = Read and r = r] show ?thesis
      using m_own(1) by (simp add: place_def core_def)
  next
    case (m_stale p m r rs x mk)
    have "talk_ok (ms_rpc s') (ms_owed s') (ms_proc s' p')" for p'
    proof (cases "p' = p \<or> ms_proc s p' = Out")
      case True
      then show ?thesis using m_stale(1) by (auto simp: place_def)
    next
      case False
      then obtain n ts b where In: "ms_proc s p' = In n ts b" by (cases "ms_proc s p'") auto
      have "b = Mux \<Longrightarrow> n \<noteq> m" using gates_one_reader [OF assms(5), of p m "r # rs" Mux p' ts b] m_stale(2) In False by auto
      moreover have "talk_ok (ms_rpc s) (ms_owed s) (In n ts b)" using talk [of p'] In by simp
      ultimately have "talk_ok (ms_rpc s') (ms_owed s') (In n ts b)"
        by (elim talk_keep; use m_stale(1) settled_sub in \<open>auto simp: place_def core_def split: if_splits\<close>)
      then show ?thesis using m_stale(1) False In by (simp add: place_def)
    qed
    then show ?thesis by (simp add: talks_def)
  next
    case (m_waking p m r rs q s1)
    note w = disjI1 [OF m_waking(3)]
    have "held (ms_proc s1) = held (ms_proc s)" "own s1" using woken_view [OF m_waking(3)] assms(2) by (simp_all add: own_def)
    then show ?thesis unfolding m_waking(1)
      by (intro talks_place [OF talks_woken [OF assms(8) w] _ woken_awake [OF w m_waking(2)]]) (auto simp: core_def)
  next
    case (m_ungate p m r rs s1)
    note w = disjI2 [OF m_ungate(4)]
    have "own s1" using gated_view [OF m_ungate(4)] assms(2) by (simp add: own_def)
    then show ?thesis unfolding m_ungate(1)
      by (intro talks_place [OF talks_woken [OF assms(8) w] _ woken_awake [OF w m_ungate(2)]]) (auto simp: core_def)
  next
    case (m_failgate p m r rs e s1)
    note w = disjI2 [OF m_failgate(5)]
    have "own s1" using gated_view [OF m_failgate(5)] assms(2) by (simp add: own_def)
    then show ?thesis unfolding m_failgate(1)
      by (intro talks_place [OF talks_woken [OF assms(8) w] _ woken_awake [OF w m_failgate(2)]]) (auto simp: core_def)
  next
    case (m_drop p m r q rs e s1)
    show ?thesis unfolding m_drop(1)
      by (rule talks_place [OF assms(8,2) m_drop(2)]) (use released_view [OF m_drop(3)] m_drop(3) in \<open>auto simp: core_def elim!: released.cases\<close>)
  next
    case (m_return p m rs e s1)
    have l: "last rs \<in> set rs" using m_return(3) by simp
    show ?thesis by (rule talks_move [OF assms(8,2) m_return(2), where y = Out])
      (use m_return(1) released_view [OF m_return(4)] m_return(4) other [OF m_return(2) l] in \<open>auto simp: core_def elim!: released.cases\<close>)
  qed (hypsubst, erule talks_place [OF assms(8,2)]; auto simp: core_def split: if_splits)+
qed

end
