(* ===== verification/MntReach.thy ===== *)
theory MntReach
  imports MntTags
begin

text \<open>
  Properties of the mount driver in every reachable state: who reads a connection, that tags tell
  the structures apart and replies reach the ones they are for, that a reply fits its request, and
  that no process sleeps on a connection that nobody will read.
\<close>

subsection \<open>The invariants together\<close>

definition minv :: "mstate \<Rightarrow> bool" where
  "minv s \<longleftrightarrow> own s \<and> shaped s \<and> gates s \<and> sleeps s \<and> queued s"

lemma mstart_fields [simp]:
  "ms_rpc (mstart sz) r = None" "m_queue (ms_mnt (mstart sz) m) = []" "m_rip (ms_mnt (mstart sz) m) = None"
  "m_lock (ms_mnt (mstart sz) m) = False" "ms_rpcfree (mstart sz) = []" "ms_tagmask (mstart sz) = mntreset"
  "ms_proc (mstart sz) p = Out" "ms_owed (mstart sz) m = []"
  by (simp_all add: mstart_def)

lemma minv_start: "minv (mstart sz)"
proof -
  have "held (ms_proc (mstart sz)) p = []" for p by (simp add: held_def)
  then have "own (mstart sz)" by (simp add: own_def own_of_def dom_def)
  moreover have "pending (ms_proc (mstart sz)) m = {}" for m by (simp add: pending_def)
  then have "queued (mstart sz)" by (simp add: queued_def)
  ultimately show ?thesis by (simp add: minv_def shaped_def gates_def sleeps_def sleeper_def)
qed

lemma tagged_start: "tagged (mstart sz) \<and> talks (mstart sz)"
proof -
  have "ltag (mstart sz) = (\<lambda>_. None)" by (simp add: ltag_def fun_eq_iff)
  then show ?thesis using mntreset_ok by (simp add: tagged_def talks_def tag_inv_def owe_inv_def)
qed

lemma mstep_minv: "mstep F s s' \<Longrightarrow> minv s \<Longrightarrow> minv s'"
  unfolding minv_def using mstep_own mstep_shaped mstep_gates mstep_sleeps mstep_queued by blast

lemma mreach_minv: "mreach F s \<Longrightarrow> NoMem \<notin> F \<Longrightarrow> minv s"
  by (induction rule: mreach.induct) (use minv_start mstep_minv happens_mstep in blast)+

lemma mreach_tagged: "mreach F s \<Longrightarrow> NoMem \<notin> F \<Longrightarrow> Rude \<notin> F \<Longrightarrow> tagged s \<and> talks s"
proof (induction rule: mreach.induct)
  case (mreach_step s e s')
  have "minv s" using mreach_minv [OF mreach_step(1) mreach_step(5)] .
  then show ?case using mreach_step happens_mstep [OF mreach_step(2,3,5)] mstep_tagged [of F s s'] mstep_talks [of F s s']
    by (simp add: minv_def)
qed (rule tagged_start)

subsection \<open>Replies fitting requests\<close>

text \<open>A structure that is complete has a reply to its request, or was given up.\<close>

fun fitting :: "fcall \<times> nat \<times> fcall \<Rightarrow> bool" where
  "fitting (q, d, f) \<longleftrightarrow> d \<le> 2 \<and> (d = 1 \<longrightarrow> answers q f) \<and> (d = 2 \<longrightarrow> answers q f \<or> fc_type f = Rflush)"

fun proc_fits :: "(rpcp \<Rightarrow> (fcall \<times> nat \<times> fcall) option) \<Rightarrow> proc \<Rightarrow> bool" where
  "proc_fits c Out \<longleftrightarrow> True"
| "proc_fits c (In m rs a) \<longleftrightarrow> (\<forall>r \<in> set rs. \<exists>v. c r = Some v \<and> fitting v) \<and>
     (\<exists>v. c (last rs) = Some v \<and> fc_type (fst v) \<noteq> Tflush) \<and>
     (\<forall>e. a = Qrm e \<longrightarrow> (\<exists>q d f. c (hd rs) = Some (q, d, f) \<and> (answers q f \<or> fc_type f = Rflush)))"

definition fits :: "mstate \<Rightarrow> bool" where
  "fits s \<longleftrightarrow> (\<forall>p. proc_fits (core s) (ms_proc s p))"

text \<open>A structure stays as it is, or becomes complete.\<close>

definition upgrade :: "(rpcp \<Rightarrow> (fcall \<times> nat \<times> fcall) option) \<Rightarrow> (rpcp \<Rightarrow> (fcall \<times> nat \<times> fcall) option) \<Rightarrow> rpcp \<Rightarrow> bool" where
  "upgrade c c' r \<longleftrightarrow> c' r = c r \<or> (\<exists>q d f f'. c r = Some (q, d, f) \<and> c' r = Some (q, 1, f') \<and> answers q f')"

lemma upgrade_fit: "upgrade c c' r \<Longrightarrow> c r = Some v \<Longrightarrow> fitting v \<Longrightarrow> \<exists>v'. c' r = Some v' \<and> fitting v' \<and> fst v' = fst v"
  by (cases v) (auto simp: upgrade_def)

lemma proc_fits_keep:
  assumes "proc_fits c (In m rs a)" "rs \<noteq> []" "\<And>r. r \<in> set rs \<Longrightarrow> upgrade c c' r" "\<forall>e. a' = Qrm e \<longrightarrow> a = Qrm e"
  shows "proc_fits c' (In m rs a')"
proof -
  have "\<exists>v. c' r = Some v \<and> fitting v" if "r \<in> set rs" for r
    using assms(1) upgrade_fit [OF assms(3) [OF that]] that by fastforce
  moreover obtain v where v: "c (last rs) = Some v" "fc_type (fst v) \<noteq> Tflush" "fitting v" using assms(1,2) by fastforce
  then have "\<exists>v. c' (last rs) = Some v \<and> fc_type (fst v) \<noteq> Tflush"
    using upgrade_fit [OF assms(3) v(1,3)] assms(2) by auto
  moreover have "\<exists>q d f. c' (hd rs) = Some (q, d, f) \<and> (answers q f \<or> fc_type f = Rflush)" if "a' = Qrm e" for e
  proof -
    have "a = Qrm e" using assms(4) that by blast
    then show ?thesis using assms(1) assms(3) [of "hd rs"] assms(2) by (fastforce simp: upgrade_def)
  qed
  ultimately show ?thesis by simp
qed

lemma proc_fits_rouse: "proc_fits c pr \<Longrightarrow> proc_fits c (rouse pr)"
  by (cases pr rule: rouse.cases) auto

lemma fits_move:
  assumes "fits s" "shaped s" "own s" "ms_proc s p = x" "ms_proc s' = (ms_proc s)(p := y)"
    "\<And>p' q. p' \<noteq> p \<Longrightarrow> q \<in> set (held (ms_proc s) p') \<Longrightarrow> upgrade (core s) (core s') q" "proc_fits (core s') y"
  shows "fits s'"
proof -
  have "proc_fits (core s') (ms_proc s' p')" for p'
  proof (cases "p' = p \<or> ms_proc s p' = Out")
    case True
    then show ?thesis using assms(5,7) by auto
  next
    case False
    then obtain m rs a where In: "ms_proc s p' = In m rs a" by (cases "ms_proc s p'") auto
    have "proc_fits (core s) (In m rs a)" using assms(1) In unfolding fits_def by metis
    moreover have "rs \<noteq> []" using assms(2) In proc_ok_ne unfolding shaped_def by metis
    ultimately have "proc_fits (core s') (In m rs a)"
      by (rule proc_fits_keep) (use assms(6) [of p'] False In in \<open>auto simp: held_case\<close>)
    then show ?thesis using assms(5) False In by simp
  qed
  then show ?thesis by (simp add: fits_def)
qed

lemma fits_place:
  assumes "fits s" "shaped s" "own s" "ms_proc s p = In m rs a" "ms_proc s1 = ms_proc s"
    "\<And>q. upgrade (core s) (core s1) q" "\<forall>e. a' = Qrm e \<longrightarrow> a = Qrm e"
  shows "fits (place p m rs a' s1)"
proof (rule fits_move [OF assms(1-4)])
  have c: "core (place p m rs a' s1) = core s1" by (simp add: place_def core_def fun_eq_iff)
  show "upgrade (core s) (core (place p m rs a' s1)) q" for q using c assms(6) by simp
  have "proc_fits (core s) (In m rs a)" using assms(1,4) unfolding fits_def by metis
  moreover have "rs \<noteq> []" using assms(2,4) proc_ok_ne unfolding shaped_def by metis
  ultimately show "proc_fits (core (place p m rs a' s1)) (In m rs a')" unfolding c by (rule proc_fits_keep) (use assms(6,7) in auto)
qed (use assms(5) in \<open>auto simp: place_def\<close>)

lemma fits_woken:
  assumes "fits s" "woken s q s1 \<or> gated m s s1" shows "fits s1"
proof -
  have c: "core s1 = core s" using assms(2) by (elim disjE woken.cases gated.cases; hypsubst?; auto simp: core_def fun_eq_iff)
  have "proc_fits (core s) (ms_proc s1 p)" for p
    using woken_others [OF assms(2), of p] assms(1) proc_fits_rouse unfolding fits_def by metis
  then show ?thesis by (simp add: fits_def c)
qed

lemma upgrade_same: "c' r = c r \<Longrightarrow> upgrade c c' r"
  by (simp add: upgrade_def)

lemma fits_one:
  assumes "fits s" "shaped s" "own s" "ms_proc s p = x" "ms_proc s' = (ms_proc s)(p := y)" "core s' = (core s)(r \<mapsto> v)"
    "\<And>p'. p' \<noteq> p \<Longrightarrow> r \<notin> set (held (ms_proc s) p')" "proc_fits (core s') y"
  shows "fits s'"
proof (rule fits_move [OF assms(1-5) _ assms(8)])
  fix p' q assume "p' \<noteq> p" "q \<in> set (held (ms_proc s) p')"
  then have "q \<noteq> r" using assms(7) by blast
  then show "upgrade (core s) (core s') q" by (simp add: assms(6) upgrade_def)
qed

lemma core_head: "fits s \<Longrightarrow> ms_proc s p = In m rs a \<Longrightarrow> proc_fits (core s) (In m rs a)"
  unfolding fits_def by metis

text \<open>The message that the structure with the tag of a reply has sent is the one that is answered.\<close>

lemma reply_fits:
  assumes "tagged s" "queued s" "w \<in> set (ms_owed s m)" "answers w f" "ms_rpc s q = Some y" "mr_done y = 0" "fc_tag (mr_request y) = fc_tag f"
  shows "mr_request y = w"
proof -
  have o: "owe_inv (ltag s) (tags (ms_tagmask s)) (ms_owed s) (\<lambda>m. set (m_queue (ms_mnt s m))) (rq s)"
    using assms(1) by (simp add: tagged_def)
  have "ltag s q = Some (fc_tag w)" using ltag_Some [OF assms(5)] assms(4,6,7) by (simp add: answers_def)
  from owe_invD(5) [OF o assms(3) this] show ?thesis using assms(5) by (simp add: rq_def)
qed

lemma mstep_fits:
  assumes "mstep F s s'" "minv s" "tagged s" "talks s" "fits s" shows "fits s'"
proof -
  have i: "own s" "shaped s" "gates s" "queued s" using assms(2) by (simp_all add: minv_def)
  note talk = assms(4) [unfolded talks_def, rule_format]
  have other: "x \<noteq> r" if "ms_proc s p = In m rs a" "r \<in> set rs" "p' \<noteq> p" "x \<in> set (held (ms_proc s) p')" for p m rs a r p' x
    using own_holder [OF i(1), of r p' p] that by (auto simp: held_case)
  from assms(1) show ?thesis
  proof cases
    case (m_start p r t s1 x m)
    show ?thesis by (rule fits_move [OF assms(5) i(2,1) m_start(2), where y = "In m [r] Enqueue"])
      (use m_start fetched_view [of s r t s1] fetched_unheld [OF m_start(3) i(1)] in \<open>auto simp: place_def core_def upgrade_def\<close>)
  next
    case (m_flush p m q rs r t s1 x)
    have f: "\<And>p. r \<notin> set (held (ms_proc s) p)" using fetched_unheld [OF m_flush(3) i(1)] .
    then have r: "r \<notin> set (q # rs)" using m_flush(2) by (metis held_In)
    have c: "core s' = (core s)(r \<mapsto> (mr_request x, 0, mr_reply x))"
      using m_flush fetched_view [of s r t s1] by (auto simp: place_def core_def fun_eq_iff)
    have "proc_fits (core s') (In m (q # rs) Enqueue)"
      by (rule proc_fits_keep [OF core_head [OF assms(5) m_flush(2)]]) (use r in \<open>auto simp: c upgrade_def\<close>)
    then have e: "proc_fits (core s') (In m (r # q # rs) Enqueue)" by (simp add: c)
    show ?thesis by (rule fits_one [OF assms(5) i(2,1) m_flush(2) _ c f e])
      (simp add: m_flush(1) place_def fetched_view [OF m_flush(3)])
  next
    case (m_reply p m r rs x f c)
    have c: "core s' = (core s)(r \<mapsto> (mr_request x, 0, f))" using m_reply by (auto simp: place_def core_def fun_eq_iff)
    have "proc_fits (core s') (In m (r # rs) Mux)"
      using core_head [OF assms(5) m_reply(2)] own_distinct [OF i(1) m_reply(2)] m_reply(3) by (auto simp: c core_def)
    then show ?thesis by (intro fits_one [OF assms(5) i(2,1) m_reply(2) _ c])
      (use other [OF m_reply(2), of r] in \<open>auto simp: m_reply(1) place_def\<close>)
  next
    case (m_readfail p m r rs x e f)
    have c: "core s' = (core s)(r \<mapsto> (mr_request x, 0, f))" using m_readfail by (auto simp: place_def core_def fun_eq_iff)
    have "proc_fits (core s') (In m (r # rs) (Fail e))"
      using core_head [OF assms(5) m_readfail(2)] own_distinct [OF i(1) m_readfail(2)] m_readfail(3) by (auto simp: c core_def)
    then show ?thesis by (intro fits_one [OF assms(5) i(2,1) m_readfail(2) _ c])
      (use other [OF m_readfail(2), of r] in \<open>auto simp: m_readfail(1) place_def\<close>)
  next
    case (m_undone p m r rs e x)
    let ?f = "(mr_reply x)\<lparr>fc_type := Rflush\<rparr>"
    have c: "core s' = (core s)(r \<mapsto> (mr_request x, 0, ?f))" using m_undone by (auto simp: place_def core_def fun_eq_iff)
    have "proc_fits (core s') (In m (r # rs) (Qrm e))"
      using core_head [OF assms(5) m_undone(2)] own_distinct [OF i(1) m_undone(2)] m_undone(3) by (auto simp: c core_def)
    then show ?thesis by (intro fits_one [OF assms(5) i(2,1) m_undone(2) _ c])
      (use other [OF m_undone(2), of r] in \<open>auto simp: m_undone(1) place_def\<close>)
  next
    case (m_qrm p m r rs e x)
    have c: "core s' = (core s)(r \<mapsto> (mr_request x, 2, mr_reply x))" using m_qrm by (auto simp: place_def core_def fun_eq_iff)
    have "proc_fits (core s') (In m (r # rs) (Drop e))"
      using core_head [OF assms(5) m_qrm(2)] own_distinct [OF i(1) m_qrm(2)] m_qrm(4) by (auto simp: c core_def)
    then show ?thesis by (intro fits_one [OF assms(5) i(2,1) m_qrm(2) _ c])
      (use other [OF m_qrm(2), of r] in \<open>auto simp: m_qrm(1) place_def\<close>)
  next
    case (m_match p m r rs x q y)
    obtain w where w: "w \<in> set (ms_owed s m)" "answers w (mr_reply x)" using talk [of p] m_match(2,4) by auto
    have "mr_request y = w" by (rule reply_fits [OF assms(3) i(4) w m_match(6)]) (use queue_dn [OF i(4) m_match(5)] m_match(6,7) in auto)
    then have u: "upgrade (core s) (core s1) z" if "s1 = s\<lparr>
          ms_mnt := upd_mnt m (\<lambda>c. c\<lparr>m_queue := remove1 q (m_queue c), m_lock := True\<rparr>) s,
          ms_rpc := (ms_rpc s)(q \<mapsto> y\<lparr>mr_reply := mr_reply x, mr_b := mr_b x, mr_done := 1\<rparr>, r \<mapsto> x\<lparr>mr_b := []\<rparr>),
          ms_owed := (ms_owed s)(m := settled (mr_reply x) (ms_owed s m))\<rparr>" for s1 z
      using w(2) m_match(4,6) by (auto simp: that upgrade_def core_def)
    show ?thesis unfolding m_match(1) by (rule fits_place [OF assms(5) i(2,1) m_match(2)]) (use u in auto)
  next
    case (m_own p m r rs x)
    obtain w where w: "w \<in> set (ms_owed s m)" "answers w (mr_reply x)" using talk [of p] m_own(2,4) by auto
    have "mr_request x = w" by (rule reply_fits [OF assms(3) i(4) w m_own(4)]) (use queue_dn [OF i(4) m_own(5)] m_own(4,6) in auto)
    then have u: "upgrade (core s) (core s1) z" if "s1 = s\<lparr>
          ms_mnt := upd_mnt m (\<lambda>c. c\<lparr>m_queue := remove1 r (m_queue c)\<rparr>) s,
          ms_rpc := (ms_rpc s)(r \<mapsto> x\<lparr>mr_done := 1\<rparr>),
          ms_owed := (ms_owed s)(m := settled (mr_reply x) (ms_owed s m))\<rparr>" for s1 z
      using w(2) m_own(4) by (auto simp: that upgrade_def core_def)
    show ?thesis unfolding m_own(1) by (rule fits_place [OF assms(5) i(2,1) m_own(2)]) (use u in auto)
  next
    case (m_waking p m r rs q s1)
    note w = disjI1 [OF m_waking(3)]
    have "own s1" "shaped s1" using woken_view [OF m_waking(3)] i(1,2) woken_others [OF w]
      by (auto simp: own_def shaped_def) (metis proc_ok_rouse)
    then show ?thesis unfolding m_waking(1)
      by (intro fits_place [OF fits_woken [OF assms(5) w] _ _ woken_awake [OF w m_waking(2)]]) (auto simp: core_def upgrade_def)
  next
    case (m_ungate p m r rs s1)
    note w = disjI2 [OF m_ungate(4)]
    have "own s1" "shaped s1" using gated_view [OF m_ungate(4)] i(1,2) woken_others [OF w]
      by (auto simp: own_def shaped_def) (metis proc_ok_rouse)
    then show ?thesis unfolding m_ungate(1)
      by (intro fits_place [OF fits_woken [OF assms(5) w] _ _ woken_awake [OF w m_ungate(2)]]) (auto simp: core_def upgrade_def)
  next
    case (m_failgate p m r rs e s1)
    note w = disjI2 [OF m_failgate(5)]
    have "own s1" "shaped s1" using gated_view [OF m_failgate(5)] i(1,2) woken_others [OF w]
      by (auto simp: own_def shaped_def) (metis proc_ok_rouse)
    then show ?thesis unfolding m_failgate(1)
      by (intro fits_place [OF fits_woken [OF assms(5) w] _ _ woken_awake [OF w m_failgate(2)]]) (auto simp: core_def upgrade_def)
  next
    case (m_drop p m r q rs e s1)
    have c: "x \<noteq> r \<Longrightarrow> core s' x = core s x" for x using m_drop(1,3) by (auto simp: place_def core_def elim!: released.cases)
    have r: "r \<notin> set (q # rs)" using own_distinct [OF i(1) m_drop(2)] by simp
    have "proc_fits (core s) (In m (q # rs) (Free e))" using core_head [OF assms(5) m_drop(2)] by auto
    then have e: "proc_fits (core s') (In m (q # rs) (Free e))"
      by (rule proc_fits_keep) (use r in \<open>auto intro!: upgrade_same c\<close>)
    show ?thesis
    proof (rule fits_move [OF assms(5) i(2,1) m_drop(2) _ _ e])
      fix p' z assume "p' \<noteq> p" "z \<in> set (held (ms_proc s) p')"
      then have "z \<noteq> r" using other [OF m_drop(2), of r p' z] by simp
      then show "upgrade (core s) (core s') z" by (intro upgrade_same c)
    qed (simp add: m_drop(1) place_def released_view [OF m_drop(3)])
  next
    case (m_return p m rs e s1)
    have l: "last rs \<in> set rs" using m_return(3) by simp
    have c: "x \<noteq> last rs \<Longrightarrow> core s' x = core s x" for x using m_return(1,4) by (auto simp: core_def elim!: released.cases)
    show ?thesis
    proof (rule fits_move [OF assms(5) i(2,1) m_return(2), where y = Out])
      fix p' z assume "p' \<noteq> p" "z \<in> set (held (ms_proc s) p')"
      then have "z \<noteq> last rs" using other [OF m_return(2) l] by blast
      then show "upgrade (core s) (core s') z" by (intro upgrade_same c)
    qed (simp_all add: m_return(1) released_view [OF m_return(4)])
  qed (hypsubst, erule fits_place [OF assms(5) i(2,1)]; auto simp: core_def upgrade_def split: if_splits)+
qed

lemma fits_start: "fits (mstart sz)"
  by (simp add: fits_def)

lemma mreach_fits: "mreach F s \<Longrightarrow> NoMem \<notin> F \<Longrightarrow> Rude \<notin> F \<Longrightarrow> fits s"
proof (induction rule: mreach.induct)
  case (mreach_step s e s')
  then show ?case using mstep_fits [OF happens_mstep [OF mreach_step(2,3,5)]] mreach_minv mreach_tagged by blast
qed (rule fits_start)

subsection \<open>Wakeups\<close>

lemma held_conn:
  assumes "own s" "q \<in> pending (ms_proc s) m" "ms_proc s p = In n rs a" "q \<in> set rs" shows "n = m"
proof -
  obtain h where h: "q \<in> set (held (ms_proc s) h)" "q \<in> pends m (ms_proc s h)" using pending_held [OF assms(2)] by blast
  have "h = p" using own_holder [OF assms(1) h(1), of p] assms(3,4) by (simp add: held_case)
  then show ?thesis using h(2) assms(3) by (simp split: if_splits)
qed

text \<open>A process asleep on a structure that is complete is about to be woken by a reader of its connection.\<close>

definition waked :: "mstate \<Rightarrow> bool" where
  "waked s \<longleftrightarrow> (\<forall>p m r rs. ms_proc s p = In m (r # rs) Sleep \<longrightarrow> dn s r \<noteq> 0 \<longrightarrow> (\<exists>p' rs'. ms_proc s p' = In m rs' (Waking r)))"

lemma waked_keep:
  assumes "waked s" "\<And>p m r rs. ms_proc s' p = In m (r # rs) Sleep \<Longrightarrow> dn s' r \<noteq> 0 \<Longrightarrow> ms_proc s p = In m (r # rs) Sleep \<and> dn s r \<noteq> 0"
    "\<And>p m r rs. ms_proc s p = In m rs (Waking r) \<Longrightarrow> ms_proc s' p = In m rs (Waking r)"
  shows "waked s'"
  using assms unfolding waked_def by metis

lemma waked_place:
  assumes "waked s" "ms_proc s p = In m rs a" "ms_proc s1 = ms_proc s" "\<not> waking a" "a' = Sleep \<longrightarrow> dn s1 (hd rs') = 0"
    "\<And>p' n r ts. p' \<noteq> p \<Longrightarrow> ms_proc s p' = In n (r # ts) Sleep \<Longrightarrow> dn s1 r \<noteq> 0 \<Longrightarrow> dn s r \<noteq> 0"
  shows "waked (place p m rs' a' s1)"
proof (rule waked_keep [OF assms(1)])
  have d: "dn (place p m rs' a' s1) = dn s1" by (simp add: place_def dn_def fun_eq_iff)
  fix p' n r ts
  show "ms_proc s p' = In n (r # ts) Sleep \<and> dn s r \<noteq> 0" if "ms_proc (place p m rs' a' s1) p' = In n (r # ts) Sleep" "dn (place p m rs' a' s1) r \<noteq> 0"
    using that assms(3,5,6) unfolding d by (cases "p' = p") (auto simp: place_def)
  show "ms_proc (place p m rs' a' s1) p' = In n ts (Waking r)" if "ms_proc s p' = In n ts (Waking r)"
    using that assms(2-4) by (auto simp: place_def)
qed

lemma waked_woken:
  assumes "waked s" "woken s q s1 \<or> gated m s s1" shows "waked s1"
proof (rule waked_keep [OF assms(1)])
  have d: "dn s1 = dn s" using assms(2) by (auto simp: dn_def elim!: woken.cases gated.cases)
  fix p n r ts
  show "ms_proc s p = In n (r # ts) Sleep \<and> dn s r \<noteq> 0" if "ms_proc s1 p = In n (r # ts) Sleep" "dn s1 r \<noteq> 0"
    using woken_proc(1) [OF assms(2) that(1)] that(2) d by simp
  show "ms_proc s1 p = In n ts (Waking r)" if "ms_proc s p = In n ts (Waking r)"
    using woken_awake [OF assms(2) that] by simp
qed

lemma mstep_waked:
  assumes "mstep F s s'" "minv s" "waked s" shows "waked s'"
proof -
  have i: "own s" "shaped s" "gates s" "sleeps s" "queued s" using assms(2) by (simp_all add: minv_def)
  have nr: "x \<noteq> r" if "ms_proc s p = In m rs a" "r \<in> set rs" "p' \<noteq> p" "ms_proc s p' = In n (x # ts) b" for p m rs a r p' x n ts b
    using own_holder [OF i(1), of r p' p] that by (auto simp: held_case)
  from assms(1) show ?thesis
  proof cases
    case (m_start p r t s1 x m)
    have d: "dn s' = (dn s)(r := 0)" using m_start fetched_view [OF m_start(3)] by (auto simp: place_def dn_def fun_eq_iff)
    have pr: "ms_proc s' = (ms_proc s)(p := In m [r] Enqueue)" using m_start(1) fetched_view [OF m_start(3)] by (simp add: place_def)
    show ?thesis by (rule waked_keep [OF assms(3)]) (use m_start(2) in \<open>auto simp: d pr split: if_splits\<close>)
  next
    case (m_flush p m q rs r t s1 x)
    show ?thesis unfolding m_flush(1) by (rule waked_place [OF assms(3) m_flush(2)])
      (use m_flush(6) fetched_view [OF m_flush(3)] in \<open>auto simp: dn_def split: if_splits\<close>)
  next
    case (m_match p m r rs x q y)
    have "ms_proc s' p' = In n (u # ts) Sleep \<Longrightarrow> dn s' u \<noteq> 0 \<Longrightarrow> \<exists>p' rs'. ms_proc s' p' = In n rs' (Waking u)" for p' n u ts
    proof -
      assume a: "ms_proc s' p' = In n (u # ts) Sleep" "dn s' u \<noteq> 0"
      have p': "p' \<noteq> p" "ms_proc s p' = In n (u # ts) Sleep" using a(1) m_match(1) by (auto simp: place_def split: if_splits)
      show ?thesis
      proof (cases "u = q")
        case True
        then have "n = m" using held_conn [OF i(1) _ p'(2)] queue_dn [OF i(5) m_match(5)] by auto
        then show ?thesis using True m_match(1) by (auto simp: place_def)
      next
        case False
        have "u \<noteq> r" using nr [OF m_match(2) _ p'] by simp
        then have "dn s u \<noteq> 0" using a(2) False m_match(1) by (auto simp: place_def dn_def split: if_splits)
        then obtain p2 rs2 where p2: "ms_proc s p2 = In n rs2 (Waking u)" using assms(3) p'(2) unfolding waked_def by blast
        then have "p2 \<noteq> p" using m_match(2) by auto
        then show ?thesis using p2 m_match(1) by (intro exI [of _ p2]) (simp add: place_def)
      qed
    qed
    then show ?thesis unfolding waked_def by blast
  next
    case (m_waking p m r rs q s1)
    note w = disjI1 [OF m_waking(3)]
    have "ms_proc s' p' = In n (u # ts) Sleep \<Longrightarrow> dn s' u \<noteq> 0 \<Longrightarrow> \<exists>p' rs'. ms_proc s' p' = In n rs' (Waking u)" for p' n u ts
    proof -
      assume a: "ms_proc s' p' = In n (u # ts) Sleep" "dn s' u \<noteq> 0"
      have p': "p' \<noteq> p" "ms_proc s1 p' = In n (u # ts) Sleep" using a(1) m_waking(1) by (auto simp: place_def split: if_splits)
      have "dn s1 u \<noteq> 0" using a(2) m_waking(1) by (simp add: place_def dn_def)
      then obtain p2 rs2 where p2: "ms_proc s1 p2 = In n rs2 (Waking u)" using waked_woken [OF assms(3) w] p'(2) unfolding waked_def by blast
      have "u \<noteq> q"
      proof
        assume e: "u = q"
        have "sleeper s1 q = None" using m_waking(3) by (auto simp: sleeper_def elim!: woken.cases)
        moreover have "sleeper s1 q = Some p'" using sleeps_woken [OF i(4) m_waking(3)] p'(2) e unfolding sleeps_def by blast
        ultimately show False by simp
      qed
      moreover have "ms_proc s1 p = In m (r # rs) (Waking q)" using woken_awake [OF w m_waking(2)] by simp
      ultimately have "p2 \<noteq> p" using p2 by auto
      then show ?thesis using p2 m_waking(1) by (intro exI [of _ p2]) (simp add: place_def)
    qed
    then show ?thesis unfolding waked_def by blast
  next
    case (m_ungate p m r rs s1)
    note w = disjI2 [OF m_ungate(4)]
    show ?thesis unfolding m_ungate(1) by (rule waked_place [OF waked_woken [OF assms(3) w] woken_awake [OF w m_ungate(2)]]) auto
  next
    case (m_failgate p m r rs e s1)
    note w = disjI2 [OF m_failgate(5)]
    show ?thesis unfolding m_failgate(1) by (rule waked_place [OF waked_woken [OF assms(3) w] woken_awake [OF w m_failgate(2)]]) auto
  next
    case (m_own p m r rs x)
    show ?thesis unfolding m_own(1)
    proof (rule waked_place [OF assms(3) m_own(2)])
      fix p' n u ts assume "p' \<noteq> p" "ms_proc s p' = In n (u # ts) Sleep"
      then have "u \<noteq> r" using nr [OF m_own(2), of r p' n u ts Sleep] by simp
      then show "dn (s\<lparr>ms_mnt := upd_mnt m (\<lambda>c. c\<lparr>m_queue := remove1 r (m_queue c)\<rparr>) s, ms_rpc := (ms_rpc s)(r \<mapsto> x\<lparr>mr_done := 1\<rparr>),
        ms_owed := (ms_owed s)(m := settled (mr_reply x) (ms_owed s m))\<rparr>) u \<noteq> 0 \<Longrightarrow> dn s u \<noteq> 0" by (simp add: dn_def)
    qed simp_all
  next
    case (m_qrm p m r rs e x)
    show ?thesis unfolding m_qrm(1)
    proof (rule waked_place [OF assms(3) m_qrm(2)])
      fix p' n u ts assume "p' \<noteq> p" "ms_proc s p' = In n (u # ts) Sleep"
      then have "u \<noteq> r" using nr [OF m_qrm(2), of r p' n u ts Sleep] by simp
      then show "dn (s\<lparr>ms_rpc := (ms_rpc s)(r \<mapsto> x\<lparr>mr_done := 2\<rparr>),
        ms_mnt := upd_mnt m (\<lambda>c. c\<lparr>m_queue := remove1 r (m_queue c)\<rparr>) s\<rparr>) u \<noteq> 0 \<Longrightarrow> dn s u \<noteq> 0" by (simp add: dn_def)
    qed simp_all
  next
    case (m_drop p m r q rs e s1)
    show ?thesis unfolding m_drop(1) by (rule waked_place [OF assms(3) m_drop(2)])
      (use released_view [OF m_drop(3)] m_drop(3) in \<open>auto simp: dn_def elim!: released.cases split: if_splits\<close>)
  next
    case (m_return p m rs e s1)
    have "dn s' u \<noteq> 0 \<Longrightarrow> dn s u \<noteq> 0" for u using m_return(1,4) by (auto simp: dn_def elim!: released.cases split: if_splits)
    moreover have "ms_proc s' = (ms_proc s)(p := Out)" using m_return(1) released_view [OF m_return(4)] by simp
    ultimately show ?thesis by (intro waked_keep [OF assms(3)]) (use m_return(2) in \<open>auto split: if_splits\<close>)
  qed (hypsubst, erule waked_place [OF assms(3)]; auto simp: dn_def split: if_splits)+
qed

text \<open>
  The acts of a process that waits for its reply awake: it will read the connection, unless another
  does.  With a nobody-reads gate and a process asleep there is one.
\<close>

fun coming :: "act \<Rightarrow> bool" where
  "coming Enqueue = True" | "coming Send = True" | "coming Gate = True" | "coming Doze = True" | "coming Check = True"
| "coming (Fail e) = (e = Eintr)" | "coming (Fail2 e) = (e = Eintr)" | "coming a = False"

definition comes :: "mstate \<Rightarrow> mntp \<Rightarrow> pid \<Rightarrow> bool" where
  "comes s m p \<longleftrightarrow> (\<exists>r rs a. ms_proc s p = In m (r # rs) a \<and> coming a \<and> dn s r = 0)"

definition covered :: "mstate \<Rightarrow> bool" where
  "covered s \<longleftrightarrow> (\<forall>m p rs. m_rip (ms_mnt s m) = None \<longrightarrow> ms_proc s p = In m rs Sleep \<longrightarrow> (\<exists>p'. comes s m p'))"

lemma coveredI:
  assumes "\<And>m p rs. m_rip (ms_mnt s m) = None \<Longrightarrow> ms_proc s p = In m rs Sleep \<Longrightarrow> \<exists>p'. comes s m p'"
  shows "covered s"
  using assms unfolding covered_def by blast

lemma covered_to:
  assumes "covered s" "ms_proc s p = x" "ms_proc s' = (ms_proc s)(p := y)"
    "\<And>n. m_rip (ms_mnt s' n) = None \<Longrightarrow> m_rip (ms_mnt s n) = None"
    "\<And>n rs. y = In n rs Sleep \<Longrightarrow> m_rip (ms_mnt s' n) \<noteq> None"
    "\<And>p' n r ts a. p' \<noteq> p \<Longrightarrow> ms_proc s p' = In n (r # ts) a \<Longrightarrow> m_rip (ms_mnt s' n) = None \<Longrightarrow> dn s r = 0 \<Longrightarrow> dn s' r = 0"
    "\<And>n. m_rip (ms_mnt s' n) = None \<Longrightarrow> comes s n p \<Longrightarrow> comes s' n p"
  shows "covered s'"
proof (rule coveredI)
  fix n q rs assume a: "m_rip (ms_mnt s' n) = None" "ms_proc s' q = In n rs Sleep"
  have "ms_proc s q = In n rs Sleep" using a assms(3,5) by (auto split: if_splits)
  then obtain c where c: "comes s n c" using assms(1,4) a(1) unfolding covered_def by blast
  show "\<exists>p'. comes s' n p'"
  proof (cases "c = p")
    case False
    obtain r ts b where b: "ms_proc s c = In n (r # ts) b" "coming b" "dn s r = 0" using c by (auto simp: comes_def)
    have "dn s' r = 0" using assms(6) [OF False b(1) a(1) b(3)] .
    then show ?thesis using b assms(3) False by (intro exI [of _ c]) (simp add: comes_def)
  qed (use c assms(7) a(1) in blast)
qed

lemma covered_place:
  assumes "covered s" "ms_proc s p = In m rs a" "ms_proc s1 = ms_proc s"
    "\<And>n. m_rip (ms_mnt s1 n) = None \<Longrightarrow> m_rip (ms_mnt s n) = None"
    "a' = Sleep \<Longrightarrow> m_rip (ms_mnt s1 m) \<noteq> None"
    "\<And>p' n r ts b. p' \<noteq> p \<Longrightarrow> ms_proc s p' = In n (r # ts) b \<Longrightarrow> m_rip (ms_mnt s1 n) = None \<Longrightarrow> dn s r = 0 \<Longrightarrow> dn s1 r = 0"
    "m_rip (ms_mnt s1 m) = None \<Longrightarrow> coming a \<Longrightarrow> rs \<noteq> [] \<Longrightarrow> dn s (hd rs) = 0 \<Longrightarrow> rs' \<noteq> [] \<and> coming a' \<and> dn s1 (hd rs') = 0"
  shows "covered (place p m rs' a' s1)"
proof (rule covered_to [OF assms(1,2)])
  have d: "dn (place p m rs' a' s1) = dn s1" "ms_mnt (place p m rs' a' s1) = ms_mnt s1" by (simp_all add: place_def dn_def fun_eq_iff)
  show pr: "ms_proc (place p m rs' a' s1) = (ms_proc s)(p := In m rs' a')" using assms(3) by (simp add: place_def)
  show "m_rip (ms_mnt (place p m rs' a' s1) n) = None \<Longrightarrow> m_rip (ms_mnt s n) = None" for n using assms(4) d by simp
  show "In m rs' a' = In n ts Sleep \<Longrightarrow> m_rip (ms_mnt (place p m rs' a' s1) n) \<noteq> None" for n ts using assms(5) d by simp
  show "dn (place p m rs' a' s1) r = 0" if "p' \<noteq> p" "ms_proc s p' = In n (r # ts) b" "m_rip (ms_mnt (place p m rs' a' s1) n) = None" "dn s r = 0" for p' n r ts b
    using that assms(6) unfolding d by blast
  show "comes (place p m rs' a' s1) n p" if r: "m_rip (ms_mnt (place p m rs' a' s1) n) = None" and c: "comes s n p" for n
  proof -
    from c assms(2) have "n = m" "coming a" "rs \<noteq> []" "dn s (hd rs) = 0" by (auto simp: comes_def)
    then have "rs' \<noteq> []" "coming a'" "dn s1 (hd rs') = 0" using assms(7) r unfolding d by auto
    then show ?thesis using \<open>n = m\<close> unfolding comes_def pr d by (cases rs') auto
  qed
qed

lemma comes_woken:
  assumes "woken s q s1 \<or> gated m s s1" "comes s n p" shows "comes s1 n p"
proof -
  have d: "dn s1 = dn s" using assms(1) by (auto simp: dn_def elim!: woken.cases gated.cases)
  obtain r rs a where a: "ms_proc s p = In n (r # rs) a" "coming a" "dn s r = 0" using assms(2) by (auto simp: comes_def)
  then have "ms_proc s1 p = In n (r # rs) a" using woken_awake [OF assms(1) a(1)] by (cases "a = Sleep") auto
  then show ?thesis using a d by (simp add: comes_def)
qed

lemma covered_woken:
  assumes "covered s" "woken s q s1" shows "covered s1"
proof (rule coveredI)
  fix n p rs assume a: "m_rip (ms_mnt s1 n) = None" "ms_proc s1 p = In n rs Sleep"
  have "ms_proc s p = In n rs Sleep" "m_rip (ms_mnt s n) = None"
    using woken_proc(1) [OF disjI1 [OF assms(2)] a(2)] a(1) woken_view(4) [OF assms(2)] by auto
  then show "\<exists>p'. comes s1 n p'" using assms comes_woken [OF disjI1 [OF assms(2)]] unfolding covered_def by metis
qed

text \<open>Opening the gate wakes a process that waits, or none sleeps.\<close>

lemma covered_gated:
  assumes "covered s" "minv s" "waked s" "gated m s s1" "m_rip (ms_mnt s m) = Some p" "ms_proc s p = In m rs a" "\<not> waking a"
  shows "covered s1"
proof (rule coveredI)
  have i: "own s" "shaped s" "gates s" "sleeps s" "queued s" using assms(2) by (simp_all add: minv_def)
  fix n p' ts assume a: "m_rip (ms_mnt s1 n) = None" "ms_proc s1 p' = In n ts Sleep"
  have p': "ms_proc s p' = In n ts Sleep" using woken_proc(1) [OF disjI2 [OF assms(4)] a(2)] by auto
  show "\<exists>p'. comes s1 n p'"
  proof (cases "n = m")
    case False
    then have "m_rip (ms_mnt s n) = None" using a(1) gated_view(4) [OF assms(4)] by simp
    then show ?thesis using assms(1) p' comes_woken [OF disjI2 [OF assms(4)]] unfolding covered_def by metis
  next
    case True
    from assms(4) show ?thesis
    proof cases
      case gated_none
      obtain r us where r: "ts = r # us" using i(2) p' proc_ok_ne unfolding shaped_def by (metis list.exhaust)
      have sl: "sleeper s r = Some p'" using i(4) p' r unfolding sleeps_def by blast
      have "r \<in> pending (ms_proc s) m" unfolding pending_at [of _ _ p'] using p' r True by simp
      then have "dn s r = 0 \<Longrightarrow> r \<in> set (m_queue (ms_mnt s m))" using i(5) unfolding queued_def by blast
      then have "dn s r = 0 \<Longrightarrow> False" using gated_none(2) [of r] sl by (auto simp: sleeper_def)
      then have "dn s r \<noteq> 0" by blast
      then obtain p2 rs2 where p2: "ms_proc s p2 = In m rs2 (Waking r)" using assms(3) p' r True unfolding waked_def by blast
      then have "m_rip (ms_mnt s m) = Some p2" using i(3) unfolding gates_def by (metis gate_ok.simps(2) reading.simps(3))
      then show ?thesis using assms(5-7) p2 by auto
    next
      case (gated_some q x p0 pr)
      have "sleeper s q = Some p0" using gated_some(3,5) by (simp add: sleeper_def)
      then obtain m0 us where p0: "ms_proc s p0 = In m0 (q # us) Sleep" using i(4) unfolding sleeps_def by blast
      then have "m0 = m" using held_conn [OF i(1) _ p0, of q m] queue_dn [OF i(5) gated_some(2)] by simp
      moreover have "ms_proc s1 p0 = In m0 (q # us) Check" using gated_some p0 by simp
      moreover have "dn s1 q = 0" using gated_some(1,4) by (simp add: dn_def)
      ultimately show ?thesis unfolding True comes_def by (metis coming.simps(5))
    qed
  qed
qed

lemma mstep_covered:
  assumes "mstep F s s'" "minv s" "waked s" "covered s" "DevError \<notin> F" shows "covered s'"
proof -
  have i: "own s" "shaped s" "gates s" "sleeps s" "queued s" using assms(2) by (simp_all add: minv_def)
  have nr: "x \<noteq> r" if "ms_proc s p = In m rs a" "r \<in> set rs" "p' \<noteq> p" "ms_proc s p' = In n (x # ts) b" for p m rs a r p' x n ts b
    using own_holder [OF i(1), of r p' p] that by (auto simp: held_case)
  have rip: "m_rip (ms_mnt s m) = Some p" if "ms_proc s p = In m rs a" "reading a" for p m rs a
    using i(3) that unfolding gates_def by (metis gate_ok.simps(2))
  from assms(1) show ?thesis
  proof cases
    case (m_start p r t s1 x m)
    have d: "dn s' = (dn s)(r := 0)" using m_start fetched_view [OF m_start(3)] by (auto simp: place_def dn_def fun_eq_iff)
    have pr: "ms_proc s' = (ms_proc s)(p := In m [r] Enqueue)" "ms_mnt s' = ms_mnt s"
      using m_start(1) fetched_view [OF m_start(3)] by (simp_all add: place_def)
    show ?thesis by (rule covered_to [OF assms(4) m_start(2) pr(1)]) (use m_start(2) in \<open>auto simp: d pr comes_def\<close>)
  next
    case (m_flush p m q rs r t s1 x)
    show ?thesis unfolding m_flush(1) by (rule covered_place [OF assms(4) m_flush(2)])
      (use m_flush(6) in \<open>auto simp: dn_def fetched_view [OF m_flush(3)]\<close>)
  next
    case (m_send p m r rs x ow a buf)
    have "coming a" using m_send(5) assms(5) by auto
    then show ?thesis unfolding m_send(1) by (intro covered_place [OF assms(4) m_send(2)])
      (use m_send(3,5) in \<open>auto simp: dn_def\<close>)
  next
    case (m_sleep p m r rs x m')
    have "r \<in> pending (ms_proc s) m" unfolding pending_at [of _ _ p] using m_sleep(2) by simp
    then have "lk s r = Some (Some m)" using i(5) unfolding queued_def by blast
    then have "m' = m" using m_sleep(3,5) by (simp add: lk_def)
    then show ?thesis unfolding m_sleep(1) using m_sleep(3,6) by (intro covered_place [OF assms(4) m_sleep(2)]) (auto simp: dn_def)
  next
    case (m_match p m r rs x q y)
    have R: "m_rip (ms_mnt s m) = Some p" using rip [OF m_match(2)] by simp
    show ?thesis unfolding m_match(1)
    proof (rule covered_place [OF assms(4) m_match(2)])
      let ?s1 = "s\<lparr>ms_mnt := upd_mnt m (\<lambda>c. c\<lparr>m_queue := remove1 q (m_queue c), m_lock := True\<rparr>) s,
        ms_rpc := (ms_rpc s)(q \<mapsto> y\<lparr>mr_reply := mr_reply x, mr_b := mr_b x, mr_done := 1\<rparr>, r \<mapsto> x\<lparr>mr_b := []\<rparr>),
        ms_owed := (ms_owed s)(m := settled (mr_reply x) (ms_owed s m))\<rparr>"
      fix p' n u ts b assume a: "p' \<noteq> p" "ms_proc s p' = In n (u # ts) b" "m_rip (ms_mnt ?s1 n) = None" "dn s u = 0"
      have "n \<noteq> m" using a(3) R by auto
      then have "u \<noteq> q" using held_conn [OF i(1) _ a(2), of q m] queue_dn [OF i(5) m_match(5)] by auto
      then show "dn ?s1 u = 0" using a(4) m_match(4) by (auto simp: dn_def)
    qed (auto split: if_splits)
  next
    case (m_own p m r rs x)
    show ?thesis unfolding m_own(1)
    proof (rule covered_place [OF assms(4) m_own(2)])
      fix p' n u ts b assume a: "p' \<noteq> p" "ms_proc s p' = In n (u # ts) b" "dn s u = 0"
      then have "u \<noteq> r" using nr [OF m_own(2), of r p' n u ts b] by simp
      then show "dn (s\<lparr>ms_mnt := upd_mnt m (\<lambda>c. c\<lparr>m_queue := remove1 r (m_queue c)\<rparr>) s, ms_rpc := (ms_rpc s)(r \<mapsto> x\<lparr>mr_done := 1\<rparr>),
        ms_owed := (ms_owed s)(m := settled (mr_reply x) (ms_owed s m))\<rparr>) u = 0" using a(3) by (simp add: dn_def)
    qed (auto split: if_splits)
  next
    case (m_qrm p m r rs e x)
    show ?thesis unfolding m_qrm(1)
    proof (rule covered_place [OF assms(4) m_qrm(2)])
      fix p' n u ts b assume a: "p' \<noteq> p" "ms_proc s p' = In n (u # ts) b" "dn s u = 0"
      then have "u \<noteq> r" using nr [OF m_qrm(2), of r p' n u ts b] by simp
      then show "dn (s\<lparr>ms_rpc := (ms_rpc s)(r \<mapsto> x\<lparr>mr_done := 2\<rparr>),
        ms_mnt := upd_mnt m (\<lambda>c. c\<lparr>m_queue := remove1 r (m_queue c)\<rparr>) s\<rparr>) u = 0" using a(3) by (simp add: dn_def)
    qed (auto split: if_splits)
  next
    case (m_waking p m r rs q s1)
    note w = disjI1 [OF m_waking(3)]
    show ?thesis unfolding m_waking(1)
      by (rule covered_place [OF covered_woken [OF assms(4) m_waking(3)] woken_awake [OF w m_waking(2)]]) (auto simp: dn_def split: if_splits)
  next
    case (m_ungate p m r rs s1)
    note w = disjI2 [OF m_ungate(4)]
    have c: "covered s1" by (rule covered_gated [OF assms(4,2,3) m_ungate(4) rip [OF m_ungate(2)] m_ungate(2)]) auto
    show ?thesis unfolding m_ungate(1) by (rule covered_place [OF c woken_awake [OF w m_ungate(2)]]) auto
  next
    case (m_failgate p m r rs e s1)
    note w = disjI2 [OF m_failgate(5)]
    have c: "covered s1" by (rule covered_gated [OF assms(4,2,3) m_failgate(5,4) m_failgate(2)]) auto
    show ?thesis unfolding m_failgate(1) by (rule covered_place [OF c woken_awake [OF w m_failgate(2)]]) auto
  next
    case (m_drop p m r q rs e s1)
    show ?thesis unfolding m_drop(1) by (rule covered_place [OF assms(4) m_drop(2)])
      (use released_view [OF m_drop(3)] m_drop(3) in \<open>auto simp: dn_def elim!: released.cases split: if_splits\<close>)
  next
    case (m_return p m rs e s1)
    have d: "dn s u = 0 \<Longrightarrow> dn s' u = 0" for u using m_return(1,4) by (auto simp: dn_def elim!: released.cases split: if_splits)
    have pr: "ms_proc s' = (ms_proc s)(p := Out)" "ms_mnt s' = ms_mnt s" using m_return(1) released_view [OF m_return(4)] by simp_all
    show ?thesis by (rule covered_to [OF assms(4) m_return(2) pr(1)]) (use m_return(2) d pr in \<open>auto simp: comes_def\<close>)
  qed (hypsubst, erule covered_place [OF assms(4)]; auto simp: dn_def split: if_splits)+
qed

lemma mreach_waked: "mreach F s \<Longrightarrow> NoMem \<notin> F \<Longrightarrow> waked s"
proof (induction rule: mreach.induct)
  case (mreach_step s e s')
  then show ?case using mstep_waked [OF happens_mstep [OF mreach_step(2,3,5)]] mreach_minv by blast
qed (simp add: waked_def)

lemma mreach_covered: "mreach F s \<Longrightarrow> NoMem \<notin> F \<Longrightarrow> DevError \<notin> F \<Longrightarrow> covered s"
proof (induction rule: mreach.induct)
  case (mreach_step s e s')
  then show ?case using mstep_covered [OF happens_mstep [OF mreach_step(2,3,5)]] mreach_minv mreach_waked by blast
qed (simp add: covered_def)

end
