(* ===== verification/MntProps.thy ===== *)
theory MntProps
  imports MntReach
begin

text \<open>
  What the mount driver guarantees, stated over its reachable states, with runs that show that the
  guarantees apply and that their hypotheses are needed.
\<close>

subsection \<open>Structures and tags\<close>

text \<open>The structure \<open>r\<close> with contents \<open>z\<close> owns the tag of its request: it is in the pool, or was not given up.\<close>

definition in_use :: "mstate \<Rightarrow> rpcp \<Rightarrow> mntrpc \<Rightarrow> bool" where
  "in_use s r z \<longleftrightarrow> ms_rpc s r = Some z \<and> (r \<in> set (ms_rpcfree s) \<or> mr_done z \<noteq> 2)"

lemma in_use_ltag: "in_use s r z \<Longrightarrow> ltag s r = Some (fc_tag (mr_request z))"
  by (auto simp: in_use_def ltag_def)

lemma ltag_in_use: "ltag s r = Some t \<Longrightarrow> \<exists>z. in_use s r z \<and> fc_tag (mr_request z) = t"
  by (auto simp: in_use_def ltag_def split: option.splits if_splits)

text \<open>
  C16. Tags identify messages: with a server that answers only messages, in every reachable state the
  tag of a structure that is in use is marked in the mask, is neither 0 nor \<^verbatim>\<open>NOTAG\<close>, and belongs to
  no other such structure; and a message owed under that tag is the request of that structure, which
  is in the queue of the connection that owes the answer.
\<close>

theorem tags_identify:
  assumes "mreach F s" "NoMem \<notin> F" "Rude \<notin> F" "in_use s r z"
  shows "tagallocd (ms_tagmask s) (unat (fc_tag (mr_request z))) \<and> fc_tag (mr_request z) \<noteq> 0 \<and> fc_tag (mr_request z) \<noteq> - 1 \<and>
    (\<forall>r' z'. in_use s r' z' \<and> fc_tag (mr_request z') = fc_tag (mr_request z) \<longrightarrow> r' = r) \<and>
    (\<forall>m. \<forall>y \<in> set (ms_owed s m). fc_tag y = fc_tag (mr_request z) \<longrightarrow> r \<in> set (m_queue (ms_mnt s m)) \<and> mr_request z = y)"
proof -
  let ?t = "fc_tag (mr_request z)"
  have t: "mask_ok (ms_tagmask s)" "tag_inv (ltag s) (tags (ms_tagmask s))"
    "owe_inv (ltag s) (tags (ms_tagmask s)) (ms_owed s) (\<lambda>m. set (m_queue (ms_mnt s m))) (rq s)"
    using mreach_tagged [OF assms(1-3)] by (auto simp: tagged_def)
  have l: "ltag s r = Some ?t" using in_use_ltag [OF assms(4)] .
  have i: "unat ?t \<in> tags (ms_tagmask s)" "?t \<noteq> 0" "?t \<noteq> - 1" using t(2) l unfolding tag_inv_def by blast+
  have "unat ?t < 65536" using unsigned_less [of ?t] by simp
  then have a: "tagallocd (ms_tagmask s) (unat ?t)" using mnttags.taken_iff [OF t(1)] i(1) by blast
  have u: "r' = r" if "in_use s r' z'" "fc_tag (mr_request z') = ?t" for r' z'
    using in_use_ltag [OF that(1)] that(2) l t(2) unfolding tag_inv_def by metis
  have w: "r \<in> set (m_queue (ms_mnt s m)) \<and> mr_request z = y" if y: "y \<in> set (ms_owed s m)" "fc_tag y = ?t" for m y
  proof -
    have ly: "ltag s r = Some (fc_tag y)" using l y(2) by simp
    from owe_invD(5) [OF t(3) y(1) this] have "mr_request z = y" using assms(4) by (simp add: rq_def in_use_def)
    then show ?thesis using owe_invD(4) [OF t(3) y(1) ly] by blast
  qed
  show ?thesis
  proof (intro conjI)
    show "\<forall>r' z'. in_use s r' z' \<and> fc_tag (mr_request z') = ?t \<longrightarrow> r' = r" using u by blast
    show "\<forall>m. \<forall>y \<in> set (ms_owed s m). fc_tag y = ?t \<longrightarrow> r \<in> set (m_queue (ms_mnt s m)) \<and> mr_request z = y" using w by blast
  qed (rule a i(2,3))+
qed

subsection \<open>Replies\<close>

text \<open>
  C5. Delivery: when a process has read a reply, the reply answers exactly one message that the server
  of the connection owes.  If the structure that sent that message still waits, \<open>mountmux\<close> hands
  reply and data to it, marks it complete and takes it out of the queue, and changes no other
  structure (the reader's own hands its data over); if the structure was given up, no structure
  changes and exactly the tag of the message is released.
\<close>

theorem reply_delivered:
  assumes "mreach F s" "NoMem \<notin> F" "Rude \<notin> F" "ms_proc s p = In m (r # rs) Mux" "ms_rpc s r = Some x" "happens (Tick p) s = Some s'"
  shows "\<exists>y \<in> set (ms_owed s m). answers y (mr_reply x) \<and>
    (\<forall>m'. \<forall>y' \<in> set (ms_owed s m'). fc_tag y' = fc_tag (mr_reply x) \<longrightarrow> m' = m \<and> y' = y) \<and>
    ((\<exists>q z. in_use s q z \<and> q \<in> set (m_queue (ms_mnt s m)) \<and> mr_request z = y \<and> mr_done z = 0 \<and>
        ms_rpc s' = (ms_rpc s)(r \<mapsto> x\<lparr>mr_b := []\<rparr>, q \<mapsto> z\<lparr>mr_reply := mr_reply x, mr_b := mr_b x, mr_done := 1\<rparr>) \<and>
        m_queue (ms_mnt s' m) = remove1 q (m_queue (ms_mnt s m)) \<and> ms_tagmask s' = ms_tagmask s) \<or>
     (\<forall>q z. in_use s q z \<longrightarrow> fc_tag (mr_request z) \<noteq> fc_tag (mr_reply x)) \<and>
        ms_rpc s' = ms_rpc s \<and> ms_mnt s' = ms_mnt s \<and>
        tags (ms_tagmask s') = tags (ms_tagmask s) - {unat (fc_tag (mr_reply x))})"
proof -
  let ?t = "fc_tag (mr_reply x)"
  have q: "queued s" using mreach_minv [OF assms(1,2)] by (simp add: minv_def)
  have tt: "tagged s" "talks s" using mreach_tagged [OF assms(1-3)] by auto
  have t: "mask_ok (ms_tagmask s)" "{0, 65535} \<subseteq> tags (ms_tagmask s)" "tag_inv (ltag s) (tags (ms_tagmask s))"
    "owe_inv (ltag s) (tags (ms_tagmask s)) (ms_owed s) (\<lambda>m. set (m_queue (ms_mnt s m))) (rq s)"
    using tt(1) unfolding tagged_def by blast+
  have "talk_ok (ms_rpc s) (ms_owed s) (In m (r # rs) Mux)" using tt(2) assms(4) unfolding talks_def by metis
  then obtain y where y: "y \<in> set (ms_owed s m)" "answers y (mr_reply x)" using assms(5) by auto
  then have yt: "fc_tag y = ?t" by (simp add: answers_def)
  have one: "m' = m \<and> y' = y" if "y' \<in> set (ms_owed s m')" "fc_tag y' = ?t" for m' y'
  proof -
    have m: "m' = m" using owe_invD(6) [OF t(4) that(1) y(1)] that(2) yt by simp
    have "distinct (map fc_tag (ms_owed s m))" using t(4) by (simp add: owe_inv_def)
    then show ?thesis using that y(1) yt m by (metis distinct_map inj_onD)
  qed
  obtain v where v: "find_tag ?t (m_queue (ms_mnt s m)) s = Some v"
    using assms(4-6) by (auto simp: bind_eq_Some_conv mountmux_def)
  note c = find_tag_cases [OF v]
  show ?thesis
  proof (intro bexI [OF _ y(1)] conjI ballI allI impI; (rule y(2) | (use one in blast))?)
    show "(\<exists>q z. in_use s q z \<and> q \<in> set (m_queue (ms_mnt s m)) \<and> mr_request z = y \<and> mr_done z = 0 \<and>
        ms_rpc s' = (ms_rpc s)(r \<mapsto> x\<lparr>mr_b := []\<rparr>, q \<mapsto> z\<lparr>mr_reply := mr_reply x, mr_b := mr_b x, mr_done := 1\<rparr>) \<and>
        m_queue (ms_mnt s' m) = remove1 q (m_queue (ms_mnt s m)) \<and> ms_tagmask s' = ms_tagmask s) \<or>
     (\<forall>q z. in_use s q z \<longrightarrow> fc_tag (mr_request z) \<noteq> ?t) \<and> ms_rpc s' = ms_rpc s \<and> ms_mnt s' = ms_mnt s \<and>
        tags (ms_tagmask s') = tags (ms_tagmask s) - {unat ?t}"
    proof (cases v)
      case (Some q)
      then obtain z where z: "q \<in> set (m_queue (ms_mnt s m))" "ms_rpc s q = Some z" "fc_tag (mr_request z) = ?t" using c by auto
      have d: "mr_done z = 0" using queue_dn [OF \<open>queued s\<close> z(1)] z(2) by simp
      have "mr_request z = y" by (rule MntReach.reply_fits [OF tt(1) q y z(2) d z(3)])
      moreover have "ms_rpc s' = (ms_rpc s)(r \<mapsto> x\<lparr>mr_b := []\<rparr>, q \<mapsto> z\<lparr>mr_reply := mr_reply x, mr_b := mr_b x, mr_done := 1\<rparr>) \<and>
          m_queue (ms_mnt s' m) = remove1 q (m_queue (ms_mnt s m)) \<and> ms_tagmask s' = ms_tagmask s"
        using assms(4-6) v Some z(2) by (cases "q = r") (auto simp: mountmux_def setrpc_def setmnt_def place_def)
      ultimately show ?thesis using z d by (intro disjI1 exI [of _ q] exI [of _ z]) (simp add: in_use_def)
    next
      case None
      have free: "fc_tag (mr_request z) \<noteq> ?t" if u: "in_use s q z" for q z
      proof
        assume e: "fc_tag (mr_request z) = ?t"
        have "ltag s q = Some (fc_tag y)" using in_use_ltag [OF u] e yt by simp
        then have "q \<in> set (m_queue (ms_mnt s m))" by (rule owe_invD(4) [OF t(4) y(1)])
        then show False using c None e u by (auto simp: in_use_def)
      qed
      have n: "?t \<noteq> 0" "?t \<noteq> - 1" "unat ?t \<in> tags (ms_tagmask s)" using owe_invD(1-3) [OF t(4) y(1)] yt by auto
      have "tagallocd (ms_tagmask s) (unat ?t)" using mnttags.taken_iff [OF t(1), of "unat ?t"] n(3) unsigned_less [of ?t] by simp
      then have e: "ms_rpc s' = ms_rpc s" "ms_mnt s' = ms_mnt s" "ms_tagmask s' = freetag (ms_tagmask s) (unat ?t)"
        using assms(4-6) v None by (auto simp: mountmux_def place_def)
      then show ?thesis using free freetag_reserved [OF t(1,2) n(1,2)] by simp
    qed
  qed
qed

text \<open>
  C18. A reply fits its request: when a call comes back from \<open>mountio\<close> without an error, the reply in its
  structure has the type that answers the request, is an \<^verbatim>\<open>Rerror\<close>, or is the \<^verbatim>\<open>Rflush\<close> that marks a
  request given up, so that \<open>mountrpc\<close> accepts it or raises the server's message or \<^verbatim>\<open>Eintr\<close>, and
  never reports a mismatch.
\<close>

theorem mountrpc_no_mismatch:
  assumes "mreach F s" "NoMem \<notin> F" "Rude \<notin> F" "ms_proc s p = In m rs (Return None)"
  shows "\<exists>r x. rs = [r] \<and> ms_rpc s r = Some x \<and> mr_done x \<noteq> 0 \<and> fc_type (mr_request x) \<noteq> Tflush \<and>
    (fc_type (mr_reply x) = fc_type (mr_request x) + 1 \<or> fc_type (mr_reply x) = Rerror \<or> fc_type (mr_reply x) = Rflush \<and> mr_done x = 2) \<and>
    mountrpc_check (mr_request x) (mr_reply x) =
      (if fc_type (mr_reply x) = Rerror then Some (case fc_ename (mr_reply x) of None \<Rightarrow> [] | Some e \<Rightarrow> e)
       else if fc_type (mr_reply x) = Rflush then Some Eintr else None)"
proof -
  have i: "shaped s" "queued s" using mreach_minv [OF assms(1,2)] by (simp_all add: minv_def)
  obtain r where r: "rs = [r]" using i(1) assms(4) unfolding shaped_def by (metis proc_ok.simps(1))
  have "dn s r \<noteq> 0" using i(2) assms(4) unfolding queued_def r by (metis stage_ok.simps(3))
  moreover have f: "proc_fits (core s) (In m [r] (Return None))"
    using mreach_fits [OF assms(1-3)] assms(4) unfolding fits_def r by metis
  then obtain x where x: "ms_rpc s r = Some x" "fitting (mr_request x, mr_done x, mr_reply x)" "fc_type (mr_request x) \<noteq> Tflush"
    by (auto simp: core_def)
  ultimately have d: "mr_done x = 1 \<or> mr_done x = 2" by auto
  then have a: "answers (mr_request x) (mr_reply x) \<or> fc_type (mr_reply x) = Rflush \<and> mr_done x = 2" using x(2) by auto
  have k: "fc_type (mr_request x) + 1 \<noteq> Rflush"
  proof
    assume "fc_type (mr_request x) + 1 = Rflush"
    then have "fc_type (mr_request x) = Rflush - 1" by (simp only: eq_diff_eq)
    then show False using x(3) by simp
  qed
  have c: "mountrpc_check (mr_request x) (mr_reply x) =
      (if fc_type (mr_reply x) = Rerror then Some (case fc_ename (mr_reply x) of None \<Rightarrow> [] | Some e \<Rightarrow> e)
       else if fc_type (mr_reply x) = Rflush then Some Eintr else None)"
    using a by (auto simp: mountrpc_check_def answers_def Let_def)
  have t: "fc_type (mr_reply x) = fc_type (mr_request x) + 1 \<or> fc_type (mr_reply x) = Rerror \<or> fc_type (mr_reply x) = Rflush \<and> mr_done x = 2"
    using a by (auto simp: answers_def)
  have "mr_done x \<noteq> 0" using d by auto
  then show ?thesis using r x(1,3) c t by blast
qed

subsection \<open>Readers and sleepers\<close>

text \<open>
  C11. Exclusion, whatever the server and the device do: at most one process reads a connection, and it
  is the one that \<^verbatim>\<open>rip\<close> names; no structure is held by two processes, or by one that also left it
  in the pool; and the queue of a connection holds, once each, exactly the structures that wait for a
  reply on it.
\<close>

theorem mount_exclusion:
  assumes "mreach F s" "NoMem \<notin> F" "ms_proc s p = In m rs a"
  shows "(reading a \<longrightarrow> m_rip (ms_mnt s m) = Some p \<and>
      (\<forall>p' rs' a'. ms_proc s p' = In m rs' a' \<and> reading a' \<longrightarrow> p' = p)) \<and>
    distinct rs \<and> (\<forall>r \<in> set rs. ms_rpc s r \<noteq> None \<and> r \<notin> set (ms_rpcfree s) \<and>
      (\<forall>p' m' rs' a'. ms_proc s p' = In m' rs' a' \<and> r \<in> set rs' \<longrightarrow> p' = p)) \<and>
    distinct (m_queue (ms_mnt s m)) \<and>
    (\<forall>q. q \<in> set (m_queue (ms_mnt s m)) \<longleftrightarrow> (\<exists>p' rs' a' x. ms_proc s p' = In m rs' a' \<and> q \<in> set rs' \<and>
      (a' = Enqueue \<longrightarrow> q \<noteq> hd rs') \<and> ms_rpc s q = Some x \<and> mr_done x = 0))"
proof -
  have i: "own s" "shaped s" "gates s" "queued s" using mreach_minv [OF assms(1,2)] by (simp_all add: minv_def)
  have g: "m_rip (ms_mnt s m) = Some p" if "reading a" using i(3) assms(3) that unfolding gates_def by (metis gate_ok.simps(2))
  have u: "p' = p" if "reading a" "ms_proc s p' = In m rs' a'" "reading a'" for p' rs' a'
    using gates_one_reader [OF i(3) assms(3) that(1) that(2,3)] by simp
  have h: "p' = p" if "r \<in> set rs" "ms_proc s p' = In m' rs' a'" "r \<in> set rs'" for r p' m' rs' a'
    using own_holder [OF i(1), of r p' p] that assms(3) by (simp add: held_case)
  have o: "ms_rpc s r \<noteq> None \<and> r \<notin> set (ms_rpcfree s)" if "r \<in> set rs" for r
  proof -
    have "r \<in> set (held (ms_proc s) p)" using that assms(3) by (simp add: held_case)
    then have "r \<in> dom (ms_rpc s) \<and> r \<notin> set (ms_rpcfree s)" using i(1) unfolding own_def own_of_def by blast
    then show ?thesis by auto
  qed
  have q: "q \<in> set (m_queue (ms_mnt s m)) \<longleftrightarrow> (\<exists>p' rs' a' x. ms_proc s p' = In m rs' a' \<and> q \<in> set rs' \<and>
      (a' = Enqueue \<longrightarrow> q \<noteq> hd rs') \<and> ms_rpc s q = Some x \<and> mr_done x = 0)" for q
  proof -
    have e: "q \<in> pends m (In m rs' a') \<longleftrightarrow> q \<in> set rs' \<and> (a' = Enqueue \<longrightarrow> q \<noteq> hd rs')" if "ms_proc s p' = In m rs' a'" for p' rs' a'
      using own_distinct [OF i(1) that] by (cases rs') auto
    have "q \<in> pends m y \<longleftrightarrow> (\<exists>rs' a'. y = In m rs' a' \<and> q \<in> pends m (In m rs' a'))" for y by (cases y) auto
    then have "q \<in> pending (ms_proc s) m \<longleftrightarrow> (\<exists>p' rs' a'. ms_proc s p' = In m rs' a' \<and> q \<in> pends m (In m rs' a'))"
      unfolding pending_def by blast
    then have p: "q \<in> pending (ms_proc s) m \<longleftrightarrow> (\<exists>p' rs' a'. ms_proc s p' = In m rs' a' \<and> q \<in> set rs' \<and> (a' = Enqueue \<longrightarrow> q \<noteq> hd rs'))"
      using e by blast
    have "q \<in> pending (ms_proc s) m \<Longrightarrow> lk s q = Some (Some m)" using i(4) unfolding queued_def by blast
    then have d: "q \<in> pending (ms_proc s) m \<Longrightarrow> dn s q = 0 \<longleftrightarrow> (\<exists>x. ms_rpc s q = Some x \<and> mr_done x = 0)"
      by (auto simp: dn_def lk_def)
    have "q \<in> set (m_queue (ms_mnt s m)) \<longleftrightarrow> q \<in> pending (ms_proc s) m \<and> dn s q = 0" using i(4) unfolding queued_def by blast
    also have "\<dots> \<longleftrightarrow> q \<in> pending (ms_proc s) m \<and> (\<exists>x. ms_rpc s q = Some x \<and> mr_done x = 0)" using d by blast
    finally show ?thesis unfolding p by blast
  qed
  show ?thesis using g u h o own_distinct [OF i(1) assms(3)] i(4) q unfolding queued_def by blast
qed

text \<open>
  C7. No lost reader: if the device raises no errors of its own and memory does not run out, then
  whenever a process sleeps in \<open>mountio\<close>, some other process of the connection is awake and is the one
  in \<^verbatim>\<open>rip\<close>, reading or about to open the gate and wake another, or, with the gate open, is one that
  has no reply yet and will try to take it.  A process asleep although its reply is there is about to
  be woken by the reader.
\<close>

theorem no_lost_reader:
  assumes "mreach F s" "NoMem \<notin> F" "DevError \<notin> F" "ms_proc s p = In m (r # rs) Sleep"
  shows "(\<exists>p' rs' a. ms_proc s p' = In m rs' a \<and> a \<noteq> Sleep \<and>
      (m_rip (ms_mnt s m) = Some p' \<and> (reading a \<or> failing a) \<or>
       m_rip (ms_mnt s m) = None \<and> coming a \<and> (\<exists>q x. hd rs' = q \<and> ms_rpc s q = Some x \<and> mr_done x = 0))) \<and>
    (\<exists>x. ms_rpc s r = Some x \<and> mr_r x = Some p \<and> (mr_done x \<noteq> 0 \<longrightarrow> (\<exists>p' rs'. ms_proc s p' = In m rs' (Waking r))))"
proof -
  have i: "own s" "gates s" "sleeps s" using mreach_minv [OF assms(1,2)] by (simp_all add: minv_def)
  have "sleeper s r = Some p" using i(3) assms(4) unfolding sleeps_def by blast
  then obtain x where x: "ms_rpc s r = Some x" "mr_r x = Some p" by (auto simp: sleeper_def split: option.splits)
  have w: "mr_done x \<noteq> 0 \<Longrightarrow> \<exists>p' rs'. ms_proc s p' = In m rs' (Waking r)"
    using mreach_waked [OF assms(1,2)] assms(4) x(1) unfolding waked_def by fastforce
  have "\<exists>p' rs' a. ms_proc s p' = In m rs' a \<and> a \<noteq> Sleep \<and>
      (m_rip (ms_mnt s m) = Some p' \<and> (reading a \<or> failing a) \<or>
       m_rip (ms_mnt s m) = None \<and> coming a \<and> (\<exists>q x. hd rs' = q \<and> ms_rpc s q = Some x \<and> mr_done x = 0))"
  proof (cases "m_rip (ms_mnt s m)")
    case (Some p')
    then have "in_gate m (ms_proc s p')" using i(2) unfolding gates_def by blast
    then obtain rs' a where a: "ms_proc s p' = In m rs' a" "reading a \<or> failing a" by (cases "ms_proc s p'") auto
    then have "a \<noteq> Sleep" by auto
    then show ?thesis using a Some by blast
  next
    case None
    then obtain p' where "comes s m p'" using mreach_covered [OF assms(1-3)] assms(4) unfolding covered_def by blast
    then obtain q ts a where a: "ms_proc s p' = In m (q # ts) a" "coming a" "dn s q = 0" by (auto simp: comes_def)
    have "q \<in> set (held (ms_proc s) p')" using a(1) by (simp add: held_case)
    then have "q \<in> dom (ms_rpc s)" using i(1) unfolding own_def own_of_def by blast
    then obtain z where "ms_rpc s q = Some z" by auto
    moreover have "a \<noteq> Sleep" using a(2) by auto
    ultimately show ?thesis using a None by (intro exI [of _ p'] exI [of _ "q # ts"] exI [of _ a]) auto
  qed
  then show ?thesis using x w by blast
qed

end
