(* ===== verification/MntRuns.thy ===== *)
theory MntRuns
  imports MntProps
begin

text \<open>
  Runs of the mount driver: two processes share a connection, with every guarantee of \<open>MntProps\<close> at
  work, and the runs in which a guarantee fails because its hypothesis does.
\<close>

subsection \<open>Two processes on a connection\<close>

lemma alloctag_least:
  assumes "mask_ok m" "t < 65536" "t \<notin> tags m" "\<And>u. u < t \<Longrightarrow> u \<in> tags m"
  shows "\<exists>m'. alloctag m = Some (t, m') \<and> mask_ok m' \<and> tags m' = insert t (tags m)"
proof (cases "alloctag m")
  case None
  then show ?thesis using mnttags.get_None [OF assms(1)] assms(2,3) by auto
next
  case (Some x)
  obtain u m' where x: "x = (u, m')" by (cases x)
  note g = mnttags.get_Some [OF assms(1) Some [unfolded x]]
  have "\<forall>w < u. w \<in> tags m" using alloctag_loop_Some [of m 0 u m'] Some x by (auto simp: alloctag_def)
  then have "u = t" using g assms(3,4) by (metis linorder_neqE_nat)
  then show ?thesis using g Some x by simp
qed

text \<open>The mask after \<open>n\<close> tags were handed out and none came back.\<close>

fun masks :: "nat \<Rightarrow> u32int list" where
  "masks 0 = mntreset"
| "masks (Suc n) = (case alloctag (masks n) of None \<Rightarrow> [] | Some (t, mk) \<Rightarrow> mk)"

lemma masks_ok: "n < 65535 \<Longrightarrow> mask_ok (masks n) \<and> tags (masks n) = insert 65535 {..n}"
proof (induction n)
  case 0
  then show ?case using mntreset_ok by (auto simp: masks.simps)
next
  case (Suc n)
  then have i: "mask_ok (masks n)" "tags (masks n) = insert 65535 {..n}" by auto
  then obtain m' where m: "alloctag (masks n) = Some (Suc n, m')" "mask_ok m'" "tags m' = insert (Suc n) (tags (masks n))"
    using alloctag_least [OF i(1), of "Suc n"] Suc.prems by fastforce
  then show ?case using i(2) by (auto simp: atMost_Suc)
qed

lemma alloc_masks: "n < 65534 \<Longrightarrow> alloctag (masks n) = Some (Suc n, masks (Suc n))"
proof -
  assume n: "n < 65534"
  have i: "mask_ok (masks n)" "tags (masks n) = insert 65535 {..n}" using masks_ok [of n] n by auto
  then show ?thesis using alloctag_least [OF i(1), of "Suc n"] n by fastforce
qed

declare masks.simps [simp del]

lemma alloc_mntreset: "alloctag mntreset = Some (1, masks (Suc 0))"
  using alloc_masks [of 0] by (simp add: masks.simps(1))

lemma alloc_numeral:
  "alloctag (masks (Suc 0)) = Some (2, masks 2)"
  "numeral k < (65534 :: nat) \<Longrightarrow> alloctag (masks (numeral k)) = Some (numeral k + 1, masks (numeral k + 1))"
  using alloc_masks [of 1] alloc_masks [of "numeral k"] by (simp_all add: numeral_2_eq_2)

lemma masks_full_tags: "mask_ok (masks 65534) \<and> tags (masks 65534) = {..<65536}"
proof -
  have "insert 65535 {..65534 :: nat} = {..<65536}" by (auto simp del: One_nat_def)
  then show ?thesis using masks_ok [of 65534] by simp
qed

lemma masks_full: "alloctag (masks 65534) = None"
  using masks_full_tags mnttags.get_None by blast

definition clunk :: fcall where "clunk = zero_fcall\<lparr>fc_type := 120, fc_fid := 5\<rparr>"

definition rclunk :: "ushort \<Rightarrow> fcall" where "rclunk t = zero_fcall\<lparr>fc_type := 121, fc_tag := t\<rparr>"

definition buf16 :: mem where "buf16 = replicate 16 0"

lemma buf16 [simp]: "length buf16 = 16"
  by (simp add: buf16_def)

definition wire1 :: mem where "wire1 = [11, 0, 0, 0, 120, 1, 0, 5, 0, 0, 0]"
definition wire2 :: mem where "wire2 = [11, 0, 0, 0, 120, 2, 0, 5, 0, 0, 0]"

definition wire3 :: mem where "wire3 = [11, 0, 0, 0, 120, 3, 0, 5, 0, 0, 0]"
definition wire4 :: mem where "wire4 = [9, 0, 0, 0, 108, 4, 0, 3, 0]"

lemma clunk_wire:
  "convS2M (clunk\<lparr>fc_tag := 1\<rparr>) buf16 16 = Some (11, wire1 @ replicate 5 0)"
  "convS2M (clunk\<lparr>fc_tag := 2\<rparr>) buf16 16 = Some (11, wire2 @ replicate 5 0)"
  "convS2M (clunk\<lparr>fc_tag := 3\<rparr>) buf16 16 = Some (11, wire3 @ replicate 5 0)"
  "convS2M (zero_fcall\<lparr>fc_tag := 4, fc_type := Tflush, fc_oldtag := 3\<rparr>) buf16 16 = Some (9, wire4 @ replicate 7 0)"
  by code_simp+

text \<open>Both call; the first reads, the second sleeps.\<close>

definition both_call :: "event list" where
  "both_call = [Start 1 0 clunk True (Some buf16) 100, Tick 1, Written 1, Tick 1,
     Start 2 0 clunk True (Some buf16) 200, Tick 2, Written 2, Tick 2, Tick 2]"

abbreviation conn16 :: mstate where "conn16 \<equiv> mstart (\<lambda>_. 16)"

lemma clunk_simps [simp]: "fc_type clunk = 120" "fc_type (rclunk t) = 121" "fc_tag (rclunk t) = t" "wire1 \<noteq> []" "wire2 \<noteq> []" "wire3 \<noteq> []" "wire4 \<noteq> []"
  by (simp_all add: clunk_def rclunk_def wire1_def wire2_def wire3_def wire4_def)

lemmas run_simps = mstart_def alloc_mntreset alloc_numeral clunk_wire mntralloc_def mntfree_def linked_def setrpc_def setmnt_def place_def enqueue_def
  transmit_def sends_def rpcattn_def wakeup_def mntgate_def mountmux_def mntqrm_def mntflushalloc_def settled_def answers_def

text \<open>The structures of the two calls.\<close>

definition call1 :: mntrpc where
  "call1 = \<lparr>mr_request = clunk\<lparr>fc_tag := 1\<rparr>, mr_reply = zero_fcall\<lparr>fc_type := Tmax\<rparr>, mr_m = Some 0, mr_r = None,
     mr_rpc = wire1 @ replicate 5 0, mr_b = [], mr_done = 0\<rparr>"

definition call2 :: mntrpc where
  "call2 = \<lparr>mr_request = clunk\<lparr>fc_tag := 2\<rparr>, mr_reply = zero_fcall\<lparr>fc_type := Tmax\<rparr>, mr_m = Some 0, mr_r = Some 2,
     mr_rpc = wire2 @ replicate 5 0, mr_b = [], mr_done = 0\<rparr>"

definition sleeping :: mstate where
  "sleeping = \<lparr>ms_rpc = [100 \<mapsto> call1, 200 \<mapsto> call2],
     ms_mnt = (\<lambda>m. \<lparr>m_queue = [], m_rip = None, m_lock = False, m_msize = 16\<rparr>)
       (0 := \<lparr>m_queue = [200, 100], m_rip = Some 1, m_lock = False, m_msize = 16\<rparr>),
     ms_rpcfree = [], ms_nrpcfree = 0, ms_nrpcused = 2, ms_tagmask = masks 2,
     ms_proc = (\<lambda>_. Out)(1 := In 0 [100] Read, 2 := In 0 [200] Sleep),
     ms_owed = (\<lambda>_. [])(0 := [clunk\<lparr>fc_tag := 1\<rparr>, clunk\<lparr>fc_tag := 2\<rparr>])\<rparr>"

lemma zero_tag: "zero_fcall\<lparr>fc_tag := 0, fc_type := t\<rparr> = zero_fcall\<lparr>fc_type := t\<rparr>"
  by (simp add: zero_fcall_def)

lemma both_call_run: "mrun F both_call conn16 = Some sleeping"
  by (simp add: both_call_def sleeping_def call1_def call2_def run_simps zero_tag fun_upd_twist)

lemma sleeping_reach: "mreach F sleeping"
  by (rule mrun_reach [OF mreach_start both_call_run])

text \<open>The reply to the second call arrives at the first process, which hands it over.\<close>

definition delivering :: mstate where
  "delivering = sleeping\<lparr>ms_rpc := [100 \<mapsto> call1\<lparr>mr_reply := rclunk 2\<rparr>, 200 \<mapsto> call2],
     ms_proc := (\<lambda>_. Out)(1 := In 0 [100] Mux, 2 := In 0 [200] Sleep)\<rparr>"

lemma delivering_reach: "mreach F delivering"
proof (rule mrun_reach [OF sleeping_reach])
  show "mrun F [Reply 1 (rclunk 2) []] sleeping = Some delivering"
    by (simp add: delivering_def sleeping_def call1_def run_simps fun_upd_twist)
qed

definition delivered :: mstate where
  "delivered = sleeping\<lparr>ms_rpc := [100 \<mapsto> call1\<lparr>mr_reply := rclunk 2\<rparr>, 200 \<mapsto> call2\<lparr>mr_reply := rclunk 2, mr_done := 1\<rparr>],
     ms_mnt := (ms_mnt sleeping)(0 := \<lparr>m_queue = [100], m_rip = Some 1, m_lock = True, m_msize = 16\<rparr>),
     ms_proc := (\<lambda>_. Out)(1 := In 0 [100] (Waking 200), 2 := In 0 [200] Sleep),
     ms_owed := (\<lambda>_. [])(0 := [clunk\<lparr>fc_tag := 1\<rparr>])\<rparr>"

lemma delivering_step: "happens (Tick 1) delivering = Some delivered"
  by (simp add: delivering_def delivered_def sleeping_def call1_def call2_def run_simps fun_upd_twist)

definition returned :: mstate where
  "returned = delivered\<lparr>ms_rpc := [100 \<mapsto> call1\<lparr>mr_reply := rclunk 2\<rparr>, 200 \<mapsto> call2\<lparr>mr_reply := rclunk 2, mr_done := 1, mr_r := None\<rparr>],
     ms_mnt := (ms_mnt sleeping)(0 := \<lparr>m_queue = [100], m_rip = Some 1, m_lock = False, m_msize = 16\<rparr>),
     ms_proc := (\<lambda>_. Out)(1 := In 0 [100] Read, 2 := In 0 [200] (Return None))\<rparr>"

lemma returned_reach: "mreach F returned"
proof -
  have "mrun F [Tick 1, Tick 1, Tick 2, Tick 2, Tick 2] delivering = Some returned"
    unfolding mrun.simps(2) [of _ "Tick 1"] delivering_step
    by (simp add: returned_def delivering_def delivered_def sleeping_def call1_def call2_def run_simps fun_upd_twist)
  then show ?thesis by (rule mrun_reach [OF delivering_reach])
qed

theorem tags_identify_witness:
  "tagallocd (masks 2) 1 \<and> {r. \<exists>z. in_use sleeping r z \<and> fc_tag (mr_request z) = 1} = {100} \<and>
    (\<exists>y \<in> set (ms_owed sleeping 0). fc_tag y = 1 \<and> mr_request call1 = y)"
proof -
  have u: "in_use sleeping 100 call1" "fc_tag (mr_request call1) = 1" by (simp_all add: in_use_def sleeping_def call1_def)
  have y: "clunk\<lparr>fc_tag := 1\<rparr> \<in> set (ms_owed sleeping 0)" "fc_tag (clunk\<lparr>fc_tag := 1\<rparr>) = 1" by (simp_all add: sleeping_def)
  note t = tags_identify [OF sleeping_reach [of "{}"] _ _ u(1), unfolded u(2)]
  from t have "tagallocd (masks 2) 1" by (simp add: sleeping_def)
  moreover from t have "mr_request call1 = clunk\<lparr>fc_tag := 1\<rparr>" using y by blast
  moreover from t have "{r. \<exists>z. in_use sleeping r z \<and> fc_tag (mr_request z) = 1} = {100}" using u by blast
  ultimately show ?thesis using y by metis
qed

theorem reply_delivered_witness:
  "\<exists>y \<in> set (ms_owed delivering 0). answers y (rclunk 2) \<and> fc_tag y = 2 \<and>
    (\<exists>q z. in_use delivering q z \<and> mr_request z = y \<and>
       ms_rpc delivered = (ms_rpc delivering)(100 \<mapsto> call1\<lparr>mr_reply := rclunk 2, mr_b := []\<rparr>,
         q \<mapsto> z\<lparr>mr_reply := rclunk 2, mr_b := [], mr_done := 1\<rparr>))"
proof -
  have p: "ms_proc delivering 1 = In 0 [100] Mux" "ms_rpc delivering 100 = Some (call1\<lparr>mr_reply := rclunk 2\<rparr>)" "mr_b call1 = []"
    by (simp_all add: delivering_def call1_def)
  have ne: "ms_mnt delivered \<noteq> ms_mnt delivering"
  proof
    assume "ms_mnt delivered = ms_mnt delivering"
    then have "m_lock (ms_mnt delivered 0) = m_lock (ms_mnt delivering 0)" by simp
    then show False by (simp add: delivered_def delivering_def sleeping_def)
  qed
  have n: "NoMem \<notin> {}" "Rude \<notin> {}" by simp_all
  have f: "mr_reply (call1\<lparr>mr_reply := rclunk 2\<rparr>) = rclunk 2" "mr_b (call1\<lparr>mr_reply := rclunk 2\<rparr>) = []" using p(3) by simp_all
  from reply_delivered [OF delivering_reach n p(1,2) delivering_step, unfolded f] ne
  obtain y where y: "y \<in> set (ms_owed delivering 0)" "answers y (rclunk 2)"
    "\<exists>q z. in_use delivering q z \<and> mr_request z = y \<and>
       ms_rpc delivered = (ms_rpc delivering)(100 \<mapsto> call1\<lparr>mr_reply := rclunk 2, mr_b := []\<rparr>,
         q \<mapsto> z\<lparr>mr_reply := rclunk 2, mr_b := [], mr_done := 1\<rparr>)" by blast
  moreover from y(2) have "fc_tag y = 2" by (simp add: answers_def)
  ultimately show ?thesis by blast
qed

theorem mountrpc_no_mismatch_witness:
  "mountrpc_check (clunk\<lparr>fc_tag := 2\<rparr>) (rclunk 2) = None \<and> fc_type (rclunk 2) = fc_type (clunk\<lparr>fc_tag := 2\<rparr>) + 1"
proof -
  have "ms_proc returned 2 = In 0 [200] (Return None)" "ms_rpc returned 200 = Some (call2\<lparr>mr_reply := rclunk 2, mr_done := 1, mr_r := None\<rparr>)"
    by (simp_all add: returned_def)
  with mountrpc_no_mismatch [OF returned_reach [of "{}"] _ _ this(1)] show ?thesis by (auto simp: call2_def)
qed

theorem mount_exclusion_witness:
  "m_rip (ms_mnt sleeping 0) = Some 1 \<and> {p. \<exists>rs a. ms_proc sleeping p = In 0 rs a \<and> reading a} = {1} \<and>
    distinct (m_queue (ms_mnt sleeping 0))"
proof -
  have p: "ms_proc sleeping 1 = In 0 [100] Read" "reading Read" by (simp_all add: sleeping_def)
  from mount_exclusion [OF sleeping_reach [of "{}"] _ p(1)] have
    m: "m_rip (ms_mnt sleeping 0) = Some 1" "\<forall>q rs a. ms_proc sleeping q = In 0 rs a \<and> reading a \<longrightarrow> q = 1"
      "distinct (m_queue (ms_mnt sleeping 0))" by simp_all
  then have "{p. \<exists>rs a. ms_proc sleeping p = In 0 rs a \<and> reading a} = {1}" using p by blast
  then show ?thesis using m by blast
qed

theorem no_lost_reader_witness:
  "\<exists>p rs a. ms_proc sleeping p = In 0 rs a \<and> a \<noteq> Sleep \<and> m_rip (ms_mnt sleeping 0) = Some p \<and> (reading a \<or> failing a)"
proof -
  have "ms_proc sleeping 2 = In 0 [200] Sleep" "m_rip (ms_mnt sleeping 0) \<noteq> None" by (simp_all add: sleeping_def)
  with no_lost_reader [OF sleeping_reach [of "{}"] _ _ this(1)] show ?thesis by auto
qed

subsection \<open>A lost reader\<close>

definition Ehungup :: mem where "Ehungup = bytes ''i/o on hungup channel''"

lemma hungup [simp]: "Ehungup \<noteq> Eintr"
  by code_simp

definition hangup :: "event list" where
  "hangup = [Start 3 0 clunk True (Some buf16) 300, Tick 3, Written 3, Tick 3, Tick 3,
     ReadFails 1 Ehungup, Tick 1, Note 3, Tick 3, Flush 3 True (Some buf16) 400 Ehungup, Tick 3, WriteFails 3 Ehungup False,
     Tick 3, Tick 3, Tick 3, Tick 3, Tick 3, Tick 3, Tick 3, Tick 3, Tick 3, Tick 1, Tick 1, Tick 1, Tick 1, Tick 1]"

text \<open>
  C40. A device error loses the reader: two processes sleep on a connection that a third reads.  The read
  fails, the reader opens the gate and wakes one of the two; that one takes a note first, and the
  write of its flush fails as well, so that it leaves without reading and without waking anybody.
  Now the other one sleeps although nobody reads the connection and every other process is gone:
  the hypothesis on device errors of \<open>no_lost_reader\<close> is needed.
\<close>

theorem reader_lost_on_hangup:
  "\<exists>s. mreach {DevError} s \<and> ms_proc s 2 = In 0 [200] Sleep \<and> m_rip (ms_mnt s 0) = None \<and> {p. ms_proc s p \<noteq> Out} = {2}"
proof -
  have "\<exists>s. mrun {DevError} hangup sleeping = Some s \<and> ms_proc s 2 = In 0 [200] Sleep \<and> m_rip (ms_mnt s 0) = None \<and>
      (\<forall>p. ms_proc s p = Out \<longleftrightarrow> p \<noteq> 2)"
    by (simp add: hangup_def sleeping_def call1_def call2_def run_simps zero_tag)
  then obtain s where "mrun {DevError} hangup sleeping = Some s" "ms_proc s 2 = In 0 [200] Sleep" "m_rip (ms_mnt s 0) = None"
      "{p. ms_proc s p \<noteq> Out} = {2}" by auto
  then show ?thesis using mrun_reach [OF sleeping_reach] by blast
qed

subsection \<open>Tags that run out\<close>

text \<open>One call whose write fails at once, and the state of a driver that has made \<open>n\<close> of them.\<close>

definition failing_call :: "rpcp \<Rightarrow> event list" where
  "failing_call a = [Start 1 0 clunk True (Some buf16) a, Tick 1, WriteFails 1 Ehungup False, Tick 1, Tick 1, Tick 1, Tick 1, Tick 1]"

definition failed :: "proc \<Rightarrow> rpcp list \<Rightarrow> nat \<Rightarrow> nat \<Rightarrow> mem \<Rightarrow> fcall \<Rightarrow> mstate" where
  "failed pr fr n t b f = \<lparr>ms_rpc = [100 \<mapsto> \<lparr>mr_request = clunk\<lparr>fc_tag := of_nat t\<rparr>, mr_reply = f, mr_m = Some 0, mr_r = None,
       mr_rpc = b, mr_b = [], mr_done = 2\<rparr>],
     ms_mnt = (\<lambda>m. \<lparr>m_queue = [], m_rip = None, m_lock = False, m_msize = 16\<rparr>), ms_rpcfree = fr,
     ms_nrpcfree = int (length fr), ms_nrpcused = 1 - int (length fr), ms_tagmask = masks n, ms_proc = (\<lambda>_. Out)(1 := pr), ms_owed = (\<lambda>_. [])\<rparr>"

lemma clunk_img:
  assumes "length b = 16"
  shows "convS2M (clunk\<lparr>fc_tag := t\<rparr>) b 16 = Some (11, img (wire (clunk\<lparr>fc_tag := t\<rparr>)) b)" "length (img (wire (clunk\<lparr>fc_tag := t\<rparr>)) b) = 16"
proof -
  have "fcall_ok (clunk\<lparr>fc_tag := t\<rparr>)" "wire_size (clunk\<lparr>fc_tag := t\<rparr>) = 11"
    by (simp_all add: fcall_ok_def clunk_def zero_fcall_def wire_size_def msg_types_def msg_strings_def counts_ok_def wire_body_def)
  then show "convS2M (clunk\<lparr>fc_tag := t\<rparr>) b 16 = Some (11, img (wire (clunk\<lparr>fc_tag := t\<rparr>)) b)"
    "length (img (wire (clunk\<lparr>fc_tag := t\<rparr>)) b) = 16"
    using convS2M_wire [of "clunk\<lparr>fc_tag := t\<rparr>" 16 b] assms by (simp_all add: length_wire)
qed

lemma idle_conn: "(\<lambda>m :: mntp. c)(0 := c) = (\<lambda>_. c)"
  by (simp add: fun_eq_iff)

lemma failing_first:
  "mrun {DevError} (failing_call 100) conn16 =
     Some (failed (In 0 [100] (Return (Some Ehungup))) [] 1 1 (wire1 @ replicate 5 0) (zero_fcall\<lparr>fc_type := Rflush\<rparr>))"
  by (simp add: failing_call_def failed_def run_simps zero_tag idle_conn)

lemma failing_round:
  assumes "length b = 16"
  shows "\<exists>b' f'. length b' = 16 \<and> mrun {DevError} (failing_call 200) (failed Out [100] n t b f) =
     Some (failed (In 0 [100] (Return (Some Ehungup))) [] n t b' f')"
proof -
  let ?b = "img (wire (clunk\<lparr>fc_tag := of_nat t\<rparr>)) b"
  have "mrun {DevError} (failing_call 200) (failed Out [100] n t b f) =
     Some (failed (In 0 [100] (Return (Some Ehungup))) [] n t ?b (f\<lparr>fc_tag := 0, fc_type := Rflush\<rparr>))"
    using assms clunk_img(1) [OF assms] by (simp add: failing_call_def failed_def run_simps idle_conn)
  then show ?thesis using clunk_img(2) [OF assms] by blast
qed

lemma failed_return:
  "happens (Tick 1) (failed (In 0 [100] (Return (Some Ehungup))) [] n t b f) =
    (case alloctag (masks n) of None \<Rightarrow> None | Some (u, mk) \<Rightarrow> Some ((failed Out [100] n u b f)\<lparr>ms_tagmask := mk\<rparr>))"
  by (simp add: failed_def run_simps split: option.split)

lemma failed_reach:
  "1 \<le> n \<Longrightarrow> n \<le> 65534 \<Longrightarrow>
    \<exists>b f. length b = 16 \<and> mreach {DevError} (failed (In 0 [100] (Return (Some Ehungup))) [] n n b f)"
proof (induction n)
  case (Suc n)
  show ?case
  proof (cases "n = 0")
    case True
    have "length (wire1 @ replicate 5 (0 :: uchar)) = 16" by (simp add: wire1_def)
    then show ?thesis using mrun_reach [OF mreach_start failing_first] True by (metis One_nat_def)
  next
    case False
    then obtain b f where b: "length b = 16" "mreach {DevError} (failed (In 0 [100] (Return (Some Ehungup))) [] n n b f)"
      using Suc by auto
    have "(failed Out [100] n (Suc n) b f)\<lparr>ms_tagmask := masks (Suc n)\<rparr> = failed Out [100] (Suc n) (Suc n) b f"
      by (simp add: failed_def)
    then have "happens (Tick 1) (failed (In 0 [100] (Return (Some Ehungup))) [] n n b f) = Some (failed Out [100] (Suc n) (Suc n) b f)"
      unfolding failed_return using alloc_masks [of n] Suc.prems by simp
    then have "mreach {DevError} (failed Out [100] (Suc n) (Suc n) b f)"
      by (rule mreach_step [OF b(2), rotated]) (simp add: failed_def)
    then show ?thesis using failing_round [OF b(1), of "Suc n" "Suc n" f] mrun_reach by blast
  qed
qed simp

text \<open>
  C38. Writes that fail use up the tags: a request whose write failed leaves its tag marked for ever, though
  the server never saw it.  There is a reachable state in which nothing is owed, one structure
  exists, one process is in the driver, about to leave it, and every tag is marked: its return panics
  in \<open>alloctag\<close>.
\<close>

theorem tags_run_out:
  "\<exists>s r e. mreach {DevError} s \<and> (\<forall>m. ms_owed s m = []) \<and> dom (ms_rpc s) = {r} \<and> tags (ms_tagmask s) = {..<65536} \<and>
    ms_proc s 1 = In 0 [r] (Return (Some e)) \<and> {p. ms_proc s p \<noteq> Out} = {1} \<and> happens (Tick 1) s = None"
proof -
  obtain b f where r: "mreach {DevError} (failed (In 0 [100] (Return (Some Ehungup))) [] 65534 65534 b f)"
    using failed_reach [of 65534] by auto
  let ?s = "failed (In 0 [100] (Return (Some Ehungup))) [] 65534 65534 b f"
  have "tags (ms_tagmask ?s) = {..<65536}" using masks_full_tags by (simp add: failed_def)
  moreover have "(\<forall>m. ms_owed ?s m = []) \<and> dom (ms_rpc ?s) = {100} \<and>
      ms_proc ?s 1 = In 0 [100] (Return (Some Ehungup)) \<and> {p. ms_proc ?s p \<noteq> Out} = {1}" by (auto simp: failed_def)
  moreover have "happens (Tick 1) ?s = None" unfolding failed_return masks_full by simp
  ultimately show ?thesis using r by blast
qed

subsection \<open>A wakeup after the release\<close>

text \<open>Calls of twelve processes, of which ten come back and fill the pool before the other two go on.\<close>

definition own_call :: "pid \<Rightarrow> event list" where
  "own_call p = [Tick p, Written p, Tick p, Reply p (rclunk (of_nat p)) [], Tick p, Tick p, Tick p, Tick p, Tick p, Tick p]"

definition crowd :: "event list" where
  "crowd = map (\<lambda>p. Start p 0 clunk True (Some buf16) (100 * p)) [1..<13] @ concat (map own_call [3..<13]) @
     [Tick 1, Written 1, Tick 1, Tick 2, Written 2, Tick 2, Reply 1 (rclunk 2) [], Tick 1, Tick 2, Tick 2, Tick 2, Tick 2, Tick 2]"

lemmas clunk_buf16 = clunk_img(1) [OF buf16]

lemma img_ne: "length b = 16 \<Longrightarrow> img (wire (clunk\<lparr>fc_tag := t\<rparr>)) b \<noteq> []"
  using clunk_img(2) [of b t] by auto

text \<open>
  C39. A wakeup after the release: \<open>mountmux\<close> marks another process's request complete before it wakes that
  process, and the process needs no lock to see the mark.  Without any fault of device, server or
  memory there is a reachable state in which the reader is about to wake the process of a
  structure that this process has already freed: the step faults.
\<close>

theorem wakeup_after_free:
  "\<exists>s r q. mreach {} s \<and> ms_proc s 1 = In 0 [r] (Waking q) \<and> ms_rpc s q = None \<and>
    allowed {} (Tick 1) s \<and> happens (Tick 1) s = None"
proof -
  have "\<exists>s. mrun {} crowd conn16 = Some s \<and> ms_proc s 1 = In 0 [100] (Waking 200) \<and> ms_rpc s 200 = None"
    by (simp add: crowd_def own_call_def upt_rec clunk_buf16 img_ne mstart_def alloc_mntreset alloc_numeral mntralloc_def
      mntfree_def linked_def setrpc_def setmnt_def place_def enqueue_def transmit_def sends_def rpcattn_def mountmux_def
      settled_def answers_def mntgate_def wakeup_def zero_tag)
  then obtain s where s: "mreach {} s" "ms_proc s 1 = In 0 [100] (Waking 200)" "ms_rpc s 200 = None"
    using mrun_reach [OF mreach_start] by blast
  then have "allowed {} (Tick 1) s" "happens (Tick 1) s = None" by (simp_all add: wakeup_def)
  then show ?thesis using s by blast
qed

subsection \<open>A server that answers what nobody asked\<close>

text \<open>
  A reply that no process waits for is taken for a late one, and its tag is released, whatever it is:
  the server of one connection can release a tag that is in use on another, and two messages are
  then under way with the same tag on the same connection.
\<close>

definition intrude :: "event list" where
  "intrude = [Start 1 0 clunk True (Some buf16) 100, Tick 1, Written 1, Start 2 1 clunk True (Some buf16) 200, Tick 2, Written 2,
     Tick 2, Reply 2 (rclunk 1) [], Tick 2, Start 3 0 clunk True (Some buf16) 300, Tick 3, Written 3]"

theorem foreign_tag_freed:
  "\<exists>s z z'. mreach {Rude} s \<and> in_use s 100 z \<and> in_use s 300 z' \<and> fc_tag (mr_request z) = fc_tag (mr_request z') \<and>
    set (m_queue (ms_mnt s 0)) = {100, 300} \<and> ms_owed s 0 = [mr_request z, mr_request z']"
proof -
  let ?mk = "freetag (masks 2) 1"
  have m: "mask_ok (masks 2)" "tags (masks 2) = insert 65535 {..2}" using masks_ok [of 2] by auto
  have k: "mask_ok ?mk" "tags ?mk = {0, 2, 65535}" using mnttags.put_spec [OF m(1), of 1] m(2) by (auto simp: numeral_2_eq_2)
  obtain mk' where a: "alloctag ?mk = Some (1, mk')" using alloctag_least [OF k(1), of 1] k(2) by auto
  have t: "tagallocd (masks 2) (Suc 0)" using mnttags.taken_iff [OF m(1), of 1] m(2) by simp
  have "\<exists>s z z'. mrun {Rude} intrude conn16 = Some s \<and> in_use s 100 z \<and> in_use s 300 z' \<and> fc_tag (mr_request z) = fc_tag (mr_request z') \<and>
      set (m_queue (ms_mnt s 0)) = {100, 300} \<and> ms_owed s 0 = [mr_request z, mr_request z']"
    using a t by (simp add: intrude_def run_simps in_use_def insert_commute)
  then show ?thesis using mrun_reach [OF mreach_start] by blast
qed

end
