(* ===== verification/MntDev.thy ===== *)
theory MntDev
  imports Mnt ConvDir
begin

text \<open>
  What the mount driver makes of system calls: the functions of the device \<^verbatim>\<open>M\<close> in
  \<^verbatim>\<open>9/port/devmnt.c\<close> that fill in a request, have it answered and put the reply into the channel or
  the buffer of the caller, with the checks of names and directory entries of \<^verbatim>\<open>chan.c\<close> and
  \<^verbatim>\<open>sysfile.c\<close> that they call.

  These functions see \<open>mountio\<close> as an argument \<open>io\<close>: a request goes in, the reply with its data or
  an error comes out, and the state \<open>'w\<close> of the world moves on.  \<open>MntReach\<close> shows what comes out
  when processes and replies are interleaved.  \<open>Inl\<close> is an error that is raised; \<open>None\<close> is a fault.
  The counts of references to channels and the path names of channels are left out.
\<close>

subsection \<open>Names\<close>

abbreviation (input) Runeself :: u32int where "Runeself \<equiv> 0x80"
abbreviation (input) Runeerror :: u32int where "Runeerror \<equiv> 0xFFFD"
abbreviation (input) Runemax :: u32int where "Runemax \<equiv> 0x10FFFF"
abbreviation (input) Tx :: u32int where "Tx \<equiv> 0x80"
abbreviation (input) Testx :: u32int where "Testx \<equiv> 0xC0"

definition byte_at :: "mem \<Rightarrow> nat \<Rightarrow> u32int option" where
  "byte_at s p = map_option ucast (GBIT8 s p)"

text \<open>A character of \<open>n\<close> bytes with the value \<open>l\<close>, unless fewer bytes would have done or it is too large (which only four bytes can be); \<open>bad\<close> is the label.\<close>

definition bad :: "u32int \<times> nat" where
  "bad = (Runeerror, 1)"

definition rune_of :: "u32int \<Rightarrow> u32int \<Rightarrow> nat \<Rightarrow> u32int \<times> nat" where
  "rune_of l low n = (if l \<le> low then bad else if l > Runemax then bad else (l, n))"

definition chartorune :: "mem \<Rightarrow> nat \<Rightarrow> (u32int \<times> nat) option" where
  "chartorune str p = do {
     c \<leftarrow> byte_at str p;
     if c < Tx then Some (c, 1)
     else do {
       c1 \<leftarrow> map_option (\<lambda>x. x XOR Tx) (byte_at str (p + 1));
       if c1 AND Testx \<noteq> 0 then Some bad
       else if c < 0xE0 then
         (if c < 0xC0 then Some bad
          else Some (rune_of ((push_bit 6 c OR c1) AND 0x7FF) 0x7F 2))
       else do {
         c2 \<leftarrow> map_option (\<lambda>x. x XOR Tx) (byte_at str (p + 2));
         if c2 AND Testx \<noteq> 0 then Some bad
         else if c < 0xF0 then
           Some (rune_of ((push_bit 6 (push_bit 6 c OR c1) OR c2) AND 0xFFFF) 0x7FF 3)
         else do {
           c3 \<leftarrow> map_option (\<lambda>x. x XOR Tx) (byte_at str (p + 3));
           if c3 AND Testx \<noteq> 0 then Some bad
           else if c < 0xF8 then
             Some (rune_of ((push_bit 6 (push_bit 6 (push_bit 6 c OR c1) OR c2) OR c3) AND 0x3FFFFF) 0xFFFF 4)
           else Some bad } } } }"

definition isfrog :: "u32int \<Rightarrow> bool" where
  "isfrog c \<longleftrightarrow> c < 32 \<or> c = 0x2F \<or> c = 0x7F"

definition Ebadchar :: mem where "Ebadchar = bytes ''bad character in file name''"
definition Enametoolong :: mem where "Enametoolong = bytes ''name too long''"

text \<open>
  The scan of \<open>validname0\<close> over a name that ends in a NUL; the fuel is the number of bytes left.
  The text of the name in the error message is left out.
\<close>

fun validname_loop :: "nat \<Rightarrow> mem \<Rightarrow> nat \<Rightarrow> bool \<Rightarrow> (mem + unit) option" where
  "validname_loop 0 aname p slashok = None"
| "validname_loop (Suc fuel) aname p slashok = do {
     c \<leftarrow> byte_at aname p;
     if c = 0 then Some (Inr ())
     else if c \<ge> Runeself then do {
       (r, n) \<leftarrow> chartorune aname p;
       validname_loop fuel aname (p + n) slashok }
     else if isfrog c \<and> (\<not> slashok \<or> c \<noteq> 0x2F) then Some (Inl Ebadchar)
     else validname_loop fuel aname (p + 1) slashok }"

text \<open>A name in kernel memory, in a buffer that holds its NUL.\<close>

definition validname :: "mem \<Rightarrow> bool \<Rightarrow> (mem + unit) option" where
  "validname aname slashok =
     (if 0 \<notin> set (take (2 ^ 16) aname) then (if length aname < 2 ^ 16 then None else Some (Inl Enametoolong))
      else validname_loop (Suc (length aname)) aname 0 slashok)"

definition Ebadstat :: mem where "Ebadstat = bytes ''malformed stat buffer''"

text \<open>\<open>s\<close> is the memory from the entry on.  The buffer of the name is 64 bytes; what it holds after the NUL is arbitrary.\<close>

definition validstat :: "mem \<Rightarrow> nat \<Rightarrow> (mem + unit) option" where
  "validstat s n = do {
     r \<leftarrow> statcheck s n;
     if r < 0 then Some (Inl Ebadstat)
     else do {
       let p = STATFIXLEN - 4 * BIT16SZ;
       m \<leftarrow> GBIT16 s p; let p = p + BIT16SZ;
       if unat m + 1 > 64 then Some (Inr ())
       else do {
         b \<leftarrow> memget s p (unat m);
         let buf = b @ [0];
         if takeWhile (\<lambda>c. c \<noteq> 0) buf \<noteq> [0x2F] then validname buf False
         else Some (Inr ()) } } }"

subsection \<open>Channels and connections\<close>

text \<open>\<open>ch_dc\<close> is the device character of the channel's type, \<open>ch_mchan\<close> the channel of its connection.\<close>

record chan =
  ch_fid :: u32int
  ch_dc :: u32int
  ch_dev :: u32int
  ch_qid :: qid
  ch_mqid :: qid
  ch_mode :: u32int
  ch_iounit :: u32int
  ch_offset :: uvlong
  ch_open :: bool
  ch_cache :: bool
  ch_mchan :: "nat option"

record conn =
  mc_id :: u32int
  mc_version :: mem
  mc_msize :: u32int

abbreviation (input) QTDIR :: uchar where "QTDIR \<equiv> 0x80"

text \<open>The connection of a channel: \<open>mux\<close> gives the \<^verbatim>\<open>Mnt\<close> of each connection channel.\<close>

definition mntchk :: "(nat \<Rightarrow> conn option) \<Rightarrow> chan \<Rightarrow> conn option" where
  "mntchk mux c = do {
     k \<leftarrow> ch_mchan c;
     m \<leftarrow> mux k;
     if mc_id m = 0 \<or> mc_id m \<ge> ch_dev c then None else Some m }"

type_synonym 'w mio = "fcall \<Rightarrow> 'w \<Rightarrow> (mem + fcall \<times> chain) \<times> 'w"

definition mountrpc :: "'w mio \<Rightarrow> fcall \<Rightarrow> 'w \<Rightarrow> (mem + fcall \<times> chain) \<times> 'w" where
  "mountrpc io f w =
     (case io f w of
        (Inl e, w) \<Rightarrow> (Inl e, w)
      | (Inr (g, b), w) \<Rightarrow> (case mountrpc_check f g of Some e \<Rightarrow> (Inl e, w) | None \<Rightarrow> (Inr (g, b), w)))"

subsection \<open>Version\<close>

definition MAXRPC :: nat where "MAXRPC = 8216"
definition VERSION9P :: mem where "VERSION9P = bytes ''9P2000''"
abbreviation (input) NOTAG :: ushort where "NOTAG \<equiv> - 1"
definition Eshort :: mem where "Eshort = bytes ''i/o count too small''"

text \<open>\<^verbatim>\<open>strncmp\<close> of two strings gives 0.\<close>

definition strneq :: "mem \<Rightarrow> mem \<Rightarrow> nat \<Rightarrow> bool" where
  "strneq a b n \<longleftrightarrow> take n a = take n b"

text \<open>The device of the channel: a write takes bytes and says how many it took, a read gives at most a count.\<close>

record 'w dev =
  dv_write :: "mem \<Rightarrow> uvlong \<Rightarrow> 'w \<Rightarrow> (mem + nat) \<times> 'w"
  dv_read :: "nat \<Rightarrow> uvlong \<Rightarrow> 'w \<Rightarrow> (mem + mem) \<times> 'w"

text \<open>
  The exchange of version messages, with the buffer \<open>msg\<close>: the decoded reply, and the channel with its offset.
\<close>

definition version_rpc :: "'w dev \<Rightarrow> mem \<Rightarrow> fcall \<Rightarrow> chan \<Rightarrow> 'w \<Rightarrow> ((mem + fcall) \<times> chan \<times> 'w) option" where
  "version_rpc dv msg f c w = do {
     (k, msg) \<leftarrow> convS2M f msg MAXRPC;
     if k = 0 then Some (Inl (bytes ''bad fversion conversion on send''), c, w)
     else do {
       let oo = ch_offset c; let c = c\<lparr>ch_offset := oo + of_nat k\<rparr>;
       let (l, w) = dv_write dv (take k msg) oo w;
       case l of
         Inl e \<Rightarrow> Some (Inl e, c, w)
       | Inr l \<Rightarrow>
           if l < k then
             Some (Inl (bytes ''short write in fversion''), c\<lparr>ch_offset := ch_offset c - of_nat (k - l)\<rparr>, w)
           else do {
             let (d, w) = dv_read dv MAXRPC (ch_offset c) w;
             case d of
               Inl e \<Rightarrow> Some (Inl e, c, w)
             | Inr d \<Rightarrow>
                 if d = [] then Some (Inl (bytes ''EOF receiving fversion reply''), c, w)
                 else do {
                   let c = c\<lparr>ch_offset := ch_offset c + of_nat (length d)\<rparr>;
                   msg \<leftarrow> memput msg 0 d;
                   (msg, r) \<leftarrow> convM2S msg (length d) f;
                   case r of
                     None \<Rightarrow> Some (Inl (bytes ''bad fversion conversion on reply''), c, w)
                   | Some (l, f) \<Rightarrow>
                       if l \<noteq> length d then Some (Inl (bytes ''bad fversion conversion on reply''), c, w)
                       else Some (Inr f, c, w) } } } }"

text \<open>
  The result is the string of the version and its length, the connection of \<open>c\<close>, the channel and the next
  identifier of \<^verbatim>\<open>mntalloc\<close>.  \<open>mux\<close> is the connection that \<open>c\<close> already has.
\<close>

definition mntversion :: "'w dev \<Rightarrow> mem \<Rightarrow> chan \<Rightarrow> cstr \<Rightarrow> u32int \<Rightarrow> nat \<Rightarrow> conn option \<Rightarrow> u32int \<Rightarrow> 'w \<Rightarrow>
    ((mem + mem) \<times> conn option \<times> chan \<times> u32int \<times> 'w) option" where
  "mntversion dv msg c version msize returnlen mux i w =
     (let msize = (if msize = 0 then of_nat MAXRPC else msize);
          msize = (if msize > ch_iounit c \<and> ch_iounit c \<noteq> 0 then ch_iounit c else msize);
          v = (case version of None \<Rightarrow> VERSION9P | Some v \<Rightarrow> if v = [] then VERSION9P else v) in
      if msize <s 0 then Some (Inl (bytes ''bad iounit in version call''), mux, c, i, w)
      else if \<not> strneq v VERSION9P (length VERSION9P) then Some (Inl (bytes ''bad 9P version specification''), mux, c, i, w)
      else (case mux of
        Some m \<Rightarrow>
          let buf = take 127 (mc_version m); k = length buf in
          if \<not> strneq buf v k then Some (Inl (bytes ''incompatible 9P versions''), mux, c, i, w)
          else if returnlen > 0 \<and> returnlen < k then Some (Inl Eshort, mux, c, i, w)
          else Some (Inr buf, mux, c, i, w)
      | None \<Rightarrow> do {
          (r, c, w) \<leftarrow> version_rpc dv msg (zero_fcall\<lparr>fc_type := Tversion, fc_tag := NOTAG, fc_msize := msize, fc_version := Some v\<rparr>) c w;
          case r of
            Inl e \<Rightarrow> Some (Inl e, mux, c, i, w)
          | Inr f \<Rightarrow>
              if fc_type f \<noteq> Rversion then
                (if fc_type f = Rerror then Some (Inl (case fc_ename f of None \<Rightarrow> [] | Some e \<Rightarrow> e), mux, c, i, w)
                 else Some (Inl (bytes ''unexpected reply type in fversion''), mux, c, i, w))
              else if fc_msize f > msize then Some (Inl (bytes ''server tries to increase msize in fversion''), mux, c, i, w)
              else if fc_msize f < 256 \<or> fc_msize f > 1024 * 1024 then
                Some (Inl (bytes ''nonsense value of msize in fversion''), mux, c, i, w)
              else do {
                fv \<leftarrow> fc_version f;
                let k = length fv;
                if \<not> strneq fv v k then Some (Inl (bytes ''bad 9P version returned from server''), mux, c, i, w)
                else do {
                  let m = \<lparr>mc_id = i, mc_version = fv, mc_msize = fc_msize f\<rparr>;
                  if returnlen > 0 \<and> returnlen < k then Some (Inl Eshort, mux, c, i + 1, w)
                  else Some (Inr fv, Some m, c, i + 1, w) } } }))"

subsection \<open>Attaching and walking\<close>

text \<open>
  \<^verbatim>\<open>newchan\<close>: \<open>old\<close> is the structure it takes, from the free list or a zeroed one with a new fid.  The
  fid, the qid and the mode stay as they are.  The channels of type 0 are those of the root device.
\<close>

definition newchan :: "chan \<Rightarrow> chan" where
  "newchan old = old\<lparr>ch_dc := 0x2F, ch_open := False, ch_cache := False, ch_dev := 0, ch_offset := 0, ch_iounit := 0,
     ch_mchan := None, ch_mqid := zero_qid\<rparr>"

definition devattach :: "u32int \<Rightarrow> chan \<Rightarrow> chan" where
  "devattach tc old = (newchan old)\<lparr>ch_qid := \<lparr>q_path = 0, q_vers = 0, q_type = QTDIR\<rparr>, ch_dc := tc\<rparr>"

text \<open>A channel of the mount device has the next identifier \<open>i\<close> of \<^verbatim>\<open>mntalloc\<close> as its device number.\<close>

definition mntchan :: "chan \<Rightarrow> u32int \<Rightarrow> chan \<times> u32int" where
  "mntchan old i = ((devattach 0x4D old)\<lparr>ch_dev := i\<rparr>, i + 1)"

text \<open>
  Authentication and attachment on a connection whose channel has the number \<open>k\<close>, after \<open>mntversion\<close>
  has made sure that there is one.
\<close>

definition mntauth :: "'w mio \<Rightarrow> nat \<Rightarrow> mem \<Rightarrow> cstr \<Rightarrow> chan \<Rightarrow> u32int \<Rightarrow> 'w \<Rightarrow> (mem + chan) \<times> u32int \<times> 'w" where
  "mntauth io k user spec old i w =
     (let (c, i) = mntchan old i in
      case mountrpc io (zero_fcall\<lparr>fc_type := Tauth, fc_afid := ch_fid c, fc_uname := Some user, fc_aname := spec\<rparr>) w of
        (Inl e, w) \<Rightarrow> (Inl e, i, w)
      | (Inr (g, b), w) \<Rightarrow>
          (Inr (c\<lparr>ch_qid := fc_aqid g, ch_mchan := Some k, ch_mqid := fc_aqid g, ch_mode := 2\<rparr>), i, w))"

definition mntattach :: "'w mio \<Rightarrow> nat \<Rightarrow> chan option \<Rightarrow> mem \<Rightarrow> cstr \<Rightarrow> bool \<Rightarrow> chan \<Rightarrow> u32int \<Rightarrow> 'w \<Rightarrow> (mem + chan) \<times> u32int \<times> 'w" where
  "mntattach io k authchan user spec mcache old i w =
     (let (c, i) = mntchan old i in
      case mountrpc io (zero_fcall\<lparr>fc_type := Tattach, fc_fid := ch_fid c,
          fc_afid := (case authchan of None \<Rightarrow> NOFID | Some ac \<Rightarrow> ch_fid ac), fc_uname := Some user, fc_aname := spec\<rparr>) w of
        (Inl e, w) \<Rightarrow> (Inl e, i, w)
      | (Inr (g, b), w) \<Rightarrow>
          (let c = c\<lparr>ch_qid := fc_qid g, ch_mchan := Some k, ch_mqid := fc_qid g\<rparr> in
           (Inr (if mcache then c\<lparr>ch_cache := True\<rparr> else c), i, w)))"

text \<open>A clone of \<open>c\<close>, not yet on a connection; an open channel is not cloned.\<close>

definition devclone :: "chan \<Rightarrow> chan \<Rightarrow> chan option" where
  "devclone c old = (if ch_open c then None
     else Some ((newchan old)\<lparr>ch_dc := ch_dc c, ch_dev := ch_dev c, ch_mode := ch_mode c, ch_qid := ch_qid c, ch_offset := ch_offset c,
       ch_mqid := ch_mqid c\<rparr>))"

text \<open>\<^verbatim>\<open>Walkqid\<close>: the clone if the walk was complete, and the qids of the elements.\<close>

type_synonym walkqid = "chan option \<times> qid list"

text \<open>
  \<open>nc\<close> is the channel to walk to, if the caller has one, otherwise a clone of \<open>c\<close> is made in \<open>old\<close>, of
  type 0 until the server has accepted its fid; the result is nil (\<open>Inr None\<close>) after an error that \<open>mntwalk\<close> keeps to itself.
\<close>

definition mntwalk :: "'w mio \<Rightarrow> chan \<Rightarrow> chan option \<Rightarrow> mem list \<Rightarrow> chan \<Rightarrow> 'w \<Rightarrow> ((mem + walkqid option) \<times> 'w) option" where
  "mntwalk io c nc name old w =
     (if length name > MAXWELEM then Some (Inl (bytes ''devmnt: too many name elements''), w)
      else do {
        clone \<leftarrow> (case nc of Some nc \<Rightarrow> Some nc | None \<Rightarrow> map_option (\<lambda>nc. nc\<lparr>ch_dc := 0x2F\<rparr>) (devclone c old));
        let (r, w) = mountrpc io (zero_fcall\<lparr>fc_type := Twalk, fc_fid := ch_fid c, fc_newfid := ch_fid clone, fc_nwname := of_nat (length name),
            fc_wname := map Some name @ drop (length name) (replicate MAXWELEM None)\<rparr>) w;
        case r of
          Inl e \<Rightarrow> Some (Inr None, w)
        | Inr (g, b) \<Rightarrow>
            (let n = unat (fc_nwqid g) in
             if n > length name then Some (Inr None, w)
             else if n < length name \<and> n = 0 then Some (Inr None, w)
             else
               let clone = clone\<lparr>ch_dc := ch_dc c, ch_mchan := ch_mchan c\<rparr>;
                   clone = (if n > 0 then clone\<lparr>ch_qid := fc_wqid g ! (n - 1)\<rparr> else clone) in
               Some (Inr (Some (if n < length name then None else Some clone, take n (fc_wqid g))), w)) })"

subsection \<open>Opening, removing, status\<close>

definition Ebadarg :: mem where "Ebadarg = bytes ''bad arg in system call''"

definition openmode :: "u32int \<Rightarrow> mem + u32int" where
  "openmode md =
     (let md = md AND NOT (0x10 OR 0x20 OR 0x40) in
      if md > 3 then Inl Ebadarg else if md = 3 then Inr 0 else Inr md)"

text \<open>When \<open>openmode\<close> raises, the qid and the offset of the channel have already been set.\<close>

definition mntopencreate :: "'w mio \<Rightarrow> conn \<Rightarrow> uchar \<Rightarrow> chan \<Rightarrow> cstr \<Rightarrow> u32int \<Rightarrow> u32int \<Rightarrow> 'w \<Rightarrow> (mem + unit) \<times> chan \<times> 'w" where
  "mntopencreate io m type c name omode perm w =
     (let f = zero_fcall\<lparr>fc_type := type, fc_fid := ch_fid c, fc_mode := ucast omode\<rparr>;
          f = (if type = Tcreate then f\<lparr>fc_perm := perm, fc_name := name\<rparr> else f) in
      case mountrpc io f w of
        (Inl e, w) \<Rightarrow> (Inl e, c, w)
      | (Inr (g, b), w) \<Rightarrow>
          let c = c\<lparr>ch_qid := fc_qid g, ch_offset := 0\<rparr> in
          case openmode omode of
            Inl e \<Rightarrow> (Inl e, c, w)
          | Inr md \<Rightarrow>
              let c = c\<lparr>ch_mode := md, ch_iounit := fc_iounit g\<rparr>;
                  c = (if ch_iounit c = 0 \<or> ch_iounit c > mc_msize m - IOHDRSZ then c\<lparr>ch_iounit := mc_msize m - IOHDRSZ\<rparr> else c) in
              (Inr (), c\<lparr>ch_open := True\<rparr>, w))"

definition mntopen :: "'w mio \<Rightarrow> conn \<Rightarrow> chan \<Rightarrow> u32int \<Rightarrow> 'w \<Rightarrow> (mem + unit) \<times> chan \<times> 'w" where
  "mntopen io m c omode w = mntopencreate io m Topen c None omode 0 w"

definition mntcreate :: "'w mio \<Rightarrow> conn \<Rightarrow> chan \<Rightarrow> cstr \<Rightarrow> u32int \<Rightarrow> u32int \<Rightarrow> 'w \<Rightarrow> (mem + unit) \<times> chan \<times> 'w" where
  "mntcreate io m c name omode perm w = mntopencreate io m Tcreate c name omode perm w"

definition mntclunk :: "'w mio \<Rightarrow> chan \<Rightarrow> uchar \<Rightarrow> 'w \<Rightarrow> (mem + unit) \<times> 'w" where
  "mntclunk io c t w =
     (case mountrpc io (zero_fcall\<lparr>fc_type := t, fc_fid := ch_fid c\<rparr>) w of
        (Inl e, w) \<Rightarrow> (Inl e, w)
      | (Inr (g, b), w) \<Rightarrow> (Inr (), w))"

definition mntclose :: "'w mio \<Rightarrow> chan \<Rightarrow> 'w \<Rightarrow> (mem + unit) \<times> 'w" where
  "mntclose io c w = mntclunk io c Tclunk w"

definition mntremove :: "'w mio \<Rightarrow> chan \<Rightarrow> 'w \<Rightarrow> (mem + unit) \<times> 'w" where
  "mntremove io c w = mntclunk io c Tremove w"

definition mntwstat :: "'w mio \<Rightarrow> chan \<Rightarrow> mem \<Rightarrow> nat \<Rightarrow> 'w \<Rightarrow> (mem + nat) \<times> 'w" where
  "mntwstat io c dp n w =
     (case mountrpc io (zero_fcall\<lparr>fc_type := Twstat, fc_fid := ch_fid c, fc_nstat := of_nat n, fc_stat := dp\<rparr>) w of
        (Inl e, w) \<Rightarrow> (Inl e, w)
      | (Inr (g, b), w) \<Rightarrow> (Inr n, w))"

text \<open>The type and device of an entry at \<open>p\<close> become those of the channel.\<close>

definition mntdirfix :: "mem \<Rightarrow> nat \<Rightarrow> chan \<Rightarrow> mem option" where
  "mntdirfix dirbuf p c = do {
     let p = p + BIT16SZ;
     dirbuf \<leftarrow> PBIT16 dirbuf p (ucast (ch_dc c)); let p = p + BIT16SZ;
     PBIT32 dirbuf p (ch_dev c) }"

definition Eshortstat :: mem where "Eshortstat = bytes ''stat buffer too small''"

text \<open>The result is the error or the count, and the buffer of \<open>n\<close> bytes at \<open>dp\<close>.\<close>

definition mntstat :: "'w mio \<Rightarrow> chan \<Rightarrow> mem \<Rightarrow> nat \<Rightarrow> 'w \<Rightarrow> ((mem + nat) \<times> mem \<times> 'w) option" where
  "mntstat io c dp n w =
     (if n < BIT16SZ then Some (Inl Eshortstat, dp, w)
      else case mountrpc io (zero_fcall\<lparr>fc_type := Tstat, fc_fid := ch_fid c\<rparr>) w of
        (Inl e, w) \<Rightarrow> Some (Inl e, dp, w)
      | (Inr (g, b), w) \<Rightarrow>
          if unat (fc_nstat g) > n then do {
            dp \<leftarrow> PBIT16 dp 0 (fc_nstat g - 2);
            Some (Inr BIT16SZ, dp, w) }
          else do {
            let n = unat (fc_nstat g);
            d \<leftarrow> memget (fc_stat g) 0 n;
            dp \<leftarrow> memput dp 0 d;
            v \<leftarrow> validstat dp n;
            case v of
              Inl e \<Rightarrow> Some (Inl e, dp, w)
            | Inr _ \<Rightarrow> do { dp \<leftarrow> mntdirfix dp 0 c; Some (Inr n, dp, w) } })"

subsection \<open>Reading and writing\<close>

text \<open>
  The loop of \<open>mntrdwr\<close>.  \<open>uba\<close> is the place in the buffer; \<open>note\<close> tells whether a note is pending;
  \<open>cw\<close> is the write to the cache of the channel (\<^verbatim>\<open>cache.c\<close>), \<open>cache\<close> whether it is used.  The fuel
  counts rounds; each transfers a byte at least, unless it is the last.
\<close>

fun mntrdwr_loop :: "nat \<Rightarrow> 'w mio \<Rightarrow> ('w \<Rightarrow> bool) \<Rightarrow> (mem \<Rightarrow> uvlong \<Rightarrow> 'w \<Rightarrow> 'w) \<Rightarrow> uchar \<Rightarrow> bool \<Rightarrow> u32int \<Rightarrow> u32int \<Rightarrow>
    mem \<Rightarrow> nat \<Rightarrow> u32int \<Rightarrow> uvlong \<Rightarrow> u32int \<Rightarrow> kalloc \<Rightarrow> 'w \<Rightarrow> ((mem + u32int) \<times> mem \<times> kalloc \<times> 'w) option" where
  "mntrdwr_loop 0 io note cw type cache fid msize buf uba n off cnt ka w = None"
| "mntrdwr_loop (Suc fuel) io note cw type cache fid msize buf uba n off cnt ka w =
     (let nr = (if n > msize - IOHDRSZ then msize - IOHDRSZ else n) in do {
      d \<leftarrow> (if type = Tread then Some [] else memget buf uba (unat nr));
      let (r, w) = mountrpc io (zero_fcall\<lparr>fc_type := type, fc_fid := fid, fc_offset := off, fc_data := d, fc_count := nr\<rparr>) w;
      case r of
        Inl e \<Rightarrow> Some (Inl e, buf, ka, w)
      | Inr (g, b) \<Rightarrow> do {
          let nreq = nr;
          let nr = (if fc_count g > nreq then nreq else fc_count g);
          (buf, ka, w) \<leftarrow>
            (if type = Tread then do {
               (d, _, ka) \<leftarrow> bl2mem b (int (unat nr)) ka;
               buf \<leftarrow> memput buf uba d;
               Some (buf, ka, w) }
             else Some (buf, ka, if cache then cw (take (unat nr) d) off w else w));
          let off = off + ucast nr; let uba = uba + unat nr; let cnt = cnt + nr; let n = n - nr;
          if nr \<noteq> nreq \<or> n = 0 \<or> note w then Some (Inr cnt, buf, ka, w)
          else mntrdwr_loop fuel io note cw type cache fid msize buf uba n off cnt ka w } })"

definition mntrdwr :: "'w mio \<Rightarrow> ('w \<Rightarrow> bool) \<Rightarrow> (mem \<Rightarrow> uvlong \<Rightarrow> 'w \<Rightarrow> 'w) \<Rightarrow> conn \<Rightarrow> uchar \<Rightarrow> chan \<Rightarrow>
    mem \<Rightarrow> nat \<Rightarrow> u32int \<Rightarrow> uvlong \<Rightarrow> kalloc \<Rightarrow> 'w \<Rightarrow> ((mem + u32int) \<times> mem \<times> kalloc \<times> 'w) option" where
  "mntrdwr io note cw m type c buf uba n off ka w =
     mntrdwr_loop (Suc (unat n)) io note cw type (ch_cache c \<and> q_type (ch_qid c) AND QTDIR = 0) (ch_fid c) (mc_msize m) buf uba n off 0 ka w"

definition Esbadstat :: mem where "Esbadstat = bytes ''invalid directory entry received from server''"

text \<open>
  The entries of a directory read, from \<open>p\<close> to \<open>e\<close>: checked one by one and given the type and device of the channel.
\<close>

fun mntdir_loop :: "nat \<Rightarrow> chan \<Rightarrow> mem \<Rightarrow> nat \<Rightarrow> nat \<Rightarrow> ((mem + unit) \<times> mem) option" where
  "mntdir_loop 0 c buf p e = None"
| "mntdir_loop (Suc fuel) c buf p e =
     (if p + BIT16SZ < e then do {
        l \<leftarrow> GBIT16 buf p;
        let dirlen = BIT16SZ + unat l;
        if p + dirlen > e then Some (if p \<noteq> e then Inl Esbadstat else Inr (), buf)
        else do {
          v \<leftarrow> validstat (drop p buf) dirlen;
          case v of
            Inl x \<Rightarrow> Some (Inl x, buf)
          | Inr _ \<Rightarrow> do {
              buf \<leftarrow> mntdirfix buf p c;
              mntdir_loop fuel c buf (p + dirlen) e } } }
      else Some (if p \<noteq> e then Inl Esbadstat else Inr (), buf))"

text \<open>
  \<open>cr\<close> and \<open>cu\<close> are the read and the update of the cache: \<open>cr\<close> gives the bytes it has, at most as many as asked.
\<close>

definition mntread :: "'w mio \<Rightarrow> ('w \<Rightarrow> bool) \<Rightarrow> (uvlong \<Rightarrow> nat \<Rightarrow> 'w \<Rightarrow> mem) \<Rightarrow> (mem \<Rightarrow> uvlong \<Rightarrow> 'w \<Rightarrow> 'w) \<Rightarrow> conn \<Rightarrow> chan \<Rightarrow>
    mem \<Rightarrow> u32int \<Rightarrow> uvlong \<Rightarrow> kalloc \<Rightarrow> 'w \<Rightarrow> ((mem + u32int) \<times> mem \<times> kalloc \<times> 'w) option" where
  "mntread io note cr cu m c buf n off ka w =
     (if ch_cache c \<and> q_type (ch_qid c) AND QTDIR = 0 then do {
        let d = take (unat n) (cr off (unat n) w); let nc = of_nat (length d);
        buf \<leftarrow> memput buf 0 d;
        if nc > 0 \<and> n - nc = 0 then Some (Inr nc, buf, ka, w)
        else do {
          let p = length d; let n = n - nc; let off = off + ucast nc;
          (r, buf, ka, w) \<leftarrow> mntrdwr io note (\<lambda>_ _ w. w) m Tread c buf p n off ka w;
          case r of
            Inl e \<Rightarrow> Some (Inl e, buf, ka, w)
          | Inr k \<Rightarrow> do {
              x \<leftarrow> memget buf p (unat k);
              Some (Inr (k + nc), buf, ka, cu x off w) } } }
      else do {
        (r, buf, ka, w) \<leftarrow> mntrdwr io note (\<lambda>_ _ w. w) m Tread c buf 0 n off ka w;
        case r of
          Inl e \<Rightarrow> Some (Inl e, buf, ka, w)
        | Inr k \<Rightarrow>
            if q_type (ch_qid c) AND QTDIR \<noteq> 0 then do {
              (v, buf) \<leftarrow> mntdir_loop (Suc (unat k)) c buf 0 (unat k);
              case v of
                Inl e \<Rightarrow> Some (Inl e, buf, ka, w)
              | Inr _ \<Rightarrow> Some (Inr k, buf, ka, w) }
            else Some (Inr k, buf, ka, w) })"

definition mntwrite :: "'w mio \<Rightarrow> ('w \<Rightarrow> bool) \<Rightarrow> (mem \<Rightarrow> uvlong \<Rightarrow> 'w \<Rightarrow> 'w) \<Rightarrow> conn \<Rightarrow> chan \<Rightarrow>
    mem \<Rightarrow> u32int \<Rightarrow> uvlong \<Rightarrow> kalloc \<Rightarrow> 'w \<Rightarrow> ((mem + u32int) \<times> mem \<times> kalloc \<times> 'w) option" where
  "mntwrite io note cw m c buf n off ka w = mntrdwr io note cw m Twrite c buf 0 n off ka w"

subsection \<open>The end of a connection\<close>

text \<open>
  \<^verbatim>\<open>mntalloc\<close> keeps a list of the connections in use and one of the free ones.  A connection that is not on
  the first list goes to the second all the same.
\<close>

record conns =
  cn_list :: "mntp list"
  cn_free :: "mntp list"

definition mntpntfree :: "mntp \<Rightarrow> conns \<Rightarrow> conns" where
  "mntpntfree m l = l\<lparr>cn_list := remove1 m (cn_list l), cn_free := m # cn_free l\<rparr>"

fun free_queue :: "rpcp list \<Rightarrow> mstate \<Rightarrow> mstate option" where
  "free_queue [] s = Some s"
| "free_queue (q # r) s = do { s \<leftarrow> mntfree q s; free_queue r s }"

text \<open>
  The requests on the queue are freed; \<^verbatim>\<open>m->queue\<close> still points to the first of them, but the next user of
  the structure, \<open>mntversion\<close>, clears it, which is done here.
\<close>

definition muxclose :: "mntp \<Rightarrow> conn \<Rightarrow> mstate \<Rightarrow> conns \<Rightarrow> (conn \<times> mstate \<times> conns) option" where
  "muxclose m k s l = do {
     s \<leftarrow> free_queue (m_queue (ms_mnt s m)) (setmnt m (\<lambda>x. x\<lparr>m_queue := []\<rparr>) s);
     Some (k\<lparr>mc_id := 0, mc_version := []\<rparr>, s, mntpntfree m l) }"

end
