(* ===== verification/MntDevProps.thy ===== *)
theory MntDevProps
  imports MntDev MntReach
begin

text \<open>
  The operations of the mount device: names are checked character by character and never beyond
  their end, reads and writes in pieces come to one read or write of the whole, and directory
  entries keep all but their type and device.
\<close>

subsection \<open>Names\<close>

lemma byte_at_app [simp]: "byte_at (pre @ b # rest) (length pre) = Some (ucast b)"
  by (simp add: byte_at_def GBIT8_def memget_def)

lemma byte_at_nth: "byte_at s p = (if p < length s then Some (ucast (s ! p)) else None)"
  by (auto simp: byte_at_def GBIT8_def memget_def hd_drop_conv_nth nth_append)

lemma high_bit: "bit (b :: uchar) 7 \<longleftrightarrow> 0x80 \<le> b"
proof -
  have "bit b 7 \<longleftrightarrow> bit (unat b) 7" by (simp add: bit_unsigned_iff)
  also have "\<dots> \<longleftrightarrow> odd (unat b div 128)" by (simp add: bit_iff_odd)
  also have "\<dots> \<longleftrightarrow> 128 \<le> unat b"
  proof -
    have "unat b < 256" using unsigned_less [of b] by simp
    then have "unat b div 128 = (if 128 \<le> unat b then 1 else 0)" by (auto intro: div_nat_eqI)
    then show ?thesis by simp
  qed
  finally show ?thesis by (simp add: word_le_nat_alt)
qed

lemma unat_byte [simp]: "unat (ucast (b :: uchar) :: u32int) = unat b"
proof -
  have "unat b < 256" using unsigned_less [of b] by simp
  then show ?thesis by (simp add: unsigned_ucast_eq take_bit_nat_eq_self)
qed

lemma high_byte: "(Tx :: u32int) \<le> ucast (b :: uchar) \<longleftrightarrow> 0x80 \<le> b"
  by (simp add: word_le_nat_alt)

definition tail :: "uchar \<Rightarrow> bool" where
  "tail b \<longleftrightarrow> (ucast b XOR Tx :: u32int) AND Testx = 0"

lemma tail_high: "tail b \<Longrightarrow> 0x80 \<le> b"
proof -
  assume "tail b"
  then have "\<not> bit ((ucast b XOR Tx :: u32int) AND Testx) 7" by (simp add: tail_def)
  then have "bit b 7" by (simp add: bit_and_iff bit_xor_iff bit_ucast_iff)
  then show ?thesis by (simp add: high_bit)
qed

text \<open>A character takes a byte at least, its other bytes are tail bytes, and only a tail byte makes it read on.\<close>

lemma rune_of_len: "rune_of l low n = (r, k) \<Longrightarrow> k = 1 \<or> k = n"
  by (auto simp: rune_of_def bad_def split: if_splits)

lemma decision:
  assumes "do { c \<leftarrow> a0; if A c then Some (c, 1)
      else do { c1 \<leftarrow> a1; if B c1 \<noteq> 0 then Some bad else if C c then (if D c then Some bad else Some (d2 c c1))
      else do { c2 \<leftarrow> a2; if B c2 \<noteq> 0 then Some bad else if E c then Some (d3 c c1 c2)
      else do { c3 \<leftarrow> a3; if B c3 \<noteq> 0 then Some bad else if G c then Some (d4 c c1 c2 c3) else Some bad } } } } = Some (r, n)"
    "\<And>x y. d2 x y = (r, n) \<Longrightarrow> n = 1 \<or> n = 2" "\<And>x y z. d3 x y z = (r, n) \<Longrightarrow> n = 1 \<or> n = 3"
    "\<And>x y z u. d4 x y z u = (r, n) \<Longrightarrow> n = 1 \<or> n = 4"
  shows "n = 1 \<or> n = 2 \<and> (\<exists>x. a1 = Some x \<and> B x = (0 :: u32int)) \<or>
    n = 3 \<and> (\<exists>x y. a1 = Some x \<and> B x = 0 \<and> a2 = Some y \<and> B y = 0) \<or>
    n = 4 \<and> (\<exists>x y z. a1 = Some x \<and> B x = 0 \<and> a2 = Some y \<and> B y = 0 \<and> a3 = Some z \<and> B z = 0)"
  using assms(1) by (auto simp: bind_eq_Some_conv bad_def split: if_splits dest: assms(2-4))

lemma chartorune_len:
  assumes "chartorune m p = Some (r, n)"
  shows "n = 1 \<or> n = 2 \<and> (\<exists>x. byte_at m (p + 1) = Some x \<and> (x XOR Tx) AND Testx = 0) \<or>
    n = 3 \<and> (\<exists>x y. byte_at m (p + 1) = Some x \<and> (x XOR Tx) AND Testx = 0 \<and> byte_at m (p + 2) = Some y \<and> (y XOR Tx) AND Testx = 0) \<or>
    n = 4 \<and> (\<exists>x y z. byte_at m (p + 1) = Some x \<and> (x XOR Tx) AND Testx = 0 \<and> byte_at m (p + 2) = Some y \<and> (y XOR Tx) AND Testx = 0 \<and>
      byte_at m (p + 3) = Some z \<and> (z XOR Tx) AND Testx = 0)"
  using decision [OF assms [unfolded chartorune_def]] rune_of_len by (fastforce simp: bind_eq_Some_conv)

lemma chartorune_bytes:
  assumes "chartorune m p = Some (r, n)" "0 < i" "i < n"
  shows "p + i < length m \<and> tail (m ! (p + i))"
proof -
  have "i = 1 \<and> n \<ge> 2 \<or> i = 2 \<and> n \<ge> 3 \<or> i = 3 \<and> n \<ge> 4 \<or> n > 4" using assms(2,3) by linarith
  moreover have "\<exists>x. byte_at m q = Some x \<and> (x XOR Tx) AND Testx = 0 \<Longrightarrow> q < length m \<and> tail (m ! q)" for q
    by (auto simp: byte_at_nth tail_def split: if_splits)
  ultimately show ?thesis using chartorune_len [OF assms(1)] by fastforce
qed

lemma chartorune_pos: "chartorune m p = Some (r, n) \<Longrightarrow> 0 < n"
  using chartorune_len [of m p r n] by auto

lemma chartorune_total:
  assumes "0x80 \<le> m ! p" "p < e" "e < length m" "m ! e = 0"
  shows "\<exists>r n. chartorune m p = Some (r, n)"
proof -
  have 1: "p + 1 < length m" using assms(2,3) by simp
  have z: "tail (m ! q) \<Longrightarrow> q \<noteq> e" for q using tail_high assms(4) by fastforce
  have 2: "tail (m ! (p + 1)) \<Longrightarrow> p + 2 < length m \<and> p + 2 \<le> e" using z [of "p + 1"] assms(2,3) by simp
  have 3: "tail (m ! (p + 1)) \<Longrightarrow> tail (m ! (p + 2)) \<Longrightarrow> p + 3 < length m" using z [of "p + 2"] 2 assms(3) by simp
  show ?thesis using 1 2 3 unfolding chartorune_def Let_def byte_at_nth by (auto simp: tail_def)
qed

lemma chartorune_run:
  assumes "chartorune m p = Some (r, n)" "0x80 \<le> m ! p" "p < e" "m ! e = 0"
  shows "p + n \<le> e" "i < n \<Longrightarrow> 0x80 \<le> m ! (p + i)"
proof -
  have t: "i < n \<Longrightarrow> 0x80 \<le> m ! (p + i)" for i using chartorune_bytes [OF assms(1), of i] assms(2) tail_high by (cases "i = 0") auto
  show "i < n \<Longrightarrow> 0x80 \<le> m ! (p + i)" by (rule t)
  show "p + n \<le> e"
  proof (rule ccontr)
    assume "\<not> p + n \<le> e"
    then have "0x80 \<le> m ! (p + (e - p))" using assms(3) by (intro t) simp
    then show False using assms(3,4) by simp
  qed
qed

text \<open>The scan of a name: every byte below \<open>Runeself\<close> is looked at, and no other.\<close>

definition frog_at :: "bool \<Rightarrow> uchar \<Rightarrow> bool" where
  "frog_at slashok b \<longleftrightarrow> (b < 32 \<or> b = 0x2F \<or> b = 0x7F) \<and> \<not> (slashok \<and> b = 0x2F)"

lemma isfrog_byte: "isfrog (ucast (b :: uchar)) \<and> (\<not> slashok \<or> (ucast b :: u32int) \<noteq> 0x2F) \<longleftrightarrow> frog_at slashok b"
proof -
  have "(ucast b :: u32int) = 0x2F \<longleftrightarrow> b = 0x2F" "(ucast b :: u32int) = 0x7F \<longleftrightarrow> b = 0x7F" "(ucast b :: u32int) < 32 \<longleftrightarrow> b < 32"
    by (simp_all add: word_less_nat_alt word_unat_eq_iff)
  then show ?thesis by (auto simp: isfrog_def frog_at_def)
qed

lemma frog_low: "frog_at sl b \<Longrightarrow> b < 0x80"
  by (auto simp: frog_at_def word_less_nat_alt)

lemma validname_loop_spec:
  "0 \<notin> set s \<Longrightarrow> length s < fuel \<Longrightarrow>
    validname_loop fuel (pre @ s @ 0 # rest) (length pre) sl = Some (if \<exists>b \<in> set s. frog_at sl b then Inl Ebadchar else Inr ())"
proof (induction fuel arbitrary: pre s)
  case (Suc fuel)
  show ?case
  proof (cases s)
    case Nil
    then show ?thesis by simp
  next
    case (Cons b t)
    let ?m = "pre @ s @ 0 # rest"
    have b: "b \<noteq> 0" "(ucast b :: u32int) \<noteq> 0" using Suc.prems(1) Cons by (auto simp: word_unat_eq_iff)
    show ?thesis
    proof (cases "0x80 \<le> b")
      case False
      have "validname_loop fuel ((pre @ [b]) @ t @ 0 # rest) (length (pre @ [b])) sl =
          Some (if \<exists>b \<in> set t. frog_at sl b then Inl Ebadchar else Inr ())"
        by (rule Suc.IH) (use Suc.prems Cons in auto)
      then show ?thesis using False b Cons isfrog_byte [of b sl] by (auto simp: high_byte)
    next
      case True
      let ?e = "length pre + length s"
      have at: "?m ! (length pre + k) = (s @ 0 # rest) ! k" for k by (simp add: nth_append)
      have e: "?m ! ?e = 0" "?e < length ?m" "length pre < ?e" "0x80 \<le> ?m ! length pre" using at [of "length s"] True Cons by (simp_all add: nth_append)
      obtain r n where n: "chartorune ?m (length pre) = Some (r, n)" using chartorune_total [OF e(4,3,2,1)] by blast
      note run = chartorune_run [OF n e(4,3,1)]
      have ns: "n \<le> length s" using run(1) by simp
      have high: "0x80 \<le> x" if x: "x \<in> set (take n s)" for x
      proof -
        obtain i where i: "i < n" "i < length s" "x = s ! i" using x by (auto simp: in_set_conv_nth)
        then show ?thesis using run(2) [OF i(1)] at [of i] by (simp add: nth_append)
      qed
      have sp: "set s = set (take n s) \<union> set (drop n s)" by (metis append_take_drop_id set_append)
      have "\<not> frog_at sl x" if "x \<in> set (take n s)" for x using high [OF that] frog_low [of sl x] by auto
      then have f: "(\<exists>x \<in> set s. frog_at sl x) \<longleftrightarrow> (\<exists>x \<in> set (drop n s). frog_at sl x)" using sp by auto
      have "validname_loop fuel ((pre @ take n s) @ drop n s @ 0 # rest) (length (pre @ take n s)) sl =
          Some (if \<exists>b \<in> set (drop n s). frog_at sl b then Inl Ebadchar else Inr ())"
        by (rule Suc.IH) (use Suc.prems chartorune_pos [OF n] ns in \<open>auto dest: in_set_dropD\<close>)
      moreover have "(pre @ take n s) @ drop n s @ 0 # rest = ?m" "length (pre @ take n s) = length pre + n" using ns by simp_all
      ultimately have l: "validname_loop fuel ?m (length pre + n) sl =
          Some (if \<exists>b \<in> set (drop n s). frog_at sl b then Inl Ebadchar else Inr ())" by metis
      have c: "byte_at ?m (length pre) = Some (ucast b)" using Cons by simp
      have h: "(Runeself :: u32int) \<le> ucast b" using True by (simp add: high_byte)
      show ?thesis unfolding validname_loop.simps(2) c using b(2) h n l f by simp
    qed
  qed
qed simp

lemma validname_spec:
  assumes "0 \<notin> set s"
  shows "validname (s @ 0 # rest) slashok = Some
    (if length s \<ge> 2 ^ 16 then Inl Enametoolong else if \<exists>b \<in> set s. frog_at slashok b then Inl Ebadchar else Inr ())"
proof (cases "length s \<ge> 2 ^ 16")
  case True
  then have "take (2 ^ 16) (s @ 0 # rest) = take (2 ^ 16) s" by simp
  then have "0 \<notin> set (take (2 ^ 16) (s @ 0 # rest))" using assms by (auto dest: in_set_takeD)
  then show ?thesis using True unfolding validname_def by simp
next
  case False
  then obtain k where "2 ^ 16 - length s = Suc k" by (metis Suc_diff_Suc not_le)
  then have "0 \<in> set (take (2 ^ 16) (s @ 0 # rest))" using False unfolding take_append by simp
  then show ?thesis using False validname_loop_spec [OF assms, of "Suc (length (s @ 0 # rest))" "[]" rest slashok]
    unfolding validname_def by simp
qed

text \<open>
  C29. A name is acceptable exactly when none of its bytes is a control character, DEL or, where it is
  not allowed, a slash; names of \<^verbatim>\<open>2^16\<close> bytes or more are refused.  The check decodes characters of
  up to four bytes, malformed ones as well, and never looks past the NUL.  This is the table \<^verbatim>\<open>isfrog\<close>,
  not the rule of intro(5), which \<open>name_rule_differs\<close> compares it with.
\<close>

theorem validname_iff:
  assumes "0 \<notin> set s"
  shows "validname (s @ 0 # rest) slashok = Some
    (if length s \<ge> 2 ^ 16 then Inl Enametoolong
     else if \<exists>b \<in> set s. (b < 32 \<or> b = 0x2F \<or> b = 0x7F) \<and> \<not> (slashok \<and> b = 0x2F) then Inl Ebadchar else Inr ())"
  using validname_spec [OF assms] by (simp only: frog_at_def)

theorem validname_iff_witness:
  "validname [0x67, 0xC3, 0xA9, 0, 7] False = Some (Inr ()) \<and> validname [0x61, 0x2F, 0x62, 0] False = Some (Inl Ebadchar)"
  using validname_iff [of "[0x67, 0xC3, 0xA9]" "[7]" False] validname_iff [of "[0x61, 0x2F, 0x62]" "[]" False] by simp

text \<open>
  Section 5 intro says which characters names may have: any outside hexadecimal 00-1F and 80-9F,
  except slash.  On names of characters below 800, encoded in UTF-8, the code differs from this
  in two ways: it refuses 7F, and it accepts 80-9F, whose encodings it decodes but does not look at.
\<close>

definition utf8 :: "nat \<Rightarrow> uchar list" where
  "utf8 c = (if c < 0x80 then [of_nat c] else [of_nat (0xC0 + c div 64), of_nat (0x80 + c mod 64)])"

definition intro_legal :: "nat \<Rightarrow> bool" where
  "intro_legal c \<longleftrightarrow> \<not> (c \<le> 0x1F \<or> 0x80 \<le> c \<and> c \<le> 0x9F \<or> c = 0x2F)"

lemma utf8_frog:
  assumes "c < 0x800"
  shows "(\<exists>b \<in> set (utf8 c). b < 32 \<or> b = 0x2F \<or> b = 0x7F) \<longleftrightarrow> c < 32 \<or> c = 0x2F \<or> c = 0x7F"
    "0 \<in> set (utf8 c) \<longleftrightarrow> c = 0"
proof -
  have u: "unat (of_nat n :: uchar) = n" if "n < 256" for n using that by (simp add: unat_of_nat)
  have w: "(of_nat n :: uchar) < 32 \<longleftrightarrow> n < 32" "(of_nat n :: uchar) = 0x2F \<longleftrightarrow> n = 0x2F"
    "(of_nat n :: uchar) = 0x7F \<longleftrightarrow> n = 0x7F" "0 = (of_nat n :: uchar) \<longleftrightarrow> n = 0" if "n < 256" for n
    using u [OF that] by (auto simp: word_less_nat_alt word_unat_eq_iff)
  have hi: "0xC0 + c div 64 < 256" "0x80 + c mod 64 < 256" using assms by auto
  show "(\<exists>b \<in> set (utf8 c). b < 32 \<or> b = 0x2F \<or> b = 0x7F) \<longleftrightarrow> c < 32 \<or> c = 0x2F \<or> c = 0x7F"
    "0 \<in> set (utf8 c) \<longleftrightarrow> c = 0"
    using w [OF hi(1)] w [OF hi(2)] w [of c] by (cases "c < 0x80"; simp add: utf8_def del: of_nat_add)+
qed

theorem name_rule_differs:
  assumes "\<forall>c \<in> set cs. 0 < c \<and> c < 0x800" "length (concat (map utf8 cs)) < 2 ^ 16"
  shows "validname (concat (map utf8 cs) @ 0 # rest) False = Some (Inr ()) \<longleftrightarrow>
    (\<forall>c \<in> set cs. (intro_legal c \<or> 0x80 \<le> c \<and> c \<le> 0x9F) \<and> c \<noteq> 0x7F)"
proof -
  let ?s = "concat (map utf8 cs)"
  have nul: "0 \<notin> set ?s" using assms(1) utf8_frog(2) by auto
  have ch: "(\<exists>b \<in> set (utf8 c). b < 32 \<or> b = 0x2F \<or> b = 0x7F) \<longleftrightarrow> c < 32 \<or> c = 0x2F \<or> c = 0x7F" if "c \<in> set cs" for c
    using utf8_frog(1) [of c] assms(1) that by simp
  have legal: "c < 32 \<or> c = 0x2F \<or> c = 0x7F \<longleftrightarrow> \<not> ((intro_legal c \<or> 0x80 \<le> c \<and> c \<le> 0x9F) \<and> c \<noteq> 0x7F)" for c
    unfolding intro_legal_def by linarith
  have "(\<exists>b \<in> set ?s. b < 32 \<or> b = 0x2F \<or> b = 0x7F) \<longleftrightarrow> (\<exists>c \<in> set cs. \<exists>b \<in> set (utf8 c). b < 32 \<or> b = 0x2F \<or> b = 0x7F)"
    unfolding set_concat set_map by blast
  also have "\<dots> \<longleftrightarrow> (\<exists>c \<in> set cs. c < 32 \<or> c = 0x2F \<or> c = 0x7F)"
    using ch by meson
  also have "\<dots> \<longleftrightarrow> \<not> (\<forall>c \<in> set cs. (intro_legal c \<or> 0x80 \<le> c \<and> c \<le> 0x9F) \<and> c \<noteq> 0x7F)"
    unfolding legal by blast
  finally have "(\<exists>b \<in> set ?s. b < 32 \<or> b = 0x2F \<or> b = 0x7F) \<longleftrightarrow>
    \<not> (\<forall>c \<in> set cs. (intro_legal c \<or> 0x80 \<le> c \<and> c \<le> 0x9F) \<and> c \<noteq> 0x7F)" .
  moreover have "\<not> 2 ^ 16 \<le> length ?s" using assms(2) by simp
  ultimately show ?thesis unfolding validname_spec [OF nul] frog_at_def by simp
qed

theorem name_rule_differs_witness:
  "validname [0x7F, 0] False \<noteq> Some (Inr ()) \<and> intro_legal 0x7F \<and>
   validname [0xC2, 0x85, 0] False = Some (Inr ()) \<and> \<not> intro_legal 0x85"
  using name_rule_differs [of "[0x7F]" "[]"] name_rule_differs [of "[0x85]" "[]"]
  by (simp add: utf8_def intro_legal_def)

subsection \<open>Reading in pieces\<close>

text \<open>
  A service that answers every read with bytes of the file \<open>F\<close> from the offset on: as many as asked
  or as there are when it is \<open>full\<close>, maybe fewer otherwise.  The count is that of the data, which is
  what \<open>mntrpcread\<close> delivers.
\<close>

definition serves :: "bool \<Rightarrow> 'w mio \<Rightarrow> mem \<Rightarrow> bool" where
  "serves full io F \<longleftrightarrow> (\<forall>f w. fc_type f = Tread \<longrightarrow> (\<exists>g b w' k. io f w = (Inr (g, b), w') \<and> fc_type g = Rread \<and> wfc b \<and>
     unat (fc_count g) = length (cdata b) \<and> k \<le> unat (fc_count f) \<and> (full \<longrightarrow> k = unat (fc_count f)) \<and>
     cdata b = take k (drop (unat (fc_offset f)) F)))"

definition put_at :: "mem \<Rightarrow> nat \<Rightarrow> mem \<Rightarrow> mem" where
  "put_at buf p d = take p buf @ d @ drop (p + length d) buf"

lemma put_at_put_at: "p + length d \<le> length buf \<Longrightarrow> put_at (put_at buf p d) (p + length d) e = put_at buf p (d @ e)"
  by (simp add: put_at_def ac_simps)

lemma memput_put_at: "p + length d \<le> length buf \<Longrightarrow> memput buf p d = Some (put_at buf p d)"
  by (simp add: memput_def put_at_def)

lemma length_put_at [simp]: "p + length d \<le> length buf \<Longrightarrow> length (put_at buf p d) = length buf"
  by (simp add: put_at_def)

lemma mountrpc_ok: "io f w = (Inr (g, b), w') \<Longrightarrow> fc_type g = fc_type f + 1 \<Longrightarrow> fc_type g \<noteq> Rerror \<Longrightarrow> fc_type g \<noteq> Rflush \<Longrightarrow>
    mountrpc io f w = (Inr (g, b), w')"
  by (simp add: mountrpc_def mountrpc_check_def Let_def)

lemma unat_add_bound: "unat (a :: 'a :: len word) + unat (b :: 'a word) < 2 ^ LENGTH('a) \<Longrightarrow> unat (a + b) = unat a + unat b"
  by (simp add: unat_word_ariths)

lemma unat_ucast64 [simp]: "unat (ucast (x :: u32int) :: uvlong) = unat x"
proof -
  have "unat x < 2 ^ 32" using unsigned_less [of x] by simp
  then have "unat x < 2 ^ 64" by simp
  then show ?thesis by (simp add: unsigned_ucast_eq take_bit_nat_eq_self)
qed

text \<open>The size of a round, and what is left after one that got all it asked for.\<close>

definition part :: "u32int \<Rightarrow> u32int \<Rightarrow> u32int" where
  "part msize n = (if n > msize - IOHDRSZ then msize - IOHDRSZ else n)"

lemma part_le: "unat (part msize n) \<le> unat n"
  by (auto simp: part_def word_less_nat_alt)

lemma part_pos: "IOHDRSZ < msize \<Longrightarrow> n \<noteq> 0 \<Longrightarrow> 0 < unat (part msize n)"
  by (auto simp: part_def unat_gt_0)

text \<open>
  The rounds of a read.  A service that is full is read to the end of what was asked for, unless a note
  comes; any service gives a piece of the file that starts where it should.
\<close>

lemma read_loop:
  assumes "serves full io F" "IOHDRSZ < msize"
  shows "unat n < fuel \<Longrightarrow> uba + unat n \<le> length buf \<Longrightarrow> unat off + unat n < 2 ^ 64 \<Longrightarrow> unat cnt + unat n < 2 ^ 32 \<Longrightarrow> mem_avail ka \<Longrightarrow>
    \<exists>k ka' w'. mntrdwr_loop fuel io note cw Tread cache fid msize buf uba n off cnt ka w =
        Some (Inr (cnt + of_nat k), put_at buf uba (take k (drop (unat off) F)), ka', w') \<and>
      k \<le> unat n \<and> k \<le> length F - unat off \<and> (full \<and> (\<forall>w. \<not> note w) \<longrightarrow> k = min (unat n) (length F - unat off))"
proof (induction fuel arbitrary: n uba buf off cnt ka w)
  case (Suc fuel)
  define nr where "nr = part msize n"
  let ?f = "zero_fcall\<lparr>fc_type := Tread, fc_fid := fid, fc_offset := off, fc_data := [], fc_count := nr\<rparr>"
  have t: "fc_type ?f = Tread" "fc_count ?f = nr" "fc_offset ?f = off" by simp_all
  obtain g b w1 k where io: "io ?f w = (Inr (g, b), w1)" "fc_type g = Rread" "wfc b" "unat (fc_count g) = length (cdata b)"
      "k \<le> unat nr" "full \<longrightarrow> k = unat nr" "cdata b = take k (drop (unat off) F)"
    using assms(1) [unfolded serves_def, rule_format, OF t(1), of w] unfolding t(2,3) by blast
  have rpc: "mountrpc io ?f w = (Inr (g, b), w1)" using io(1,2) by (intro mountrpc_ok) simp_all
  define l where "l = length (cdata b)"
  have l: "l \<le> unat nr" "l = min k (length F - unat off)" "fc_count g \<le> nr" "cdata b = take l (drop (unat off) F)"
    using io(4,5,7) by (simp_all add: l_def word_le_nat_alt min_def)
  have nrn: "unat nr \<le> unat n" by (simp add: nr_def part_le)
  have cl: "unat (fc_count g) = l" using io(4) by (simp add: l_def)
  have cli: "uint (fc_count g) = int l" using cl by (simp add: uint_nat)
  have c: "(if fc_count g > nr then nr else fc_count g) = fc_count g" using l(3) by (auto simp: not_less intro: order.antisym)
  obtain c' ka' where mem: "bl2mem b (int l) ka = Some (cdata b, c', ka')" "mem_avail ka'"
    using bl2mem_ok [OF io(3) _ Suc.prems(5), of "int l"] by (auto simp: l_def owns_def)
  have put: "memput buf uba (cdata b) = Some (put_at buf uba (cdata b))"
    using Suc.prems(2) l(1) nrn by (intro memput_put_at) (simp add: l_def)
  define stop where "stop \<longleftrightarrow> fc_count g \<noteq> nr \<or> n - fc_count g = 0 \<or> note w1"
  have nrd: "(if n > msize - IOHDRSZ then msize - IOHDRSZ else n) = nr" by (simp add: nr_def part_def)
  have step: "mntrdwr_loop (Suc fuel) io note cw Tread cache fid msize buf uba n off cnt ka w =
      (if stop then Some (Inr (cnt + fc_count g), put_at buf uba (cdata b), ka', w1)
       else mntrdwr_loop fuel io note cw Tread cache fid msize (put_at buf uba (cdata b)) (uba + l) (n - fc_count g) (off + ucast (fc_count g))
         (cnt + fc_count g) ka' w1)"
    unfolding mntrdwr_loop.simps(2) nrd stop_def Let_def using rpc mem(1) put by (simp add: cl cli c cong: if_cong)
  show ?case
  proof (cases stop)
    case True
    have "full \<and> (\<forall>w. \<not> note w) \<Longrightarrow> l = min (unat n) (length F - unat off)"
    proof -
      assume a: "full \<and> (\<forall>w. \<not> note w)"
      then have "l = min (unat nr) (length F - unat off)" using l(2) io(6) by simp
      moreover have "fc_count g \<noteq> nr \<or> fc_count g = n" using True a by (auto simp: stop_def)
      then have "l \<noteq> unat nr \<or> l = unat n" using cl by (metis word_unat_eq_iff)
      ultimately show ?thesis using nrn by auto
    qed
    moreover have "fc_count g = of_nat l" using cl by (metis of_nat_unat ucast_id)
    ultimately show ?thesis using step True l nrn by (intro exI [of _ l]) auto
  next
    case False
    then have ne: "fc_count g = nr" "n - nr \<noteq> 0" "l = unat nr" using cl by (auto simp: stop_def)
    then have "n \<noteq> 0" by (auto simp: nr_def part_def)
    then have pos: "0 < l" using part_pos [OF assms(2)] ne(3) by (simp add: nr_def)
    have sub: "unat (n - nr) = unat n - l" using nrn ne(3) by (simp add: unat_sub word_le_nat_alt)
    have o: "unat (off + ucast nr) = unat off + l" using Suc.prems(3) nrn ne(3) unat_add_bound [of off "ucast nr"] by simp
    have cn: "unat (cnt + nr) = unat cnt + l" using Suc.prems(4) nrn ne(3) unat_add_bound [of cnt nr] by simp
    have len: "length (cdata b) = l" by (simp add: l_def)
    have fits: "uba + length (cdata b) \<le> length buf" using Suc.prems(2) nrn ne(3) len by simp
    have pre: "unat (n - nr) < fuel" "uba + l + unat (n - nr) \<le> length (put_at buf uba (cdata b))"
        "unat (off + ucast nr) + unat (n - nr) < 2 ^ 64" "unat (cnt + nr) + unat (n - nr) < 2 ^ 32"
      using Suc.prems nrn ne(3) pos fits unfolding sub o cn by simp_all
    obtain k2 ka2 w2 where ih: "mntrdwr_loop fuel io note cw Tread cache fid msize (put_at buf uba (cdata b)) (uba + l) (n - nr) (off + ucast nr) (cnt + nr) ka' w1 =
        Some (Inr (cnt + nr + of_nat k2), put_at (put_at buf uba (cdata b)) (uba + l) (take k2 (drop (unat (off + ucast nr)) F)), ka2, w2)"
      "k2 \<le> unat (n - nr)" "k2 \<le> length F - unat (off + ucast nr)"
      "full \<and> (\<forall>w. \<not> note w) \<longrightarrow> k2 = min (unat (n - nr)) (length F - unat (off + ucast nr))"
      using Suc.IH [OF pre mem(2), of w1] by blast
    have "put_at (put_at buf uba (cdata b)) (uba + l) (take k2 (drop (unat (off + ucast nr)) F)) = put_at buf uba (take (l + k2) (drop (unat off) F))"
      unfolding o put_at_put_at [OF fits, unfolded len] by (simp only: l(4) take_add drop_drop add.commute [of l "unat off"])
    moreover have "cnt + nr + of_nat k2 = cnt + of_nat (l + k2)" using ne(3) by simp
    moreover have "l + k2 \<le> unat n" "l + k2 \<le> length F - unat off"
    proof -
      have "l \<le> length F - unat off" "l \<le> unat n" using l(2) nrn ne(3) by simp_all
      then show "l + k2 \<le> unat n" "l + k2 \<le> length F - unat off" using ih(2,3) unfolding sub o by linarith+
    qed
    moreover have "full \<and> (\<forall>w. \<not> note w) \<Longrightarrow> l + k2 = min (unat n) (length F - unat off)"
    proof -
      assume "full \<and> (\<forall>w. \<not> note w)"
      then have "k2 = min (unat n - l) (length F - (unat off + l))" using ih(4) unfolding sub o by blast
      moreover have "l \<le> length F - unat off" "l \<le> unat n" using l(2) nrn ne(3) by simp_all
      ultimately show "l + k2 = min (unat n) (length F - unat off)" by linarith
    qed
    ultimately show ?thesis using step False ih(1) ne(1) by (intro exI [of _ "l + k2"]) auto
  qed
qed simp

lemma rdwr_read:
  assumes "serves full io F" "IOHDRSZ < mc_msize m" "unat n \<le> length buf" "unat off + unat n < 2 ^ 64" "mem_avail ka"
  shows "\<exists>k ka' w'. mntrdwr io note cw m Tread c buf 0 n off ka w =
      Some (Inr (of_nat k), take k (drop (unat off) F) @ drop k buf, ka', w') \<and> k \<le> unat n \<and> k \<le> length F - unat off \<and>
    (full \<and> (\<forall>w. \<not> note w) \<longrightarrow> k = min (unat n) (length F - unat off))"
proof -
  let ?cache = "ch_cache c \<and> q_type (ch_qid c) AND QTDIR = 0"
  have "unat n < 2 ^ 32" using unsigned_less [of n] by simp
  then obtain k ka' w' where r: "mntrdwr_loop (Suc (unat n)) io note cw Tread ?cache (ch_fid c) (mc_msize m) buf 0 n off 0 ka w =
        Some (Inr (0 + of_nat k), put_at buf 0 (take k (drop (unat off) F)), ka', w')"
      "k \<le> unat n" "k \<le> length F - unat off" "full \<and> (\<forall>w. \<not> note w) \<longrightarrow> k = min (unat n) (length F - unat off)"
    using read_loop [OF assms(1,2), of n "Suc (unat n)" 0 buf off 0 ka "note" cw ?cache "ch_fid c" w] assms(3-5)
    by (simp del: mntrdwr_loop.simps) blast
  have "put_at buf 0 (take k (drop (unat off) F)) = take k (drop (unat off) F) @ drop k buf" using r(3) by (simp add: put_at_def)
  then show ?thesis using r unfolding mntrdwr_def by (intro exI [of _ k]) (simp del: mntrdwr_loop.simps)
qed

text \<open>
  C8. A read of a file through the mount driver, made in as many messages as the size of messages of the
  connection asks for, is one read: it returns \<open>k\<close> bytes, which are the bytes of the file from the offset
  on, puts them at the start of the buffer and changes nothing else of it.  If the server gives what it is
  asked for and no note comes, \<open>k\<close> is all that was asked for, or what the file has left.
\<close>

theorem read_whole:
  assumes "serves full io F" "IOHDRSZ < mc_msize m" "\<not> ch_cache c" "q_type (ch_qid c) AND QTDIR = 0"
    "unat n \<le> length buf" "unat off + unat n < 2 ^ 64" "mem_avail ka"
  shows "\<exists>k ka' w'. mntread io note cr cu m c buf n off ka w =
      Some (Inr (of_nat k), take k (drop (unat off) F) @ drop k buf, ka', w') \<and> k \<le> unat n \<and> k \<le> length F - unat off \<and>
    (full \<and> (\<forall>w. \<not> note w) \<longrightarrow> k = min (unat n) (length F - unat off))"
  using rdwr_read [OF assms(1,2,5,6,7), of "note" "\<lambda>_ _ w. w" c w] assms(3,4) unfolding mntread_def by fastforce

text \<open>A server for one file that has the bytes \<open>F\<close>.\<close>

definition file_io :: "mem \<Rightarrow> unit mio" where
  "file_io F f w = (let d = take (unat (fc_count f)) (drop (unat (fc_offset f)) F) in
     (Inr (zero_fcall\<lparr>fc_type := Rread, fc_count := of_nat (length d)\<rparr>, [\<lparr>b_buf = d, b_rp = 0, b_wp = length d, b_own = False, b_intr = False\<rparr>]), w))"

lemma file_io_serves: "serves True (file_io F) F"
  unfolding serves_def
proof (intro allI impI)
  fix f :: fcall and w :: unit
  let ?d = "take (unat (fc_count f)) (drop (unat (fc_offset f)) F)"
  let ?b = "\<lparr>b_buf = ?d, b_rp = 0, b_wp = length ?d, b_own = False, b_intr = False\<rparr>"
  have "unat (fc_count f) < 2 ^ 32" using unsigned_less [of "fc_count f"] by simp
  then have "length ?d < 2 ^ 32" using length_take [of "unat (fc_count f)" "drop (unat (fc_offset f)) F"] by linarith
  then have "unat (of_nat (length ?d) :: u32int) = length ?d" by (simp add: unat_of_nat del: length_take length_drop)
  moreover have "wfc [?b]" "cdata [?b] = ?d" by (simp_all add: wfb_def checkb_def bdata_def min_def)
  ultimately show "\<exists>g b w' k. file_io F f w = (Inr (g, b), w') \<and> fc_type g = Rread \<and> wfc b \<and> unat (fc_count g) = length (cdata b) \<and>
      k \<le> unat (fc_count f) \<and> (True \<longrightarrow> k = unat (fc_count f)) \<and> cdata b = take k (drop (unat (fc_offset f)) F)"
    unfolding file_io_def Let_def by (intro exI [of _ "unat (fc_count f)"] exI conjI) (rule refl | simp)+
qed

text \<open>Ten bytes in messages of 28: three requests.\<close>

definition small_conn :: conn where
  "small_conn = \<lparr>mc_id = 1, mc_version = VERSION9P, mc_msize = 28\<rparr>"

definition fresh :: chan where
  "fresh = \<lparr>ch_fid = 0, ch_dc = 0x7C, ch_dev = 0, ch_qid = zero_qid, ch_mqid = zero_qid, ch_mode = 2, ch_iounit = 0, ch_offset = 0,
     ch_open = True, ch_cache = False, ch_mchan = None\<rparr>"

definition plain :: chan where
  "plain = fresh\<lparr>ch_fid := 7, ch_dc := 0x4D, ch_dev := 2, ch_mchan := Some 0\<rparr>"

theorem read_whole_witness:
  "\<exists>ka'. mntread (file_io [1, 2, 3, 4, 5, 6, 7, 8, 9, 10]) (\<lambda>_. False) (\<lambda>_ _ _. []) (\<lambda>_ _ w. w) small_conn plain (replicate 12 0) 12 3 sample_ka () =
    Some (Inr 7, [4, 5, 6, 7, 8, 9, 10, 0, 0, 0, 0, 0], ka', ())"
proof -
  have "IOHDRSZ < mc_msize small_conn" "\<not> ch_cache plain" "q_type (ch_qid plain) AND QTDIR = 0"
    by (simp_all add: small_conn_def IOHDRSZ_def plain_def fresh_def zero_qid_def)
  from read_whole [OF file_io_serves [of "[1, 2, 3, 4, 5, 6, 7, 8, 9, 10]"] this, of 12 "replicate 12 0" 3 sample_ka "\<lambda>_. False" "\<lambda>_ _ _. []" "\<lambda>_ _ w. w"]
  obtain ka' where "mntread (file_io [1, 2, 3, 4, 5, 6, 7, 8, 9, 10]) (\<lambda>_. False) (\<lambda>_ _ _. []) (\<lambda>_ _ w. w) small_conn plain (replicate 12 0) 12 3 sample_ka () =
      Some (Inr 7, take 7 (drop 3 [1, 2, 3, 4, 5, 6, 7, 8, 9, 10]) @ drop 7 (replicate 12 0), ka', ())"
    using sample_ok(1) by fastforce
  moreover have "take 7 (drop 3 [1, 2, 3, 4, 5, 6, 7, 8, 9, 10 :: uchar]) @ drop 7 (replicate 12 0) = [4, 5, 6, 7, 8, 9, 10, 0, 0, 0, 0, 0]"
    by (simp add: numeral_eq_Suc)
  ultimately show ?thesis by auto
qed

subsection \<open>Writing in pieces\<close>

text \<open>A file as a map from offsets to bytes, and what a write of \<open>d\<close> at \<open>p\<close> makes of it.\<close>

definition splice :: "(nat \<rightharpoonup> uchar) \<Rightarrow> nat \<Rightarrow> mem \<Rightarrow> (nat \<rightharpoonup> uchar)" where
  "splice F p d = (\<lambda>i. if p \<le> i \<and> i < p + length d then Some (d ! (i - p)) else F i)"

lemma splice_nil [simp]: "splice F p [] = F"
  by (auto simp: splice_def fun_eq_iff)

lemma splice_splice: "splice (splice F p d) (p + length d) e = splice F p (d @ e)"
  by (auto simp: splice_def fun_eq_iff nth_append)

text \<open>A service that takes bytes of every write, from the first one on: all of them when it is \<open>full\<close>.\<close>

definition stores :: "bool \<Rightarrow> 'w mio \<Rightarrow> ('w \<Rightarrow> nat \<rightharpoonup> uchar) \<Rightarrow> bool" where
  "stores full io fileof \<longleftrightarrow> (\<forall>f w. fc_type f = Twrite \<longrightarrow> (\<exists>g b w'. io f w = (Inr (g, b), w') \<and> fc_type g = Rwrite \<and>
     fc_count g \<le> fc_count f \<and> (full \<longrightarrow> fc_count g = fc_count f) \<and>
     fileof w' = splice (fileof w) (unat (fc_offset f)) (take (unat (fc_count g)) (fc_data f))))"

lemma write_loop:
  assumes "stores full io fileof" "IOHDRSZ < msize"
  shows "unat n < fuel \<Longrightarrow> uba + unat n \<le> length buf \<Longrightarrow> unat off + unat n < 2 ^ 64 \<Longrightarrow> unat cnt + unat n < 2 ^ 32 \<Longrightarrow>
    \<exists>k w'. mntrdwr_loop fuel io note cw Twrite False fid msize buf uba n off cnt ka w = Some (Inr (cnt + of_nat k), buf, ka, w') \<and>
      k \<le> unat n \<and> fileof w' = splice (fileof w) (unat off) (take k (drop uba buf)) \<and> (full \<and> (\<forall>w. \<not> note w) \<longrightarrow> k = unat n)"
proof (induction fuel arbitrary: n uba off cnt w)
  case (Suc fuel)
  define nr where "nr = part msize n"
  define d where "d = take (unat nr) (drop uba buf)"
  let ?f = "zero_fcall\<lparr>fc_type := Twrite, fc_fid := fid, fc_offset := off, fc_data := d, fc_count := nr\<rparr>"
  have t: "fc_type ?f = Twrite" "fc_count ?f = nr" "fc_offset ?f = off" "fc_data ?f = d" by simp_all
  obtain g b w1 where io: "io ?f w = (Inr (g, b), w1)" "fc_type g = Rwrite" "fc_count g \<le> nr" "full \<longrightarrow> fc_count g = nr"
      "fileof w1 = splice (fileof w) (unat off) (take (unat (fc_count g)) d)"
    using assms(1) [unfolded stores_def, rule_format, OF t(1), of w] unfolding t(2-4) by blast
  have rpc: "mountrpc io ?f w = (Inr (g, b), w1)" using io(1,2) by (intro mountrpc_ok) simp_all
  define l where "l = unat (fc_count g)"
  have nrn: "unat nr \<le> unat n" by (simp add: nr_def part_le)
  have l: "l \<le> unat nr" using io(3) by (simp add: l_def word_le_nat_alt)
  have c: "(if fc_count g > nr then nr else fc_count g) = fc_count g" using io(3) by (auto simp: not_less intro: order.antisym)
  have get: "memget buf uba (unat nr) = Some d" using Suc.prems(2) nrn by (simp add: memget_def d_def)
  have dl: "take l d = take l (drop uba buf)" using l by (simp add: d_def)
  have w1: "fileof w1 = splice (fileof w) (unat off) (take l (drop uba buf))" using io(5) dl by (simp add: l_def)
  define stop where "stop \<longleftrightarrow> fc_count g \<noteq> nr \<or> n - fc_count g = 0 \<or> note w1"
  have nrd: "(if n > msize - IOHDRSZ then msize - IOHDRSZ else n) = nr" by (simp add: nr_def part_def)
  have step: "mntrdwr_loop (Suc fuel) io note cw Twrite False fid msize buf uba n off cnt ka w =
      (if stop then Some (Inr (cnt + fc_count g), buf, ka, w1)
       else mntrdwr_loop fuel io note cw Twrite False fid msize buf (uba + l) (n - fc_count g) (off + ucast (fc_count g)) (cnt + fc_count g) ka w1)"
    unfolding mntrdwr_loop.simps(2) nrd stop_def Let_def using rpc get by (simp add: c l_def cong: if_cong)
  show ?case
  proof (cases stop)
    case True
    have "full \<and> (\<forall>w. \<not> note w) \<Longrightarrow> l = unat n" using True io(4) by (auto simp: stop_def l_def)
    moreover have "fc_count g = of_nat l" unfolding l_def by (metis of_nat_unat ucast_id)
    ultimately show ?thesis using step True l nrn w1 by (intro exI [of _ l]) auto
  next
    case False
    then have ne: "fc_count g = nr" "n - nr \<noteq> 0" "l = unat nr" by (auto simp: stop_def l_def)
    then have "n \<noteq> 0" by (auto simp: nr_def part_def)
    then have pos: "0 < l" using part_pos [OF assms(2)] ne(3) by (simp add: nr_def)
    have sub: "unat (n - nr) = unat n - l" using nrn ne(3) by (simp add: unat_sub word_le_nat_alt)
    have o: "unat (off + ucast nr) = unat off + l" using Suc.prems(3) nrn ne(3) unat_add_bound [of off "ucast nr"] by simp
    have cn: "unat (cnt + nr) = unat cnt + l" using Suc.prems(4) nrn ne(3) unat_add_bound [of cnt nr] by simp
    have pre: "unat (n - nr) < fuel" "uba + l + unat (n - nr) \<le> length buf"
        "unat (off + ucast nr) + unat (n - nr) < 2 ^ 64" "unat (cnt + nr) + unat (n - nr) < 2 ^ 32"
      using Suc.prems nrn ne(3) pos unfolding sub o cn by simp_all
    obtain k2 w2 where ih: "mntrdwr_loop fuel io note cw Twrite False fid msize buf (uba + l) (n - nr) (off + ucast nr) (cnt + nr) ka w1 =
        Some (Inr (cnt + nr + of_nat k2), buf, ka, w2)" "k2 \<le> unat (n - nr)"
      "fileof w2 = splice (fileof w1) (unat (off + ucast nr)) (take k2 (drop (uba + l) buf))" "full \<and> (\<forall>w. \<not> note w) \<longrightarrow> k2 = unat (n - nr)"
      using Suc.IH [OF pre, of w1] by blast
    have "length (take l (drop uba buf)) = l" using Suc.prems(2) nrn ne(3) by simp
    then have "fileof w2 = splice (fileof w) (unat off) (take l (drop uba buf) @ take k2 (drop (uba + l) buf))"
      using splice_splice [of "fileof w" "unat off" "take l (drop uba buf)"] unfolding ih(3) w1 o by metis
    also have "take l (drop uba buf) @ take k2 (drop (uba + l) buf) = take (l + k2) (drop uba buf)"
      by (simp only: take_add drop_drop add.commute [of l uba])
    finally have "fileof w2 = splice (fileof w) (unat off) (take (l + k2) (drop uba buf))" .
    moreover have "cnt + nr + of_nat k2 = cnt + of_nat (l + k2)" using ne(3) by simp
    moreover have "l + k2 \<le> unat n" "full \<and> (\<forall>w. \<not> note w) \<longrightarrow> l + k2 = unat n" using ih(2,4) nrn ne(3) unfolding sub by auto
    ultimately show ?thesis using step False ih(1) ne(1) by (intro exI [of _ "l + k2"]) auto
  qed
qed simp

text \<open>
  C15. A write of a file through the mount driver comes to one write: the file afterwards is the file before
  with the first \<open>k\<close> bytes of the buffer at the offset, where \<open>k\<close> is the count returned; all of them if the server
  takes what it is given and no note comes.
\<close>

theorem write_whole:
  assumes "stores full io fileof" "IOHDRSZ < mc_msize m" "\<not> ch_cache c"
    "unat n \<le> length buf" "unat off + unat n < 2 ^ 64"
  shows "\<exists>k w'. mntwrite io note cw m c buf n off ka w = Some (Inr (of_nat k), buf, ka, w') \<and> k \<le> unat n \<and>
    fileof w' = splice (fileof w) (unat off) (take k buf) \<and> (full \<and> (\<forall>w. \<not> note w) \<longrightarrow> k = unat n)"
proof -
  have "unat n < 2 ^ 32" using unsigned_less [of n] by simp
  then obtain k w' where "mntrdwr_loop (Suc (unat n)) io note cw Twrite False (ch_fid c) (mc_msize m) buf 0 n off 0 ka w =
        Some (Inr (0 + of_nat k), buf, ka, w')" "k \<le> unat n"
      "fileof w' = splice (fileof w) (unat off) (take k (drop 0 buf))" "full \<and> (\<forall>w. \<not> note w) \<longrightarrow> k = unat n"
    using write_loop [OF assms(1,2), of n "Suc (unat n)" 0 buf off 0 "note" cw "ch_fid c" ka w] assms(4,5)
    by (simp del: mntrdwr_loop.simps) blast
  then show ?thesis using assms(3) unfolding mntwrite_def mntrdwr_def by (intro exI [of _ k]) (simp del: mntrdwr_loop.simps)
qed

text \<open>A server for one file that is a map.\<close>

definition store_io :: "(nat \<rightharpoonup> uchar) mio" where
  "store_io f w = (Inr (zero_fcall\<lparr>fc_type := Rwrite, fc_count := fc_count f\<rparr>, []),
     splice w (unat (fc_offset f)) (take (unat (fc_count f)) (fc_data f)))"

lemma store_io_stores: "stores True store_io (\<lambda>w. w)"
  by (simp add: stores_def store_io_def)

theorem write_whole_witness:
  "\<exists>w'. mntwrite store_io (\<lambda>_. False) (\<lambda>_ _ w. w) small_conn plain [1, 2, 3, 4, 5, 6, 7] 6 3 sample_ka Map.empty =
      Some (Inr 6, [1, 2, 3, 4, 5, 6, 7], sample_ka, w') \<and> w' = splice Map.empty 3 [1, 2, 3, 4, 5, 6]"
proof -
  have "IOHDRSZ < mc_msize small_conn" "\<not> ch_cache plain" by (simp_all add: small_conn_def IOHDRSZ_def plain_def fresh_def)
  from write_whole [OF store_io_stores this, of 6 "[1, 2, 3, 4, 5, 6, 7]" 3 "\<lambda>_. False" "\<lambda>_ _ w. w" sample_ka Map.empty]
  show ?thesis by fastforce
qed

subsection \<open>What the connection carries\<close>

text \<open>Two services that cannot be told apart by requests that fit into messages of \<open>msize\<close> bytes and may be answered by such messages.\<close>

definition same_within :: "u32int \<Rightarrow> 'w mio \<Rightarrow> 'w mio \<Rightarrow> bool" where
  "same_within msize io io' \<longleftrightarrow> (\<forall>f w. wire_size f \<le> unat msize \<and> (fc_type f = Tread \<longrightarrow> 11 + unat (fc_count f) \<le> unat msize) \<longrightarrow> io f w = io' f w)"

lemma rdwr_request_fits:
  assumes "same_within msize io io'" "IOHDRSZ \<le> msize" "t = Tread \<or> t = Twrite \<and> length d = unat nr" "unat nr + 24 \<le> unat msize"
  shows "mountrpc io (zero_fcall\<lparr>fc_type := t, fc_fid := fid, fc_offset := off, fc_data := d, fc_count := nr\<rparr>) w =
    mountrpc io' (zero_fcall\<lparr>fc_type := t, fc_fid := fid, fc_offset := off, fc_data := d, fc_count := nr\<rparr>) w"
    (is "mountrpc io ?f w = _")
proof -
  define f where "f = ?f"
  have "wire_size f \<le> unat msize" using assms(3,4) by (auto simp: f_def wire_size_def wire_body_def Let_def)
  moreover have "11 + unat (fc_count f) \<le> unat msize" using assms(4) by (simp add: f_def)
  ultimately have "io f w = io' f w" using assms(1) by (simp add: same_within_def)
  then show ?thesis by (simp add: mountrpc_def f_def)
qed

lemma part_fits: "IOHDRSZ \<le> msize \<Longrightarrow> unat (part msize n) + 24 \<le> unat msize"
proof -
  assume "IOHDRSZ \<le> msize"
  then have "unat (msize - IOHDRSZ) = unat msize - 24" "24 \<le> unat msize"
    by (simp_all add: unat_sub word_le_nat_alt IOHDRSZ_def)
  then show ?thesis by (auto simp: part_def word_less_nat_alt not_less)
qed

lemma rdwr_loop_fits:
  assumes "same_within msize io io'" "IOHDRSZ \<le> msize" "t = Tread \<or> t = Twrite"
  shows "mntrdwr_loop fuel io note cw t cache fid msize buf uba n off cnt ka w = mntrdwr_loop fuel io' note cw t cache fid msize buf uba n off cnt ka w"
proof (induction fuel arbitrary: buf uba n off cnt ka w)
  case (Suc fuel)
  define nr where "nr = part msize n"
  have nrd: "(if n > msize - IOHDRSZ then msize - IOHDRSZ else n) = nr" by (simp add: nr_def part_def)
  have nr: "unat nr + 24 \<le> unat msize" using part_fits [OF assms(2)] by (simp add: nr_def)
  show ?case
  proof (cases "if t = Tread then Some [] else memget buf uba (unat nr)")
    case None
    then show ?thesis unfolding mntrdwr_loop.simps(2) nrd Let_def by simp
  next
    case (Some d)
    then have "t = Tread \<or> t = Twrite \<and> length d = unat nr" using assms(3) by (auto simp: memget_def split: if_splits)
    note eq = rdwr_request_fits [OF assms(1,2) this nr]
    show ?thesis unfolding mntrdwr_loop.simps(2) nrd Let_def Some by (simp only: Option.bind.simps eq Suc.IH)
  qed
qed simp

text \<open>
  Reads and writes are made of messages that fit the connection: a service that differs only on messages
  longer than the agreed size, or on reads whose answer would be longer, makes no difference to the result.
\<close>

theorem rdwr_fits:
  assumes "same_within (mc_msize m) io io'" "IOHDRSZ \<le> mc_msize m" "t = Tread \<or> t = Twrite"
  shows "mntrdwr io note cw m t c buf uba n off ka w = mntrdwr io' note cw m t c buf uba n off ka w"
  unfolding mntrdwr_def by (rule rdwr_loop_fits [OF assms])

text \<open>A service that fails on messages that are too long, reading or writing.\<close>

definition narrow :: "u32int \<Rightarrow> 'w mio \<Rightarrow> 'w mio" where
  "narrow msize io f w = (if wire_size f \<le> unat msize \<and> (fc_type f = Tread \<longrightarrow> 11 + unat (fc_count f) \<le> unat msize) then io f w
     else (Inl Ehungup, w))"

theorem rdwr_fits_witness:
  "mntrdwr (narrow 28 store_io) (\<lambda>_. False) (\<lambda>_ _ w. w) small_conn Twrite plain [1, 2, 3, 4, 5, 6, 7] 0 6 3 sample_ka Map.empty =
    mntrdwr store_io (\<lambda>_. False) (\<lambda>_ _ w. w) small_conn Twrite plain [1, 2, 3, 4, 5, 6, 7] 0 6 3 sample_ka Map.empty"
  by (rule rdwr_fits) (simp_all add: same_within_def narrow_def small_conn_def IOHDRSZ_def)

lemma opencreate_chan:
  assumes "mntopencreate io m t c name omode perm w = (Inr (), c', w')" "IOHDRSZ < mc_msize m"
  shows "0 < ch_iounit c' \<and> ch_iounit c' \<le> mc_msize m - IOHDRSZ \<and> ch_fid c' = ch_fid c \<and> ch_cache c' = ch_cache c"
proof -
  have "0 < mc_msize m - IOHDRSZ" using assms(2) by (simp add: word_neq_0_conv [symmetric])
  then show ?thesis using assms(1) unfolding mntopencreate_def Let_def
    by (auto simp: not_less word_neq_0_conv [symmetric] split: prod.splits sum.splits if_splits)
qed

text \<open>
  C21. What an open or a create returns as the unit of transfer is at least a byte and at most what fits into a
  message, and a write of at most that much on the channel is one request: it is answered with the error
  of that request or with its count, and never made in part.
\<close>

theorem iounit_atomic:
  assumes "mntopencreate io m t c name omode perm w = (Inr (), c', w')" "IOHDRSZ < mc_msize m" "\<not> ch_cache c"
    "n \<le> ch_iounit c'" "unat n \<le> length buf"
  shows "0 < ch_iounit c' \<and> ch_iounit c' \<le> mc_msize m - IOHDRSZ \<and>
    mntwrite io note cw m c' buf n off ka w1 =
      (case mountrpc io (zero_fcall\<lparr>fc_type := Twrite, fc_fid := ch_fid c, fc_offset := off, fc_data := take (unat n) buf, fc_count := n\<rparr>) w1 of
         (Inl e, w) \<Rightarrow> Some (Inl e, buf, ka, w)
       | (Inr (g, b), w) \<Rightarrow> Some (Inr (if fc_count g > n then n else fc_count g), buf, ka, w))"
proof -
  have c: "0 < ch_iounit c' \<and> ch_iounit c' \<le> mc_msize m - IOHDRSZ" "ch_fid c' = ch_fid c" "\<not> ch_cache c'"
    using opencreate_chan [OF assms(1,2)] assms(3) by auto
  then have nr: "(if n > mc_msize m - IOHDRSZ then mc_msize m - IOHDRSZ else n) = n" using assms(4) by auto
  have get: "memget buf 0 (unat n) = Some (take (unat n) buf)" using assms(5) by (simp add: memget_def)
  show ?thesis using c get unfolding mntwrite_def mntrdwr_def mntrdwr_loop.simps(2) nr Let_def by (auto split: prod.split sum.split)
qed

definition open_io :: "(nat \<rightharpoonup> uchar) mio" where
  "open_io f w = (if fc_type f = Topen then (Inr (zero_fcall\<lparr>fc_type := Ropen\<rparr>, []), w) else store_io f w)"

definition opened :: chan where
  "opened = plain\<lparr>ch_mode := 1, ch_iounit := 4, ch_open := True\<rparr>"

theorem iounit_atomic_witness:
  "mntopencreate open_io small_conn Topen plain None 1 0 Map.empty = (Inr (), opened, Map.empty) \<and>
    mntwrite open_io (\<lambda>_. False) (\<lambda>_ _ w. w) small_conn opened [1, 2, 3, 4, 5] 4 3 sample_ka Map.empty =
      Some (Inr 4, [1, 2, 3, 4, 5], sample_ka, splice Map.empty 3 [1, 2, 3, 4])"
proof -
  have o: "mntopencreate open_io small_conn Topen plain None 1 0 Map.empty = (Inr (), opened, Map.empty)"
    by (simp add: mntopencreate_def Let_def mountrpc_def mountrpc_check_def open_io_def openmode_def opened_def plain_def fresh_def
      small_conn_def IOHDRSZ_def zero_fcall_def)
  have "\<not> ch_cache plain" "IOHDRSZ < mc_msize small_conn" "ch_iounit opened = 4"
    by (simp_all add: plain_def fresh_def small_conn_def IOHDRSZ_def opened_def)
  with iounit_atomic [OF o, of 4 "[1, 2, 3, 4, 5]" "\<lambda>_. False" "\<lambda>_ _ w. w" 3 sample_ka Map.empty] o
  show ?thesis by (simp add: mountrpc_def mountrpc_check_def open_io_def store_io_def Let_def)
qed

subsection \<open>Directory entries\<close>

lemma GBIT16_wstr: "str_ok s \<Longrightarrow> GBIT16 (a @ wstr s @ ys) (length a) = Some (of_nat (length (cbytes s)))"
  by (simp add: wstr_def parse_simps)

lemma statcheck_strs_wire:
  "list_all str_ok sv \<Longrightarrow> length a + length (concat (map wstr sv)) \<le> e \<Longrightarrow>
    statcheck_strs (a @ concat (map wstr sv) @ xs) (length a) e (length sv) = Some (Some (length a + length (concat (map wstr sv))))"
proof (induction sv arbitrary: a)
  case (Cons s sv)
  have n: "unat (of_nat (length (cbytes s)) :: ushort) = length (cbytes s)"
    using Cons.prems(1) by (simp add: str_ok_unat)
  have "statcheck_strs ((a @ wstr s) @ concat (map wstr sv) @ xs) (length (a @ wstr s)) e (length sv) =
      Some (Some (length (a @ wstr s) + length (concat (map wstr sv))))"
    using Cons.prems by (intro Cons.IH) simp_all
  then show ?case using Cons.prems n GBIT16_wstr [of s a "concat (map wstr sv) @ xs"] by (simp add: Let_def add.assoc)
qed simp

lemma wire_dirsize_ge: "49 \<le> wire_dirsize d"
  by (simp add: wire_dirsize_def)

lemma dir_ok_count: "dir_ok d \<Longrightarrow> unat (of_nat (wire_dirsize d - 2) :: ushort) = wire_dirsize d - 2"
  by (simp add: dir_ok_def unat_of_nat del: of_nat_diff)

lemma statcheck_wire:
  assumes "dir_ok d"
  shows "statcheck (wire_dir d @ rest) (wire_dirsize d) = Some 0"
proof -
  let ?a = "le16 (of_nat (wire_dirsize d - 2)) @ wire_dirfix d"
  have n: "unat (of_nat (wire_dirsize d - 2) :: ushort) = wire_dirsize d - 2" "2 \<le> wire_dirsize d"
    using dir_ok_count [OF assms] wire_dirsize_ge [of d] by simp_all
  have l: "length ?a = 41" "length (dir_sv d) = 4" "41 + length (concat (map wstr (dir_sv d))) = wire_dirsize d"
    using length_wire_dir [of d] by (simp_all add: wire_dir_def length_dir_sv del: length_wire_dir)
  have w: "wire_dir d @ rest = ?a @ concat (map wstr (dir_sv d)) @ rest" by (simp add: wire_dir_def)
  have "statcheck_strs (wire_dir d @ rest) 41 (wire_dirsize d) 4 = Some (Some (wire_dirsize d))"
    using statcheck_strs_wire [OF dir_ok_strs [OF assms], of ?a "wire_dirsize d" rest] unfolding w l by simp
  moreover have "GBIT16 (wire_dir d @ rest) 0 = Some (of_nat (wire_dirsize d - 2))" by (simp add: wire_dir_def parse_simps)
  moreover have "STATFIXLEN \<le> wire_dirsize d" "STATFIXLEN - 4 * 2 = 41" by (simp_all add: STATFIXLEN_def wire_dirsize_def)
  ultimately show ?thesis using n by (simp add: statcheck_def)
qed

text \<open>An entry the driver lets through, and what it becomes on its way to the caller.\<close>

definition entry_ok :: "Dir \<Rightarrow> bool" where
  "entry_ok d \<longleftrightarrow> dir_ok d \<and> (let s = cbytes (d_name d) in length s \<ge> 64 \<or> s = [0x2F] \<or> 0 \<notin> set s \<and> (\<forall>b \<in> set s. \<not> frog_at False b))"

definition relabel :: "chan \<Rightarrow> Dir \<Rightarrow> Dir" where
  "relabel c d = d\<lparr>d_type := ucast (ch_dc c), d_dev := ch_dev c\<rparr>"

lemma validstat_wire:
  assumes "entry_ok d"
  shows "validstat (wire_dir d @ rest) (wire_dirsize d) = Some (Inr ())"
proof -
  let ?a = "le16 (of_nat (wire_dirsize d - 2)) @ wire_dirfix d" and ?s = "cbytes (d_name d)"
  define r where "r = concat (map wstr [d_uid d, d_gid d, d_muid d]) @ rest"
  have ok: "dir_ok d" using assms by (simp add: entry_ok_def)
  have w: "wire_dir d @ rest = ?a @ wstr (d_name d) @ r" by (simp add: wire_dir_def dir_sv_def r_def)
  have l: "length ?a = 41" by simp
  have sok: "str_ok (d_name d)" using dir_ok_strs [OF ok] by (simp add: dir_sv_def)
  have get: "GBIT16 (wire_dir d @ rest) 41 = Some (of_nat (length ?s))" using GBIT16_wstr [OF sok, of ?a r] unfolding w l .
  have n: "unat (of_nat (length ?s) :: ushort) = length ?s" using sok by (simp add: str_ok_unat)
  have b: "memget (wire_dir d @ rest) (41 + 2) (length ?s) = Some ?s" unfolding w by (simp add: wstr_def parse_simps)
  have p: "STATFIXLEN - 4 * 2 = 41" by (simp add: STATFIXLEN_def)
  show ?thesis
  proof (cases "length ?s \<ge> 64")
    case True
    then show ?thesis using statcheck_wire [OF ok, of rest] get n p by (simp add: validstat_def Let_def)
  next
    case False
    then have "?s = [0x2F] \<or> 0 \<notin> set ?s \<and> (\<forall>b \<in> set ?s. \<not> frog_at False b)" using assms by (auto simp: entry_ok_def Let_def)
    then show ?thesis using statcheck_wire [OF ok, of rest] get n b p False validname_spec [of ?s "[]" False]
      by (auto simp: validstat_def Let_def takeWhile_append)
  qed
qed

lemma mntdirfix_wire: "mntdirfix (pre @ wire_dir d @ rest) (length pre) c = Some (pre @ wire_dir (relabel c d) @ rest)"
proof -
  have "wire_dirsize (relabel c d) = wire_dirsize d" "dir_sv (relabel c d) = dir_sv d"
    by (simp_all add: wire_dirsize_def dir_sv_def relabel_def)
  then show ?thesis
    by (simp add: mntdirfix_def PBIT16_def PBIT32_def memput_def wire_dir_def wire_dirfix_def relabel_def)
qed

lemma relabel_size [simp]: "wire_dirsize (relabel c d) = wire_dirsize d"
  by (simp add: relabel_def wire_dirsize_def dir_sv_def)

lemma wire_count: "dir_ok d \<Longrightarrow> GBIT16 (pre @ wire_dir d @ rest) (length pre) = Some (of_nat (wire_dirsize d - 2))"
  "dir_ok d \<Longrightarrow> BIT16SZ + unat (of_nat (wire_dirsize d - 2) :: ushort) = wire_dirsize d"
  using wire_dirsize_ge [of d] by (simp_all add: wire_dir_def parse_simps dir_ok_count del: of_nat_diff)

lemma dir_loop:
  "list_all entry_ok ds \<Longrightarrow> entry_ok d \<Longrightarrow> j < wire_dirsize d \<Longrightarrow> length ds < fuel \<Longrightarrow>
    mntdir_loop fuel c (pre @ concat (map wire_dir ds) @ take j (wire_dir d) @ rest) (length pre) (length pre + length (concat (map wire_dir ds)) + j) =
      Some (if j = 0 then Inr () else Inl Esbadstat, pre @ concat (map (wire_dir \<circ> relabel c) ds) @ take j (wire_dir d) @ rest)"
proof (induction fuel arbitrary: pre ds)
  case (Suc fuel)
  let ?t = "take j (wire_dir d) @ rest"
  show ?case
  proof (cases ds)
    case Nil
    show ?thesis
    proof (cases "2 < j")
      case True
      have "wire_dir d = le16 (of_nat (wire_dirsize d - 2)) @ drop 2 (wire_dir d)" by (simp add: wire_dir_def)
      then have "take j (wire_dir d) = le16 (of_nat (wire_dirsize d - 2)) @ take (j - 2) (drop 2 (wire_dir d))"
        using True by (metis (no_types) length_le(1) less_imp_le take_all take_append)
      then have "GBIT16 (pre @ ?t) (length pre) = Some (of_nat (wire_dirsize d - 2))" by (simp add: parse_simps)
      moreover have "\<not> 2 + (wire_dirsize d - 2) \<le> j" using Suc.prems(3) by simp
      moreover have "dir_ok d" using Suc.prems(2) by (simp add: entry_ok_def)
      ultimately show ?thesis using Nil True by (simp add: dir_ok_count del: of_nat_diff)
    qed (use Nil in simp)
  next
    case (Cons x xs)
    let ?m = "concat (map wire_dir xs) @ ?t"
    have x: "entry_ok x" "list_all entry_ok xs" using Suc.prems(1) Cons by simp_all
    then have ok: "dir_ok x" by (simp add: entry_ok_def)
    have ih: "mntdir_loop fuel c ((pre @ wire_dir (relabel c x)) @ ?m) (length (pre @ wire_dir (relabel c x)))
        (length (pre @ wire_dir (relabel c x)) + length (concat (map wire_dir xs)) + j) =
      Some (if j = 0 then Inr () else Inl Esbadstat, (pre @ wire_dir (relabel c x)) @ concat (map (wire_dir \<circ> relabel c) xs) @ ?t)"
      by (rule Suc.IH) (use x Suc.prems Cons in auto)
    have v: "validstat (drop (length pre) (pre @ wire_dir x @ ?m)) (wire_dirsize x) = Some (Inr ())" using validstat_wire [OF x(1)] by simp
    show ?thesis using ih v wire_count [OF ok] mntdirfix_wire [of pre x ?m c] wire_dirsize_ge [of x] unfolding Cons
      by (simp add: add.assoc o_def del: of_nat_diff)
  qed
qed simp

text \<open>
  C24. A read of a directory whose bytes are entries gives the caller the same entries with the type and the
  device of the channel in them, and an entry that is cut off at the end of the bytes is an error: the
  caller never gets a part of an entry as if it were one.
\<close>

theorem dir_read:
  assumes "list_all entry_ok ds" "entry_ok d" "j < wire_dirsize d" "q_type (ch_qid c) AND QTDIR \<noteq> 0"
    "mntrdwr io note (\<lambda>_ _ w. w) m Tread c buf 0 n off ka w = Some (Inr k, concat (map wire_dir ds) @ take j (wire_dir d) @ rest, ka', w')"
    "unat k = length (concat (map wire_dir ds)) + j"
  shows "mntread io note cr cu m c buf n off ka w =
    Some (if j = 0 then Inr k else Inl Esbadstat, concat (map (wire_dir \<circ> relabel c) ds) @ take j (wire_dir d) @ rest, ka', w')"
proof -
  have "length xs \<le> length (concat (map wire_dir xs))" for xs
  proof (induction xs)
    case (Cons x xs)
    then show ?case using wire_dirsize_ge [of x] by simp
  qed simp
  then have "length ds < Suc (unat k)" using assms(6) le_trans by (metis le_add1 le_imp_less_Suc)
  from dir_loop [OF assms(1-3) this, of c "[]" rest] assms(4-6) show ?thesis
    unfolding mntread_def by (simp del: mntdir_loop.simps)
qed

lemma entry_a: "entry_ok example_dir"
  by (simp add: entry_ok_def example_dir_def dir_ok_def wire_dirsize_def dir_sv_def frog_at_def Let_def)

text \<open>
  A status request puts the entry of the server into the buffer with the type and the device of the
  channel, if the buffer is large enough; otherwise it puts the count of the entry there, from which the caller
  learns the size it needs, and touches nothing else.
\<close>

theorem stat_entry:
  assumes "entry_ok d" "fc_type g = Rstat" "io (zero_fcall\<lparr>fc_type := Tstat, fc_fid := ch_fid c\<rparr>) w = (Inr (g, b), w')"
    "fc_stat g = wire_dir d" "unat (fc_nstat g) = wire_dirsize d" "2 \<le> n" "n \<le> length dp"
  shows "mntstat io c dp n w = Some
    (if wire_dirsize d \<le> n then (Inr (wire_dirsize d), wire_dir (relabel c d) @ drop (wire_dirsize d) dp, w')
     else (Inr 2, le16 (of_nat (wire_dirsize d - 2)) @ drop 2 dp, w'))"
proof -
  have rpc: "mountrpc io (zero_fcall\<lparr>fc_type := Tstat, fc_fid := ch_fid c\<rparr>) w = (Inr (g, b), w')"
    using assms(2,3) by (intro mountrpc_ok) simp_all
  have "2 \<le> wire_dirsize d" "fc_nstat g = of_nat (wire_dirsize d)"
    using wire_dirsize_ge [of d] assms(5) by (simp, metis of_nat_unat ucast_id)
  then have "fc_nstat g - 2 = of_nat (wire_dirsize d - 2)" by simp
  moreover have "memget (wire_dir d) 0 (wire_dirsize d) = Some (wire_dir d)" by (simp add: memget_def)
  ultimately show ?thesis
    using rpc assms(4-7) validstat_wire [OF assms(1), of "drop (wire_dirsize d) dp"] mntdirfix_wire [of "[]" d "drop (wire_dirsize d) dp" c]
    unfolding mntstat_def by (simp add: memput_def PBIT16_def Let_def numeral_2_eq_2)
qed

theorem stat_entry_witness:
  "mntstat (\<lambda>f w. (Inr (zero_fcall\<lparr>fc_type := Rstat, fc_nstat := 53, fc_stat := wire_dir example_dir\<rparr>, []), w)) plain (replicate 60 0) 60 () =
    Some (Inr 53, wire_dir (relabel plain example_dir) @ replicate 7 0, ())"
proof -
  have "wire_dirsize example_dir = 53" by (simp add: example_dir_def wire_dirsize_def dir_sv_def)
  then show ?thesis
    using stat_entry [OF entry_a, of "zero_fcall\<lparr>fc_type := Rstat, fc_nstat := 53, fc_stat := wire_dir example_dir\<rparr>"
      "\<lambda>f w. (Inr (zero_fcall\<lparr>fc_type := Rstat, fc_nstat := 53, fc_stat := wire_dir example_dir\<rparr>, []), w)" plain "()" "[]" "()" 60 "replicate 60 0"]
    by simp
qed

definition dirchan :: chan where
  "dirchan = plain\<lparr>ch_qid := \<lparr>q_path = 0, q_vers = 0, q_type = QTDIR\<rparr>\<rparr>"

theorem dir_read_witness:
  "\<exists>ka'. mntread (file_io (wire_dir example_dir @ take 10 (wire_dir example_dir))) (\<lambda>_. False) (\<lambda>_ _ _. []) (\<lambda>_ _ w. w) small_conn dirchan
      (replicate 100 0) 100 0 sample_ka () =
    Some (Inl Esbadstat, wire_dir (relabel dirchan example_dir) @ take 10 (wire_dir example_dir) @ replicate 37 0, ka', ())"
proof -
  let ?F = "wire_dir example_dir @ take 10 (wire_dir example_dir)"
  have sz: "wire_dirsize example_dir = 53" by (simp add: example_dir_def wire_dirsize_def dir_sv_def)
  have h: "IOHDRSZ < mc_msize small_conn" "q_type (ch_qid dirchan) AND QTDIR \<noteq> 0"
    by (simp_all add: small_conn_def IOHDRSZ_def dirchan_def)
  obtain k ka' where r: "mntrdwr (file_io ?F) (\<lambda>_. False) (\<lambda>_ _ w. w) small_conn Tread dirchan (replicate 100 0) 0 100 0 sample_ka () =
      Some (Inr (of_nat k), take k (drop 0 ?F) @ drop k (replicate 100 0), ka', ())" "k = min 100 (length ?F - 0)"
    using rdwr_read [OF file_io_serves [of ?F] h(1), of 100 "replicate 100 0" 0 sample_ka "\<lambda>_. False" "\<lambda>_ _ w. w" dirchan "()"] sample_ok(1)
    by auto
  then have k: "k = 63" using sz by simp
  have "mntrdwr (file_io ?F) (\<lambda>_. False) (\<lambda>_ _ w. w) small_conn Tread dirchan (replicate 100 0) 0 100 0 sample_ka () =
      Some (Inr 63, concat (map wire_dir [example_dir]) @ take 10 (wire_dir example_dir) @ replicate 37 0, ka', ())"
    using r(1) sz unfolding k by simp
  from dir_read [OF _ entry_a _ h(2) this, of "\<lambda>_ _ _. []" "\<lambda>_ _ w. w"] show ?thesis
    using entry_a sz by simp
qed

subsection \<open>Agreement on version and message size\<close>

definition requested :: "cstr \<Rightarrow> mem" where
  "requested version = (case version of None \<Rightarrow> VERSION9P | Some v \<Rightarrow> if v = [] then VERSION9P else v)"

text \<open>What is fixed when the exchange has come to an end, and what a later call for the same finds.\<close>

definition agreed :: "chan \<Rightarrow> cstr \<Rightarrow> u32int \<Rightarrow> mem \<Rightarrow> conn \<Rightarrow> bool" where
  "agreed c version msize v m \<longleftrightarrow> mc_version m = v \<and> v = take (length v) (requested version) \<and>
     256 \<le> unat (mc_msize m) \<and> unat (mc_msize m) \<le> 2 ^ 20 \<and>
     mc_msize m \<le> (if msize = 0 then of_nat MAXRPC else msize) \<and> (ch_iounit c \<noteq> 0 \<longrightarrow> mc_msize m \<le> ch_iounit c)"

lemma version_rpc_iounit: "version_rpc dv msg f c w = Some (r, c', w') \<Longrightarrow> ch_iounit c' = ch_iounit c"
  by (auto simp: version_rpc_def Let_def split: prod.splits sum.splits if_splits bind_splits option.splits)

definition msize_asked :: "chan \<Rightarrow> u32int \<Rightarrow> u32int" where
  "msize_asked c msize = (let ms = (if msize = 0 then of_nat MAXRPC else msize) in if ms > ch_iounit c \<and> ch_iounit c \<noteq> 0 then ch_iounit c else ms)"

lemma msize_asked_le: "f \<le> msize_asked c msize \<Longrightarrow> f \<le> (if msize = 0 then of_nat MAXRPC else msize)"
    "f \<le> msize_asked c msize \<Longrightarrow> ch_iounit c \<noteq> 0 \<Longrightarrow> f \<le> ch_iounit c"
  by (auto simp: msize_asked_def Let_def split: if_splits)

lemma mntversion_first:
  "mntversion dv msg c version msize returnlen None i w =
    (if msize_asked c msize <s 0 then Some (Inl (bytes ''bad iounit in version call''), None, c, i, w)
     else if \<not> strneq (requested version) VERSION9P (length VERSION9P) then Some (Inl (bytes ''bad 9P version specification''), None, c, i, w)
     else do {
       (r, c1, w) \<leftarrow> version_rpc dv msg (zero_fcall\<lparr>fc_type := Tversion, fc_tag := NOTAG, fc_msize := msize_asked c msize, fc_version := Some (requested version)\<rparr>) c w;
       case r of
         Inl e \<Rightarrow> Some (Inl e, None, c1, i, w)
       | Inr f \<Rightarrow>
           if fc_type f \<noteq> Rversion then
             (if fc_type f = Rerror then Some (Inl (case fc_ename f of None \<Rightarrow> [] | Some e \<Rightarrow> e), None, c1, i, w)
              else Some (Inl (bytes ''unexpected reply type in fversion''), None, c1, i, w))
           else if fc_msize f > msize_asked c msize then Some (Inl (bytes ''server tries to increase msize in fversion''), None, c1, i, w)
           else if fc_msize f < 256 \<or> fc_msize f > 1024 * 1024 then
             Some (Inl (bytes ''nonsense value of msize in fversion''), None, c1, i, w)
           else do {
             fv \<leftarrow> fc_version f;
             if \<not> strneq fv (requested version) (length fv) then Some (Inl (bytes ''bad 9P version returned from server''), None, c1, i, w)
             else if returnlen > 0 \<and> returnlen < length fv then Some (Inl Eshort, None, c1, i + 1, w)
             else Some (Inr fv, Some \<lparr>mc_id = i, mc_version = fv, mc_msize = fc_msize f\<rparr>, c1, i + 1, w) } })"
  unfolding mntversion_def Let_def msize_asked_def requested_def option.case by (rule refl)

lemma mntversion_again:
  "mntversion dv msg c version msize returnlen (Some m) i w =
    (if msize_asked c msize <s 0 then Some (Inl (bytes ''bad iounit in version call''), Some m, c, i, w)
     else if \<not> strneq (requested version) VERSION9P (length VERSION9P) then Some (Inl (bytes ''bad 9P version specification''), Some m, c, i, w)
     else if \<not> strneq (take 127 (mc_version m)) (requested version) (length (take 127 (mc_version m))) then
       Some (Inl (bytes ''incompatible 9P versions''), Some m, c, i, w)
     else if returnlen > 0 \<and> returnlen < length (take 127 (mc_version m)) then Some (Inl Eshort, Some m, c, i, w)
     else Some (Inr (take 127 (mc_version m)), Some m, c, i, w))"
  unfolding mntversion_def Let_def msize_asked_def requested_def option.case by (rule refl)

lemma version_agree:
  assumes "mntversion dv msg c version msize returnlen None i w = Some (r, mux, c', i', w')"
  shows "case r of Inl e \<Rightarrow> mux = None | Inr v \<Rightarrow> \<exists>m. mux = Some m \<and> mc_id m = i \<and> i' = i + 1 \<and> agreed c version msize v m \<and>
    mntversion dv msg c' version msize 0 mux i' w' = Some (Inr (take 127 v), mux, c', i', w')"
proof (cases r)
  case (Inl e)
  then show ?thesis using assms unfolding mntversion_first
    by (auto split: if_splits sum.splits bind_splits prod.splits option.splits)
next
  case (Inr v)
  then obtain k where f: "256 \<le> k" "k \<le> 1024 * 1024" "k \<le> msize_asked c msize" "strneq v (requested version) (length v)"
      "mux = Some \<lparr>mc_id = i, mc_version = v, mc_msize = k\<rparr>" "i' = i + 1"
      "\<not> msize_asked c msize <s 0" "strneq (requested version) VERSION9P (length VERSION9P)"
    using assms unfolding mntversion_first
    by (auto simp: not_less split: if_splits sum.splits bind_splits prod.splits option.splits)
  have "ch_iounit c' = ch_iounit c" using assms Inr unfolding mntversion_first
    by (auto simp: version_rpc_iounit split: if_splits sum.splits bind_splits prod.splits option.splits)
  then have "msize_asked c' msize = msize_asked c msize" by (simp only: msize_asked_def)
  moreover have "v = take (length v) (requested version)" using f(4) by (simp add: strneq_def)
  then have "strneq (take 127 v) (requested version) (length (take 127 v))"
    unfolding strneq_def by (metis length_take take_take take_all order_refl)
  ultimately show ?thesis using Inr f msize_asked_le [OF f(3)] by (auto simp: agreed_def word_le_nat_alt mntversion_again strneq_def)
qed

text \<open>
  C9. After an exchange of versions without an error the connection exists, with an identifier of its own,
  the version is an initial part of the one asked for, the size of messages is from 256 bytes to a megabyte
  and at most what was asked for and what the channel transfers at once, and asking once more gives the same
  version without a message.  An error leaves the channel without a connection.
\<close>

theorem version_agreed:
  assumes "mntversion dv msg c version msize returnlen None i w = Some (r, mux, c', i', w')"
  shows "case r of Inl e \<Rightarrow> mux = None
    | Inr v \<Rightarrow> \<exists>m. mux = Some m \<and> mc_id m = i \<and> i' = i + 1 \<and> agreed c version msize v m \<and>
        mntversion dv msg c' version msize 0 mux i' w' = Some (Inr (take 127 v), mux, c', i', w')"
  by (rule version_agree [OF assms])

text \<open>A device that answers a version message with a message of its own, whatever it is asked.\<close>

definition answering :: "mem \<Rightarrow> unit dev" where
  "answering d = \<lparr>dv_write = (\<lambda>b _ w. (Inr (length b), w)), dv_read = (\<lambda>n _ w. (Inr (take n d), w))\<rparr>"

definition version_reply :: "mem \<Rightarrow> fcall" where
  "version_reply v = zero_fcall\<lparr>fc_type := Rversion, fc_tag := NOTAG, fc_msize := 4096, fc_version := Some v\<rparr>"

lemma version_rpc_answering:
  assumes "fcall_ok f" "wire_size f \<le> MAXRPC" "length msg = MAXRPC" "fcall_ok g" "no_nul g" "wire_size g \<le> MAXRPC"
  shows "version_rpc (answering (wire g)) msg f c () =
    Some (Inr (carry g f), c\<lparr>ch_offset := ch_offset c + of_nat (wire_size f) + of_nat (wire_size g)\<rparr>, ())"
proof -
  have k: "7 \<le> wire_size f" "7 \<le> wire_size g" by (simp_all add: wire_size_def)
  let ?b = "img (wire f) msg"
  have lb: "length ?b = MAXRPC" using assms(2,3) by (simp add: img_def)
  have s: "convS2M f msg MAXRPC = Some (wire_size f, ?b)" using convS2M_wire [OF assms(1), of MAXRPC msg] assms(2,3) by simp
  have "memput ?b 0 (wire g) = Some (wire g @ drop (wire_size g) ?b)" using lb assms(6) by (simp add: memput_def)
  moreover obtain b where "convM2S (wire g @ drop (wire_size g) ?b) (wire_size g) f = Some (b, Some (wire_size g, carry g f))"
    using convM2S_wire [OF assms(4,5), of "wire_size g" "drop (wire_size g) ?b" f] by auto
  moreover have "wire g \<noteq> []" "take MAXRPC (wire g) = wire g" "length (take (wire_size f) ?b) = wire_size f"
    using k assms(2,6) lb by (auto simp flip: length_0_conv)
  ultimately show ?thesis using s k unfolding version_rpc_def
    by (simp add: answering_def Let_def)
qed

lemma version_run:
  assumes "v = take k VERSION9P"
  shows "mntversion (answering (wire (version_reply v))) (replicate MAXRPC 0) fresh None 0 0 None 1 () =
    Some (Inr v, Some \<lparr>mc_id = 1, mc_version = v, mc_msize = 4096\<rparr>, fresh\<lparr>ch_offset := of_nat (32 + length v)\<rparr>, 2, ())"
proof -
  have "\<not> (8216 :: u32int) <s 0" by code_simp
  then have ms: "msize_asked fresh 0 = 8216" "\<not> (8216 :: u32int) <s 0" "MAXRPC = 8216" by (simp_all add: msize_asked_def fresh_def MAXRPC_def)
  let ?f = "zero_fcall\<lparr>fc_type := Tversion, fc_tag := NOTAG, fc_msize := 8216, fc_version := Some VERSION9P\<rparr>"
  have v: "length VERSION9P = 6" "0 \<notin> set VERSION9P" by (simp_all add: VERSION9P_def bytes_def)
  have l: "length v \<le> 6" "0 \<notin> set v" using v assms by (auto dest: in_set_takeD)
  have f: "fcall_ok ?f" "wire_size ?f = 19"
    using v by (simp_all add: fcall_ok_def wire_size_def msg_types_def msg_strings_def counts_ok_def wire_body_def str_ok_def)
  have g: "fcall_ok (version_reply v)" "wire_size (version_reply v) = 13 + length v" "no_nul (version_reply v)"
    using l by (simp_all add: version_reply_def fcall_ok_def wire_size_def msg_types_def msg_strings_def counts_ok_def wire_body_def str_ok_def no_nul_def)
  have rpc: "version_rpc (answering (wire (version_reply v))) (replicate 8216 0) ?f fresh () =
      Some (Inr (carry (version_reply v) ?f), fresh\<lparr>ch_offset := of_nat (32 + length v)\<rparr>, ())"
    using version_rpc_answering [OF f(1) _ _ g(1,3), of "replicate MAXRPC 0" fresh] f(2) g(2) l(1) by (simp add: MAXRPC_def fresh_def)
  have "strneq v VERSION9P (length v)" "requested None = VERSION9P" using assms by (auto simp: strneq_def requested_def)
  then show ?thesis unfolding mntversion_first ms using rpc
    by (simp add: ms(2) carry_def version_reply_def Let_def strneq_def)
qed

theorem version_agreed_witness:
  "mntversion (answering (wire (version_reply VERSION9P))) (replicate MAXRPC 0) fresh None 0 0 None 1 () =
    Some (Inr VERSION9P, Some \<lparr>mc_id = 1, mc_version = VERSION9P, mc_msize = 4096\<rparr>, fresh\<lparr>ch_offset := of_nat (32 + length VERSION9P)\<rparr>, 2, ()) \<and>
    agreed fresh None 0 VERSION9P \<lparr>mc_id = 1, mc_version = VERSION9P, mc_msize = 4096\<rparr>"
  using version_agreed [OF version_run [of VERSION9P 6]] version_run [of VERSION9P 6] by (simp add: VERSION9P_def bytes_def)

text \<open>Any initial part of the string is taken for the version the server speaks, the empty one too.\<close>

theorem empty_version_accepted:
  "mntversion (answering (wire (version_reply []))) (replicate MAXRPC 0) fresh None 0 0 None 1 () =
    Some (Inr [], Some \<lparr>mc_id = 1, mc_version = [], mc_msize = 4096\<rparr>, fresh\<lparr>ch_offset := 32\<rparr>, 2, ())"
  using version_run [of "[]" 0] by simp

subsection \<open>The end of a connection\<close>

lemma idle_queue:
  assumes "mreach F s" "NoMem \<notin> F" "{p. \<exists>rs a. ms_proc s p = In m rs a} = {}"
  shows "m_queue (ms_mnt s m) = []"
proof -
  have "queued s" using mreach_minv [OF assms(1,2)] by (simp add: minv_def)
  then have "set (m_queue (ms_mnt s m)) = {q \<in> pending (ms_proc s) m. dn s q = 0}" by (simp only: queued_def)
  moreover have "pends m (ms_proc s p) = {}" for p using assms(3) by (cases "ms_proc s p") auto
  then have "pending (ms_proc s) m = {}" by (simp add: pending_def)
  ultimately have "set (m_queue (ms_mnt s m)) = {}" by simp
  then show ?thesis by simp
qed

text \<open>
  When a connection is closed, no process being in a call on it, there is no request on its queue to
  be freed: pool, tags and the other connections stay as they are, only its own identifier and version go.
\<close>

theorem close_idle:
  assumes "mreach F s" "NoMem \<notin> F" "{p. \<exists>rs a. ms_proc s p = In m rs a} = {}"
  shows "muxclose m k s l = Some (k\<lparr>mc_id := 0, mc_version := []\<rparr>, s, mntpntfree m l)"
proof -
  have "m_queue (ms_mnt s m) = []" by (rule idle_queue [OF assms])
  moreover from this have "setmnt m (\<lambda>x. x\<lparr>m_queue := []\<rparr>) s = s" by (simp add: setmnt_def fun_upd_idem)
  ultimately show ?thesis by (simp add: muxclose_def)
qed

theorem close_idle_witness:
  "muxclose 0 small_conn (mstart (\<lambda>_. 8216)) \<lparr>cn_list = [2, 0, 1], cn_free = []\<rparr> =
    Some (\<lparr>mc_id = 0, mc_version = [], mc_msize = 28\<rparr>, mstart (\<lambda>_. 8216), \<lparr>cn_list = [2, 1], cn_free = [0]\<rparr>)"
  using close_idle [OF mreach_start, of "{}" "\<lambda>_. 8216" 0 small_conn "\<lparr>cn_list = [2, 0, 1], cn_free = []\<rparr>"]
  by (simp add: mntpntfree_def small_conn_def)

end
