(* ===== verification/Spec2Isabelle.thy ===== *)
theory Spec2Isabelle
  imports ConvS2M ConvM2S ConvDir Intmap Qlock FileTree SrvExamples QioWake MntRuns MntDevProps
begin

text \<open>
  A verification library for the 9P file service of 9atom (Plan 9), from the bytes of a message to
  the processes that wait for it.  A client system call enters the mount driver of the kernel
  (\<^verbatim>\<open>sys/src/9/port/devmnt.c\<close>), which encodes a request with the codec of \<^verbatim>\<open>sys/src/libc/9sys\<close> and
  writes it to a channel; on the way it is carried by the block queues of the kernel
  (\<^verbatim>\<open>sys/src/9/port/qio.c\<close>, \<^verbatim>\<open>allocb.c\<close>).  A file server built on \<^verbatim>\<open>sys/src/lib9p\<close> reads the message, keeps
  its fids and outstanding requests in hash tables, serves files from a tree, and answers; the
  answer comes back through the queues to the mount driver, which finds the process it is for.
  The locks of \<^verbatim>\<open>sys/src/9/port/qlock.c\<close> are the ones these parts sleep on.

  \<^bold>\<open>Conventions.\<close>  Names are those of the code.  Bytes, tags, fids and sizes have their width
  (\<^verbatim>\<open>uchar\<close>, \<^verbatim>\<open>ushort\<close>, \<^verbatim>\<open>u32int\<close>, \<^verbatim>\<open>uvlong\<close> are word types); a C \<^verbatim>\<open>int\<close> or \<^verbatim>\<open>long\<close> whose wrap-around
  cannot matter is an integer.  Memory is a list of bytes, a heap a partial map from addresses.  An
  outer \<open>None\<close> is always a fault of the program: an access outside a buffer, a dangling pointer, an
  \<^verbatim>\<open>assert\<close>, \<^verbatim>\<open>panic\<close> or \<^verbatim>\<open>sysfatal\<close>; the errors that the code reports are ordinary results.  Everything
  that models code is executable.  What is outside the modelled files enters as an argument: the
  callbacks of a file server and the user table of \<open>hasperm\<close>, memory that \<^verbatim>\<open>malloc\<close> returns or
  refuses, the outcome of device reads and writes.

  \<^bold>\<open>Theories, in the order of imports.\<close>
  \<^item> \<open>P9Base\<close> (prelude): bytes, little-endian integers of \<^verbatim>\<open>fcall.h\<close>, accesses to buffers that
    fail out of bounds, the simplification rules for the option monad.
  \<^item> \<open>Fcall\<close>, \<open>Wire\<close>: \<^verbatim>\<open>struct Fcall\<close>, the message types, and the wire form of a message as the
    manual has it, which serves as the specification of the codec.
  \<^item> \<open>ConvS2M\<close>, \<open>ConvM2S\<close>, \<open>ConvWf\<close>, \<open>ConvDir\<close>: the encoder and \<^verbatim>\<open>sizeS2M\<close>, the decoder, what an
    accepted message looks like, and the directory entries of \<^verbatim>\<open>convD2M.c\<close> and \<^verbatim>\<open>convM2D.c\<close>.  The
    encoder writes the wire form exactly, the decoder stays in its buffer on any input, and the
    two are inverse.  \<open>convM2S_at\<close> takes the width of pointers: a 32-bit count can wrap a 32-bit pointer, and
    \<open>ConvWf\<close> says exactly when a malformed message is then accepted; \<open>convM2S\<close>, with pointers that do not wrap, is
    what the other theories use.
  \<^item> \<open>Intmap\<close>: the hash table of \<^verbatim>\<open>lib9p/intmap.c\<close> refines a finite map.  The locale \<open>int_map\<close> states
    that contract once and is interpreted on the table (as \<open>im\<close>); the fid and request pools of the
    server rest on its facts.
  \<^item> \<open>Qlock\<close>: \<^verbatim>\<open>QLock\<close> and \<^verbatim>\<open>RWlock\<close> as state machines of processes; exclusion, exact queues of
    waiters, first-in first-out hand-over, and that the panics cannot occur.  The locale \<open>wait_queue\<close> is the
    contract of the queue of waiters, interpreted on the linked processes as \<open>wq\<close>.
  \<^item> \<open>FileTree\<close>: \<^verbatim>\<open>lib9p/file.c\<close> and \<^verbatim>\<open>uid.c\<close>: files with reference counts in a heap, and the
    invariant that counts are exact, links go both ways, and open directories keep what their readers point to, under
    every sequence of operations by clients that use what they hold.
  \<^item> \<open>Srv9p\<close>: \<^verbatim>\<open>lib9p/srv.c\<close>, \<^verbatim>\<open>fid.c\<close>, \<^verbatim>\<open>req.c\<close>: the service state, the pools, every handler
    and the replies.  \<open>SrvFids\<close> and \<open>SrvReqs\<close> hold the two reference-counting invariants,
    \<open>SrvReach\<close> the reachable states, \<open>SrvRun\<close> the service loop and the properties of
    runs, \<open>SrvRead\<close> the read helpers of \<^verbatim>\<open>util.c\<close> and \<^verbatim>\<open>dirread.c\<close>, \<open>SrvExamples\<close> concrete
    runs, among them those that abort the server.
  \<^item> \<open>Block\<close>, \<open>Qio\<close>: data blocks and strings of blocks (\<^verbatim>\<open>allocb.c\<close>, first half of \<^verbatim>\<open>qio.c\<close>), and
    the operations on a \<^verbatim>\<open>Queue\<close>.  \<open>QioSys\<close> interleaves a reader, a writer, interrupt routines and
    control operations: the queue is a byte stream and its counters are exact (\<open>pullupqueue\<close>, which the mount driver uses
    on a queue of its own, keeps the bytes but not the counters, and is not among the steps).  The locales \<open>stepper\<close> and
    \<open>streamer\<close> lift an invariant, and the bytes that go in and out, from steps to runs.  \<open>QioWake\<close> treats
    sleeping and wakeups, with the two interleavings in which a wakeup is lost.
  \<^item> \<open>MntRead\<close>, \<open>MntTag\<close>: reading replies off a connection, and the bit mask of tags.  The locale
    \<open>tag_pool\<close> is the contract of a tag allocator, interpreted on the mask as \<open>mnttags\<close>.
  \<^item> \<open>Mnt\<close>: requests, their pool and their queue, and every step of \<^verbatim>\<open>mountio\<close>.  \<open>MntSys\<close> gives
    the reachable states and an explicit step relation; \<open>MntInv\<close> shows who owns which structure,
    what the gate and the queue of a connection mean; \<open>MntTags\<close> that tags tell messages apart;
    \<open>MntReach\<close> proves the invariants of all reachable states, \<open>MntProps\<close> the properties of the
    driver from them, and \<open>MntRuns\<close> holds concrete runs, among them those in which the driver fails.
  \<^item> \<open>MntDev\<close>: the functions of the device above \<^verbatim>\<open>mountrpc\<close>: versions, attaching, walking, opening,
    status, reads and writes in pieces, directory entries, with the checks of names in \<^verbatim>\<open>chan.c\<close>,
    \<^verbatim>\<open>sysfile.c\<close> and \<^verbatim>\<open>rune.c\<close>, and the end of a connection.  They take \<^verbatim>\<open>mountio\<close> as an argument.
    \<open>MntDevProps\<close> shows that pieces make a whole, that requests fit the agreed size, that entries
    and names arrive checked, and what an exchange of versions settles.

  \<^bold>\<open>Kinds of results.\<close>  Codecs: round trips, exact output, safety on hostile input.  Data
  structures: refinement of an abstract map, set, stream or tree by the code's representation.
  Servers, locks, queues and the driver: inductive invariants over all reachable states of a
  relation in which the environment chooses every message, note, device error and
  interleaving, and from them absence of faults, exclusion, delivery, and absence of lost
  wakeups.  Where such a property fails in the code, the run that breaks it is proved instead, and
  the hypothesis that excludes it is named in the statement.

  \<^bold>\<open>Bounds.\<close>  Recursion that follows a list or a number is structural.  \<open>respond\<close> answers the
  flushes that wait for a request, which may have flushes of their own: its fuel (\<open>depth\<close>) is
  \<open>2 * sv_next + 4\<close>, where \<open>sv_next\<close> is larger than every address in use; a flush that waits is
  younger than the request it waits for, so that no reachable state runs out of it.  The loop of \<open>srv\<close> consumes a message per
  round, so its fuel is the number of bytes to read.  Loops over blocks and queue entries are
  bounded by their length.  The rounds of \<open>mntrdwr\<close> are at most one more than the bytes asked for, as each but
  the last transfers one; the scans of a name and of directory entries take a byte at least.

  \<^bold>\<open>Not modelled.\<close>  Of the mount driver: its statistics, the cache of \<^verbatim>\<open>cache.c\<close>, which is an argument of
  the functions that use it, reference counts and path names of channels, and \<^verbatim>\<open>malloc\<close> failing in \<open>mntversion\<close>;
  of \<^verbatim>\<open>chan.c\<close> and \<^verbatim>\<open>sysfile.c\<close> only what the driver calls is here, not the name space and the system calls.
  Of the queues: \<open>qfree\<close>, counters and their printing, and notes that take a process out of \<^verbatim>\<open>sleep\<close>.  Of
  the decoder: a buffer in the last 64 kilobytes of a 32-bit address space.  Of lib9p: posting a service and its processes,
  which is pure I/O.  Scheduling appears as the choice of the next step; physical memory, page
  tables, device registers, and the programs, libraries, compilers and other kernels of the tree
  are not part of the file service and are left out.
\<close>

section \<open>The 9P message codec\<close>

text \<open>
  C1. Encoding then decoding a message is the identity: for every message that has a wire form
  and whose strings hold no NUL byte, \<open>convS2M\<close> fills a large enough buffer and \<open>convM2S\<close>
  accepts the bytes at their full length and stores exactly the members the message type
  transports into any structure \<open>g\<close>.
\<close>

theorem fcall_roundtrip:
  assumes "fcall_ok f" "no_nul f" "wire_size f \<le> nap" "nap \<le> length buf"
  shows "\<exists>buf' b. convS2M f buf nap = Some (wire_size f, buf') \<and>
    convM2S buf' nap g = Some (b, Some (wire_size f, carry f g))"
proof -
  have "\<exists>b. convM2S (img (wire f) buf) nap g = Some (b, Some (wire_size f, carry f g))"
    unfolding img_def using assms by (intro ConvM2S.convM2S_wire) auto
  with ConvS2M.convS2M_wire [OF assms(1,4)] assms(3) show ?thesis by auto
qed

definition example_walk :: fcall where
  "example_walk = zero_fcall\<lparr>fc_type := 110, fc_tag := 7, fc_fid := 1, fc_newfid := 2, fc_nwname := 2,
     fc_wname := [Some [117, 115, 114], Some [103, 108, 101, 110, 100, 97]]\<rparr>"

lemma example_walk_ok: "fcall_ok example_walk" "no_nul example_walk" "wire_size example_walk = 30"
  by (simp_all add: example_walk_def zero_fcall_def fcall_ok_def msg_types_def msg_strings_def
    counts_ok_def str_ok_def wire_size_def wire_body_def MAXWELEM_def no_nul_def)

theorem fcall_roundtrip_witness:
  "\<exists>buf' b. convS2M example_walk (replicate 32 0) 32 = Some (30, buf') \<and>
    convM2S buf' 32 zero_fcall = Some (b, Some (30, carry example_walk zero_fcall))"
  using fcall_roundtrip [of example_walk 32 "replicate 32 0" zero_fcall] example_walk_ok by simp

end
